(* ===== verification/Prelude.thy ===== *)
theory Prelude
  imports "HOL-Library.Word" "HOL-Library.List_Lexorder"
begin

text \<open>
  What the components share: bytes and byte strings with their lexicographic order, the
  byte memory of a page (\<open>load\<close> and \<open>store\<close>, the model of \<open>memcpy\<close>), \<open>memcmp\<close>, unsigned
  C subtraction with its wrap-around, little- and big-endian integers, and lists that a
  lower bound splits.
\<close>

named_theorems mem_simps "reads of an updated page memory"
named_theorems c_arith "C unsigned arithmetic inside its range"

subsection \<open>Bytes, keys and page memory\<close>

type_synonym byte = "8 word"
type_synonym bytes = "8 word list"
type_synonym memory = "nat \<Rightarrow> 8 word"
type_synonym ptr = nat

definition load :: "memory \<Rightarrow> nat \<Rightarrow> nat \<Rightarrow> bytes" where
  "load m off n = map m [off..<off + n]"

definition store :: "memory \<Rightarrow> nat \<Rightarrow> bytes \<Rightarrow> memory" where
  "store m off bs = (\<lambda>i. if off \<le> i \<and> i < off + length bs then bs ! (i - off) else m i)"

lemma length_load [simp]: "length (load m off n) = n"
  by (simp add: load_def)

lemma load_0 [simp]: "load m off 0 = []"
  by (simp add: load_def)

lemma nth_load [simp]: "i < n \<Longrightarrow> load m off n ! i = m (off + i)"
  by (simp add: load_def)

lemma load_eqI: "(\<And>i. i < n \<Longrightarrow> m (a + i) = m' (b + i)) \<Longrightarrow> load m a n = load m' b n"
  by (rule nth_equalityI) auto

lemma load_add: "load m off (a + b) = load m off a @ load m (off + a) b"
  by (rule nth_equalityI) (auto simp: nth_append)

lemma take_load [simp]: "take k (load m off n) = load m off (min k n)"
  by (rule nth_equalityI) auto

lemma drop_load [simp]: "drop k (load m off n) = load m (off + k) (n - k)"
  by (rule nth_equalityI) (auto simp: add.assoc)

lemma load_store_other [mem_simps]:
  "off' + n \<le> off \<or> off + length bs \<le> off' \<Longrightarrow> load (store m off bs) off' n = load m off' n"
  by (rule load_eqI) (auto simp: store_def)

lemma load_store_same [mem_simps]: "n = length bs \<Longrightarrow> load (store m off bs) off n = bs"
  by (rule nth_equalityI) (auto simp: store_def)

lemma store_apply_other [mem_simps]:
  "i < off \<or> off + length bs \<le> i \<Longrightarrow> store m off bs i = m i"
  by (auto simp: store_def)

lemma store_append:
  "store m off (xs @ ys) = store (store m off xs) (off + length xs) ys"
  by (auto simp: store_def nth_append fun_eq_iff)

text \<open>\<open>memmove\<close> inside an array that is modelled as a function of the index.\<close>

definition memmove_array :: "(nat \<Rightarrow> 'a) \<Rightarrow> nat \<Rightarrow> nat \<Rightarrow> nat \<Rightarrow> (nat \<Rightarrow> 'a)" where
  "memmove_array f dst src n = (\<lambda>j. if dst \<le> j \<and> j < dst + n then f (src + (j - dst)) else f j)"

text \<open>The elements of such an array when a place is opened or closed in it.\<close>

lemma memmove_insert:
  assumes "i \<le> c"
  shows "map ((memmove_array f (i + 1) i (c - i))(i := x)) [0..<Suc c] = take i (map f [0..<c]) @ x # drop i (map f [0..<c])"
  by (rule nth_equalityI) (use assms in \<open>auto simp: memmove_array_def nth_append nth_Cons' simp del: upt_Suc\<close>)

lemma memmove_remove:
  assumes "i < c"
  shows "map (memmove_array f i (i + 1) (c - i - 1)) [0..<c - 1] = take i (map f [0..<c]) @ drop (Suc i) (map f [0..<c])"
  by (rule nth_equalityI) (use assms in \<open>auto simp: memmove_array_def nth_append\<close>)

subsection \<open>C unsigned subtraction\<close>

definition sub16 :: "nat \<Rightarrow> nat \<Rightarrow> nat" where
  "sub16 a b = nat ((int a - int b) mod 2 ^ 16)"

definition add16 :: "nat \<Rightarrow> nat \<Rightarrow> nat" where
  "add16 a b = (a + b) mod 2 ^ 16"

definition sub32 :: "nat \<Rightarrow> nat \<Rightarrow> nat" where
  "sub32 a b = nat ((int a - int b) mod 2 ^ 32)"

lemma sub16_eq [c_arith]: "b \<le> a \<Longrightarrow> a < 65536 \<Longrightarrow> sub16 a b = a - b"
  by (simp add: sub16_def nat_diff_distrib')

lemma add16_eq [c_arith]: "a + b < 65536 \<Longrightarrow> add16 a b = a + b"
  by (simp add: add16_def)

lemma sub32_eq [c_arith]: "b \<le> a \<Longrightarrow> a < 4294967296 \<Longrightarrow> sub32 a b = a - b"
  by (simp add: sub32_def nat_diff_distrib')

lemma sub16_less: "sub16 a b < 65536"
  by (simp add: sub16_def nat_less_iff)

lemma add16_less: "add16 a b < 65536"
  by (simp add: add16_def)

definition u16 :: "nat \<Rightarrow> nat" where
  "u16 x = x mod 2 ^ 16"

definition u32 :: "nat \<Rightarrow> nat" where
  "u32 x = x mod 2 ^ 32"

lemma u16_eq [c_arith]: "x < 65536 \<Longrightarrow> u16 x = x"
  by (simp add: u16_def)

lemma u32_eq [c_arith]: "x < 4294967296 \<Longrightarrow> u32 x = x"
  by (simp add: u32_def)

text \<open>\<open>for (i = lo; i < hi; i++) if (p(i)) break;\<close> and the value of \<open>i\<close> after it.\<close>

function for_until :: "(nat \<Rightarrow> bool) \<Rightarrow> nat \<Rightarrow> nat \<Rightarrow> nat" where
  "for_until p i n = (if i < n \<and> \<not> p i then for_until p (Suc i) n else i)"
  by pat_completeness auto
termination
  by (relation "measure (\<lambda>(p, i, n). n - i)") auto

declare for_until.simps [simp del]

lemma for_until_bounds: "i \<le> n \<Longrightarrow> i \<le> for_until p i n \<and> for_until p i n \<le> n"
proof (induction p i n rule: for_until.induct)
  case (1 p i n)
  then show ?case by (cases "i < n \<and> \<not> p i") (auto simp: for_until.simps [of p i n])
qed

lemma for_until_before: "i \<le> j \<Longrightarrow> j < for_until p i n \<Longrightarrow> \<not> p j"
proof (induction p i n arbitrary: j rule: for_until.induct)
  case (1 p i n)
  show ?case
  proof (cases "i < n \<and> \<not> p i")
    case True
    then have "for_until p i n = for_until p (Suc i) n" by (subst for_until.simps) simp
    with 1 True show ?thesis by (cases "i = j") auto
  next
    case False
    then have "for_until p i n = i" by (subst for_until.simps) (simp only: if_False)
    with 1 show ?thesis by simp
  qed
qed

lemma for_until_stop: "for_until p i n < n \<Longrightarrow> p (for_until p i n)"
proof (induction p i n rule: for_until.induct)
  case (1 p i n)
  then show ?case by (cases "i < n \<and> \<not> p i") (auto simp: for_until.simps [of p i n])
qed

subsection \<open>\<open>memcmp\<close> and the order of keys\<close>

text \<open>
  \<open>memcmp\<close> on two byte strings of the same length: the sign of the first difference. Keys
  are ordered lexicographically, a proper prefix first, which is the order of
  \<open>HOL-Library.List_Lexorder\<close>.
\<close>

fun memcmp :: "bytes \<Rightarrow> bytes \<Rightarrow> int" where
  "memcmp (x # xs) (y # ys) = (if x < y then - 1 else if y < x then 1 else memcmp xs ys)"
| "memcmp _ _ = 0"

text \<open>The three-way comparison the node searches are built from: \<open>memcmp\<close> on the common
  length, then the lengths.\<close>

definition key_cmp :: "bytes \<Rightarrow> bytes \<Rightarrow> int" where
  "key_cmp a b =
     (let n = min (length a) (length b); c = memcmp (take n a) (take n b)
      in if c < 0 then - 1 else if c > 0 then 1
         else if length a < length b then - 1
         else if length a > length b then 1 else 0)"

lemma key_cmp_Nil1 [simp]: "key_cmp [] b = (if b = [] then 0 else - 1)"
  by (simp add: key_cmp_def Let_def)

lemma key_cmp_Nil2 [simp]: "key_cmp (a # as) [] = 1"
  by (simp add: key_cmp_def Let_def)

lemma key_cmp_Cons [simp]:
  "key_cmp (a # as) (b # bs) = (if a < b then - 1 else if b < a then 1 else key_cmp as bs)"
  by (simp add: key_cmp_def Let_def)

lemma key_cmp_less: "key_cmp a b = - 1 \<longleftrightarrow> a < b"
  by (induction a b rule: list_induct2') auto

lemma key_cmp_greater: "key_cmp a b = 1 \<longleftrightarrow> b < a"
  by (induction a b rule: list_induct2') auto

lemma key_cmp_equal: "key_cmp a b = 0 \<longleftrightarrow> a = b"
  by (induction a b rule: list_induct2') auto

lemma less_append_same [simp]: "(p @ a < p @ b) = (a < (b :: bytes))"
  by (induction p) auto

lemma le_append_same [simp]: "(p @ a \<le> p @ b) = (a \<le> (b :: bytes))"
  by (induction p) auto

lemma le_append1 [simp]: "(a :: bytes) \<le> a @ b"
  by (induction a) auto

lemma less_append1: "b \<noteq> [] \<Longrightarrow> (a :: bytes) < a @ b"
  by (induction a) (auto simp: neq_Nil_conv)

subsection \<open>Integers in memory\<close>

fun le_encode :: "nat \<Rightarrow> nat \<Rightarrow> bytes" where
  "le_encode 0 x = []"
| "le_encode (Suc n) x = word_of_nat (x mod 256) # le_encode n (x div 256)"

fun le_decode :: "bytes \<Rightarrow> nat" where
  "le_decode [] = 0"
| "le_decode (b # bs) = unat b + 256 * le_decode bs"

text \<open>Big-endian value of the first \<open>n\<close> bytes, zero bytes appended to a shorter string.\<close>

fun be_pad :: "nat \<Rightarrow> bytes \<Rightarrow> nat" where
  "be_pad 0 _ = 0"
| "be_pad (Suc n) [] = 0"
| "be_pad (Suc n) (x # xs) = unat x * 256 ^ n + be_pad n xs"

lemma be_pad_numeral [simp]:
  "be_pad (numeral k) (x # xs) =
     unat x * 256 ^ pred_numeral k + be_pad (pred_numeral k) xs"
  by (simp only: numeral_eq_Suc be_pad.simps)

lemma length_le_encode [simp]: "length (le_encode n x) = n"
  by (induction n arbitrary: x) auto

lemma unat_byte_less [simp]: "unat (b :: byte) < 256"
  using unsigned_less [where w = b and 'a = nat] by simp

lemma unat_of_nat_mod256 [simp]: "unat (word_of_nat (x mod 256) :: byte) = x mod 256"
  by (simp add: unat_of_nat)

lemma le_decode_encode: "x < 256 ^ n \<Longrightarrow> le_decode (le_encode n x) = x"
proof (induction n arbitrary: x)
  case 0
  then show ?case by simp
next
  case (Suc n)
  then have "x div 256 < 256 ^ n" by (simp add: less_mult_imp_div_less mult.commute)
  with Suc.IH show ?case by simp
qed

lemma le_encode_decode: "n = length bs \<Longrightarrow> le_encode n (le_decode bs) = bs"
  by (induction bs arbitrary: n) auto

lemma le_decode_less: "le_decode bs < 256 ^ length bs"
proof (induction bs)
  case Nil
  then show ?case by simp
next
  case (Cons b bs)
  have "unat b + 256 * le_decode bs < 256 + 256 * le_decode bs" by simp
  also have "\<dots> \<le> 256 * 256 ^ length bs" using Cons by (simp add: Suc_le_eq)
  finally show ?case by simp
qed

lemma be_pad_less: "be_pad n xs < 256 ^ n"
proof (induction n xs rule: be_pad.induct)
  case (3 n x xs)
  have "unat x * 256 ^ n + be_pad n xs < (unat x + 1) * 256 ^ n" using 3 by simp
  also have "\<dots> \<le> 256 * 256 ^ n"
    by (rule mult_le_mono1) (use unat_byte_less [of x] in linarith)
  finally show ?case by simp
qed auto

lemma be_pad_first_less:
  assumes "unat x < unat (y :: byte)"
  shows "unat x * 256 ^ n + be_pad n xs < unat y * 256 ^ n + be_pad n ys"
proof -
  have "unat x * 256 ^ n + be_pad n xs < (unat x + 1) * 256 ^ n"
    using be_pad_less [of n xs] by simp
  also have "\<dots> \<le> unat y * 256 ^ n" using assms by (intro mult_le_mono1) simp
  finally show ?thesis by simp
qed

lemma be_pad_Nil [simp]: "be_pad n [] = 0"
  by (cases n) auto

lemma be_pad_mono: "xs \<le> ys \<Longrightarrow> be_pad n xs \<le> be_pad n ys"
proof (induction n xs arbitrary: ys rule: be_pad.induct)
  case (3 n x xs)
  then show ?case
    by (cases ys)
      (auto simp: word_less_nat_alt intro: less_imp_le [OF be_pad_first_less])
qed auto

lemma be_pad_less_imp: "be_pad n xs < be_pad n ys \<Longrightarrow> xs < ys"
  using be_pad_mono [of ys xs n] by (meson leD leI)

lemma be_pad_snoc_le_decode: "be_pad (length xs) xs = le_decode (rev xs)"
proof (induction xs)
  case Nil
  then show ?case by simp
next
  case (Cons x xs)
  have app: "le_decode (us @ [u]) = le_decode us + unat u * 256 ^ length us" for us u
    by (induction us) (auto simp: algebra_simps)
  from Cons show ?case by (simp add: app)
qed

lemma be_pad_append_zero: "be_pad (n + k) xs = be_pad n xs * 256 ^ k" if "length xs \<le> n"
  using that
proof (induction n xs rule: be_pad.induct)
  case (3 n x xs)
  then show ?case by (simp add: algebra_simps power_add)
qed auto

lemma be_pad_inj:
  assumes "length xs = n" "length ys = n" "be_pad n xs = be_pad n ys"
  shows "xs = ys"
proof -
  have "le_decode (rev xs) = le_decode (rev ys)"
    using assms(3) be_pad_snoc_le_decode [of xs] be_pad_snoc_le_decode [of ys] by (simp only: assms(1,2))
  then have "rev xs = rev ys"
    using assms(1,2) le_encode_decode [of n "rev xs"] le_encode_decode [of n "rev ys"] by (metis length_rev)
  then show ?thesis by simp
qed

lemma be_pad_zeros: "be_pad n (xs @ replicate m 0) = be_pad n xs"
proof (induction n xs rule: be_pad.induct)
  case (2 n)
  have "be_pad n (replicate m 0) = 0" for n :: nat
  proof (induction m arbitrary: n)
    case (Suc m)
    then show ?case by (cases n) simp_all
  qed simp
  then show ?case by simp
qed simp_all

lemma be_pad_strict:
  assumes "length xs = n" "length ys \<le> n" "xs < ys"
  shows "be_pad n xs < be_pad n ys"
proof -
  let ?zs = "ys @ replicate (n - length ys) 0"
  have "xs < ?zs" using assms(3) le_append1 [of ys] order_less_le_trans by blast
  then have "be_pad n xs \<le> be_pad n ?zs" "xs \<noteq> ?zs" by (auto intro: be_pad_mono less_imp_le)
  then have "be_pad n xs < be_pad n ?zs"
    using be_pad_inj [of xs n ?zs] assms(1,2) by (auto simp: order_less_le)
  then show ?thesis by (simp only: be_pad_zeros)
qed

lemma take_le_encode: "m \<le> n \<Longrightarrow> take m (le_encode n x) = le_encode m x"
proof (induction m arbitrary: n x)
  case (Suc m)
  then show ?case by (cases n) simp_all
qed simp

lemma le_decode_encode_mod: "le_decode (le_encode n x) = x mod 256 ^ n"
proof (induction n arbitrary: x)
  case (Suc n)
  have "x mod 256 + 256 * (x div 256 mod 256 ^ n) = x mod (256 * 256 ^ n)"
    by (simp add: mod_mult2_eq)
  with Suc show ?case by simp
qed simp

text \<open>Shifting the first \<open>d\<close> bytes out at the top.\<close>

lemma be_pad_shift1:
  assumes "length xs \<le> n"
  shows "be_pad n xs * 256 mod 256 ^ n = be_pad n (drop 1 xs)"
proof (cases xs)
  case (Cons x ys)
  then obtain m where m: "n = Suc m" using assms by (cases n) auto
  have len: "length ys \<le> m" using assms Cons m by simp
  have ys: "be_pad n ys = be_pad m ys * 256" using be_pad_append_zero [OF len, of 1] m by simp
  have "be_pad n xs * 256 = unat x * 256 ^ n + be_pad n ys"
    using ys by (simp add: Cons m algebra_simps)
  also have "\<dots> mod 256 ^ n = be_pad n ys"
    using be_pad_less [of n ys] by simp
  finally show ?thesis by (simp add: Cons)
qed simp

lemma be_pad_shift:
  "length xs \<le> n \<Longrightarrow> be_pad n xs * 256 ^ d mod 256 ^ n = be_pad n (drop d xs)"
proof (induction d arbitrary: xs)
  case 0
  then show ?case by (simp add: be_pad_less)
next
  case (Suc d)
  have "be_pad n xs * 256 ^ Suc d mod 256 ^ n = (be_pad n xs * 256 mod 256 ^ n) * 256 ^ d mod 256 ^ n"
    by (simp only: mod_mult_left_eq power_Suc mult.assoc)
  also have "\<dots> = be_pad n (drop 1 xs) * 256 ^ d mod 256 ^ n" by (simp only: be_pad_shift1 [OF Suc.prems])
  also have "\<dots> = be_pad n (drop d (drop 1 xs))" by (rule Suc.IH) (use Suc.prems in simp)
  finally show ?case by simp
qed

lemma be_pad_snoc: "length xs = n \<Longrightarrow> be_pad (Suc n) (xs @ [x]) = be_pad n xs * 256 + unat x"
  by (induction xs arbitrary: n) (auto simp: algebra_simps)

lemma be_pad_order:
  "length xs = n \<Longrightarrow> length ys = n \<Longrightarrow> be_pad n xs < be_pad n ys \<longleftrightarrow> xs < ys"
  by (metis be_pad_less_imp be_pad_strict order_refl)

subsection \<open>Common prefixes\<close>

fun lcp :: "bytes \<Rightarrow> bytes \<Rightarrow> nat" where
  "lcp (x # xs) (y # ys) = (if x = y then Suc (lcp xs ys) else 0)"
| "lcp _ _ = 0"

lemma lcp_le1: "lcp xs ys \<le> length xs"
  by (induction xs ys rule: lcp.induct) auto

lemma lcp_le2: "lcp xs ys \<le> length ys"
  by (induction xs ys rule: lcp.induct) auto

lemma lcp_take: "take (lcp xs ys) xs = take (lcp xs ys) ys"
  by (induction xs ys rule: lcp.induct) auto

lemma lcp_Nil2 [simp]: "lcp xs [] = 0"
  by (cases xs) auto

lemma lcp_greatest: "take n xs = take n ys \<Longrightarrow> n \<le> length xs \<Longrightarrow> n \<le> length ys \<Longrightarrow> n \<le> lcp xs ys"
proof (induction xs ys arbitrary: n rule: lcp.induct)
  case (1 x xs y ys)
  then show ?case by (cases n) auto
qed auto

text \<open>The loop that computes the length of the common prefix.\<close>

lemma for_until_lcp: "for_until (\<lambda>i. xs ! i \<noteq> ys ! i) 0 (min (length ys) (length xs)) = lcp xs ys"
proof -
  let ?n = "min (length ys) (length xs)" and ?p = "\<lambda>i. xs ! i \<noteq> ys ! i"
  let ?i = "for_until ?p 0 ?n"
  have b: "?i \<le> ?n" using for_until_bounds [of 0 ?n ?p] by simp
  have "take ?i xs = take ?i ys"
  proof (rule nth_equalityI)
    show "length (take ?i xs) = length (take ?i ys)" using b by simp
    show "take ?i xs ! j = take ?i ys ! j" if "j < length (take ?i xs)" for j
    proof -
      from that have "j < ?i" by simp
      with for_until_before [of 0 j ?p ?n] have "xs ! j = ys ! j" by blast
      with \<open>j < ?i\<close> show ?thesis by simp
    qed
  qed
  then have le: "?i \<le> lcp xs ys" using b by (intro lcp_greatest) auto
  have "\<not> ?i < lcp xs ys"
  proof
    assume lt: "?i < lcp xs ys"
    then have "?i < ?n" using lcp_le1 [of xs ys] lcp_le2 [of xs ys] by simp
    from for_until_stop [of ?p 0, OF this] have "xs ! ?i \<noteq> ys ! ?i" .
    moreover have "take (lcp xs ys) xs ! ?i = take (lcp xs ys) ys ! ?i" by (subst lcp_take) (rule refl)
    ultimately show False by (simp only: nth_take [OF lt])
  qed
  with le show ?thesis by linarith
qed

text \<open>A key between two keys starts with their common prefix.\<close>

lemma prefix_between:
  fixes lo k hi :: bytes
  assumes "lo \<le> k" "k \<le> hi" "take n lo = take n hi" "n \<le> length lo" "n \<le> length hi"
  shows "n \<le> length k \<and> take n k = take n lo"
  using assms
proof (induction n arbitrary: lo k hi)
  case (Suc n)
  from Suc.prems obtain a lo' b hi' where lo: "lo = a # lo'" and hi: "hi = b # hi'"
    by (cases lo; cases hi) auto
  from Suc.prems lo hi obtain c k' where k: "k = c # k'" by (cases k) auto
  from Suc.prems lo hi k have "a = b" "a \<le> c" "c \<le> b" by auto
  then have "a = b" "c = a" by auto
  with Suc.prems lo hi k have "lo' \<le> k'" "k' \<le> hi'" by auto
  with Suc.IH [of lo' k' hi'] Suc.prems lo hi k \<open>a = b\<close> \<open>c = a\<close> show ?case by simp
qed simp

subsection \<open>Lists a lower bound splits\<close>

text \<open>\<open>is_lower_bound xs k i\<close>: the elements before \<open>i\<close> are smaller than \<open>k\<close>, the others are
  not. On a strictly sorted list there is exactly one such position.\<close>

definition is_lower_bound :: "'a::linorder list \<Rightarrow> 'a \<Rightarrow> nat \<Rightarrow> bool" where
  "is_lower_bound xs k i \<longleftrightarrow>
     i \<le> length xs \<and> (\<forall>j<i. xs ! j < k) \<and> (\<forall>j. i \<le> j \<and> j < length xs \<longrightarrow> k \<le> xs ! j)"

lemma is_lower_bound_unique:
  assumes "is_lower_bound xs k i" "is_lower_bound xs k j"
  shows "i = j"
proof -
  have "\<not> a < b" if a: "is_lower_bound xs k a" and b: "is_lower_bound xs k b" for a b
  proof
    assume "a < b"
    with b have "xs ! a < k" "a < length xs" by (auto simp: is_lower_bound_def)
    moreover from a \<open>a < length xs\<close> have "k \<le> xs ! a" by (simp add: is_lower_bound_def)
    ultimately show False by simp
  qed
  with assms show ?thesis by (meson linorder_neqE_nat)
qed

lemma is_lower_bound_mem:
  assumes "sorted_wrt (<) xs" "is_lower_bound xs k i"
  shows "k \<in> set xs \<longleftrightarrow> i < length xs \<and> xs ! i = k"
proof
  assume "k \<in> set xs"
  then obtain j where j: "j < length xs" "xs ! j = k" by (auto simp: in_set_conv_nth)
  from assms(2) j have ij: "i \<le> j" by (auto simp: is_lower_bound_def not_le [symmetric])
  have "\<not> i < j"
  proof
    assume "i < j"
    with assms(1) j have "xs ! i < k" by (auto simp: sorted_wrt_iff_nth_less)
    moreover from \<open>i < j\<close> j assms(2) have "k \<le> xs ! i" by (simp add: is_lower_bound_def)
    ultimately show False by simp
  qed
  with ij j show "i < length xs \<and> xs ! i = k" by auto
qed auto

lemma sorted_wrt_insert_at:
  assumes "sorted_wrt (<) xs" "is_lower_bound xs k i" "k \<notin> set xs"
  shows "sorted_wrt (<) (take i xs @ k # drop i xs)"
proof -
  have "x < k" if x: "x \<in> set (take i xs)" for x
    using x assms(2) unfolding is_lower_bound_def by (auto simp: in_set_conv_nth)
  moreover have "k < x" if x: "x \<in> set (drop i xs)" for x
  proof -
    from x obtain j where "j < length xs - i" "x = xs ! (i + j)" by (auto simp: in_set_conv_nth)
    with assms(2) have "k \<le> x" unfolding is_lower_bound_def by auto
    moreover from x assms(3) have "x \<noteq> k" by (auto dest: in_set_dropD)
    ultimately show ?thesis by simp
  qed
  moreover have "sorted_wrt (<) (take i xs @ drop i xs)" using assms(1) by simp
  ultimately show ?thesis unfolding sorted_wrt_append by (auto intro: less_trans)
qed

lemma map_of_insert_at:
  assumes "k \<notin> fst ` set es"
  shows "map_of (take i es @ (k, v) # drop i es) = (map_of es)(k \<mapsto> v)"
proof -
  have "map_of es = map_of (take i es @ drop i es)" by simp
  also have "\<dots> = map_of (drop i es) ++ map_of (take i es)" by (simp only: map_of_append)
  finally have es: "map_of es = map_of (drop i es) ++ map_of (take i es)" .
  have "map_of (take i es) k = None"
    using assms by (auto simp: map_of_eq_None_iff dest: in_set_takeD)
  then show ?thesis by (auto simp: es map_add_def fun_eq_iff split: option.splits)
qed

lemma map_of_remove_at:
  assumes "distinct (map fst es)" "i < length es"
  shows "map_of (take i es @ drop (Suc i) es) = (map_of es)(fst (es ! i) := None)"
proof -
  obtain k v where kv: "es ! i = (k, v)" by (cases "es ! i")
  have split: "es = take i es @ (k, v) # drop (Suc i) es"
    using assms(2) kv by (metis id_take_nth_drop)
  then have "distinct (map fst (take i es @ (k, v) # drop (Suc i) es))" using assms(1) by metis
  then have "map_of (take i es) k = None" "map_of (drop (Suc i) es) k = None"
    by (auto simp: map_of_eq_None_iff)
  moreover have "map_of es = map_of (take i es @ (k, v) # drop (Suc i) es)" using split by metis
  ultimately show ?thesis
    by (auto simp: kv map_add_def fun_eq_iff split: option.splits)
qed

subsection \<open>The binary search the node types share\<close>

text \<open>
  \<open>lowerBound\<close> of every node type is the same halving loop over its own three-way comparison
  of the searched key with a slot. The locale states the loop as its equation and the
  comparison as a search key against a strictly ascending array; each node type interprets
  it on its own loop.
\<close>

locale halving_search =
  fixes search :: "nat \<Rightarrow> nat \<Rightarrow> nat \<times> bool"
    and cmp :: "nat \<Rightarrow> int"
  assumes search_eq: "search lo hi =
    (if lo < hi then
       (let mid = (hi - lo) div 2 + lo
        in if cmp mid < 0 then search lo mid
           else if cmp mid > 0 then search (mid + 1) hi
           else (mid, True))
     else (lo, False))"
begin

lemma search_result:
  fixes ks :: "'k::linorder list"
  assumes cmp: "\<And>i. i < length ks \<Longrightarrow>
      (cmp i < 0 \<longleftrightarrow> k < ks ! i) \<and> (cmp i > 0 \<longleftrightarrow> ks ! i < k)"
    and sorted: "sorted_wrt (<) ks"
  shows "lo \<le> hi \<Longrightarrow> hi \<le> length ks \<Longrightarrow> \<forall>j<lo. ks ! j < k
     \<Longrightarrow> \<forall>j. hi \<le> j \<and> j < length ks \<longrightarrow> k \<le> ks ! j
     \<Longrightarrow> is_lower_bound ks k (fst (search lo hi)) \<and>
         (snd (search lo hi) \<longrightarrow> fst (search lo hi) < length ks \<and> ks ! fst (search lo hi) = k) \<and>
         (\<not> snd (search lo hi) \<longrightarrow> (\<forall>j<hi. ks ! j \<noteq> k))"
proof (induction "hi - lo" arbitrary: lo hi rule: less_induct)
  case less
  show ?case
  proof (cases "lo < hi")
    case False
    then have "search lo hi = (lo, False)" by (subst search_eq) simp
    with False less.prems show ?thesis by (auto simp: is_lower_bound_def)
  next
    case True
    define mid where "mid = (hi - lo) div 2 + lo"
    have mid: "lo \<le> mid" "mid < hi" using True by (auto simp: mid_def)
    with less.prems have len: "mid < length ks" by simp
    have step: "search lo hi = (if cmp mid < 0 then search lo mid
        else if cmp mid > 0 then search (mid + 1) hi else (mid, True))"
      using True by (simp add: search_eq [of lo hi] mid_def Let_def)
    have mono: "ks ! i \<le> ks ! j" if "i \<le> j" "j < length ks" for i j
      using that sorted by (cases "i = j") (auto simp: sorted_wrt_iff_nth_less intro: less_imp_le)
    have above: "k \<le> ks ! j" if "k \<le> ks ! mid" "mid \<le> j" "j < length ks" for j
      using order_trans [OF that(1) mono [OF that(2,3)]] .
    have below: "ks ! j < k" if "ks ! mid < k" "j \<le> mid" for j
      using order_le_less_trans [OF mono [OF that(2) len] that(1)] .
    have above': "k < ks ! j" if "k < ks ! mid" "mid \<le> j" "j < length ks" for j
      using order_less_le_trans [OF that(1) mono [OF that(2,3)]] .
    consider "cmp mid < 0" | "cmp mid > 0" | "cmp mid = 0" by linarith
    then show ?thesis
    proof cases
      case 1
      with cmp [OF len] have lt: "k < ks ! mid" by simp
      with above' have no: "\<forall>j. mid \<le> j \<and> j < length ks \<longrightarrow> ks ! j \<noteq> k" by fastforce
      have "is_lower_bound ks k (fst (search lo mid)) \<and>
         (snd (search lo mid) \<longrightarrow> fst (search lo mid) < length ks \<and> ks ! fst (search lo mid) = k) \<and>
         (\<not> snd (search lo mid) \<longrightarrow> (\<forall>j<mid. ks ! j \<noteq> k))"
        by (rule less.hyps) (use mid len less.prems above lt in auto)
      with 1 step no less.prems(2) show ?thesis by (auto simp: not_le [symmetric])
    next
      case 2
      with cmp [OF len] have "ks ! mid < k" by simp
      then show ?thesis
        using 2 step mid less.prems less.hyps [of hi "mid + 1"] below by auto
    next
      case 3
      with cmp [OF len] have eq: "ks ! mid = k" by (metis less_irrefl linorder_neqE)
      then have "is_lower_bound ks k mid"
        using len sorted above by (auto simp: is_lower_bound_def sorted_wrt_iff_nth_less)
      with 3 step len eq show ?thesis by simp
    qed
  qed
qed

end

subsection \<open>Search hints\<close>

text \<open>
  Basic and head nodes keep, for \<open>H\<close> positions at equal distances, an image of the key that
  \<open>h\<close> computes. Two loops over these hints narrow the search to a range that still brackets
  the lower bound.
\<close>

lemma hint_brackets:
  fixes ks :: "'k::linorder list" and h :: "'k \<Rightarrow> 'h::linorder"
  assumes sorted: "sorted_wrt (<) ks" and h_mono: "\<And>x y. x \<le> y \<Longrightarrow> h x \<le> h y"
    and d0: "0 < dist" and cnt: "(H + 1) * dist \<le> length ks"
    and hint: "\<And>p. p < H \<Longrightarrow> hint p = h (ks ! (dist * (p + 1)))"
    and lo: "lo = for_until (\<lambda>p. h k \<le> hint p) 0 H * dist"
    and hi: "hi = (let pos2 = for_until (\<lambda>p. hint p \<noteq> h k) (for_until (\<lambda>p. h k \<le> hint p) 0 H) H
                   in if pos2 < H then (pos2 + 1) * dist else length ks)"
  shows "lo \<le> hi \<and> hi \<le> length ks \<and> (\<forall>j<lo. ks ! j < k) \<and> (\<forall>j. hi \<le> j \<and> j < length ks \<longrightarrow> k < ks ! j)"
proof -
  define pos where "pos = for_until (\<lambda>p. h k \<le> hint p) 0 H"
  define pos2 where "pos2 = for_until (\<lambda>p. hint p \<noteq> h k) pos H"
  have pos: "pos \<le> H" and pos2: "pos \<le> pos2" "pos2 \<le> H"
    using for_until_bounds [of 0 H] for_until_bounds [of pos H] by (auto simp: pos_def pos2_def)
  have lo: "lo = pos * dist" and hi: "hi = (if pos2 < H then (pos2 + 1) * dist else length ks)"
    by (simp_all add: lo hi pos_def pos2_def)
  have h_less: "h x < h y \<Longrightarrow> x < y" for x y using h_mono [of y x] by (meson leD leI)
  have idx: "dist * (p + 1) < length ks" if "p < H" for p
  proof -
    have "dist * (p + 1) \<le> dist * H" using that by (intro mult_le_mono2) simp
    also have "\<dots> < length ks" using cnt d0 by (simp add: algebra_simps)
    finally show ?thesis .
  qed
  have mono: "ks ! i \<le> ks ! j" if "i \<le> j" "j < length ks" for i j
    using that sorted by (cases "i = j") (auto simp: sorted_wrt_iff_nth_less intro: less_imp_le)
  have below: "ks ! j < k" if "j < lo" for j
  proof -
    from that lo obtain q where q: "pos = Suc q" by (cases pos) auto
    have "\<not> h k \<le> hint q"
      by (rule for_until_before [of 0 q "\<lambda>p. h k \<le> hint p" H]) (use q in \<open>auto simp: pos_def\<close>)
    with hint [of q] q pos have "ks ! (dist * (q + 1)) < k" by (intro h_less) simp
    moreover have "ks ! j \<le> ks ! (dist * (q + 1))"
      by (rule mono) (use that lo q pos idx [of q] in \<open>auto simp: algebra_simps\<close>)
    ultimately show ?thesis by simp
  qed
  have hint2: "h k \<le> hint pos2" if p2: "pos2 < H"
  proof (cases "pos2 = pos")
    case True
    then show ?thesis
      using for_until_stop [of "\<lambda>p. h k \<le> hint p" 0 H] p2 by (simp add: pos_def)
  next
    case False
    with pos2 obtain q where q: "pos2 = Suc q" "pos \<le> q" by (cases pos2) auto
    have "\<not> hint q \<noteq> h k"
      by (rule for_until_before [of pos q "\<lambda>p. hint p \<noteq> h k" H]) (use q in \<open>auto simp: pos2_def\<close>)
    then have "h k = h (ks ! (dist * (q + 1)))" using hint [of q] q p2 by simp
    moreover have "h (ks ! (dist * (q + 1))) \<le> h (ks ! (dist * (pos2 + 1)))"
      by (rule h_mono, rule mono) (use q idx [OF p2] in auto)
    ultimately show ?thesis using hint [OF p2] by simp
  qed
  have above: "k < ks ! j" if "hi \<le> j" "j < length ks" for j
  proof -
    from that hi have p2: "pos2 < H" by (auto split: if_splits)
    have "hint pos2 \<noteq> h k"
      using for_until_stop [of "\<lambda>p. hint p \<noteq> h k" pos H] p2 by (simp add: pos2_def)
    with hint2 [OF p2] hint [OF p2] have "k < ks ! (dist * (pos2 + 1))" by (intro h_less) simp
    also have "\<dots> \<le> ks ! j" by (rule mono) (use that hi p2 in \<open>auto simp: algebra_simps\<close>)
    finally show ?thesis .
  qed
  have "pos * dist \<le> (pos2 + 1) * dist" by (rule mult_le_mono1) (use pos2 in simp)
  moreover have "pos * dist \<le> (H + 1) * dist" by (rule mult_le_mono1) (use pos in simp)
  moreover have "hi \<le> length ks" using hi idx [of pos2] by (auto simp: algebra_simps split: if_splits)
  ultimately show ?thesis using below above lo hi cnt by auto
qed

end
