(* ===== verification/Config.thy ===== *)
theory Config
  imports Prelude
begin

text \<open>
  \<open>libbtree/include/config.hpp\<close> and the parts of \<open>btree2020.hpp\<close> the node types share: page
  sizes and switches, the order-preserving head of a key, the node tags and the operation
  counter of the adaptive configuration with its random number generator.
\<close>

subsection \<open>The configuration\<close>

record config =
  enableDense :: bool
  enableHash :: bool
  enableHeadNode :: bool
  enableDense2 :: bool
  enableHashAdapt :: bool
  enableDensifySplit :: bool
  enableAdaptOp :: bool

definition default_config :: config where
  "default_config = \<lparr>enableDense = True, enableHash = False, enableHeadNode = False,
     enableDense2 = False, enableHashAdapt = False, enableDensifySplit = False,
     enableAdaptOp = False\<rparr>"

text \<open>The named configuration of the paper in which all nodes are \<open>BTreeNode\<close>s.\<close>

definition hints_config :: config where
  "hints_config = \<lparr>enableDense = False, enableHash = False, enableHeadNode = False,
     enableDense2 = False, enableHashAdapt = False, enableDensifySplit = False,
     enableAdaptOp = False\<rparr>"

text \<open>The one in which inner nodes may be head nodes.\<close>

definition inner_config :: config where
  "inner_config = \<lparr>enableDense = False, enableHash = False, enableHeadNode = True,
     enableDense2 = False, enableHashAdapt = False, enableDensifySplit = False,
     enableAdaptOp = False\<rparr>"

definition enablePrefix :: bool where
  "enablePrefix = True"

definition enableBasicHead :: bool where
  "enableBasicHead = True"

definition hintCount :: nat where
  "hintCount = 16"

definition pageSizeLeaf :: nat where
  "pageSizeLeaf = 4096"

definition pageSizeInner :: nat where
  "pageSizeInner = 4096"

definition headNodeHintCount :: nat where
  "headNodeHintCount = 16"

definition hashSimdWidth :: nat where
  "hashSimdWidth = 32"

text \<open>\<open>sizeof(BTreeNodeHeader)\<close> is 96; the slot array of the derived \<open>BTreeNode\<close> starts in the
  tail padding of its base, at 92.\<close>

definition sizeof_BTreeNodeHeader :: nat where
  "sizeof_BTreeNodeHeader = 96"

definition offsetof_slot :: nat where
  "offsetof_slot = 92"

definition sizeof_Slot :: nat where
  "sizeof_Slot = 10"

definition underFullSizeLeaf :: nat where
  "underFullSizeLeaf = pageSizeLeaf div 4"

definition underFullSizeInner :: nat where
  "underFullSizeInner = pageSizeInner div 4"

definition maxKVSize :: nat where
  "maxKVSize =
     (min pageSizeLeaf pageSizeInner - sizeof_BTreeNodeHeader - 2 * sizeof_Slot) div 3"

lemmas config_defs = pageSizeLeaf_def pageSizeInner_def sizeof_BTreeNodeHeader_def
  offsetof_slot_def sizeof_Slot_def hintCount_def enablePrefix_def enableBasicHead_def
  headNodeHintCount_def

subsection \<open>Unaligned loads, byte swaps and the head of a key\<close>

text \<open>Unaligned integers are little-endian. \<open>head\<close> is the first four bytes of a key as a
  big-endian number, zero-padded, so that comparing heads compares keys.\<close>

definition loadUnaligned16 :: "bytes \<Rightarrow> 16 word" where
  "loadUnaligned16 bs = word_of_nat (le_decode (take 2 bs))"

definition loadUnaligned32 :: "bytes \<Rightarrow> 32 word" where
  "loadUnaligned32 bs = word_of_nat (le_decode (take 4 bs))"

definition bswap16 :: "16 word \<Rightarrow> 16 word" where
  "bswap16 w = word_of_nat (le_decode (rev (le_encode 2 (unat w))))"

definition bswap32 :: "32 word \<Rightarrow> 32 word" where
  "bswap32 w = word_of_nat (le_decode (rev (le_encode 4 (unat w))))"

definition bswap64 :: "64 word \<Rightarrow> 64 word" where
  "bswap64 w = word_of_nat (le_decode (rev (le_encode 8 (unat w))))"

definition head :: "bytes \<Rightarrow> 32 word" where
  "head key =
     (if length key = 0 then 0
      else if length key = 1 then push_bit 24 (ucast (key ! 0))
      else if length key = 2 then push_bit 16 (ucast (bswap16 (loadUnaligned16 key)))
      else if length key = 3
        then or (push_bit 16 (ucast (bswap16 (loadUnaligned16 key)))) (push_bit 8 (ucast (key ! 2)))
      else bswap32 (loadUnaligned32 key))"

lemma bswap_load_aux:
  assumes "length bs = n"
  shows "le_decode (rev (le_encode n (le_decode bs))) = be_pad n bs"
  using assms be_pad_snoc_le_decode [of bs] by (simp add: le_encode_decode)

lemma be_pad_take: "be_pad n (take n bs) = be_pad n bs"
  by (induction n bs rule: be_pad.induct) auto

lemma bswap32_load: "4 \<le> length key \<Longrightarrow> bswap32 (loadUnaligned32 key) = word_of_nat (be_pad 4 key)"
  using le_decode_less [of "take 4 key"] bswap_load_aux [of "take 4 key" 4]
  by (simp add: bswap32_def loadUnaligned32_def unat_of_nat be_pad_take)

lemma bswap16_load: "2 \<le> length key \<Longrightarrow> bswap16 (loadUnaligned16 key) = word_of_nat (be_pad 2 key)"
  using le_decode_less [of "take 2 key"] bswap_load_aux [of "take 2 key" 2]
  by (simp add: bswap16_def loadUnaligned16_def unat_of_nat be_pad_take)

lemma push_bit_of_nat: "push_bit k (word_of_nat m :: 'a::len word) = word_of_nat (m * 2 ^ k)"
  by (simp add: push_bit_eq_mult)

lemma ucast_eq_of_nat: "(ucast w :: 'b::len word) = word_of_nat (unat w)"
  by simp

lemma ucast_of_nat16:
  assumes "m < 65536"
  shows "(ucast (word_of_nat m :: 16 word) :: 32 word) = word_of_nat m"
proof -
  have "unat (word_of_nat m :: 16 word) = m" using assms by (simp add: unat_of_nat)
  then show ?thesis by (simp only: ucast_eq_of_nat)
qed

lemma or_disjoint_add:
  "or (push_bit 16 (word_of_nat m)) (push_bit 8 (ucast (b :: byte))) =
    (word_of_nat (m * 2 ^ 16 + unat b * 2 ^ 8) :: 32 word)"
proof -
  have "\<not> bit (push_bit 16 (word_of_nat m) :: 32 word) n \<or> \<not> bit (push_bit 8 (ucast b) :: 32 word) n"
    for n
    by (auto simp: bit_push_bit_iff bit_ucast_iff dest: bit_imp_le_length)
  then have "or (push_bit 16 (word_of_nat m)) (push_bit 8 (ucast b)) =
      push_bit 16 (word_of_nat m) + (push_bit 8 (ucast b) :: 32 word)"
    by (rule disjunctive_add [symmetric])
  also have "\<dots> = word_of_nat (m * 2 ^ 16) + word_of_nat (unat b * 2 ^ 8)"
    by (simp only: ucast_eq_of_nat push_bit_of_nat)
  finally show ?thesis by (simp only: of_nat_add)
qed

lemma list_cases4:
  obtains "xs = []" | a where "xs = [a]" | a b where "xs = [a, b]" | a b c where "xs = [a, b, c]"
    | a b c d ys where "xs = a # b # c # d # ys"
proof (cases xs)
  case c1: (Cons a xs1)
  show ?thesis
  proof (cases xs1)
    case c2: (Cons b xs2)
    show ?thesis
    proof (cases xs2)
      case c3: (Cons c xs3)
      show ?thesis
      proof (cases xs3)
        case Nil
        with c1 c2 c3 that(4) show ?thesis by blast
      next
        case (Cons d ys)
        with c1 c2 c3 that(5) show ?thesis by blast
      qed
    qed (use c1 c2 that(3) in blast)
  qed (use c1 that(2) in blast)
qed (use that(1) in blast)

lemma head_eq_be_pad: "head key = word_of_nat (be_pad 4 key)"
proof (cases key rule: list_cases4)
  case (2 a)
  then have "head key = push_bit 24 (ucast a)" by (simp add: head_def)
  also have "\<dots> = word_of_nat (unat a * 2 ^ 24)" by (simp only: ucast_eq_of_nat push_bit_of_nat)
  also have "unat a * 2 ^ 24 = be_pad 4 key" using 2 by simp
  finally show ?thesis .
next
  case (3 a b)
  have "be_pad 2 [a, b] < 65536" using be_pad_less [of 2 "[a, b]"] by simp
  then have "head key = push_bit 16 (word_of_nat (be_pad 2 [a, b]))"
    using 3 by (simp add: head_def bswap16_load ucast_of_nat16 del: be_pad.simps be_pad_numeral)
  also have "\<dots> = word_of_nat (be_pad 2 [a, b] * 2 ^ 16)" by (rule push_bit_of_nat)
  also have "be_pad 2 [a, b] * 2 ^ 16 = be_pad 4 key"
    using 3 by simp
  finally show ?thesis .
next
  case (4 a b c)
  have "be_pad 2 [a, b, c] < 65536" using be_pad_less [of 2 "[a, b, c]"] by simp
  then have "head key = or (push_bit 16 (word_of_nat (be_pad 2 [a, b, c]))) (push_bit 8 (ucast c))"
    using 4 by (simp add: head_def bswap16_load ucast_of_nat16 del: be_pad.simps be_pad_numeral)
  also have "\<dots> = word_of_nat (be_pad 2 [a, b, c] * 2 ^ 16 + unat c * 2 ^ 8)"
    by (rule or_disjoint_add)
  also have "be_pad 2 [a, b, c] * 2 ^ 16 + unat c * 2 ^ 8 = be_pad 4 key"
    using 4 by simp
  finally show ?thesis .
qed (auto simp: head_def bswap32_load)

lemma unat_head: "unat (head key) = be_pad 4 key"
  using be_pad_less [of 4 key] by (simp add: head_eq_be_pad unat_of_nat)

lemma head_mono: "a \<le> b \<Longrightarrow> head a \<le> head b"
  by (simp add: word_le_nat_alt unat_head be_pad_mono)

lemma head_less_imp: "head a < head b \<Longrightarrow> a < b"
  by (auto simp: word_less_nat_alt unat_head dest: be_pad_less_imp)

subsection \<open>Node tags and the adaptive operation counter\<close>

datatype Tag = Tag_Leaf | Tag_Inner | Tag_Dense | Tag_Hash | Tag_Head4 | Tag_Head8 | Tag_Dense2

text \<open>\<open>std::minstd_rand\<close> and the thresholds \<open>(rng.max() + 1) * 0.15\<close> and \<open>* 0.05\<close>. The counter
  is a \<open>uint8_t\<close>; the generator is global state, so the operations return it.\<close>

type_synonym rng = nat

definition minstd_rand :: "rng \<Rightarrow> rng" where
  "minstd_rand x = 48271 * x mod 2147483647"

definition MAX_COUNT :: nat where
  "MAX_COUNT = 3"

definition RANGE_THRESHOLD :: nat where
  "RANGE_THRESHOLD = (2147483646 + 1) * 15 div 100"

definition POINT_THRESHOLD :: nat where
  "POINT_THRESHOLD = (2147483646 + 1) * 5 div 100"

definition RangeOpCounter_new :: nat where
  "RangeOpCounter_new = MAX_COUNT div 2"

definition setGoodHeads :: "config \<Rightarrow> nat \<Rightarrow> nat" where
  "setGoodHeads cfg count = (if \<not> enableAdaptOp cfg then count else 255)"

definition setBadHeads :: "config \<Rightarrow> nat \<Rightarrow> nat \<Rightarrow> nat" where
  "setBadHeads cfg previous count =
     (if \<not> enableAdaptOp cfg then count
      else if previous = 255 then MAX_COUNT div 2 else previous)"

definition range_op :: "config \<Rightarrow> nat \<Rightarrow> rng \<Rightarrow> bool \<times> nat \<times> rng" where
  "range_op cfg count r =
     (if \<not> enableAdaptOp cfg then (False, count, r)
      else if count < MAX_COUNT then
        (let r' = minstd_rand r;
             count' = (if r' < RANGE_THRESHOLD then count + 1 else count)
         in (count' = MAX_COUNT, count', r'))
      else (False, count, r))"

definition point_op :: "config \<Rightarrow> nat \<Rightarrow> rng \<Rightarrow> bool \<times> nat \<times> rng" where
  "point_op cfg count r =
     (if \<not> enableAdaptOp cfg then (False, count, r)
      else if 0 < count \<and> count < 128 then
        (let r' = minstd_rand r;
             count' = (if r' < POINT_THRESHOLD then count - 1 else count)
         in (count' = 0, count', r'))
      else (False, count, r))"

definition isLowRange :: "config \<Rightarrow> nat \<Rightarrow> bool" where
  "isLowRange cfg count = (if \<not> enableAdaptOp cfg then True else count \<le> MAX_COUNT div 2)"

end
