(* ===== verification/LeafMap.thy ===== *)
theory LeafMap
  imports Prelude
begin

text \<open>
  What the tree expects of a leaf, whatever its layout: a finite map from the keys between its
  fences to payloads, with point operations that may run out of room. The locale states the
  laws; the basic leaf and the hash leaf are its interpretations. A scan is the reference for
  the range lookups of all leaf types.
\<close>

subsection \<open>Results of an insert\<close>

text \<open>\<open>NoSpace\<close> is the result \<open>false\<close>; \<open>Aborted\<close> is a call of \<open>abort()\<close> or a violated
  assumption of the code.\<close>

datatype 'n insert_result = Inserted 'n | NoSpace 'n | Aborted

type_synonym leaf_content = "bytes \<Rightarrow> bytes option"

datatype leaf_op = Put bytes bytes | Del bytes

fun op_key :: "leaf_op \<Rightarrow> bytes" where
  "op_key (Put k v) = k"
| "op_key (Del k) = k"

fun op_ok :: "(bytes \<Rightarrow> bytes \<Rightarrow> bool) \<Rightarrow> leaf_op \<Rightarrow> bool" where
  "op_ok storable (Put k v) = storable k v"
| "op_ok storable (Del k) = True"

fun content_op :: "leaf_op \<Rightarrow> leaf_content \<Rightarrow> leaf_content" where
  "content_op (Put k v) m = m(k \<mapsto> v)"
| "content_op (Del k) m = m(k := None)"

text \<open>A sequence of operations on one leaf; \<open>None\<close> when an insert finds no room or aborts.\<close>

fun run_ops :: "(bytes \<Rightarrow> bytes \<Rightarrow> 'n \<Rightarrow> 'n insert_result) \<Rightarrow> (bytes \<Rightarrow> 'n \<Rightarrow> bool \<times> 'n) \<Rightarrow>
    leaf_op list \<Rightarrow> 'n \<Rightarrow> 'n option" where
  "run_ops ins del [] n = Some n"
| "run_ops ins del (Put k v # ops) n =
     (case ins k v n of Inserted n' \<Rightarrow> run_ops ins del ops n' | _ \<Rightarrow> None)"
| "run_ops ins del (Del k # ops) n = run_ops ins del ops (snd (del k n))"

locale leaf_map =
  fixes inv :: "'n \<Rightarrow> bool"
    and covers :: "'n \<Rightarrow> bytes \<Rightarrow> bool"
    and content :: "'n \<Rightarrow> leaf_content"
    and lookup :: "bytes \<Rightarrow> 'n \<Rightarrow> bytes option"
    and ins :: "bytes \<Rightarrow> bytes \<Rightarrow> 'n \<Rightarrow> 'n insert_result"
    and del :: "bytes \<Rightarrow> 'n \<Rightarrow> bool \<times> 'n"
    and storable :: "bytes \<Rightarrow> bytes \<Rightarrow> bool"
  assumes lookup_content: "inv n \<Longrightarrow> covers n k \<Longrightarrow> lookup k n = content n k"
    and ins_Inserted: "inv n \<Longrightarrow> covers n k \<Longrightarrow> storable k v \<Longrightarrow> ins k v n = Inserted n' \<Longrightarrow>
      inv n' \<and> covers n' = covers n \<and> content n' = (content n)(k \<mapsto> v)"
    and ins_NoSpace: "inv n \<Longrightarrow> covers n k \<Longrightarrow> storable k v \<Longrightarrow> ins k v n = NoSpace n' \<Longrightarrow>
      inv n' \<and> covers n' = covers n \<and> content n' = content n"
    and del_content: "inv n \<Longrightarrow> covers n k \<Longrightarrow> del k n = (b, n') \<Longrightarrow>
      inv n' \<and> covers n' = covers n \<and> content n' = (content n)(k := None) \<and>
      (b \<longleftrightarrow> content n k \<noteq> None)"
begin

lemma lookup_ins:
  assumes "inv n" "covers n k" "covers n k'" "ins k v n = Inserted n'" "storable k v"
  shows "lookup k' n' = (if k' = k then Some v else lookup k' n)"
  using ins_Inserted [OF assms(1,2,5,4)] assms by (simp add: lookup_content)

lemma lookup_del:
  assumes "inv n" "covers n k" "covers n k'" "del k n = (b, n')"
  shows "lookup k' n' = (if k' = k then None else lookup k' n)"
  using del_content [OF assms(1,2,4)] assms by (simp add: lookup_content)

lemma del_ins:
  assumes "inv n" "covers n k" "content n k = None" "ins k v n = Inserted n'" "del k n' = (b, n'')"
    "storable k v"
  shows "b \<and> content n'' = content n"
  using ins_Inserted [OF assms(1,2,6,4)] del_content [of n' k b n''] assms by auto

lemma run_ops_content:
  assumes "inv n" "\<forall>op \<in> set ops. covers n (op_key op) \<and> op_ok storable op"
    "run_ops ins del ops n = Some n'"
  shows "inv n' \<and> covers n' = covers n \<and> content n' = fold content_op ops (content n)"
  using assms
proof (induction ops arbitrary: n)
  case (Cons op ops)
  show ?case
  proof (cases op)
    case (Put k v)
    with Cons.prems obtain n1 where n1: "ins k v n = Inserted n1" "run_ops ins del ops n1 = Some n'"
      by (auto split: insert_result.splits)
    from ins_Inserted [OF Cons.prems(1) _ _ n1(1)] Cons.prems(2) Put
    have "inv n1 \<and> covers n1 = covers n \<and> content n1 = (content n)(k \<mapsto> v)" by simp
    with Cons.IH [of n1] n1(2) Cons.prems(2) Put show ?thesis by (auto simp: fun_upd_def)
  next
    case (Del k)
    obtain b n1 where n1: "del k n = (b, n1)" by (cases "del k n")
    from del_content [OF Cons.prems(1) _ n1] Cons.prems(2) Del
    have "inv n1 \<and> covers n1 = covers n \<and> content n1 = (content n)(k := None)" by simp
    with Cons.IH [of n1] n1 Cons.prems Del show ?thesis by (auto simp: fun_upd_def)
  qed
qed simp

end

subsection \<open>Scans\<close>

text \<open>
  The callback gets the bytes the key buffer \<open>keyOut\<close> holds for the reported key length and the
  payload, and says whether to go on; its own effects are the state \<open>'s\<close>.
\<close>

type_synonym 's callback = "bytes \<Rightarrow> bytes \<Rightarrow> 's \<Rightarrow> bool \<times> 's"

fun scan :: "'s callback \<Rightarrow> (bytes \<times> bytes) list \<Rightarrow> 's \<Rightarrow> bool \<times> 's" where
  "scan cb [] s = (True, s)"
| "scan cb ((k, v) # es) s = (let (continue, s') = cb k v s in if continue then scan cb es s' else (False, s'))"

lemma scan_append:
  "scan cb (xs @ ys) s = (let (c, s') = scan cb xs s in if c then scan cb ys s' else (False, s'))"
  by (induction cb xs s rule: scan.induct) (auto split: prod.split)

lemma lower_bound_sets:
  assumes "is_lower_bound (map fst es) k i"
  shows "x \<in> set (take i es) \<Longrightarrow> fst x < k" "x \<in> set (drop i es) \<Longrightarrow> k \<le> fst x"
proof -
  have b: "i \<le> length es" "\<And>j. j < i \<Longrightarrow> fst (es ! j) < k"
    "\<And>j. i \<le> j \<Longrightarrow> j < length es \<Longrightarrow> k \<le> fst (es ! j)"
    using assms by (auto simp: is_lower_bound_def)
  show "fst x < k" if x: "x \<in> set (take i es)"
  proof -
    from x b(1) obtain j where "j < i" "x = es ! j" by (auto simp: in_set_conv_nth)
    with b(2) show ?thesis by simp
  qed
  show "k \<le> fst x" if x: "x \<in> set (drop i es)"
  proof -
    from x b(1) obtain j where "j < length es - i" "x = es ! (i + j)" by (auto simp: in_set_conv_nth)
    with b(3) [of "i + j"] show ?thesis by simp
  qed
qed

lemma filter_ge_lower_bound:
  assumes "is_lower_bound (map fst es) k i"
  shows "filter (\<lambda>(k', _). k \<le> k') es = drop i es"
proof -
  have "\<forall>x \<in> set (take i es). \<not> k \<le> fst x" "\<forall>x \<in> set (drop i es). k \<le> fst x"
    using lower_bound_sets [OF assms] by (simp_all add: not_le)
  then have "filter (\<lambda>(k', _). k \<le> k') (take i es) = []" "filter (\<lambda>(k', _). k \<le> k') (drop i es) = drop i es"
    by (auto simp: filter_empty_conv intro!: filter_True)
  then have "filter (\<lambda>(k', _). k \<le> k') (take i es @ drop i es) = drop i es" by (simp only: filter_append append_Nil)
  then show ?thesis by simp
qed

lemma filter_le_lower_bound:
  assumes "is_lower_bound (map fst es) k i" "sorted_wrt (<) (map fst es)"
  shows "filter (\<lambda>(k', _). k' \<le> k) es = take (if i < length es \<and> fst (es ! i) = k then Suc i else i) es"
    (is "_ = take ?j es")
proof -
  have lt: "fst (es ! a) < fst (es ! b)" if "a < b" "b < length es" for a b
    using assms(2) that by (simp add: sorted_wrt_iff_nth_less)
  have "k < fst (es ! (?j + a))" if "?j + a < length es" for a
  proof (cases "i < length es \<and> fst (es ! i) = k")
    case True
    with lt [of i "?j + a"] that show ?thesis by auto
  next
    case False
    then have j: "?j = i" by (simp only: if_False)
    from that have "i < length es" unfolding j by simp
    with False assms(1) have "k < fst (es ! i)" by (auto simp: is_lower_bound_def order_less_le)
    moreover have "fst (es ! i) \<le> fst (es ! (i + a))"
      using lt [of i "i + a"] that unfolding j by (cases "a = 0") auto
    ultimately show ?thesis unfolding j by simp
  qed
  note above = this
  have jl: "?j \<le> length es" using assms(1) by (auto simp: is_lower_bound_def)
  have "k < fst x" if x: "x \<in> set (drop ?j es)" for x
  proof -
    from x obtain a where "a < length (drop ?j es)" "x = drop ?j es ! a" unfolding in_set_conv_nth by blast
    then have "?j + a < length es" "x = es ! (?j + a)" using jl by simp_all
    with above show ?thesis by blast
  qed
  then have "\<forall>x \<in> set (drop ?j es). \<not> fst x \<le> k" by (simp add: not_le)
  note right = this
  have "\<forall>x \<in> set (take ?j es). fst x \<le> k"
    using lower_bound_sets(1) [OF assms(1)] by (auto simp: take_Suc_conv_app_nth less_imp_le)
  with right have "filter (\<lambda>(k', _). k' \<le> k) (take ?j es) = take ?j es"
    "filter (\<lambda>(k', _). k' \<le> k) (drop ?j es) = []"
    by (simp_all only: split_def filter_id_conv filter_empty_conv)
  then have "filter (\<lambda>(k', _). k' \<le> k) (take ?j es @ drop ?j es) = take ?j es"
    by (simp only: filter_append append_Nil2)
  then show ?thesis by (simp only: append_take_drop_id)
qed

end
