(* ===== verification/BasicNode.thy ===== *)
theory BasicNode
  imports Config LeafMap
begin

text \<open>
  The slotted page \<open>BTreeNode\<close> of \<open>libbtree/src/btree2020.cpp\<close>: leaves and inner nodes of the
  default configuration. A page is a record of its header fields, the slot array as a function
  of the slot number and the heap as a byte memory addressed from the start of the page. Slots
  and heap share the page in the code; \<open>BasicNodeProps\<close> shows that they never overlap.
  The operations that reach other pages (the parent of a split or a merge, conversions to other
  node types) are in \<open>AnyNode\<close>.
\<close>

subsection \<open>The page\<close>

record FenceKeySlot =
  fk_offset :: nat
  fk_length :: nat

record Slot =
  s_offset :: nat
  s_keyLen :: nat
  s_payloadLen :: nat
  s_head :: "32 word"

record BTreeNode =
  b_tag :: Tag
  b_roc :: nat
  b_count :: nat
  b_spaceUsed :: nat
  b_dataOffset :: nat
  b_upper :: ptr
  b_lowerFence :: FenceKeySlot
  b_upperFence :: FenceKeySlot
  b_prefixLength :: nat
  b_hint :: "nat \<Rightarrow> 32 word"
  b_slot :: "nat \<Rightarrow> Slot"
  b_heap :: memory

definition nullptr :: ptr where
  "nullptr = 0"

definition sizeof_ptr :: nat where
  "sizeof_ptr = 8"

text \<open>Storage that was only allocated holds nothing the code may rely on; it is the zero page
  here.\<close>

definition TmpBTreeNode :: BTreeNode where
  "TmpBTreeNode = \<lparr>b_tag = Tag_Leaf, b_roc = 0, b_count = 0, b_spaceUsed = 0, b_dataOffset = 0,
     b_upper = nullptr, b_lowerFence = \<lparr>fk_offset = 0, fk_length = 0\<rparr>,
     b_upperFence = \<lparr>fk_offset = 0, fk_length = 0\<rparr>, b_prefixLength = 0,
     b_hint = (\<lambda>_. 0), b_slot = (\<lambda>_. \<lparr>s_offset = 0, s_keyLen = 0, s_payloadLen = 0, s_head = 0\<rparr>),
     b_heap = (\<lambda>_. 0)\<rparr>"

definition BTreeNode_init :: "bool \<Rightarrow> nat \<Rightarrow> BTreeNode \<Rightarrow> BTreeNode" where
  "BTreeNode_init isLeaf roc n = n\<lparr>b_tag := (if isLeaf then Tag_Leaf else Tag_Inner), b_roc := roc,
     b_count := 0, b_spaceUsed := 0,
     b_dataOffset := (if isLeaf then pageSizeLeaf else pageSizeInner), b_upper := nullptr,
     b_lowerFence := \<lparr>fk_offset = 0, fk_length = 0\<rparr>,
     b_upperFence := \<lparr>fk_offset = 0, fk_length = 0\<rparr>, b_prefixLength := 0\<rparr>"

definition BTreeNode_makeLeaf :: BTreeNode where
  "BTreeNode_makeLeaf = BTreeNode_init True RangeOpCounter_new TmpBTreeNode"

definition BTreeNode_isInner :: "BTreeNode \<Rightarrow> bool" where
  "BTreeNode_isInner n \<longleftrightarrow> b_tag n = Tag_Inner"

definition BTreeNode_isLeaf :: "BTreeNode \<Rightarrow> bool" where
  "BTreeNode_isLeaf n \<longleftrightarrow> b_tag n = Tag_Leaf"

definition pageSize :: "BTreeNode \<Rightarrow> nat" where
  "pageSize n = (if BTreeNode_isLeaf n then pageSizeLeaf else pageSizeInner)"

definition BTreeNode_getLowerFence :: "BTreeNode \<Rightarrow> bytes" where
  "BTreeNode_getLowerFence n = load (b_heap n) (fk_offset (b_lowerFence n)) (fk_length (b_lowerFence n))"

definition BTreeNode_getUpperFence :: "BTreeNode \<Rightarrow> bytes" where
  "BTreeNode_getUpperFence n = load (b_heap n) (fk_offset (b_upperFence n)) (fk_length (b_upperFence n))"

definition BTreeNode_getPrefix :: "BTreeNode \<Rightarrow> bytes" where
  "BTreeNode_getPrefix n = load (b_heap n) (fk_offset (b_lowerFence n)) (b_prefixLength n)"

definition BTreeNode_getKey :: "BTreeNode \<Rightarrow> nat \<Rightarrow> bytes" where
  "BTreeNode_getKey n i = load (b_heap n) (s_offset (b_slot n i)) (s_keyLen (b_slot n i))"

definition BTreeNode_getPayload :: "BTreeNode \<Rightarrow> nat \<Rightarrow> bytes" where
  "BTreeNode_getPayload n i =
     load (b_heap n) (s_offset (b_slot n i) + s_keyLen (b_slot n i)) (s_payloadLen (b_slot n i))"

definition BTreeNode_getChild :: "BTreeNode \<Rightarrow> nat \<Rightarrow> ptr" where
  "BTreeNode_getChild n i =
     le_decode (load (b_heap n) (s_offset (b_slot n i) + s_keyLen (b_slot n i)) sizeof_ptr)"

subsection \<open>Space\<close>

text \<open>Byte offset of the end of the slot array, \<open>(uint8_t* )(slot + count) - ptr()\<close>.\<close>

definition slotsEnd :: "nat \<Rightarrow> nat" where
  "slotsEnd count = offsetof_slot + count * sizeof_Slot"

definition BTreeNode_freeSpace :: "BTreeNode \<Rightarrow> nat" where
  "BTreeNode_freeSpace n = sub32 (b_dataOffset n) (slotsEnd (b_count n))"

definition BTreeNode_freeSpaceAfterCompaction :: "BTreeNode \<Rightarrow> nat" where
  "BTreeNode_freeSpaceAfterCompaction n =
     sub32 (pageSize n) (slotsEnd (b_count n) + b_spaceUsed n)"

definition BTreeNode_spaceNeeded :: "BTreeNode \<Rightarrow> nat \<Rightarrow> nat \<Rightarrow> nat" where
  "BTreeNode_spaceNeeded n keyLength payloadLength =
     u32 (sizeof_Slot + sub32 keyLength (b_prefixLength n) + payloadLength)"

definition BTreeNode_is_underfull :: "BTreeNode \<Rightarrow> bool" where
  "BTreeNode_is_underfull n \<longleftrightarrow> BTreeNode_freeSpaceAfterCompaction n \<ge>
     (if BTreeNode_isLeaf n then underFullSizeLeaf else underFullSizeInner)"

subsection \<open>Search hints\<close>

definition hintDist :: "nat \<Rightarrow> nat" where
  "hintDist count = count div (hintCount + 1)"

definition BTreeNode_makeHint :: "BTreeNode \<Rightarrow> BTreeNode" where
  "BTreeNode_makeHint n = n\<lparr>b_hint := (\<lambda>i. if i < hintCount
     then s_head (b_slot n (hintDist (b_count n) * (i + 1))) else b_hint n i)\<rparr>"

definition BTreeNode_updateHint :: "nat \<Rightarrow> BTreeNode \<Rightarrow> BTreeNode" where
  "BTreeNode_updateHint slotId n =
     (let dist = hintDist (b_count n);
          begin = (if b_count n > hintCount * 2 + 1 \<and> hintDist (b_count n - 1) = dist
                      \<and> slotId div dist > 1
                   then slotId div dist - 1 else 0)
      in n\<lparr>b_hint := (\<lambda>i. if begin \<le> i \<and> i < hintCount
             then s_head (b_slot n (dist * (i + 1))) else b_hint n i)\<rparr>)"

text \<open>The range \<open>(lowerOut, upperOut)\<close> left to search; \<open>upperOut\<close> is the node's count on entry.\<close>

definition BTreeNode_searchHint :: "BTreeNode \<Rightarrow> 32 word \<Rightarrow> nat \<Rightarrow> nat \<Rightarrow> nat \<times> nat" where
  "BTreeNode_searchHint n keyHead lowerOut upperOut =
     (if b_count n > hintCount * 2 then
        (let dist = upperOut div (hintCount + 1);
             pos = for_until (\<lambda>p. b_hint n p \<ge> keyHead) 0 hintCount;
             pos2 = for_until (\<lambda>p. b_hint n p \<noteq> keyHead) pos hintCount
         in (pos * dist, if pos2 < hintCount then (pos2 + 1) * dist else upperOut))
      else (lowerOut, upperOut))"

definition BTreeNode_validateHint :: "BTreeNode \<Rightarrow> bool" where
  "BTreeNode_validateHint n \<longleftrightarrow> (b_count n > 0 \<longrightarrow>
     (\<forall>i<hintCount. b_hint n i = s_head (b_slot n (hintDist (b_count n) * (i + 1)))))"

subsection \<open>Lower bound search\<close>

definition slotCmp :: "BTreeNode \<Rightarrow> bytes \<Rightarrow> 32 word \<Rightarrow> nat \<Rightarrow> int" where
  "slotCmp n key keyHead mid =
     (if enableBasicHead \<and> keyHead < s_head (b_slot n mid) then - 1
      else if enableBasicHead \<and> keyHead > s_head (b_slot n mid) then 1
      else key_cmp key (BTreeNode_getKey n mid))"

function BTreeNode_search :: "BTreeNode \<Rightarrow> bytes \<Rightarrow> 32 word \<Rightarrow> nat \<Rightarrow> nat \<Rightarrow> nat \<times> bool" where
  "BTreeNode_search n key keyHead lower upper =
     (if lower < upper then
        (let mid = (upper - lower) div 2 + lower
         in if slotCmp n key keyHead mid < 0 then BTreeNode_search n key keyHead lower mid
            else if slotCmp n key keyHead mid > 0
              then BTreeNode_search n key keyHead (mid + 1) upper
            else (mid, True))
      else (lower, False))"
  by pat_completeness auto
termination
  by (relation "measure (\<lambda>(n, key, keyHead, lower, upper). upper - lower)") auto

declare BTreeNode_search.simps [simp del]

text \<open>\<open>(slotId, foundOut)\<close> for an untruncated key.\<close>

definition BTreeNode_lowerBound :: "BTreeNode \<Rightarrow> bytes \<Rightarrow> nat \<times> bool" where
  "BTreeNode_lowerBound n key =
     (let key' = drop (b_prefixLength n) key;
          keyHead = head key';
          (lower, upper) = BTreeNode_searchHint n keyHead 0 (b_count n)
      in BTreeNode_search n key' keyHead lower upper)"

definition BTreeNode_lookupInner :: "BTreeNode \<Rightarrow> bytes \<Rightarrow> ptr" where
  "BTreeNode_lookupInner n key =
     (let pos = fst (BTreeNode_lowerBound n key)
      in if pos = b_count n then b_upper n else BTreeNode_getChild n pos)"

subsection \<open>Writing entries and fences\<close>

definition BTreeNode_storeKeyValue :: "nat \<Rightarrow> bytes \<Rightarrow> bytes \<Rightarrow> BTreeNode \<Rightarrow> BTreeNode" where
  "BTreeNode_storeKeyValue slotId key payload n =
     (let key' = drop (b_prefixLength n) key;
          space = length key' + length payload;
          off = sub16 (b_dataOffset n) space
      in n\<lparr>b_dataOffset := off, b_spaceUsed := add16 (b_spaceUsed n) space,
           b_slot := (b_slot n)(slotId := \<lparr>s_offset = off, s_keyLen = u16 (length key'),
             s_payloadLen = u16 (length payload), s_head = head key'\<rparr>),
           b_heap := store (store (b_heap n) off key') (off + length key') payload\<rparr>)"

definition BTreeNode_insertFence :: "bytes \<Rightarrow> BTreeNode \<Rightarrow> FenceKeySlot \<times> BTreeNode" where
  "BTreeNode_insertFence key n =
     (let off = sub16 (b_dataOffset n) (length key)
      in (\<lparr>fk_offset = off, fk_length = u16 (length key)\<rparr>,
          n\<lparr>b_dataOffset := off, b_spaceUsed := add16 (b_spaceUsed n) (length key),
            b_heap := store (b_heap n) off key\<rparr>))"

definition BTreeNode_setFences :: "bytes \<Rightarrow> bytes \<Rightarrow> BTreeNode \<Rightarrow> BTreeNode" where
  "BTreeNode_setFences lowerKey upperKey n =
     (let (lf, n1) = BTreeNode_insertFence lowerKey n;
          (uf, n2) = BTreeNode_insertFence upperKey n1
      in n2\<lparr>b_lowerFence := lf, b_upperFence := uf,
            b_prefixLength := (if enablePrefix then lcp lowerKey upperKey else 0)\<rparr>)"

definition BTreeNode_copyKeyValue :: "BTreeNode \<Rightarrow> nat \<Rightarrow> nat \<Rightarrow> BTreeNode \<Rightarrow> BTreeNode" where
  "BTreeNode_copyKeyValue src srcSlot dstSlot dst =
     BTreeNode_storeKeyValue dstSlot (BTreeNode_getPrefix src @ BTreeNode_getKey src srcSlot)
       (BTreeNode_getPayload src srcSlot) dst"

text \<open>One step of the copy loop when the prefix grows by \<open>diff\<close> bytes: key rest and payload are
  adjacent in the source and are copied by one \<open>memcpy\<close>.\<close>

definition copyTruncated :: "BTreeNode \<Rightarrow> nat \<Rightarrow> nat \<Rightarrow> nat \<Rightarrow> BTreeNode \<Rightarrow> BTreeNode" where
  "copyTruncated src diff srcSlot dstSlot dst =
     (let sl = b_slot src srcSlot;
          newKeyLength = sub32 (s_keyLen sl) diff;
          space = u32 (newKeyLength + s_payloadLen sl);
          off = sub16 (b_dataOffset dst) space;
          raw = load (b_heap src) (s_offset sl + diff) space
      in dst\<lparr>b_dataOffset := off, b_spaceUsed := add16 (b_spaceUsed dst) space,
             b_heap := store (b_heap dst) off raw,
             b_slot := (b_slot dst)(dstSlot := \<lparr>s_offset = off, s_keyLen = u16 newKeyLength,
               s_payloadLen = s_payloadLen sl,
               s_head = head (load (b_heap src) (s_offset sl + diff) newKeyLength)\<rparr>)\<rparr>)"

definition BTreeNode_copyKeyValueRange ::
    "BTreeNode \<Rightarrow> nat \<Rightarrow> nat \<Rightarrow> nat \<Rightarrow> BTreeNode \<Rightarrow> BTreeNode" where
  "BTreeNode_copyKeyValueRange src dstSlot srcSlot srcCount dst =
     (let dst' =
        (if enablePrefix \<and> b_prefixLength src \<le> b_prefixLength dst then
           fold (\<lambda>i. copyTruncated src (b_prefixLength dst - b_prefixLength src) (srcSlot + i) (dstSlot + i))
             [0..<srcCount] dst
         else
           fold (\<lambda>i. BTreeNode_copyKeyValue src (srcSlot + i) (dstSlot + i)) [0..<srcCount] dst)
      in dst'\<lparr>b_count := add16 (b_count dst') srcCount\<rparr>)"

definition BTreeNode_compactify :: "BTreeNode \<Rightarrow> BTreeNode" where
  "BTreeNode_compactify n =
     (let tmp = BTreeNode_init (BTreeNode_isLeaf n) (b_roc n) TmpBTreeNode;
          tmp = BTreeNode_setFences (BTreeNode_getLowerFence n) (BTreeNode_getUpperFence n) tmp;
          tmp = BTreeNode_copyKeyValueRange n 0 0 (b_count n) tmp
      in BTreeNode_makeHint (tmp\<lparr>b_upper := b_upper n\<rparr>))"

definition BTreeNode_requestSpaceFor :: "nat \<Rightarrow> BTreeNode \<Rightarrow> bool \<times> BTreeNode" where
  "BTreeNode_requestSpaceFor spaceNeeded n =
     (if spaceNeeded \<le> BTreeNode_freeSpace n then (True, n)
      else if spaceNeeded \<le> BTreeNode_freeSpaceAfterCompaction n then (True, BTreeNode_compactify n)
      else (False, n))"

subsection \<open>Insert and remove\<close>

text \<open>The rest of \<open>insert\<close> once there is space: \<open>None\<close> is the \<open>abort()\<close> on a key that is
  already there.\<close>

definition BTreeNode_insertWithSpace :: "bytes \<Rightarrow> bytes \<Rightarrow> BTreeNode \<Rightarrow> BTreeNode option" where
  "BTreeNode_insertWithSpace key payload n =
     (let (slotId, found) = BTreeNode_lowerBound n key
      in if found then None
         else
           (let n1 = n\<lparr>b_slot := memmove_array (b_slot n) (slotId + 1) slotId (b_count n - slotId)\<rparr>;
                n2 = BTreeNode_storeKeyValue slotId key payload n1;
                n3 = n2\<lparr>b_count := add16 (b_count n2) 1\<rparr>
            in Some (BTreeNode_updateHint slotId n3)))"

definition BTreeNode_removeSlot :: "nat \<Rightarrow> BTreeNode \<Rightarrow> BTreeNode" where
  "BTreeNode_removeSlot slotId n =
     BTreeNode_makeHint (n\<lparr>
       b_spaceUsed := sub16 (sub16 (b_spaceUsed n) (s_keyLen (b_slot n slotId))) (s_payloadLen (b_slot n slotId)),
       b_slot := memmove_array (b_slot n) slotId (slotId + 1) (b_count n - slotId - 1),
       b_count := sub16 (b_count n) 1\<rparr>)"

definition BTreeNode_remove :: "bytes \<Rightarrow> BTreeNode \<Rightarrow> bool \<times> BTreeNode" where
  "BTreeNode_remove key n =
     (let (slotId, found) = BTreeNode_lowerBound n key
      in if \<not> found then (False, n) else (True, BTreeNode_removeSlot slotId n))"

subsection \<open>Separators and splitting\<close>

record SeparatorInfo =
  sep_length :: nat
  sep_slot :: nat
  sep_isTruncated :: bool

definition BTreeNode_commonPrefix :: "BTreeNode \<Rightarrow> nat \<Rightarrow> nat \<Rightarrow> nat" where
  "BTreeNode_commonPrefix n slotA slotB = lcp (BTreeNode_getKey n slotA) (BTreeNode_getKey n slotB)"

text \<open>The search the code keeps behind \<open>USE_ORIGINAL\<close> (the same as \<open>HashNode::findSeparator\<close>),
  over the common prefix and key length of the slots.\<close>

definition originalSeparator ::
    "(nat \<Rightarrow> nat \<Rightarrow> nat) \<Rightarrow> (nat \<Rightarrow> nat) \<Rightarrow> nat \<Rightarrow> nat \<Rightarrow> SeparatorInfo" where
  "originalSeparator commonPrefix keyLen prefixLength count =
     (let bestSlot =
        (if count > 16 then
           (let lower = count div 2 - count div 16; upper = count div 2
            in if commonPrefix lower 0 \<noteq> commonPrefix (upper - 1) 0
               then for_until (\<lambda>s. commonPrefix s 0 \<noteq> commonPrefix lower 0) (lower + 1) upper
               else lower)
         else (count - 1) div 2);
          common = commonPrefix bestSlot (bestSlot + 1)
      in if bestSlot + 1 < count \<and> keyLen bestSlot > common \<and> keyLen (bestSlot + 1) > common + 1
         then \<lparr>sep_length = prefixLength + common + 1, sep_slot = bestSlot, sep_isTruncated = True\<rparr>
         else \<lparr>sep_length = prefixLength + keyLen bestSlot, sep_slot = bestSlot, sep_isTruncated = False\<rparr>)"

definition USE_ORIGINAL :: bool where
  "USE_ORIGINAL = False"

text \<open>\<open>None\<close>: \<open>ASSUME(count > 1)\<close> or the assertion of the loop is violated.\<close>

definition BTreeNode_findSeparator :: "BTreeNode \<Rightarrow> SeparatorInfo option" where
  "BTreeNode_findSeparator n =
     (if USE_ORIGINAL then
        (if b_count n \<le> 1 then None
         else if BTreeNode_isInner n then
           Some \<lparr>sep_length = b_prefixLength n + s_keyLen (b_slot n (b_count n div 2)),
                 sep_slot = b_count n div 2, sep_isTruncated = False\<rparr>
         else Some (originalSeparator (BTreeNode_commonPrefix n) (\<lambda>i. s_keyLen (b_slot n i))
                      (b_prefixLength n) (b_count n)))
      else if b_count n \<le> 1 then None
      else if BTreeNode_isInner n then
        (let slotId = b_count n div 2 - 1
         in Some \<lparr>sep_length = b_prefixLength n + s_keyLen (b_slot n slotId), sep_slot = slotId,
                  sep_isTruncated = False\<rparr>)
      else
        (let lower = b_count n div 2 - b_count n div 32;
             upper = lower + b_count n div 16;
             rangeCommonPrefix = BTreeNode_commonPrefix n lower upper
         in if s_keyLen (b_slot n lower) = rangeCommonPrefix then
              Some \<lparr>sep_length = b_prefixLength n + rangeCommonPrefix, sep_slot = lower,
                    sep_isTruncated = False\<rparr>
            else
              (let i = for_until (\<lambda>i. b_heap n (s_offset (b_slot n i) + rangeCommonPrefix) \<noteq>
                                      b_heap n (s_offset (b_slot n lower) + rangeCommonPrefix))
                         (lower + 1) (upper + 1)
               in if \<not> i < upper + 1 then None
                  else if s_keyLen (b_slot n i) = rangeCommonPrefix + 1 then
                    Some \<lparr>sep_length = b_prefixLength n + rangeCommonPrefix + 1, sep_slot = i,
                          sep_isTruncated = False\<rparr>
                  else
                    Some \<lparr>sep_length = b_prefixLength n + rangeCommonPrefix + 1, sep_slot = i - 1,
                          sep_isTruncated = True\<rparr>)))"

definition BTreeNode_restoreKey :: "BTreeNode \<Rightarrow> nat \<Rightarrow> nat \<Rightarrow> bytes" where
  "BTreeNode_restoreKey n len index =
     BTreeNode_getPrefix n @
     load (b_heap n) (s_offset (b_slot n index)) (sub32 len (b_prefixLength n))"

definition BTreeNode_getSep :: "BTreeNode \<Rightarrow> SeparatorInfo \<Rightarrow> bytes" where
  "BTreeNode_getSep n info =
     BTreeNode_restoreKey n (sep_length info)
       (sep_slot info + (if sep_isTruncated info then 1 else 0))"

text \<open>The pages a split writes, left and right; the parent gets the separator with the left
  page. In an inner node the separator's own entry moves up and its child becomes the upper
  child of the left page.\<close>

definition BTreeNode_splitPages :: "BTreeNode \<Rightarrow> nat \<Rightarrow> bytes \<Rightarrow> BTreeNode \<times> BTreeNode" where
  "BTreeNode_splitPages n sepSlot sepKey =
     (let isLeaf = BTreeNode_isLeaf n;
          nodeLeft = BTreeNode_setFences (BTreeNode_getLowerFence n) sepKey
                       (BTreeNode_init isLeaf (b_roc n) TmpBTreeNode);
          nodeRight = BTreeNode_setFences sepKey (BTreeNode_getUpperFence n)
                       (BTreeNode_init isLeaf (b_roc n) TmpBTreeNode)
      in if isLeaf then
           (let l = BTreeNode_copyKeyValueRange n 0 0 (sepSlot + 1) nodeLeft;
                r = BTreeNode_copyKeyValueRange n 0 (b_count l) (b_count n - b_count l) nodeRight
            in (BTreeNode_makeHint l, BTreeNode_makeHint r))
         else
           (let l = BTreeNode_copyKeyValueRange n 0 0 sepSlot nodeLeft;
                r = BTreeNode_copyKeyValueRange n 0 (b_count l + 1) (b_count n - b_count l - 1) nodeRight;
                l' = l\<lparr>b_upper := BTreeNode_getChild n (b_count l)\<rparr>;
                r' = r\<lparr>b_upper := b_upper n\<rparr>
            in (BTreeNode_makeHint l', BTreeNode_makeHint r')))"

definition BTreeNode_hasBadHeads :: "BTreeNode \<Rightarrow> bool" where
  "BTreeNode_hasBadHeads n \<longleftrightarrow>
     length (filter (\<lambda>i. s_head (b_slot n (i - 1)) = s_head (b_slot n i)) [1..<b_count n])
       > b_count n div 16"

subsection \<open>Merging two leaves\<close>

text \<open>The page that replaces two neighbouring leaves, or \<open>None\<close> when it could be too large.\<close>

definition BTreeNode_mergeLeaves :: "BTreeNode \<Rightarrow> BTreeNode \<Rightarrow> BTreeNode option" where
  "BTreeNode_mergeLeaves left right =
     (let tmp = BTreeNode_setFences (BTreeNode_getLowerFence left) (BTreeNode_getUpperFence right)
                  (BTreeNode_init (BTreeNode_isLeaf left) (b_roc left) TmpBTreeNode);
          leftGrow = sub32 (b_prefixLength left) (b_prefixLength tmp) * b_count left;
          rightGrow = sub32 (b_prefixLength right) (b_prefixLength tmp) * b_count right;
          spaceUpperBound = u32 (b_spaceUsed left + b_spaceUsed right +
            slotsEnd (b_count left + b_count right) + leftGrow + rightGrow)
      in if spaceUpperBound > pageSizeLeaf then None
         else
           (let tmp1 = BTreeNode_copyKeyValueRange left 0 0 (b_count left) tmp;
                tmp2 = BTreeNode_copyKeyValueRange right (b_count left) 0 (b_count right) tmp1
            in Some (BTreeNode_makeHint tmp2)))"

text \<open>The branch for inner pages, which no caller reaches: it stores the separator of the parent and its child
  in the left page instead of the merged one, whose slot between the two halves stays as it was. The result
  is the left page and the page that replaces the right one.\<close>

definition BTreeNode_mergeInner :: "bytes \<Rightarrow> ptr \<Rightarrow> BTreeNode \<Rightarrow> BTreeNode \<Rightarrow> (BTreeNode \<times> BTreeNode) option" where
  "BTreeNode_mergeInner extraKey child left right =
     (let tmp = BTreeNode_setFences (BTreeNode_getLowerFence left) (BTreeNode_getUpperFence right)
                  (BTreeNode_init (BTreeNode_isLeaf left) (b_roc left) TmpBTreeNode);
          leftGrow = sub32 (b_prefixLength left) (b_prefixLength tmp) * b_count left;
          rightGrow = sub32 (b_prefixLength right) (b_prefixLength tmp) * b_count right;
          spaceUpperBound = u32 (b_spaceUsed left + b_spaceUsed right +
            slotsEnd (b_count left + b_count right) + leftGrow + rightGrow +
            BTreeNode_spaceNeeded tmp (length extraKey) sizeof_ptr)
      in if spaceUpperBound > pageSizeInner then None
         else
           (let tmp1 = BTreeNode_copyKeyValueRange left 0 0 (b_count left) tmp;
                left1 = BTreeNode_storeKeyValue (b_count left) extraKey (le_encode sizeof_ptr child) left;
                left2 = left1\<lparr>b_count := add16 (b_count left1) 1\<rparr>;
                tmp2 = BTreeNode_copyKeyValueRange right (b_count left2) 0 (b_count right) tmp1
            in Some (left2, tmp2)))"

subsection \<open>Range scans of one leaf\<close>

function BTreeNode_range_loop ::
    "BTreeNode \<Rightarrow> 's callback \<Rightarrow> nat \<Rightarrow> memory \<Rightarrow> 's \<Rightarrow> bool \<times> memory \<times> 's" where
  "BTreeNode_range_loop n cb i keyOut s =
     (if i < b_count n then
        (let keyOut' = store keyOut (b_prefixLength n) (BTreeNode_getKey n i);
             (continue, s') = cb (load keyOut' 0 (s_keyLen (b_slot n i) + b_prefixLength n))
                                 (BTreeNode_getPayload n i) s
         in if \<not> continue then (False, keyOut', s')
            else BTreeNode_range_loop n cb (i + 1) keyOut' s')
      else (True, keyOut, s))"
  by pat_completeness auto
termination
  by (relation "measure (\<lambda>(n, cb, i, keyOut, s). b_count n - i)") auto

declare BTreeNode_range_loop.simps [simp del]

text \<open>\<open>key\<close> is \<open>None\<close> for the null pointer with which a scan enters every leaf but its first. The
  scan counts as a range operation of the leaf.\<close>

definition BTreeNode_range_lookup :: "config \<Rightarrow> bytes option \<Rightarrow> 's callback \<Rightarrow> BTreeNode \<Rightarrow> rng \<Rightarrow> memory \<Rightarrow> 's \<Rightarrow>
    (bool \<times> memory \<times> 's) \<times> BTreeNode \<times> rng" where
  "BTreeNode_range_lookup cfg key cb n r keyOut s =
     (let (_, roc, r') = range_op cfg (b_roc n) r;
          n' = n\<lparr>b_roc := roc\<rparr>
      in (BTreeNode_range_loop n' cb
            (case key of None \<Rightarrow> 0 | Some k \<Rightarrow> fst (BTreeNode_lowerBound n' k)) keyOut s, n', r'))"

fun BTreeNode_range_loop_desc ::
    "BTreeNode \<Rightarrow> 's callback \<Rightarrow> nat \<Rightarrow> memory \<Rightarrow> 's \<Rightarrow> bool \<times> memory \<times> 's" where
  "BTreeNode_range_loop_desc n cb 0 keyOut s = (True, keyOut, s)"
| "BTreeNode_range_loop_desc n cb (Suc i) keyOut s =
     (let keyOut' = store keyOut (b_prefixLength n) (BTreeNode_getKey n i);
          (continue, s') = cb (load keyOut' 0 (s_keyLen (b_slot n i) + b_prefixLength n))
                              (BTreeNode_getPayload n i) s
      in if \<not> continue then (False, keyOut', s')
         else BTreeNode_range_loop_desc n cb i keyOut' s')"

text \<open>The loop runs \<open>i\<close> from \<open>lb - !found\<close> down to 0; its model counts \<open>i + 1\<close>.\<close>

definition BTreeNode_range_lookup_desc ::
    "bytes \<Rightarrow> 's callback \<Rightarrow> BTreeNode \<Rightarrow> memory \<Rightarrow> 's \<Rightarrow> bool \<times> memory \<times> 's" where
  "BTreeNode_range_lookup_desc key cb n keyOut s =
     (let keyOut' = store keyOut 0 (take (b_prefixLength n) key);
          (lb, found) = BTreeNode_lowerBound n key
      in BTreeNode_range_loop_desc n cb (if found then lb + 1 else lb) keyOut' s)"

end
