(* ===== verification/BasicNodeProps.thy ===== *)
theory BasicNodeProps
  imports BasicNode
begin

text \<open>
  The layout invariant of a \<open>BTreeNode\<close> page and the functional behaviour of its operations:
  the page is seen as its list of entries (truncated key, payload), and every operation is
  an operation on that list.
\<close>

subsection \<open>The entries of a page and the layout invariant\<close>

type_synonym entry = "bytes \<times> bytes"

definition esize :: "entry list \<Rightarrow> nat" where
  "esize es = (\<Sum>(k, v)\<leftarrow>es. length k + length v)"

lemma esize_simps [simp]:
  "esize [] = 0" "esize (e # es) = length (fst e) + length (snd e) + esize es"
  "esize (es @ fs) = esize es + esize fs"
  by (auto simp: esize_def split: prod.splits)

definition entriesUpto :: "BTreeNode \<Rightarrow> nat \<Rightarrow> entry list" where
  "entriesUpto n m = map (\<lambda>i. (BTreeNode_getKey n i, BTreeNode_getPayload n i)) [0..<m]"

definition entries :: "BTreeNode \<Rightarrow> entry list" where
  "entries n = entriesUpto n (b_count n)"

text \<open>The entries with their full keys.\<close>

definition fullEntries :: "BTreeNode \<Rightarrow> entry list" where
  "fullEntries n = map (\<lambda>(k, v). (BTreeNode_getPrefix n @ k, v)) (entries n)"

lemma length_entriesUpto [simp]: "length (entriesUpto n m) = m"
  by (simp add: entriesUpto_def)

lemma length_entries [simp]: "length (entries n) = b_count n"
  by (simp add: entries_def)

lemma nth_entriesUpto: "i < m \<Longrightarrow> entriesUpto n m ! i = (BTreeNode_getKey n i, BTreeNode_getPayload n i)"
  by (simp add: entriesUpto_def)

lemma entriesUpto_Suc:
  "entriesUpto n (Suc m) = entriesUpto n m @ [(BTreeNode_getKey n m, BTreeNode_getPayload n m)]"
  by (simp add: entriesUpto_def)

definition slotOk :: "BTreeNode \<Rightarrow> nat \<Rightarrow> bool" where
  "slotOk n i \<longleftrightarrow> b_dataOffset n \<le> s_offset (b_slot n i) \<and>
     s_offset (b_slot n i) + s_keyLen (b_slot n i) + s_payloadLen (b_slot n i) \<le> pageSize n \<and>
     s_head (b_slot n i) = head (BTreeNode_getKey n i)"

definition fenceOk :: "BTreeNode \<Rightarrow> FenceKeySlot \<Rightarrow> bool" where
  "fenceOk n f \<longleftrightarrow> fk_length f = 0 \<or>
     b_dataOffset n \<le> fk_offset f \<and> fk_offset f + fk_length f \<le> pageSize n"

text \<open>\<open>pageOk m n\<close>: the first \<open>m\<close> slots of the page hold entries, the slot array ends before the
  heap begins, and \<open>spaceUsed\<close> counts exactly the fences and the entries.\<close>

definition pageOk :: "nat \<Rightarrow> BTreeNode \<Rightarrow> bool" where
  "pageOk m n \<longleftrightarrow>
     slotsEnd m \<le> b_dataOffset n \<and>
     b_dataOffset n + b_spaceUsed n \<le> pageSize n \<and>
     fenceOk n (b_lowerFence n) \<and> fenceOk n (b_upperFence n) \<and>
     (\<forall>i<m. slotOk n i) \<and>
     b_spaceUsed n = fk_length (b_lowerFence n) + fk_length (b_upperFence n) + esize (entriesUpto n m) \<and>
     b_prefixLength n = lcp (BTreeNode_getLowerFence n) (BTreeNode_getUpperFence n)"

definition BTreeNode_inv :: "BTreeNode \<Rightarrow> bool" where
  "BTreeNode_inv n \<longleftrightarrow> pageOk (b_count n) n \<and> sorted_wrt (<) (map fst (entries n)) \<and>
     BTreeNode_validateHint n \<and> (BTreeNode_isLeaf n \<or> BTreeNode_isInner n)"

lemma length_getKey [simp]: "length (BTreeNode_getKey n i) = s_keyLen (b_slot n i)"
  by (simp add: BTreeNode_getKey_def)

lemma length_getPayload [simp]: "length (BTreeNode_getPayload n i) = s_payloadLen (b_slot n i)"
  by (simp add: BTreeNode_getPayload_def)

lemma length_getPrefix [simp]: "length (BTreeNode_getPrefix n) = b_prefixLength n"
  by (simp add: BTreeNode_getPrefix_def)

lemma length_getLowerFence [simp]:
  "length (BTreeNode_getLowerFence n) = fk_length (b_lowerFence n)"
  by (simp add: BTreeNode_getLowerFence_def)

lemma length_getUpperFence [simp]:
  "length (BTreeNode_getUpperFence n) = fk_length (b_upperFence n)"
  by (simp add: BTreeNode_getUpperFence_def)

lemma pageSize_4096 [simp]: "pageSize n = 4096"
  by (simp add: pageSize_def config_defs)

lemma slotsEnd_eq: "slotsEnd m = 92 + 10 * m"
  by (simp add: slotsEnd_def config_defs)

lemma pageOk_bounds:
  assumes "pageOk m n"
  shows "92 + 10 * m \<le> b_dataOffset n" "b_dataOffset n + b_spaceUsed n \<le> 4096"
    "b_prefixLength n \<le> fk_length (b_lowerFence n)" "b_prefixLength n \<le> fk_length (b_upperFence n)"
    "m \<le> 400"
proof -
  from assms show a: "92 + 10 * m \<le> b_dataOffset n" "b_dataOffset n + b_spaceUsed n \<le> 4096"
    by (auto simp: pageOk_def slotsEnd_eq)
  from assms have "b_prefixLength n = lcp (BTreeNode_getLowerFence n) (BTreeNode_getUpperFence n)"
    by (simp add: pageOk_def)
  then show "b_prefixLength n \<le> fk_length (b_lowerFence n)" "b_prefixLength n \<le> fk_length (b_upperFence n)"
    by (metis lcp_le1 length_getLowerFence, metis lcp_le2 length_getUpperFence)
  from a show "m \<le> 400" by simp
qed

lemma getPrefix_take:
  assumes "pageOk m n"
  shows "BTreeNode_getPrefix n = take (b_prefixLength n) (BTreeNode_getLowerFence n)"
    and "BTreeNode_getPrefix n = take (b_prefixLength n) (BTreeNode_getUpperFence n)"
proof -
  show p: "BTreeNode_getPrefix n = take (b_prefixLength n) (BTreeNode_getLowerFence n)"
    using pageOk_bounds(3) [OF assms]
    by (simp add: BTreeNode_getPrefix_def BTreeNode_getLowerFence_def min_absorb1)
  show "BTreeNode_getPrefix n = take (b_prefixLength n) (BTreeNode_getUpperFence n)"
    using assms lcp_take [of "BTreeNode_getLowerFence n" "BTreeNode_getUpperFence n"]
    by (simp add: p pageOk_def)
qed

text \<open>Space arithmetic inside the invariant: no unsigned subtraction wraps.\<close>

lemma freeSpace_eq:
  "pageOk (b_count n) n \<Longrightarrow> BTreeNode_freeSpace n = b_dataOffset n - (92 + 10 * b_count n)"
  using pageOk_bounds [of "b_count n" n]
  by (simp add: BTreeNode_freeSpace_def slotsEnd_eq c_arith)

lemma freeSpaceAfterCompaction_eq:
  "pageOk (b_count n) n \<Longrightarrow>
   BTreeNode_freeSpaceAfterCompaction n = 4096 - (92 + 10 * b_count n + b_spaceUsed n)"
  using pageOk_bounds [of "b_count n" n]
  by (simp add: BTreeNode_freeSpaceAfterCompaction_def slotsEnd_eq c_arith)

lemma spaceNeeded_eq:
  "b_prefixLength n \<le> kl \<Longrightarrow> kl < 65536 \<Longrightarrow> pl < 65536 \<Longrightarrow>
   BTreeNode_spaceNeeded n kl pl = 10 + (kl - b_prefixLength n) + pl"
  by (simp add: BTreeNode_spaceNeeded_def sizeof_Slot_def c_arith)

subsection \<open>Search\<close>

interpretation basic_search: halving_search "BTreeNode_search n key keyHead" "slotCmp n key keyHead"
  for n key keyHead
  by unfold_locales (rule BTreeNode_search.simps)

definition slotKeys :: "BTreeNode \<Rightarrow> bytes list" where
  "slotKeys n = map fst (entries n)"

lemma length_slotKeys [simp]: "length (slotKeys n) = b_count n"
  by (simp add: slotKeys_def)

lemma nth_slotKeys [simp]: "i < b_count n \<Longrightarrow> slotKeys n ! i = BTreeNode_getKey n i"
  by (simp add: slotKeys_def entries_def nth_entriesUpto)

lemma slotCmp_key_cmp:
  assumes "slotOk n i"
  shows "slotCmp n key (head key) i = key_cmp key (BTreeNode_getKey n i)"
  using assms head_less_imp [of key "BTreeNode_getKey n i"] head_less_imp [of "BTreeNode_getKey n i" key]
  by (auto simp: slotCmp_def slotOk_def enableBasicHead_def key_cmp_less [THEN iffD2]
      key_cmp_greater [THEN iffD2])

lemma key_cmp_cases: "key_cmp a b \<in> {- 1, 0, 1}"
  by (auto simp: key_cmp_def Let_def)

lemma slotCmp_order:
  assumes "slotOk n i" "i < b_count n"
  shows "(slotCmp n key (head key) i < 0 \<longleftrightarrow> key < slotKeys n ! i) \<and>
         (slotCmp n key (head key) i > 0 \<longleftrightarrow> slotKeys n ! i < key)"
  using key_cmp_cases [of key "BTreeNode_getKey n i"] assms
    key_cmp_less [of key "BTreeNode_getKey n i"] key_cmp_greater [of key "BTreeNode_getKey n i"]
  by (auto simp: slotCmp_key_cmp)

text \<open>The hints only narrow the search to a range that still brackets the lower bound.\<close>

lemma searchHint_brackets:
  assumes ok: "\<forall>i<b_count n. slotOk n i" and hint: "BTreeNode_validateHint n"
    and sorted: "sorted_wrt (<) (slotKeys n)"
    and res: "BTreeNode_searchHint n (head key) 0 (b_count n) = (lo, hi)"
  shows "lo \<le> hi \<and> hi \<le> b_count n \<and> (\<forall>j<lo. slotKeys n ! j < key) \<and>
         (\<forall>j. hi \<le> j \<and> j < b_count n \<longrightarrow> key < slotKeys n ! j)"
proof (cases "b_count n > hintCount * 2")
  case False
  with res show ?thesis by (auto simp: BTreeNode_searchHint_def)
next
  case True
  define dist where "dist = b_count n div 17"
  have cnt: "0 < dist" "(hintCount + 1) * dist \<le> length (slotKeys n)"
    using True by (auto simp: dist_def hintCount_def)
  have hintp: "b_hint n p = head (slotKeys n ! (dist * (p + 1)))" if "p < hintCount" for p
  proof -
    have "dist * (p + 1) \<le> dist * hintCount" using that by (intro mult_le_mono2) simp
    also have "\<dots> < b_count n" using cnt by (simp add: hintCount_def)
    finally have "dist * (p + 1) < b_count n" "slotOk n (dist * (p + 1))" using ok by simp_all
    with hint that show ?thesis
      by (auto simp: BTreeNode_validateHint_def hintDist_def hintCount_def dist_def slotOk_def)
  qed
  from True res have "lo = for_until (\<lambda>p. head key \<le> b_hint n p) 0 hintCount * dist"
    "hi = (let pos2 = for_until (\<lambda>p. b_hint n p \<noteq> head key) (for_until (\<lambda>p. head key \<le> b_hint n p) 0 hintCount) hintCount
       in if pos2 < hintCount then (pos2 + 1) * dist else length (slotKeys n))"
    by (auto simp: BTreeNode_searchHint_def dist_def hintCount_def Let_def)
  then show ?thesis
    using hint_brackets [OF sorted _ cnt, of head "b_hint n"] head_mono hintp unfolding length_slotKeys by blast
qed

lemma lowerBound_correct:
  assumes inv: "BTreeNode_inv n"
    and res: "BTreeNode_lowerBound n key = (i, found)"
  shows "is_lower_bound (slotKeys n) (drop (b_prefixLength n) key) i"
    and "found \<longleftrightarrow> drop (b_prefixLength n) key \<in> set (slotKeys n)"
    and "found \<Longrightarrow> i < b_count n \<and> BTreeNode_getKey n i = drop (b_prefixLength n) key"
proof -
  define k where "k = drop (b_prefixLength n) key"
  obtain lo hi where lh: "BTreeNode_searchHint n (head k) 0 (b_count n) = (lo, hi)" by fastforce
  from inv have ok: "\<forall>i<b_count n. slotOk n i" and sorted: "sorted_wrt (<) (slotKeys n)"
    and hint: "BTreeNode_validateHint n"
    by (auto simp: BTreeNode_inv_def pageOk_def slotKeys_def)
  from searchHint_brackets [OF ok hint sorted lh]
  have br: "lo \<le> hi" "hi \<le> b_count n" "\<forall>j<lo. slotKeys n ! j < k"
    "\<forall>j. hi \<le> j \<and> j < b_count n \<longrightarrow> k < slotKeys n ! j" by auto
  from res lh have s: "BTreeNode_search n k (head k) lo hi = (i, found)"
    by (simp add: BTreeNode_lowerBound_def k_def Let_def)
  have cmp: "(slotCmp n k (head k) j < 0 \<longleftrightarrow> k < slotKeys n ! j) \<and>
      (slotCmp n k (head k) j > 0 \<longleftrightarrow> slotKeys n ! j < k)" if "j < length (slotKeys n)" for j
    using slotCmp_order [of n j k] ok that by simp
  have up: "\<forall>j. hi \<le> j \<and> j < length (slotKeys n) \<longrightarrow> k \<le> slotKeys n ! j"
    using br(4) by (metis length_slotKeys less_imp_le)
  have "is_lower_bound (slotKeys n) k i \<and>
         (found \<longrightarrow> i < length (slotKeys n) \<and> slotKeys n ! i = k) \<and>
         (\<not> found \<longrightarrow> (\<forall>j<hi. slotKeys n ! j \<noteq> k))"
    using basic_search.search_result [OF cmp sorted br(1) _ br(3) up] br(2) s
    by (simp del: nth_slotKeys)
  then have lb: "is_lower_bound (slotKeys n) k i" and f: "found \<longrightarrow> i < b_count n \<and> slotKeys n ! i = k"
    and nf: "\<not> found \<longrightarrow> (\<forall>j<hi. slotKeys n ! j \<noteq> k)" by (auto simp del: nth_slotKeys)
  show "is_lower_bound (slotKeys n) (drop (b_prefixLength n) key) i" using lb by (simp add: k_def)
  show "found \<Longrightarrow> i < b_count n \<and> BTreeNode_getKey n i = drop (b_prefixLength n) key"
    using f by (auto simp: k_def)
  have "k \<notin> set (slotKeys n)" if "\<not> found"
  proof
    assume "k \<in> set (slotKeys n)"
    then obtain j where j: "j < b_count n" "slotKeys n ! j = k" by (auto simp: in_set_conv_nth)
    with that nf have "\<not> j < hi" by blast
    then have "hi \<le> j" by simp
    with br j show False by auto
  qed
  moreover have "k \<in> set (slotKeys n)" if found using that f by (metis length_slotKeys nth_mem)
  ultimately show "found \<longleftrightarrow> drop (b_prefixLength n) key \<in> set (slotKeys n)" by (auto simp: k_def)
qed

subsection \<open>Storing one entry\<close>

lemma store_fields [simp]:
  "b_tag (BTreeNode_storeKeyValue i k v n) = b_tag n"
  "b_roc (BTreeNode_storeKeyValue i k v n) = b_roc n"
  "b_count (BTreeNode_storeKeyValue i k v n) = b_count n"
  "b_upper (BTreeNode_storeKeyValue i k v n) = b_upper n"
  "b_lowerFence (BTreeNode_storeKeyValue i k v n) = b_lowerFence n"
  "b_upperFence (BTreeNode_storeKeyValue i k v n) = b_upperFence n"
  "b_prefixLength (BTreeNode_storeKeyValue i k v n) = b_prefixLength n"
  "b_hint (BTreeNode_storeKeyValue i k v n) = b_hint n"
  by (simp_all add: BTreeNode_storeKeyValue_def Let_def)

text \<open>What \<open>storeKeyValue\<close> does while the entry fits below the heap: the new entry is read back,
  everything at or above the old \<open>dataOffset\<close> is untouched.\<close>

definition sameAbove :: "nat \<Rightarrow> memory \<Rightarrow> memory \<Rightarrow> bool" where
  "sameAbove d m m' \<longleftrightarrow> (\<forall>i\<ge>d. m' i = m i)"

lemma sameAbove_load: "sameAbove d m m' \<Longrightarrow> d \<le> off \<Longrightarrow> load m' off l = load m off l"
  by (rule load_eqI) (auto simp: sameAbove_def)

lemma store_facts:
  fixes i :: nat
  assumes fit: "length (drop (b_prefixLength n) k) + length v \<le> b_dataOffset n"
    and small: "b_dataOffset n < 65536" "b_spaceUsed n + b_dataOffset n \<le> 4096"
  defines "n' \<equiv> BTreeNode_storeKeyValue i k v n"
  shows "b_dataOffset n' = b_dataOffset n - (length (drop (b_prefixLength n) k) + length v)"
    "b_spaceUsed n' = b_spaceUsed n + (length (drop (b_prefixLength n) k) + length v)"
    "sameAbove (b_dataOffset n) (b_heap n) (b_heap n')"
    "BTreeNode_getKey n' i = drop (b_prefixLength n) k"
    "BTreeNode_getPayload n' i = v"
    "b_slot n' i = \<lparr>s_offset = b_dataOffset n', s_keyLen = length k - b_prefixLength n,
       s_payloadLen = length v, s_head = head (drop (b_prefixLength n) k)\<rparr>"
    "j \<noteq> i \<Longrightarrow> b_slot n' j = b_slot n j"
proof -
  let ?k = "drop (b_prefixLength n) k"
  define off where "off = b_dataOffset n - (length ?k + length v)"
  have off: "sub16 (b_dataOffset n) (length ?k + length v) = off"
    "add16 (b_spaceUsed n) (length ?k + length v) = b_spaceUsed n + (length ?k + length v)"
    "u16 (length ?k) = length ?k" "u16 (length v) = length v"
    using fit small by (simp_all add: off_def c_arith)
  have n': "n' = n\<lparr>b_dataOffset := off, b_spaceUsed := b_spaceUsed n + (length ?k + length v),
      b_slot := (b_slot n)(i := \<lparr>s_offset = off, s_keyLen = length ?k, s_payloadLen = length v,
        s_head = head ?k\<rparr>),
      b_heap := store (store (b_heap n) off ?k) (off + length ?k) v\<rparr>"
    unfolding n'_def BTreeNode_storeKeyValue_def Let_def off ..
  have bound: "off + length ?k + length v = b_dataOffset n" using fit by (simp add: off_def)
  show "b_dataOffset n' = b_dataOffset n - (length ?k + length v)" by (simp add: n' off_def)
  show "b_spaceUsed n' = b_spaceUsed n + (length ?k + length v)" by (simp add: n')
  show "sameAbove (b_dataOffset n) (b_heap n) (b_heap n')"
    using bound by (simp add: n' sameAbove_def store_def)
  show "BTreeNode_getKey n' i = ?k"
    by (simp add: n' BTreeNode_getKey_def load_store_other load_store_same del: length_drop)
  show "BTreeNode_getPayload n' i = v"
    by (simp add: n' BTreeNode_getPayload_def load_store_same del: length_drop)
  show "b_slot n' i = \<lparr>s_offset = b_dataOffset n', s_keyLen = length k - b_prefixLength n,
       s_payloadLen = length v, s_head = head ?k\<rparr>" by (simp add: n')
  show "j \<noteq> i \<Longrightarrow> b_slot n' j = b_slot n j" by (simp add: n')
qed

lemma store_getKey_other:
  assumes "sameAbove (b_dataOffset n) (b_heap n) (b_heap n')" "b_slot n' j = b_slot n j'"
    "b_dataOffset n \<le> s_offset (b_slot n j')"
  shows "BTreeNode_getKey n' j = BTreeNode_getKey n j'"
    and "BTreeNode_getPayload n' j = BTreeNode_getPayload n j'"
  using assms by (simp_all add: BTreeNode_getKey_def BTreeNode_getPayload_def sameAbove_load)

lemma fences_sameAbove:
  assumes "sameAbove (b_dataOffset n) (b_heap n) (b_heap n')"
    "b_lowerFence n' = b_lowerFence n" "b_upperFence n' = b_upperFence n"
    "fenceOk n (b_lowerFence n)" "fenceOk n (b_upperFence n)"
  shows "BTreeNode_getLowerFence n' = BTreeNode_getLowerFence n"
    and "BTreeNode_getUpperFence n' = BTreeNode_getUpperFence n"
  using assms
  by (auto simp: BTreeNode_getLowerFence_def BTreeNode_getUpperFence_def fenceOk_def sameAbove_load)

text \<open>The general step: a page whose slots are those of \<open>n\<close> with one new entry at \<open>i\<close>, the
  slots from \<open>i\<close> on moved up by one.\<close>

lemma pageOk_store:
  assumes ok: "pageOk m n" and i: "i \<le> m"
    and len: "length (drop (b_prefixLength n) k) + length v + 10 * Suc m + 92 \<le> b_dataOffset n"
  defines "n' \<equiv> BTreeNode_storeKeyValue i k v
      (n\<lparr>b_slot := memmove_array (b_slot n) (i + 1) i (m - i)\<rparr>)"
  shows "pageOk (Suc m) n'"
    and "entriesUpto n' (Suc m) =
      take i (entriesUpto n m) @ (drop (b_prefixLength n) k, v) # drop i (entriesUpto n m)"
    and "BTreeNode_getLowerFence n' = BTreeNode_getLowerFence n"
    and "BTreeNode_getUpperFence n' = BTreeNode_getUpperFence n"
proof -
  let ?k = "drop (b_prefixLength n) k"
  define n1 where "n1 = n\<lparr>b_slot := memmove_array (b_slot n) (i + 1) i (m - i)\<rparr>"
  then have slots: "b_slot n1 = memmove_array (b_slot n) (i + 1) i (m - i)"
    and n': "n' = BTreeNode_storeKeyValue i k v n1"
    and f: "b_dataOffset n1 = b_dataOffset n" "b_spaceUsed n1 = b_spaceUsed n"
    "b_prefixLength n1 = b_prefixLength n" "b_heap n1 = b_heap n"
    "b_lowerFence n1 = b_lowerFence n" "b_upperFence n1 = b_upperFence n"
    by (simp_all add: n'_def)
  note b = pageOk_bounds [OF ok]
  have fit: "length (drop (b_prefixLength n1) k) + length v \<le> b_dataOffset n1"
    and small: "b_dataOffset n1 < 65536" "b_spaceUsed n1 + b_dataOffset n1 \<le> 4096"
    using len b f by auto
  note st = store_facts [where i = i, OF fit small, folded n']
  have above: "sameAbove (b_dataOffset n) (b_heap n) (b_heap n')" using st(3) f by simp
  have slot: "b_slot n' j = (if j < i then b_slot n j else b_slot n (j - 1))" if "j \<noteq> i" "j \<le> m" for j
    using that st(7) [of j] i slots by (auto simp: memmove_array_def)
  have okj: "slotOk n j" if "j < m" for j using ok that by (simp add: pageOk_def)
  have key: "BTreeNode_getKey n' j = BTreeNode_getKey n (if j < i then j else j - 1)"
    "BTreeNode_getPayload n' j = BTreeNode_getPayload n (if j < i then j else j - 1)"
    if "j \<noteq> i" "j \<le> m" for j
    using that i slot [OF that] okj [of "if j < i then j else j - 1"]
    by (auto intro!: store_getKey_other [OF above] simp: slotOk_def)
  show e: "entriesUpto n' (Suc m) =
      take i (entriesUpto n m) @ (?k, v) # drop i (entriesUpto n m)"
  proof (rule nth_equalityI)
    fix j assume "j < length (entriesUpto n' (Suc m))"
    then have j: "j \<le> m" by simp
    show "entriesUpto n' (Suc m) ! j =
        (take i (entriesUpto n m) @ (?k, v) # drop i (entriesUpto n m)) ! j"
      using i j key [of j] st(4,5) f
      by (cases "j = i") (auto simp: nth_entriesUpto nth_append nth_Cons')
  qed (use i in simp)
  from ok have fo: "fenceOk n (b_lowerFence n)" "fenceOk n (b_upperFence n)" by (auto simp: pageOk_def)
  show fences: "BTreeNode_getLowerFence n' = BTreeNode_getLowerFence n"
    "BTreeNode_getUpperFence n' = BTreeNode_getUpperFence n"
    by (rule fences_sameAbove [OF above]; use fo f in \<open>simp add: n'\<close>)+
  have "slotOk n' j" if "j < Suc m" for j
  proof (cases "j = i")
    case True
    with st f fit len b show ?thesis by (auto simp: slotOk_def)
  next
    case False
    then have "slotOk n (if j < i then j else j - 1)" using that i by (intro okj) auto
    with False that slot [of j] key [of j] st(1) f show ?thesis
      by (auto simp: slotOk_def split: if_splits)
  qed
  moreover have "esize (entriesUpto n' (Suc m)) = esize (entriesUpto n m) + length ?k + length v"
  proof -
    have "esize (entriesUpto n m) = esize (take i (entriesUpto n m) @ drop i (entriesUpto n m))" by simp
    then show ?thesis unfolding e esize_simps by simp
  qed
  ultimately show "pageOk (Suc m) n'"
    using ok len st(1,2) f fences by (auto simp: pageOk_def fenceOk_def slotsEnd_eq n')
qed

end
