(* ===== verification/BasicNodeOps.thy ===== *)
theory BasicNodeOps
  imports BasicNodeProps
begin

text \<open>
  The operations of a \<open>BTreeNode\<close> on its list of entries: insert, remove, the copy loop behind
  compaction, split and merge, and the pages these produce.
\<close>

subsection \<open>Hints\<close>

lemma validateHint_makeHint: "BTreeNode_validateHint (BTreeNode_makeHint n)"
  by (simp add: BTreeNode_validateHint_def BTreeNode_makeHint_def)

lemma makeHint_fields [simp]:
  "b_tag (BTreeNode_makeHint n) = b_tag n" "b_roc (BTreeNode_makeHint n) = b_roc n"
  "b_count (BTreeNode_makeHint n) = b_count n" "b_spaceUsed (BTreeNode_makeHint n) = b_spaceUsed n"
  "b_dataOffset (BTreeNode_makeHint n) = b_dataOffset n" "b_upper (BTreeNode_makeHint n) = b_upper n"
  "b_lowerFence (BTreeNode_makeHint n) = b_lowerFence n"
  "b_upperFence (BTreeNode_makeHint n) = b_upperFence n"
  "b_prefixLength (BTreeNode_makeHint n) = b_prefixLength n"
  "b_slot (BTreeNode_makeHint n) = b_slot n" "b_heap (BTreeNode_makeHint n) = b_heap n"
  by (simp_all add: BTreeNode_makeHint_def)

lemma updateHint_fields [simp]:
  "b_tag (BTreeNode_updateHint i n) = b_tag n" "b_roc (BTreeNode_updateHint i n) = b_roc n"
  "b_count (BTreeNode_updateHint i n) = b_count n" "b_spaceUsed (BTreeNode_updateHint i n) = b_spaceUsed n"
  "b_dataOffset (BTreeNode_updateHint i n) = b_dataOffset n" "b_upper (BTreeNode_updateHint i n) = b_upper n"
  "b_lowerFence (BTreeNode_updateHint i n) = b_lowerFence n"
  "b_upperFence (BTreeNode_updateHint i n) = b_upperFence n"
  "b_prefixLength (BTreeNode_updateHint i n) = b_prefixLength n"
  "b_slot (BTreeNode_updateHint i n) = b_slot n" "b_heap (BTreeNode_updateHint i n) = b_heap n"
  by (simp_all add: BTreeNode_updateHint_def Let_def)

text \<open>Two pages with the same header, slots and heap have the same entries and layout.\<close>

definition samePage :: "BTreeNode \<Rightarrow> BTreeNode \<Rightarrow> bool" where
  "samePage n n' \<longleftrightarrow> b_tag n' = b_tag n \<and> b_spaceUsed n' = b_spaceUsed n \<and>
     b_dataOffset n' = b_dataOffset n \<and> b_lowerFence n' = b_lowerFence n \<and>
     b_upperFence n' = b_upperFence n \<and> b_prefixLength n' = b_prefixLength n \<and>
     b_slot n' = b_slot n \<and> b_heap n' = b_heap n"

lemma samePage_facts:
  assumes "samePage n n'"
  shows "BTreeNode_getKey n' = BTreeNode_getKey n" "BTreeNode_getPayload n' = BTreeNode_getPayload n"
    "entriesUpto n' m = entriesUpto n m" "BTreeNode_getPrefix n' = BTreeNode_getPrefix n"
    "BTreeNode_getLowerFence n' = BTreeNode_getLowerFence n"
    "BTreeNode_getUpperFence n' = BTreeNode_getUpperFence n" "pageOk m n' = pageOk m n"
proof -
  from assms have f: "b_dataOffset n' = b_dataOffset n" "b_lowerFence n' = b_lowerFence n"
    "b_upperFence n' = b_upperFence n" "b_prefixLength n' = b_prefixLength n"
    "b_slot n' = b_slot n" "b_heap n' = b_heap n" "b_spaceUsed n' = b_spaceUsed n"
    by (simp_all add: samePage_def)
  show k: "BTreeNode_getKey n' = BTreeNode_getKey n" "BTreeNode_getPayload n' = BTreeNode_getPayload n"
    by (simp_all add: fun_eq_iff BTreeNode_getKey_def BTreeNode_getPayload_def f)
  show fe: "BTreeNode_getPrefix n' = BTreeNode_getPrefix n"
    "BTreeNode_getLowerFence n' = BTreeNode_getLowerFence n"
    "BTreeNode_getUpperFence n' = BTreeNode_getUpperFence n"
    by (simp_all add: BTreeNode_getPrefix_def BTreeNode_getLowerFence_def BTreeNode_getUpperFence_def f)
  show e: "entriesUpto n' m = entriesUpto n m" by (simp add: entriesUpto_def k)
  show "pageOk m n' = pageOk m n" by (simp add: pageOk_def slotOk_def fenceOk_def f k fe e)
qed

lemma samePage_makeHint: "samePage n (BTreeNode_makeHint n)"
  by (simp add: samePage_def)

lemma samePage_updateHint: "samePage n (BTreeNode_updateHint i n)"
  by (simp add: samePage_def)

lemma samePage_count: "samePage n (n\<lparr>b_count := c\<rparr>)"
  by (simp add: samePage_def)

lemma samePage_upper: "samePage n (n\<lparr>b_upper := p\<rparr>)"
  by (simp add: samePage_def)

lemma samePage_trans: "samePage a b \<Longrightarrow> samePage b c \<Longrightarrow> samePage a c"
  by (simp add: samePage_def)

lemma inv_intro_makeHint:
  assumes "pageOk (b_count n) n" "sorted_wrt (<) (map fst (entries n))"
    "BTreeNode_isLeaf n \<or> BTreeNode_isInner n"
  shows "BTreeNode_inv (BTreeNode_makeHint n)"
  using assms samePage_facts [where n = n, OF samePage_makeHint]
  by (simp add: BTreeNode_inv_def validateHint_makeHint entries_def BTreeNode_isLeaf_def BTreeNode_isInner_def)

text \<open>The partial refresh after an insert leaves every hint correct: below \<open>begin\<close> the sampled
  slots lie before the inserted one.\<close>

lemma validateHint_updateHint:
  assumes old: "BTreeNode_validateHint n" and cnt: "b_count n' = b_count n + 1"
    and hint: "b_hint n' = b_hint n"
    and slots: "\<And>j. j < slotId \<Longrightarrow> s_head (b_slot n' j) = s_head (b_slot n j)"
  shows "BTreeNode_validateHint (BTreeNode_updateHint slotId n')"
proof -
  define dist where "dist = hintDist (b_count n')"
  define begin' where "begin' = (if b_count n' > hintCount * 2 + 1 \<and> hintDist (b_count n' - 1) = dist
       \<and> slotId div dist > 1 then slotId div dist - 1 else 0)"
  have upd: "b_hint (BTreeNode_updateHint slotId n') i =
      (if begin' \<le> i \<and> i < hintCount then s_head (b_slot n' (dist * (i + 1))) else b_hint n' i)" for i
    by (simp add: BTreeNode_updateHint_def Let_def dist_def begin'_def)
  have "b_hint (BTreeNode_updateHint slotId n') i = s_head (b_slot n' (dist * (i + 1)))"
    if "i < hintCount" for i
  proof (cases "begin' \<le> i")
    case True
    with that show ?thesis by (simp add: upd)
  next
    case False
    then have b: "begin' = slotId div dist - 1" "b_count n > 0" "hintDist (b_count n) = dist"
      "slotId div dist > 1"
      using cnt by (auto simp: begin'_def hintCount_def split: if_splits)
    from False b have "dist * (i + 1) \<le> dist * (slotId div dist - 1)" by (intro mult_le_mono2) simp
    also have "\<dots> < dist * (slotId div dist)"
      using b by (cases "dist = 0") auto
    also have "\<dots> \<le> slotId" by simp
    finally have "dist * (i + 1) < slotId" .
    moreover have "b_hint n i = s_head (b_slot n (dist * (i + 1)))"
      using old b that by (simp add: BTreeNode_validateHint_def)
    ultimately show ?thesis
      using False that hint slots [of "dist * (i + 1)"] by (simp add: upd)
  qed
  then show ?thesis by (simp add: BTreeNode_validateHint_def dist_def)
qed

subsection \<open>Insert with space\<close>

lemma insertWithSpace_found:
  assumes "BTreeNode_inv n" "drop (b_prefixLength n) key \<in> set (slotKeys n)"
  shows "BTreeNode_insertWithSpace key payload n = None"
  using assms lowerBound_correct(2) [OF assms(1)]
  by (auto simp: BTreeNode_insertWithSpace_def split: prod.splits)

lemma insertWithSpace_new:
  assumes inv: "BTreeNode_inv n" and new: "drop (b_prefixLength n) key \<notin> set (slotKeys n)"
    and room: "10 + length (drop (b_prefixLength n) key) + length payload \<le> BTreeNode_freeSpace n"
  obtains i n' where "BTreeNode_insertWithSpace key payload n = Some n'" "BTreeNode_inv n'"
    "is_lower_bound (slotKeys n) (drop (b_prefixLength n) key) i"
    "entries n' = take i (entries n) @ (drop (b_prefixLength n) key, payload) # drop i (entries n)"
    "BTreeNode_getLowerFence n' = BTreeNode_getLowerFence n"
    "BTreeNode_getUpperFence n' = BTreeNode_getUpperFence n"
    "b_tag n' = b_tag n" "b_upper n' = b_upper n" "b_prefixLength n' = b_prefixLength n"
proof -
  let ?k = "drop (b_prefixLength n) key"
  obtain i found where lb: "BTreeNode_lowerBound n key = (i, found)" by fastforce
  note lbc = lowerBound_correct [OF inv lb]
  from new lbc(2) have nf: "\<not> found" by simp
  from inv have ok: "pageOk (b_count n) n" and sorted: "sorted_wrt (<) (slotKeys n)"
    and hint: "BTreeNode_validateHint n" by (auto simp: BTreeNode_inv_def slotKeys_def)
  from lbc(1) have i: "i \<le> b_count n" by (simp add: is_lower_bound_def)
  note b = pageOk_bounds [OF ok]
  define n1 where "n1 = n\<lparr>b_slot := memmove_array (b_slot n) (i + 1) i (b_count n - i)\<rparr>"
  define n2 where "n2 = BTreeNode_storeKeyValue i key payload n1"
  define n3 where "n3 = n2\<lparr>b_count := add16 (b_count n2) 1\<rparr>"
  have len: "length ?k + length payload + 10 * Suc (b_count n) + 92 \<le> b_dataOffset n"
    using room freeSpace_eq [OF ok] by simp
  note st = pageOk_store [OF ok i len, folded n1_def, folded n2_def]
  have c3: "b_count n3 = Suc (b_count n)"
    using b by (simp add: n3_def n2_def n1_def add16_eq)
  have same: "samePage n2 (BTreeNode_updateHint i n3)"
    by (rule samePage_trans [OF _ samePage_updateHint]) (simp add: n3_def samePage_count)
  note sf = samePage_facts [OF same]
  have res: "BTreeNode_insertWithSpace key payload n = Some (BTreeNode_updateHint i n3)"
    using lb nf by (simp add: BTreeNode_insertWithSpace_def Let_def n1_def n2_def n3_def)
  have e: "entries (BTreeNode_updateHint i n3) = take i (entries n) @ (?k, payload) # drop i (entries n)"
    using sf(3) [of "Suc (b_count n)"] st(2) c3 by (simp add: entries_def)
  have sorted': "sorted_wrt (<) (map fst (entries (BTreeNode_updateHint i n3)))"
    using sorted_wrt_insert_at [OF sorted lbc(1) new]
    by (simp add: e slotKeys_def take_map drop_map)
  have slots: "b_slot n2 j = b_slot n j" if "j < i" for j
    using that by (simp add: n2_def n1_def BTreeNode_storeKeyValue_def Let_def memmove_array_def)
  have h: "BTreeNode_validateHint (BTreeNode_updateHint i n3)"
    by (rule validateHint_updateHint [OF hint])
       (use c3 slots in \<open>auto simp: n3_def n2_def n1_def\<close>)
  have tag: "b_tag n3 = b_tag n" by (simp add: n3_def n2_def n1_def)
  have "BTreeNode_inv (BTreeNode_updateHint i n3)"
    using sf(7) [of "Suc (b_count n)"] st(1) c3 sorted' h inv tag
    by (simp add: BTreeNode_inv_def BTreeNode_isLeaf_def BTreeNode_isInner_def)
  with res lbc(1) e sf(5,6) st(3,4) tag show thesis
    by (intro that [of "BTreeNode_updateHint i n3" i]) (auto simp: n3_def n2_def n1_def)
qed

subsection \<open>Remove\<close>

lemma removeSlot_correct:
  assumes inv: "BTreeNode_inv n" and i: "i < b_count n"
  defines "n' \<equiv> BTreeNode_removeSlot i n"
  shows "BTreeNode_inv n'" and "entries n' = take i (entries n) @ drop (Suc i) (entries n)"
    and "BTreeNode_getLowerFence n' = BTreeNode_getLowerFence n"
    and "BTreeNode_getUpperFence n' = BTreeNode_getUpperFence n"
    and "b_tag n' = b_tag n" and "b_upper n' = b_upper n" and "b_prefixLength n' = b_prefixLength n"
proof -
  from inv have ok: "pageOk (b_count n) n" and sorted: "sorted_wrt (<) (slotKeys n)"
    by (auto simp: BTreeNode_inv_def slotKeys_def)
  note b = pageOk_bounds [OF ok]
  define es where "es = entries n"
  have esi: "es ! i = (BTreeNode_getKey n i, BTreeNode_getPayload n i)"
    using i by (simp add: es_def entries_def nth_entriesUpto)
  have split: "es = take i es @ es ! i # drop (Suc i) es"
    using i by (intro id_take_nth_drop) (simp add: es_def)
  have used: "b_spaceUsed n = fk_length (b_lowerFence n) + fk_length (b_upperFence n) + esize es"
    using ok by (simp add: pageOk_def es_def entries_def)
  have sz: "esize es = esize (take i es) + s_keyLen (b_slot n i) + s_payloadLen (b_slot n i)
      + esize (drop (Suc i) es)"
    by (subst split) (simp add: esi)
  define n1 where "n1 = n\<lparr>
       b_spaceUsed := sub16 (sub16 (b_spaceUsed n) (s_keyLen (b_slot n i))) (s_payloadLen (b_slot n i)),
       b_slot := memmove_array (b_slot n) i (i + 1) (b_count n - i - 1),
       b_count := sub16 (b_count n) 1\<rparr>"
  have n': "n' = BTreeNode_makeHint n1" by (simp add: n'_def BTreeNode_removeSlot_def n1_def)
  have c: "b_count n1 = b_count n - 1" using b i by (simp add: n1_def c_arith)
  have su: "b_spaceUsed n1 = b_spaceUsed n - (s_keyLen (b_slot n i) + s_payloadLen (b_slot n i))"
    using b used sz by (simp add: n1_def c_arith)
  have slot: "b_slot n1 j = b_slot n (if j < i then j else Suc j)" if "j < b_count n - 1" for j
    using that by (auto simp: n1_def memmove_array_def)
  have acc: "BTreeNode_getKey n1 j = BTreeNode_getKey n (if j < i then j else Suc j)"
    "BTreeNode_getPayload n1 j = BTreeNode_getPayload n (if j < i then j else Suc j)"
    if "j < b_count n - 1" for j
    using slot [OF that] by (simp_all add: BTreeNode_getKey_def BTreeNode_getPayload_def n1_def)
  have e: "entriesUpto n1 (b_count n - 1) = take i es @ drop (Suc i) es"
    by (rule nth_equalityI)
      (use i in \<open>auto simp: es_def entries_def nth_entriesUpto acc nth_append min_absorb2\<close>)
  have fences: "BTreeNode_getLowerFence n1 = BTreeNode_getLowerFence n"
    "BTreeNode_getUpperFence n1 = BTreeNode_getUpperFence n"
    by (simp_all add: BTreeNode_getLowerFence_def BTreeNode_getUpperFence_def n1_def)
  have slots: "slotOk n1 j" if "j < b_count n - 1" for j
  proof -
    have "slotOk n (if j < i then j else Suc j)" using ok that by (auto simp: pageOk_def)
    then show ?thesis using slot [OF that] acc [OF that] by (auto simp: slotOk_def n1_def)
  qed
  have ok1: "pageOk (b_count n1) n1"
    using ok su used sz c slots fences e
    by (auto simp: pageOk_def slotsEnd_eq fenceOk_def n1_def c_arith)
  have "sorted_wrt (<) (map fst (take i es @ es ! i # drop (Suc i) es))"
    using sorted split by (simp add: slotKeys_def es_def)
  then have "sorted_wrt (<) (map fst (take i es) @ map fst (drop (Suc i) es))"
    by (simp add: sorted_wrt_append)
  then have sorted1: "sorted_wrt (<) (map fst (entries n1))" using e c by (simp add: entries_def)
  show "BTreeNode_inv n'" unfolding n'
    by (rule inv_intro_makeHint [OF ok1 sorted1])
       (use inv in \<open>auto simp: BTreeNode_inv_def BTreeNode_isLeaf_def BTreeNode_isInner_def n1_def\<close>)
  note sf = samePage_facts [where n = n1, OF samePage_makeHint]
  show "entries n' = take i (entries n) @ drop (Suc i) (entries n)"
    using sf(3) [of "b_count n1"] e c by (simp add: n' entries_def es_def)
  show "BTreeNode_getLowerFence n' = BTreeNode_getLowerFence n"
    "BTreeNode_getUpperFence n' = BTreeNode_getUpperFence n"
    using sf fences by (simp_all add: n')
  show "b_tag n' = b_tag n" "b_upper n' = b_upper n" "b_prefixLength n' = b_prefixLength n"
    by (simp_all add: n' n1_def)
qed

subsection \<open>A fresh page with its fences\<close>

text \<open>\<open>freshPage\<close>: the page \<open>init\<close> and \<open>setFences\<close> leave for a given kind and fences.\<close>

definition freshPage :: "bool \<Rightarrow> nat \<Rightarrow> bytes \<Rightarrow> bytes \<Rightarrow> BTreeNode" where
  "freshPage isLeaf roc lo up = BTreeNode_setFences lo up (BTreeNode_init isLeaf roc TmpBTreeNode)"

lemma freshPage_facts:
  fixes isLeaf :: bool and roc :: nat
  assumes fit: "length lo + length up + 92 \<le> 4096"
  defines "n \<equiv> freshPage isLeaf roc lo up"
  shows "pageOk 0 n" "BTreeNode_getLowerFence n = lo" "BTreeNode_getUpperFence n = up"
    "b_count n = 0" "b_dataOffset n = 4096 - (length lo + length up)" "b_roc n = roc"
    "b_tag n = (if isLeaf then Tag_Leaf else Tag_Inner)" "b_prefixLength n = lcp lo up"
    "b_spaceUsed n = length lo + length up"
proof -
  have s: "sub16 4096 (length lo) = 4096 - length lo"
    "sub16 (4096 - length lo) (length up) = 4096 - length lo - length up"
    "u16 (length lo) = length lo" "u16 (length up) = length up"
    "add16 0 (length lo) = length lo" "add16 (length lo) (length up) = length lo + length up"
    using fit by (simp_all add: c_arith)
  let ?n0 = "BTreeNode_init isLeaf roc TmpBTreeNode"
  have n: "n = ?n0\<lparr>b_dataOffset := 4096 - length lo - length up, b_spaceUsed := length lo + length up,
     b_heap := store (store (b_heap ?n0) (4096 - length lo) lo) (4096 - length lo - length up) up,
     b_lowerFence := \<lparr>fk_offset = 4096 - length lo, fk_length = length lo\<rparr>,
     b_upperFence := \<lparr>fk_offset = 4096 - length lo - length up, fk_length = length up\<rparr>,
     b_prefixLength := lcp lo up\<rparr>"
    by (simp add: n_def freshPage_def BTreeNode_setFences_def BTreeNode_insertFence_def
        BTreeNode_init_def Let_def config_defs s)
  show lf: "BTreeNode_getLowerFence n = lo" and uf: "BTreeNode_getUpperFence n = up"
    using fit by (simp_all add: n BTreeNode_getLowerFence_def BTreeNode_getUpperFence_def
        load_store_other load_store_same)
  show "b_count n = 0" "b_dataOffset n = 4096 - (length lo + length up)" "b_roc n = roc"
    "b_tag n = (if isLeaf then Tag_Leaf else Tag_Inner)" "b_prefixLength n = lcp lo up"
    "b_spaceUsed n = length lo + length up"
    using fit by (simp_all add: n BTreeNode_init_def)
  show "pageOk 0 n"
    using fit by (simp add: pageOk_def lf uf) (auto simp: n slotsEnd_eq fenceOk_def entriesUpto_def)
qed

subsection \<open>The copy loop\<close>

text \<open>Appending a list of entries (full key, payload) to a page, slot by slot.\<close>

definition storeAll :: "nat \<Rightarrow> entry list \<Rightarrow> BTreeNode \<Rightarrow> BTreeNode" where
  "storeAll d xs n = fold (\<lambda>i. BTreeNode_storeKeyValue (d + i) (fst (xs ! i)) (snd (xs ! i))) [0..<length xs] n"

definition truncated :: "nat \<Rightarrow> entry list \<Rightarrow> entry list" where
  "truncated pl xs = map (\<lambda>(k, v). (drop pl k, v)) xs"

lemma truncated_simps [simp]:
  "truncated pl [] = []" "truncated pl (xs @ ys) = truncated pl xs @ truncated pl ys"
  "truncated pl (e # xs) = (drop pl (fst e), snd e) # truncated pl xs"
  "length (truncated pl xs) = length xs"
  by (auto simp: truncated_def split: prod.splits)

lemma storeAll_Nil [simp]: "storeAll d [] n = n"
  by (simp add: storeAll_def)

lemma storeAll_snoc:
  "storeAll d (xs @ [x]) n = BTreeNode_storeKeyValue (d + length xs) (fst x) (snd x) (storeAll d xs n)"
proof -
  have "fold (\<lambda>i. BTreeNode_storeKeyValue (d + i) (fst ((xs @ [x]) ! i)) (snd ((xs @ [x]) ! i))) [0..<length xs] n =
        fold (\<lambda>i. BTreeNode_storeKeyValue (d + i) (fst (xs ! i)) (snd (xs ! i))) [0..<length xs] n"
    by (rule fold_cong) (auto simp: nth_append)
  then show ?thesis by (simp add: storeAll_def)
qed

lemma storeAll_fields [simp]:
  "b_tag (storeAll d xs n) = b_tag n" "b_roc (storeAll d xs n) = b_roc n"
  "b_count (storeAll d xs n) = b_count n" "b_upper (storeAll d xs n) = b_upper n"
  "b_lowerFence (storeAll d xs n) = b_lowerFence n" "b_upperFence (storeAll d xs n) = b_upperFence n"
  "b_prefixLength (storeAll d xs n) = b_prefixLength n" "b_hint (storeAll d xs n) = b_hint n"
  by (induction xs rule: rev_induct) (simp_all add: storeAll_snoc)

lemma memmove_array_0 [simp]: "memmove_array f dst src 0 = f"
  by (auto simp: memmove_array_def fun_eq_iff)

lemma storeAll_correct:
  assumes "pageOk d n"
    and "92 + 10 * (d + length xs) + esize (truncated (b_prefixLength n) xs) \<le> b_dataOffset n"
  shows "pageOk (d + length xs) (storeAll d xs n) \<and>
    entriesUpto (storeAll d xs n) (d + length xs) = entriesUpto n d @ truncated (b_prefixLength n) xs \<and>
    BTreeNode_getLowerFence (storeAll d xs n) = BTreeNode_getLowerFence n \<and>
    BTreeNode_getUpperFence (storeAll d xs n) = BTreeNode_getUpperFence n \<and>
    b_dataOffset (storeAll d xs n) = b_dataOffset n - esize (truncated (b_prefixLength n) xs)"
  using assms(2)
proof (induction xs rule: rev_induct)
  case Nil
  with assms(1) show ?case by simp
next
  case (snoc x xs)
  let ?n = "storeAll d xs n" and ?m = "d + length xs" and ?pl = "b_prefixLength n"
  from snoc have ih: "pageOk ?m ?n" "entriesUpto ?n ?m = entriesUpto n d @ truncated ?pl xs"
    "BTreeNode_getLowerFence ?n = BTreeNode_getLowerFence n"
    "BTreeNode_getUpperFence ?n = BTreeNode_getUpperFence n"
    "b_dataOffset ?n = b_dataOffset n - esize (truncated ?pl xs)" by auto
  have len: "length (drop (b_prefixLength ?n) (fst x)) + length (snd x) + 10 * Suc ?m + 92 \<le> b_dataOffset ?n"
    using snoc.prems ih(5) by simp
  note st = pageOk_store [OF ih(1) order_refl len]
  have same: "?n\<lparr>b_slot := memmove_array (b_slot ?n) (?m + 1) ?m (?m - ?m)\<rparr> = ?n" by simp
  note b = pageOk_bounds [OF ih(1)]
  have off: "b_dataOffset (BTreeNode_storeKeyValue ?m (fst x) (snd x) ?n) =
      b_dataOffset ?n - (length (drop ?pl (fst x)) + length (snd x))"
    using store_facts(1) [where n = ?n and k = "fst x" and v = "snd x" and i = ?m] len b by simp
  have d1: "d + length (xs @ [x]) = Suc ?m" by simp
  have e: "entriesUpto (BTreeNode_storeKeyValue ?m (fst x) (snd x) ?n) (Suc ?m) =
      entriesUpto n d @ truncated ?pl (xs @ [x])"
    using st(2) ih(2) unfolding same by simp
  show ?case
    unfolding storeAll_snoc d1 using st(1,3,4) e off ih(3,4,5) unfolding same by simp
qed

text \<open>One step of the copy loop with a growing prefix stores exactly the full key of the source
  entry, so both branches of \<open>copyKeyValueRange\<close> are the same list operation.\<close>

lemma copyTruncated_eq:
  assumes ok: "slotOk src s" and pl: "b_prefixLength src \<le> b_prefixLength dst"
    and diff: "b_prefixLength dst - b_prefixLength src \<le> s_keyLen (b_slot src s)"
  shows "copyTruncated src (b_prefixLength dst - b_prefixLength src) s d dst =
    BTreeNode_storeKeyValue d (BTreeNode_getPrefix src @ BTreeNode_getKey src s)
      (BTreeNode_getPayload src s) dst"
proof -
  let ?sl = "b_slot src s" and ?diff = "b_prefixLength dst - b_prefixLength src"
  let ?k = "load (b_heap src) (s_offset ?sl + ?diff) (s_keyLen ?sl - ?diff)"
  have small: "s_keyLen ?sl + s_payloadLen ?sl \<le> 4096" using ok by (simp add: slotOk_def)
  have k: "drop (b_prefixLength dst) (BTreeNode_getPrefix src @ BTreeNode_getKey src s) = ?k"
    using pl by (simp add: BTreeNode_getKey_def)
  have nk: "sub32 (s_keyLen ?sl) ?diff = s_keyLen ?sl - ?diff"
    "u32 (s_keyLen ?sl - ?diff + s_payloadLen ?sl) = s_keyLen ?sl - ?diff + s_payloadLen ?sl"
    "u16 (s_keyLen ?sl - ?diff) = s_keyLen ?sl - ?diff" "u16 (s_payloadLen ?sl) = s_payloadLen ?sl"
    using diff small by (simp_all add: c_arith)
  have raw: "load (b_heap src) (s_offset ?sl + ?diff) (s_keyLen ?sl - ?diff + s_payloadLen ?sl) =
      ?k @ BTreeNode_getPayload src s"
    unfolding load_add using diff by (simp add: BTreeNode_getPayload_def)
  show ?thesis
    unfolding copyTruncated_def BTreeNode_storeKeyValue_def Let_def k nk raw
    by (simp add: store_append nk)
qed

lemma copyKeyValue_prefixLength: "b_prefixLength (BTreeNode_copyKeyValue src s d n) = b_prefixLength n"
  by (simp add: BTreeNode_copyKeyValue_def)

lemma copyKeyValueRange_eq_storeAll:
  assumes ok: "\<forall>i<cnt. slotOk src (s + i)"
    and long: "\<forall>i<cnt. b_prefixLength dst \<le> b_prefixLength src + s_keyLen (b_slot src (s + i))"
  defines "xs \<equiv> map (\<lambda>i. (BTreeNode_getPrefix src @ BTreeNode_getKey src (s + i),
      BTreeNode_getPayload src (s + i))) [0..<cnt]"
  shows "BTreeNode_copyKeyValueRange src d s cnt dst =
    (storeAll d xs dst)\<lparr>b_count := add16 (b_count dst) cnt\<rparr>"
proof -
  have xs: "storeAll d xs dst = fold (\<lambda>i. BTreeNode_copyKeyValue src (s + i) (d + i)) [0..<cnt] dst"
    unfolding storeAll_def by (rule fold_cong) (auto simp: xs_def BTreeNode_copyKeyValue_def)
  have "fold (\<lambda>i. copyTruncated src (b_prefixLength dst - b_prefixLength src) (s + i) (d + i)) [0..<m] dst =
      fold (\<lambda>i. BTreeNode_copyKeyValue src (s + i) (d + i)) [0..<m] dst \<and>
      b_prefixLength (fold (\<lambda>i. BTreeNode_copyKeyValue src (s + i) (d + i)) [0..<m] dst) = b_prefixLength dst"
    if pl: "b_prefixLength src \<le> b_prefixLength dst" and "m \<le> cnt" for m
    using that(2)
  proof (induction m)
    case (Suc m)
    let ?d = "fold (\<lambda>i. BTreeNode_copyKeyValue src (s + i) (d + i)) [0..<m] dst"
    from Suc have ih: "b_prefixLength ?d = b_prefixLength dst"
      "fold (\<lambda>i. copyTruncated src (b_prefixLength dst - b_prefixLength src) (s + i) (d + i)) [0..<m] dst = ?d"
      by auto
    have "slotOk src (s + m)" "b_prefixLength dst - b_prefixLength src \<le> s_keyLen (b_slot src (s + m))"
      using Suc.prems ok long by (auto simp: le_diff_conv add.commute)
    then have "copyTruncated src (b_prefixLength dst - b_prefixLength src) (s + m) (d + m) ?d =
        BTreeNode_copyKeyValue src (s + m) (d + m) ?d"
      using copyTruncated_eq [of src "s + m" ?d "d + m"] pl
      by (simp only: BTreeNode_copyKeyValue_def ih(1))
    with ih show ?case by (simp add: copyKeyValue_prefixLength)
  qed simp
  from this [OF _ order_refl] show ?thesis
    unfolding BTreeNode_copyKeyValueRange_def Let_def
    by (auto simp: xs [symmetric] enablePrefix_def)
qed

text \<open>The source entries \<open>[s..<s + cnt]\<close> with their full keys.\<close>

definition sliceEntries :: "BTreeNode \<Rightarrow> nat \<Rightarrow> nat \<Rightarrow> entry list" where
  "sliceEntries n s cnt = take cnt (drop s (fullEntries n))"

lemma length_fullEntries [simp]: "length (fullEntries n) = b_count n"
  by (simp add: fullEntries_def)

lemma sliceEntries_map:
  assumes "s + cnt \<le> b_count n"
  shows "sliceEntries n s cnt = map (\<lambda>i. (BTreeNode_getPrefix n @ BTreeNode_getKey n (s + i),
      BTreeNode_getPayload n (s + i))) [0..<cnt]"
  using assms
  by (intro nth_equalityI) (auto simp: sliceEntries_def fullEntries_def entries_def nth_entriesUpto)

lemma copyRange_correct:
  assumes src: "pageOk (b_count src) src" and rng: "s + cnt \<le> b_count src"
    and dst: "pageOk d dst"
    and long: "\<forall>(k, v) \<in> set (sliceEntries src s cnt). b_prefixLength dst \<le> length k"
    and room: "92 + 10 * (d + cnt) + esize (truncated (b_prefixLength dst) (sliceEntries src s cnt))
       \<le> b_dataOffset dst"
    and cnt: "b_count dst + cnt < 65536"
  defines "dst' \<equiv> BTreeNode_copyKeyValueRange src d s cnt dst"
  shows "pageOk (d + cnt) dst'"
    "entriesUpto dst' (d + cnt) = entriesUpto dst d @ truncated (b_prefixLength dst) (sliceEntries src s cnt)"
    "BTreeNode_getLowerFence dst' = BTreeNode_getLowerFence dst"
    "BTreeNode_getUpperFence dst' = BTreeNode_getUpperFence dst"
    "b_dataOffset dst' = b_dataOffset dst - esize (truncated (b_prefixLength dst) (sliceEntries src s cnt))"
    "b_count dst' = b_count dst + cnt" "b_tag dst' = b_tag dst" "b_upper dst' = b_upper dst"
    "b_prefixLength dst' = b_prefixLength dst" "b_roc dst' = b_roc dst"
proof -
  let ?xs = "sliceEntries src s cnt"
  have len: "length ?xs = cnt" using rng by (simp add: sliceEntries_map)
  have slots: "\<forall>i<cnt. slotOk src (s + i)" using src rng by (auto simp: pageOk_def)
  have "\<forall>i<cnt. b_prefixLength dst \<le> b_prefixLength src + s_keyLen (b_slot src (s + i))"
    using long by (auto simp: sliceEntries_map [OF rng])
  from copyKeyValueRange_eq_storeAll [OF slots this]
  have eq: "dst' = (storeAll d ?xs dst)\<lparr>b_count := b_count dst + cnt\<rparr>"
    using cnt by (simp add: dst'_def sliceEntries_map [OF rng] c_arith)
  have sa: "pageOk (d + cnt) (storeAll d ?xs dst) \<and>
    entriesUpto (storeAll d ?xs dst) (d + cnt) = entriesUpto dst d @ truncated (b_prefixLength dst) ?xs \<and>
    BTreeNode_getLowerFence (storeAll d ?xs dst) = BTreeNode_getLowerFence dst \<and>
    BTreeNode_getUpperFence (storeAll d ?xs dst) = BTreeNode_getUpperFence dst \<and>
    b_dataOffset (storeAll d ?xs dst) = b_dataOffset dst - esize (truncated (b_prefixLength dst) ?xs)"
    using storeAll_correct [OF dst, of ?xs] room len by simp
  have same: "samePage (storeAll d ?xs dst) dst'" unfolding eq by (rule samePage_count)
  show "pageOk (d + cnt) dst'"
    "entriesUpto dst' (d + cnt) = entriesUpto dst d @ truncated (b_prefixLength dst) ?xs"
    "BTreeNode_getLowerFence dst' = BTreeNode_getLowerFence dst"
    "BTreeNode_getUpperFence dst' = BTreeNode_getUpperFence dst"
    using sa samePage_facts [OF same] by simp_all
  show "b_dataOffset dst' = b_dataOffset dst - esize (truncated (b_prefixLength dst) ?xs)"
    "b_count dst' = b_count dst + cnt" "b_tag dst' = b_tag dst" "b_upper dst' = b_upper dst"
    "b_prefixLength dst' = b_prefixLength dst" "b_roc dst' = b_roc dst"
    using sa by (simp_all add: eq)
qed

end
