(* ===== verification/BasicNodePages.thy ===== *)
theory BasicNodePages
  imports BasicNodeOps
begin

text \<open>
  Whole-page operations of \<open>BTreeNode\<close>: compaction, split and merge keep the full keys and
  payloads, inside the fences of the pages they produce.
\<close>

subsection \<open>Keys inside fences\<close>

text \<open>The lower fence is exclusive, the upper inclusive; an empty fence is no bound.\<close>

definition inFences :: "bytes \<Rightarrow> bytes \<Rightarrow> bytes \<Rightarrow> bool" where
  "inFences lo up k \<longleftrightarrow> (lo = [] \<or> lo < k) \<and> (up = [] \<or> k \<le> up)"

lemma inFences_prefix:
  assumes "inFences lo up k"
  shows "lcp lo up \<le> length k" and "take (lcp lo up) k = take (lcp lo up) lo"
proof -
  have "lcp lo up \<le> length k \<and> take (lcp lo up) k = take (lcp lo up) lo"
  proof (cases "lo = [] \<or> up = []")
    case True
    then show ?thesis by auto
  next
    case False
    with assms have "lo \<le> k" "k \<le> up" by (auto simp: inFences_def)
    then show ?thesis by (rule prefix_between [OF _ _ lcp_take lcp_le1 lcp_le2])
  qed
  then show "lcp lo up \<le> length k" and "take (lcp lo up) k = take (lcp lo up) lo" by auto
qed

definition keysInFences :: "BTreeNode \<Rightarrow> bool" where
  "keysInFences n \<longleftrightarrow> (\<forall>k \<in> fst ` set (fullEntries n).
     inFences (BTreeNode_getLowerFence n) (BTreeNode_getUpperFence n) k)"

text \<open>A key inside the fences of a page starts with its prefix, so the search loses nothing by
  dropping it.\<close>

lemma inFences_getPrefix:
  assumes ok: "pageOk m n"
    and k: "inFences (BTreeNode_getLowerFence n) (BTreeNode_getUpperFence n) k"
  shows "b_prefixLength n \<le> length k" and "BTreeNode_getPrefix n @ drop (b_prefixLength n) k = k"
proof -
  have pl: "b_prefixLength n = lcp (BTreeNode_getLowerFence n) (BTreeNode_getUpperFence n)"
    using ok by (simp add: pageOk_def)
  show "b_prefixLength n \<le> length k" using inFences_prefix(1) [OF k] pl by simp
  have "BTreeNode_getPrefix n = take (b_prefixLength n) k"
    using getPrefix_take(1) [OF ok] inFences_prefix(2) [OF k] pl by simp
  then show "BTreeNode_getPrefix n @ drop (b_prefixLength n) k = k" by simp
qed

lemma sorted_fullEntries:
  "sorted_wrt (<) (map fst (fullEntries n)) = sorted_wrt (<) (map fst (entries n))"
  by (simp add: fullEntries_def sorted_wrt_map case_prod_unfold)

lemma truncated_fullEntries: "truncated (b_prefixLength n) (fullEntries n) = entries n"
  by (auto simp: truncated_def fullEntries_def intro!: nth_equalityI split: prod.splits)

lemma fullEntries_congr:
  assumes "BTreeNode_getPrefix n' = BTreeNode_getPrefix n" "entries n' = entries n"
  shows "fullEntries n' = fullEntries n"
  using assms by (simp add: fullEntries_def)

text \<open>Appending a slice of one page to another, on full keys.\<close>

lemma copyRange_full:
  assumes src: "pageOk (b_count src) src" and rng: "s + cnt \<le> b_count src"
    and dst: "pageOk (b_count dst) dst"
    and bound: "\<forall>k \<in> fst ` set (sliceEntries src s cnt).
       inFences (BTreeNode_getLowerFence dst) (BTreeNode_getUpperFence dst) k"
    and room: "92 + 10 * (b_count dst + cnt) +
       esize (truncated (b_prefixLength dst) (sliceEntries src s cnt)) \<le> b_dataOffset dst"
  defines "dst' \<equiv> BTreeNode_copyKeyValueRange src (b_count dst) s cnt dst"
  shows "pageOk (b_count dst') dst'" "fullEntries dst' = fullEntries dst @ sliceEntries src s cnt"
    "BTreeNode_getLowerFence dst' = BTreeNode_getLowerFence dst"
    "BTreeNode_getUpperFence dst' = BTreeNode_getUpperFence dst"
    "b_dataOffset dst' = b_dataOffset dst - esize (truncated (b_prefixLength dst) (sliceEntries src s cnt))"
    "b_count dst' = b_count dst + cnt" "b_tag dst' = b_tag dst" "b_upper dst' = b_upper dst"
    "b_prefixLength dst' = b_prefixLength dst" "b_roc dst' = b_roc dst"
proof -
  let ?xs = "sliceEntries src s cnt"
  note bd = pageOk_bounds [OF dst] and bs = pageOk_bounds [OF src]
  have long: "\<forall>(k, v) \<in> set ?xs. b_prefixLength dst \<le> length k"
    using inFences_getPrefix(1) [OF dst] bound by fastforce
  have cnt: "b_count dst + cnt < 65536" using room bd by simp
  note cr = copyRange_correct [OF src rng dst long room cnt, folded dst'_def]
  show "pageOk (b_count dst') dst'" using cr(1) cr(6) by simp
  then have ok': "pageOk (b_count dst') dst'" .
  have pfx: "BTreeNode_getPrefix dst' = BTreeNode_getPrefix dst"
    by (simp add: getPrefix_take(1) [OF ok'] getPrefix_take(1) [OF dst] cr)
  have "map (\<lambda>(k, v). (BTreeNode_getPrefix dst @ k, v)) (truncated (b_prefixLength dst) ?xs) = ?xs"
    unfolding truncated_def map_map
  proof (rule map_idI)
    fix x assume x: "x \<in> set ?xs"
    then have "inFences (BTreeNode_getLowerFence dst) (BTreeNode_getUpperFence dst) (fst x)"
      using bound by auto
    from inFences_getPrefix(2) [OF dst this]
    show "((\<lambda>(k, v). (BTreeNode_getPrefix dst @ k, v)) \<circ> (\<lambda>(k, v). (drop (b_prefixLength dst) k, v))) x = x"
      by (cases x) simp
  qed
  then show "fullEntries dst' = fullEntries dst @ ?xs"
    using cr(2,6) pfx by (simp add: fullEntries_def entries_def)
  show "BTreeNode_getLowerFence dst' = BTreeNode_getLowerFence dst"
    "BTreeNode_getUpperFence dst' = BTreeNode_getUpperFence dst"
    "b_dataOffset dst' = b_dataOffset dst - esize (truncated (b_prefixLength dst) ?xs)"
    "b_count dst' = b_count dst + cnt" "b_tag dst' = b_tag dst" "b_upper dst' = b_upper dst"
    "b_prefixLength dst' = b_prefixLength dst" "b_roc dst' = b_roc dst"
    by (simp_all add: cr)
qed

lemma fullEntries_empty: "b_count n = 0 \<Longrightarrow> fullEntries n = []"
  by (metis length_0_conv length_fullEntries)

text \<open>A fresh page filled with a slice.\<close>

lemma copyFresh:
  fixes isLeaf :: bool and roc :: nat and u :: ptr
  assumes src: "pageOk (b_count src) src" and rng: "s + cnt \<le> b_count src"
    and bound: "\<forall>k \<in> fst ` set (sliceEntries src s cnt). inFences lo up k"
    and room: "92 + 10 * cnt + length lo + length up +
       esize (truncated (lcp lo up) (sliceEntries src s cnt)) \<le> 4096"
  defines "p \<equiv> BTreeNode_copyKeyValueRange src 0 s cnt (freshPage isLeaf roc lo up)"
  shows "pageOk (b_count p) p" "fullEntries p = sliceEntries src s cnt"
    "BTreeNode_getLowerFence p = lo" "BTreeNode_getUpperFence p = up" "b_count p = cnt"
    "b_tag p = (if isLeaf then Tag_Leaf else Tag_Inner)" "b_prefixLength p = lcp lo up"
    "b_roc p = roc"
    "b_dataOffset p = 4096 - (length lo + length up) - esize (truncated (lcp lo up) (sliceEntries src s cnt))"
proof -
  let ?f = "freshPage isLeaf roc lo up"
  have fit: "length lo + length up + 92 \<le> 4096" using room by simp
  note ff = freshPage_facts [OF fit, of isLeaf roc]
  have dst: "pageOk (b_count ?f) ?f" using ff(1,4) by simp
  have b': "\<forall>k \<in> fst ` set (sliceEntries src s cnt).
       inFences (BTreeNode_getLowerFence ?f) (BTreeNode_getUpperFence ?f) k"
    using bound ff by simp
  have r': "92 + 10 * (b_count ?f + cnt) +
       esize (truncated (b_prefixLength ?f) (sliceEntries src s cnt)) \<le> b_dataOffset ?f"
    using room ff by simp
  note cf = copyRange_full [OF src rng dst b' r', unfolded ff(4), folded p_def]
  show "pageOk (b_count p) p" by (rule cf(1))
  show "fullEntries p = sliceEntries src s cnt" using cf(2) fullEntries_empty [OF ff(4)] by simp
  show "BTreeNode_getLowerFence p = lo" "BTreeNode_getUpperFence p = up" "b_count p = cnt"
    "b_tag p = (if isLeaf then Tag_Leaf else Tag_Inner)" "b_prefixLength p = lcp lo up" "b_roc p = roc"
    "b_dataOffset p = 4096 - (length lo + length up) - esize (truncated (lcp lo up) (sliceEntries src s cnt))"
    using cf ff by simp_all
qed

subsection \<open>Compaction\<close>

lemma pageOk_fullRoom:
  assumes ok: "pageOk (b_count n) n"
  shows "92 + 10 * b_count n + fk_length (b_lowerFence n) + fk_length (b_upperFence n) +
    esize (entries n) \<le> 4096"
    "b_spaceUsed n = fk_length (b_lowerFence n) + fk_length (b_upperFence n) + esize (entries n)"
  using ok by (auto simp: pageOk_def slotsEnd_eq entries_def)

lemma sliceEntries_all: "sliceEntries n 0 (b_count n) = fullEntries n"
  by (simp add: sliceEntries_def)

theorem compactify_correct:
  assumes inv: "BTreeNode_inv n" and kf: "keysInFences n"
  defines "n' \<equiv> BTreeNode_compactify n"
  shows "BTreeNode_inv n'" "fullEntries n' = fullEntries n" "keysInFences n'"
    "BTreeNode_getLowerFence n' = BTreeNode_getLowerFence n"
    "BTreeNode_getUpperFence n' = BTreeNode_getUpperFence n"
    "b_tag n' = b_tag n" "b_upper n' = b_upper n" "b_prefixLength n' = b_prefixLength n"
    "BTreeNode_freeSpace n' = BTreeNode_freeSpaceAfterCompaction n"
    "b_count n' = b_count n" "b_roc n' = b_roc n"
proof -
  let ?lo = "BTreeNode_getLowerFence n" and ?up = "BTreeNode_getUpperFence n"
  from inv have ok: "pageOk (b_count n) n" and kind: "BTreeNode_isLeaf n \<or> BTreeNode_isInner n"
    and sorted: "sorted_wrt (<) (map fst (fullEntries n))"
    by (auto simp: BTreeNode_inv_def sorted_fullEntries)
  have pl: "b_prefixLength n = lcp ?lo ?up" using ok by (simp add: pageOk_def)
  define p where "p = BTreeNode_copyKeyValueRange n 0 0 (b_count n)
      (freshPage (BTreeNode_isLeaf n) (b_roc n) ?lo ?up)"
  have bound: "\<forall>k \<in> fst ` set (sliceEntries n 0 (b_count n)). inFences ?lo ?up k"
    using kf by (simp add: keysInFences_def sliceEntries_all)
  have tr: "truncated (lcp ?lo ?up) (fullEntries n) = entries n"
    using truncated_fullEntries [of n] pl by simp
  have room: "92 + 10 * b_count n + length ?lo + length ?up +
       esize (truncated (lcp ?lo ?up) (sliceEntries n 0 (b_count n))) \<le> 4096"
    using pageOk_fullRoom(1) [OF ok] by (simp add: sliceEntries_all tr)
  have rng: "0 + b_count n \<le> b_count n" by simp
  note cf = copyFresh [where isLeaf = "BTreeNode_isLeaf n" and roc = "b_roc n",
      OF ok rng bound room, folded p_def, unfolded sliceEntries_all tr]
  have n': "n' = BTreeNode_makeHint (p\<lparr>b_upper := b_upper n\<rparr>)"
    by (simp add: n'_def BTreeNode_compactify_def Let_def p_def freshPage_def)
  have same: "samePage p n'" unfolding n' by (rule samePage_trans [OF samePage_upper samePage_makeHint])
  note sf = samePage_facts [OF same]
  have cnt: "b_count n' = b_count n" using cf(5) by (simp add: n')
  then show "b_count n' = b_count n" .
  have ok': "pageOk (b_count n') n'" using cf(1,5) sf(7) [of "b_count n"] cnt by simp
  show full: "fullEntries n' = fullEntries n"
    using cf(2) sf(3,4) cnt cf(5) by (simp add: fullEntries_def entries_def)
  show lo: "BTreeNode_getLowerFence n' = ?lo" and up: "BTreeNode_getUpperFence n' = ?up"
    using cf sf by simp_all
  show tag: "b_tag n' = b_tag n"
    using cf(6) kind by (auto simp: n' BTreeNode_isLeaf_def BTreeNode_isInner_def)
  show "b_upper n' = b_upper n" by (simp add: n')
  show "b_roc n' = b_roc n" using cf(8) by (simp add: n')
  show "b_prefixLength n' = b_prefixLength n" using cf(7) pl by (simp add: n')
  show "keysInFences n'" using kf by (simp add: keysInFences_def full lo up)
  show "BTreeNode_inv n'"
    using ok' sorted full kind tag
    by (auto simp: BTreeNode_inv_def sorted_fullEntries [symmetric] n' validateHint_makeHint
        BTreeNode_isLeaf_def BTreeNode_isInner_def)
  show "BTreeNode_freeSpace n' = BTreeNode_freeSpaceAfterCompaction n"
    using freeSpace_eq [OF ok'] freeSpaceAfterCompaction_eq [OF ok] cf(9) cnt pageOk_fullRoom [OF ok]
    by (simp add: n')
qed

lemma requestSpaceFor_correct:
  assumes inv: "BTreeNode_inv n" and kf: "keysInFences n"
    and res: "BTreeNode_requestSpaceFor sp n = (ok, n')"
  shows "ok \<longleftrightarrow> sp \<le> BTreeNode_freeSpaceAfterCompaction n" "\<not> ok \<Longrightarrow> n' = n"
    "ok \<Longrightarrow> sp \<le> BTreeNode_freeSpace n'" "BTreeNode_inv n'" "keysInFences n'"
    "fullEntries n' = fullEntries n"
    "BTreeNode_getLowerFence n' = BTreeNode_getLowerFence n"
    "BTreeNode_getUpperFence n' = BTreeNode_getUpperFence n"
    "b_tag n' = b_tag n" "b_upper n' = b_upper n" "b_prefixLength n' = b_prefixLength n"
    "b_count n' = b_count n"
proof -
  from inv have pok: "pageOk (b_count n) n" by (simp add: BTreeNode_inv_def)
  have le: "BTreeNode_freeSpace n \<le> BTreeNode_freeSpaceAfterCompaction n"
    using freeSpace_eq [OF pok] freeSpaceAfterCompaction_eq [OF pok] pageOk_bounds [OF pok] by simp
  note cc = compactify_correct [OF inv kf]
  show "ok \<longleftrightarrow> sp \<le> BTreeNode_freeSpaceAfterCompaction n" "\<not> ok \<Longrightarrow> n' = n"
    "ok \<Longrightarrow> sp \<le> BTreeNode_freeSpace n'" "BTreeNode_inv n'" "keysInFences n'"
    "fullEntries n' = fullEntries n"
    "BTreeNode_getLowerFence n' = BTreeNode_getLowerFence n"
    "BTreeNode_getUpperFence n' = BTreeNode_getUpperFence n"
    "b_tag n' = b_tag n" "b_upper n' = b_upper n" "b_prefixLength n' = b_prefixLength n"
    "b_count n' = b_count n"
    using res le cc inv kf by (auto simp: BTreeNode_requestSpaceFor_def split: if_splits)
qed

subsection \<open>Split\<close>

text \<open>The two pages of a leaf split: the entries up to \<open>sepSlot\<close> go left, the others right, the
  separator becomes the fence between them. The room conditions are what the code relies on
  without checking.\<close>

lemma sliceEntries_take: "sliceEntries n 0 c = take c (fullEntries n)"
  by (simp add: sliceEntries_def)

lemma sliceEntries_drop: "c = b_count n - s \<Longrightarrow> sliceEntries n s c = drop s (fullEntries n)"
  by (simp add: sliceEntries_def)

definition fitsPage :: "nat \<Rightarrow> bytes \<Rightarrow> bytes \<Rightarrow> entry list \<Rightarrow> bool" where
  "fitsPage cnt lo up xs \<longleftrightarrow>
     92 + 10 * cnt + length lo + length up + esize (truncated (lcp lo up) xs) \<le> 4096"

lemma sorted_take_drop:
  "sorted_wrt (<) (map fst xs) \<Longrightarrow>
   sorted_wrt (<) (map fst (take n xs)) \<and> sorted_wrt (<) (map fst (drop n xs))"
  by (simp add: take_map [symmetric] drop_map [symmetric] sorted_wrt_take sorted_wrt_drop)

lemma freshPage_makeHint_inv:
  fixes isLeaf :: bool and roc :: nat and u :: ptr
  assumes src: "pageOk (b_count src) src" and rng: "s + cnt \<le> b_count src"
    and bound: "\<forall>k \<in> fst ` set (sliceEntries src s cnt). inFences lo up k"
    and room: "fitsPage cnt lo up (sliceEntries src s cnt)"
    and sorted: "sorted_wrt (<) (map fst (sliceEntries src s cnt))"
  defines "p \<equiv> BTreeNode_makeHint
      (BTreeNode_copyKeyValueRange src 0 s cnt (freshPage isLeaf roc lo up)\<lparr>b_upper := u\<rparr>)"
  shows "BTreeNode_inv p" "fullEntries p = sliceEntries src s cnt" "keysInFences p"
    "BTreeNode_getLowerFence p = lo" "BTreeNode_getUpperFence p = up" "b_count p = cnt"
    "b_tag p = (if isLeaf then Tag_Leaf else Tag_Inner)" "b_upper p = u"
proof -
  let ?q = "BTreeNode_copyKeyValueRange src 0 s cnt (freshPage isLeaf roc lo up)"
  note cf = copyFresh [where isLeaf = isLeaf and roc = roc,
      OF src rng bound room [unfolded fitsPage_def]]
  have same: "samePage ?q p"
    unfolding p_def by (rule samePage_trans [OF samePage_upper samePage_makeHint])
  note sf = samePage_facts [OF same]
  show cnt: "b_count p = cnt" using cf(5) by (simp add: p_def)
  show full: "fullEntries p = sliceEntries src s cnt"
    using cf(2) sf(3,4) cnt cf(5) by (simp add: fullEntries_def entries_def)
  show tag: "b_tag p = (if isLeaf then Tag_Leaf else Tag_Inner)" using cf(6) by (simp add: p_def)
  show fe: "BTreeNode_getLowerFence p = lo" "BTreeNode_getUpperFence p = up" using cf sf by simp_all
  show "b_upper p = u" by (simp add: p_def)
  show "keysInFences p" using bound by (simp add: keysInFences_def full fe)
  have "pageOk (b_count p) p" using cf(1,5) sf(7) [of cnt] cnt by simp
  moreover have "BTreeNode_validateHint p" by (simp add: p_def validateHint_makeHint)
  ultimately show "BTreeNode_inv p"
    using sorted tag full
    by (auto simp: BTreeNode_inv_def sorted_fullEntries [symmetric] BTreeNode_isLeaf_def BTreeNode_isInner_def)
qed

definition splitsAt :: "entry list \<Rightarrow> nat \<Rightarrow> bytes \<Rightarrow> bool" where
  "splitsAt xs c sep \<longleftrightarrow> sep \<noteq> [] \<and> (\<forall>k \<in> fst ` set (take c xs). k \<le> sep) \<and>
     (\<forall>k \<in> fst ` set (drop c xs). sep < k)"

theorem splitPages_leaf:
  assumes inv: "BTreeNode_inv n" and kf: "keysInFences n" and leaf: "BTreeNode_isLeaf n"
    and s: "s < b_count n" and sep: "splitsAt (fullEntries n) (Suc s) sep"
    and fitL: "fitsPage (Suc s) (BTreeNode_getLowerFence n) sep (take (Suc s) (fullEntries n))"
    and fitR: "fitsPage (b_count n - Suc s) sep (BTreeNode_getUpperFence n) (drop (Suc s) (fullEntries n))"
    and lr: "BTreeNode_splitPages n s sep = (l, r)"
  shows "BTreeNode_inv l" "BTreeNode_inv r" "keysInFences l" "keysInFences r"
    "fullEntries l = take (Suc s) (fullEntries n)" "fullEntries r = drop (Suc s) (fullEntries n)"
    "BTreeNode_getLowerFence l = BTreeNode_getLowerFence n" "BTreeNode_getUpperFence l = sep"
    "BTreeNode_getLowerFence r = sep" "BTreeNode_getUpperFence r = BTreeNode_getUpperFence n"
    "b_tag l = Tag_Leaf" "b_tag r = Tag_Leaf"
proof -
  let ?lo = "BTreeNode_getLowerFence n" and ?up = "BTreeNode_getUpperFence n"
  from inv have ok: "pageOk (b_count n) n" and sorted: "sorted_wrt (<) (map fst (fullEntries n))"
    by (auto simp: BTreeNode_inv_def sorted_fullEntries)
  have slL: "sliceEntries n 0 (Suc s) = take (Suc s) (fullEntries n)"
    and slR: "sliceEntries n (Suc s) (b_count n - Suc s) = drop (Suc s) (fullEntries n)"
    by (simp_all add: sliceEntries_take sliceEntries_drop)
  have bL: "\<forall>k \<in> fst ` set (sliceEntries n 0 (Suc s)). inFences ?lo sep k"
    using kf sep unfolding slL keysInFences_def splitsAt_def inFences_def
    by (meson image_mono set_take_subset subsetD)
  have bR: "\<forall>k \<in> fst ` set (sliceEntries n (Suc s) (b_count n - Suc s)). inFences sep ?up k"
    using kf sep unfolding slR keysInFences_def splitsAt_def inFences_def
    by (meson image_mono set_drop_subset subsetD)
  have so: "sorted_wrt (<) (map fst (sliceEntries n 0 (Suc s)))"
    "sorted_wrt (<) (map fst (sliceEntries n (Suc s) (b_count n - Suc s)))"
    unfolding slL slR using sorted_take_drop [OF sorted] by blast+
  have rL: "0 + Suc s \<le> b_count n" and rR: "Suc s + (b_count n - Suc s) \<le> b_count n" using s by auto
  let ?l = "BTreeNode_copyKeyValueRange n 0 0 (Suc s) (freshPage True (b_roc n) ?lo sep)"
  let ?r = "BTreeNode_copyKeyValueRange n 0 (Suc s) (b_count n - Suc s) (freshPage True (b_roc n) sep ?up)"
  note L = freshPage_makeHint_inv [where isLeaf = True and roc = "b_roc n" and u = "b_upper ?l",
      OF ok rL bL fitL [folded slL] so(1)]
  note R = freshPage_makeHint_inv [where isLeaf = True and roc = "b_roc n" and u = "b_upper ?r",
      OF ok rR bR fitR [folded slR] so(2)]
  have cl: "b_count ?l = Suc s" using L(6) by simp
  have l: "l = BTreeNode_makeHint (?l\<lparr>b_upper := b_upper ?l\<rparr>)"
    and r: "r = BTreeNode_makeHint (?r\<lparr>b_upper := b_upper ?r\<rparr>)"
    using lr leaf cl by (auto simp: BTreeNode_splitPages_def Let_def freshPage_def)
  show "BTreeNode_inv l" "BTreeNode_inv r" "keysInFences l" "keysInFences r"
    "fullEntries l = take (Suc s) (fullEntries n)" "fullEntries r = drop (Suc s) (fullEntries n)"
    "BTreeNode_getLowerFence l = ?lo" "BTreeNode_getUpperFence l = sep"
    "BTreeNode_getLowerFence r = sep" "BTreeNode_getUpperFence r = ?up"
    "b_tag l = Tag_Leaf" "b_tag r = Tag_Leaf"
    unfolding l r using L R slL slR by simp_all
qed

theorem splitPages_inner:
  assumes inv: "BTreeNode_inv n" and kf: "keysInFences n" and inner: "BTreeNode_isInner n"
    and s: "s < b_count n" and sepL: "splitsAt (fullEntries n) (Suc s) sep"
    and fitL: "fitsPage s (BTreeNode_getLowerFence n) sep (take s (fullEntries n))"
    and fitR: "fitsPage (b_count n - Suc s) sep (BTreeNode_getUpperFence n) (drop (Suc s) (fullEntries n))"
    and lr: "BTreeNode_splitPages n s sep = (l, r)"
  shows "BTreeNode_inv l" "BTreeNode_inv r" "keysInFences l" "keysInFences r"
    "fullEntries l = take s (fullEntries n)" "fullEntries r = drop (Suc s) (fullEntries n)"
    "BTreeNode_getLowerFence l = BTreeNode_getLowerFence n" "BTreeNode_getUpperFence l = sep"
    "BTreeNode_getLowerFence r = sep" "BTreeNode_getUpperFence r = BTreeNode_getUpperFence n"
    "b_tag l = Tag_Inner" "b_tag r = Tag_Inner"
    "b_upper l = BTreeNode_getChild n s" "b_upper r = b_upper n"
proof -
  let ?lo = "BTreeNode_getLowerFence n" and ?up = "BTreeNode_getUpperFence n"
  from inv have ok: "pageOk (b_count n) n" and sorted: "sorted_wrt (<) (map fst (fullEntries n))"
    by (auto simp: BTreeNode_inv_def sorted_fullEntries)
  have slL: "sliceEntries n 0 s = take s (fullEntries n)"
    and slR: "sliceEntries n (Suc s) (b_count n - Suc s) = drop (Suc s) (fullEntries n)"
    by (simp_all add: sliceEntries_take sliceEntries_drop)
  have sub: "set (take s (fullEntries n)) \<subseteq> set (take (Suc s) (fullEntries n))"
    by (rule set_take_subset_set_take) simp
  have bL: "\<forall>k \<in> fst ` set (sliceEntries n 0 s). inFences ?lo sep k"
    using kf sepL sub unfolding slL keysInFences_def splitsAt_def inFences_def
    by (meson image_mono set_take_subset subsetD)
  have bR: "\<forall>k \<in> fst ` set (sliceEntries n (Suc s) (b_count n - Suc s)). inFences sep ?up k"
    using kf sepL unfolding slR keysInFences_def splitsAt_def inFences_def
    by (meson image_mono set_drop_subset subsetD)
  have so: "sorted_wrt (<) (map fst (sliceEntries n 0 s))"
    "sorted_wrt (<) (map fst (sliceEntries n (Suc s) (b_count n - Suc s)))"
    unfolding slL slR using sorted_take_drop [OF sorted] by blast+
  have rL: "0 + s \<le> b_count n" and rR: "Suc s + (b_count n - Suc s) \<le> b_count n" using s by auto
  have nl: "\<not> BTreeNode_isLeaf n" using inner by (simp add: BTreeNode_isInner_def BTreeNode_isLeaf_def)
  let ?l = "BTreeNode_copyKeyValueRange n 0 0 s (freshPage False (b_roc n) ?lo sep)"
  let ?r = "BTreeNode_copyKeyValueRange n 0 (Suc s) (b_count n - Suc s) (freshPage False (b_roc n) sep ?up)"
  note L = freshPage_makeHint_inv [where isLeaf = False and roc = "b_roc n" and u = "BTreeNode_getChild n s",
      OF ok rL bL fitL [folded slL] so(1)]
  note R = freshPage_makeHint_inv [where isLeaf = False and roc = "b_roc n" and u = "b_upper n",
      OF ok rR bR fitR [folded slR] so(2)]
  have cl: "b_count ?l = s" using L(6) by simp
  have l: "l = BTreeNode_makeHint (?l\<lparr>b_upper := BTreeNode_getChild n s\<rparr>)"
    and r: "r = BTreeNode_makeHint (?r\<lparr>b_upper := b_upper n\<rparr>)"
    using lr nl cl by (auto simp: BTreeNode_splitPages_def Let_def freshPage_def)
  show "BTreeNode_inv l" "BTreeNode_inv r" "keysInFences l" "keysInFences r"
    "fullEntries l = take s (fullEntries n)" "fullEntries r = drop (Suc s) (fullEntries n)"
    "BTreeNode_getLowerFence l = ?lo" "BTreeNode_getUpperFence l = sep"
    "BTreeNode_getLowerFence r = sep" "BTreeNode_getUpperFence r = ?up"
    "b_tag l = Tag_Inner" "b_tag r = Tag_Inner"
    "b_upper l = BTreeNode_getChild n s" "b_upper r = b_upper n"
    unfolding l r using L R slL slR by simp_all
qed

end
