(* ===== verification/BasicNodeSep.thy ===== *)
theory BasicNodeSep
  imports BasicNodePages
begin

text \<open>
  The separator of a split: \<open>findSeparator\<close> and \<open>getSep\<close> of a leaf choose a non-empty key that
  lies between the two halves, as short as the keys around the middle allow, and never run off
  the slots; in an inner node the separator is the key in the middle. Then the merge of two
  neighbouring leaves into one page.
\<close>

subsection \<open>Keys that first differ at one byte\<close>

lemma nth_diff_less:
  fixes a b :: bytes
  assumes "take r a = take r b" "r < length a" "r < length b" "a ! r < b ! r"
  shows "a < take (Suc r) b"
proof -
  have "a = take r b @ a ! r # drop (Suc r) a" using assms by (metis id_take_nth_drop)
  moreover have "take (Suc r) b = take r b @ [b ! r]" using assms by (simp add: take_Suc_conv_app_nth)
  moreover have "take r b @ a ! r # drop (Suc r) a < take r b @ [b ! r]"
    using assms(4) by (simp only: less_append_same) simp
  ultimately show ?thesis by metis
qed

lemma le_nth_same_prefix:
  fixes a b :: bytes
  assumes "a \<le> b" "take r a = take r b" "r < length a"
  shows "r < length b \<and> a ! r \<le> b ! r"
proof -
  have a: "a = take r a @ drop r a" by simp
  have b: "b = take r a @ drop r b" unfolding assms(2) by simp
  from assms(1) have "take r a @ drop r a \<le> take r a @ drop r b" using a b by metis
  then have le: "drop r a \<le> drop r b" by (simp only: le_append_same)
  have da: "drop r a = a ! r # drop (Suc r) a" using assms(3) by (simp add: Cons_nth_drop_Suc)
  have "drop r b \<noteq> []" using le da by auto
  then have "r < length b" by simp
  moreover from this have "drop r b = b ! r # drop (Suc r) b" by (simp add: Cons_nth_drop_Suc)
  ultimately show ?thesis using le da by auto
qed

lemma lcp_diff:
  fixes a b :: bytes
  assumes "lcp a b < length a" "lcp a b < length b"
  shows "a ! lcp a b \<noteq> b ! lcp a b"
  using assms by (induction a b rule: lcp.induct) auto

lemma take_less_self: "r < length (k :: bytes) \<Longrightarrow> take r k < k"
  using less_append1 [of "drop r k" "take r k"] by simp

subsection \<open>The separator of a leaf\<close>

lemma separator_window:
  assumes "1 < (c :: nat)"
  defines "lo \<equiv> c div 2 - c div 32"
  shows "0 < lo" "lo + c div 16 < c"
proof -
  have half: "0 < c div 2" "c div 2 + c div 2 \<le> c" using assms(1) by auto
  have q: "c div 32 = c div 2 div 16" and q2: "c div 16 = c div 2 div 8"
    using div_mult2_eq [of c 2 16] div_mult2_eq [of c 2 8] by simp_all
  show "0 < lo" using half by (simp add: lo_def q)
  have "c div 2 div 8 < c div 2" using half by simp
  then show "lo + c div 16 < c" using half by (simp add: lo_def q2)
qed

lemma getSep_take:
  assumes "sep_length info = b_prefixLength n + m" "m \<le> s_keyLen (b_slot n j)"
    "j = sep_slot info + (if sep_isTruncated info then 1 else 0)" "b_prefixLength n + m < 4294967296"
  shows "BTreeNode_getSep n info = BTreeNode_getPrefix n @ take m (BTreeNode_getKey n j)"
  using assms by (simp add: BTreeNode_getSep_def BTreeNode_restoreKey_def BTreeNode_getKey_def c_arith
      min_absorb1)

lemma splitsAt_slotKeys:
  assumes sorted: "sorted_wrt (<) (slotKeys n)"
    and c: "0 < c" "c \<le> b_count n"
    and s: "s \<noteq> []"
    and lo: "slotKeys n ! (c - 1) \<le> s"
    and up: "c < b_count n \<Longrightarrow> s < slotKeys n ! c"
  shows "splitsAt (fullEntries n) c (BTreeNode_getPrefix n @ s)"
proof -
  have len: "length (slotKeys n) = b_count n" by simp
  have fk: "map fst (fullEntries n) = map ((@) (BTreeNode_getPrefix n)) (slotKeys n)"
    by (simp add: fullEntries_def slotKeys_def split_def)
  have mono: "slotKeys n ! i \<le> slotKeys n ! j" if "i \<le> j" "j < b_count n" for i j
    using that sorted len by (cases "i = j") (auto simp: sorted_wrt_iff_nth_less less_imp_le)
  have left: "k \<le> s" if "k \<in> set (take c (slotKeys n))" for k
  proof -
    from that obtain i where "i < c" "k = slotKeys n ! i" using c by (auto simp: in_set_conv_nth)
    then have "k \<le> slotKeys n ! (c - 1)" using mono [of i "c - 1"] c by auto
    then show ?thesis using lo by (rule order_trans)
  qed
  have right: "s < k" if "k \<in> set (drop c (slotKeys n))" for k
  proof -
    from that obtain i where "i < b_count n - c" "k = slotKeys n ! (c + i)"
      using c by (auto simp: in_set_conv_nth)
    then have i: "c + i < b_count n" "k = slotKeys n ! (c + i)" by auto
    then have "slotKeys n ! c \<le> k" using mono [of c "c + i"] by auto
    with up i show ?thesis by auto
  qed
  have "fst ` set (take c (fullEntries n)) = set (take c (map fst (fullEntries n)))"
    "fst ` set (drop c (fullEntries n)) = set (drop c (map fst (fullEntries n)))"
    by (metis list.set_map take_map, metis list.set_map drop_map)
  then have "fst ` set (take c (fullEntries n)) = (@) (BTreeNode_getPrefix n) ` set (take c (slotKeys n))"
    "fst ` set (drop c (fullEntries n)) = (@) (BTreeNode_getPrefix n) ` set (drop c (slotKeys n))"
    by (simp_all only: fk take_map drop_map list.set_map)
  with left right s show ?thesis unfolding splitsAt_def by auto
qed

text \<open>The separator of a leaf lies in the window the code searches and is no longer than a key.\<close>

lemma leaf_separator_window:
  assumes inv: "BTreeNode_inv n" and leaf: "BTreeNode_isLeaf n" and count: "1 < b_count n"
  obtains info where "BTreeNode_findSeparator n = Some info"
    "0 < sep_slot info" "sep_slot info < b_count n"
    "length (BTreeNode_getSep n info) = sep_length info"
    "splitsAt (fullEntries n) (Suc (sep_slot info)) (BTreeNode_getSep n info)"
    "b_count n div 2 - b_count n div 32 \<le> sep_slot info"
    "sep_slot info \<le> b_count n div 2 - b_count n div 32 + b_count n div 16"
    "\<exists>j < b_count n. length (BTreeNode_getSep n info) \<le> b_prefixLength n + s_keyLen (b_slot n j)"
proof -
  let ?ks = "slotKeys n" and ?pl = "b_prefixLength n"
  note found = that
  define lo where "lo = b_count n div 2 - b_count n div 32"
  define up where "up = lo + b_count n div 16"
  define r where "r = lcp (?ks ! lo) (?ks ! up)"
  from inv have ok: "pageOk (b_count n) n" and sorted: "sorted_wrt (<) ?ks"
    by (auto simp: BTreeNode_inv_def slotKeys_def)
  have win: "0 < lo" "up < b_count n" "lo \<le> up"
    using separator_window [OF count] unfolding up_def lo_def [symmetric] by auto
  have less: "?ks ! i < ?ks ! j" if "i < j" "j < b_count n" for i j
    using sorted that by (auto simp: sorted_wrt_iff_nth_less)
  have le: "?ks ! i \<le> ?ks ! j" if "i \<le> j" "j < b_count n" for i j
    using less [of i j] that by (cases "i = j") (auto simp: less_imp_le)
  have nonempty: "?ks ! i \<noteq> []" if "0 < i" "i < b_count n" for i
    using less [of 0 i] that by auto
  have small: "?pl + s_keyLen (b_slot n i) < 4294967296" if "i < b_count n" for i
    using pageOk_bounds [OF ok] ok that by (auto simp: pageOk_def slotOk_def fenceOk_def)
  have klen: "s_keyLen (b_slot n i) = length (?ks ! i)" if "i < b_count n" for i using that by simp
  have rr: "BTreeNode_commonPrefix n lo up = r"
    using win by (simp add: BTreeNode_commonPrefix_def r_def)
  have notInner: "\<not> BTreeNode_isInner n"
    using leaf by (simp add: BTreeNode_isLeaf_def BTreeNode_isInner_def)
  have whole: thesis
    if fs: "BTreeNode_findSeparator n = Some \<lparr>sep_length = ?pl + length (?ks ! i), sep_slot = i,
        sep_isTruncated = False\<rparr>" and i: "0 < i" "i < b_count n" "lo \<le> i" "i \<le> up" for i
  proof -
    let ?info = "\<lparr>sep_length = ?pl + length (?ks ! i), sep_slot = i, sep_isTruncated = False\<rparr>"
    have sep: "BTreeNode_getSep n ?info = BTreeNode_getPrefix n @ ?ks ! i"
      using getSep_take [of ?info n "length (?ks ! i)" i] small [of i] i by simp
    have "splitsAt (fullEntries n) (Suc i) (BTreeNode_getPrefix n @ ?ks ! i)"
    proof (rule splitsAt_slotKeys [OF sorted _ _ nonempty [OF i(1,2)]])
      show "?ks ! i < ?ks ! Suc i" if "Suc i < b_count n" using less [of i "Suc i"] that by simp
    qed (use i in auto)
    moreover have "length (BTreeNode_getPrefix n @ ?ks ! i) = ?pl + length (?ks ! i)" by simp
    moreover have "\<exists>j < b_count n. ?pl + length (?ks ! i) \<le> ?pl + s_keyLen (b_slot n j)"
      using i(2) by (intro exI [of _ i]) simp
    ultimately show thesis using found [OF fs] i win unfolding sep lo_def [symmetric] up_def [symmetric] by simp
  qed
  show thesis
  proof (cases "s_keyLen (b_slot n lo) = r")
    case True
    have "BTreeNode_findSeparator n = Some \<lparr>sep_length = ?pl + length (?ks ! lo), sep_slot = lo,
        sep_isTruncated = False\<rparr>"
      using True count notInner rr win
      by (simp add: BTreeNode_findSeparator_def USE_ORIGINAL_def Let_def lo_def [symmetric] up_def [symmetric])
    then show thesis by (rule whole) (use win in auto)
  next
    case False
    have "r \<le> length (?ks ! lo)" unfolding r_def by (rule lcp_le1)
    moreover have "s_keyLen (b_slot n lo) = length (?ks ! lo)" by (rule klen) (use win in auto)
    ultimately have lenlo: "r < length (?ks ! lo)" using False by linarith
    have "lo \<noteq> up"
    proof
      assume "lo = up"
      then have "length (?ks ! lo) \<le> r" unfolding r_def by (intro lcp_greatest) auto
      with lenlo show False by simp
    qed
    with win have loup: "lo < up" by simp
    have prefix: "take r (?ks ! j) = take r (?ks ! lo)" if "lo \<le> j" "j \<le> up" for j
      using prefix_between [of "?ks ! lo" "?ks ! j" "?ks ! up" r] le that win
        lcp_le1 [of "?ks ! lo" "?ks ! up"] lcp_le2 [of "?ks ! lo" "?ks ! up"]
        lcp_take [of "?ks ! lo" "?ks ! up"]
      by (auto simp: r_def)
    have byteat: "r < length (?ks ! j) \<and> ?ks ! lo ! r \<le> ?ks ! j ! r" if "lo \<le> j" "j \<le> up" for j
      using le_nth_same_prefix [of "?ks ! lo" "?ks ! j" r] prefix [OF that] le [of lo j] that win lenlo
      by simp
    have byte: "b_heap n (s_offset (b_slot n j) + r) = ?ks ! j ! r" if "lo \<le> j" "j \<le> up" for j
      using byteat [OF that] that win by (simp add: BTreeNode_getKey_def)
    let ?diff = "\<lambda>i. b_heap n (s_offset (b_slot n i) + r) \<noteq> b_heap n (s_offset (b_slot n lo) + r)"
    define i where "i = for_until ?diff (lo + 1) (up + 1)"
    have "?diff up"
      using byte [of up] byte [of lo] win byteat [of up] lenlo lcp_diff [of "?ks ! lo" "?ks ! up"]
      by (auto simp: r_def)
    then have iup: "i \<le> up"
      using for_until_before [of "lo + 1" up ?diff "up + 1"] for_until_bounds [of "lo + 1" "up + 1" ?diff] win loup
      by (fastforce simp: i_def)
    have ilo: "lo < i" using for_until_bounds [of "lo + 1" "up + 1" ?diff] win by (simp add: i_def)
    have "?diff i" using for_until_stop [of ?diff "lo + 1" "up + 1"] iup by (simp add: i_def)
    then have diff: "?ks ! i ! r \<noteq> ?ks ! lo ! r" using byte [of i] byte [of lo] ilo iup win by simp
    have prev: "?ks ! (i - 1) ! r = ?ks ! lo ! r"
    proof (cases "i - 1 = lo")
      case False
      then have "\<not> ?diff (i - 1)"
        using for_until_before [of "lo + 1" "i - 1" ?diff "up + 1"] ilo by (simp add: i_def)
      then show ?thesis using byte [of "i - 1"] byte [of lo] ilo iup win by simp
    qed simp
    show thesis
    proof (cases "s_keyLen (b_slot n i) = r + 1")
      case True
      have "BTreeNode_findSeparator n = Some \<lparr>sep_length = ?pl + length (?ks ! i), sep_slot = i,
          sep_isTruncated = False\<rparr>"
        using False True count notInner rr win iup
        by (simp add: BTreeNode_findSeparator_def USE_ORIGINAL_def Let_def lo_def [symmetric]
            up_def [symmetric] i_def [symmetric, simplified])
      then show thesis by (rule whole) (use ilo iup win in auto)
    next
      case notwhole: False
      let ?info = "\<lparr>sep_length = ?pl + (r + 1), sep_slot = i - 1, sep_isTruncated = True\<rparr>"
      have fs: "BTreeNode_findSeparator n = Some ?info"
        using False notwhole count notInner rr win iup
        by (simp add: BTreeNode_findSeparator_def USE_ORIGINAL_def Let_def lo_def [symmetric]
            up_def [symmetric] i_def [symmetric, simplified])
      have leni: "r < length (?ks ! i)" and il: "i < b_count n" using byteat [of i] ilo iup win by auto
      have sep: "BTreeNode_getSep n ?info = BTreeNode_getPrefix n @ take (Suc r) (?ks ! i)"
        using getSep_take [of ?info n "r + 1" i] small [of i] leni ilo il by simp
      have "?ks ! (i - 1) < take (Suc r) (?ks ! i)"
      proof (rule nth_diff_less)
        show "take r (?ks ! (i - 1)) = take r (?ks ! i)"
          using prefix [of i] prefix [of "i - 1"] ilo iup by simp
        show "?ks ! (i - 1) ! r < ?ks ! i ! r"
          using prev diff byteat [of i] ilo iup by (simp add: order_less_le)
      qed (use byteat [of "i - 1"] leni ilo iup in auto)
      moreover have "take (Suc r) (?ks ! i) < ?ks ! i"
        by (rule take_less_self) (use notwhole leni klen [OF il] in simp)
      ultimately have "splitsAt (fullEntries n) i (BTreeNode_getPrefix n @ take (Suc r) (?ks ! i))"
        by (intro splitsAt_slotKeys [OF sorted]) (use ilo il leni in auto)
      moreover have "length (BTreeNode_getPrefix n @ take (Suc r) (?ks ! i)) = ?pl + (r + 1)"
        using leni by simp
      moreover have "\<exists>j < b_count n. ?pl + (r + 1) \<le> ?pl + s_keyLen (b_slot n j)"
        using il leni by (intro exI [of _ i]) simp
      ultimately show thesis using found [OF fs] ilo iup il win
        unfolding sep lo_def [symmetric] up_def [symmetric] by simp
    qed
  qed
qed

lemma leaf_separator:
  assumes inv: "BTreeNode_inv n" and leaf: "BTreeNode_isLeaf n" and count: "1 < b_count n"
  obtains info where "BTreeNode_findSeparator n = Some info"
    "0 < sep_slot info" "sep_slot info < b_count n"
    "length (BTreeNode_getSep n info) = sep_length info"
    "splitsAt (fullEntries n) (Suc (sep_slot info)) (BTreeNode_getSep n info)"
  using leaf_separator_window [OF assms] by metis

lemma inner_separator:
  assumes inv: "BTreeNode_inv n" and inner: "BTreeNode_isInner n" and count: "3 < b_count n"
  obtains info where "BTreeNode_findSeparator n = Some info"
    "sep_slot info = b_count n div 2 - 1" "length (BTreeNode_getSep n info) = sep_length info"
    "BTreeNode_getSep n info = fst (fullEntries n ! sep_slot info)"
    "splitsAt (fullEntries n) (Suc (sep_slot info)) (BTreeNode_getSep n info)"
proof -
  let ?i = "b_count n div 2 - 1"
  let ?info = "\<lparr>sep_length = b_prefixLength n + s_keyLen (b_slot n ?i), sep_slot = ?i,
      sep_isTruncated = False\<rparr>"
  from inv have ok: "pageOk (b_count n) n" and sorted: "sorted_wrt (<) (slotKeys n)"
    by (auto simp: BTreeNode_inv_def slotKeys_def)
  have i: "0 < ?i" "?i < b_count n" using count by auto
  have fs: "BTreeNode_findSeparator n = Some ?info"
    using inner count by (simp add: BTreeNode_findSeparator_def USE_ORIGINAL_def Let_def)
  have less: "slotKeys n ! a < slotKeys n ! b" if "a < b" "b < b_count n" for a b
    using sorted that by (auto simp: sorted_wrt_iff_nth_less)
  have "b_prefixLength n + s_keyLen (b_slot n ?i) < 4294967296"
    using pageOk_bounds [OF ok] ok i by (auto simp: pageOk_def slotOk_def fenceOk_def)
  then have sep: "BTreeNode_getSep n ?info = BTreeNode_getPrefix n @ slotKeys n ! ?i"
    using getSep_take [of ?info n "s_keyLen (b_slot n ?i)" ?i] i by simp
  have "splitsAt (fullEntries n) (Suc ?i) (BTreeNode_getPrefix n @ slotKeys n ! ?i)"
  proof (rule splitsAt_slotKeys [OF sorted])
    show "slotKeys n ! ?i \<noteq> []" using less [OF i] by auto
    show "slotKeys n ! ?i < slotKeys n ! Suc ?i" if "Suc ?i < b_count n"
      by (rule less) (use that in auto)
  qed (use i in auto)
  moreover have "fst (fullEntries n ! ?i) = BTreeNode_getPrefix n @ slotKeys n ! ?i"
    using i by (simp add: fullEntries_def entries_def nth_entriesUpto)
  ultimately show thesis using that [OF fs] i sep by simp
qed

subsection \<open>Merging two leaves\<close>

lemma esize_truncated_full:
  assumes "m \<le> b_prefixLength n"
  shows "esize (truncated m (fullEntries n)) = esize (entries n) + (b_prefixLength n - m) * b_count n"
proof -
  have "esize (truncated m (map (\<lambda>(k, v). (BTreeNode_getPrefix n @ k, v)) es)) =
      esize es + (b_prefixLength n - m) * length es" for es
    using assms by (induction es) (auto simp: truncated_def)
  then show ?thesis by (simp add: fullEntries_def)
qed

lemma inFences_widen_upper:
  "inFences lo sep k \<Longrightarrow> sep \<noteq> [] \<Longrightarrow> inFences lo up sep \<Longrightarrow> inFences lo up k"
  by (auto simp: inFences_def)

lemma inFences_widen_lower:
  "inFences sep up k \<Longrightarrow> sep \<noteq> [] \<Longrightarrow> inFences lo up sep \<Longrightarrow> inFences lo up k"
  by (auto simp: inFences_def)

lemma lcp_commute: "lcp a b = lcp b a"
  by (induction a b rule: lcp.induct) auto

lemma lcp_inside:
  assumes "inFences lo up sep"
  shows "lcp lo up \<le> lcp lo sep" "lcp lo up \<le> lcp sep up"
proof -
  note p = inFences_prefix [OF assms] and le = lcp_le1 [of lo up] lcp_le2 [of lo up]
  show "lcp lo up \<le> lcp lo sep" using p le by (intro lcp_greatest) auto
  have "take (lcp lo up) sep = take (lcp lo up) up" using p(2) lcp_take [of lo up] by simp
  then show "lcp lo up \<le> lcp sep up" using p le by (intro lcp_greatest) auto
qed

text \<open>The neighbours a merge works on: the right fence of the left leaf is the left fence of the
  right leaf and lies between the outer fences.\<close>

definition neighbours :: "BTreeNode \<Rightarrow> BTreeNode \<Rightarrow> bool" where
  "neighbours l r \<longleftrightarrow> BTreeNode_getUpperFence l = BTreeNode_getLowerFence r \<and>
     BTreeNode_getLowerFence r \<noteq> [] \<and>
     inFences (BTreeNode_getLowerFence l) (BTreeNode_getUpperFence r) (BTreeNode_getLowerFence r)"

definition mergedSize :: "BTreeNode \<Rightarrow> BTreeNode \<Rightarrow> nat" where
  "mergedSize l r =
     (let m = lcp (BTreeNode_getLowerFence l) (BTreeNode_getUpperFence r)
      in b_spaceUsed l + b_spaceUsed r + 92 + 10 * (b_count l + b_count r) +
         (b_prefixLength l - m) * b_count l + (b_prefixLength r - m) * b_count r)"

lemma neighbours_prefix:
  assumes "neighbours l r" "pageOk (b_count l) l" "pageOk (b_count r) r"
  defines "m \<equiv> lcp (BTreeNode_getLowerFence l) (BTreeNode_getUpperFence r)"
  shows "m \<le> b_prefixLength l" "m \<le> b_prefixLength r"
  using assms lcp_inside [of "BTreeNode_getLowerFence l" "BTreeNode_getUpperFence r" "BTreeNode_getLowerFence r"]
  by (auto simp: neighbours_def pageOk_def)

lemma mergedSize_bound:
  assumes "pageOk (b_count l) l" "pageOk (b_count r) r"
  shows "mergedSize l r < 4294967296"
proof -
  note bl = pageOk_bounds [OF assms(1)] and br = pageOk_bounds [OF assms(2)]
  have small: "x * y \<le> 4096 * 4096" if "x \<le> 4096" "y \<le> 4096" for x y :: nat
    by (rule mult_le_mono [OF that])
  have fl: "fk_length (b_lowerFence n) \<le> 4096" if "pageOk (b_count n) n" for n
    using that by (auto simp: pageOk_def fenceOk_def)
  have "(b_prefixLength l - m) * b_count l \<le> 4096 * 4096"
    "(b_prefixLength r - m) * b_count r \<le> 4096 * 4096" for m
    using bl br fl [OF assms(1)] fl [OF assms(2)] by (intro small; linarith)+
  note prods = this [of "lcp (BTreeNode_getLowerFence l) (BTreeNode_getUpperFence r)"]
  have "u + v + 92 + 10 * (c + d) + x + y < 4294967296"
    if "u \<le> 4096" "v \<le> 4096" "c \<le> 400" "d \<le> 400" "x \<le> 4096 * 4096" "y \<le> 4096 * 4096"
    for u v c d x y :: nat
    using that by simp
  from this [OF _ _ bl(5) br(5) prods] bl br show ?thesis unfolding mergedSize_def Let_def by simp
qed

lemma mergeLeaves_None:
  assumes ok: "pageOk (b_count l) l" "pageOk (b_count r) r" and nb: "neighbours l r"
  shows "BTreeNode_mergeLeaves l r = None \<longleftrightarrow> 4096 < mergedSize l r"
proof -
  let ?lo = "BTreeNode_getLowerFence l" and ?up = "BTreeNode_getUpperFence r"
  have pl: "b_prefixLength (BTreeNode_setFences ?lo ?up x) = lcp ?lo ?up" for x
    by (simp add: BTreeNode_setFences_def enablePrefix_def split: prod.split)
  note m = neighbours_prefix [OF nb ok]
  have "b_prefixLength l < 4294967296" "b_prefixLength r < 4294967296"
    using pageOk_bounds [OF ok(1)] pageOk_bounds [OF ok(2)] ok by (auto simp: pageOk_def fenceOk_def)
  then have s: "sub32 (b_prefixLength l) (lcp ?lo ?up) = b_prefixLength l - lcp ?lo ?up"
    "sub32 (b_prefixLength r) (lcp ?lo ?up) = b_prefixLength r - lcp ?lo ?up"
    using m by (simp_all add: c_arith)
  have "b_spaceUsed l + b_spaceUsed r + slotsEnd (b_count l + b_count r) +
      (b_prefixLength l - lcp ?lo ?up) * b_count l + (b_prefixLength r - lcp ?lo ?up) * b_count r
      = mergedSize l r"
    by (simp add: mergedSize_def Let_def slotsEnd_eq)
  with mergedSize_bound [OF ok] show ?thesis
    by (simp add: BTreeNode_mergeLeaves_def Let_def pl s u32_eq pageSizeLeaf_def)
qed

lemma mergeLeaves_Some:
  assumes inv: "BTreeNode_inv l" "BTreeNode_inv r" and kf: "keysInFences l" "keysInFences r"
    and leaf: "BTreeNode_isLeaf l" and nb: "neighbours l r"
    and res: "BTreeNode_mergeLeaves l r = Some p"
  shows "BTreeNode_inv p" "fullEntries p = fullEntries l @ fullEntries r" "keysInFences p"
    "BTreeNode_getLowerFence p = BTreeNode_getLowerFence l"
    "BTreeNode_getUpperFence p = BTreeNode_getUpperFence r" "b_tag p = Tag_Leaf"
proof -
  let ?lo = "BTreeNode_getLowerFence l" and ?up = "BTreeNode_getUpperFence r"
    and ?sep = "BTreeNode_getLowerFence r"
  let ?m = "lcp ?lo ?up"
  let ?t = "freshPage True (b_roc l) ?lo ?up"
  let ?t1 = "BTreeNode_copyKeyValueRange l 0 0 (b_count l) ?t"
  let ?t2 = "BTreeNode_copyKeyValueRange r (b_count l) 0 (b_count r) ?t1"
  from inv have ok: "pageOk (b_count l) l" "pageOk (b_count r) r"
    and sorted: "sorted_wrt (<) (map fst (fullEntries l))" "sorted_wrt (<) (map fst (fullEntries r))"
    by (auto simp: BTreeNode_inv_def sorted_fullEntries)
  from nb have sep: "BTreeNode_getUpperFence l = ?sep" "?sep \<noteq> []" "inFences ?lo ?up ?sep"
    by (auto simp: neighbours_def)
  have p: "p = BTreeNode_makeHint ?t2"
    using res leaf by (auto simp: BTreeNode_mergeLeaves_def Let_def freshPage_def split: if_splits)
  have size: "mergedSize l r \<le> 4096" using mergeLeaves_None [OF ok nb] res by auto
  note room = pageOk_fullRoom(2) [OF ok(1)] pageOk_fullRoom(2) [OF ok(2)]
    esize_truncated_full [OF neighbours_prefix(1) [OF nb ok]]
    esize_truncated_full [OF neighbours_prefix(2) [OF nb ok]]
  have fit: "92 + 10 * (b_count l + b_count r) + length ?lo + length ?up +
      esize (truncated ?m (fullEntries l)) + esize (truncated ?m (fullEntries r)) \<le> 4096"
    using size room by (simp add: mergedSize_def Let_def)
  have kl: "inFences ?lo ?up k" if "k \<in> fst ` set (fullEntries l)" for k
    using that kf(1) sep inFences_widen_upper unfolding keysInFences_def by metis
  have kr: "inFences ?lo ?up k" if "k \<in> fst ` set (fullEntries r)" for k
    using that kf(2) sep inFences_widen_lower unfolding keysInFences_def by metis
  note c1 = copyFresh [where isLeaf = True and roc = "b_roc l" and src = l and s = 0 and cnt = "b_count l",
      OF ok(1)]
  have c1': "pageOk (b_count ?t1) ?t1" "fullEntries ?t1 = fullEntries l"
    "BTreeNode_getLowerFence ?t1 = ?lo" "BTreeNode_getUpperFence ?t1 = ?up" "b_count ?t1 = b_count l"
    "b_tag ?t1 = Tag_Leaf" "b_prefixLength ?t1 = ?m"
    "b_dataOffset ?t1 = 4096 - (length ?lo + length ?up) - esize (truncated ?m (fullEntries l))"
    using c1 [of ?lo ?up] kl fit unfolding sliceEntries_all by auto
  have dst: "pageOk (b_count ?t1) ?t1" by (rule c1'(1))
  have bound: "\<forall>k \<in> fst ` set (sliceEntries r 0 (b_count r)).
      inFences (BTreeNode_getLowerFence ?t1) (BTreeNode_getUpperFence ?t1) k"
    using kr unfolding sliceEntries_all c1'(3,4) by blast
  have rm: "92 + 10 * (b_count ?t1 + b_count r) +
      esize (truncated (b_prefixLength ?t1) (sliceEntries r 0 (b_count r))) \<le> b_dataOffset ?t1"
    using fit unfolding sliceEntries_all c1'(5,7,8) by linarith
  note c2 = copyRange_full [OF ok(2) _ dst bound rm, unfolded c1'(5) sliceEntries_all c1'(2-4,6), simplified]
  have srt: "sorted_wrt (<) (map fst (fullEntries ?t2))"
  proof -
    have "x < y" if x: "x \<in> fst ` set (fullEntries l)" and y: "y \<in> fst ` set (fullEntries r)" for x y
      using kf x y sep unfolding keysInFences_def inFences_def by (metis order_le_less_trans)
    with sorted show ?thesis unfolding c2(2) by (auto simp: sorted_wrt_append)
  qed
  have same: "samePage ?t2 p" unfolding p by (rule samePage_makeHint)
  have cnt: "b_count p = b_count ?t2" by (simp add: p)
  have "BTreeNode_isLeaf ?t2" using c2(7) by (simp add: BTreeNode_isLeaf_def)
  then show "BTreeNode_inv p"
    unfolding p using c2(1) srt by (intro inv_intro_makeHint) (auto simp: sorted_fullEntries)
  show full: "fullEntries p = fullEntries l @ fullEntries r"
    using samePage_facts(3,4) [OF same] c2(2) cnt by (simp add: fullEntries_def entries_def)
  show fe: "BTreeNode_getLowerFence p = ?lo" "BTreeNode_getUpperFence p = ?up"
    using samePage_facts(5,6) [OF same] c2(3,4) by simp_all
  show "b_tag p = Tag_Leaf" using c2(7) by (simp add: p)
  show "keysInFences p" unfolding keysInFences_def full fe using kl kr by auto
qed

end
