(* ===== verification/BasicNodeMap.thy ===== *)
theory BasicNodeMap
  imports BasicNodeSep
begin

text \<open>
  The basic leaf as a finite map: \<open>lookup\<close>, \<open>insert\<close> and \<open>remove\<close> on full keys refine a map
  from keys to payloads, and the range lookups deliver its entries in key order. The leaf is an
  interpretation of the contract \<open>leaf_map\<close>.
\<close>

subsection \<open>The map a page holds\<close>

definition BTreeNode_content :: "BTreeNode \<Rightarrow> leaf_content" where
  "BTreeNode_content n = map_of (fullEntries n)"

definition BTreeNode_covers :: "BTreeNode \<Rightarrow> bytes \<Rightarrow> bool" where
  "BTreeNode_covers n = inFences (BTreeNode_getLowerFence n) (BTreeNode_getUpperFence n)"

definition leafInv :: "BTreeNode \<Rightarrow> bool" where
  "leafInv n \<longleftrightarrow> BTreeNode_inv n \<and> keysInFences n \<and> BTreeNode_isLeaf n"

text \<open>A fresh page filled with a sorted list of entries.\<close>

lemma freshPage_storeAll:
  fixes roc :: nat and isLeaf :: bool
  assumes room: "fitsPage (length xs) lo up xs" and bound: "\<forall>k \<in> fst ` set xs. inFences lo up k"
    and sorted: "sorted_wrt (<) (map fst xs)"
  defines "p \<equiv> BTreeNode_makeHint ((storeAll 0 xs (freshPage isLeaf roc lo up))\<lparr>b_count := length xs\<rparr>)"
  shows "BTreeNode_inv p" "keysInFences p" "b_tag p = (if isLeaf then Tag_Leaf else Tag_Inner)" "fullEntries p = xs"
    "BTreeNode_getLowerFence p = lo" "BTreeNode_getUpperFence p = up" "b_prefixLength p = lcp lo up" "b_roc p = roc"
    "b_dataOffset p = 4096 - (length lo + length up) - esize (truncated (lcp lo up) xs)"
proof -
  let ?f = "freshPage isLeaf roc lo up" and ?tr = "truncated (lcp lo up) xs"
  let ?q = "(storeAll 0 xs ?f)\<lparr>b_count := length xs\<rparr>"
  have fit: "length lo + length up + 92 \<le> 4096" using room by (simp add: fitsPage_def)
  note ff = freshPage_facts [OF fit, of isLeaf roc]
  have "92 + 10 * (0 + length xs) + esize (truncated (b_prefixLength ?f) xs) \<le> b_dataOffset ?f"
    using room by (simp add: ff(5,8) fitsPage_def)
  note sa = storeAll_correct [OF ff(1) this, unfolded ff(8)]
  note same = samePage_facts [OF samePage_count [of "storeAll 0 xs ?f" "length xs"]]
  note same' = samePage_facts [OF samePage_makeHint [of ?q], folded p_def]
  have f: "b_count p = length xs" by (simp add: p_def)
  show tag: "b_tag p = (if isLeaf then Tag_Leaf else Tag_Inner)" using ff(7) by (simp add: p_def)
  show pl: "b_prefixLength p = lcp lo up" and "b_roc p = roc" using ff by (simp_all add: p_def)
  show "b_dataOffset p = 4096 - (length lo + length up) - esize ?tr" using sa ff(5) by (simp add: p_def)
  show fe: "BTreeNode_getLowerFence p = lo" "BTreeNode_getUpperFence p = up"
    using sa ff(2,3) by (simp_all add: same same')
  have okq: "pageOk (b_count ?q) ?q" and ok: "pageOk (b_count p) p" using sa by (simp_all add: f same same')
  have es: "entries p = ?tr" "entries ?q = ?tr"
    using sa unfolding entries_def f(1) same'(3) by (simp_all add: entriesUpto_def [of ?f] same)
  have "BTreeNode_getPrefix p @ drop (lcp lo up) k = k" if "k \<in> fst ` set xs" for k
    using inFences_getPrefix(2) [OF ok, of k] bound that by (simp add: fe pl)
  then have "map (\<lambda>e. (BTreeNode_getPrefix p @ drop (lcp lo up) (fst e), snd e)) xs = xs"
    by (intro map_idI) simp
  then show full: "fullEntries p = xs"
    by (simp add: fullEntries_def es truncated_def comp_def case_prod_beta)
  have "sorted_wrt (<) (map fst (entries ?q))"
    using sorted sorted_fullEntries [of p] by (simp only: full es)
  then show "BTreeNode_inv p"
    unfolding p_def using okq tag
    by (intro inv_intro_makeHint) (simp_all add: p_def BTreeNode_isLeaf_def BTreeNode_isInner_def split: if_splits)
  show "keysInFences p" using bound by (simp add: keysInFences_def full fe)
qed

lemma freshLeaf_storeAll:
  fixes roc :: nat
  assumes "fitsPage (length xs) lo up xs" "\<forall>k \<in> fst ` set xs. inFences lo up k" "sorted_wrt (<) (map fst xs)"
  defines "p \<equiv> BTreeNode_makeHint ((storeAll 0 xs (freshPage True roc lo up))\<lparr>b_count := length xs\<rparr>)"
  shows "leafInv p" "fullEntries p = xs" "BTreeNode_getLowerFence p = lo" "BTreeNode_getUpperFence p = up"
    "b_prefixLength p = lcp lo up" "b_roc p = roc"
  using freshPage_storeAll [OF assms(1-3), of True roc, folded p_def]
  by (simp_all add: leafInv_def BTreeNode_isLeaf_def)

text \<open>The leaf's part of a point lookup.\<close>

definition BTreeNode_lookup :: "bytes \<Rightarrow> BTreeNode \<Rightarrow> bytes option" where
  "BTreeNode_lookup key n =
     (let (pos, found) = BTreeNode_lowerBound n key
      in if \<not> found then None else Some (BTreeNode_getPayload n pos))"

text \<open>The insert without the conversion to a dense leaf, which \<open>AnyNode\<close> tries on \<open>NoSpace\<close>.\<close>

definition BTreeNode_tryInsert :: "bytes \<Rightarrow> bytes \<Rightarrow> BTreeNode \<Rightarrow> BTreeNode insert_result" where
  "BTreeNode_tryInsert key payload n =
     (let (ok, n1) = BTreeNode_requestSpaceFor (BTreeNode_spaceNeeded n (length key) (length payload)) n
      in if \<not> ok then NoSpace n1
         else (case BTreeNode_insertWithSpace key payload n1 of None \<Rightarrow> Aborted | Some n2 \<Rightarrow> Inserted n2))"

subsection \<open>Truncated and full keys\<close>

lemma map_of_prefixed: "map_of (map (\<lambda>(k, v). (p @ k, v)) es) (p @ k) = map_of es k"
  by (induction es) auto

lemma prefixed_mem: "p @ k \<in> fst ` set (map (\<lambda>(k, v). (p @ k, v)) es) \<longleftrightarrow> k \<in> fst ` set es"
  by force

lemma content_truncated:
  assumes "pageOk m n" "BTreeNode_covers n key"
  shows "BTreeNode_content n key = map_of (entries n) (drop (b_prefixLength n) key)"
    and "key \<in> fst ` set (fullEntries n) \<longleftrightarrow> drop (b_prefixLength n) key \<in> set (slotKeys n)"
proof -
  have k: "BTreeNode_getPrefix n @ drop (b_prefixLength n) key = key"
    using assms by (intro inFences_getPrefix(2)) (auto simp: BTreeNode_covers_def)
  show "BTreeNode_content n key = map_of (entries n) (drop (b_prefixLength n) key)"
    by (metis k map_of_prefixed BTreeNode_content_def fullEntries_def)
  show "key \<in> fst ` set (fullEntries n) \<longleftrightarrow> drop (b_prefixLength n) key \<in> set (slotKeys n)"
    using prefixed_mem [of "BTreeNode_getPrefix n" "drop (b_prefixLength n) key" "entries n"]
    unfolding k by (simp add: fullEntries_def slotKeys_def)
qed

lemma content_None: "BTreeNode_content n key = None \<longleftrightarrow> key \<notin> fst ` set (fullEntries n)"
  by (simp add: BTreeNode_content_def map_of_eq_None_iff)

lemma inv_facts:
  assumes "BTreeNode_inv n"
  shows "pageOk (b_count n) n" "sorted_wrt (<) (map fst (fullEntries n))"
    "sorted_wrt (<) (slotKeys n)" "distinct (map fst (fullEntries n))" "distinct (map fst (entries n))"
  using assms strict_sorted_iff [of "map fst (fullEntries n)"] strict_sorted_iff [of "map fst (entries n)"]
  by (auto simp: BTreeNode_inv_def sorted_fullEntries slotKeys_def)

lemma lowerBound_full:
  assumes inv: "BTreeNode_inv n" and cov: "BTreeNode_covers n key"
    and res: "BTreeNode_lowerBound n key = (i, found)"
  shows "is_lower_bound (map fst (fullEntries n)) key i"
    "found \<longleftrightarrow> i < b_count n \<and> fst (fullEntries n ! i) = key"
    "found \<longleftrightarrow> BTreeNode_content n key \<noteq> None"
proof -
  note lb = lowerBound_correct [OF inv res] and ok = inv_facts(1) [OF inv]
  have k: "BTreeNode_getPrefix n @ drop (b_prefixLength n) key = key"
    using ok cov by (intro inFences_getPrefix(2)) (auto simp: BTreeNode_covers_def)
  have fk: "map fst (fullEntries n) = map ((@) (BTreeNode_getPrefix n)) (slotKeys n)"
    by (simp add: fullEntries_def slotKeys_def split_def)
  show lbf: "is_lower_bound (map fst (fullEntries n)) key i"
    using lb(1) k unfolding fk is_lower_bound_def
    by (metis (no_types, lifting) length_map less_append_same le_append_same nth_map order_less_le_trans)
  show c: "found \<longleftrightarrow> BTreeNode_content n key \<noteq> None"
    using lb(2) content_truncated(2) [OF ok cov] by (simp add: content_None)
  show "found \<longleftrightarrow> i < b_count n \<and> fst (fullEntries n ! i) = key"
    using is_lower_bound_mem [OF inv_facts(2) [OF inv] lbf] c by (simp add: content_None)
qed

lemma nth_fullEntries:
  "i < b_count n \<Longrightarrow> fullEntries n ! i =
    (BTreeNode_getPrefix n @ BTreeNode_getKey n i, BTreeNode_getPayload n i)"
  by (simp add: fullEntries_def entries_def nth_entriesUpto)

lemma lookup_content:
  assumes "BTreeNode_inv n" "BTreeNode_covers n key"
  shows "BTreeNode_lookup key n = BTreeNode_content n key"
proof -
  obtain i found where lb: "BTreeNode_lowerBound n key = (i, found)" by force
  note f = lowerBound_full [OF assms lb]
  show ?thesis
  proof (cases found)
    case True
    then have i: "i < b_count n" "fullEntries n ! i = (key, BTreeNode_getPayload n i)"
      using f(2) by (auto simp: nth_fullEntries)
    then have "(key, BTreeNode_getPayload n i) \<in> set (fullEntries n)" by (metis nth_mem length_fullEntries)
    with inv_facts(4) [OF assms(1)] have "BTreeNode_content n key = Some (BTreeNode_getPayload n i)"
      by (simp add: BTreeNode_content_def)
    with True lb show ?thesis by (simp add: BTreeNode_lookup_def)
  next
    case False
    with f(3) lb show ?thesis by (simp add: BTreeNode_lookup_def)
  qed
qed

subsection \<open>Insert and remove\<close>

lemma getPrefix_same:
  assumes "pageOk m n" "pageOk m' n'" "BTreeNode_getLowerFence n' = BTreeNode_getLowerFence n"
    "b_prefixLength n' = b_prefixLength n"
  shows "BTreeNode_getPrefix n' = BTreeNode_getPrefix n"
  using getPrefix_take(1) [OF assms(1)] getPrefix_take(1) [OF assms(2)] assms(3,4) by simp

lemma insert_room:
  assumes "BTreeNode_inv n" "BTreeNode_covers n key"
    and "BTreeNode_spaceNeeded n (length key) (length payload) \<le> BTreeNode_freeSpace n"
    and "length key < 65536" "length payload < 65536"
  shows "10 + length (drop (b_prefixLength n) key) + length payload \<le> BTreeNode_freeSpace n"
  using assms inFences_getPrefix(1) [OF inv_facts(1) [OF assms(1)], of key]
  by (simp add: spaceNeeded_eq BTreeNode_covers_def)

lemma insertWithSpace_content:
  assumes inv: "BTreeNode_inv n" and kf: "keysInFences n" and cov: "BTreeNode_covers n key"
    and room: "10 + length (drop (b_prefixLength n) key) + length payload \<le> BTreeNode_freeSpace n"
    and new: "BTreeNode_content n key = None"
  obtains i n' where "BTreeNode_insertWithSpace key payload n = Some n'"
    "BTreeNode_inv n'" "keysInFences n'" "BTreeNode_covers n' = BTreeNode_covers n"
    "fullEntries n' = take i (fullEntries n) @ (key, payload) # drop i (fullEntries n)"
    "BTreeNode_content n' = (BTreeNode_content n)(key \<mapsto> payload)"
    "BTreeNode_getLowerFence n' = BTreeNode_getLowerFence n"
    "BTreeNode_getUpperFence n' = BTreeNode_getUpperFence n"
    "b_tag n' = b_tag n" "b_upper n' = b_upper n"
proof -
  note ok = inv_facts(1) [OF inv]
  have "drop (b_prefixLength n) key \<notin> set (slotKeys n)"
    using new content_truncated(2) [OF ok cov] by (simp add: content_None)
  then obtain i n' where n': "BTreeNode_insertWithSpace key payload n = Some n'" "BTreeNode_inv n'"
    and lb: "is_lower_bound (slotKeys n) (drop (b_prefixLength n) key) i"
    and es: "entries n' = take i (entries n) @ (drop (b_prefixLength n) key, payload) # drop i (entries n)"
    and fe: "BTreeNode_getLowerFence n' = BTreeNode_getLowerFence n"
      "BTreeNode_getUpperFence n' = BTreeNode_getUpperFence n"
    and rest: "b_tag n' = b_tag n" "b_upper n' = b_upper n" "b_prefixLength n' = b_prefixLength n"
    by (rule insertWithSpace_new [OF inv _ room])
  have k: "BTreeNode_getPrefix n @ drop (b_prefixLength n) key = key"
    using ok cov by (intro inFences_getPrefix(2)) (auto simp: BTreeNode_covers_def)
  have "BTreeNode_getPrefix n' = BTreeNode_getPrefix n"
    by (rule getPrefix_same [OF ok inv_facts(1) [OF n'(2)] fe(1) rest(3)])
  then have full: "fullEntries n' = take i (fullEntries n) @ (key, payload) # drop i (fullEntries n)"
    using k by (simp add: fullEntries_def es take_map drop_map)
  have cov': "BTreeNode_covers n' = BTreeNode_covers n" using fe by (simp add: BTreeNode_covers_def)
  have "fst ` set (fullEntries n') \<subseteq> insert key (fst ` set (fullEntries n))"
    unfolding full by (auto dest: in_set_takeD in_set_dropD intro: rev_image_eqI)
  then have kf': "keysInFences n'"
    using kf cov unfolding keysInFences_def BTreeNode_covers_def fe by blast
  have "BTreeNode_content n' = (BTreeNode_content n)(key \<mapsto> payload)"
    unfolding BTreeNode_content_def full using new by (intro map_of_insert_at) (simp add: content_None)
  then show thesis using that [OF n'(1,2) kf' cov' full _ fe rest(1,2)] by blast
qed

lemma tryInsert_correct:
  assumes inv: "leafInv n" and cov: "BTreeNode_covers n key"
    and len: "length key < 65536" "length payload < 65536"
  shows "BTreeNode_tryInsert key payload n = Inserted n' \<Longrightarrow>
      leafInv n' \<and> BTreeNode_covers n' = BTreeNode_covers n \<and>
      (\<exists>i. fullEntries n' = take i (fullEntries n) @ (key, payload) # drop i (fullEntries n)) \<and>
      BTreeNode_getLowerFence n' = BTreeNode_getLowerFence n \<and>
      BTreeNode_getUpperFence n' = BTreeNode_getUpperFence n \<and>
      BTreeNode_content n' = (BTreeNode_content n)(key \<mapsto> payload) \<and> BTreeNode_content n key = None"
    and "BTreeNode_tryInsert key payload n = NoSpace n' \<Longrightarrow>
      n' = n \<and> BTreeNode_freeSpaceAfterCompaction n < BTreeNode_spaceNeeded n (length key) (length payload)"
    and "BTreeNode_tryInsert key payload n = Aborted \<Longrightarrow> BTreeNode_content n key \<noteq> None"
proof -
  let ?sp = "BTreeNode_spaceNeeded n (length key) (length payload)"
  obtain ok n1 where rs: "BTreeNode_requestSpaceFor ?sp n = (ok, n1)" by force
  from inv have i: "BTreeNode_inv n" "keysInFences n" "BTreeNode_isLeaf n" by (auto simp: leafInv_def)
  note r = requestSpaceFor_correct [OF i(1,2) rs]
  have cov1: "BTreeNode_covers n1 = BTreeNode_covers n" using r(7,8) by (simp add: BTreeNode_covers_def)
  have con1: "BTreeNode_content n1 = BTreeNode_content n" using r(6) by (simp add: BTreeNode_content_def)
  have sp1: "?sp = BTreeNode_spaceNeeded n1 (length key) (length payload)"
    using r(11) by (simp add: BTreeNode_spaceNeeded_def)
  have tr: "BTreeNode_tryInsert key payload n = (if \<not> ok then NoSpace n1
      else (case BTreeNode_insertWithSpace key payload n1 of None \<Rightarrow> Aborted | Some n2 \<Rightarrow> Inserted n2))"
    by (simp add: BTreeNode_tryInsert_def rs)
  show "n' = n \<and> BTreeNode_freeSpaceAfterCompaction n < ?sp" if "BTreeNode_tryInsert key payload n = NoSpace n'"
    using that r(1,2) unfolding tr by (auto split: if_splits option.splits)
  have room: "10 + length (drop (b_prefixLength n1) key) + length payload \<le> BTreeNode_freeSpace n1" if ok
    using insert_room [OF r(4) _ r(3) [OF that, unfolded sp1] len] cov cov1 by simp
  have new: "BTreeNode_tryInsert key payload n \<noteq> Aborted \<and> (\<forall>n'. BTreeNode_tryInsert key payload n = Inserted n' \<longrightarrow>
      leafInv n' \<and> BTreeNode_covers n' = BTreeNode_covers n \<and>
      (\<exists>i. fullEntries n' = take i (fullEntries n) @ (key, payload) # drop i (fullEntries n)) \<and>
      BTreeNode_getLowerFence n' = BTreeNode_getLowerFence n \<and>
      BTreeNode_getUpperFence n' = BTreeNode_getUpperFence n \<and>
      BTreeNode_content n' = (BTreeNode_content n)(key \<mapsto> payload))"
    if fresh: "BTreeNode_content n key = None"
  proof (cases ok)
    case True
    from cov fresh have "BTreeNode_covers n1 key" "BTreeNode_content n1 key = None"
      by (simp_all add: cov1 con1)
    then obtain i n2 where n2: "BTreeNode_insertWithSpace key payload n1 = Some n2" "BTreeNode_inv n2"
      "keysInFences n2" "BTreeNode_covers n2 = BTreeNode_covers n1"
      "fullEntries n2 = take i (fullEntries n1) @ (key, payload) # drop i (fullEntries n1)"
      "BTreeNode_content n2 = (BTreeNode_content n1)(key \<mapsto> payload)" "b_tag n2 = b_tag n1"
      "BTreeNode_getLowerFence n2 = BTreeNode_getLowerFence n1"
      "BTreeNode_getUpperFence n2 = BTreeNode_getUpperFence n1"
      by (rule insertWithSpace_content [OF r(4,5) _ room [OF True]])
    with True i(3) r(6-9) show ?thesis
      by (auto simp: tr con1 cov1 leafInv_def BTreeNode_isLeaf_def)
  qed (simp add: tr)
  have old: "BTreeNode_tryInsert key payload n \<noteq> Inserted n'" if "BTreeNode_content n key \<noteq> None" for n'
  proof -
    have "BTreeNode_content n1 key \<noteq> None" using that con1 by simp
    then have "key \<in> fst ` set (fullEntries n1)" by (simp only: content_None not_not)
    moreover have "BTreeNode_covers n1 key" using cov cov1 by simp
    ultimately have "drop (b_prefixLength n1) key \<in> set (slotKeys n1)"
      using content_truncated(2) [OF inv_facts(1) [OF r(4)]] by blast
    then have "BTreeNode_insertWithSpace key payload n1 = None" by (rule insertWithSpace_found [OF r(4)])
    then show ?thesis by (simp add: tr)
  qed
  show "BTreeNode_tryInsert key payload n = Aborted \<Longrightarrow> BTreeNode_content n key \<noteq> None" using new by blast
  show "leafInv n' \<and> BTreeNode_covers n' = BTreeNode_covers n \<and>
      (\<exists>i. fullEntries n' = take i (fullEntries n) @ (key, payload) # drop i (fullEntries n)) \<and>
      BTreeNode_getLowerFence n' = BTreeNode_getLowerFence n \<and>
      BTreeNode_getUpperFence n' = BTreeNode_getUpperFence n \<and>
      BTreeNode_content n' = (BTreeNode_content n)(key \<mapsto> payload) \<and> BTreeNode_content n key = None"
    if "BTreeNode_tryInsert key payload n = Inserted n'"
    using that old new by blast
qed

lemma remove_correct:
  assumes inv: "BTreeNode_inv n" and kf: "keysInFences n" and cov: "BTreeNode_covers n key"
    and res: "BTreeNode_remove key n = (b, n')"
  shows "BTreeNode_inv n'" "keysInFences n'" "BTreeNode_covers n' = BTreeNode_covers n"
    "BTreeNode_content n' = (BTreeNode_content n)(key := None)" "b \<longleftrightarrow> BTreeNode_content n key \<noteq> None"
    "b_tag n' = b_tag n" "b_upper n' = b_upper n"
    "BTreeNode_getLowerFence n' = BTreeNode_getLowerFence n"
    "BTreeNode_getUpperFence n' = BTreeNode_getUpperFence n"
proof -
  obtain i found where lb: "BTreeNode_lowerBound n key = (i, found)" by force
  note f = lowerBound_full [OF inv cov lb]
  have all: "BTreeNode_inv n' \<and> keysInFences n' \<and> BTreeNode_covers n' = BTreeNode_covers n \<and>
    BTreeNode_content n' = (BTreeNode_content n)(key := None) \<and> (b \<longleftrightarrow> BTreeNode_content n key \<noteq> None) \<and>
    b_tag n' = b_tag n \<and> b_upper n' = b_upper n \<and>
    BTreeNode_getLowerFence n' = BTreeNode_getLowerFence n \<and>
    BTreeNode_getUpperFence n' = BTreeNode_getUpperFence n"
  proof (cases found)
    case False
    then have "b = False" "n' = n" using res lb by (auto simp: BTreeNode_remove_def)
    with False f(3) inv kf show ?thesis by (auto simp: fun_upd_idem)
  next
    case True
    then have b: "b" and n': "n' = BTreeNode_removeSlot i n" using res lb by (auto simp: BTreeNode_remove_def)
    from True f(2) have i: "i < b_count n" "fst (fullEntries n ! i) = key" by auto
    note r = removeSlot_correct [OF inv i(1), folded n']
    have "BTreeNode_getPrefix n' = BTreeNode_getPrefix n"
      by (rule getPrefix_same [OF inv_facts(1) [OF inv] inv_facts(1) [OF r(1)] r(3) r(7)])
    then have full: "fullEntries n' = take i (fullEntries n) @ drop (Suc i) (fullEntries n)"
      by (simp add: fullEntries_def r(2) take_map drop_map)
    have "fst ` set (fullEntries n') \<subseteq> fst ` set (fullEntries n)"
      unfolding full by (auto dest: in_set_takeD in_set_dropD intro: rev_image_eqI)
    then have "keysInFences n'" using kf unfolding keysInFences_def r(3,4) by blast
    moreover have "BTreeNode_content n' = (BTreeNode_content n)(key := None)"
      using map_of_remove_at [OF inv_facts(4) [OF inv], of i] i by (simp add: BTreeNode_content_def full)
    ultimately show ?thesis using r b True f(3) by (simp add: BTreeNode_covers_def)
  qed
  then show "BTreeNode_inv n'" "keysInFences n'" "BTreeNode_covers n' = BTreeNode_covers n"
    "BTreeNode_content n' = (BTreeNode_content n)(key := None)" "b \<longleftrightarrow> BTreeNode_content n key \<noteq> None"
    "b_tag n' = b_tag n" "b_upper n' = b_upper n"
    "BTreeNode_getLowerFence n' = BTreeNode_getLowerFence n"
    "BTreeNode_getUpperFence n' = BTreeNode_getUpperFence n"
    by blast+
qed

text \<open>Lengths are stored in 16 bits.\<close>

definition storable :: "bytes \<Rightarrow> bytes \<Rightarrow> bool" where
  "storable k v \<longleftrightarrow> length k < 65536 \<and> length v < 65536"

interpretation basic_leaf: leaf_map leafInv BTreeNode_covers BTreeNode_content BTreeNode_lookup
  BTreeNode_tryInsert BTreeNode_remove storable
proof
  fix n n' k v b
  show "BTreeNode_lookup k n = BTreeNode_content n k" if "leafInv n" "BTreeNode_covers n k"
    using that by (auto simp: leafInv_def intro: lookup_content)
  show "leafInv n' \<and> BTreeNode_covers n' = BTreeNode_covers n \<and>
      BTreeNode_content n' = (BTreeNode_content n)(k \<mapsto> v)"
    if "leafInv n" "BTreeNode_covers n k" "storable k v" "BTreeNode_tryInsert k v n = Inserted n'"
    using tryInsert_correct(1) [OF that(1,2) _ _ that(4)] that(3) by (simp add: storable_def)
  show "leafInv n' \<and> BTreeNode_covers n' = BTreeNode_covers n \<and> BTreeNode_content n' = BTreeNode_content n"
    if "leafInv n" "BTreeNode_covers n k" "storable k v" "BTreeNode_tryInsert k v n = NoSpace n'"
    using tryInsert_correct(2) [OF that(1,2) _ _ that(4)] that(1,3) by (simp add: storable_def)
  show "leafInv n' \<and> BTreeNode_covers n' = BTreeNode_covers n \<and>
      BTreeNode_content n' = (BTreeNode_content n)(k := None) \<and> (b \<longleftrightarrow> BTreeNode_content n k \<noteq> None)"
    if "leafInv n" "BTreeNode_covers n k" "BTreeNode_remove k n = (b, n')"
    using remove_correct [OF _ _ that(2,3)] that(1) by (simp add: leafInv_def BTreeNode_isLeaf_def)
qed

subsection \<open>Range lookups\<close>

lemma range_loop_scan:
  assumes "load keyOut 0 (b_prefixLength n) = BTreeNode_getPrefix n"
    and "BTreeNode_range_loop n cb i keyOut s = (c, keyOut', s')"
  shows "(c, s') = scan cb (drop i (fullEntries n)) s \<and> load keyOut' 0 (b_prefixLength n) = BTreeNode_getPrefix n"
  using assms
proof (induction "b_count n - i" arbitrary: i keyOut s)
  case 0
  then have "\<not> i < b_count n" by simp
  with 0 show ?case by (simp add: BTreeNode_range_loop.simps [of n cb i])
next
  case (Suc m)
  then have i: "i < b_count n" by simp
  let ?k1 = "store keyOut (b_prefixLength n) (BTreeNode_getKey n i)"
  have k1: "load ?k1 0 (b_prefixLength n) = BTreeNode_getPrefix n"
    using Suc.prems(1) by (simp add: load_store_other)
  have key: "load ?k1 0 (s_keyLen (b_slot n i) + b_prefixLength n) = fst (fullEntries n ! i)"
    using k1 load_add [of ?k1 0 "b_prefixLength n" "s_keyLen (b_slot n i)"] i
    by (simp add: add.commute load_store_same nth_fullEntries)
  have d: "drop i (fullEntries n) = fullEntries n ! i # drop (Suc i) (fullEntries n)"
    using i by (simp add: Cons_nth_drop_Suc)
  obtain c1 s1 where cb: "cb (fst (fullEntries n ! i)) (BTreeNode_getPayload n i) s = (c1, s1)" by force
  have loop: "BTreeNode_range_loop n cb i keyOut s =
      (if \<not> c1 then (False, ?k1, s1) else BTreeNode_range_loop n cb (i + 1) ?k1 s1)"
    using i key cb by (subst BTreeNode_range_loop.simps) (simp add: Let_def)
  have sc: "scan cb (drop i (fullEntries n)) s = (if c1 then scan cb (drop (Suc i) (fullEntries n)) s1 else (False, s1))"
    unfolding d using cb i by (simp add: nth_fullEntries)
  show ?case
  proof (cases c1)
    case True
    with Suc.hyps(1) [of "i + 1" ?k1 s1] Suc.hyps(2) Suc.prems(2) k1 loop sc show ?thesis by simp
  next
    case False
    with Suc.prems(2) loop sc k1 show ?thesis by auto
  qed
qed

lemma range_loop_desc_scan:
  assumes "load keyOut 0 (b_prefixLength n) = BTreeNode_getPrefix n" "i \<le> b_count n"
    and "BTreeNode_range_loop_desc n cb i keyOut s = (c, keyOut', s')"
  shows "(c, s') = scan cb (rev (take i (fullEntries n))) s"
  using assms
proof (induction i arbitrary: keyOut s)
  case (Suc i)
  then have i: "i < b_count n" by simp
  let ?k1 = "store keyOut (b_prefixLength n) (BTreeNode_getKey n i)"
  have k1: "load ?k1 0 (b_prefixLength n) = BTreeNode_getPrefix n"
    using Suc.prems(1) by (simp add: load_store_other)
  have key: "load ?k1 0 (s_keyLen (b_slot n i) + b_prefixLength n) = fst (fullEntries n ! i)"
    using k1 load_add [of ?k1 0 "b_prefixLength n" "s_keyLen (b_slot n i)"] i
    by (simp add: add.commute load_store_same nth_fullEntries)
  have d: "rev (take (Suc i) (fullEntries n)) = fullEntries n ! i # rev (take i (fullEntries n))"
    using i by (simp add: take_Suc_conv_app_nth)
  obtain c1 s1 where cb: "cb (fst (fullEntries n ! i)) (BTreeNode_getPayload n i) s = (c1, s1)" by force
  show ?case
    using Suc.IH [of ?k1 s1] Suc.prems(3) k1 key cb i unfolding d
    by (auto simp: nth_fullEntries Let_def split: if_splits)
qed simp

end
