(* ===== verification/HeadNode.thy ===== *)
theory HeadNode
  imports BasicNodeMap
begin

text \<open>
  The inner nodes of short separators, the template \<open>HeadNode<T>\<close> of \<open>libbtree/include/head.hpp\<close>.
  A separator shorter than \<open>sizeof(T)\<close> is kept, together with its length, in one integer of
  type \<open>T\<close> whose order is that of the separators. \<open>T\<close> is the type parameter of the record:
  \<open>32 word HeadNode\<close> is \<open>HeadNode4\<close> and \<open>64 word HeadNode\<close> is \<open>HeadNode8\<close>. The key and child arrays are
  functions of the index, the fences lie in the page memory.
\<close>

subsection \<open>The page\<close>

record 'k HeadNode =
  hn_count :: nat
  hn_keyCapacity :: nat
  hn_lowerFenceLen :: nat
  hn_upperFenceLen :: nat
  hn_prefixLength :: nat
  hn_hint :: "nat \<Rightarrow> 32 word"
  hn_keys :: "nat \<Rightarrow> 'k"
  hn_children :: "nat \<Rightarrow> ptr"
  hn_heap :: memory

type_synonym HeadNode4 = "32 word HeadNode"
type_synonym HeadNode8 = "64 word HeadNode"

definition TmpHeadNode :: "('w::len) word HeadNode" where
  "TmpHeadNode = \<lparr>hn_count = 0, hn_keyCapacity = 0, hn_lowerFenceLen = 0, hn_upperFenceLen = 0,
     hn_prefixLength = 0, hn_hint = (\<lambda>_. 0), hn_keys = (\<lambda>_. 0), hn_children = (\<lambda>_. nullptr),
     hn_heap = (\<lambda>_. 0)\<rparr>"

text \<open>\<open>sizeof(T)\<close>, and the offset of \<open>data\<close>: the 12 bytes of \<open>HeadNodeHead\<close>, aligned for \<open>T\<close>, and
  the hints.\<close>

definition sizeofT :: "'w::len itself \<Rightarrow> nat" where
  "sizeofT _ = LENGTH('w) div 8"

definition sizeof_HeadNodeHead :: nat where
  "sizeof_HeadNodeHead = 12"

definition paddedHeadSize :: "nat \<Rightarrow> nat" where
  "paddedHeadSize szT = (sizeof_HeadNodeHead + szT - 1) div szT * szT + headNodeHintCount * 4"

definition byteswap :: "'w::len word \<Rightarrow> 'w word" where
  "byteswap x = word_of_nat (le_decode (rev (le_encode (LENGTH('w) div 8) (unat x))))"

definition HeadNode_fencesOffset :: "('w::len) word HeadNode \<Rightarrow> nat" where
  "HeadNode_fencesOffset n = sub32 (sub32 pageSizeInner (hn_lowerFenceLen n)) (hn_upperFenceLen n)"

definition HeadNode_getLowerFence :: "('w::len) word HeadNode \<Rightarrow> bytes" where
  "HeadNode_getLowerFence n = load (hn_heap n) (pageSizeInner - hn_lowerFenceLen n) (hn_lowerFenceLen n)"

definition HeadNode_getUpperFence :: "('w::len) word HeadNode \<Rightarrow> bytes" where
  "HeadNode_getUpperFence n = load (hn_heap n) (HeadNode_fencesOffset n) (hn_upperFenceLen n)"

definition HeadNode_updatePrefixLength :: "('w::len) word HeadNode \<Rightarrow> 'w word HeadNode" where
  "HeadNode_updatePrefixLength n =
     n\<lparr>hn_prefixLength := for_until (\<lambda>i. HeadNode_getLowerFence n ! i \<noteq> HeadNode_getUpperFence n ! i) 0
        (min (hn_upperFenceLen n) (hn_lowerFenceLen n))\<rparr>"

definition headKeyCapacity :: "nat \<Rightarrow> nat \<Rightarrow> nat" where
  "headKeyCapacity szT fencesOffset =
     sub32 (sub32 fencesOffset (paddedHeadSize szT)) sizeof_ptr div (szT + sizeof_ptr)"

definition HeadNode_init :: "bytes \<Rightarrow> bytes \<Rightarrow> ('w::len) word HeadNode \<Rightarrow> 'w word HeadNode" where
  "HeadNode_init lowerFence upperFence n =
     (let n1 = n\<lparr>hn_count := 0, hn_lowerFenceLen := u16 (length lowerFence),
                 hn_upperFenceLen := u16 (length upperFence)\<rparr>;
          n2 = n1\<lparr>hn_keyCapacity := u16 (headKeyCapacity (sizeofT TYPE('w)) (HeadNode_fencesOffset n1)),
                  hn_heap := store (store (hn_heap n) (pageSizeInner - length lowerFence) lowerFence)
                    (HeadNode_fencesOffset n1) upperFence\<rparr>
      in HeadNode_updatePrefixLength n2)"

subsection \<open>Heads\<close>

text \<open>\<open>None\<close> is the result \<open>false\<close>.\<close>

definition makeSepHead :: "bytes \<Rightarrow> ('w::len) word option" where
  "makeSepHead key =
     (let szT = sizeofT TYPE('w)
      in if length key < szT then
           Some (byteswap (word_of_nat (le_decode
             ((key @ replicate (szT - length key) 0)[szT - 1 := word_of_nat (length key)]))))
         else None)"

definition makeNeedleHead :: "bytes \<Rightarrow> ('w::len) word" where
  "makeNeedleHead key =
     (let szT = sizeofT TYPE('w)
      in if length key < szT then
           byteswap (word_of_nat (le_decode
             ((key @ replicate (szT - length key) 0)[szT - 1 := word_of_nat (length key)])))
         else
           byteswap (word_of_nat (le_decode ((take (szT - 1) key @ [0])[szT - 1 := word_of_nat szT]))))"

definition HeadNode_getKeyLength :: "('w::len) word HeadNode \<Rightarrow> nat \<Rightarrow> nat" where
  "HeadNode_getKeyLength n i = unat (hn_keys n i) mod 256"

text \<open>The bytes of a key's integer in memory order, of which the key is a prefix.\<close>

definition headBytes :: "('w::len) word \<Rightarrow> bytes" where
  "headBytes k = le_encode (sizeofT TYPE('w)) (unat (byteswap k))"

subsection \<open>Hints and search\<close>

definition HeadNode_hintOf :: "('w::len) word \<Rightarrow> 32 word" where
  "HeadNode_hintOf k = ucast (drop_bit (sizeofT TYPE('w) * 8 - 32) k)"

definition HeadNode_makeHint :: "('w::len) word HeadNode \<Rightarrow> 'w word HeadNode" where
  "HeadNode_makeHint n =
     (let dist = hn_count n div (headNodeHintCount + 1)
      in n\<lparr>hn_hint := (\<lambda>i. if i < headNodeHintCount then HeadNode_hintOf (hn_keys n (dist * (i + 1)))
                           else hn_hint n i)\<rparr>)"

definition HeadNode_updateHint :: "nat \<Rightarrow> ('w::len) word HeadNode \<Rightarrow> 'w word HeadNode" where
  "HeadNode_updateHint slotId n =
     (let dist = hn_count n div (headNodeHintCount + 1);
          begin = (if hn_count n > headNodeHintCount * 2 + 1 \<and>
                      (hn_count n - 1) div (headNodeHintCount + 1) = dist \<and> slotId div dist > 1
                   then slotId div dist - 1 else 0)
      in n\<lparr>hn_hint := (\<lambda>i. if begin \<le> i \<and> i < headNodeHintCount
             then HeadNode_hintOf (hn_keys n (dist * (i + 1))) else hn_hint n i)\<rparr>)"

definition HeadNode_validateHint :: "('w::len) word HeadNode \<Rightarrow> bool" where
  "HeadNode_validateHint n \<longleftrightarrow> (hn_count n > 0 \<longrightarrow>
     (\<forall>i<headNodeHintCount.
        hn_hint n i = HeadNode_hintOf (hn_keys n (hn_count n div (headNodeHintCount + 1) * (i + 1)))))"

definition HeadNode_searchHint :: "('w::len) word HeadNode \<Rightarrow> 'w word \<Rightarrow> nat \<Rightarrow> nat \<Rightarrow> nat \<times> nat" where
  "HeadNode_searchHint n fullKeyHead lowerOut upperOut =
     (let keyHead = HeadNode_hintOf fullKeyHead
      in if hn_count n > headNodeHintCount * 2 then
           (let dist = upperOut div (headNodeHintCount + 1);
                pos = for_until (\<lambda>p. hn_hint n p \<ge> keyHead) 0 headNodeHintCount;
                pos2 = for_until (\<lambda>p. hn_hint n p \<noteq> keyHead) pos headNodeHintCount
            in (pos * dist, if pos2 < headNodeHintCount then (pos2 + 1) * dist else upperOut))
         else (lowerOut, upperOut))"

function HeadNode_search :: "('w::len) word HeadNode \<Rightarrow> 'w word \<Rightarrow> nat \<Rightarrow> nat \<Rightarrow> nat" where
  "HeadNode_search n needle lower upper =
     (if lower < upper then
        (let mid = (upper - lower) div 2 + lower
         in if needle \<le> hn_keys n mid then HeadNode_search n needle lower mid
            else HeadNode_search n needle (mid + 1) upper)
      else lower)"
  by pat_completeness auto
termination
  by (relation "measure (\<lambda>(n, needle, lower, upper). upper - lower)") auto

declare HeadNode_search.simps [simp del]

text \<open>\<open>foundOut\<close> is always false: the branch that would set it follows \<open>head <= k\<close> and
  \<open>head > k\<close>.\<close>

definition HeadNode_lowerBound :: "('w::len) word HeadNode \<Rightarrow> 'w word \<Rightarrow> nat" where
  "HeadNode_lowerBound n needle =
     (let (lower, upper) = HeadNode_searchHint n needle 0 (hn_count n)
      in HeadNode_search n needle lower upper)"

definition HeadNode_lookupInnerIndex :: "('w::len) word HeadNode \<Rightarrow> bytes \<Rightarrow> nat" where
  "HeadNode_lookupInnerIndex n key = HeadNode_lowerBound n (makeNeedleHead (drop (hn_prefixLength n) key))"

definition HeadNode_lookupInner :: "('w::len) word HeadNode \<Rightarrow> bytes \<Rightarrow> ptr" where
  "HeadNode_lookupInner n key = hn_children n (HeadNode_lookupInnerIndex n key)"

subsection \<open>Insert and remove\<close>

definition HeadNode_insertAt :: "nat \<Rightarrow> ('w::len) word \<Rightarrow> ptr \<Rightarrow> 'w word HeadNode \<Rightarrow> 'w word HeadNode" where
  "HeadNode_insertAt index sepHead child n =
     n\<lparr>hn_keys := (memmove_array (hn_keys n) (index + 1) index (hn_count n - index))(index := sepHead),
       hn_children := (memmove_array (hn_children n) (index + 1) index (hn_count n + 1 - index))(index := child),
       hn_count := add16 (hn_count n) 1\<rparr>"

text \<open>\<open>None\<close>: the separator does not fit into a head, which the space request excludes.\<close>

definition HeadNode_insertChild :: "bytes \<Rightarrow> ptr \<Rightarrow> ('w::len) word HeadNode \<Rightarrow> 'w word HeadNode option" where
  "HeadNode_insertChild key child n =
     (case makeSepHead (drop (hn_prefixLength n) key) of
        None \<Rightarrow> None
      | Some sepHead \<Rightarrow>
          (let index = HeadNode_lowerBound n sepHead
           in Some (HeadNode_updateHint index (HeadNode_insertAt index sepHead child n))))"

definition HeadNode_removeSlot :: "nat \<Rightarrow> ('w::len) word HeadNode \<Rightarrow> 'w word HeadNode" where
  "HeadNode_removeSlot index n =
     HeadNode_makeHint (n\<lparr>
       hn_keys := memmove_array (hn_keys n) index (index + 1) (hn_count n - index - 1),
       hn_children := memmove_array (hn_children n) index (index + 1) (hn_count n - index),
       hn_count := sub16 (hn_count n) 1\<rparr>)"

subsection \<open>Separators and splits\<close>

definition HeadNode_findSeparator :: "('w::len) word HeadNode \<Rightarrow> SeparatorInfo" where
  "HeadNode_findSeparator n =
     (let slotId = hn_count n div 2
      in \<lparr>sep_length = hn_prefixLength n + HeadNode_getKeyLength n slotId, sep_slot = slotId,
          sep_isTruncated = False\<rparr>)"

definition HeadNode_restoreKey :: "('w::len) word HeadNode \<Rightarrow> nat \<Rightarrow> nat \<Rightarrow> bytes" where
  "HeadNode_restoreKey n len index =
     load (hn_heap n) (pageSizeInner - hn_lowerFenceLen n) (hn_prefixLength n) @
     take (sub32 len (hn_prefixLength n)) (headBytes (hn_keys n index))"

definition HeadNode_getSep :: "('w::len) word HeadNode \<Rightarrow> SeparatorInfo \<Rightarrow> bytes" where
  "HeadNode_getSep n info = HeadNode_restoreKey n (sep_length info) (sep_slot info)"

text \<open>\<open>None\<close> is the \<open>abort()\<close> when the prefix shrinks. The \<open>memcpy\<close> of the keys counts in pointer
  sizes, so with four-byte keys it moves twice the keys; what it writes too much lies before the
  end of the children, which the next \<open>memcpy\<close> writes.\<close>

definition HeadNode_copyKeyValueRange ::
    "('w::len) word HeadNode \<Rightarrow> nat \<Rightarrow> nat \<Rightarrow> nat \<Rightarrow> 'w word HeadNode \<Rightarrow> 'w word HeadNode option" where
  "HeadNode_copyKeyValueRange src dstSlot srcSlot srcCount dst =
     (if hn_prefixLength src \<le> hn_prefixLength dst then
        (let diff = hn_prefixLength dst - hn_prefixLength src;
             newKey = (\<lambda>i. if diff = 0 then hn_keys src i
               else or (push_bit (diff * 8) (and (hn_keys src i) (not 255)))
                       (word_of_nat (sub32 (HeadNode_getKeyLength src i) diff)))
         in Some (dst\<lparr>
           hn_keys := (\<lambda>i. if dstSlot \<le> i \<and> i < dstSlot + srcCount then newKey (srcSlot + (i - dstSlot))
                           else hn_keys dst i),
           hn_children := (\<lambda>i. if dstSlot \<le> i \<and> i < dstSlot + srcCount
                               then hn_children src (srcSlot + (i - dstSlot)) else hn_children dst i),
           hn_count := add16 (hn_count dst) srcCount\<rparr>))
      else if srcCount = 0 then Some dst
      else None)"

text \<open>The left and the right page; the separator's child becomes the last child of the left
  page.\<close>

definition HeadNode_splitPages :: "('w::len) word HeadNode \<Rightarrow> nat \<Rightarrow> bytes \<Rightarrow> ('w word HeadNode \<times> 'w word HeadNode) option" where
  "HeadNode_splitPages n sepSlot sepKey =
     (case HeadNode_copyKeyValueRange n 0 0 sepSlot (HeadNode_init (HeadNode_getLowerFence n) sepKey TmpHeadNode) of
        None \<Rightarrow> None
      | Some l \<Rightarrow>
          (case HeadNode_copyKeyValueRange n 0 (hn_count l + 1) (hn_count n - hn_count l - 1)
                  (HeadNode_init sepKey (HeadNode_getUpperFence n) TmpHeadNode) of
             None \<Rightarrow> None
           | Some r \<Rightarrow> Some
               (HeadNode_makeHint (l\<lparr>hn_children := (hn_children l)(hn_count l := hn_children n (hn_count l))\<rparr>),
                HeadNode_makeHint (r\<lparr>hn_children := (hn_children r)(hn_count r := hn_children n (hn_count n))\<rparr>))))"

subsection \<open>Conversions\<close>

definition HeadNode_copyToBasicStep :: "('w::len) word HeadNode \<Rightarrow> nat \<Rightarrow> nat \<Rightarrow> nat \<Rightarrow> BTreeNode \<Rightarrow> BTreeNode" where
  "HeadNode_copyToBasicStep src prefixDiff srcStart i dst =
     (let keyLength = HeadNode_getKeyLength src i;
          newKeyLength = sub32 keyLength prefixDiff;
          space = u32 (newKeyLength + sizeof_ptr);
          off = sub16 (b_dataOffset dst) space;
          key = take newKeyLength (drop prefixDiff (headBytes (hn_keys src i)));
          outSlot = i - srcStart
      in dst\<lparr>b_dataOffset := off, b_spaceUsed := add16 (b_spaceUsed dst) space,
             b_heap := store (store (b_heap dst) (off + u16 newKeyLength) (le_encode sizeof_ptr (hn_children src i))) off key,
             b_slot := (b_slot dst)(outSlot := \<lparr>s_offset = off, s_keyLen = u16 newKeyLength,
               s_payloadLen = sizeof_ptr, s_head = head key\<rparr>)\<rparr>)"

definition HeadNode_copyKeyValueRangeToBasic :: "('w::len) word HeadNode \<Rightarrow> nat \<Rightarrow> nat \<Rightarrow> BTreeNode \<Rightarrow> BTreeNode" where
  "HeadNode_copyKeyValueRangeToBasic src srcStart srcEnd dst =
     (let prefixDiff = sub32 (b_prefixLength dst) (hn_prefixLength src);
          dst' = fold (HeadNode_copyToBasicStep src prefixDiff srcStart) [srcStart..<srcEnd] dst
      in BTreeNode_makeHint (dst'\<lparr>b_count := u16 (srcEnd - srcStart)\<rparr>))"

definition HeadNode_convertToBasicWithSpace :: "nat \<Rightarrow> ('w::len) word HeadNode \<Rightarrow> BTreeNode option" where
  "HeadNode_convertToBasicWithSpace truncatedKeyLen n =
     (let lower1 = hn_lowerFenceLen n + hn_upperFenceLen n +
            (hn_count n + 1) * (sizeof_ptr + sizeof_Slot) + truncatedKeyLen;
          lower2 = lower1 + (\<Sum>i\<leftarrow>[0..<hn_count n]. HeadNode_getKeyLength n i)
      in if lower1 + sizeof_BTreeNodeHeader > pageSizeInner \<or> lower2 + sizeof_BTreeNodeHeader > pageSizeInner
         then None
         else
           (let tmp = BTreeNode_setFences (HeadNode_getLowerFence n) (HeadNode_getUpperFence n)
                  (BTreeNode_init False RangeOpCounter_new TmpBTreeNode);
                tmp = HeadNode_copyKeyValueRangeToBasic n 0 (hn_count n) tmp
            in Some (tmp\<lparr>b_upper := hn_children n (hn_count n)\<rparr>)))"

definition HeadNode_convertToHead8WithSpace :: "HeadNode4 \<Rightarrow> HeadNode8 option" where
  "HeadNode_convertToHead8WithSpace n =
     (let newKeyCapacity = headKeyCapacity 8 (HeadNode_fencesOffset n)
      in if hn_count n + 1 > newKeyCapacity then None
         else
           (let tmp = HeadNode_init (HeadNode_getLowerFence n) (HeadNode_getUpperFence n) TmpHeadNode
            in Some (HeadNode_makeHint (tmp\<lparr>
                 hn_keys := (\<lambda>i. if i < hn_count n
                   then or (push_bit 32 (ucast (and (hn_keys n i) (not 255)))) (ucast (and (hn_keys n i) 255))
                   else hn_keys tmp i),
                 hn_children := (\<lambda>i. if i < hn_count n + 1 then hn_children n i else hn_children tmp i),
                 hn_count := hn_count n\<rparr>))))"

definition HeadNode_convertToHead4WithSpace :: "HeadNode8 \<Rightarrow> HeadNode4 option" where
  "HeadNode_convertToHead4WithSpace n =
     (if list_ex (\<lambda>i. HeadNode_getKeyLength n i \<ge> 4) [0..<hn_count n] then None
      else
        (let tmp = HeadNode_init (HeadNode_getLowerFence n) (HeadNode_getUpperFence n) TmpHeadNode
         in Some (HeadNode_makeHint (tmp\<lparr>
              hn_keys := (\<lambda>i. if i < hn_count n
                then or (ucast (drop_bit 32 (hn_keys n i))) (ucast (and (hn_keys n i) 255))
                else hn_keys tmp i),
              hn_children := (\<lambda>i. if i < hn_count n + 1 then hn_children n i else hn_children tmp i),
              hn_count := hn_count n\<rparr>))))"

text \<open>\<open>None\<close>: a violated \<open>ASSUME\<close>, the page has more keys than capacity or a key too long.\<close>

definition HeadNode_clone_from_basic :: "BTreeNode \<Rightarrow> ('w::len) word HeadNode option" where
  "HeadNode_clone_from_basic src =
     (let n = HeadNode_init (BTreeNode_getLowerFence src) (BTreeNode_getUpperFence src) TmpHeadNode;
          heads = map (\<lambda>i. makeSepHead (BTreeNode_getKey src i)) [0..<b_count src]
      in if b_count src > hn_keyCapacity n \<or> None \<in> set heads then None
         else
           (let n1 = HeadNode_makeHint (n\<lparr>hn_count := b_count src,
                  hn_keys := (\<lambda>i. if i < b_count src then the (heads ! i) else hn_keys n i),
                  hn_children := (\<lambda>i. if i < b_count src then BTreeNode_getChild src i else hn_children n i)\<rparr>)
            in Some (n1\<lparr>hn_children := (hn_children n1)(hn_count n1 := b_upper src)\<rparr>)))"

text \<open>\<open>requestChildConvertFromBasic\<close>: \<open>None\<close> is the result \<open>false\<close>, \<open>Some None\<close> a violated
  \<open>ASSUME\<close>.\<close>

definition requestChildConvertFromBasic :: "BTreeNode \<Rightarrow> nat \<Rightarrow> (HeadNode4 + HeadNode8) option option" where
  "requestChildConvertFromBasic n newKeyLength =
     (let len = sub32 newKeyLength (b_prefixLength n)
      in if len \<ge> 8 \<or> list_ex (\<lambda>i. s_keyLen (b_slot n i) \<ge> 8) [0..<b_count n] then None
         else if len < 4 \<and> list_all (\<lambda>i. s_keyLen (b_slot n i) < 4) [0..<b_count n] then
           (case HeadNode_clone_from_basic n of
              None \<Rightarrow> Some None
            | Some t \<Rightarrow> Some (if hn_count t < hn_keyCapacity t then Some (Inl t) else None))
         else
           (case HeadNode_clone_from_basic n of
              None \<Rightarrow> Some None
            | Some t \<Rightarrow> Some (if hn_count t < hn_keyCapacity t then Some (Inr t) else None)))"

end
