(* ===== verification/HeadNodeKeys.thy ===== *)
theory HeadNodeKeys
  imports HeadNode
begin

text \<open>
  The integers of a head node: \<open>makeSepHead\<close> packs a separator and its length into one integer from
  which both can be read back, and the order of these integers, and of the integers
  \<open>makeNeedleHead\<close> makes of searched keys of any length, is the order of the keys.
\<close>

subsection \<open>The bytes of an integer\<close>

text \<open>\<open>padHead n l key\<close>: the first \<open>n\<close> bytes of a key, zeros when it is shorter, and its length, to
  which \<open>l\<close> is added and which counts no more than one byte beyond \<open>n\<close>.\<close>

fun padHead :: "nat \<Rightarrow> nat \<Rightarrow> bytes \<Rightarrow> bytes" where
  "padHead 0 l xs = [word_of_nat (l + (if xs = [] then 0 else 1))]"
| "padHead (Suc n) l [] = 0 # padHead n l []"
| "padHead (Suc n) l (x # xs) = x # padHead n (Suc l) xs"

lemma length_padHead [simp]: "length (padHead n l xs) = Suc n"
  by (induction n l xs rule: padHead.induct) auto

lemma padHead_short: "length xs \<le> n \<Longrightarrow> padHead n l xs = xs @ replicate (n - length xs) 0 @ [word_of_nat (l + length xs)]"
  by (induction n l xs rule: padHead.induct) auto

lemma padHead_long: "n < length xs \<Longrightarrow> padHead n l xs = take n xs @ [word_of_nat (l + n + 1)]"
proof (induction n l xs rule: padHead.induct)
  case (3 n l x xs)
  then show ?case by (simp add: add.assoc)
qed auto

lemma byte_less: "a < b \<Longrightarrow> b < 256 \<Longrightarrow> (word_of_nat a :: byte) < word_of_nat b"
  by (simp add: word_less_nat_alt unat_of_nat)

lemma padHead_gap: "l < m \<Longrightarrow> m + n < 255 \<Longrightarrow> padHead n l [] < padHead n m xs"
proof (induction n arbitrary: m xs)
  case 0
  then have "(word_of_nat l :: byte) < word_of_nat (m + (if xs = [] then 0 else 1))" by (intro byte_less) auto
  then show ?case by (simp del: word_of_nat_less_iff)
next
  case (Suc n)
  show ?case
  proof (cases xs)
    case Nil
    then show ?thesis using Suc.IH [of m "[]"] Suc.prems by simp
  next
    case (Cons x ys)
    have "padHead n l [] < padHead n (Suc m) ys" using Suc.IH [of "Suc m" ys] Suc.prems by simp
    then show ?thesis using Cons by (cases "x = 0") (auto simp: word_neq_0_conv)
  qed
qed

text \<open>A separator against any key: the padded bytes compare as the keys do.\<close>

lemma padHead_order:
  "length a \<le> n \<Longrightarrow> l + n < 254 \<Longrightarrow> (padHead n l b < padHead n l a) = (b < a) \<and> (padHead n l a < padHead n l b) = (a < b)"
proof (induction n l a arbitrary: b rule: padHead.induct)
  case (1 l xs)
  then have "(word_of_nat l :: byte) < word_of_nat (Suc l)" by (intro byte_less) auto
  then show ?case using 1 by (cases b) (auto simp del: word_of_nat_less_iff of_nat_Suc dest: less_asym)
next
  case (2 n l)
  show ?case
  proof (cases b)
    case Nil
    then show ?thesis by simp
  next
    case (Cons y ys)
    have gap: "padHead n l [] < padHead n (Suc l) ys" by (rule padHead_gap) (use 2 in simp_all)
    then have "\<not> padHead n (Suc l) ys < padHead n l []" by simp
    with gap show ?thesis using Cons by (cases "y = 0") (auto simp: word_neq_0_conv)
  qed
next
  case (3 n l x xs)
  show ?case
  proof (cases b)
    case Nil
    have gap: "padHead n l [] < padHead n (Suc l) xs" by (rule padHead_gap) (use 3 in simp_all)
    then have "\<not> padHead n (Suc l) xs < padHead n l []" by simp
    with gap show ?thesis using Nil by (cases "x = 0") (auto simp: word_neq_0_conv)
  next
    case (Cons y ys)
    with 3 show ?thesis by auto
  qed
qed

subsection \<open>Heads as numbers\<close>

text \<open>The separator an integer of a page stands for.\<close>

definition sepOf :: "('w::len) word \<Rightarrow> bytes" where
  "sepOf k = take (unat k mod 256) (headBytes k)"

text \<open>The two instances of the template.\<close>

locale head_type =
  fixes T :: "'w::len itself"
  assumes width: "LENGTH('w) = 8 * sizeofT TYPE('w)" and size: "4 \<le> sizeofT TYPE('w)" "sizeofT TYPE('w) \<le> 8"
begin

lemma unat_of_bytes: "x < 256 ^ sizeofT TYPE('w) \<Longrightarrow> unat (word_of_nat x :: 'w word) = x"
  using width by (simp add: unat_of_nat power_mult)

lemma byteswap_decode:
  assumes "length bs = sizeofT TYPE('w)"
  shows "byteswap (word_of_nat (le_decode bs) :: 'w word) = word_of_nat (be_pad (sizeofT TYPE('w)) bs)"
proof -
  have "unat (word_of_nat (le_decode bs) :: 'w word) = le_decode bs"
    by (rule unat_of_bytes) (use le_decode_less [of bs] assms in simp)
  moreover have "LENGTH('w) div 8 = sizeofT TYPE('w)" by (simp add: sizeofT_def)
  ultimately show ?thesis
    using assms be_pad_snoc_le_decode [of bs] by (simp add: byteswap_def le_encode_decode)
qed

lemma headBytes_be:
  assumes "length bs = sizeofT TYPE('w)"
  shows "headBytes (word_of_nat (be_pad (sizeofT TYPE('w)) bs) :: 'w word) = bs"
proof -
  have "be_pad (sizeofT TYPE('w)) bs = le_decode (rev bs)"
    using be_pad_snoc_le_decode [of bs] assms by simp
  then have "byteswap (word_of_nat (be_pad (sizeofT TYPE('w)) bs) :: 'w word) = word_of_nat (be_pad (sizeofT TYPE('w)) (rev bs))"
    using byteswap_decode [of "rev bs"] assms by simp
  moreover have "be_pad (sizeofT TYPE('w)) (rev bs) = le_decode bs"
    using be_pad_snoc_le_decode [of "rev bs"] assms by simp
  ultimately show ?thesis
    using le_decode_less [of bs] assms by (simp add: headBytes_def unat_of_bytes le_encode_decode)
qed

lemma makeNeedleHead_padHead:
  "makeNeedleHead key = (word_of_nat (be_pad (sizeofT TYPE('w)) (padHead (sizeofT TYPE('w) - 1) 0 key)) :: 'w word)"
proof -
  obtain m where m: "sizeofT TYPE('w) = Suc m" using size by (cases "sizeofT TYPE('w)") auto
  have bs: "(byteswap (word_of_nat (le_decode (padHead m 0 key))) :: 'w word) = word_of_nat (be_pad (Suc m) (padHead m 0 key))"
    using byteswap_decode [of "padHead m 0 key"] m by simp
  have upd: "(xs @ [0])[m := b] = xs @ [b]" if "length xs = m" for xs and b :: byte
    using that by (metis list_update_length)
  show ?thesis
  proof (cases "length key < Suc m")
    case True
    then have "Suc m - length key = Suc (m - length key)" by simp
    then have "key @ replicate (Suc m - length key) 0 = (key @ replicate (m - length key) 0) @ [0]"
      by (simp only: replicate_Suc replicate_append_same append_assoc)
    moreover have "length (key @ replicate (m - length key) 0) = m" using True by simp
    ultimately have "(key @ replicate (Suc m - length key) 0)[m := word_of_nat (length key)] = padHead m 0 key"
      using upd [of "key @ replicate (m - length key) 0"] True by (simp add: padHead_short)
    then show ?thesis using True bs by (simp add: makeNeedleHead_def m Let_def)
  next
    case False
    then have "(take m key @ [0])[m := word_of_nat (Suc m)] = padHead m 0 key"
      using upd [of "take m key"] by (simp add: padHead_long)
    then show ?thesis using False bs by (simp add: makeNeedleHead_def m Let_def)
  qed
qed

lemma makeSepHead_eq:
  "makeSepHead key = (if length key < sizeofT TYPE('w) then Some (makeNeedleHead key :: 'w word) else None)"
  by (simp add: makeSepHead_def makeNeedleHead_def Let_def)

lemma makeNeedleHead_order:
  assumes "length a < sizeofT TYPE('w)"
  shows "((makeNeedleHead b :: 'w word) < makeNeedleHead a) = (b < a)"
    "((makeNeedleHead a :: 'w word) < makeNeedleHead b) = (a < b)"
proof -
  let ?s = "sizeofT TYPE('w)" and ?p = "padHead (sizeofT TYPE('w) - 1) 0"
  have len: "length (?p k) = ?s" for k using size by simp
  have u: "unat (makeNeedleHead k :: 'w word) = be_pad ?s (?p k)" for k
    by (simp add: makeNeedleHead_padHead unat_of_bytes be_pad_less)
  have "(?p b < ?p a) = (b < a) \<and> (?p a < ?p b) = (a < b)"
    by (rule padHead_order) (use assms size in auto)
  moreover have "((makeNeedleHead x :: 'w word) < makeNeedleHead y) = (?p x < ?p y)" for x y
    unfolding word_less_nat_alt u by (rule be_pad_order [OF len len])
  ultimately show "((makeNeedleHead b :: 'w word) < makeNeedleHead a) = (b < a)"
    "((makeNeedleHead a :: 'w word) < makeNeedleHead b) = (a < b)" by simp_all
qed

text \<open>The value of a separator's integer: its bytes as a number, then one byte for its length.\<close>

lemma unat_sepHead:
  assumes "length a < sizeofT TYPE('w)"
  shows "unat (makeNeedleHead a :: 'w word) = be_pad (sizeofT TYPE('w) - 1) a * 256 + length a"
proof -
  obtain m where m: "sizeofT TYPE('w) = Suc m" using size by (cases "sizeofT TYPE('w)") auto
  have "padHead m 0 a = (a @ replicate (m - length a) 0) @ [word_of_nat (length a)]"
    using assms by (simp add: padHead_short m)
  moreover have "unat (word_of_nat (length a) :: byte) = length a"
    using assms size by (simp add: unat_of_nat)
  moreover have "length (a @ replicate (m - length a) 0) = m" using assms by (simp add: m)
  ultimately have "be_pad (Suc m) (padHead m 0 a) = be_pad m a * 256 + length a"
    using be_pad_snoc [of "a @ replicate (m - length a) 0" m "word_of_nat (length a)"]
    by (simp only: be_pad_zeros)
  then show ?thesis
    using unat_of_bytes [of "be_pad (Suc m) (padHead m 0 a)"] be_pad_less [of "Suc m" "padHead m 0 a"]
    by (simp only: makeNeedleHead_padHead m diff_Suc_1)
qed

lemma sepOf_sepHead:
  assumes "length a < sizeofT TYPE('w)"
  shows "sepOf (makeNeedleHead a :: 'w word) = a" "unat (makeNeedleHead a :: 'w word) mod 256 = length a"
proof -
  show l: "unat (makeNeedleHead a :: 'w word) mod 256 = length a"
    using assms size by (simp add: unat_sepHead)
  have "headBytes (makeNeedleHead a :: 'w word) = padHead (sizeofT TYPE('w) - 1) 0 a"
    unfolding makeNeedleHead_padHead by (rule headBytes_be) (use size in simp)
  then show "sepOf (makeNeedleHead a :: 'w word) = a" using assms by (simp add: sepOf_def l padHead_short)
qed

end

interpretation head4: head_type "TYPE(32)"
  by unfold_locales (simp_all add: sizeofT_def)

interpretation head8: head_type "TYPE(64)"
  by unfold_locales (simp_all add: sizeofT_def)

end
