(* ===== verification/HeadNodeProps.thy ===== *)
theory HeadNodeProps
  imports HeadNodeKeys
begin

text \<open>
  A head node as an inner page: the list of separators and the list of children it stands for, its
  invariant, the search for the child of a key, and how inserting and removing a child change
  the two lists.
\<close>

subsection \<open>The lists of a page\<close>

definition HeadNode_heads :: "('w::len) word HeadNode \<Rightarrow> 'w word list" where
  "HeadNode_heads n = map (hn_keys n) [0..<hn_count n]"

definition HeadNode_prefix :: "('w::len) word HeadNode \<Rightarrow> bytes" where
  "HeadNode_prefix n = take (hn_prefixLength n) (HeadNode_getLowerFence n)"

definition HeadNode_seps :: "('w::len) word HeadNode \<Rightarrow> bytes list" where
  "HeadNode_seps n = map (\<lambda>k. HeadNode_prefix n @ sepOf k) (HeadNode_heads n)"

definition HeadNode_kids :: "('w::len) word HeadNode \<Rightarrow> ptr list" where
  "HeadNode_kids n = map (hn_children n) [0..<Suc (hn_count n)]"

definition HeadNode_covers :: "('w::len) word HeadNode \<Rightarrow> bytes \<Rightarrow> bool" where
  "HeadNode_covers n = inFences (HeadNode_getLowerFence n) (HeadNode_getUpperFence n)"

text \<open>An integer that \<open>makeSepHead\<close> makes.\<close>

definition isSepHead :: "('w::len) word \<Rightarrow> bool" where
  "isSepHead k \<longleftrightarrow> makeSepHead (sepOf k) = Some k"

definition headPageOk :: "('w::len) word HeadNode \<Rightarrow> bool" where
  "headPageOk n \<longleftrightarrow>
     paddedHeadSize (sizeofT TYPE('w)) + sizeof_ptr + hn_lowerFenceLen n + hn_upperFenceLen n \<le> pageSizeInner \<and>
     hn_keyCapacity n = headKeyCapacity (sizeofT TYPE('w)) (HeadNode_fencesOffset n) \<and>
     hn_prefixLength n = lcp (HeadNode_getLowerFence n) (HeadNode_getUpperFence n)"

definition headInv :: "('w::len) word HeadNode \<Rightarrow> bool" where
  "headInv n \<longleftrightarrow> headPageOk n \<and> hn_count n \<le> hn_keyCapacity n \<and> (\<forall>k \<in> set (HeadNode_heads n). isSepHead k) \<and>
     sorted_wrt (<) (HeadNode_heads n) \<and> HeadNode_validateHint n \<and> (\<forall>s \<in> set (HeadNode_seps n). HeadNode_covers n s)"

lemma length_heads [simp]: "length (HeadNode_heads n) = hn_count n"
  by (simp add: HeadNode_heads_def)

lemma nth_heads [simp]: "i < hn_count n \<Longrightarrow> HeadNode_heads n ! i = hn_keys n i"
  by (simp add: HeadNode_heads_def)

lemma heads_mem: "i < hn_count n \<Longrightarrow> hn_keys n i \<in> set (HeadNode_heads n)"
  by (simp add: HeadNode_heads_def)

lemma length_HeadNode_lists [simp]:
  "length (HeadNode_seps n) = hn_count n" "length (HeadNode_kids n) = Suc (hn_count n)"
  by (simp_all add: HeadNode_seps_def HeadNode_kids_def)

lemma nth_HeadNode_kids [simp]: "i \<le> hn_count n \<Longrightarrow> HeadNode_kids n ! i = hn_children n i"
  by (simp add: HeadNode_kids_def nth_append del: upt_Suc)

text \<open>Two pages with the same header and the same fences.\<close>

definition sameFrame :: "('w::len) word HeadNode \<Rightarrow> 'w word HeadNode \<Rightarrow> bool" where
  "sameFrame n n' \<longleftrightarrow> hn_keyCapacity n' = hn_keyCapacity n \<and> hn_lowerFenceLen n' = hn_lowerFenceLen n \<and>
     hn_upperFenceLen n' = hn_upperFenceLen n \<and> hn_prefixLength n' = hn_prefixLength n \<and> hn_heap n' = hn_heap n"

lemma sameFrame_facts:
  assumes "sameFrame n n'"
  shows "HeadNode_getLowerFence n' = HeadNode_getLowerFence n" "HeadNode_getUpperFence n' = HeadNode_getUpperFence n"
    "HeadNode_fencesOffset n' = HeadNode_fencesOffset n" "HeadNode_prefix n' = HeadNode_prefix n"
    "HeadNode_covers n' = HeadNode_covers n" "headPageOk n' = headPageOk n"
    "hn_prefixLength n' = hn_prefixLength n" "hn_keyCapacity n' = hn_keyCapacity n"
proof -
  note d = assms [unfolded sameFrame_def]
  show f: "HeadNode_fencesOffset n' = HeadNode_fencesOffset n" using d by (simp add: HeadNode_fencesOffset_def)
  show l: "HeadNode_getLowerFence n' = HeadNode_getLowerFence n" using d by (simp add: HeadNode_getLowerFence_def)
  show u: "HeadNode_getUpperFence n' = HeadNode_getUpperFence n" using d f by (simp add: HeadNode_getUpperFence_def)
  show "HeadNode_prefix n' = HeadNode_prefix n" using d l by (simp add: HeadNode_prefix_def)
  show "HeadNode_covers n' = HeadNode_covers n" using l u by (simp add: HeadNode_covers_def)
  show "headPageOk n' = headPageOk n" using d f l u by (simp add: headPageOk_def)
qed (use assms in \<open>simp_all add: sameFrame_def\<close>)

lemma HeadNode_hint_fields [simp]:
  "hn_count (HeadNode_makeHint n) = hn_count n" "hn_keys (HeadNode_makeHint n) = hn_keys n"
  "hn_children (HeadNode_makeHint n) = hn_children n" "sameFrame n (HeadNode_makeHint n)"
  "hn_count (HeadNode_updateHint i n) = hn_count n" "hn_keys (HeadNode_updateHint i n) = hn_keys n"
  "hn_children (HeadNode_updateHint i n) = hn_children n" "sameFrame n (HeadNode_updateHint i n)"
  by (simp_all add: HeadNode_makeHint_def HeadNode_updateHint_def sameFrame_def Let_def)

lemma HeadNode_validateHint_makeHint: "HeadNode_validateHint (HeadNode_makeHint n)"
  by (simp add: HeadNode_validateHint_def HeadNode_makeHint_def Let_def)

lemma HeadNode_validateHint_updateHint:
  assumes old: "HeadNode_validateHint n" and cnt: "hn_count n' = hn_count n + 1" and hint: "hn_hint n' = hn_hint n"
    and keys: "\<And>j. j < slotId \<Longrightarrow> hn_keys n' j = hn_keys n j"
  shows "HeadNode_validateHint (HeadNode_updateHint slotId n')"
proof -
  define dist where "dist = hn_count n' div (headNodeHintCount + 1)"
  define begin' where "begin' = (if hn_count n' > headNodeHintCount * 2 + 1 \<and>
      (hn_count n' - 1) div (headNodeHintCount + 1) = dist \<and> slotId div dist > 1 then slotId div dist - 1 else 0)"
  have upd: "hn_hint (HeadNode_updateHint slotId n') i =
      (if begin' \<le> i \<and> i < headNodeHintCount then HeadNode_hintOf (hn_keys n' (dist * (i + 1))) else hn_hint n' i)" for i
    by (simp add: HeadNode_updateHint_def Let_def dist_def begin'_def)
  have "hn_hint (HeadNode_updateHint slotId n') i = HeadNode_hintOf (hn_keys n' (dist * (i + 1)))"
    if i: "i < headNodeHintCount" for i
  proof (cases "begin' \<le> i")
    case False
    then have b: "begin' = slotId div dist - 1" "hn_count n > 0" "hn_count n div (headNodeHintCount + 1) = dist"
      "slotId div dist > 1"
      using cnt by (auto simp: begin'_def headNodeHintCount_def split: if_splits)
    from False b have "dist * (i + 1) \<le> dist * (slotId div dist - 1)" by (intro mult_le_mono2) simp
    also have "\<dots> < dist * (slotId div dist)" using b by (cases "dist = 0") auto
    also have "\<dots> \<le> slotId" by simp
    finally have "dist * (i + 1) < slotId" .
    moreover have "hn_hint n i = HeadNode_hintOf (hn_keys n (dist * (i + 1)))"
      using old b i by (simp add: HeadNode_validateHint_def)
    ultimately show ?thesis using False hint keys [of "dist * (i + 1)"] by (simp add: upd)
  qed (use i upd in simp)
  then show ?thesis by (simp add: HeadNode_validateHint_def dist_def)
qed

subsection \<open>Search\<close>

text \<open>The loop never finds its needle, it only looks for the first key that is not smaller: a
  search for a value just below the needle among the doubled keys.\<close>

interpretation head_search: halving_search
  "\<lambda>lo hi. (HeadNode_search n needle lo hi, False)" "\<lambda>i. if needle \<le> hn_keys n i then - 1 else 1" for n needle
  by unfold_locales (simp add: HeadNode_search.simps Let_def)

lemma hintOf_mono:
  assumes "32 \<le> LENGTH('w::len)" "LENGTH('w) mod 8 = 0" "(x :: 'w word) \<le> y"
  shows "HeadNode_hintOf x \<le> HeadNode_hintOf y"
proof -
  have "sizeofT TYPE('w) * 8 = LENGTH('w)" using assms(2) by (simp add: sizeofT_def) presburger
  then have l: "sizeofT TYPE('w) * 8 - 32 + 32 = LENGTH('w)" using assms(1) by simp
  have "unat (HeadNode_hintOf z) = unat z div 2 ^ (sizeofT TYPE('w) * 8 - 32)" for z :: "'w word"
  proof -
    have "unat z < 2 ^ (sizeofT TYPE('w) * 8 - 32) * 2 ^ 32"
      using unsigned_less [where w = z and 'a = nat] by (simp only: power_add [symmetric] l)
    then have "unat z div 2 ^ (sizeofT TYPE('w) * 8 - 32) < 2 ^ 32"
      by (simp add: less_mult_imp_div_less mult.commute)
    then show ?thesis
      unfolding HeadNode_hintOf_def unsigned_ucast_eq unat_drop_bit_eq by (simp add: drop_bit_eq_div take_bit_eq_mod)
  qed
  then show ?thesis using assms(3) by (simp add: word_le_nat_alt div_le_mono)
qed

context head_type
begin

lemma HeadNode_searchHint_brackets:
  assumes inv: "headInv (n :: 'w word HeadNode)" and res: "HeadNode_searchHint n needle 0 (hn_count n) = (lo, hi)"
  shows "lo \<le> hi \<and> hi \<le> hn_count n \<and> (\<forall>j<lo. HeadNode_heads n ! j < needle) \<and>
    (\<forall>j. hi \<le> j \<and> j < hn_count n \<longrightarrow> needle < HeadNode_heads n ! j)"
proof (cases "hn_count n > headNodeHintCount * 2")
  case True
  define dist where "dist = hn_count n div (headNodeHintCount + 1)"
  have cnt: "0 < dist" "(headNodeHintCount + 1) * dist \<le> length (HeadNode_heads n)"
    using True by (auto simp: dist_def headNodeHintCount_def)
  have hint: "hn_hint n p = HeadNode_hintOf (HeadNode_heads n ! (dist * (p + 1)))" if "p < headNodeHintCount" for p
  proof -
    have "dist * (p + 1) \<le> dist * headNodeHintCount" using that by (intro mult_le_mono2) simp
    also have "\<dots> < hn_count n" using cnt by (simp add: headNodeHintCount_def)
    finally show ?thesis using inv True that by (simp add: headInv_def HeadNode_validateHint_def dist_def)
  qed
  from True res have "lo = for_until (\<lambda>p. HeadNode_hintOf needle \<le> hn_hint n p) 0 headNodeHintCount * dist"
    "hi = (let pos2 = for_until (\<lambda>p. hn_hint n p \<noteq> HeadNode_hintOf needle)
         (for_until (\<lambda>p. HeadNode_hintOf needle \<le> hn_hint n p) 0 headNodeHintCount) headNodeHintCount
       in if pos2 < headNodeHintCount then (pos2 + 1) * dist else length (HeadNode_heads n))"
    by (auto simp: HeadNode_searchHint_def dist_def Let_def)
  moreover have "sorted_wrt (<) (HeadNode_heads n)" using inv by (simp add: headInv_def)
  moreover have "HeadNode_hintOf x \<le> HeadNode_hintOf y" if "x \<le> y" for x y :: "'w word"
    by (rule hintOf_mono [OF _ _ that]) (use width size in simp_all)
  ultimately show ?thesis
    using hint_brackets [OF _ _ cnt, of HeadNode_hintOf "hn_hint n"] hint unfolding length_heads by blast
qed (use res in \<open>auto simp: HeadNode_searchHint_def Let_def\<close>)

lemma HeadNode_lowerBound_correct:
  assumes inv: "headInv (n :: 'w word HeadNode)"
  shows "is_lower_bound (HeadNode_heads n) needle (HeadNode_lowerBound n needle)"
proof -
  obtain lo hi where lh: "HeadNode_searchHint n needle 0 (hn_count n) = (lo, hi)" by fastforce
  note br = HeadNode_searchHint_brackets [OF inv lh]
  let ?ks = "map (\<lambda>k. 2 * uint k) (HeadNode_heads n)" and ?k = "2 * uint needle - 1"
  have below: "?ks ! j < ?k \<longleftrightarrow> HeadNode_heads n ! j < needle" if "j < hn_count n" for j
    using that by (simp add: word_less_def) presburger
  have above: "?k \<le> ?ks ! j \<longleftrightarrow> needle \<le> HeadNode_heads n ! j" if "j < hn_count n" for j
    using that by (simp add: word_le_def) presburger
  have "is_lower_bound ?ks ?k (fst (HeadNode_search n needle lo hi, False))"
  proof (rule conjunct1, rule head_search.search_result)
    fix i assume i: "i < length ?ks"
    have "?k < ?ks ! i \<longleftrightarrow> needle \<le> hn_keys n i" using i by (simp add: word_le_def) presburger
    moreover have "?ks ! i < ?k \<longleftrightarrow> hn_keys n i < needle" using i by (simp add: word_less_def) presburger
    ultimately show "((if needle \<le> hn_keys n i then - 1 else 1 :: int) < 0) = (?k < ?ks ! i) \<and>
        (0 < (if needle \<le> hn_keys n i then - 1 else 1 :: int)) = (?ks ! i < ?k)" by auto
  next
    show "sorted_wrt (<) ?ks"
      using inv by (auto simp: headInv_def sorted_wrt_map word_less_def [abs_def])
    show "\<forall>j<lo. ?ks ! j < ?k" using br below by auto
    show "\<forall>j. hi \<le> j \<and> j < length ?ks \<longrightarrow> ?k \<le> ?ks ! j" using br above by (auto intro: less_imp_le)
  qed (use br in simp_all)
  then show ?thesis
    using below above lh by (auto simp: is_lower_bound_def HeadNode_lowerBound_def)
qed

subsection \<open>Separators\<close>

lemma isSepHead_iff: "isSepHead (k :: 'w word) \<longleftrightarrow> (\<exists>a. length a < sizeofT TYPE('w) \<and> k = makeNeedleHead a)"
  using sepOf_sepHead(1) by (auto simp: isSepHead_def makeSepHead_eq split: if_splits)

lemma isSepHeadE:
  assumes "isSepHead (k :: 'w word)"
  shows "length (sepOf k) < sizeofT TYPE('w)" "makeNeedleHead (sepOf k) = k" "unat k mod 256 = length (sepOf k)"
  using assms sepOf_sepHead by (auto simp: isSepHead_iff)

lemma sepHead_order:
  assumes "isSepHead (k :: 'w word)"
  shows "k < makeNeedleHead b \<longleftrightarrow> sepOf k < b" "makeNeedleHead b < k \<longleftrightarrow> b < sepOf k"
    "makeNeedleHead b \<le> k \<longleftrightarrow> b \<le> sepOf k"
  using makeNeedleHead_order [OF isSepHeadE(1) [OF assms], of b] by (simp_all add: isSepHeadE(2) [OF assms] not_less [symmetric])

lemma sorted_HeadNode_seps:
  assumes "\<forall>k \<in> set (HeadNode_heads n). isSepHead k"
  shows "sorted_wrt (<) (HeadNode_seps n) \<longleftrightarrow> sorted_wrt (<) (HeadNode_heads (n :: 'w word HeadNode))"
proof -
  have "sepOf x < sepOf y \<longleftrightarrow> x < y" if "x \<in> set (HeadNode_heads n)" "y \<in> set (HeadNode_heads n)" for x y
    using assms that sepHead_order(1) [of x "sepOf y"] isSepHeadE(2) [of y] by simp
  then show ?thesis
    using sorted_wrt_mono_rel [of "HeadNode_heads n" "(<)" "\<lambda>x y. sepOf x < sepOf y"]
      sorted_wrt_mono_rel [of "HeadNode_heads n" "\<lambda>x y. sepOf x < sepOf y" "(<)"]
    by (simp add: HeadNode_seps_def sorted_wrt_map) blast
qed

lemma HeadNode_covers_prefix:
  assumes "headPageOk (n :: 'w word HeadNode)" "HeadNode_covers n key"
  shows "HeadNode_prefix n @ drop (hn_prefixLength n) key = key" "hn_prefixLength n \<le> length key"
    "length (HeadNode_prefix n) = hn_prefixLength n"
proof -
  have pl: "hn_prefixLength n = lcp (HeadNode_getLowerFence n) (HeadNode_getUpperFence n)"
    using assms(1) by (simp add: headPageOk_def)
  note p = inFences_prefix [OF assms(2) [unfolded HeadNode_covers_def], folded pl]
  have "HeadNode_prefix n = take (hn_prefixLength n) key" using p(2) by (simp add: HeadNode_prefix_def)
  then show "HeadNode_prefix n @ drop (hn_prefixLength n) key = key" "hn_prefixLength n \<le> length key"
    "length (HeadNode_prefix n) = hn_prefixLength n" using p(1) by simp_all
qed

text \<open>The child of a key is the one before the first separator that is not smaller.\<close>

lemma HeadNode_seps_bound:
  assumes inv: "headInv (n :: 'w word HeadNode)" and cov: "HeadNode_covers n key"
  shows "is_lower_bound (HeadNode_seps n) key i \<longleftrightarrow>
    is_lower_bound (HeadNode_heads n) (makeNeedleHead (drop (hn_prefixLength n) key)) i"
proof -
  let ?k = "drop (hn_prefixLength n) key"
  have sep: "isSepHead (hn_keys n j)" if "j < hn_count n" for j
    using inv that heads_mem by (auto simp: headInv_def)
  have key: "HeadNode_prefix n @ ?k = key"
    using inv cov HeadNode_covers_prefix(1) by (simp add: headInv_def)
  have "HeadNode_seps n ! j < key \<longleftrightarrow> hn_keys n j < makeNeedleHead ?k"
    "key \<le> HeadNode_seps n ! j \<longleftrightarrow> makeNeedleHead ?k \<le> hn_keys n j" if "j < hn_count n" for j
    using less_append_same [of "HeadNode_prefix n" "sepOf (hn_keys n j)" ?k]
      le_append_same [of "HeadNode_prefix n" ?k "sepOf (hn_keys n j)"] sepHead_order [OF sep [OF that], of ?k] that
    by (simp_all add: key HeadNode_seps_def del: less_append_same le_append_same)
  then show ?thesis by (auto simp: is_lower_bound_def)
qed

lemma HeadNode_lookupInnerIndex_correct:
  assumes "headInv (n :: 'w word HeadNode)" "HeadNode_covers n key"
  shows "is_lower_bound (HeadNode_seps n) key (HeadNode_lookupInnerIndex n key)"
  using assms HeadNode_lowerBound_correct by (simp add: HeadNode_seps_bound HeadNode_lookupInnerIndex_def)

end

end
