(* ===== verification/HeadNodeOps.thy ===== *)
theory HeadNodeOps
  imports HeadNodeProps
begin

text \<open>
  Updates of a head node: a child is inserted with its separator or removed, and a full page is split;
  each is the operation of the same name on the lists of separators and children.
\<close>

subsection \<open>Bounds\<close>

lemma HeadNode_fencesOffset_eq:
  assumes "headPageOk (n :: 'w::len word HeadNode)"
  shows "HeadNode_fencesOffset n = 4096 - hn_lowerFenceLen n - hn_upperFenceLen n"
proof -
  have le: "hn_lowerFenceLen n + hn_upperFenceLen n \<le> 4096" using assms by (simp add: headPageOk_def pageSizeInner_def)
  then have "hn_upperFenceLen n \<le> 4096 - hn_lowerFenceLen n" "hn_lowerFenceLen n \<le> 4096" by linarith+
  then show ?thesis by (simp add: HeadNode_fencesOffset_def pageSizeInner_def c_arith)
qed

lemma headKeyCapacity_eq:
  assumes "paddedHeadSize s + sizeof_ptr \<le> fo" "fo \<le> 4096"
  shows "headKeyCapacity s fo = (fo - paddedHeadSize s - 8) div (s + 8)"
  using assms by (simp add: headKeyCapacity_def sizeof_ptr_def c_arith)

lemma keyCapacity_less:
  assumes "headPageOk (n :: 'w::len word HeadNode)"
  shows "hn_keyCapacity n < 4096"
proof -
  have "paddedHeadSize (sizeofT TYPE('w)) + sizeof_ptr \<le> HeadNode_fencesOffset n" "HeadNode_fencesOffset n \<le> 4096"
    using assms unfolding HeadNode_fencesOffset_eq [OF assms] headPageOk_def pageSizeInner_def by linarith+
  then have "hn_keyCapacity n = (HeadNode_fencesOffset n - paddedHeadSize (sizeofT TYPE('w)) - 8) div (sizeofT TYPE('w) + 8)"
    using assms by (simp add: headPageOk_def headKeyCapacity_eq)
  also have "\<dots> \<le> HeadNode_fencesOffset n - paddedHeadSize (sizeofT TYPE('w)) - 8" by (rule div_le_dividend)
  also have "\<dots> < 4096" using \<open>HeadNode_fencesOffset n \<le> 4096\<close> by simp
  finally show ?thesis .
qed

lemma headInv_intro:
  assumes "sameFrame n n'" "headInv n" "hn_count n' \<le> hn_keyCapacity n" "\<forall>k \<in> set (HeadNode_heads n'). isSepHead k"
    and "sorted_wrt (<) (HeadNode_heads n')" "HeadNode_validateHint n'" "\<forall>s \<in> set (HeadNode_seps n'). HeadNode_covers n s"
  shows "headInv n'"
  using assms sameFrame_facts [OF assms(1)] by (simp add: headInv_def)

subsection \<open>Insert and remove\<close>

context head_type
begin

lemma HeadNode_insertChild_correct:
  assumes inv: "headInv (n :: 'w word HeadNode)" and cov: "HeadNode_covers n sep" and new: "sep \<notin> set (HeadNode_seps n)"
    and len: "length sep < hn_prefixLength n + sizeofT TYPE('w)" and room: "hn_count n < hn_keyCapacity n"
    and lb: "is_lower_bound (HeadNode_seps n) sep i"
  obtains n' where "HeadNode_insertChild sep child n = Some n'" "headInv n'" "sameFrame n n'"
    "HeadNode_seps n' = take i (HeadNode_seps n) @ sep # drop i (HeadNode_seps n)"
    "HeadNode_kids n' = take i (HeadNode_kids n) @ child # drop i (HeadNode_kids n)" "hn_count n' = Suc (hn_count n)"
proof -
  let ?k = "drop (hn_prefixLength n) sep"
  define h where "h = (makeNeedleHead ?k :: 'w word)"
  have ok: "headPageOk n" using inv by (simp add: headInv_def)
  note pre = HeadNode_covers_prefix [OF ok cov]
  have k: "length ?k < sizeofT TYPE('w)" using len pre(2) by simp
  then have h: "makeSepHead ?k = Some h" "sepOf h = ?k"
    using sepOf_sepHead(1) [OF k] by (simp_all add: makeSepHead_eq h_def)
  have sh: "isSepHead h" unfolding isSepHead_iff h_def using k by blast
  have lbh: "is_lower_bound (HeadNode_heads n) h i" using lb HeadNode_seps_bound [OF inv cov] by (simp add: h_def)
  have index: "HeadNode_lowerBound n h = i" by (rule is_lower_bound_unique [OF HeadNode_lowerBound_correct [OF inv] lbh])
  have i: "i \<le> hn_count n" using lb by (simp add: is_lower_bound_def)
  have "hn_keyCapacity n < 4096" by (rule keyCapacity_less [OF ok])
  then have cnt: "add16 (hn_count n) (Suc 0) = Suc (hn_count n)" using room by (simp add: add16_def)
  define n1 where "n1 = HeadNode_insertAt i h child n"
  define n' where "n' = HeadNode_updateHint i n1"
  have f1: "hn_count n1 = Suc (hn_count n)" "sameFrame n n1" "hn_hint n1 = hn_hint n"
    by (simp_all add: n1_def HeadNode_insertAt_def sameFrame_def cnt)
  have f: "hn_count n' = Suc (hn_count n)" "sameFrame n n'"
    using f1 HeadNode_hint_fields(8) [of n1 i] by (auto simp: n'_def sameFrame_def)
  have heads: "HeadNode_heads n' = take i (HeadNode_heads n) @ h # drop i (HeadNode_heads n)"
    using memmove_insert [OF i, of "hn_keys n" h]
    by (simp add: HeadNode_heads_def f(1)) (simp add: n'_def n1_def HeadNode_insertAt_def del: upt_Suc)
  have seps: "HeadNode_seps n' = take i (HeadNode_seps n) @ sep # drop i (HeadNode_seps n)"
    using pre(1) sameFrame_facts(4) [OF f(2)] by (simp add: HeadNode_seps_def heads take_map drop_map h(2))
  have kids: "HeadNode_kids n' = take i (HeadNode_kids n) @ child # drop i (HeadNode_kids n)"
    using memmove_insert [of i "Suc (hn_count n)" "hn_children n" child] i
    by (simp add: HeadNode_kids_def f(1) del: upt_Suc) (simp add: n'_def n1_def HeadNode_insertAt_def del: upt_Suc)
  have "HeadNode_validateHint n'"
    unfolding n'_def
    by (rule HeadNode_validateHint_updateHint [of n])
      (use inv f1 in \<open>auto simp: headInv_def n1_def HeadNode_insertAt_def memmove_array_def\<close>)
  moreover have "sorted_wrt (<) (HeadNode_heads n')"
  proof -
    have "h \<notin> set (HeadNode_heads n)" using new pre(1) h(2) by (force simp: HeadNode_seps_def)
    then show ?thesis unfolding heads by (intro sorted_wrt_insert_at [OF _ lbh]) (use inv in \<open>simp_all add: headInv_def\<close>)
  qed
  moreover have "\<forall>k \<in> set (HeadNode_heads n'). isSepHead k" "\<forall>s \<in> set (HeadNode_seps n'). HeadNode_covers n s"
    using inv sh cov unfolding heads seps headInv_def by (auto dest: in_set_takeD in_set_dropD)
  ultimately have "headInv n'" using room f by (intro headInv_intro [OF f(2) inv]) simp_all
  moreover have "HeadNode_insertChild sep child n = Some n'"
    by (simp add: HeadNode_insertChild_def h(1) index n'_def n1_def Let_def)
  ultimately show thesis using that f seps kids by blast
qed

lemma HeadNode_removeSlot_correct:
  assumes inv: "headInv (n :: 'w word HeadNode)" and i: "i < hn_count n"
  defines "n' \<equiv> HeadNode_removeSlot i n"
  shows "headInv n'" "sameFrame n n'" "HeadNode_seps n' = take i (HeadNode_seps n) @ drop (Suc i) (HeadNode_seps n)"
    "HeadNode_kids n' = take i (HeadNode_kids n) @ drop (Suc i) (HeadNode_kids n)" "Suc (hn_count n') = hn_count n"
proof -
  have ok: "headPageOk n" "hn_count n \<le> hn_keyCapacity n" using inv by (simp_all add: headInv_def)
  have cnt: "sub16 (hn_count n) (Suc 0) = hn_count n - 1" using ok(2) keyCapacity_less [OF ok(1)] i by (subst sub16_eq) simp_all
  then have c: "hn_count n' = hn_count n - 1" by (simp add: n'_def HeadNode_removeSlot_def)
  with i show "Suc (hn_count n') = hn_count n" by simp
  show fr: "sameFrame n n'" by (simp add: n'_def HeadNode_removeSlot_def HeadNode_makeHint_def sameFrame_def Let_def)
  have heads: "HeadNode_heads n' = take i (HeadNode_heads n) @ drop (Suc i) (HeadNode_heads n)"
    using memmove_remove [OF i, of "hn_keys n"] by (simp add: HeadNode_heads_def c) (simp add: n'_def HeadNode_removeSlot_def)
  show seps: "HeadNode_seps n' = take i (HeadNode_seps n) @ drop (Suc i) (HeadNode_seps n)"
    using sameFrame_facts(4) [OF fr] by (simp add: HeadNode_seps_def heads take_map drop_map)
  have "Suc (hn_count n') = Suc (hn_count n) - 1" using c i by simp
  then show "HeadNode_kids n' = take i (HeadNode_kids n) @ drop (Suc i) (HeadNode_kids n)"
    using memmove_remove [of i "Suc (hn_count n)" "hn_children n"] i
    by (simp add: HeadNode_kids_def del: upt_Suc) (simp add: n'_def HeadNode_removeSlot_def)
  have "HeadNode_validateHint n'" by (simp add: n'_def HeadNode_removeSlot_def HeadNode_validateHint_makeHint)
  moreover have "sorted_wrt (<) (HeadNode_heads n')"
    using inv sorted_wrt_append [of "(<)" "take i (HeadNode_heads n)" "drop i (HeadNode_heads n)"] unfolding heads headInv_def
    by (auto simp: sorted_wrt_append sorted_wrt_drop dest: set_drop_subset_set_drop [of i "Suc i", THEN subsetD, rotated])
  moreover have "\<forall>k \<in> set (HeadNode_heads n'). isSepHead k" "\<forall>s \<in> set (HeadNode_seps n'). HeadNode_covers n s"
    using inv unfolding heads seps headInv_def by (auto dest: in_set_takeD in_set_dropD)
  ultimately show "headInv n'" using ok(2) c by (intro headInv_intro [OF fr inv]) simp_all
qed

end

subsection \<open>A fresh page\<close>

text \<open>The number of keys a page with the given fences has room for.\<close>

definition capacityOf :: "nat \<Rightarrow> bytes \<Rightarrow> bytes \<Rightarrow> nat" where
  "capacityOf szT lo up = headKeyCapacity szT (4096 - length lo - length up)"

definition fenceFit :: "nat \<Rightarrow> bytes \<Rightarrow> bytes \<Rightarrow> bool" where
  "fenceFit szT lo up \<longleftrightarrow> paddedHeadSize szT + sizeof_ptr + length lo + length up \<le> 4096"

lemma HeadNode_init_facts:
  assumes fit: "fenceFit (sizeofT TYPE('w::len)) lo up"
  defines "n \<equiv> (HeadNode_init lo up TmpHeadNode :: 'w word HeadNode)"
  shows "headPageOk n" "HeadNode_getLowerFence n = lo" "HeadNode_getUpperFence n = up" "hn_count n = 0"
    "hn_prefixLength n = lcp lo up" "hn_keyCapacity n = capacityOf (sizeofT TYPE('w)) lo up"
proof -
  have le: "length lo + length up \<le> 4096" "length lo \<le> 4096" "length up \<le> 4096 - length lo" "length up \<le> 4096"
    using fit by (auto simp: fenceFit_def)
  have fo: "sub32 (sub32 4096 (length lo)) (length up) = 4096 - length lo - length up" using le by (simp add: c_arith)
  have cap: "u16 (capacityOf (sizeofT TYPE('w)) lo up) = capacityOf (sizeofT TYPE('w)) lo up"
  proof -
    have "capacityOf (sizeofT TYPE('w)) lo up \<le> 4096"
      unfolding capacityOf_def
      by (subst headKeyCapacity_eq) (use fit in \<open>auto simp: fenceFit_def intro: div_le_dividend [THEN order_trans]\<close>)
    then show ?thesis by (simp add: c_arith)
  qed
  have lens: "u16 (length lo) = length lo" "u16 (length up) = length up" using le by (simp_all add: c_arith)
  define m where "m = (TmpHeadNode :: 'w word HeadNode)\<lparr>hn_count := 0, hn_lowerFenceLen := length lo,
     hn_upperFenceLen := length up, hn_keyCapacity := capacityOf (sizeofT TYPE('w)) lo up,
     hn_heap := store (store (hn_heap (TmpHeadNode :: 'w word HeadNode)) (4096 - length lo) lo) (4096 - length lo - length up) up\<rparr>"
  have n: "n = HeadNode_updatePrefixLength m"
    by (simp add: n_def HeadNode_init_def m_def HeadNode_fencesOffset_def pageSizeInner_def lens fo capacityOf_def
        cap [unfolded capacityOf_def diff_diff_left])
  have mo: "HeadNode_fencesOffset m = 4096 - length lo - length up"
    by (simp add: HeadNode_fencesOffset_def m_def pageSizeInner_def fo)
  have ml: "HeadNode_getLowerFence m = lo" "HeadNode_getUpperFence m = up"
    using le by (simp_all add: HeadNode_getLowerFence_def HeadNode_getUpperFence_def mo)
      (simp_all add: m_def pageSizeInner_def load_store_other load_store_same)
  have upd: "n = m\<lparr>hn_prefixLength := lcp lo up\<rparr>"
    using for_until_lcp [of lo up] by (simp add: n HeadNode_updatePrefixLength_def ml) (simp add: m_def)
  have no: "HeadNode_fencesOffset n = HeadNode_fencesOffset m" by (simp add: upd HeadNode_fencesOffset_def)
  show nl: "HeadNode_getLowerFence n = lo" "HeadNode_getUpperFence n = up"
    using ml no by (simp_all add: HeadNode_getLowerFence_def HeadNode_getUpperFence_def upd)
  show nf: "hn_count n = 0" "hn_prefixLength n = lcp lo up" "hn_keyCapacity n = capacityOf (sizeofT TYPE('w)) lo up"
    by (simp_all add: upd m_def)
  have "hn_lowerFenceLen n = length lo" "hn_upperFenceLen n = length up" by (simp_all add: upd m_def)
  then show "headPageOk n"
    using fit by (simp add: headPageOk_def nl nf no mo capacityOf_def fenceFit_def pageSizeInner_def)
qed

lemma headPageOk_fit:
  assumes "headPageOk (n :: 'w::len word HeadNode)"
  shows "fenceFit (sizeofT TYPE('w)) (HeadNode_getLowerFence n) (HeadNode_getUpperFence n)"
    "hn_keyCapacity n = capacityOf (sizeofT TYPE('w)) (HeadNode_getLowerFence n) (HeadNode_getUpperFence n)"
  using assms HeadNode_fencesOffset_eq [OF assms]
  by (simp_all add: headPageOk_def fenceFit_def capacityOf_def pageSizeInner_def HeadNode_getLowerFence_def
      HeadNode_getUpperFence_def)

subsection \<open>Split\<close>

lemma and_not_255: "and x (not 255) = (word_of_nat (unat x div 256 * 256) :: 'w::len word)"
proof (rule bit_word_eqI)
  fix i assume i: "i < LENGTH('w)"
  have "(255 :: 'w word) = mask 8" by (simp add: mask_eq_exp_minus_1)
  then have m: "bit (255 :: 'w word) i \<longleftrightarrow> i < 8" using i by (metis bit_mask_iff possible_bit_word)
  have "unat x div 256 * 256 = push_bit 8 (drop_bit 8 (unat x))" by (simp add: push_bit_eq_mult drop_bit_eq_div)
  then show "bit (and x (not 255)) i = bit (word_of_nat (unat x div 256 * 256) :: 'w word) i"
    using i m by (cases "i < 8") (simp_all add: bit_simps)
qed

lemma or_low_byte:
  assumes "l < 256"
  shows "or (word_of_nat (a * 256)) (word_of_nat l) = (word_of_nat (a * 256 + l) :: 'w::len word)"
proof -
  have "\<not> bit (word_of_nat (a * 256) :: 'w word) i \<or> \<not> bit (word_of_nat l :: 'w word) i" for i
  proof (cases "i < 8")
    case True
    have "a * 256 = push_bit 8 a" by (simp add: push_bit_eq_mult)
    then show ?thesis using True by (simp add: bit_simps)
  next
    case False
    have "l = take_bit 8 l" using assms by (simp add: take_bit_eq_mod)
    then have "\<not> bit l i" using False by (metis bit_take_bit_iff)
    then show ?thesis by (simp add: bit_simps)
  qed
  then have "or (word_of_nat (a * 256)) (word_of_nat l) = word_of_nat (a * 256) + (word_of_nat l :: 'w word)"
    by (rule disjunctive_add [symmetric])
  then show ?thesis by simp
qed

context head_type
begin

text \<open>Dropping the first bytes of a separator in its integer.\<close>

lemma shift_sepHead:
  assumes "isSepHead (k :: 'w word)" "d \<le> length (sepOf k)"
  shows "or (push_bit (d * 8) (and k (not 255))) (word_of_nat (length (sepOf k) - d)) = makeNeedleHead (drop d (sepOf k))"
proof -
  obtain m where m: "sizeofT TYPE('w) = Suc m" using size by (cases "sizeofT TYPE('w)") auto
  let ?a = "sepOf k"
  note a = isSepHeadE [OF assms(1)]
  have la: "length ?a \<le> m" "length ?a < 256" using a(1) size m by simp_all
  have k: "unat k = be_pad m ?a * 256 + length ?a" using unat_sepHead [OF a(1)] a(2) m by simp
  then have hi: "unat k div 256 * 256 = be_pad m ?a * 256" using la(2) by simp
  have "push_bit (d * 8) (and k (not 255)) = (word_of_nat (be_pad m ?a * 256 ^ d * 256) :: 'w word)"
  proof -
    have "(2 :: nat) ^ (d * 8) = 256 ^ d" by (simp add: power_mult mult.commute [of d 8])
    then have "be_pad m ?a * 256 * 2 ^ (d * 8) = be_pad m ?a * 256 ^ d * 256" by simp
    then show ?thesis unfolding and_not_255 hi push_bit_of_nat by (simp only:)
  qed
  also have "\<dots> = word_of_nat (be_pad m (drop d ?a) * 256)"
  proof -
    have "be_pad m ?a * 256 ^ d * 256 mod 256 ^ Suc m = (be_pad m ?a * 256 ^ d mod 256 ^ m) * 256"
      by (simp add: mult.commute [of _ 256] mod_mult_mult1)
    also have "\<dots> = be_pad m (drop d ?a) * 256" by (simp only: be_pad_shift [OF la(1)])
    finally have "be_pad m ?a * 256 ^ d * 256 mod 2 ^ LENGTH('w) = be_pad m (drop d ?a) * 256"
      using width m by (simp only: power_mult) simp
    then show ?thesis unfolding word_of_nat_eq_iff take_bit_eq_mod by (metis mod_mod_trivial)
  qed
  finally have "or (push_bit (d * 8) (and k (not 255))) (word_of_nat (length ?a - d)) =
      (word_of_nat (be_pad m (drop d ?a) * 256 + length (drop d ?a)) :: 'w word)"
    using or_low_byte [of "length ?a - d" "be_pad m (drop d ?a)", OF less_imp_diff_less [OF la(2)]] by (simp only: length_drop)
  moreover have "unat (makeNeedleHead (drop d ?a) :: 'w word) = be_pad m (drop d ?a) * 256 + length (drop d ?a)"
    using unat_sepHead [of "drop d ?a"] a(1) m by simp
  ultimately show ?thesis by (metis of_nat_unat ucast_id)
qed

text \<open>Copying a range of keys and children into a fresh page, whose prefix can be longer.\<close>

lemma HeadNode_copyKeyValueRange_correct:
  assumes src: "headInv (src :: 'w word HeadNode)" and dst: "headPageOk dst" "hn_count dst = 0"
    and range: "s + cnt \<le> hn_count src" and pl: "hn_prefixLength src \<le> hn_prefixLength dst"
    and cov: "\<forall>k \<in> set (take cnt (drop s (HeadNode_seps src))). HeadNode_covers dst k"
  obtains n where "HeadNode_copyKeyValueRange src 0 s cnt dst = Some n" "sameFrame dst n" "hn_count n = cnt"
    "HeadNode_seps n = take cnt (drop s (HeadNode_seps src))" "\<forall>k \<in> set (HeadNode_heads n). isSepHead k"
    "\<forall>i < cnt. hn_children n i = hn_children src (s + i)"
proof -
  let ?d = "hn_prefixLength dst - hn_prefixLength src"
  define newKey where "newKey = (\<lambda>i. if ?d = 0 then hn_keys src i
    else or (push_bit (?d * 8) (and (hn_keys src i) (not 255))) (word_of_nat (sub32 (HeadNode_getKeyLength src i) ?d)))"
  have ok: "headPageOk src" "hn_count src \<le> hn_keyCapacity src" using src by (simp_all add: headInv_def)
  have key: "isSepHead (newKey (s + i))" "HeadNode_prefix dst @ sepOf (newKey (s + i)) = HeadNode_seps src ! (s + i)"
    if i: "i < cnt" for i
  proof -
    let ?k = "hn_keys src (s + i)" and ?sep = "HeadNode_seps src ! (s + i)"
    have k: "isSepHead ?k" using src range i heads_mem [of "s + i" src] by (simp add: headInv_def)
    have sep: "?sep = HeadNode_prefix src @ sepOf ?k" using range i by (simp add: HeadNode_seps_def)
    have "?sep \<in> set (HeadNode_seps src)" using range i by simp
    then have lp: "length (HeadNode_prefix src) = hn_prefixLength src"
      using src ok HeadNode_covers_prefix(3) by (auto simp: headInv_def)
    have "?sep \<in> set (take cnt (drop s (HeadNode_seps src)))"
      using i range by (auto simp: in_set_conv_nth intro!: exI [of _ i])
    then have "HeadNode_covers dst ?sep" using cov by blast
    note pre = HeadNode_covers_prefix [OF dst(1) this]
    have dl: "?d \<le> length (sepOf ?k)" using pre(2) lp by (simp add: sep)
    have len: "HeadNode_getKeyLength src (s + i) = length (sepOf ?k)"
      using isSepHeadE(3) [OF k] by (simp add: HeadNode_getKeyLength_def)
    have "length (sepOf ?k) < 256" using isSepHeadE(1) [OF k] size by simp
    then have sub: "sub32 (length (sepOf ?k)) ?d = length (sepOf ?k) - ?d" using dl by (simp add: c_arith)
    have new: "newKey (s + i) = makeNeedleHead (drop ?d (sepOf ?k))"
    proof (cases "?d = 0")
      case False
      then show ?thesis unfolding newKey_def len sub using shift_sepHead [OF k dl] by (simp only: if_False)
    qed (simp add: newKey_def isSepHeadE(2) [OF k])
    have short: "length (drop ?d (sepOf ?k)) < sizeofT TYPE('w)" using isSepHeadE(1) [OF k] by simp
    then show "isSepHead (newKey (s + i))" using new isSepHead_iff by blast
    have "drop (hn_prefixLength dst) ?sep = drop ?d (sepOf ?k)" using pl lp by (simp add: sep)
    then show "HeadNode_prefix dst @ sepOf (newKey (s + i)) = ?sep"
      using pre(1) sepOf_sepHead(1) [OF short] by (simp add: new)
  qed
  define n where "n = dst\<lparr>hn_keys := (\<lambda>i. if 0 \<le> i \<and> i < 0 + cnt then newKey (s + (i - 0)) else hn_keys dst i),
     hn_children := (\<lambda>i. if 0 \<le> i \<and> i < 0 + cnt then hn_children src (s + (i - 0)) else hn_children dst i),
     hn_count := add16 (hn_count dst) cnt\<rparr>"
  have "add16 (hn_count dst) cnt = cnt" using dst(2) range ok keyCapacity_less [OF ok(1)] by (simp add: add16_def)
  then have f: "hn_count n = cnt" "sameFrame dst n" "\<forall>i < cnt. hn_keys n i = newKey (s + i)"
    "\<forall>i < cnt. hn_children n i = hn_children src (s + i)"
    by (simp_all add: n_def sameFrame_def)
  have "HeadNode_copyKeyValueRange src 0 s cnt dst = Some n"
    using pl unfolding HeadNode_copyKeyValueRange_def n_def newKey_def Let_def by (simp only: if_True)
  moreover have "HeadNode_seps n = take cnt (drop s (HeadNode_seps src))"
  proof (rule nth_equalityI)
    fix i assume "i < length (HeadNode_seps n)"
    then have i: "i < cnt" using f by simp
    then have "HeadNode_seps n ! i = HeadNode_prefix dst @ sepOf (newKey (s + i))"
      using f sameFrame_facts(4) [OF f(2)] by (simp add: HeadNode_seps_def)
    then show "HeadNode_seps n ! i = take cnt (drop s (HeadNode_seps src)) ! i"
      using i range key(2) [OF i] by simp
  qed (use f range in simp)
  moreover have "\<forall>k \<in> set (HeadNode_heads n). isSepHead k"
    using f key(1) by (auto simp: HeadNode_heads_def)
  ultimately show thesis using that f by blast
qed

lemma headInv_makeHint:
  assumes "headPageOk n" "hn_count n \<le> hn_keyCapacity n" "\<forall>k \<in> set (HeadNode_heads n). isSepHead k"
    and "sorted_wrt (<) (HeadNode_seps n)" "\<forall>s \<in> set (HeadNode_seps n). HeadNode_covers (n :: 'w word HeadNode) s"
  defines "n' \<equiv> HeadNode_makeHint n"
  shows "headInv n'" "HeadNode_seps n' = HeadNode_seps n" "HeadNode_kids n' = HeadNode_kids n"
proof -
  have fr: "sameFrame n n'" and h: "HeadNode_heads n' = HeadNode_heads n" by (simp_all add: n'_def HeadNode_heads_def)
  note s = sameFrame_facts [OF fr]
  show seps: "HeadNode_seps n' = HeadNode_seps n" by (simp add: HeadNode_seps_def h s)
  show "HeadNode_kids n' = HeadNode_kids n" by (simp add: HeadNode_kids_def n'_def)
  show "headInv n'" using assms(1-5) sorted_HeadNode_seps [OF assms(3)]
    by (simp add: headInv_def h s seps) (simp add: n'_def HeadNode_validateHint_makeHint)
qed

text \<open>The halves of a page around the separator \<open>s\<close>.\<close>

lemma HeadNode_splitPages_correct:
  assumes inv: "headInv (n :: 'w word HeadNode)" and s: "s < hn_count n"
  defines "lo \<equiv> HeadNode_getLowerFence n" and "up \<equiv> HeadNode_getUpperFence n" and "sep \<equiv> HeadNode_seps n ! s"
  assumes sep0: "sep \<noteq> []" and fits: "fenceFit (sizeofT TYPE('w)) lo sep" "fenceFit (sizeofT TYPE('w)) sep up"
    and room: "s \<le> capacityOf (sizeofT TYPE('w)) lo sep" "hn_count n - Suc s \<le> capacityOf (sizeofT TYPE('w)) sep up"
  obtains l r where "HeadNode_splitPages n s sep = Some (l, r)" "headInv l" "headInv r"
    "HeadNode_getLowerFence l = lo" "HeadNode_getUpperFence l = sep" "HeadNode_getLowerFence r = sep"
    "HeadNode_getUpperFence r = up" "HeadNode_seps l = take s (HeadNode_seps n)" "HeadNode_seps r = drop (Suc s) (HeadNode_seps n)"
    "HeadNode_kids l = take (Suc s) (HeadNode_kids n)" "HeadNode_kids r = drop (Suc s) (HeadNode_kids n)"
proof -
  let ?L = "HeadNode_init lo sep TmpHeadNode :: 'w word HeadNode"
  let ?R = "HeadNode_init sep up TmpHeadNode :: 'w word HeadNode"
  note il = HeadNode_init_facts [OF fits(1)] and ir = HeadNode_init_facts [OF fits(2)]
  have ok: "headPageOk n" and heads: "\<forall>k \<in> set (HeadNode_heads n). isSepHead k" using inv by (simp_all add: headInv_def)
  have sorted: "sorted_wrt (<) (HeadNode_seps n)" using inv sorted_HeadNode_seps [OF heads] by (simp add: headInv_def)
  have cov: "inFences lo up k" if "k \<in> set (HeadNode_seps n)" for k
    using inv that by (simp add: headInv_def HeadNode_covers_def lo_def up_def)
  have sepf: "inFences lo up sep" by (rule cov) (use s in \<open>simp add: sep_def\<close>)
  have pl: "hn_prefixLength n = lcp lo up" using ok by (simp add: headPageOk_def lo_def up_def)
  have split: "HeadNode_seps n = take s (HeadNode_seps n) @ sep # drop (Suc s) (HeadNode_seps n)"
    using s by (simp add: sep_def id_take_nth_drop [symmetric])
  have less: "\<forall>k \<in> set (take s (HeadNode_seps n)). k < sep" "\<forall>k \<in> set (drop (Suc s) (HeadNode_seps n)). sep < k"
    and sub: "sorted_wrt (<) (take s (HeadNode_seps n))" "sorted_wrt (<) (drop (Suc s) (HeadNode_seps n))"
    using sorted by (subst (asm) split, simp add: sorted_wrt_append)+
  have covL: "\<forall>k \<in> set (take s (HeadNode_seps n)). HeadNode_covers ?L k"
    using cov less(1) sep0 by (auto simp: HeadNode_covers_def il inFences_def less_imp_le dest: in_set_takeD)
  have covR: "\<forall>k \<in> set (drop (Suc s) (HeadNode_seps n)). HeadNode_covers ?R k"
    using cov less(2) by (auto simp: HeadNode_covers_def ir inFences_def dest: in_set_dropD)
  have "hn_prefixLength n \<le> hn_prefixLength ?L" using lcp_inside(1) [OF sepf] by (simp add: pl il)
  then obtain l where l: "HeadNode_copyKeyValueRange n 0 0 s ?L = Some l" "sameFrame ?L l" "hn_count l = s"
    "HeadNode_seps l = take s (HeadNode_seps n)" "\<forall>k \<in> set (HeadNode_heads l). isSepHead k"
    "\<forall>i < s. hn_children l i = hn_children n i"
    using HeadNode_copyKeyValueRange_correct [OF inv il(1,4), of 0 s] s covL by auto
  have "hn_prefixLength n \<le> hn_prefixLength ?R" using lcp_inside(2) [OF sepf] by (simp add: pl ir)
  then obtain r where r: "HeadNode_copyKeyValueRange n 0 (Suc s) (hn_count n - Suc s) ?R = Some r" "sameFrame ?R r"
    "hn_count r = hn_count n - Suc s" "HeadNode_seps r = drop (Suc s) (HeadNode_seps n)"
    "\<forall>k \<in> set (HeadNode_heads r). isSepHead k" "\<forall>i < hn_count n - Suc s. hn_children r i = hn_children n (Suc s + i)"
    using HeadNode_copyKeyValueRange_correct [OF inv ir(1,4), of "Suc s" "hn_count n - Suc s"] s covR by auto
  define l1 where "l1 = l\<lparr>hn_children := (hn_children l)(s := hn_children n s)\<rparr>"
  define r1 where "r1 = r\<lparr>hn_children := (hn_children r)(hn_count n - Suc s := hn_children n (hn_count n))\<rparr>"
  have same: "sameFrame ?L l1" "sameFrame ?R r1" "HeadNode_heads l1 = HeadNode_heads l" "HeadNode_heads r1 = HeadNode_heads r"
    "hn_count l1 = s" "hn_count r1 = hn_count n - Suc s"
    using l r by (simp_all add: l1_def r1_def sameFrame_def HeadNode_heads_def)
  note sl = sameFrame_facts [OF same(1)] sameFrame_facts(4) [OF l(2)] and sr = sameFrame_facts [OF same(2)] sameFrame_facts(4) [OF r(2)]
  have seps: "HeadNode_seps l1 = take s (HeadNode_seps n)" "HeadNode_seps r1 = drop (Suc s) (HeadNode_seps n)"
    using l(4) r(4) by (simp_all add: HeadNode_seps_def [of l1] HeadNode_seps_def [of l] HeadNode_seps_def [of r1]
        HeadNode_seps_def [of r] same sl sr)
  have kids: "HeadNode_kids l1 = take (Suc s) (HeadNode_kids n)" "HeadNode_kids r1 = drop (Suc s) (HeadNode_kids n)"
  proof -
    show "HeadNode_kids l1 = take (Suc s) (HeadNode_kids n)"
      by (rule nth_equalityI) (use s l(6) same in \<open>auto simp: l1_def less_Suc_eq_le le_less\<close>)
    show "HeadNode_kids r1 = drop (Suc s) (HeadNode_kids n)"
    proof (rule nth_equalityI)
      fix i assume "i < length (HeadNode_kids r1)"
      then have i: "i \<le> hn_count n - Suc s" using same by simp
      then have "hn_children r1 i = hn_children n (Suc s + i)" using r(6) s by (auto simp: r1_def)
      moreover have "Suc s \<le> length (HeadNode_kids n)" "Suc s + i \<le> hn_count n" using i s by simp_all
      ultimately show "HeadNode_kids r1 ! i = drop (Suc s) (HeadNode_kids n) ! i"
        using i same by (simp only: nth_drop nth_HeadNode_kids)
    qed (use s same in simp)
  qed
  have "headInv (HeadNode_makeHint l1) \<and> HeadNode_seps (HeadNode_makeHint l1) = HeadNode_seps l1 \<and>
      HeadNode_kids (HeadNode_makeHint l1) = HeadNode_kids l1"
    using headInv_makeHint [of l1] l(5) sub(1) covL room(1) by (simp add: same seps sl il)
  moreover have "headInv (HeadNode_makeHint r1) \<and> HeadNode_seps (HeadNode_makeHint r1) = HeadNode_seps r1 \<and>
      HeadNode_kids (HeadNode_makeHint r1) = HeadNode_kids r1"
    using headInv_makeHint [of r1] r(5) sub(2) covR room(2) by (simp add: same seps sr ir)
  moreover have "HeadNode_splitPages n s sep = Some (HeadNode_makeHint l1, HeadNode_makeHint r1)"
    using l(1,3) r(1,3) by (simp add: HeadNode_splitPages_def lo_def up_def l1_def r1_def)
  ultimately show thesis
    using that sameFrame_facts(1,2) [OF HeadNode_hint_fields(4)] sl(1,2) sr(1,2) il(2,3) ir(2,3) seps kids by metis
qed

lemma HeadNode_separator:
  assumes inv: "headInv (n :: 'w word HeadNode)" and c: "0 < hn_count n"
  shows "HeadNode_getSep n (HeadNode_findSeparator n) = HeadNode_seps n ! (hn_count n div 2)"
    "sep_length (HeadNode_findSeparator n) = length (HeadNode_seps n ! (hn_count n div 2))"
    "sep_slot (HeadNode_findSeparator n) = hn_count n div 2"
proof -
  let ?s = "hn_count n div 2"
  let ?k = "hn_keys n ?s"
  have s: "?s < hn_count n" using c by simp
  have k: "isSepHead ?k" using inv heads_mem [OF s] by (simp add: headInv_def)
  have sep: "HeadNode_seps n ! ?s = HeadNode_prefix n @ sepOf ?k" using s by (simp add: HeadNode_seps_def)
  have "HeadNode_covers n (HeadNode_seps n ! ?s)" "headPageOk n" using inv s by (simp_all add: headInv_def)
  then have lp: "length (HeadNode_prefix n) = hn_prefixLength n" by (intro HeadNode_covers_prefix(3))
  then have pre: "HeadNode_prefix n = load (hn_heap n) (pageSizeInner - hn_lowerFenceLen n) (hn_prefixLength n)"
    by (simp add: HeadNode_prefix_def HeadNode_getLowerFence_def min_def split: if_splits)
  have len: "HeadNode_getKeyLength n ?s = length (sepOf ?k)" using isSepHeadE(3) [OF k] by (simp add: HeadNode_getKeyLength_def)
  have "hn_prefixLength n \<le> 4096"
    using \<open>headPageOk n\<close> lcp_le1 [of "HeadNode_getLowerFence n" "HeadNode_getUpperFence n"]
    by (simp add: headPageOk_def HeadNode_getLowerFence_def pageSizeInner_def)
  then have "sub32 (hn_prefixLength n + length (sepOf ?k)) (hn_prefixLength n) = length (sepOf ?k)"
    using isSepHeadE(1) [OF k] size by (simp add: c_arith)
  moreover have "take (length (sepOf ?k)) (headBytes ?k) = sepOf ?k"
    using isSepHeadE(3) [OF k] by (simp add: sepOf_def)
  ultimately show "HeadNode_getSep n (HeadNode_findSeparator n) = HeadNode_seps n ! ?s"
    by (simp add: HeadNode_getSep_def HeadNode_findSeparator_def HeadNode_restoreKey_def len sep pre Let_def)
  show "sep_length (HeadNode_findSeparator n) = length (HeadNode_seps n ! ?s)"
    "sep_slot (HeadNode_findSeparator n) = ?s" by (simp_all add: HeadNode_findSeparator_def len sep lp Let_def)
qed

end

end
