(* ===== verification/HeadNodeConvert.thy ===== *)
theory HeadNodeConvert
  imports HeadNodeOps
begin

text \<open>
  Conversions between the layouts of an inner page: from one head node type to the other, to a basic
  page and from one. All keep fences, separators and children.
\<close>

subsection \<open>Basic inner pages\<close>

definition BTreeNode_seps :: "BTreeNode \<Rightarrow> bytes list" where
  "BTreeNode_seps n = map fst (fullEntries n)"

definition BTreeNode_kids :: "BTreeNode \<Rightarrow> ptr list" where
  "BTreeNode_kids n = map (\<lambda>e. le_decode (snd e)) (fullEntries n) @ [b_upper n]"

definition basicInner :: "BTreeNode \<Rightarrow> bool" where
  "basicInner n \<longleftrightarrow> BTreeNode_inv n \<and> keysInFences n \<and> BTreeNode_isInner n \<and>
     (\<forall>(k, v) \<in> set (fullEntries n). length v = sizeof_ptr)"

subsection \<open>A page built from its parts\<close>

lemma headInv_children:
  "headInv (n\<lparr>hn_children := f\<rparr>) = headInv n" "HeadNode_seps (n\<lparr>hn_children := f\<rparr>) = HeadNode_seps n"
  "HeadNode_getLowerFence (n\<lparr>hn_children := f\<rparr>) = HeadNode_getLowerFence n"
  "HeadNode_getUpperFence (n\<lparr>hn_children := f\<rparr>) = HeadNode_getUpperFence n"
proof -
  let ?n = "n\<lparr>hn_children := f\<rparr>"
  have fr: "sameFrame n ?n" by (simp add: sameFrame_def)
  note s = sameFrame_facts [OF fr]
  have h: "HeadNode_heads ?n = HeadNode_heads n" by (simp add: HeadNode_heads_def)
  then show seps: "HeadNode_seps ?n = HeadNode_seps n" by (simp add: HeadNode_seps_def s)
  have "HeadNode_validateHint ?n = HeadNode_validateHint n" by (simp add: HeadNode_validateHint_def)
  then show "headInv ?n = headInv n" by (simp add: headInv_def h s seps)
qed (simp_all add: HeadNode_getLowerFence_def HeadNode_getUpperFence_def HeadNode_fencesOffset_def)

context head_type
begin

lemma built_page:
  assumes fit: "fenceFit (sizeofT TYPE('w)) lo up" and c: "c \<le> capacityOf (sizeofT TYPE('w)) lo up"
    and heads: "\<And>i. i < c \<Longrightarrow> isSepHead (ks i :: 'w word)"
    and S: "\<And>i. i < c \<Longrightarrow> S ! i = take (lcp lo up) lo @ sepOf (ks i)" "length S = c"
    and sorted: "sorted_wrt (<) S" "\<forall>k \<in> set S. inFences lo up k"
    and n: "sameFrame (HeadNode_init lo up TmpHeadNode) n" "hn_count n = c" "\<And>i. i < c \<Longrightarrow> hn_keys n i = ks i"
  shows "headInv (HeadNode_makeHint n)" "HeadNode_seps (HeadNode_makeHint n) = S"
    "HeadNode_getLowerFence (HeadNode_makeHint n) = lo" "HeadNode_getUpperFence (HeadNode_makeHint n) = up"
    "hn_keyCapacity (HeadNode_makeHint n) = capacityOf (sizeofT TYPE('w)) lo up"
proof -
  note i = HeadNode_init_facts [OF fit] and fr = sameFrame_facts [OF n(1)]
  have pre: "HeadNode_prefix n = take (lcp lo up) lo" by (simp add: HeadNode_prefix_def fr i)
  have seps: "HeadNode_seps n = S"
    by (rule nth_equalityI) (use S n in \<open>simp_all add: HeadNode_seps_def pre\<close>)
  have "\<forall>k \<in> set (HeadNode_heads n). isSepHead k" using heads n by (auto simp: HeadNode_heads_def)
  moreover have "\<forall>k \<in> set (HeadNode_seps n). HeadNode_covers n k"
    using sorted(2) by (simp add: seps HeadNode_covers_def fr i)
  ultimately show "headInv (HeadNode_makeHint n)" "HeadNode_seps (HeadNode_makeHint n) = S"
    using headInv_makeHint [of n] sorted(1) c n(2) fr i seps by simp_all
  show "HeadNode_getLowerFence (HeadNode_makeHint n) = lo" "HeadNode_getUpperFence (HeadNode_makeHint n) = up"
    "hn_keyCapacity (HeadNode_makeHint n) = capacityOf (sizeofT TYPE('w)) lo up"
    using fr i sameFrame_facts [OF HeadNode_hint_fields(4) [of n]] by simp_all
qed

lemma headInv_seps:
  assumes inv: "headInv (n :: 'w word HeadNode)"
  defines "lo \<equiv> HeadNode_getLowerFence n" and "up \<equiv> HeadNode_getUpperFence n"
  shows "sorted_wrt (<) (HeadNode_seps n)" "\<forall>k \<in> set (HeadNode_seps n). inFences lo up k"
    "i < hn_count n \<Longrightarrow> HeadNode_seps n ! i = take (lcp lo up) lo @ sepOf (hn_keys n i)"
    "i < hn_count n \<Longrightarrow> isSepHead (hn_keys n i)"
  using inv sorted_HeadNode_seps [of n] heads_mem [of i n]
  by (auto simp: headInv_def headPageOk_def HeadNode_covers_def HeadNode_seps_def HeadNode_prefix_def lo_def up_def)

end

subsection \<open>Between the head node types\<close>

lemma and_255: "and x 255 = (word_of_nat (unat x mod 256) :: 'w::len word)"
proof (rule bit_word_eqI)
  fix i assume i: "i < LENGTH('w)"
  have "(255 :: 'w word) = mask 8" by (simp add: mask_eq_exp_minus_1)
  then have m: "bit (255 :: 'w word) i \<longleftrightarrow> i < 8" using i by (metis bit_mask_iff possible_bit_word)
  have "unat x mod 256 = take_bit 8 (unat x)" by (simp add: take_bit_eq_mod)
  then show "bit (and x 255) i = bit (word_of_nat (unat x mod 256) :: 'w word) i"
    using i m by (cases "i < 8") (simp_all add: bit_simps)
qed

lemma widen_sepHead:
  assumes "isSepHead (k :: 32 word)"
  shows "or (push_bit 32 (ucast (and k (not 255)))) (ucast (and k 255)) = (makeNeedleHead (sepOf k) :: 64 word)"
proof -
  let ?a = "sepOf k"
  note a = head4.isSepHeadE [OF assms]
  have la: "length ?a \<le> 3" using a(1) by (simp add: sizeofT_def)
  have k: "unat k = be_pad 3 ?a * 256 + length ?a" using head4.unat_sepHead [OF a(1)] a(2) by (simp add: sizeofT_def)
  have hi: "unat k div 256 * 256 = be_pad 3 ?a * 256" "unat k mod 256 = length ?a" using k la by simp_all
  have b: "be_pad 3 ?a * 256 < 2 ^ 32" using be_pad_less [of 3 ?a] by simp
  have 1: "(ucast (and k (not 255)) :: 64 word) = word_of_nat (be_pad 3 ?a * 256)"
    unfolding and_not_255 hi using b by (simp add: ucast_eq_of_nat unat_of_nat del: of_nat_mult)
  have 2: "(ucast (and k 255) :: 64 word) = word_of_nat (length ?a)"
    unfolding and_255 hi using la by (simp add: ucast_eq_of_nat unat_of_nat)
  have "be_pad 3 ?a * 256 * 2 ^ 32 = be_pad 7 ?a * 256" using be_pad_append_zero [OF la, of 4] by simp
  then have "push_bit 32 (word_of_nat (be_pad 3 ?a * 256) :: 64 word) = word_of_nat (be_pad 7 ?a * 256)"
    unfolding push_bit_of_nat by (simp only:)
  then have "or (push_bit 32 (ucast (and k (not 255)))) (ucast (and k 255)) =
      (word_of_nat (be_pad 7 ?a * 256 + length ?a) :: 64 word)"
    unfolding 1 2 using or_low_byte [of "length ?a"] la by simp
  moreover have "unat (makeNeedleHead ?a :: 64 word) = be_pad 7 ?a * 256 + length ?a"
    using head8.unat_sepHead [of ?a] la by (simp add: sizeofT_def)
  ultimately show ?thesis by (metis of_nat_unat ucast_id)
qed

lemma narrow_sepHead:
  assumes "isSepHead (k :: 64 word)" "length (sepOf k) < 4"
  shows "or (ucast (drop_bit 32 k)) (ucast (and k 255)) = (makeNeedleHead (sepOf k) :: 32 word)"
proof -
  let ?a = "sepOf k"
  note a = head8.isSepHeadE [OF assms(1)]
  have la: "length ?a \<le> 3" using assms(2) by simp
  have "unat k = be_pad 7 ?a * 256 + length ?a" using head8.unat_sepHead [OF a(1)] a(2) by (simp add: sizeofT_def)
  also have "be_pad 7 ?a = be_pad 3 ?a * 2 ^ 32" using be_pad_append_zero [OF la, of 4] by simp
  finally have k: "unat k = be_pad 3 ?a * 256 * 2 ^ 32 + length ?a" by simp
  have hi: "unat k div 2 ^ 32 = be_pad 3 ?a * 256" "unat k mod 256 = length ?a" using la a(3) by (simp_all add: k)
  have b: "be_pad 3 ?a * 256 < 2 ^ 32" using be_pad_less [of 3 ?a] by simp
  have 1: "(ucast (drop_bit 32 k) :: 32 word) = word_of_nat (be_pad 3 ?a * 256)"
    unfolding ucast_eq_of_nat unat_drop_bit_eq by (simp only: drop_bit_eq_div hi)
  have 2: "(ucast (and k 255) :: 32 word) = word_of_nat (length ?a)"
    unfolding and_255 hi using la by (simp add: ucast_eq_of_nat unat_of_nat)
  have "or (ucast (drop_bit 32 k)) (ucast (and k 255)) = (word_of_nat (be_pad 3 ?a * 256 + length ?a) :: 32 word)"
    unfolding 1 2 using or_low_byte [of "length ?a"] la by simp
  moreover have "unat (makeNeedleHead ?a :: 32 word) = be_pad 3 ?a * 256 + length ?a"
    using head4.unat_sepHead [of ?a] la by (simp add: sizeofT_def)
  ultimately show ?thesis by (metis of_nat_unat ucast_id)
qed

lemma convertToHead8_correct:
  assumes inv: "headInv (n :: HeadNode4)" and fit: "fenceFit 8 (HeadNode_getLowerFence n) (HeadNode_getUpperFence n)"
    and res: "HeadNode_convertToHead8WithSpace n = Some n8"
  shows "headInv n8" "HeadNode_getLowerFence n8 = HeadNode_getLowerFence n"
    "HeadNode_getUpperFence n8 = HeadNode_getUpperFence n" "HeadNode_seps n8 = HeadNode_seps n"
    "HeadNode_kids n8 = HeadNode_kids n" "hn_count n8 = hn_count n" "hn_count n8 < hn_keyCapacity n8"
proof -
  let ?lo = "HeadNode_getLowerFence n" and ?up = "HeadNode_getUpperFence n"
  let ?tmp = "HeadNode_init ?lo ?up TmpHeadNode :: HeadNode8"
  have ok: "headPageOk n" using inv by (simp add: headInv_def)
  have s8: "sizeofT TYPE(64) = 8" by (simp add: sizeofT_def)
  have cap: "headKeyCapacity 8 (HeadNode_fencesOffset n) = capacityOf 8 ?lo ?up"
    using HeadNode_fencesOffset_eq [OF ok]
    by (simp add: capacityOf_def HeadNode_getLowerFence_def HeadNode_getUpperFence_def)
  define wide where "wide = (\<lambda>k :: 32 word. or (push_bit 32 (ucast (and k (not 255)))) (ucast (and k 255)) :: 64 word)"
  define m where "m = ?tmp\<lparr>hn_keys := (\<lambda>i. if i < hn_count n then wide (hn_keys n i) else hn_keys ?tmp i),
    hn_children := (\<lambda>i. if i < hn_count n + 1 then hn_children n i else hn_children ?tmp i), hn_count := hn_count n\<rparr>"
  have n8: "n8 = HeadNode_makeHint m" and c: "hn_count n < capacityOf 8 ?lo ?up"
    using res unfolding HeadNode_convertToHead8WithSpace_def cap m_def wide_def Let_def by (auto split: if_splits)
  have key: "hn_keys m i = makeNeedleHead (sepOf (hn_keys n i))" if "i < hn_count n" for i
    using widen_sepHead [OF head4.headInv_seps(4) [OF inv that]] that by (simp add: m_def wide_def [THEN fun_cong])
  note si = head4.headInv_seps [OF inv]
  have short: "length (sepOf (hn_keys n i)) < 4" if "i < hn_count n" for i
    using head4.isSepHeadE(1) [OF si(4) [OF that]] by (simp add: sizeofT_def)
  have h: "isSepHead (hn_keys m i)" if "i < hn_count n" for i
    using short [OF that] key [OF that] by (auto simp: head8.isSepHead_iff s8 intro!: exI [of _ "sepOf (hn_keys n i)"])
  have S: "HeadNode_seps n ! i = take (lcp ?lo ?up) ?lo @ sepOf (hn_keys m i)" if "i < hn_count n" for i
    using si(3) [OF that] head8.sepOf_sepHead(1) [of "sepOf (hn_keys n i)"] short [OF that] key [OF that] by (simp add: s8)
  have m: "sameFrame ?tmp m" "hn_count m = hn_count n" by (simp_all add: m_def sameFrame_def)
  note b = head8.built_page [unfolded s8, OF fit less_imp_le [OF c] h S _ si(1,2) m, folded n8]
  have "headInv n8 \<and> HeadNode_seps n8 = HeadNode_seps n \<and> HeadNode_getLowerFence n8 = ?lo \<and>
      HeadNode_getUpperFence n8 = ?up \<and> hn_keyCapacity n8 = capacityOf 8 ?lo ?up"
    using b by simp
  then show "headInv n8" "HeadNode_getLowerFence n8 = ?lo" "HeadNode_getUpperFence n8 = ?up"
    "HeadNode_seps n8 = HeadNode_seps n" "hn_count n8 < hn_keyCapacity n8" "hn_count n8 = hn_count n"
    using c by (simp_all add: n8 m_def)
  show "HeadNode_kids n8 = HeadNode_kids n"
    by (rule nth_equalityI) (simp_all add: n8 m_def)
qed

lemma convertToHead4_correct:
  assumes inv: "headInv (n :: HeadNode8)" and c: "hn_count n \<le> capacityOf 4 (HeadNode_getLowerFence n) (HeadNode_getUpperFence n)"
    and res: "HeadNode_convertToHead4WithSpace n = Some n4"
  shows "headInv n4" "HeadNode_getLowerFence n4 = HeadNode_getLowerFence n"
    "HeadNode_getUpperFence n4 = HeadNode_getUpperFence n" "HeadNode_seps n4 = HeadNode_seps n"
    "HeadNode_kids n4 = HeadNode_kids n" "hn_count n4 = hn_count n"
    "hn_keyCapacity n4 = capacityOf 4 (HeadNode_getLowerFence n) (HeadNode_getUpperFence n)"
proof -
  let ?lo = "HeadNode_getLowerFence n" and ?up = "HeadNode_getUpperFence n"
  let ?tmp = "HeadNode_init ?lo ?up TmpHeadNode :: HeadNode4"
  have s4: "sizeofT TYPE(32) = 4" by (simp add: sizeofT_def)
  have fit: "fenceFit 4 ?lo ?up"
    using headPageOk_fit(1) [of n] inv by (simp add: headInv_def fenceFit_def sizeofT_def paddedHeadSize_def sizeof_HeadNodeHead_def)
  define narrow where "narrow = (\<lambda>k :: 64 word. or (ucast (drop_bit 32 k)) (ucast (and k 255)) :: 32 word)"
  define m where "m = ?tmp\<lparr>hn_keys := (\<lambda>i. if i < hn_count n then narrow (hn_keys n i) else hn_keys ?tmp i),
    hn_children := (\<lambda>i. if i < hn_count n + 1 then hn_children n i else hn_children ?tmp i), hn_count := hn_count n\<rparr>"
  have n4: "n4 = HeadNode_makeHint m" and "\<not> list_ex (\<lambda>i. HeadNode_getKeyLength n i \<ge> 4) [0..<hn_count n]"
    using res unfolding HeadNode_convertToHead4WithSpace_def m_def narrow_def Let_def by (auto split: if_splits)
  note si = head8.headInv_seps [OF inv]
  have short: "length (sepOf (hn_keys n i)) < 4" if "i < hn_count n" for i
  proof -
    have "\<not> 4 \<le> HeadNode_getKeyLength n i"
      using that \<open>\<not> list_ex (\<lambda>i. HeadNode_getKeyLength n i \<ge> 4) [0..<hn_count n]\<close> by (auto simp: list_ex_iff)
    then show ?thesis using head8.isSepHeadE(3) [OF si(4) [OF that]] by (simp add: HeadNode_getKeyLength_def)
  qed
  have key: "hn_keys m i = makeNeedleHead (sepOf (hn_keys n i))" if "i < hn_count n" for i
    using narrow_sepHead [OF si(4) [OF that] short [OF that]] that by (simp add: m_def narrow_def [THEN fun_cong])
  have h: "isSepHead (hn_keys m i)" if "i < hn_count n" for i
    using short [OF that] key [OF that] by (auto simp: head4.isSepHead_iff s4 intro!: exI [of _ "sepOf (hn_keys n i)"])
  have S: "HeadNode_seps n ! i = take (lcp ?lo ?up) ?lo @ sepOf (hn_keys m i)" if "i < hn_count n" for i
    using si(3) [OF that] head4.sepOf_sepHead(1) [of "sepOf (hn_keys n i)"] short [OF that] key [OF that] by (simp add: s4)
  have m: "sameFrame ?tmp m" "hn_count m = hn_count n" by (simp_all add: m_def sameFrame_def)
  note b = head4.built_page [unfolded s4, OF fit c h S _ si(1,2) m, folded n4]
  have "headInv n4 \<and> HeadNode_seps n4 = HeadNode_seps n \<and> HeadNode_getLowerFence n4 = ?lo \<and>
      HeadNode_getUpperFence n4 = ?up \<and> hn_keyCapacity n4 = capacityOf 4 ?lo ?up"
    using b by simp
  then show "headInv n4" "HeadNode_getLowerFence n4 = ?lo" "HeadNode_getUpperFence n4 = ?up"
    "HeadNode_seps n4 = HeadNode_seps n" "hn_keyCapacity n4 = capacityOf 4 ?lo ?up" "hn_count n4 = hn_count n"
    by (simp_all add: n4 m_def)
  show "HeadNode_kids n4 = HeadNode_kids n"
    by (rule nth_equalityI) (simp_all add: n4 m_def)
qed

subsection \<open>To a basic page\<close>

lemma store_swap: "store (store m (off + length a) b) off a = store (store m off a) (off + length a) b"
  by (rule ext) (auto simp: store_def)

lemma upper_facts:
  "BTreeNode_inv (n\<lparr>b_upper := p\<rparr>) = BTreeNode_inv n" "keysInFences (n\<lparr>b_upper := p\<rparr>) = keysInFences n"
  "fullEntries (n\<lparr>b_upper := p\<rparr>) = fullEntries n" "BTreeNode_getLowerFence (n\<lparr>b_upper := p\<rparr>) = BTreeNode_getLowerFence n"
  "BTreeNode_getUpperFence (n\<lparr>b_upper := p\<rparr>) = BTreeNode_getUpperFence n"
proof -
  note s = samePage_facts [OF samePage_upper [of n p]]
  show full: "fullEntries (n\<lparr>b_upper := p\<rparr>) = fullEntries n" by (simp add: fullEntries_def entries_def s)
  show fences: "BTreeNode_getLowerFence (n\<lparr>b_upper := p\<rparr>) = BTreeNode_getLowerFence n"
    "BTreeNode_getUpperFence (n\<lparr>b_upper := p\<rparr>) = BTreeNode_getUpperFence n" by (simp_all add: s)
  show "keysInFences (n\<lparr>b_upper := p\<rparr>) = keysInFences n" by (simp add: keysInFences_def full fences)
  show "BTreeNode_inv (n\<lparr>b_upper := p\<rparr>) = BTreeNode_inv n"
    by (simp add: BTreeNode_inv_def s entries_def BTreeNode_validateHint_def BTreeNode_isLeaf_def BTreeNode_isInner_def)
qed

definition headEntries :: "('w::len) word HeadNode \<Rightarrow> entry list" where
  "headEntries n = map (\<lambda>i. (HeadNode_seps n ! i, le_encode sizeof_ptr (hn_children n i))) [0..<hn_count n]"

lemma fst_headEntries [simp]: "map fst (headEntries n) = HeadNode_seps n"
  by (rule nth_equalityI) (simp_all add: headEntries_def)

context head_type
begin

lemma truncated_sep:
  assumes inv: "headInv (n :: 'w word HeadNode)" and i: "i < hn_count n"
  shows "drop (hn_prefixLength n) (HeadNode_seps n ! i) = sepOf (hn_keys n i)"
    "HeadNode_getKeyLength n i = length (sepOf (hn_keys n i))"
proof -
  have "headPageOk n" "HeadNode_covers n (HeadNode_seps n ! i)" using inv i by (simp_all add: headInv_def)
  then have "length (HeadNode_prefix n) = hn_prefixLength n" by (rule HeadNode_covers_prefix(3))
  then show "drop (hn_prefixLength n) (HeadNode_seps n ! i) = sepOf (hn_keys n i)"
    using i by (simp add: HeadNode_seps_def)
  show "HeadNode_getKeyLength n i = length (sepOf (hn_keys n i))"
    using isSepHeadE(3) [OF headInv_seps(4) [OF inv i]] by (simp add: HeadNode_getKeyLength_def)
qed

lemma copyToBasicStep_store:
  assumes inv: "headInv (n :: 'w word HeadNode)" and i: "i < hn_count n" and p: "b_prefixLength dst = hn_prefixLength n"
  shows "HeadNode_copyToBasicStep n 0 0 i dst = BTreeNode_storeKeyValue i (fst (headEntries n ! i)) (snd (headEntries n ! i)) dst"
proof -
  let ?k = "hn_keys n i"
  note k = isSepHeadE [OF headInv_seps(4) [OF inv i]] and key = truncated_sep(1) [OF inv i]
  have len: "HeadNode_getKeyLength n i = length (sepOf ?k)" "length (sepOf ?k) < 256"
    using k(1,3) size by (simp_all add: HeadNode_getKeyLength_def)
  have a: "sub32 (length (sepOf ?k)) 0 = length (sepOf ?k)" "u16 (length (sepOf ?k)) = length (sepOf ?k)"
    "u32 (length (sepOf ?k) + 8) = length (sepOf ?k) + 8" "u16 8 = 8"
    using len(2) by (simp_all add: c_arith)
  have take: "take (length (sepOf ?k)) (headBytes ?k) = sepOf ?k" using k(3) by (simp add: sepOf_def)
  have e: "headEntries n ! i = (HeadNode_seps n ! i, le_encode sizeof_ptr (hn_children n i))"
    using i by (simp add: headEntries_def)
  show ?thesis
    unfolding HeadNode_copyToBasicStep_def BTreeNode_storeKeyValue_def Let_def e prod.sel p key len(1) sizeof_ptr_def a
      drop_0 take minus_nat.diff_0 length_le_encode store_swap by simp
qed

lemma convertToBasic_head:
  assumes inv: "headInv (n :: 'w word HeadNode)" and kids: "\<forall>c \<in> set (HeadNode_kids n). c < 2 ^ 64"
    and res: "HeadNode_convertToBasicWithSpace len n = Some b"
  shows "basicInner b" "BTreeNode_getLowerFence b = HeadNode_getLowerFence n"
    "BTreeNode_getUpperFence b = HeadNode_getUpperFence n" "BTreeNode_seps b = HeadNode_seps n"
    "BTreeNode_kids b = HeadNode_kids n" "BTreeNode_spaceNeeded b (b_prefixLength b + len) sizeof_ptr \<le> BTreeNode_freeSpace b"
    "b_prefixLength b = hn_prefixLength n"
proof -
  let ?lo = "HeadNode_getLowerFence n" and ?up = "HeadNode_getUpperFence n" and ?es = "headEntries n"
  let ?f = "freshPage False RangeOpCounter_new ?lo ?up"
  have ok: "headPageOk n" and c: "hn_count n < 4096"
    using inv keyCapacity_less [of n] by (auto simp: headInv_def)
  then have pl: "hn_prefixLength n = lcp ?lo ?up" by (simp add: headPageOk_def)
  have lens: "hn_lowerFenceLen n = length ?lo" "hn_upperFenceLen n = length ?up"
    by (simp_all add: HeadNode_getLowerFence_def HeadNode_getUpperFence_def)
  define sum where "sum = (\<Sum>i\<leftarrow>[0..<hn_count n]. HeadNode_getKeyLength n i)"
  have room: "length ?lo + length ?up + (hn_count n + 1) * 18 + len + sum + 96 \<le> 4096"
    and b: "b = (HeadNode_copyKeyValueRangeToBasic n 0 (hn_count n) ?f)\<lparr>b_upper := hn_children n (hn_count n)\<rparr>"
    using res by (simp_all add: HeadNode_convertToBasicWithSpace_def Let_def sum_def lens sizeof_Slot_def sizeof_ptr_def
        sizeof_BTreeNodeHeader_def pageSizeInner_def freshPage_def ac_simps split: if_splits)
  have key: "length (drop (hn_prefixLength n) (HeadNode_seps n ! i)) = HeadNode_getKeyLength n i" if "i < hn_count n" for i
    by (simp only: truncated_sep [OF inv that])
  have "esize (truncated (lcp ?lo ?up) ?es) = (\<Sum>i\<leftarrow>[0..<hn_count n]. HeadNode_getKeyLength n i + 8)"
    unfolding esize_def truncated_def headEntries_def map_map comp_def prod.case pl [symmetric] length_le_encode sizeof_ptr_def
    by (intro arg_cong [where f = sum_list] map_cong) (simp_all add: key [simplified])
  then have es: "esize (truncated (lcp ?lo ?up) ?es) = sum + 8 * hn_count n"
    by (simp add: sum_list_addf sum_def sum_list_triv)
  have len: "length ?es = hn_count n" by (simp add: headEntries_def)
  have fits: "fitsPage (length ?es) ?lo ?up ?es" using room by (simp add: fitsPage_def es len)
  have bound: "\<forall>k \<in> fst ` set ?es. inFences ?lo ?up k" "sorted_wrt (<) (map fst ?es)"
    using headInv_seps(1,2) [OF inv] unfolding list.set_map [symmetric] fst_headEntries by simp_all
  note p = freshPage_storeAll [OF fits bound, of False RangeOpCounter_new]
  have fp: "b_prefixLength ?f = hn_prefixLength n" "b_count ?f = 0"
    using freshPage_facts(8,4) [of ?lo ?up False RangeOpCounter_new] room by (simp_all add: pl)
  have "fold (HeadNode_copyToBasicStep n 0 0) [0..<m] ?f = storeAll 0 (take m ?es) ?f" if "m \<le> hn_count n" for m
    using that
  proof (induction m)
    case (Suc m)
    then show ?case
      using copyToBasicStep_store [OF inv, of m "storeAll 0 (take m ?es) ?f"] fp len
      by (simp add: take_Suc_conv_app_nth storeAll_snoc)
  qed simp
  from this [OF order_refl] have "HeadNode_copyKeyValueRangeToBasic n 0 (hn_count n) ?f =
      BTreeNode_makeHint ((storeAll 0 ?es ?f)\<lparr>b_count := length ?es\<rparr>)"
    using c by (simp add: HeadNode_copyKeyValueRangeToBasic_def Let_def fp len u16_eq sub32_def)
  note b' = b [unfolded this]
  note u = upper_facts [of "hn_children n (hn_count n)", folded b']
  show lo: "BTreeNode_getLowerFence b = ?lo" and up: "BTreeNode_getUpperFence b = ?up"
    and bp: "b_prefixLength b = hn_prefixLength n" using p by (simp_all add: u b' pl)
  have full: "fullEntries b = ?es" using p by (simp add: b' upper_facts)
  have inner: "BTreeNode_inv b" "keysInFences b" "BTreeNode_isInner b"
    using p by (simp_all add: b' upper_facts BTreeNode_isInner_def)
  then show "basicInner b" by (auto simp: basicInner_def full headEntries_def)
  show "BTreeNode_seps b = HeadNode_seps n" by (simp add: BTreeNode_seps_def full)
  have "le_decode (le_encode sizeof_ptr (hn_children n i)) = hn_children n i" if "i < hn_count n" for i
    using kids that by (intro le_decode_encode) (simp add: HeadNode_kids_def sizeof_ptr_def)
  moreover have "b_upper b = hn_children n (hn_count n)" by (simp add: b')
  ultimately show "BTreeNode_kids b = HeadNode_kids n"
    by (simp add: BTreeNode_kids_def full headEntries_def HeadNode_kids_def)
  have okb: "pageOk (b_count b) b" "b_count b = hn_count n" using inner(1) by (simp_all add: BTreeNode_inv_def b' len)
  have off: "b_dataOffset b = 4096 - (length ?lo + length ?up) - (sum + 8 * hn_count n)" using p es by (simp add: b')
  have "BTreeNode_spaceNeeded b (b_prefixLength b + len) sizeof_ptr = 18 + len"
    using room lcp_le1 [of ?lo ?up] by (subst spaceNeeded_eq) (simp_all add: sizeof_ptr_def bp pl)
  then show "BTreeNode_spaceNeeded b (b_prefixLength b + len) sizeof_ptr \<le> BTreeNode_freeSpace b"
    using room by (simp add: freeSpace_eq [OF okb(1)] off okb(2))
qed


subsection \<open>From a basic page\<close>

lemma clone_from_basic_correct:
  assumes b: "basicInner b" and fit: "fenceFit (sizeofT TYPE('w)) (BTreeNode_getLowerFence b) (BTreeNode_getUpperFence b)"
    and short: "\<forall>i < b_count b. s_keyLen (b_slot b i) < sizeofT TYPE('w)"
    and c: "b_count b < capacityOf (sizeofT TYPE('w)) (BTreeNode_getLowerFence b) (BTreeNode_getUpperFence b)"
  obtains n :: "'w word HeadNode" where "HeadNode_clone_from_basic b = Some n" "headInv n"
    "HeadNode_getLowerFence n = BTreeNode_getLowerFence b" "HeadNode_getUpperFence n = BTreeNode_getUpperFence b"
    "HeadNode_seps n = BTreeNode_seps b" "HeadNode_kids n = BTreeNode_kids b" "hn_count n = b_count b"
    "hn_count n < hn_keyCapacity n" "hn_prefixLength n = b_prefixLength b"
proof -
  let ?lo = "BTreeNode_getLowerFence b" and ?up = "BTreeNode_getUpperFence b"
  let ?ks = "\<lambda>i. makeNeedleHead (BTreeNode_getKey b i) :: 'w word"
  let ?I = "HeadNode_init ?lo ?up TmpHeadNode :: 'w word HeadNode"
  from b have inv: "BTreeNode_inv b" "keysInFences b" and pay: "\<forall>(k, v) \<in> set (fullEntries b). length v = sizeof_ptr"
    by (simp_all add: basicInner_def)
  note ok = inv_facts [OF inv(1)]
  have pl: "b_prefixLength b = lcp ?lo ?up" using ok(1) by (simp add: pageOk_def)
  have len: "length (BTreeNode_getKey b i) < sizeofT TYPE('w)" if "i < b_count b" for i using short that by simp
  have h: "isSepHead (?ks i)" "sepOf (?ks i) = BTreeNode_getKey b i" "makeSepHead (BTreeNode_getKey b i) = Some (?ks i)"
    if "i < b_count b" for i
    using len [OF that] sepOf_sepHead(1) [OF len [OF that]] by (blast intro: isSepHead_iff [THEN iffD2], simp_all add: makeSepHead_eq)
  define m where "m = ?I\<lparr>hn_count := b_count b,
    hn_keys := (\<lambda>i. if i < b_count b then ?ks i else hn_keys ?I i),
    hn_children := (\<lambda>i. if i < b_count b then BTreeNode_getChild b i else hn_children ?I i)\<rparr>"
  define n where "n = (HeadNode_makeHint m)\<lparr>hn_children := (hn_children (HeadNode_makeHint m))(b_count b := b_upper b)\<rparr>"
  have m: "sameFrame ?I m" "hn_count m = b_count b" "\<And>i. i < b_count b \<Longrightarrow> hn_keys m i = ?ks i"
    by (simp_all add: m_def sameFrame_def)
  have pre: "BTreeNode_getPrefix b = take (lcp ?lo ?up) ?lo"
    using getPrefix_take(1) [OF ok(1)] pl by simp
  have S: "BTreeNode_seps b ! i = take (lcp ?lo ?up) ?lo @ sepOf (?ks i)" if "i < b_count b" for i
    using that by (simp add: BTreeNode_seps_def nth_fullEntries pre h(2))
  have S': "length (BTreeNode_seps b) = b_count b" "sorted_wrt (<) (BTreeNode_seps b)"
    "\<forall>k \<in> set (BTreeNode_seps b). inFences ?lo ?up k"
    using ok(2) inv(2) by (simp_all add: BTreeNode_seps_def keysInFences_def)
  note bp = built_page [OF fit less_imp_le [OF c] h(1) S S' m]
  note ch = headInv_children [of "(hn_children (HeadNode_makeHint m))(b_count b := b_upper b)" "HeadNode_makeHint m", folded n_def]
  have cnt: "hn_count n = b_count b" by (simp add: n_def m(2))
  have clone: "HeadNode_clone_from_basic b = Some n"
  proof -
    have heads: "map (\<lambda>i. makeSepHead (BTreeNode_getKey b i)) [0..<b_count b] = map (\<lambda>i. Some (?ks i)) [0..<b_count b]"
      using h(3) by simp
    have "(\<lambda>i. if i < b_count b then the (map (\<lambda>i. Some (?ks i)) [0..<b_count b] ! i) else hn_keys ?I i) =
        (\<lambda>i. if i < b_count b then ?ks i else hn_keys ?I i)" by (rule ext) simp
    moreover have "\<not> b_count b > hn_keyCapacity ?I" using c by (simp add: HeadNode_init_facts(6) [OF fit])
    moreover have "None \<notin> set (map (\<lambda>i. Some (?ks i)) [0..<b_count b])" by auto
    ultimately show ?thesis
      unfolding HeadNode_clone_from_basic_def Let_def heads n_def m_def by simp
  qed
  have kids: "HeadNode_kids n = BTreeNode_kids b"
  proof (rule nth_equalityI)
    fix i assume "i < length (HeadNode_kids n)"
    then have "i \<le> b_count b" by (simp add: cnt)
    then consider "i < b_count b" | "i = b_count b" by linarith
    then show "HeadNode_kids n ! i = BTreeNode_kids b ! i"
    proof cases
      case 1
      then have "fullEntries b ! i \<in> set (fullEntries b)" by simp
      then have "s_payloadLen (b_slot b i) = sizeof_ptr" using pay 1 by (auto simp: nth_fullEntries)
      then have "BTreeNode_getChild b i = le_decode (BTreeNode_getPayload b i)"
        by (simp add: BTreeNode_getChild_def BTreeNode_getPayload_def)
      then show ?thesis using 1 by (simp add: cnt BTreeNode_kids_def nth_append nth_fullEntries n_def m_def)
    next
      case 2
      then have "HeadNode_kids n ! i = hn_children n i" by (simp add: cnt)
      then show ?thesis using 2 by (simp add: BTreeNode_kids_def nth_append n_def)
    qed
  qed (simp add: cnt BTreeNode_kids_def)
  have "hn_keyCapacity n = capacityOf (sizeofT TYPE('w)) ?lo ?up" "hn_prefixLength n = lcp ?lo ?up"
    using bp(5) HeadNode_init_facts(5) [OF fit] by (simp_all add: n_def HeadNode_makeHint_def Let_def m_def)
  then show thesis using that [OF clone] ch bp(1-4) kids cnt c pl by simp
qed

end

end
