(* ===== verification/BasicNodeSpec.thy ===== *)
theory BasicNodeSpec
  imports BasicNodeMap
begin

text \<open>
  What the basic page promises, stated on full keys: the properties of \<open>BTreeNode\<close> with the
  pages that show their hypotheses can hold.
\<close>

subsection \<open>A leaf with two entries\<close>

lemma leafInv_makeLeaf:
  "leafInv BTreeNode_makeLeaf" "fullEntries BTreeNode_makeLeaf = []"
  "BTreeNode_covers BTreeNode_makeLeaf k" "BTreeNode_freeSpaceAfterCompaction BTreeNode_makeLeaf = 4004"
  "BTreeNode_getLowerFence BTreeNode_makeLeaf = []" "BTreeNode_getUpperFence BTreeNode_makeLeaf = []"
  "b_prefixLength BTreeNode_makeLeaf = 0"
proof -
  let ?n = BTreeNode_makeLeaf
  note d = BTreeNode_makeLeaf_def BTreeNode_init_def TmpBTreeNode_def
  have f: "b_count ?n = 0" "b_tag ?n = Tag_Leaf" "b_dataOffset ?n = 4096" "b_spaceUsed ?n = 0"
    "b_lowerFence ?n = \<lparr>fk_offset = 0, fk_length = 0\<rparr>" "b_upperFence ?n = \<lparr>fk_offset = 0, fk_length = 0\<rparr>"
    by (simp_all add: d pageSizeLeaf_def)
  show pl: "b_prefixLength ?n = 0" by (simp add: d)
  show fe: "BTreeNode_getLowerFence ?n = []" "BTreeNode_getUpperFence ?n = []"
    by (simp_all add: BTreeNode_getLowerFence_def BTreeNode_getUpperFence_def f)
  show full: "fullEntries ?n = []" by (rule fullEntries_empty) (rule f)
  show "BTreeNode_covers ?n k" by (simp add: BTreeNode_covers_def inFences_def fe)
  show "BTreeNode_freeSpaceAfterCompaction ?n = 4004"
    by (simp add: BTreeNode_freeSpaceAfterCompaction_def slotsEnd_eq f c_arith)
  show "leafInv ?n"
    by (simp add: leafInv_def BTreeNode_inv_def keysInFences_def full pageOk_def fenceOk_def fe pl f slotsEnd_eq
        entries_def entriesUpto_def BTreeNode_validateHint_def BTreeNode_isLeaf_def)
qed

lemma tryInsert_succeeds:
  assumes "leafInv n" "BTreeNode_covers n key" "storable key payload" "BTreeNode_content n key = None"
    and "BTreeNode_spaceNeeded n (length key) (length payload) \<le> BTreeNode_freeSpaceAfterCompaction n"
  obtains n' where "BTreeNode_tryInsert key payload n = Inserted n'"
proof (cases "BTreeNode_tryInsert key payload n")
  case (NoSpace n')
  then show thesis using tryInsert_correct(2) [OF assms(1,2)] assms(3,5) by (force simp: storable_def)
next
  case Aborted
  then show thesis using tryInsert_correct(3) [OF assms(1,2) _ _ Aborted] assms(3,4) by (simp add: storable_def)
qed (use that in blast)

text \<open>Leaves without fences that were filled in key order.\<close>

definition rootLeaf :: "BTreeNode \<Rightarrow> entry list \<Rightarrow> bool" where
  "rootLeaf n es \<longleftrightarrow> leafInv n \<and> fullEntries n = es \<and>
     BTreeNode_getLowerFence n = [] \<and> BTreeNode_getUpperFence n = []"

definition demoPut :: "bytes \<Rightarrow> bytes \<Rightarrow> BTreeNode \<Rightarrow> BTreeNode" where
  "demoPut k v n = (case BTreeNode_tryInsert k v n of Inserted n' \<Rightarrow> n' | _ \<Rightarrow> n)"

definition demoLeaf :: BTreeNode where
  "demoLeaf = demoPut [3] [30] (demoPut [2] [20] (demoPut [1] [10] BTreeNode_makeLeaf))"

lemma rootLeaf_facts:
  assumes "rootLeaf n es"
  shows "leafInv n" "BTreeNode_covers n k" "BTreeNode_content n = map_of es" "b_count n = length es"
    "BTreeNode_inv n" "keysInFences n" "BTreeNode_isLeaf n" "b_prefixLength n = 0" "fullEntries n = es"
    "sorted_wrt (<) (map fst es)" "BTreeNode_getLowerFence n = []" "BTreeNode_getUpperFence n = []"
    "BTreeNode_getPrefix n = []"
    "BTreeNode_freeSpaceAfterCompaction n = 4096 - (92 + 10 * length es + esize es)"
proof -
  from assms have l: "leafInv n" and full: "fullEntries n = es"
    and fe: "BTreeNode_getLowerFence n = []" "BTreeNode_getUpperFence n = []"
    by (auto simp: rootLeaf_def)
  show "leafInv n" "fullEntries n = es" "BTreeNode_getLowerFence n = []" "BTreeNode_getUpperFence n = []"
    by (fact l full fe)+
  show inv: "BTreeNode_inv n" "keysInFences n" "BTreeNode_isLeaf n" using l by (auto simp: leafInv_def)
  note ok = inv_facts [OF inv(1)]
  show pl: "b_prefixLength n = 0" using ok(1) by (simp add: pageOk_def fe)
  then show "BTreeNode_getPrefix n = []" by (simp add: BTreeNode_getPrefix_def)
  show "BTreeNode_covers n k" by (simp add: BTreeNode_covers_def inFences_def fe)
  show "BTreeNode_content n = map_of es" by (simp add: BTreeNode_content_def full)
  show c: "b_count n = length es" using full length_fullEntries [of n] by simp
  show "sorted_wrt (<) (map fst es)" using ok(2) full by simp
  have "truncated 0 es = es" by (induction es) auto
  then have "entries n = es" using truncated_fullEntries [of n] full pl by simp
  moreover have "fk_length (b_lowerFence n) = 0" "fk_length (b_upperFence n) = 0"
    using fe length_getLowerFence [of n] length_getUpperFence [of n] by simp_all
  ultimately show "BTreeNode_freeSpaceAfterCompaction n = 4096 - (92 + 10 * length es + esize es)"
    using freeSpaceAfterCompaction_eq [OF ok(1)] pageOk_fullRoom(2) [OF ok(1)] c by simp
qed

lemma rootLeaf_makeLeaf: "rootLeaf BTreeNode_makeLeaf []"
  by (simp add: rootLeaf_def leafInv_makeLeaf)

lemma rootLeaf_demoPut:
  assumes n: "rootLeaf n es" and new: "\<forall>x \<in> fst ` set es. x < k"
    and room: "92 + 10 * Suc (length es) + esize es + length k + length v \<le> 4096"
  shows "rootLeaf (demoPut k v n) (es @ [(k, v)])"
    and "BTreeNode_tryInsert k v n = Inserted (demoPut k v n)"
proof -
  note f = rootLeaf_facts [OF n]
  have st: "storable k v" using room by (simp add: storable_def)
  have sp: "BTreeNode_spaceNeeded n (length k) (length v) \<le> BTreeNode_freeSpaceAfterCompaction n"
    using room f(8,14) by (simp add: spaceNeeded_eq)
  have "k \<notin> fst ` set es" using new by blast
  then have "BTreeNode_content n k = None" by (simp add: f(3) map_of_eq_None_iff)
  then obtain n' where n': "BTreeNode_tryInsert k v n = Inserted n'"
    by (rule tryInsert_succeeds [OF f(1,2) st _ sp])
  then show ins: "BTreeNode_tryInsert k v n = Inserted (demoPut k v n)" by (simp add: demoPut_def)
  have r: "leafInv n'" "BTreeNode_getLowerFence n' = []" "BTreeNode_getUpperFence n' = []"
    "\<exists>i. fullEntries n' = take i es @ (k, v) # drop i es"
    using tryInsert_correct(1) [OF f(1,2) _ _ n'] st f by (auto simp: storable_def)
  then obtain i where i: "fullEntries n' = take i es @ (k, v) # drop i es" by blast
  have "sorted_wrt (<) (map fst (fullEntries n'))" using r(1) inv_facts(2) by (auto simp: leafInv_def)
  then have after: "\<forall>x \<in> fst ` set (drop i es). k < x" by (auto simp: i sorted_wrt_append)
  have "drop i es = []"
  proof (rule ccontr)
    assume "drop i es \<noteq> []"
    then obtain e where "e \<in> set (drop i es)" by (cases "drop i es") auto
    then have "k < fst e" "fst e < k" using after new by (auto dest: in_set_dropD)
    then show False by simp
  qed
  then have "fullEntries n' = es @ [(k, v)]" using i by (simp add: drop_eq_Nil)
  moreover have "demoPut k v n = n'" using n' by (simp add: demoPut_def)
  ultimately show "rootLeaf (demoPut k v n) (es @ [(k, v)])" using r by (simp add: rootLeaf_def)
qed

lemma rootLeaf_demoLeaf: "rootLeaf demoLeaf [([1], [10]), ([2], [20]), ([3], [30])]"
proof -
  have "rootLeaf (demoPut [1] [10] BTreeNode_makeLeaf) ([] @ [([1], [10])])"
    by (rule rootLeaf_demoPut(1) [OF rootLeaf_makeLeaf]) simp_all
  then have "rootLeaf (demoPut [2] [20] (demoPut [1] [10] BTreeNode_makeLeaf)) ([([1], [10])] @ [([2], [20])])"
    by (intro rootLeaf_demoPut(1)) simp_all
  then have "rootLeaf demoLeaf ([([1], [10]), ([2], [20])] @ [([3], [30])])"
    unfolding demoLeaf_def by (intro rootLeaf_demoPut(1)) simp_all
  then show ?thesis by simp
qed

text \<open>The operation counter of a leaf is independent of its entries.\<close>

lemma leafInv_roc:
  "leafInv (n\<lparr>b_roc := c\<rparr>) = leafInv n" "fullEntries (n\<lparr>b_roc := c\<rparr>) = fullEntries n"
  "BTreeNode_covers (n\<lparr>b_roc := c\<rparr>) = BTreeNode_covers n"
  "BTreeNode_getPrefix (n\<lparr>b_roc := c\<rparr>) = BTreeNode_getPrefix n"
proof -
  have same: "samePage n (n\<lparr>b_roc := c\<rparr>)" by (simp add: samePage_def)
  note f = samePage_facts [OF same]
  show "BTreeNode_getPrefix (n\<lparr>b_roc := c\<rparr>) = BTreeNode_getPrefix n" by (rule f(4))
  show "BTreeNode_covers (n\<lparr>b_roc := c\<rparr>) = BTreeNode_covers n"
    by (simp add: BTreeNode_covers_def f(5,6))
  show full: "fullEntries (n\<lparr>b_roc := c\<rparr>) = fullEntries n"
    by (simp add: fullEntries_def entries_def f(3,4))
  show "leafInv (n\<lparr>b_roc := c\<rparr>) = leafInv n"
    by (simp add: leafInv_def BTreeNode_inv_def keysInFences_def full f(5-7) entries_def f(3)
        BTreeNode_validateHint_def BTreeNode_isLeaf_def BTreeNode_isInner_def)
qed

subsection \<open>Properties\<close>

text \<open>C17: the lower bound of a key between the fences, found by head, hints and binary search, is
  the position of the first entry of the leaf whose full key is not smaller, and the found flag
  says whether the key is in the leaf.\<close>

theorem BTreeNode_lowerBound_spec:
  assumes "BTreeNode_inv n" "BTreeNode_covers n key" "BTreeNode_lowerBound n key = (i, found)"
  shows "is_lower_bound (map fst (fullEntries n)) key i \<and> (found \<longleftrightarrow> key \<in> fst ` set (fullEntries n))"
  using lowerBound_full [OF assms] by (simp add: content_None)

theorem BTreeNode_lowerBound_spec_witness:
  "\<exists>i found. BTreeNode_lowerBound demoLeaf [2] = (i, found) \<and>
     is_lower_bound (map fst (fullEntries demoLeaf)) [2] i \<and> found"
proof -
  note f = rootLeaf_facts [OF rootLeaf_demoLeaf]
  obtain i found where lb: "BTreeNode_lowerBound demoLeaf [2] = (i, found)" by force
  from BTreeNode_lowerBound_spec [OF f(5,2) lb] lb show ?thesis by (auto simp: f(9))
qed

text \<open>C7: after any sequence of inserts and removes that a leaf takes without running out of
  room, a lookup returns what the same sequence of updates of a finite map gives, and the leaf
  satisfies its invariant.\<close>

theorem BTreeNode_ops_refine_map:
  assumes "leafInv n" "\<forall>op \<in> set ops. BTreeNode_covers n (op_key op) \<and> op_ok storable op"
    and "run_ops BTreeNode_tryInsert BTreeNode_remove ops n = Some n'" "BTreeNode_covers n key"
  shows "leafInv n' \<and> BTreeNode_lookup key n' = fold content_op ops (BTreeNode_content n) key"
  using basic_leaf.run_ops_content [OF assms(1-3)] basic_leaf.lookup_content [of n' key] assms(4) by simp

theorem BTreeNode_ops_refine_map_witness:
  "\<exists>n'. run_ops BTreeNode_tryInsert BTreeNode_remove [Del [2], Del [9]] demoLeaf = Some n' \<and>
     BTreeNode_lookup [2] n' = None"
proof -
  note f = rootLeaf_facts [OF rootLeaf_demoLeaf]
  let ?ops = "[Del [2], Del [9]]"
  obtain n' where n': "run_ops BTreeNode_tryInsert BTreeNode_remove ?ops demoLeaf = Some n'" by simp
  have "\<forall>op \<in> set ?ops. BTreeNode_covers demoLeaf (op_key op) \<and> op_ok storable op" using f(2) by simp
  from BTreeNode_ops_refine_map [OF f(1) this n' f(2) [of "[2]"]] n' show ?thesis by auto
qed

text \<open>An insert into a leaf stores the entry exactly when the key is new and the page has room
  for it after compaction; without room it leaves the leaf as it is, and it aborts only on a key
  that is present.\<close>

theorem BTreeNode_tryInsert_spec:
  assumes "leafInv n" "BTreeNode_covers n key" "length key < 65536" "length payload < 65536"
  shows "case BTreeNode_tryInsert key payload n of
      Inserted n' \<Rightarrow> BTreeNode_content n key = None \<and> leafInv n' \<and>
        BTreeNode_content n' = (BTreeNode_content n)(key \<mapsto> payload)
    | NoSpace n' \<Rightarrow> n' = n \<and>
        BTreeNode_freeSpaceAfterCompaction n < BTreeNode_spaceNeeded n (length key) (length payload)
    | Aborted \<Rightarrow> BTreeNode_content n key \<noteq> None"
  using tryInsert_correct [OF assms] by (auto split: insert_result.split)

theorem BTreeNode_tryInsert_spec_witness:
  "\<exists>n'. BTreeNode_tryInsert [4] [40] demoLeaf = Inserted n' \<and> BTreeNode_content n' [4] = Some [40]"
proof -
  note f = rootLeaf_facts [OF rootLeaf_demoLeaf]
  have "BTreeNode_tryInsert [4] [40] demoLeaf = Inserted (demoPut [4] [40] demoLeaf)"
    by (rule rootLeaf_demoPut(2) [OF rootLeaf_demoLeaf]) simp_all
  with BTreeNode_tryInsert_spec [OF f(1,2), of "[4]" "[40]"] show ?thesis by simp
qed

text \<open>Compaction keeps entries, fences and invariant, and afterwards the free space between slots
  and heap is what \<open>freeSpaceAfterCompaction\<close> promised.\<close>

theorem BTreeNode_compactify_spec:
  assumes "BTreeNode_inv n" "keysInFences n"
  shows "BTreeNode_inv (BTreeNode_compactify n) \<and>
    fullEntries (BTreeNode_compactify n) = fullEntries n \<and>
    BTreeNode_covers (BTreeNode_compactify n) = BTreeNode_covers n \<and>
    b_upper (BTreeNode_compactify n) = b_upper n \<and>
    BTreeNode_freeSpace (BTreeNode_compactify n) = BTreeNode_freeSpaceAfterCompaction n"
  using compactify_correct [OF assms] by (simp add: BTreeNode_covers_def)

theorem BTreeNode_compactify_spec_witness:
  "fullEntries (BTreeNode_compactify demoLeaf) = fullEntries demoLeaf"
  using BTreeNode_compactify_spec [OF rootLeaf_facts(5,6) [OF rootLeaf_demoLeaf]] by simp

text \<open>C18: a leaf with two entries or more has a separator: not the first slot, not empty, of the length
  \<open>findSeparator\<close> reports, not smaller than the entries up to its slot and smaller than the others.\<close>

theorem BTreeNode_findSeparator_spec:
  assumes "leafInv n" "1 < b_count n"
  shows "\<exists>info. BTreeNode_findSeparator n = Some info \<and> 0 < sep_slot info \<and> sep_slot info < b_count n \<and>
    length (BTreeNode_getSep n info) = sep_length info \<and>
    splitsAt (fullEntries n) (Suc (sep_slot info)) (BTreeNode_getSep n info)"
proof -
  from assms(1) have "BTreeNode_inv n" "BTreeNode_isLeaf n" by (auto simp: leafInv_def)
  from leaf_separator [OF this assms(2)] show ?thesis by metis
qed

theorem BTreeNode_findSeparator_spec_witness:
  "\<exists>info. BTreeNode_findSeparator demoLeaf = Some info \<and> BTreeNode_getSep demoLeaf info \<noteq> []"
proof -
  note f = rootLeaf_facts [OF rootLeaf_demoLeaf]
  have "1 < b_count demoLeaf" by (simp add: f(4))
  from BTreeNode_findSeparator_spec [OF f(1) this] show ?thesis by (auto simp: splitsAt_def)
qed

text \<open>C19: when both halves fit their pages, the split of a leaf at its separator gives two leaves that
  hold the entries up to the separator and after it, in order, keep the invariant, and share the
  separator as their common fence.\<close>

definition splitsInto :: "BTreeNode \<Rightarrow> bytes \<Rightarrow> BTreeNode \<Rightarrow> BTreeNode \<Rightarrow> bool" where
  "splitsInto n sep l r \<longleftrightarrow> leafInv l \<and> leafInv r \<and> fullEntries l @ fullEntries r = fullEntries n \<and>
     fullEntries l \<noteq> [] \<and> BTreeNode_getUpperFence l = sep \<and> BTreeNode_getLowerFence r = sep \<and>
     BTreeNode_getLowerFence l = BTreeNode_getLowerFence n \<and>
     BTreeNode_getUpperFence r = BTreeNode_getUpperFence n"

theorem BTreeNode_split_spec:
  assumes "leafInv n" "1 < b_count n"
    and info: "BTreeNode_findSeparator n = Some info" "BTreeNode_getSep n info = sep"
    and "fitsPage (Suc (sep_slot info)) (BTreeNode_getLowerFence n) sep
           (take (Suc (sep_slot info)) (fullEntries n))"
    and "fitsPage (b_count n - Suc (sep_slot info)) sep (BTreeNode_getUpperFence n)
           (drop (Suc (sep_slot info)) (fullEntries n))"
    and lr: "BTreeNode_splitPages n (sep_slot info) sep = (l, r)"
  shows "splitsInto n sep l r"
proof -
  from assms(1) have i: "BTreeNode_inv n" "keysInFences n" "BTreeNode_isLeaf n" by (auto simp: leafInv_def)
  from leaf_separator [OF i(1,3) assms(2)] info
  have s: "sep_slot info < b_count n" "splitsAt (fullEntries n) (Suc (sep_slot info)) sep"
    by (metis option.inject)+
  note sp = splitPages_leaf [OF i s assms(5,6) lr]
  have ne: "fullEntries n \<noteq> []" using assms(2) length_fullEntries [of n] by fastforce
  show ?thesis unfolding splitsInto_def leafInv_def BTreeNode_isLeaf_def using sp ne by simp
qed

lemma demoLeaf_separator:
  "BTreeNode_findSeparator demoLeaf = Some \<lparr>sep_length = 1, sep_slot = 1, sep_isTruncated = False\<rparr>"
  "BTreeNode_getSep demoLeaf \<lparr>sep_length = 1, sep_slot = 1, sep_isTruncated = False\<rparr> = [2]"
proof -
  note f = rootLeaf_facts [OF rootLeaf_demoLeaf]
  have e: "fullEntries demoLeaf ! 1 = (BTreeNode_getKey demoLeaf 1, BTreeNode_getPayload demoLeaf 1)"
    using nth_fullEntries [of 1 demoLeaf] by (simp add: f(4,13))
  have k: "BTreeNode_getKey demoLeaf 1 = [2]" using e by (simp add: f(9))
  have l: "s_keyLen (b_slot demoLeaf 1) = 1" by (metis k length_getKey length_Cons list.size(3) One_nat_def)
  have ni: "\<not> BTreeNode_isInner demoLeaf" using f(7) by (simp add: BTreeNode_isLeaf_def BTreeNode_isInner_def)
  show "BTreeNode_findSeparator demoLeaf = Some \<lparr>sep_length = 1, sep_slot = 1, sep_isTruncated = False\<rparr>"
    using k l ni by (simp add: BTreeNode_findSeparator_def USE_ORIGINAL_def Let_def f(4,8) BTreeNode_commonPrefix_def)
  show "BTreeNode_getSep demoLeaf \<lparr>sep_length = 1, sep_slot = 1, sep_isTruncated = False\<rparr> = [2]"
    by (subst getSep_take [where m = 1 and j = 1]) (simp_all add: f(8,13) k l del: One_nat_def)
qed

theorem BTreeNode_split_spec_witness:
  "\<exists>l r. BTreeNode_splitPages demoLeaf 1 [2] = (l, r) \<and> splitsInto demoLeaf [2] l r"
proof -
  note f = rootLeaf_facts [OF rootLeaf_demoLeaf]
  obtain l r where lr: "BTreeNode_splitPages demoLeaf 1 [2] = (l, r)" by force
  have "1 < b_count demoLeaf" by (simp add: f(4))
  from BTreeNode_split_spec [OF f(1) this demoLeaf_separator, of l r] lr
  show ?thesis by (simp add: f(4,9,11,12) fitsPage_def)
qed

text \<open>A merge of two neighbouring leaves succeeds exactly when the size it computes fits a page, and
  the merged leaf holds the entries of the left leaf followed by those of the right one, between
  the outer fences.\<close>

theorem BTreeNode_mergeLeaves_spec:
  assumes "leafInv l" "leafInv r" "neighbours l r"
  shows "case BTreeNode_mergeLeaves l r of
      None \<Rightarrow> 4096 < mergedSize l r
    | Some p \<Rightarrow> mergedSize l r \<le> 4096 \<and> leafInv p \<and> fullEntries p = fullEntries l @ fullEntries r \<and>
        BTreeNode_getLowerFence p = BTreeNode_getLowerFence l \<and>
        BTreeNode_getUpperFence p = BTreeNode_getUpperFence r"
proof -
  from assms have i: "BTreeNode_inv l" "BTreeNode_inv r" "keysInFences l" "keysInFences r" "BTreeNode_isLeaf l"
    by (auto simp: leafInv_def)
  note none = mergeLeaves_None [OF inv_facts(1) [OF i(1)] inv_facts(1) [OF i(2)] assms(3)]
  show ?thesis
  proof (cases "BTreeNode_mergeLeaves l r")
    case (Some p)
    from mergeLeaves_Some [OF i assms(3) Some] none Some show ?thesis
      by (simp add: leafInv_def BTreeNode_isLeaf_def)
  qed (use none in simp)
qed

theorem BTreeNode_mergeLeaves_spec_witness:
  "\<exists>l r. BTreeNode_splitPages demoLeaf 1 [2] = (l, r) \<and>
     (\<forall>p. BTreeNode_mergeLeaves l r = Some p \<longrightarrow> fullEntries p = fullEntries demoLeaf)"
proof -
  note f = rootLeaf_facts [OF rootLeaf_demoLeaf]
  obtain l r where lr: "BTreeNode_splitPages demoLeaf 1 [2] = (l, r)" by force
  have s: "splitsAt (fullEntries demoLeaf) (Suc 1) [2]" by (simp add: f(9) splitsAt_def)
  have fits: "fitsPage (Suc 1) [] [2] (take (Suc 1) (fullEntries demoLeaf))"
    "fitsPage (b_count demoLeaf - Suc 1) [2] [] (drop (Suc 1) (fullEntries demoLeaf))"
    by (simp_all add: f(4,9) fitsPage_def)
  have c: "1 < b_count demoLeaf" by (simp add: f(4))
  note sp = splitPages_leaf [OF f(5,6,7) c s, unfolded f(11,12), OF fits lr]
  have "leafInv l" "leafInv r" using sp by (auto simp: leafInv_def BTreeNode_isLeaf_def)
  moreover have "neighbours l r" by (simp add: neighbours_def sp inFences_def)
  ultimately have "case BTreeNode_mergeLeaves l r of None \<Rightarrow> 4096 < mergedSize l r
    | Some p \<Rightarrow> mergedSize l r \<le> 4096 \<and> leafInv p \<and> fullEntries p = fullEntries l @ fullEntries r \<and>
        BTreeNode_getLowerFence p = BTreeNode_getLowerFence l \<and>
        BTreeNode_getUpperFence p = BTreeNode_getUpperFence r"
    by (rule BTreeNode_mergeLeaves_spec)
  then have "\<forall>p. BTreeNode_mergeLeaves l r = Some p \<longrightarrow> fullEntries p = fullEntries demoLeaf"
    by (auto simp: sp(5,6))
  with lr show ?thesis by blast
qed

lemma range_lookup_scan:
  assumes "leafInv n" "BTreeNode_covers n key" "load keyOut 0 (b_prefixLength n) = BTreeNode_getPrefix n"
    and "BTreeNode_range_lookup cfg (Some key) cb n r keyOut s = ((c, keyOut', s'), n', r')"
  shows "(c, s') = scan cb (filter (\<lambda>(k, v). key \<le> k) (fullEntries n)) s"
    "load keyOut' 0 (b_prefixLength n) = BTreeNode_getPrefix n" "leafInv n'" "fullEntries n' = fullEntries n"
proof -
  obtain b roc r1 where ro: "range_op cfg (b_roc n) r = (b, roc, r1)" by (metis prod_cases3)
  let ?n = "n\<lparr>b_roc := roc\<rparr>"
  have same: "leafInv ?n" "fullEntries ?n = fullEntries n" "BTreeNode_covers ?n key"
    "BTreeNode_getPrefix ?n = BTreeNode_getPrefix n" "b_prefixLength ?n = b_prefixLength n"
    using assms(1,2) leafInv_roc by simp_all
  obtain i found where lb: "BTreeNode_lowerBound ?n key = (i, found)" by force
  have inv: "BTreeNode_inv ?n" using same(1) by (simp add: leafInv_def)
  have n': "n' = ?n" and loop: "BTreeNode_range_loop ?n cb i keyOut s = (c, keyOut', s')"
    using assms(4) ro lb by (auto simp: BTreeNode_range_lookup_def Let_def)
  have "load keyOut 0 (b_prefixLength ?n) = BTreeNode_getPrefix ?n" using assms(3) same by simp
  from range_loop_scan [OF this loop] filter_ge_lower_bound [OF lowerBound_full(1) [OF inv same(3) lb]] n' same
  show "(c, s') = scan cb (filter (\<lambda>(k, v). key \<le> k) (fullEntries n)) s"
    "load keyOut' 0 (b_prefixLength n) = BTreeNode_getPrefix n" "leafInv n'" "fullEntries n' = fullEntries n"
    by simp_all
qed

text \<open>When the key buffer starts with the prefix of a leaf, an ascending range lookup hands the
  callback exactly the entries not smaller than the start key, in key order, until it says stop,
  and leaves the prefix in the buffer.\<close>

theorem BTreeNode_range_lookup_spec:
  assumes "leafInv n" "BTreeNode_covers n key" "load keyOut 0 (b_prefixLength n) = BTreeNode_getPrefix n"
    and "BTreeNode_range_lookup cfg (Some key) cb n r keyOut s = ((c, keyOut', s'), n', r')"
  shows "(c, s') = scan cb (filter (\<lambda>(k, v). key \<le> k) (fullEntries n)) s \<and>
    load keyOut' 0 (b_prefixLength n) = BTreeNode_getPrefix n \<and>
    leafInv n' \<and> fullEntries n' = fullEntries n"
  using range_lookup_scan [OF assms] by simp

theorem BTreeNode_range_lookup_spec_witness:
  "\<exists>s' rest. BTreeNode_range_lookup default_config (Some [2]) (\<lambda>k v s. (True, s @ [k])) demoLeaf 42 (\<lambda>_. 0) [] =
     ((True, rest, s'), demoLeaf, 42) \<and> s' = [[2], [3]]"
proof -
  note f = rootLeaf_facts [OF rootLeaf_demoLeaf]
  let ?cb = "\<lambda>k v s. (True, s @ [k]) :: bool \<times> bytes list"
  obtain c k' s' n' r' where r: "BTreeNode_range_lookup default_config (Some [2]) ?cb demoLeaf 42 (\<lambda>_. 0) [] =
      ((c, k', s'), n', r')" by (metis prod_cases3)
  then have n': "n' = demoLeaf" "r' = 42"
    by (auto simp: BTreeNode_range_lookup_def range_op_def default_config_def)
  have "load (\<lambda>_. 0) 0 (b_prefixLength demoLeaf) = BTreeNode_getPrefix demoLeaf" by (simp add: f(8,13))
  from BTreeNode_range_lookup_spec [OF f(1,2) this r] r n' show ?thesis by (simp add: f(9))
qed

lemma range_lookup_desc_scan:
  assumes "leafInv n" "BTreeNode_covers n key"
    and "BTreeNode_range_lookup_desc key cb n keyOut s = (c, keyOut', s')"
  shows "(c, s') = scan cb (rev (filter (\<lambda>(k, v). k \<le> key) (fullEntries n))) s"
proof -
  obtain i found where lb: "BTreeNode_lowerBound n key = (i, found)" by force
  from assms(1) have inv: "BTreeNode_inv n" by (simp add: leafInv_def)
  note f = lowerBound_full [OF inv assms(2) lb]
  let ?k1 = "store keyOut 0 (take (b_prefixLength n) key)"
  have pl: "b_prefixLength n \<le> length key" "BTreeNode_getPrefix n @ drop (b_prefixLength n) key = key"
    using inFences_getPrefix [OF inv_facts(1) [OF inv]] assms(2) by (auto simp: BTreeNode_covers_def)
  have "take (b_prefixLength n) key = BTreeNode_getPrefix n" by (metis append_eq_conv_conj length_getPrefix pl(2))
  then have k1: "load ?k1 0 (b_prefixLength n) = BTreeNode_getPrefix n"
    using pl(1) by (simp add: load_store_same)
  have le: "(if found then i + 1 else i) \<le> b_count n" using f(1,2) by (auto simp: is_lower_bound_def)
  have "filter (\<lambda>(k, v). k \<le> key) (fullEntries n) = take (if found then i + 1 else i) (fullEntries n)"
    using filter_le_lower_bound [OF f(1) inv_facts(2) [OF inv]] f(2) by simp
  with range_loop_desc_scan [OF k1 le, of cb s c keyOut' s'] assms(3) lb
  show ?thesis by (simp add: BTreeNode_range_lookup_desc_def Let_def)
qed

text \<open>A descending range lookup of a leaf hands the callback exactly the entries not greater than
  the start key, in descending key order, until it says stop.\<close>

theorem BTreeNode_range_lookup_desc_spec:
  assumes "leafInv n" "BTreeNode_covers n key"
    and "BTreeNode_range_lookup_desc key cb n keyOut s = (c, keyOut', s')"
  shows "(c, s') = scan cb (rev (filter (\<lambda>(k, v). k \<le> key) (fullEntries n))) s"
  by (rule range_lookup_desc_scan [OF assms])

theorem BTreeNode_range_lookup_desc_spec_witness:
  "snd (snd (BTreeNode_range_lookup_desc [2] (\<lambda>k v s. (True, s @ [k])) demoLeaf (\<lambda>_. 0) [])) = [[2], [1]]"
proof -
  note f = rootLeaf_facts [OF rootLeaf_demoLeaf]
  let ?cb = "\<lambda>k v s. (True, s @ [k]) :: bool \<times> bytes list"
  obtain c k' s' where r: "BTreeNode_range_lookup_desc [2] ?cb demoLeaf (\<lambda>_. 0) [] = (c, k', s')"
    by (metis prod_cases3)
  from BTreeNode_range_lookup_desc_spec [OF f(1,2) r] r show ?thesis by (simp add: f(9))
qed

text \<open>Heads preserve the order of keys: a greater head means a greater key, and of two keys the
  smaller never has the greater head.\<close>

theorem head_order_preserving:
  "(head a < head b \<longrightarrow> a < b) \<and> (a \<le> b \<longrightarrow> head a \<le> head b)"
  using head_less_imp head_mono by blast

theorem head_order_preserving_witness: "[1, 2] < ([1, 3] :: bytes) \<and> head [1, 2] \<le> head [1, 3]"
  using head_order_preserving [of "[1, 2]" "[1, 3]"] by simp

end
