(* ===== verification/HashNode.thy ===== *)
theory HashNode
  imports BasicNodeMap
begin

text \<open>
  The hash leaf of \<open>libbtree/src/hash.cpp\<close>: a slotted page without order among its newer slots,
  with one hash byte per slot in an array inside the page, searched 32 bytes at a time. The
  conversions between basic and hash leaves are here too, up to the call of the parent that
  \<open>AnyNode\<close> adds. \<open>std::hash\<close> and the CRC instructions are parameters.
\<close>

subsection \<open>Hashing\<close>

record hash_env =
  std_hash :: "bytes \<Rightarrow> 64 word"
  mm_crc32_u8 :: "32 word \<Rightarrow> byte \<Rightarrow> 32 word"
  mm_crc32_u32 :: "32 word \<Rightarrow> 32 word \<Rightarrow> 32 word"

definition hashUseCrc32 :: bool where
  "hashUseCrc32 = False"

definition hashUseSimd :: bool where
  "hashUseSimd = True"

definition hashSortUseStdMerge :: bool where
  "hashSortUseStdMerge = True"

text \<open>\<open>crc32_hw\<close> on data at address \<open>addr\<close>: bytes up to the next word boundary, words, bytes.\<close>

fun crc32_bytes :: "hash_env \<Rightarrow> bytes \<Rightarrow> 32 word \<Rightarrow> 32 word" where
  "crc32_bytes env [] crc = crc"
| "crc32_bytes env (b # bs) crc = crc32_bytes env bs (mm_crc32_u8 env crc b)"

fun crc32_words :: "hash_env \<Rightarrow> bytes \<Rightarrow> 32 word \<Rightarrow> 32 word" where
  "crc32_words env (a # b # c # d # bs) crc =
     crc32_words env bs (mm_crc32_u32 env crc (loadUnaligned32 [a, b, c, d]))"
| "crc32_words env bs crc = crc32_bytes env bs crc"

definition crc32_hw :: "hash_env \<Rightarrow> nat \<Rightarrow> bytes \<Rightarrow> 32 word \<Rightarrow> 32 word" where
  "crc32_hw env addr data crc =
     (let head = min (length data) ((4 - addr mod 4) mod 4)
      in crc32_words env (drop head data) (crc32_bytes env (take head data) crc))"

definition compute_hash :: "hash_env \<Rightarrow> nat \<Rightarrow> bytes \<Rightarrow> byte" where
  "compute_hash env addr key =
     (if hashUseCrc32 then ucast (crc32_hw env addr key 0) else ucast (std_hash env key))"

lemma compute_hash_addr: "compute_hash env addr key = compute_hash env 0 key"
  by (simp add: compute_hash_def hashUseCrc32_def)

subsection \<open>The page\<close>

record HashSlot =
  hs_offset :: nat
  hs_keyLen :: nat
  hs_payloadLen :: nat

record HashNode =
  h_roc :: nat
  h_count :: nat
  h_sortedCount :: nat
  h_spaceUsed :: nat
  h_dataOffset :: nat
  h_prefixLength :: nat
  h_hashCapacity :: nat
  h_hashOffset :: nat
  h_lowerFenceLen :: nat
  h_upperFenceLen :: nat
  h_slot :: "nat \<Rightarrow> HashSlot"
  h_heap :: memory

definition sizeof_HashNodeHeader :: nat where
  "sizeof_HashNodeHeader = 20"

definition sizeof_HashSlot :: nat where
  "sizeof_HashSlot = 6"

definition TmpHashNode :: HashNode where
  "TmpHashNode = \<lparr>h_roc = 0, h_count = 0, h_sortedCount = 0, h_spaceUsed = 0, h_dataOffset = 0,
     h_prefixLength = 0, h_hashCapacity = 0, h_hashOffset = 0, h_lowerFenceLen = 0,
     h_upperFenceLen = 0, h_slot = (\<lambda>_. \<lparr>hs_offset = 0, hs_keyLen = 0, hs_payloadLen = 0\<rparr>), h_heap = (\<lambda>_. 0)\<rparr>"

definition HashNode_getLowerFence :: "HashNode \<Rightarrow> bytes" where
  "HashNode_getLowerFence n = load (h_heap n) (pageSizeLeaf - h_lowerFenceLen n) (h_lowerFenceLen n)"

definition HashNode_getUpperFence :: "HashNode \<Rightarrow> bytes" where
  "HashNode_getUpperFence n =
     load (h_heap n) (pageSizeLeaf - h_lowerFenceLen n - h_upperFenceLen n) (h_upperFenceLen n)"

definition HashNode_getPrefix :: "HashNode \<Rightarrow> bytes" where
  "HashNode_getPrefix n = load (h_heap n) (pageSizeLeaf - h_lowerFenceLen n) (h_prefixLength n)"

definition HashNode_updatePrefixLength :: "HashNode \<Rightarrow> HashNode" where
  "HashNode_updatePrefixLength n =
     n\<lparr>h_prefixLength := for_until (\<lambda>i. HashNode_getLowerFence n ! i \<noteq> HashNode_getUpperFence n ! i) 0
        (min (h_upperFenceLen n) (h_lowerFenceLen n))\<rparr>"

definition HashNode_init :: "bytes \<Rightarrow> bytes \<Rightarrow> nat \<Rightarrow> nat \<Rightarrow> HashNode \<Rightarrow> HashNode" where
  "HashNode_init lowerFence upperFence hashCapacity roc n =
     (let spaceUsed = u16 (length upperFence + length lowerFence);
          dataOffset = sub16 (sub16 pageSizeLeaf spaceUsed) hashCapacity
      in HashNode_updatePrefixLength (n\<lparr>h_roc := roc, h_count := 0, h_sortedCount := 0,
           h_spaceUsed := spaceUsed, h_dataOffset := dataOffset, h_hashOffset := dataOffset,
           h_hashCapacity := u16 hashCapacity, h_lowerFenceLen := u16 (length lowerFence),
           h_upperFenceLen := u16 (length upperFence),
           h_heap := store (store (h_heap n) (pageSizeLeaf - length lowerFence) lowerFence)
             (pageSizeLeaf - length lowerFence - length upperFence) upperFence\<rparr>))"

definition HashNode_makeRootLeaf :: HashNode where
  "HashNode_makeRootLeaf = HashNode_init [] [] (pageSizeLeaf div 64) RangeOpCounter_new TmpHashNode"

definition HashNode_getKey :: "HashNode \<Rightarrow> nat \<Rightarrow> bytes" where
  "HashNode_getKey n i = load (h_heap n) (hs_offset (h_slot n i)) (hs_keyLen (h_slot n i))"

definition HashNode_getPayload :: "HashNode \<Rightarrow> nat \<Rightarrow> bytes" where
  "HashNode_getPayload n i =
     load (h_heap n) (hs_offset (h_slot n i) + hs_keyLen (h_slot n i)) (hs_payloadLen (h_slot n i))"

definition HashNode_hash :: "HashNode \<Rightarrow> nat \<Rightarrow> byte" where
  "HashNode_hash n i = h_heap n (h_hashOffset n + i)"

definition hashSlotsEnd :: "nat \<Rightarrow> nat" where
  "hashSlotsEnd count = sizeof_HashNodeHeader + count * sizeof_HashSlot"

definition HashNode_freeSpace :: "HashNode \<Rightarrow> nat" where
  "HashNode_freeSpace n = sub32 (h_dataOffset n) (hashSlotsEnd (h_count n))"

definition HashNode_freeSpaceAfterCompaction :: "HashNode \<Rightarrow> nat" where
  "HashNode_freeSpaceAfterCompaction n = sub32 pageSizeLeaf (hashSlotsEnd (h_count n) + h_spaceUsed n)"

definition HashNode_estimateCapacity :: "HashNode \<Rightarrow> nat" where
  "HashNode_estimateCapacity n =
     (let available = sub32 pageSizeLeaf (sizeof_HashNodeHeader + h_upperFenceLen n + h_lowerFenceLen n);
          entrySpaceUse = sub32 (h_spaceUsed n + h_count n * sizeof_HashSlot) (h_upperFenceLen n + h_lowerFenceLen n)
      in if h_count n = 0 then pageSizeLeaf div 64
         else u32 (available * h_count n) div u32 (entrySpaceUse + h_count n))"

subsection \<open>Searching\<close>

text \<open>The index found, \<open>None\<close> for -1.\<close>

definition HashNode_findIndexNoSimd :: "HashNode \<Rightarrow> bytes \<Rightarrow> byte \<Rightarrow> nat option" where
  "HashNode_findIndexNoSimd n key needle =
     (let key' = drop (h_prefixLength n) key;
          i = for_until (\<lambda>i. HashNode_hash n i = needle \<and> length key' = hs_keyLen (h_slot n i) \<and>
                 memcmp (HashNode_getKey n i) key' = 0) 0 (h_count n)
      in if i < h_count n then Some i else None)"

text \<open>The comparison of 32 bytes at \<open>addr\<close> with the needle, one bit per byte.\<close>

definition hashSimdEq :: "memory \<Rightarrow> nat \<Rightarrow> byte \<Rightarrow> 32 word" where
  "hashSimdEq m addr needle = horner_sum of_bool 2 (map (\<lambda>j. m (addr + j) = needle) [0..<hashSimdWidth])"

definition countr_zero :: "32 word \<Rightarrow> nat" where
  "countr_zero w = for_until (bit w) 0 32"

function HashNode_simdLoop :: "HashNode \<Rightarrow> bytes \<Rightarrow> byte \<Rightarrow> nat \<Rightarrow> nat \<Rightarrow> nat \<Rightarrow> nat \<Rightarrow> 32 word \<Rightarrow> nat option" where
  "HashNode_simdLoop n key hash misalign limit haystack shift matches =
     (if shift < limit then
        (let trailing_zeros = countr_zero matches
         in if trailing_zeros = hashSimdWidth then
              (let shift' = shift - shift mod hashSimdWidth + hashSimdWidth
               in if shift' \<ge> limit then None
                  else HashNode_simdLoop n key hash misalign limit (haystack + hashSimdWidth) shift'
                         (hashSimdEq (h_heap n) (haystack + hashSimdWidth) hash))
            else
              (let shift' = shift + trailing_zeros;
                   matches' = drop_bit trailing_zeros matches - 1
               in if shift' \<ge> limit then None
                  else
                    (let elementIndex = shift' - misalign
                     in if hs_keyLen (h_slot n elementIndex) = length key \<and>
                           memcmp (HashNode_getKey n elementIndex) key = 0
                        then Some elementIndex
                        else HashNode_simdLoop n key hash misalign limit haystack shift' matches')))
      else None)"
  by pat_completeness auto

lemma countr_zero_bit: "countr_zero w < 32 \<Longrightarrow> bit w (countr_zero w)"
  unfolding countr_zero_def by (rule for_until_stop)

lemma countr_zero_le: "countr_zero w \<le> 32"
  unfolding countr_zero_def using for_until_bounds [of 0 32] by simp

lemma countr_zero_before: "i < countr_zero w \<Longrightarrow> \<not> bit w i"
  unfolding countr_zero_def by (rule for_until_before) simp_all

lemma drop_bit_minus_less:
  assumes "countr_zero w < 32"
  shows "unat (drop_bit (countr_zero w) w - 1) < unat w"
proof -
  let ?d = "drop_bit (countr_zero w) w"
  have "bit ?d 0" using countr_zero_bit [OF assms] by (simp add: bit_drop_bit_eq)
  then have "?d \<noteq> 0" by auto
  then have "unat (?d - 1) < unat ?d" by (simp add: unat_minus_one unat_gt_0)
  also have "unat ?d \<le> unat w" unfolding unat_drop_bit_eq by (simp add: drop_bit_eq_div)
  finally show ?thesis .
qed

termination HashNode_simdLoop
proof (relation "measures [\<lambda>(n, key, hash, misalign, limit, haystack, shift, matches). limit - shift,
    \<lambda>(n, key, hash, misalign, limit, haystack, shift, matches). unat matches]", goal_cases)
  case 1
  show ?case by simp
next
  case (2 n key hash misalign limit haystack shift matches tz shift')
  have "shift mod 32 \<le> shift" "shift mod 32 < 32" by simp_all
  with 2 show ?case by (auto simp: hashSimdWidth_def)
next
  case (3 n key hash misalign limit haystack shift matches tz shift' matches' elementIndex)
  then have "countr_zero matches < 32"
    using countr_zero_le [of matches] by (simp add: hashSimdWidth_def)
  with 3 drop_bit_minus_less show ?case by auto
qed

declare HashNode_simdLoop.simps [simp del]

definition HashNode_findIndexSimd :: "HashNode \<Rightarrow> bytes \<Rightarrow> byte \<Rightarrow> nat option" where
  "HashNode_findIndexSimd n key hash =
     (let key' = drop (h_prefixLength n) key;
          hashMisalign = h_hashOffset n mod hashSimdWidth;
          haystack = h_hashOffset n - hashMisalign;
          shift = hashMisalign;
          matches = drop_bit shift (hashSimdEq (h_heap n) haystack hash)
      in HashNode_simdLoop n key' hash hashMisalign (shift + h_count n) haystack shift matches)"

definition HashNode_findIndex :: "HashNode \<Rightarrow> bytes \<Rightarrow> byte \<Rightarrow> nat option" where
  "HashNode_findIndex n key hash =
     (if hashUseSimd then HashNode_findIndexSimd n key hash else HashNode_findIndexNoSimd n key hash)"

subsection \<open>Writing entries\<close>

definition HashNode_setHash :: "nat \<Rightarrow> byte \<Rightarrow> HashNode \<Rightarrow> HashNode" where
  "HashNode_setHash i hash n = n\<lparr>h_heap := store (h_heap n) (h_hashOffset n + i) [hash]\<rparr>"

definition HashNode_updateHash :: "hash_env \<Rightarrow> nat \<Rightarrow> HashNode \<Rightarrow> HashNode" where
  "HashNode_updateHash env i n =
     HashNode_setHash i (compute_hash env (hs_offset (h_slot n i)) (HashNode_getKey n i)) n"

definition HashNode_storeKeyValue :: "nat \<Rightarrow> bytes \<Rightarrow> bytes \<Rightarrow> byte \<Rightarrow> HashNode \<Rightarrow> HashNode" where
  "HashNode_storeKeyValue slotId key payload hash n =
     (let key' = drop (h_prefixLength n) key;
          space = length key' + length payload;
          off = sub16 (h_dataOffset n) space
      in HashNode_setHash slotId hash
           (n\<lparr>h_dataOffset := off, h_spaceUsed := add16 (h_spaceUsed n) space,
              h_slot := (h_slot n)(slotId := \<lparr>hs_offset = off, hs_keyLen = u16 (length key'),
                hs_payloadLen = u16 (length payload)\<rparr>),
              h_heap := store (store (h_heap n) off key') (off + length key') payload\<rparr>))"

definition HashNode_copyKeyValue :: "hash_env \<Rightarrow> HashNode \<Rightarrow> nat \<Rightarrow> nat \<Rightarrow> HashNode \<Rightarrow> HashNode" where
  "HashNode_copyKeyValue env src srcSlot dstSlot dst =
     (let key = HashNode_getPrefix src @ HashNode_getKey src srcSlot
      in HashNode_storeKeyValue dstSlot key (HashNode_getPayload src srcSlot)
           (compute_hash env 0 (drop (h_prefixLength dst) key)) dst)"

definition HashNode_copyTruncated :: "hash_env \<Rightarrow> HashNode \<Rightarrow> nat \<Rightarrow> nat \<Rightarrow> nat \<Rightarrow> HashNode \<Rightarrow> HashNode" where
  "HashNode_copyTruncated env src diff srcSlot dstSlot dst =
     (let sl = h_slot src srcSlot;
          newKeyLength = sub32 (hs_keyLen sl) diff;
          space = u32 (newKeyLength + hs_payloadLen sl);
          off = sub16 (h_dataOffset dst) space
      in HashNode_updateHash env dstSlot
           (dst\<lparr>h_dataOffset := off, h_spaceUsed := add16 (h_spaceUsed dst) space,
                h_slot := (h_slot dst)(dstSlot := \<lparr>hs_offset = off, hs_keyLen = u16 newKeyLength,
                  hs_payloadLen = hs_payloadLen sl\<rparr>),
                h_heap := store (h_heap dst) off (load (h_heap src) (hs_offset sl + diff) space)\<rparr>))"

definition HashNode_copyKeyValueRange ::
    "hash_env \<Rightarrow> HashNode \<Rightarrow> nat \<Rightarrow> nat \<Rightarrow> nat \<Rightarrow> HashNode \<Rightarrow> HashNode" where
  "HashNode_copyKeyValueRange env src dstSlot srcSlot srcCount dst =
     (let dst' =
        (if h_prefixLength src \<le> h_prefixLength dst then
           fold (\<lambda>i. HashNode_copyTruncated env src (h_prefixLength dst - h_prefixLength src)
                       (srcSlot + i) (dstSlot + i)) [0..<srcCount] dst
         else fold (\<lambda>i. HashNode_copyKeyValue env src (srcSlot + i) (dstSlot + i)) [0..<srcCount] dst)
      in dst'\<lparr>h_count := add16 (h_count dst') srcCount\<rparr>)"

subsection \<open>Space\<close>

definition HashNode_compactify :: "hash_env \<Rightarrow> nat \<Rightarrow> HashNode \<Rightarrow> HashNode" where
  "HashNode_compactify env newHashCapacity n =
     (let tmp = HashNode_init (HashNode_getLowerFence n) (HashNode_getUpperFence n) newHashCapacity (h_roc n) TmpHashNode;
          tmp = tmp\<lparr>h_heap := store (h_heap tmp) (h_hashOffset tmp) (load (h_heap n) (h_hashOffset n) (h_count n)),
                    h_slot := (\<lambda>i. if i < h_count n then h_slot n i else h_slot tmp i)\<rparr>;
          tmp = HashNode_copyKeyValueRange env n 0 0 (h_count n) tmp
      in tmp\<lparr>h_sortedCount := h_sortedCount n\<rparr>)"

definition HashNode_requestSlotAndSpace :: "hash_env \<Rightarrow> nat \<Rightarrow> HashNode \<Rightarrow> bool \<times> HashNode" where
  "HashNode_requestSlotAndSpace env kvSize n =
     (if h_count n < h_hashCapacity n \<and> kvSize + sizeof_HashSlot \<le> HashNode_freeSpace n then (True, n)
      else
        (let onCompactifyCapacity = max (HashNode_estimateCapacity n) (h_count n + 1);
             tooBig = (onCompactifyCapacity + kvSize + sizeof_HashSlot > HashNode_freeSpaceAfterCompaction n);
             compacted =
               (if onCompactifyCapacity \<le> h_count n + h_count n * 3 div 128 then (False, n)
                else (True, HashNode_compactify env onCompactifyCapacity n))
         in if h_count n < h_hashCapacity n then (if tooBig then (False, n) else compacted)
            else if onCompactifyCapacity + kvSize + sizeof_HashSlot \<le> HashNode_freeSpace n then
              (let off = sub16 (h_dataOffset n) onCompactifyCapacity
               in (True, n\<lparr>h_dataOffset := off,
                     h_heap := store (h_heap n) off (load (h_heap n) (h_hashOffset n) (h_count n)),
                     h_hashOffset := off, h_hashCapacity := u16 onCompactifyCapacity\<rparr>))
            else if tooBig then (False, n)
            else compacted))"

subsection \<open>Operations\<close>

definition HashNode_lookup :: "config \<Rightarrow> hash_env \<Rightarrow> bytes \<Rightarrow> HashNode \<Rightarrow> rng \<Rightarrow> bytes option \<times> HashNode \<times> rng" where
  "HashNode_lookup cfg env key n r =
     (let (_, roc, r') = point_op cfg (h_roc n) r;
          n' = n\<lparr>h_roc := roc\<rparr>
      in (map_option (HashNode_getPayload n')
            (HashNode_findIndex n' key (compute_hash env 0 (drop (h_prefixLength n') key))), n', r'))"

text \<open>An entry that is found is stored again; its old bytes stay counted, and the new size is
  subtracted.\<close>

definition HashNode_insertWithSpace :: "hash_env \<Rightarrow> bytes \<Rightarrow> bytes \<Rightarrow> HashNode \<Rightarrow> HashNode" where
  "HashNode_insertWithSpace env key payload n =
     (let hash = compute_hash env 0 (drop (h_prefixLength n) key)
      in case HashNode_findIndex n key hash of
           None \<Rightarrow>
             (let n1 = HashNode_storeKeyValue (h_count n) key payload hash n
              in n1\<lparr>h_count := add16 (h_count n1) 1\<rparr>)
         | Some index \<Rightarrow>
             (let n1 = HashNode_storeKeyValue index key payload hash n
              in n1\<lparr>h_spaceUsed := sub16 (h_spaceUsed n1)
                      (sub32 (length key) (h_prefixLength n1) + length payload)\<rparr>))"

definition HashNode_tryInsert :: "hash_env \<Rightarrow> bytes \<Rightarrow> bytes \<Rightarrow> HashNode \<Rightarrow> HashNode insert_result" where
  "HashNode_tryInsert env key payload n =
     (let (ok, n1) = HashNode_requestSlotAndSpace env (u32 (sub32 (length key) (h_prefixLength n) + length payload)) n
      in if \<not> ok then NoSpace n1 else Inserted (HashNode_insertWithSpace env key payload n1))"

definition HashNode_insert :: "config \<Rightarrow> hash_env \<Rightarrow> bytes \<Rightarrow> bytes \<Rightarrow> HashNode \<Rightarrow> rng \<Rightarrow> HashNode insert_result \<times> rng" where
  "HashNode_insert cfg env key payload n r =
     (let (_, roc, r') = point_op cfg (h_roc n) r
      in (HashNode_tryInsert env key payload (n\<lparr>h_roc := roc\<rparr>), r'))"

definition HashNode_removeSlot :: "nat \<Rightarrow> HashNode \<Rightarrow> HashNode" where
  "HashNode_removeSlot slotId n = n\<lparr>
     h_spaceUsed := sub16 (sub16 (h_spaceUsed n) (hs_keyLen (h_slot n slotId))) (hs_payloadLen (h_slot n slotId)),
     h_slot := memmove_array (h_slot n) slotId (slotId + 1) (h_count n - slotId - 1),
     h_heap := memmove_array (h_heap n) (h_hashOffset n + slotId) (h_hashOffset n + slotId + 1) (h_count n - slotId - 1),
     h_count := sub16 (h_count n) 1,
     h_sortedCount := h_sortedCount n - (if slotId < h_sortedCount n then 1 else 0)\<rparr>"

definition HashNode_remove :: "hash_env \<Rightarrow> bytes \<Rightarrow> HashNode \<Rightarrow> bool \<times> HashNode" where
  "HashNode_remove env key n =
     (case HashNode_findIndex n key (compute_hash env 0 (drop (h_prefixLength n) key)) of
        None \<Rightarrow> (False, n)
      | Some index \<Rightarrow> (True, HashNode_removeSlot index n))"

subsection \<open>Sorting\<close>

text \<open>\<open>std::sort\<close> and \<open>std::inplace_merge\<close> by the key a slot points at. Keys are distinct, so the
  order of equal elements, which \<open>std::sort\<close> leaves open, does not matter.\<close>

definition slotKey :: "HashNode \<Rightarrow> HashSlot \<Rightarrow> bytes" where
  "slotKey n s = load (h_heap n) (hs_offset s) (hs_keyLen s)"

fun merge_by :: "('a \<Rightarrow> 'k::linorder) \<Rightarrow> 'a list \<Rightarrow> 'a list \<Rightarrow> 'a list" where
  "merge_by f [] ys = ys"
| "merge_by f xs [] = xs"
| "merge_by f (x # xs) (y # ys) =
     (if f y < f x then y # merge_by f (x # xs) ys else x # merge_by f xs (y # ys))"

definition HashNode_slots :: "HashNode \<Rightarrow> HashSlot list" where
  "HashNode_slots n = map (h_slot n) [0..<h_count n]"

definition HashNode_sort :: "hash_env \<Rightarrow> HashNode \<Rightarrow> HashNode" where
  "HashNode_sort env n =
     (if h_sortedCount n = h_count n then n
      else
        (let slots = HashNode_slots n;
             sorted = merge_by (slotKey n) (take (h_sortedCount n) slots)
               (sort_key (slotKey n) (drop (h_sortedCount n) slots));
             n1 = n\<lparr>h_slot := (\<lambda>i. if i < h_count n then sorted ! i else h_slot n i)\<rparr>;
             n2 = fold (HashNode_updateHash env) [0..<h_count n] n1
         in n2\<lparr>h_sortedCount := h_count n\<rparr>))"

text \<open>The binary search in a sorted hash leaf.\<close>

definition hashSlotCmp :: "HashNode \<Rightarrow> bytes \<Rightarrow> nat \<Rightarrow> int" where
  "hashSlotCmp n key mid = key_cmp key (HashNode_getKey n mid)"

function HashNode_search :: "HashNode \<Rightarrow> bytes \<Rightarrow> nat \<Rightarrow> nat \<Rightarrow> nat \<times> bool" where
  "HashNode_search n key lower upper =
     (if lower < upper then
        (let mid = (upper - lower) div 2 + lower
         in if hashSlotCmp n key mid < 0 then HashNode_search n key lower mid
            else if hashSlotCmp n key mid > 0 then HashNode_search n key (mid + 1) upper
            else (mid, True))
      else (lower, False))"
  by pat_completeness auto
termination
  by (relation "measure (\<lambda>(n, key, lower, upper). upper - lower)") auto

declare HashNode_search.simps [simp del]

definition HashNode_lowerBound :: "HashNode \<Rightarrow> bytes \<Rightarrow> nat \<times> bool" where
  "HashNode_lowerBound n key = HashNode_search n (drop (h_prefixLength n) key) 0 (h_count n)"

subsection \<open>Separators, splits and merges\<close>

definition HashNode_commonPrefix :: "HashNode \<Rightarrow> nat \<Rightarrow> nat \<Rightarrow> nat" where
  "HashNode_commonPrefix n slotA slotB = lcp (HashNode_getKey n slotA) (HashNode_getKey n slotB)"

definition HashNode_findSeparator :: "HashNode \<Rightarrow> SeparatorInfo" where
  "HashNode_findSeparator n =
     originalSeparator (HashNode_commonPrefix n) (\<lambda>i. hs_keyLen (h_slot n i)) (h_prefixLength n) (h_count n)"

definition HashNode_getSep :: "HashNode \<Rightarrow> SeparatorInfo \<Rightarrow> bytes" where
  "HashNode_getSep n info =
     HashNode_getPrefix n @
     load (h_heap n) (hs_offset (h_slot n (sep_slot info + (if sep_isTruncated info then 1 else 0))))
       (sub32 (sep_length info) (h_prefixLength n))"

definition HashNode_hasGoodHeads :: "HashNode \<Rightarrow> bool" where
  "HashNode_hasGoodHeads n \<longleftrightarrow>
     \<not> length (filter (\<lambda>i. hs_keyLen (h_slot n (i - 1)) > 4 \<and> hs_keyLen (h_slot n i) > 4 \<and>
           load (h_heap n) (hs_offset (h_slot n (i - 1))) 4 = load (h_heap n) (hs_offset (h_slot n i)) 4)
         [1..<h_count n]) > h_count n div 16"

text \<open>The two pages of a split that stays with hash leaves.\<close>

definition HashNode_splitPages :: "hash_env \<Rightarrow> HashNode \<Rightarrow> nat \<Rightarrow> bytes \<Rightarrow> HashNode \<times> HashNode" where
  "HashNode_splitPages env n sepSlot sepKey =
     (let capacity = HashNode_estimateCapacity n;
          nodeLeft = HashNode_init (HashNode_getLowerFence n) sepKey capacity (h_roc n) TmpHashNode;
          right = HashNode_init sepKey (HashNode_getUpperFence n) capacity (h_roc n) TmpHashNode;
          nodeLeft = HashNode_copyKeyValueRange env n 0 0 (sepSlot + 1) nodeLeft;
          right = HashNode_copyKeyValueRange env n 0 (h_count nodeLeft) (h_count n - h_count nodeLeft) right
      in (nodeLeft\<lparr>h_sortedCount := h_count nodeLeft\<rparr>, right\<lparr>h_sortedCount := h_count right\<rparr>))"

definition HashNode_mergePages :: "hash_env \<Rightarrow> HashNode \<Rightarrow> HashNode \<Rightarrow> HashNode option" where
  "HashNode_mergePages env left right =
     (let newHashCapacity = max (min (HashNode_estimateCapacity left) (HashNode_estimateCapacity right))
            (h_count left + h_count right);
          tmp = HashNode_init (HashNode_getLowerFence left) (HashNode_getUpperFence right) newHashCapacity
            (h_roc left) TmpHashNode;
          leftGrow = sub32 (h_prefixLength left) (h_prefixLength tmp) * h_count left;
          rightGrow = sub32 (h_prefixLength right) (h_prefixLength tmp) * h_count right;
          spaceUpperBound = u32 (h_spaceUsed left + h_spaceUsed right + newHashCapacity +
            hashSlotsEnd (h_count left + h_count right) + leftGrow + rightGrow)
      in if spaceUpperBound > pageSizeLeaf then None
         else
           (let tmp1 = HashNode_copyKeyValueRange env left 0 0 (h_count left) tmp
            in Some (HashNode_copyKeyValueRange env right (h_count left) 0 (h_count right) tmp1)))"

subsection \<open>Conversions between hash leaves and basic leaves\<close>

definition HashNode_copyKeyValueToBasic :: "HashNode \<Rightarrow> nat \<Rightarrow> nat \<Rightarrow> BTreeNode \<Rightarrow> BTreeNode" where
  "HashNode_copyKeyValueToBasic src srcSlot dstSlot dst =
     BTreeNode_storeKeyValue dstSlot (HashNode_getPrefix src @ HashNode_getKey src srcSlot)
       (HashNode_getPayload src srcSlot) dst"

definition HashNode_copyKeyValueRangeToBasic :: "HashNode \<Rightarrow> nat \<Rightarrow> nat \<Rightarrow> nat \<Rightarrow> BTreeNode \<Rightarrow> BTreeNode" where
  "HashNode_copyKeyValueRangeToBasic src dstSlot srcSlot srcCount dst =
     (let dst' = fold (\<lambda>i. HashNode_copyKeyValueToBasic src (srcSlot + i) (dstSlot + i)) [0..<srcCount] dst
      in BTreeNode_makeHint (dst'\<lparr>b_count := add16 (b_count dst') srcCount\<rparr>))"

definition HashNode_splitToBasicPages :: "HashNode \<Rightarrow> nat \<Rightarrow> bytes \<Rightarrow> BTreeNode \<times> BTreeNode" where
  "HashNode_splitToBasicPages n sepSlot sepKey =
     (let nodeLeft = BTreeNode_setFences (HashNode_getLowerFence n) sepKey (BTreeNode_init True (h_roc n) TmpBTreeNode);
          right = BTreeNode_setFences sepKey (HashNode_getUpperFence n) (BTreeNode_init True (h_roc n) TmpBTreeNode);
          nodeLeft = HashNode_copyKeyValueRangeToBasic n 0 0 (sepSlot + 1) nodeLeft;
          right = HashNode_copyKeyValueRangeToBasic n 0 (b_count nodeLeft) (h_count n - b_count nodeLeft) right
      in (nodeLeft, right))"

definition HashNode_tryConvertToBasic :: "hash_env \<Rightarrow> HashNode \<Rightarrow> BTreeNode option" where
  "HashNode_tryConvertToBasic env n =
     (if h_spaceUsed n + h_count n * sizeof_Slot + sizeof_BTreeNodeHeader > pageSizeLeaf then None
      else
        (let n1 = HashNode_sort env n;
             tmp = BTreeNode_setFences (HashNode_getLowerFence n1) (HashNode_getUpperFence n1)
               (BTreeNode_init True (h_roc n1) TmpBTreeNode)
         in Some (HashNode_copyKeyValueRangeToBasic n1 0 0 (h_count n1) tmp)))"

definition BTreeNode_copyKeyValueToHash :: "hash_env \<Rightarrow> BTreeNode \<Rightarrow> nat \<Rightarrow> nat \<Rightarrow> HashNode \<Rightarrow> HashNode" where
  "BTreeNode_copyKeyValueToHash env src srcSlot dstSlot dst =
     (let key = BTreeNode_getPrefix src @ BTreeNode_getKey src srcSlot
      in HashNode_storeKeyValue dstSlot key (BTreeNode_getPayload src srcSlot)
           (compute_hash env 0 (drop (h_prefixLength dst) key)) dst)"

definition BTreeNode_copyKeyValueRangeToHash :: "hash_env \<Rightarrow> BTreeNode \<Rightarrow> nat \<Rightarrow> nat \<Rightarrow> nat \<Rightarrow> HashNode \<Rightarrow> HashNode" where
  "BTreeNode_copyKeyValueRangeToHash env src dstSlot srcSlot srcCount dst =
     (let dst' = fold (\<lambda>i. BTreeNode_copyKeyValueToHash env src (srcSlot + i) (dstSlot + i)) [0..<srcCount] dst
      in dst'\<lparr>h_count := add16 (h_count dst') srcCount\<rparr>)"

definition BTreeNode_splitToHashPages :: "hash_env \<Rightarrow> BTreeNode \<Rightarrow> nat \<Rightarrow> bytes \<Rightarrow> HashNode \<times> HashNode" where
  "BTreeNode_splitToHashPages env n sepSlot sepKey =
     (let capacity = b_count n;
          nodeLeft = HashNode_init (BTreeNode_getLowerFence n) sepKey capacity (b_roc n) TmpHashNode;
          right = HashNode_init sepKey (BTreeNode_getUpperFence n) capacity (b_roc n) TmpHashNode;
          nodeLeft = BTreeNode_copyKeyValueRangeToHash env n 0 0 (sepSlot + 1) nodeLeft;
          right = BTreeNode_copyKeyValueRangeToHash env n 0 (h_count nodeLeft) (b_count n - h_count nodeLeft) right
      in (nodeLeft\<lparr>h_sortedCount := h_count nodeLeft\<rparr>, right\<lparr>h_sortedCount := h_count right\<rparr>))"

definition BTreeNode_tryConvertToHash :: "hash_env \<Rightarrow> BTreeNode \<Rightarrow> HashNode option" where
  "BTreeNode_tryConvertToHash env n =
     (if b_spaceUsed n + b_count n * (1 + sizeof_HashSlot) + sizeof_HashNodeHeader > pageSizeLeaf then None
      else
        (let available = sub32 pageSizeLeaf (sizeof_HashNodeHeader + fk_length (b_upperFence n) + fk_length (b_lowerFence n));
             entrySpaceUse = sub32 (b_spaceUsed n + b_count n * sizeof_HashSlot)
               (fk_length (b_upperFence n) + fk_length (b_lowerFence n));
             capacity = (if b_count n = 0 then pageSizeLeaf div 64
               else u32 (available * b_count n) div u32 (entrySpaceUse + b_count n));
             tmp = HashNode_init (BTreeNode_getLowerFence n) (BTreeNode_getUpperFence n) capacity (b_roc n) TmpHashNode;
             tmp = BTreeNode_copyKeyValueRangeToHash env n 0 0 (b_count n) tmp
         in Some (tmp\<lparr>h_sortedCount := h_count tmp\<rparr>)))"

subsection \<open>Range lookups\<close>

function HashNode_range_loop :: "HashNode \<Rightarrow> 's callback \<Rightarrow> nat \<Rightarrow> memory \<Rightarrow> 's \<Rightarrow> bool \<times> memory \<times> 's" where
  "HashNode_range_loop n cb i keyOut s =
     (if i < h_count n then
        (let keyOut' = store keyOut (h_prefixLength n) (HashNode_getKey n i);
             (continue, s') = cb (load keyOut' 0 (hs_keyLen (h_slot n i) + h_prefixLength n))
                                 (HashNode_getPayload n i) s
         in if \<not> continue then (False, keyOut', s')
            else HashNode_range_loop n cb (i + 1) keyOut' s')
      else (True, keyOut, s))"
  by pat_completeness auto
termination
  by (relation "measure (\<lambda>(n, cb, i, keyOut, s). h_count n - i)") auto

declare HashNode_range_loop.simps [simp del]

text \<open>The leaf after the lookup: a basic leaf when the counter asked for it, else the sorted hash
  leaf.\<close>

definition HashNode_range_lookup :: "config \<Rightarrow> hash_env \<Rightarrow> bytes option \<Rightarrow> 's callback \<Rightarrow> HashNode \<Rightarrow> rng \<Rightarrow>
    memory \<Rightarrow> 's \<Rightarrow> (bool \<times> memory \<times> 's) \<times> (BTreeNode + HashNode) \<times> rng" where
  "HashNode_range_lookup cfg env key cb n r keyOut s =
     (let (convert, roc, r1) = range_op cfg (h_roc n) r;
          n1 = n\<lparr>h_roc := roc\<rparr>
      in case (if convert then HashNode_tryConvertToBasic env n1 else None) of
           Some b \<Rightarrow>
             (let (res, b', r2) = BTreeNode_range_lookup cfg key cb b r1 keyOut s in (res, Inl b', r2))
         | None \<Rightarrow>
             (let n2 = HashNode_sort env n1
              in (HashNode_range_loop n2 cb
                    (case key of None \<Rightarrow> 0 | Some k \<Rightarrow> fst (HashNode_lowerBound n2 k)) keyOut s, Inr n2, r1)))"

fun HashNode_range_loop_desc :: "HashNode \<Rightarrow> 's callback \<Rightarrow> nat \<Rightarrow> memory \<Rightarrow> 's \<Rightarrow> bool \<times> memory \<times> 's" where
  "HashNode_range_loop_desc n cb 0 keyOut s = (True, keyOut, s)"
| "HashNode_range_loop_desc n cb (Suc i) keyOut s =
     (let keyOut' = store keyOut (h_prefixLength n) (HashNode_getKey n i);
          (continue, s') = cb (load keyOut' 0 (hs_keyLen (h_slot n i) + h_prefixLength n))
                              (HashNode_getPayload n i) s
      in if \<not> continue then (False, keyOut', s')
         else HashNode_range_loop_desc n cb i keyOut' s')"

definition HashNode_range_lookup_desc ::
    "hash_env \<Rightarrow> bytes \<Rightarrow> 's callback \<Rightarrow> HashNode \<Rightarrow> memory \<Rightarrow> 's \<Rightarrow> (bool \<times> memory \<times> 's) \<times> HashNode" where
  "HashNode_range_lookup_desc env key cb n keyOut s =
     (let n1 = HashNode_sort env n;
          keyOut' = store keyOut 0 (take (h_prefixLength n1) key);
          (lb, found) = HashNode_lowerBound n1 key
      in (HashNode_range_loop_desc n1 cb (if found then lb + 1 else lb) keyOut' s, n1))"

text \<open>The checks of \<open>validate\<close>, which release builds skip.\<close>

definition HashNode_validate :: "hash_env \<Rightarrow> HashNode \<Rightarrow> bool" where
  "HashNode_validate env n \<longleftrightarrow>
     h_spaceUsed n = h_upperFenceLen n + h_lowerFenceLen n +
       (\<Sum>i\<leftarrow>[0..<h_count n]. hs_keyLen (h_slot n i) + hs_payloadLen (h_slot n i)) \<and>
     (h_lowerFenceLen n = h_prefixLength n \<and> h_upperFenceLen n > h_prefixLength n \<or> h_upperFenceLen n = 0 \<or>
       h_lowerFenceLen n > h_prefixLength n \<and> h_upperFenceLen n > h_prefixLength n \<and>
       HashNode_getLowerFence n ! h_prefixLength n < HashNode_getUpperFence n ! h_prefixLength n) \<and>
     (\<forall>i\<in>{1..<h_sortedCount n}. HashNode_getKey n (i - 1) < HashNode_getKey n i) \<and>
     (\<forall>i<h_count n. compute_hash env 0 (HashNode_getKey n i) = HashNode_hash n i)"

end
