(* ===== verification/DenseNode.thy ===== *)
theory DenseNode
  imports BasicNodeMap
begin

text \<open>
  The dense leaves of \<open>libbtree/src/dense.cpp\<close>. All keys have one length and differ only in their
  last four bytes, the numeric part, which is an index into an array that starts at
  \<open>arrayStart\<close>. Type 1 has values of one length after a presence mask, type 2 has an array of
  offsets of values. Mask and offsets overlay each other in a union, so they are read from and
  written to the page memory; \<open>d_valLen\<close> is the union of \<open>valLen\<close> and \<open>spaceUsed\<close>. The insert,
  which may turn the leaf into a basic one, is in \<open>AnyNode\<close>.
\<close>

subsection \<open>The page\<close>

record DenseNode =
  d_tag :: Tag
  d_fullKeyLen :: nat
  d_arrayStart :: "32 word"
  d_valLen :: nat
  d_slotCount :: nat
  d_occupiedCount :: nat
  d_lowerFenceLen :: nat
  d_upperFenceLen :: nat
  d_prefixLength :: nat
  d_dataOffset :: nat
  d_heap :: memory

definition TmpDenseNode :: DenseNode where
  "TmpDenseNode = \<lparr>d_tag = Tag_Dense, d_fullKeyLen = 0, d_arrayStart = 0, d_valLen = 0, d_slotCount = 0,
     d_occupiedCount = 0, d_lowerFenceLen = 0, d_upperFenceLen = 0, d_prefixLength = 0, d_dataOffset = 0,
     d_heap = (\<lambda>_. 0)\<rparr>"

definition maskBytesPerWord :: nat where
  "maskBytesPerWord = 8"

definition maskBitsPerWord :: nat where
  "maskBitsPerWord = 64"

definition sizeof_NumericPart :: nat where
  "sizeof_NumericPart = 4"

text \<open>\<open>offsetof(DenseNode, mask)\<close> and \<open>offsetof(DenseNode, slots)\<close>.\<close>

definition offsetof_mask :: nat where
  "offsetof_mask = 24"

definition offsetof_slots :: nat where
  "offsetof_slots = 22"

definition DenseNode_fencesOffset :: "DenseNode \<Rightarrow> nat" where
  "DenseNode_fencesOffset n =
     sub32 (sub32 pageSizeLeaf (d_lowerFenceLen n)) (max (d_upperFenceLen n) (d_fullKeyLen n))"

definition DenseNode_getLowerFence :: "DenseNode \<Rightarrow> bytes" where
  "DenseNode_getLowerFence n = load (d_heap n) (pageSizeLeaf - d_lowerFenceLen n) (d_lowerFenceLen n)"

definition DenseNode_getUpperFence :: "DenseNode \<Rightarrow> bytes" where
  "DenseNode_getUpperFence n = load (d_heap n) (DenseNode_fencesOffset n) (d_upperFenceLen n)"

definition DenseNode_getPrefix :: "DenseNode \<Rightarrow> bytes" where
  "DenseNode_getPrefix n = load (d_heap n) (pageSizeLeaf - d_lowerFenceLen n) (d_prefixLength n)"

definition DenseNode_updatePrefixLength :: "DenseNode \<Rightarrow> DenseNode" where
  "DenseNode_updatePrefixLength n =
     n\<lparr>d_prefixLength := for_until (\<lambda>i. DenseNode_getLowerFence n ! i \<noteq> DenseNode_getUpperFence n ! i) 0
        (min (d_upperFenceLen n) (d_lowerFenceLen n))\<rparr>"

subsection \<open>Numeric parts\<close>

definition computeNumericPartLen :: "nat \<Rightarrow> nat" where
  "computeNumericPartLen fullKeyLen = min sizeof_NumericPart fullKeyLen"

definition computeNumericPrefixLength :: "nat \<Rightarrow> nat" where
  "computeNumericPrefixLength fullKeyLen = fullKeyLen - computeNumericPartLen fullKeyLen"

definition getNumericPart :: "bytes \<Rightarrow> nat \<Rightarrow> 32 word" where
  "getNumericPart key targetLength =
     (let len = min (length key) targetLength;
          x = (if len = 0 then 0
               else if len = 1 then ucast (key ! 0)
               else if len = 2 then ucast (bswap16 (loadUnaligned16 key))
               else if len = 3 then or (push_bit 8 (ucast (bswap16 (loadUnaligned16 key)))) (ucast (key ! 2))
               else bswap32 (loadUnaligned32 (drop (len - 4) key)))
      in if len + sizeof_NumericPart \<le> targetLength then 0
         else push_bit (8 * (targetLength - len)) x)"

definition leastGreaterKey :: "bytes \<Rightarrow> nat \<Rightarrow> 32 word" where
  "leastGreaterKey key targetLength = getNumericPart key targetLength + of_bool (length key \<ge> targetLength)"

definition DenseNode_updateArrayStart :: "DenseNode \<Rightarrow> DenseNode" where
  "DenseNode_updateArrayStart n =
     n\<lparr>d_arrayStart := leastGreaterKey (DenseNode_getLowerFence n) (d_fullKeyLen n)\<rparr>"

text \<open>The bytes of a numeric part in a key of length \<open>fullKeyLen\<close>.\<close>

definition numericBytes :: "nat \<Rightarrow> 32 word \<Rightarrow> bytes" where
  "numericBytes len x = drop (sizeof_NumericPart - len) (le_encode 4 (unat (bswap32 x)))"

definition restoreNumericKey :: "32 word \<Rightarrow> nat \<Rightarrow> bytes \<Rightarrow> nat \<Rightarrow> bytes" where
  "restoreNumericKey arrayStart fullKeyLen prefix index =
     (let npLen = computeNumericPartLen fullKeyLen
      in take (fullKeyLen - npLen) prefix @ numericBytes npLen (arrayStart + word_of_nat index))"

datatype KeyIndex = Index nat | WrongLen | NotNumericRange | SlightlyTooLarge | FarTooLarge

definition DenseNode_keyToIndex :: "DenseNode \<Rightarrow> bytes \<Rightarrow> KeyIndex" where
  "DenseNode_keyToIndex n key =
     (let p = d_prefixLength n; full = d_fullKeyLen n; len = full - sizeof_NumericPart - p;
          index = unat (getNumericPart key full - d_arrayStart n)
      in if length key \<noteq> full then WrongLen
         else if p + sizeof_NumericPart < full \<and>
             load (d_heap n) (pageSizeLeaf - d_lowerFenceLen n + p) len \<noteq> take len (drop p key)
         then NotNumericRange
         else if index < d_slotCount n then Index index
         else if index < d_slotCount n + d_slotCount n div 2 then SlightlyTooLarge
         else FarTooLarge)"

definition DenseNode_isNumericRangeAnyLen :: "DenseNode \<Rightarrow> bytes \<Rightarrow> bool" where
  "DenseNode_isNumericRangeAnyLen n key \<longleftrightarrow>
     list_all (\<lambda>i. d_heap n (pageSizeLeaf - d_lowerFenceLen n + i) = (if i < length key then key ! i else 0))
       [d_prefixLength n..<computeNumericPrefixLength (d_fullKeyLen n)]"

subsection \<open>Mask and values of type 1\<close>

fun slotCountFrom :: "nat \<Rightarrow> nat \<Rightarrow> nat \<Rightarrow> nat" where
  "slotCountFrom valLen fencesStart 0 = 0"
| "slotCountFrom valLen fencesStart (Suc c) =
     (let count = Suc c;
          maskSize = (count + maskBitsPerWord - 1) div maskBitsPerWord * maskBytesPerWord
      in if offsetof_mask + maskSize + count * valLen > fencesStart then slotCountFrom valLen fencesStart c
         else count)"

definition computeSlotCount :: "nat \<Rightarrow> nat \<Rightarrow> nat" where
  "computeSlotCount valLen fencesStart =
     slotCountFrom valLen fencesStart (u32 (fencesStart * 8) div (valLen * 8 + 1))"

definition DenseNode_maskWordCount :: "DenseNode \<Rightarrow> nat" where
  "DenseNode_maskWordCount n = (d_slotCount n + maskBitsPerWord - 1) div maskBitsPerWord"

definition DenseNode_mask :: "DenseNode \<Rightarrow> nat \<Rightarrow> 64 word" where
  "DenseNode_mask n i = word_of_nat (le_decode (load (d_heap n) (offsetof_mask + i * maskBytesPerWord) maskBytesPerWord))"

definition DenseNode_setMask :: "nat \<Rightarrow> 64 word \<Rightarrow> DenseNode \<Rightarrow> DenseNode" where
  "DenseNode_setMask i w n =
     n\<lparr>d_heap := store (d_heap n) (offsetof_mask + i * maskBytesPerWord) (le_encode maskBytesPerWord (unat w))\<rparr>"

definition DenseNode_zeroMask :: "DenseNode \<Rightarrow> DenseNode" where
  "DenseNode_zeroMask n = fold (\<lambda>i. DenseNode_setMask i 0) [0..<DenseNode_maskWordCount n] n"

definition DenseNode_isSlotPresent :: "DenseNode \<Rightarrow> nat \<Rightarrow> bool" where
  "DenseNode_isSlotPresent n i \<longleftrightarrow> bit (DenseNode_mask n (i div maskBitsPerWord)) (i mod maskBitsPerWord)"

definition DenseNode_setSlotPresent :: "nat \<Rightarrow> DenseNode \<Rightarrow> DenseNode" where
  "DenseNode_setSlotPresent i n =
     (let w = i div maskBitsPerWord
      in DenseNode_setMask w (or (DenseNode_mask n w) (push_bit (i mod maskBitsPerWord) 1)) n)"

definition DenseNode_unsetSlotPresent :: "nat \<Rightarrow> DenseNode \<Rightarrow> DenseNode" where
  "DenseNode_unsetSlotPresent i n =
     (let w = i div maskBitsPerWord
      in DenseNode_setMask w (and (DenseNode_mask n w) (not (push_bit (i mod maskBitsPerWord) 1))) n)"

definition DenseNode_valOffset :: "DenseNode \<Rightarrow> nat \<Rightarrow> nat" where
  "DenseNode_valOffset n i = offsetof_mask + DenseNode_maskWordCount n * maskBytesPerWord + i * d_valLen n"

definition DenseNode_getVal :: "DenseNode \<Rightarrow> nat \<Rightarrow> bytes" where
  "DenseNode_getVal n i = load (d_heap n) (DenseNode_valOffset n i) (d_valLen n)"

definition DenseNode_setVal :: "nat \<Rightarrow> bytes \<Rightarrow> DenseNode \<Rightarrow> DenseNode" where
  "DenseNode_setVal i payload n = n\<lparr>d_heap := store (d_heap n) (DenseNode_valOffset n i) payload\<rparr>"

subsection \<open>Offsets and values of type 2\<close>

definition DenseNode_slot :: "DenseNode \<Rightarrow> nat \<Rightarrow> nat" where
  "DenseNode_slot n i = le_decode (load (d_heap n) (offsetof_slots + i * 2) 2)"

definition DenseNode_setSlot :: "nat \<Rightarrow> nat \<Rightarrow> DenseNode \<Rightarrow> DenseNode" where
  "DenseNode_setSlot i off n = n\<lparr>d_heap := store (d_heap n) (offsetof_slots + i * 2) (le_encode 2 off)\<rparr>"

definition DenseNode_zeroSlots :: "DenseNode \<Rightarrow> DenseNode" where
  "DenseNode_zeroSlots n = fold (\<lambda>i. DenseNode_setSlot i 0) [0..<d_slotCount n] n"

definition DenseNode_slotEndOffset :: "DenseNode \<Rightarrow> nat" where
  "DenseNode_slotEndOffset n = offsetof_slots + 2 * d_slotCount n"

definition DenseNode_slotValLen :: "DenseNode \<Rightarrow> nat \<Rightarrow> nat" where
  "DenseNode_slotValLen n i = le_decode (load (d_heap n) (DenseNode_slot n i) 2)"

definition DenseNode_slotVal :: "DenseNode \<Rightarrow> nat \<Rightarrow> bytes" where
  "DenseNode_slotVal n i = load (d_heap n) (DenseNode_slot n i + 2) (DenseNode_slotValLen n i)"

text \<open>\<open>None\<close>: an \<open>ASSUME\<close> is violated.\<close>

definition DenseNode_insertSlotWithSpace :: "nat \<Rightarrow> bytes \<Rightarrow> DenseNode \<Rightarrow> DenseNode option" where
  "DenseNode_insertSlotWithSpace i payload n =
     (let len = length payload;
          off = sub16 (d_dataOffset n) (len + 2);
          n1 = n\<lparr>d_valLen := add16 (d_valLen n) (len + 2), d_dataOffset := off\<rparr>
      in if DenseNode_slotEndOffset n \<le> off \<and> i < d_slotCount n then
           Some (DenseNode_setSlot i off
             (n1\<lparr>d_heap := store (store (d_heap n) off (le_encode 2 len)) (off + 2) payload\<rparr>))
         else None)"

text \<open>The compaction step for one slot; the second component is the buffer the values move to and
  the third its lowest used offset. It leaves \<open>dataOffset\<close> as it was.\<close>

definition DenseNode_compactStep :: "nat \<Rightarrow> DenseNode \<times> memory \<times> nat \<Rightarrow> DenseNode \<times> memory \<times> nat" where
  "DenseNode_compactStep i st =
     (case st of (n, buffer, bufferOffset) \<Rightarrow>
        if DenseNode_slot n i \<noteq> 0 then
          (let size = 2 + DenseNode_slotValLen n i;
               off = sub32 bufferOffset size
           in (DenseNode_setSlot i off n, store buffer off (load (d_heap n) (DenseNode_slot n i) size), off))
        else st)"

definition DenseNode_requestSpaceFor :: "nat \<Rightarrow> DenseNode \<Rightarrow> bool \<times> DenseNode" where
  "DenseNode_requestSpaceFor payloadLen n =
     (if sub32 (d_dataOffset n) (DenseNode_slotEndOffset n) \<ge> payloadLen + 2 then (True, n)
      else if DenseNode_slotEndOffset n + d_valLen n + payloadLen + 2 \<le> DenseNode_fencesOffset n then
        (let (n1, buffer, off) = fold DenseNode_compactStep [0..<d_slotCount n]
               (n, (\<lambda>_. 0), DenseNode_fencesOffset n)
         in (True, n1\<lparr>d_heap := store (d_heap n1) off (load buffer off (DenseNode_fencesOffset n - off))\<rparr>))
      else (False, n))"

subsection \<open>Initialisation and fences\<close>

definition DenseNode_init2b :: "bytes \<Rightarrow> bytes \<Rightarrow> nat \<Rightarrow> nat \<Rightarrow> DenseNode \<Rightarrow> DenseNode" where
  "DenseNode_init2b lowerFence upperFence fullKeyLen slotCount n =
     (let n1 = n\<lparr>d_tag := Tag_Dense2, d_fullKeyLen := u16 fullKeyLen, d_valLen := 0,
                 d_lowerFenceLen := u16 (length lowerFence), d_upperFenceLen := u16 (length upperFence),
                 d_occupiedCount := 0\<rparr>;
          n2 = n1\<lparr>d_dataOffset := u16 (DenseNode_fencesOffset n1),
                  d_heap := store (store (d_heap n1) (pageSizeLeaf - length lowerFence) lowerFence)
                    (DenseNode_fencesOffset n1) upperFence\<rparr>;
          n3 = DenseNode_updateArrayStart (DenseNode_updatePrefixLength n2)
      in DenseNode_zeroSlots (n3\<lparr>d_slotCount := u16 slotCount\<rparr>))"

definition DenseNode_changeUpperFence :: "bytes \<Rightarrow> DenseNode \<Rightarrow> DenseNode" where
  "DenseNode_changeUpperFence fence n =
     (let n1 = n\<lparr>d_upperFenceLen := u16 (length fence)\<rparr>
      in DenseNode_updatePrefixLength
           (n1\<lparr>d_heap := store (d_heap n1) (DenseNode_fencesOffset n1) fence\<rparr>))"

text \<open>The parameter \<open>upperFenceLen\<close> hides the field, which is not assigned.\<close>

definition DenseNode_changeLowerFence :: "bytes \<Rightarrow> bytes \<Rightarrow> DenseNode \<Rightarrow> DenseNode" where
  "DenseNode_changeLowerFence lowerFence upperFence n =
     (let n1 = n\<lparr>d_tag := Tag_Dense, d_lowerFenceLen := u16 (length lowerFence), d_occupiedCount := 0\<rparr>;
          n2 = DenseNode_zeroMask (n1\<lparr>d_slotCount := u16 (computeSlotCount (d_valLen n) (DenseNode_fencesOffset n1))\<rparr>);
          n3 = n2\<lparr>d_heap := store (store (d_heap n2) (pageSizeLeaf - length lowerFence) lowerFence)
                    (DenseNode_fencesOffset n2) upperFence\<rparr>
      in DenseNode_updateArrayStart (DenseNode_updatePrefixLength n3))"

subsection \<open>Conversions\<close>

definition densify1 :: "BTreeNode \<Rightarrow> DenseNode option" where
  "densify1 b =
     (let keyLen = (\<lambda>i. s_keyLen (b_slot b i)); valLen = (\<lambda>i. s_payloadLen (b_slot b i));
          preKeyLen1 = keyLen 0; fullKeyLen = preKeyLen1 + b_prefixLength b; valLen1 = valLen 0;
          lower = BTreeNode_getLowerFence b; upper = BTreeNode_getUpperFence b
      in if length lower + sizeof_NumericPart < fullKeyLen then None
         else if list_ex (\<lambda>i. keyLen i \<noteq> preKeyLen1 \<or> valLen i \<noteq> valLen1) [1..<b_count b] then None
         else
           (let out = TmpDenseNode\<lparr>d_lowerFenceLen := length lower, d_upperFenceLen := length upper,
                  d_fullKeyLen := u16 fullKeyLen, d_arrayStart := leastGreaterKey lower fullKeyLen\<rparr>;
                out = out\<lparr>d_slotCount := u16 (computeSlotCount valLen1 (DenseNode_fencesOffset out))\<rparr>;
                prefixNumericPart = getNumericPart (BTreeNode_getPrefix b) fullKeyLen;
                lastKey = BTreeNode_getKey b (b_count b - 1);
                lastOutsideRange =
                  list_ex (\<lambda>i. lastKey ! (i - b_prefixLength b) \<noteq> lower ! i)
                    [b_prefixLength b..<fullKeyLen - sizeof_NumericPart] \<or>
                  unat (prefixNumericPart + getNumericPart lastKey preKeyLen1 - d_arrayStart out) \<ge> d_slotCount out
            in if lastOutsideRange then None
               else
                 (let out = DenseNode_zeroMask (out\<lparr>d_tag := Tag_Dense, d_valLen := u16 valLen1, d_occupiedCount := 0\<rparr>);
                      out = out\<lparr>d_heap := store (store (d_heap out) (pageSizeLeaf - length lower) lower)
                                  (DenseNode_fencesOffset out) upper,
                                d_prefixLength := b_prefixLength b\<rparr>;
                      out = fold (\<lambda>i out.
                        (let index = unat (prefixNumericPart +
                               getNumericPart (BTreeNode_getKey b i) (fullKeyLen - b_prefixLength b) - d_arrayStart out)
                         in DenseNode_setVal index (BTreeNode_getPayload b i) (DenseNode_setSlotPresent index out)))
                        [0..<b_count b] out
                  in Some (out\<lparr>d_occupiedCount := b_count b\<rparr>))))"

text \<open>\<open>None\<close> is the result \<open>false\<close>, \<open>Some None\<close> a violated \<open>ASSUME\<close>.\<close>

definition densify2 :: "BTreeNode \<Rightarrow> DenseNode option option" where
  "densify2 b =
     (let keyLen = s_keyLen (b_slot b 0) + b_prefixLength b;
          lower = BTreeNode_getLowerFence b; upper = BTreeNode_getUpperFence b;
          arrayStart = leastGreaterKey lower keyLen; arrayEnd = leastGreaterKey upper keyLen
      in if length lower + sizeof_NumericPart < keyLen \<or> length upper = 0 then None
         else if list_ex (\<lambda>i. upper ! i \<noteq> lower ! i)
             [b_prefixLength b..<min (length upper) (keyLen - sizeof_NumericPart)] then None
         else if \<not> arrayStart < arrayEnd then Some None
         else if unat (arrayEnd - arrayStart) \<ge> pageSizeLeaf div 2 then None
         else if list_ex (\<lambda>i. s_keyLen (b_slot b i) \<noteq> s_keyLen (b_slot b 0)) [1..<b_count b] then None
         else
           (let out = TmpDenseNode\<lparr>d_slotCount := unat (arrayEnd - arrayStart), d_lowerFenceLen := length lower,
                  d_upperFenceLen := length upper, d_fullKeyLen := u16 keyLen\<rparr>;
                out = out\<lparr>d_dataOffset := u16 (DenseNode_fencesOffset out)\<rparr>;
                totalPayloadSize = (\<lambda>i. \<Sum>j\<leftarrow>[0..<Suc i]. s_payloadLen (b_slot b j))
            in if list_ex (\<lambda>i. DenseNode_slotEndOffset out + totalPayloadSize i + 2 * b_count b > d_dataOffset out)
                  [0..<b_count b] then None
               else
                 (let out = DenseNode_zeroSlots (out\<lparr>d_tag := Tag_Dense2, d_valLen := 0, d_occupiedCount := 0,
                        d_heap := store (store (d_heap out) (pageSizeLeaf - length lower) lower)
                                  (DenseNode_fencesOffset out) upper,
                        d_prefixLength := b_prefixLength b, d_arrayStart := arrayStart\<rparr>);
                      prefixNumericPart = getNumericPart (DenseNode_getPrefix out) keyLen
                  in Some (map_option (\<lambda>n. n\<lparr>d_occupiedCount := b_count b\<rparr>)
                       (fold (\<lambda>i o'. Option.bind o' (DenseNode_insertSlotWithSpace
                            (unat (prefixNumericPart + getNumericPart (BTreeNode_getKey b i)
                               (keyLen - d_prefixLength out) - arrayStart))
                            (BTreeNode_getPayload b i))) [0..<b_count b] (Some out))))))"

definition try_densify :: "config \<Rightarrow> BTreeNode \<Rightarrow> DenseNode option option" where
  "try_densify cfg b = (if enableDense cfg then map_option Some (densify1 b) else densify2 b)"

text \<open>One entry of \<open>copyKeyValueRangeToBasic\<close>. The head is taken over \<open>fullKeyLen - prefixLength\<close>
  bytes of the page, with the prefix length of the dense leaf.\<close>

definition DenseNode_copyToBasicStep :: "DenseNode \<Rightarrow> nat \<Rightarrow> BTreeNode \<times> nat \<Rightarrow> BTreeNode \<times> nat" where
  "DenseNode_copyToBasicStep src i st =
     (case st of (dst, outSlot) \<Rightarrow>
        if \<not> DenseNode_isSlotPresent src i then st
        else
          (let full = d_fullKeyLen src; npLen = computeNumericPartLen full; p = b_prefixLength dst;
               newKeyLength = sub32 full p;
               space = u32 (newKeyLength + d_valLen src);
               off = sub16 (b_dataOffset dst) space;
               numericPart = d_arrayStart src + word_of_nat i;
               key = (if full - npLen > p
                      then load (d_heap src) (pageSizeLeaf - d_lowerFenceLen src + p) (full - npLen - p) @
                        numericBytes npLen numericPart
                      else numericBytes newKeyLength numericPart);
               payload = (if d_tag src = Tag_Dense then DenseNode_getVal src i else DenseNode_slotVal src i);
               heap = store (store (b_heap dst) off key) (off + u16 newKeyLength) payload
           in (dst\<lparr>b_dataOffset := off, b_spaceUsed := add16 (b_spaceUsed dst) space, b_heap := heap,
                   b_slot := (b_slot dst)(outSlot := \<lparr>s_offset = off, s_keyLen = u16 newKeyLength,
                     s_payloadLen = d_valLen src,
                     s_head = head (load heap off (sub32 full (d_prefixLength src)))\<rparr>)\<rparr>,
               outSlot + 1)))"

definition DenseNode_copyKeyValueRangeToBasic :: "DenseNode \<Rightarrow> nat \<Rightarrow> nat \<Rightarrow> BTreeNode \<Rightarrow> BTreeNode" where
  "DenseNode_copyKeyValueRangeToBasic src srcStart srcEnd dst =
     (let (dst', outSlot) = fold (DenseNode_copyToBasicStep src) [srcStart..<srcEnd] (dst, 0)
      in dst'\<lparr>b_count := u16 outSlot\<rparr>)"

definition DenseNode_convertToBasic :: "DenseNode \<Rightarrow> BTreeNode" where
  "DenseNode_convertToBasic n =
     (let tmp = BTreeNode_setFences (DenseNode_getLowerFence n) (DenseNode_getUpperFence n)
            (BTreeNode_init True RangeOpCounter_new TmpBTreeNode)
      in BTreeNode_makeHint (DenseNode_copyKeyValueRangeToBasic n 0 (d_slotCount n) tmp))"

subsection \<open>Lookup and remove\<close>

definition DenseNode_lookup :: "bytes \<Rightarrow> DenseNode \<Rightarrow> bytes option" where
  "DenseNode_lookup key n =
     (case DenseNode_keyToIndex n key of
        Index index \<Rightarrow>
          if d_tag n = Tag_Dense then
            if \<not> DenseNode_isSlotPresent n index then None else Some (DenseNode_getVal n index)
          else if DenseNode_slot n index = 0 then None
          else Some (DenseNode_slotVal n index)
      | _ \<Rightarrow> None)"

text \<open>\<open>DenseNode::remove\<close> begins with an assertion that the leaf is of type 1, which its only caller in the model,
  \<open>leafRemove\<close> in \<open>BTree\<close>, makes; this is what follows.\<close>

definition DenseNode_remove :: "bytes \<Rightarrow> DenseNode \<Rightarrow> bool \<times> DenseNode" where
  "DenseNode_remove key n =
     (case DenseNode_keyToIndex n key of
        Index index \<Rightarrow>
          if \<not> DenseNode_isSlotPresent n index then (False, n)
          else (True, (DenseNode_unsetSlotPresent index n)\<lparr>d_occupiedCount := sub16 (d_occupiedCount n) 1\<rparr>)
      | _ \<Rightarrow> (False, n))"

definition DenseNode_is_underfull :: "DenseNode \<Rightarrow> bool" where
  "DenseNode_is_underfull n \<longleftrightarrow>
     (let totalEntrySize = u32 (u32 (sub32 (d_fullKeyLen n) (d_prefixLength n) + d_valLen n + sizeof_Slot) * d_occupiedCount n)
      in u32 (sizeof_BTreeNodeHeader + totalEntrySize + d_lowerFenceLen n + d_upperFenceLen n) <
           pageSizeLeaf - underFullSizeLeaf)"

subsection \<open>Splits\<close>

text \<open>\<open>None\<close>: the key has an index in the leaf, and \<open>split_to_self\<close> is read uninitialised.\<close>

definition split_to_self :: "KeyIndex \<Rightarrow> bool option" where
  "split_to_self ki =
     (case ki of Index _ \<Rightarrow> None | SlightlyTooLarge \<Rightarrow> Some True | _ \<Rightarrow> Some False)"

text \<open>The separator, the left page and the right page.\<close>

definition DenseNode_splitPages1 :: "DenseNode \<Rightarrow> bytes \<Rightarrow> (bytes \<times> DenseNode \<times> (BTreeNode + DenseNode)) option" where
  "DenseNode_splitPages1 n key =
     (case split_to_self (DenseNode_keyToIndex n key) of
        None \<Rightarrow> None
      | Some toSelf \<Rightarrow>
          (let boundary = restoreNumericKey (d_arrayStart n) (d_fullKeyLen n)
                 (load (d_heap n) (pageSizeLeaf - d_lowerFenceLen n) (computeNumericPrefixLength (d_fullKeyLen n)))
                 (d_slotCount n - 1)
           in Some (boundary, DenseNode_changeUpperFence boundary n,
                if toSelf then Inr (DenseNode_changeLowerFence boundary (DenseNode_getUpperFence n) n)
                else Inl (BTreeNode_setFences boundary (DenseNode_getUpperFence n)
                       (BTreeNode_init True RangeOpCounter_new TmpBTreeNode)))))"

text \<open>The slot after which type 2 splits; \<open>None\<close> when the loop runs past the last slot.\<close>

function splitSlot2 :: "DenseNode \<Rightarrow> nat \<Rightarrow> nat \<Rightarrow> nat \<Rightarrow> nat option" where
  "splitSlot2 n half leftSpace splitSlot =
     (if leftSpace < half then
        if splitSlot < d_slotCount n then
          splitSlot2 n half
            (if DenseNode_slot n splitSlot \<noteq> 0 then leftSpace + 4 + DenseNode_slotValLen n splitSlot else leftSpace)
            (splitSlot + 1)
        else None
      else Some splitSlot)"
  by pat_completeness auto
termination
  by (relation "measure (\<lambda>(n, half, leftSpace, splitSlot). d_slotCount n - splitSlot)") auto

declare splitSlot2.simps [simp del]

definition copySlots :: "DenseNode \<Rightarrow> nat \<Rightarrow> nat \<Rightarrow> DenseNode \<Rightarrow> DenseNode option" where
  "copySlots src from to dst =
     fold (\<lambda>i o'. if DenseNode_slot src i \<noteq> 0
       then Option.bind o' (DenseNode_insertSlotWithSpace (i - from) (DenseNode_slotVal src i)) else o')
       [from..<to] (Some dst)"

definition DenseNode_splitPages2 :: "DenseNode \<Rightarrow> (bytes \<times> DenseNode \<times> DenseNode) option" where
  "DenseNode_splitPages2 n =
     (let totalSpace = d_occupiedCount n * 2 + d_valLen n
      in case splitSlot2 n (totalSpace div 2) 0 0 of
           None \<Rightarrow> None
         | Some splitSlot \<Rightarrow>
             (let splitKey = restoreNumericKey (d_arrayStart n) (d_fullKeyLen n)
                    (load (d_heap n) (pageSizeLeaf - d_lowerFenceLen n) (computeNumericPrefixLength (d_fullKeyLen n)))
                    splitSlot
              in case copySlots n 0 (splitSlot + 1) (DenseNode_init2b (DenseNode_getLowerFence n) splitKey
                        (d_fullKeyLen n) (splitSlot + 1) TmpDenseNode) of
                   None \<Rightarrow> None
                 | Some left \<Rightarrow>
                     (case copySlots n (splitSlot + 1) (d_slotCount n)
                        (DenseNode_init2b splitKey (DenseNode_getUpperFence n)
                          (d_fullKeyLen n) (sub32 (d_slotCount n) (splitSlot + 1)) TmpDenseNode) of
                        None \<Rightarrow> None
                      | Some right \<Rightarrow> Some (splitKey, left, right))))"

text \<open>\<open>densifySplit\<close>: the separator and the number of entries that go left, 0 when the leaf does
  not qualify. The separator is built in a buffer.\<close>

definition densifySplit :: "BTreeNode \<Rightarrow> bytes \<times> nat" where
  "densifySplit b =
     (let minTake = b_count b div 2; preKeyLen1 = s_keyLen (b_slot b 0); p = b_prefixLength b;
          fullKeyLen = preKeyLen1 + p; valLen1 = s_payloadLen (b_slot b 0);
          lower = BTreeNode_getLowerFence b;
          equalLen = for_until (\<lambda>i. \<not> (s_keyLen (b_slot b i) = preKeyLen1 \<and> s_payloadLen (b_slot b i) = valLen1))
            1 (b_count b);
          arrayStart = leastGreaterKey lower fullKeyLen;
          slotCount = computeSlotCount valLen1 (pageSizeLeaf - 2 * length lower);
          buf = store (\<lambda>_. 0) 0 (restoreNumericKey arrayStart fullKeyLen lower (slotCount - 1));
          (lb, found) = BTreeNode_lowerBound b (load buf 0 (length lower));
          takeKeyCount = min (lb + of_bool found) equalLen;
          fenceLen = s_keyLen (b_slot b takeKeyCount) + p;
          buf = store buf p (BTreeNode_getKey b takeKeyCount);
          last = fenceLen - 1
      in if length lower + sizeof_NumericPart < fullKeyLen \<or> equalLen < minTake \<or> takeKeyCount < minTake
         then ([], 0)
         else if fenceLen = fullKeyLen then
           (if buf last > 0 then (load (buf(last := buf last - 1)) 0 fenceLen, takeKeyCount)
            else (load buf 0 last, takeKeyCount))
         else if fenceLen < fullKeyLen then
           (load (buf(last := buf last - 1)) 0 fenceLen @ replicate (fullKeyLen - fenceLen) 255, takeKeyCount)
         else (load buf 0 last, takeKeyCount))"

subsection \<open>Range lookups\<close>

text \<open>The loop over the mask. Each entry is reported with the bytes \<open>keyOut\<close> then holds.\<close>

definition maskTrailingZeros :: "64 word \<Rightarrow> nat" where
  "maskTrailingZeros w = for_until (bit w) 0 64"

definition DenseNode_writeNumeric :: "DenseNode \<Rightarrow> nat \<Rightarrow> memory \<Rightarrow> memory" where
  "DenseNode_writeNumeric n i keyOut =
     store keyOut (computeNumericPrefixLength (d_fullKeyLen n))
       (numericBytes (computeNumericPartLen (d_fullKeyLen n)) (d_arrayStart n + word_of_nat i))"

lemma maskTrailingZeros_bit: "maskTrailingZeros w < 64 \<Longrightarrow> bit w (maskTrailingZeros w)"
  unfolding maskTrailingZeros_def by (rule for_until_stop)

lemma drop_bit_Suc_less:
  assumes "maskTrailingZeros w < 64"
  shows "unat (drop_bit 1 (drop_bit (maskTrailingZeros w) w)) < unat w"
proof -
  have "w \<noteq> 0" using maskTrailingZeros_bit [OF assms] by auto
  then have pos: "0 < unat w" by (simp add: unat_gt_0)
  have "unat (drop_bit 1 (drop_bit (maskTrailingZeros w) w)) = unat w div 2 ^ Suc (maskTrailingZeros w)"
    by (simp only: unat_drop_bit_eq drop_bit_drop_bit drop_bit_eq_div [of _ "unat w"] plus_1_eq_Suc)
  also have "\<dots> < unat w" using pos by (intro div_less_dividend) (simp_all add: less_le_trans [of _ 2])
  finally show ?thesis .
qed

lemma maskTrailingZeros_le: "maskTrailingZeros w \<le> 64"
  unfolding maskTrailingZeros_def using for_until_bounds [of 0 64] by simp

function DenseNode_range_loop1 :: "DenseNode \<Rightarrow> 's callback \<Rightarrow> nat \<Rightarrow> nat \<Rightarrow> 64 word \<Rightarrow> memory \<Rightarrow> 's \<Rightarrow> bool \<times> memory \<times> 's" where
  "DenseNode_range_loop1 n cb wordIndex shift word keyOut s =
     (let trailingZeros = maskTrailingZeros word
      in if trailingZeros = maskBitsPerWord then
           if wordIndex + 1 \<ge> DenseNode_maskWordCount n then (True, keyOut, s)
           else DenseNode_range_loop1 n cb (wordIndex + 1) 0 (DenseNode_mask n (wordIndex + 1)) keyOut s
         else
           (let entryIndex = wordIndex * maskBitsPerWord + (shift + trailingZeros)
            in if entryIndex > d_slotCount n then (True, keyOut, s)
               else
                 (let keyOut' = DenseNode_writeNumeric n entryIndex keyOut;
                      (continue, s') = cb (load keyOut' 0 (d_fullKeyLen n)) (DenseNode_getVal n entryIndex) s
                  in if \<not> continue then (False, keyOut', s')
                     else DenseNode_range_loop1 n cb wordIndex (shift + trailingZeros + 1)
                            (drop_bit 1 (drop_bit trailingZeros word)) keyOut' s')))"
  by pat_completeness auto

termination
proof (relation "measures [\<lambda>(n, cb, wordIndex, shift, word, keyOut, s). DenseNode_maskWordCount n - wordIndex,
    \<lambda>(n, cb, wordIndex, shift, word, keyOut, s). unat word]", goal_cases)
  case (3 n cb wordIndex shift word keyOut s tz entryIndex keyOut' p continue s')
  then have "tz < 64" using maskTrailingZeros_le [of word] by (simp add: maskBitsPerWord_def)
  with 3 drop_bit_Suc_less show ?case by simp
qed auto

declare DenseNode_range_loop1.simps [simp del]

text \<open>\<open>key = None\<close> is the null pointer, with a length that belongs to another key. \<open>None\<close> is its
  dereference, which \<open>isNumericRangeAnyLen\<close> does when the numeric prefix exceeds the prefix.\<close>

definition DenseNode_firstIndex :: "DenseNode \<Rightarrow> bytes option \<Rightarrow> nat" where
  "DenseNode_firstIndex n key =
     (case key of None \<Rightarrow> 0
      | Some k \<Rightarrow> unat (leastGreaterKey k (d_fullKeyLen n) - of_bool (length k = d_fullKeyLen n) - d_arrayStart n))"

definition DenseNode_enterKeyOut :: "DenseNode \<Rightarrow> memory \<Rightarrow> memory" where
  "DenseNode_enterKeyOut n keyOut =
     store keyOut (d_prefixLength n)
       (load (d_heap n) (pageSizeLeaf - d_lowerFenceLen n + d_prefixLength n)
          (computeNumericPrefixLength (d_fullKeyLen n) - d_prefixLength n))"

definition DenseNode_range_lookup1 ::
    "bytes option \<Rightarrow> 's callback \<Rightarrow> DenseNode \<Rightarrow> memory \<Rightarrow> 's \<Rightarrow> (bool \<times> memory \<times> 's) option" where
  "DenseNode_range_lookup1 key cb n keyOut s =
     (if key = None \<and> d_prefixLength n < computeNumericPrefixLength (d_fullKeyLen n) then None
      else if (case key of None \<Rightarrow> False | Some k \<Rightarrow> \<not> DenseNode_isNumericRangeAnyLen n k) then Some (True, keyOut, s)
      else
        (let firstIndex = DenseNode_firstIndex n key;
             wordIndex = firstIndex div maskBitsPerWord; shift = firstIndex mod maskBitsPerWord
         in Some (DenseNode_range_loop1 n cb wordIndex shift (drop_bit shift (DenseNode_mask n wordIndex))
                    (DenseNode_enterKeyOut n keyOut) s)))"

function DenseNode_range_loop2 :: "DenseNode \<Rightarrow> 's callback \<Rightarrow> nat \<Rightarrow> memory \<Rightarrow> 's \<Rightarrow> bool \<times> memory \<times> 's" where
  "DenseNode_range_loop2 n cb i keyOut s =
     (if i < d_slotCount n then
        if DenseNode_slot n i \<noteq> 0 then
          (let keyOut' = DenseNode_writeNumeric n i keyOut;
               (continue, s') = cb (load keyOut' 0 (d_fullKeyLen n)) (DenseNode_slotVal n i) s
           in if \<not> continue then (False, keyOut', s') else DenseNode_range_loop2 n cb (i + 1) keyOut' s')
        else DenseNode_range_loop2 n cb (i + 1) keyOut s
      else (True, keyOut, s))"
  by pat_completeness auto
termination
  by (relation "measure (\<lambda>(n, cb, i, keyOut, s). d_slotCount n - i)") auto

declare DenseNode_range_loop2.simps [simp del]

definition DenseNode_range_lookup2 ::
    "bytes option \<Rightarrow> 's callback \<Rightarrow> DenseNode \<Rightarrow> memory \<Rightarrow> 's \<Rightarrow> bool \<times> memory \<times> 's" where
  "DenseNode_range_lookup2 key cb n keyOut s =
     DenseNode_range_loop2 n cb (DenseNode_firstIndex n key) (DenseNode_enterKeyOut n keyOut) s"

text \<open>\<open>range_lookup_desc\<close> calls \<open>abort()\<close> first.\<close>

definition DenseNode_range_lookup_desc :: "bytes \<Rightarrow> 's callback \<Rightarrow> DenseNode \<Rightarrow> memory \<Rightarrow> 's \<Rightarrow> (bool \<times> memory \<times> 's) option" where
  "DenseNode_range_lookup_desc key cb n keyOut s = None"

end
