(* ===== verification/AnyNode.thy ===== *)
theory AnyNode
  imports HashNode DenseNode HeadNode "HOL-Library.Monad_Syntax"
begin

text \<open>
  \<open>libbtree/src/anynode.cpp\<close>: the union of the node types, the dispatch of its operations on the
  tag, and the operations that reach several pages, which work on a store of pages. Also here are
  the inserts of basic and dense leaves, which may turn one into the other, and the request of an
  inner node for space, which may change its layout. \<open>None\<close> is a call of \<open>abort()\<close>, a violated
  \<open>ASSUME\<close> or assertion, or an access to a page that is not there.
\<close>

subsection \<open>The union\<close>

datatype AnyNode = Basic BTreeNode | Dense DenseNode | Hash HashNode | Head4 HeadNode4 | Head8 HeadNode8

fun AnyNode_tag :: "AnyNode \<Rightarrow> Tag" where
  "AnyNode_tag (Basic b) = b_tag b"
| "AnyNode_tag (Dense d) = d_tag d"
| "AnyNode_tag (Hash h) = Tag_Hash"
| "AnyNode_tag (Head4 h) = Tag_Head4"
| "AnyNode_tag (Head8 h) = Tag_Head8"

text \<open>What \<open>tag()\<close> assumes of the node types that can occur in a configuration.\<close>

definition AnyNode_tagOk :: "config \<Rightarrow> AnyNode \<Rightarrow> bool" where
  "AnyNode_tagOk cfg node \<longleftrightarrow>
     (enableDense cfg \<or> AnyNode_tag node \<noteq> Tag_Dense) \<and>
     (enableDense2 cfg \<and> \<not> enableHash cfg \<or> AnyNode_tag node \<noteq> Tag_Dense2) \<and>
     (enableHash cfg \<or> AnyNode_tag node \<noteq> Tag_Hash) \<and>
     (\<not> enableHash cfg \<or> enableHashAdapt cfg \<or> AnyNode_tag node \<noteq> Tag_Leaf) \<and>
     (enableHeadNode cfg \<or> AnyNode_tag node \<noteq> Tag_Head4) \<and>
     (enableHeadNode cfg \<or> AnyNode_tag node \<noteq> Tag_Head8)"

fun isAnyInner :: "AnyNode \<Rightarrow> bool" where
  "isAnyInner (Basic b) = BTreeNode_isInner b"
| "isAnyInner (Dense d) = False"
| "isAnyInner (Hash h) = False"
| "isAnyInner (Head4 h) = True"
| "isAnyInner (Head8 h) = True"

subsection \<open>Inserts into leaves\<close>

text \<open>A full basic leaf may become dense and insert there; a dense leaf may become basic and insert
  there. The fuel bounds this exchange; \<open>BTreeNode_insert\<close> and \<open>DenseNode_insert\<close> give enough.\<close>

fun map_insert_result :: "('a \<Rightarrow> 'b) \<Rightarrow> 'a insert_result \<Rightarrow> 'b insert_result" where
  "map_insert_result f (Inserted n) = Inserted (f n)"
| "map_insert_result f (NoSpace n) = NoSpace (f n)"
| "map_insert_result f Aborted = Aborted"

fun BTreeNode_insertFuel :: "nat \<Rightarrow> config \<Rightarrow> bytes \<Rightarrow> bytes \<Rightarrow> BTreeNode \<Rightarrow> AnyNode insert_result"
  and DenseNode_insertFuel :: "nat \<Rightarrow> config \<Rightarrow> bytes \<Rightarrow> bytes \<Rightarrow> DenseNode \<Rightarrow> AnyNode insert_result" where
  "BTreeNode_insertFuel 0 cfg key payload n = Aborted"
| "BTreeNode_insertFuel (Suc f) cfg key payload n =
     (case BTreeNode_tryInsert key payload n of
        NoSpace n1 \<Rightarrow>
          (let sameLen = BTreeNode_isLeaf n \<and> sub32 (length key) (b_prefixLength n) = s_keyLen (b_slot n 0)
           in if enableDense cfg \<and> sameLen \<and> length payload = s_payloadLen (b_slot n 0) \<or>
                 enableDense2 cfg \<and> sameLen
              then (case try_densify cfg n of
                      None \<Rightarrow> NoSpace (Basic n)
                    | Some None \<Rightarrow> Aborted
                    | Some (Some d) \<Rightarrow> DenseNode_insertFuel f cfg key payload d)
              else NoSpace (Basic n1))
      | res \<Rightarrow> map_insert_result Basic res)"
| "DenseNode_insertFuel 0 cfg key payload n = Aborted"
| "DenseNode_insertFuel (Suc f) cfg key payload n =
     (let keyPart = sub32 (d_fullKeyLen n) (d_prefixLength n);
          fences = d_lowerFenceLen n + d_upperFenceLen n + sizeof_BTreeNodeHeader;
          asBasic = BTreeNode_insertFuel f cfg key payload (DenseNode_convertToBasic n)
      in if d_tag n = Tag_Dense then
           if length payload \<noteq> d_valLen n \<or> length key \<noteq> d_fullKeyLen n then
             if d_occupiedCount n * (keyPart + length payload + sizeof_Slot) + fences \<le> pageSizeLeaf
             then asBasic else NoSpace (Dense n)
           else
             (case DenseNode_keyToIndex n key of
                Index i \<Rightarrow>
                  Inserted (Dense (DenseNode_setVal i payload (DenseNode_setSlotPresent i
                    (n\<lparr>d_occupiedCount := add16 (d_occupiedCount n) (of_bool (\<not> DenseNode_isSlotPresent n i))\<rparr>))))
              | WrongLen \<Rightarrow> Aborted
              | _ \<Rightarrow> NoSpace (Dense n))
         else
           if length key \<noteq> d_fullKeyLen n then
             if d_occupiedCount n * (keyPart + sizeof_Slot - 2) + d_valLen n + fences \<le> pageSizeLeaf
             then asBasic else NoSpace (Dense n)
           else
             (case DenseNode_keyToIndex n key of
                Index i \<Rightarrow>
                  (let n1 = (if DenseNode_slot n i \<noteq> 0
                             then (DenseNode_setSlot i 0 n)\<lparr>
                                    d_valLen := sub16 (d_valLen n) (DenseNode_slotValLen n i + 2),
                                    d_occupiedCount := sub16 (d_occupiedCount n) 1\<rparr>
                             else n);
                       (ok, n2) = DenseNode_requestSpaceFor (length payload) n1
                   in if \<not> ok then NoSpace (Dense n2)
                      else (case DenseNode_insertSlotWithSpace i payload n2 of
                              None \<Rightarrow> Aborted
                            | Some n3 \<Rightarrow> Inserted (Dense (n3\<lparr>d_occupiedCount := add16 (d_occupiedCount n3) 1\<rparr>))))
              | WrongLen \<Rightarrow> Aborted
              | _ \<Rightarrow> NoSpace (Dense n)))"

definition BTreeNode_insert :: "config \<Rightarrow> bytes \<Rightarrow> bytes \<Rightarrow> BTreeNode \<Rightarrow> AnyNode insert_result" where
  "BTreeNode_insert cfg key payload n = BTreeNode_insertFuel 3 cfg key payload n"

definition DenseNode_insert :: "config \<Rightarrow> bytes \<Rightarrow> bytes \<Rightarrow> DenseNode \<Rightarrow> AnyNode insert_result" where
  "DenseNode_insert cfg key payload n = DenseNode_insertFuel 3 cfg key payload n"

subsection \<open>Inner nodes\<close>

definition BTreeNode_insertChild :: "config \<Rightarrow> bytes \<Rightarrow> ptr \<Rightarrow> BTreeNode \<Rightarrow> AnyNode insert_result" where
  "BTreeNode_insertChild cfg key child n = BTreeNode_insert cfg key (le_encode sizeof_ptr child) n"

text \<open>The callers assert that the insert succeeds.\<close>

fun AnyNode_insertChild :: "config \<Rightarrow> bytes \<Rightarrow> ptr \<Rightarrow> AnyNode \<Rightarrow> AnyNode option" where
  "AnyNode_insertChild cfg key child (Basic b) =
     (if BTreeNode_isInner b then
        (case BTreeNode_insertChild cfg key child b of Inserted n \<Rightarrow> Some n | _ \<Rightarrow> None)
      else None)"
| "AnyNode_insertChild cfg key child (Head4 h) = map_option Head4 (HeadNode_insertChild key child h)"
| "AnyNode_insertChild cfg key child (Head8 h) = map_option Head8 (HeadNode_insertChild key child h)"
| "AnyNode_insertChild cfg key child _ = None"

definition HeadNode4_requestSpaceFor :: "nat \<Rightarrow> HeadNode4 \<Rightarrow> bool \<times> AnyNode" where
  "HeadNode4_requestSpaceFor keyLen n =
     (let len = sub32 keyLen (hn_prefixLength n);
          toBasic = (case HeadNode_convertToBasicWithSpace len n of
            Some b \<Rightarrow> (True, Basic b) | None \<Rightarrow> (False, Head4 n))
      in if len \<ge> 4 then
           (if len < 8 then
              (case HeadNode_convertToHead8WithSpace n of Some n8 \<Rightarrow> (True, Head8 n8) | None \<Rightarrow> toBasic)
            else toBasic)
         else (hn_count n < hn_keyCapacity n, Head4 n))"

definition HeadNode8_requestSpaceFor :: "nat \<Rightarrow> HeadNode8 \<Rightarrow> bool \<times> AnyNode" where
  "HeadNode8_requestSpaceFor keyLen n =
     (let len = sub32 keyLen (hn_prefixLength n)
      in if len \<ge> 8 then
           (case HeadNode_convertToBasicWithSpace len n of
              Some b \<Rightarrow> (True, Basic b) | None \<Rightarrow> (False, Head8 n))
         else if hn_count n < hn_keyCapacity n then (True, Head8 n)
         else if len < 4 then
           (case HeadNode_convertToHead4WithSpace n of
              Some n4 \<Rightarrow> (True, Head4 n4) | None \<Rightarrow> (False, Head8 n))
         else (False, Head8 n))"

fun innerRequestSpaceFor :: "config \<Rightarrow> nat \<Rightarrow> AnyNode \<Rightarrow> (bool \<times> AnyNode) option" where
  "innerRequestSpaceFor cfg keyLen (Basic b) =
     (if BTreeNode_isInner b then
        (let (succ, b1) = BTreeNode_requestSpaceFor (BTreeNode_spaceNeeded b keyLen sizeof_ptr) b
         in if enableHeadNode cfg \<and> \<not> succ then
              (case requestChildConvertFromBasic b1 keyLen of
                 None \<Rightarrow> Some (False, Basic b1)
               | Some None \<Rightarrow> None
               | Some (Some (Inl h4)) \<Rightarrow> Some (True, Head4 h4)
               | Some (Some (Inr h8)) \<Rightarrow> Some (True, Head8 h8))
            else Some (succ, Basic b1))
      else None)"
| "innerRequestSpaceFor cfg keyLen (Head4 h) = Some (HeadNode4_requestSpaceFor keyLen h)"
| "innerRequestSpaceFor cfg keyLen (Head8 h) = Some (HeadNode8_requestSpaceFor keyLen h)"
| "innerRequestSpaceFor cfg keyLen _ = None"

fun AnyNode_lookupInner :: "bytes \<Rightarrow> AnyNode \<Rightarrow> ptr option" where
  "AnyNode_lookupInner key (Basic b) = (if BTreeNode_isInner b then Some (BTreeNode_lookupInner b key) else None)"
| "AnyNode_lookupInner key (Head4 h) = Some (HeadNode_lookupInner h key)"
| "AnyNode_lookupInner key (Head8 h) = Some (HeadNode_lookupInner h key)"
| "AnyNode_lookupInner key _ = None"

fun lookupInnerIndex :: "bytes \<Rightarrow> AnyNode \<Rightarrow> nat option" where
  "lookupInnerIndex key (Basic b) = (if BTreeNode_isInner b then Some (fst (BTreeNode_lowerBound b key)) else None)"
| "lookupInnerIndex key (Head4 h) = Some (HeadNode_lookupInnerIndex h key)"
| "lookupInnerIndex key (Head8 h) = Some (HeadNode_lookupInnerIndex h key)"
| "lookupInnerIndex key _ = None"

fun innerCount :: "AnyNode \<Rightarrow> nat option" where
  "innerCount (Basic b) = (if BTreeNode_isInner b then Some (b_count b) else None)"
| "innerCount (Head4 h) = Some (hn_count h)"
| "innerCount (Head8 h) = Some (hn_count h)"
| "innerCount _ = None"

fun AnyNode_getChild :: "nat \<Rightarrow> AnyNode \<Rightarrow> ptr option" where
  "AnyNode_getChild index (Basic b) =
     (if BTreeNode_isInner b then Some (if index = b_count b then b_upper b else BTreeNode_getChild b index) else None)"
| "AnyNode_getChild index (Head4 h) = Some (hn_children h index)"
| "AnyNode_getChild index (Head8 h) = Some (hn_children h index)"
| "AnyNode_getChild index _ = None"

fun innerRestoreKey :: "nat \<Rightarrow> nat \<Rightarrow> AnyNode \<Rightarrow> bytes option" where
  "innerRestoreKey len index (Basic b) = (if BTreeNode_isInner b then Some (BTreeNode_restoreKey b len index) else None)"
| "innerRestoreKey len index (Head4 h) = Some (HeadNode_restoreKey h len index)"
| "innerRestoreKey len index (Head8 h) = Some (HeadNode_restoreKey h len index)"
| "innerRestoreKey len index _ = None"

fun innerRemoveSlot :: "nat \<Rightarrow> AnyNode \<Rightarrow> AnyNode option" where
  "innerRemoveSlot slotId (Basic b) = (if BTreeNode_isInner b then Some (Basic (BTreeNode_removeSlot slotId b)) else None)"
| "innerRemoveSlot slotId (Head4 h) = Some (Head4 (HeadNode_removeSlot slotId h))"
| "innerRemoveSlot slotId (Head8 h) = Some (Head8 (HeadNode_removeSlot slotId h))"
| "innerRemoveSlot slotId _ = None"

fun innerKeyLen :: "nat \<Rightarrow> AnyNode \<Rightarrow> nat option" where
  "innerKeyLen index (Basic b) =
     (if BTreeNode_isInner b then Some (s_keyLen (b_slot b index) + b_prefixLength b) else None)"
| "innerKeyLen index (Head4 h) = Some (HeadNode_getKeyLength h index)"
| "innerKeyLen index (Head8 h) = Some (HeadNode_getKeyLength h index)"
| "innerKeyLen index _ = None"

text \<open>The pointers of an inner node in order.\<close>

fun childPtrs :: "AnyNode \<Rightarrow> ptr list" where
  "childPtrs (Basic b) =
     (if BTreeNode_isInner b then map (BTreeNode_getChild b) [0..<b_count b] @ [b_upper b] else [])"
| "childPtrs (Head4 h) = map (hn_children h) [0..<hn_count h + 1]"
| "childPtrs (Head8 h) = map (hn_children h) [0..<hn_count h + 1]"
| "childPtrs _ = []"

subsection \<open>The store of pages\<close>

text \<open>The tree object with the memory it owns. Pages are allocated at increasing addresses; an
  address has to fit into the eight bytes an inner node keeps for it. The generator of the operation
  counters is global and part of the state.\<close>

record btree =
  t_root :: ptr
  t_pages :: "ptr \<Rightarrow> AnyNode option"
  t_brk :: nat
  t_rng :: rng

definition memoryEnd :: nat where
  "memoryEnd = 2 ^ 64"

definition allocPage :: "AnyNode \<Rightarrow> btree \<Rightarrow> (ptr \<times> btree) option" where
  "allocPage node t =
     (if t_brk t + pageSizeLeaf \<le> memoryEnd
      then Some (t_brk t, t\<lparr>t_pages := (t_pages t)(t_brk t \<mapsto> node), t_brk := t_brk t + pageSizeLeaf\<rparr>)
      else None)"

definition writePage :: "ptr \<Rightarrow> AnyNode \<Rightarrow> btree \<Rightarrow> btree" where
  "writePage p node t = t\<lparr>t_pages := (t_pages t)(p \<mapsto> node)\<rparr>"

definition freePage :: "ptr \<Rightarrow> btree \<Rightarrow> btree" where
  "freePage p t = t\<lparr>t_pages := (t_pages t)(p := None)\<rparr>"

definition makeRoot :: "config \<Rightarrow> ptr \<Rightarrow> btree \<Rightarrow> (ptr \<times> btree) option" where
  "makeRoot cfg child t =
     (if enableHeadNode cfg
      then (let h = HeadNode_init [] [] TmpHeadNode
            in allocPage (Head4 (h\<lparr>hn_children := (hn_children h)(0 := child)\<rparr>)) t)
      else allocPage (Basic ((BTreeNode_init False RangeOpCounter_new TmpBTreeNode)\<lparr>b_upper := child\<rparr>)) t)"

subsection \<open>Splitting a node\<close>

text \<open>The last steps of every split: the left page is allocated, the parent gets the separator with
  it, and the right page replaces the node.\<close>

definition commitSplit :: "config \<Rightarrow> ptr \<Rightarrow> ptr \<Rightarrow> bytes \<Rightarrow> AnyNode \<Rightarrow> AnyNode \<Rightarrow> btree \<Rightarrow> btree option" where
  "commitSplit cfg p pp sepKey left right t = do {
     (l, t1) \<leftarrow> allocPage left t;
     parent \<leftarrow> t_pages t1 pp;
     parent' \<leftarrow> AnyNode_insertChild cfg sepKey l parent;
     Some (writePage p right (writePage pp parent' t1))
   }"

definition BTreeNode_splitNode :: "config \<Rightarrow> hash_env \<Rightarrow> BTreeNode \<Rightarrow> nat \<Rightarrow> bytes \<Rightarrow> AnyNode \<times> AnyNode" where
  "BTreeNode_splitNode cfg env n sepSlot sepKey =
     (let basic = (\<lambda>n. let (l, r) = BTreeNode_splitPages n sepSlot sepKey in (Basic l, Basic r))
      in if BTreeNode_isLeaf n \<and> enableHashAdapt cfg then
           (let bad = BTreeNode_hasBadHeads n;
                roc = (if bad then setBadHeads cfg (b_roc n) (b_roc n) else setGoodHeads cfg (b_roc n));
                n1 = n\<lparr>b_roc := roc\<rparr>
            in if bad \<and> isLowRange cfg roc then
                 (let (l, r) = BTreeNode_splitToHashPages env n1 sepSlot sepKey in (Hash l, Hash r))
               else basic n1)
         else basic n)"

definition HashNode_splitNode :: "config \<Rightarrow> hash_env \<Rightarrow> HashNode \<Rightarrow> nat \<Rightarrow> bytes \<Rightarrow> AnyNode \<times> AnyNode" where
  "HashNode_splitNode cfg env n sepSlot sepKey =
     (let basic = (\<lambda>n. let (l, r) = HashNode_splitToBasicPages n sepSlot sepKey in (Basic l, Basic r))
      in if enableHashAdapt cfg \<and> HashNode_hasGoodHeads n then basic (n\<lparr>h_roc := setGoodHeads cfg (h_roc n)\<rparr>)
         else if enableHashAdapt cfg \<and> \<not> isLowRange cfg (h_roc n) then basic n
         else (let (l, r) = HashNode_splitPages env n sepSlot sepKey in (Hash l, Hash r)))"

text \<open>The separator and the two pages of a node that has to be split. Sorting a hash leaf happens in
  its page, before the parent is asked for space; the first component is that page.\<close>

definition splitPlan :: "config \<Rightarrow> hash_env \<Rightarrow> bytes \<Rightarrow> AnyNode \<Rightarrow> (AnyNode \<times> nat \<times> (bytes \<times> AnyNode \<times> AnyNode) option) option" where
  "splitPlan cfg env key node =
     (case node of
        Basic b \<Rightarrow>
          (case (if BTreeNode_isLeaf b \<and> enableDensifySplit cfg then densifySplit b else ([], 0)) of
             (sepKey, lowerCount) \<Rightarrow>
               if lowerCount \<noteq> 0 then
                 Some (node, length sepKey,
                   Some (sepKey, BTreeNode_splitNode cfg env b (lowerCount - 1) sepKey))
               else
                 (case BTreeNode_findSeparator b of
                    None \<Rightarrow> None
                  | Some info \<Rightarrow>
                      (let sepKey = BTreeNode_getSep b info
                       in Some (node, sep_length info,
                            Some (sepKey, BTreeNode_splitNode cfg env b (sep_slot info) sepKey)))))
      | Dense d \<Rightarrow>
          Some (node, d_fullKeyLen d,
            (if d_tag d = Tag_Dense then
               map_option (\<lambda>(sepKey, l, r). (sepKey, Dense l, case r of Inl b \<Rightarrow> Basic b | Inr d' \<Rightarrow> Dense d'))
                 (DenseNode_splitPages1 d key)
             else map_option (\<lambda>(sepKey, l, r). (sepKey, Dense l, Dense r)) (DenseNode_splitPages2 d)))
      | Hash h \<Rightarrow>
          (let h1 = HashNode_sort env h; info = HashNode_findSeparator h1; sepKey = HashNode_getSep h1 info
           in Some (Hash h1, sep_length info, Some (sepKey, HashNode_splitNode cfg env h1 (sep_slot info) sepKey)))
      | Head4 h \<Rightarrow>
          (let info = HeadNode_findSeparator h; sepKey = HeadNode_getSep h info
           in Some (node, sep_length info,
                map_option (\<lambda>(l, r). (sepKey, Head4 l, Head4 r)) (HeadNode_splitPages h (sep_slot info) sepKey)))
      | Head8 h \<Rightarrow>
          (let info = HeadNode_findSeparator h; sepKey = HeadNode_getSep h info
           in Some (node, sep_length info,
                map_option (\<lambda>(l, r). (sepKey, Head8 l, Head8 r)) (HeadNode_splitPages h (sep_slot info) sepKey))))"

definition splitNodeWithParent :: "config \<Rightarrow> hash_env \<Rightarrow> bytes \<Rightarrow> ptr \<Rightarrow> ptr \<Rightarrow> btree \<Rightarrow> (bool \<times> btree) option" where
  "splitNodeWithParent cfg env key p pp t = do {
     node \<leftarrow> t_pages t p;
     (node1, sepLength, pages) \<leftarrow> splitPlan cfg env key node;
     parent \<leftarrow> t_pages t pp;
     (ok, parent1) \<leftarrow> innerRequestSpaceFor cfg sepLength parent;
     let t1 = writePage pp parent1 (writePage p node1 t);
     if \<not> ok then Some (False, t1)
     else do {
       (sepKey, left, right) \<leftarrow> pages;
       t2 \<leftarrow> commitSplit cfg p pp sepKey left right t1;
       Some (True, t2)
     }
   }"

subsection \<open>Merging with the right neighbour\<close>

text \<open>\<open>mergeNodes\<close> of leaves: the merged page replaces the right leaf, and the parent loses the slot
  of the left leaf.\<close>

definition commitMerge :: "nat \<Rightarrow> ptr \<Rightarrow> ptr \<Rightarrow> AnyNode \<Rightarrow> btree \<Rightarrow> btree option" where
  "commitMerge slotId pp right merged t = do {
     parent \<leftarrow> t_pages t pp;
     parent' \<leftarrow> innerRemoveSlot slotId parent;
     Some (writePage right merged (writePage pp parent' t))
   }"

subsection \<open>Walks over all pages\<close>

text \<open>The fuel is the height of the tree.\<close>

fun destroy :: "nat \<Rightarrow> ptr \<Rightarrow> btree \<Rightarrow> btree option" where
  "destroy 0 p t = None"
| "destroy (Suc f) p t = do {
     node \<leftarrow> t_pages t p;
     t1 \<leftarrow> fold (\<lambda>c acc. Option.bind acc (destroy f c)) (childPtrs node) (Some t);
     Some (case node of Head4 _ \<Rightarrow> t1 | Head8 _ \<Rightarrow> t1 | _ \<Rightarrow> freePage p t1)
   }"

text \<open>The counts per tag, and the entries of the leaves under \<open>None\<close>.\<close>

definition leafEntryCount :: "AnyNode \<Rightarrow> nat" where
  "leafEntryCount node =
     (case node of Basic b \<Rightarrow> if BTreeNode_isLeaf b then b_count b else 0
      | Dense d \<Rightarrow> d_occupiedCount d | Hash h \<Rightarrow> h_count h | _ \<Rightarrow> 0)"

fun nodeCount :: "nat \<Rightarrow> (ptr \<Rightarrow> AnyNode option) \<Rightarrow> ptr \<Rightarrow> (Tag option \<Rightarrow> nat) \<Rightarrow> (Tag option \<Rightarrow> nat) option" where
  "nodeCount 0 pages p counts = None"
| "nodeCount (Suc f) pages p counts = do {
     node \<leftarrow> pages p;
     let tag = AnyNode_tag node;
     let counts1 = counts(Some tag := counts (Some tag) + 1);
     let counts2 = counts1(None := counts1 None + leafEntryCount node);
     fold (\<lambda>c acc. Option.bind acc (nodeCount f pages c)) (childPtrs node) (Some counts2)
   }"

fun memoryUsage :: "nat \<Rightarrow> (ptr \<Rightarrow> AnyNode option) \<Rightarrow> ptr \<Rightarrow> nat \<Rightarrow> nat option" where
  "memoryUsage 0 pages p used = None"
| "memoryUsage (Suc f) pages p used =
     (if p = nullptr then Some used
      else do {
        node \<leftarrow> pages p;
        fold (\<lambda>c acc. Option.bind acc (memoryUsage f pages c)) (childPtrs node)
          (Some (used + (if isAnyInner node then pageSizeInner else pageSizeLeaf)))
      })"

end
