(* ===== verification/ArgParsing.thy ===== *)
theory ArgParsing
  imports Text
begin

text \<open>
  \<open>redis_server/src/api/arg_parsing.cpp\<close>: strict parsing of a decimal integer into an \<open>int64_t\<close>.
  Signed overflow is undefined in the code: \<open>None\<close>.
\<close>

type_synonym int64 = "64 word"

lemma sint_int64_of_nat: "n < 2 ^ 63 \<Longrightarrow> sint (word_of_nat n :: int64) = int n"
proof -
  assume "n < 2 ^ 63"
  then have "signed_take_bit 63 (int n) = int n" by (intro signed_take_bit_int_eq_self) auto
  then show ?thesis using sint_sbintrunc' [of "int n", where 'a = 64] by simp
qed

text \<open>The sum and the negation of two \<open>int64_t\<close>: a result out of range is undefined behaviour.\<close>

definition int64_add :: "int64 \<Rightarrow> int64 \<Rightarrow> int64 option" where
  "int64_add x y = (if sint (x + y) = sint x + sint y then Some (x + y) else None)"

definition int64_neg :: "int64 \<Rightarrow> int64 option" where
  "int64_neg x = (if sint (- x) = - sint x then Some (- x) else None)"

lemma sint_word_of_int: "sint (word_of_int i :: int64) = i \<longleftrightarrow> - (2 ^ 63) \<le> i \<and> i < 2 ^ 63"
proof -
  have "sint (word_of_int i :: int64) = signed_take_bit 63 i" using sint_sbintrunc' [of i, where 'a = 64] by simp
  then show ?thesis by (simp add: signed_take_bit_int_eq_self_iff)
qed

lemma int64_add_eq:
  "int64_add x y = (if - (2 ^ 63) \<le> sint x + sint y \<and> sint x + sint y < 2 ^ 63 then Some (x + y) else None)"
  using sint_word_of_int [of "sint x + sint y"] by (simp add: int64_add_def)

lemma int64_neg_eq: "int64_neg x = (if sint x = - (2 ^ 63) then None else Some (- x))"
proof -
  have "- (2 ^ 63) \<le> sint x" "sint x < 2 ^ 63" using sint_ge [of x] sint_lt [of x] by simp_all
  then show ?thesis using sint_word_of_int [of "- sint x"] by (auto simp: int64_neg_def)
qed

definition int64_mul :: "int64 \<Rightarrow> int64 \<Rightarrow> int64 option" where
  "int64_mul x y = (if sint (x * y) = sint x * sint y then Some (x * y) else None)"

text \<open>\<open>Some None\<close> is the empty \<open>std::optional\<close>: the string is no integer.\<close>

fun parseIntLoop :: "bool \<Rightarrow> string \<Rightarrow> int64 \<Rightarrow> int64 option option" where
  "parseIntLoop first [] val = Some (Some val)"
| "parseIntLoop first (c # cs) val =
     (if is_digit c then
        case int64_mul val 10 of
          None \<Rightarrow> None
        | Some val10 \<Rightarrow>
            (case int64_add val10 (word_of_nat (digit_val c)) of
               None \<Rightarrow> None
             | Some val' \<Rightarrow> parseIntLoop False cs val')
      else if c = CHR ''-'' \<and> first then parseIntLoop False cs val
      else Some None)"

definition parseIntStrict :: "string \<Rightarrow> int64 option option" where
  "parseIntStrict str =
     (if str = [] then Some None
      else case parseIntLoop True str 0 of
          Some (Some val) \<Rightarrow> if hd str = CHR ''-'' then map_option Some (int64_neg val) else Some (Some val)
        | r \<Rightarrow> r)"

subsection \<open>What it accepts and returns\<close>

lemma digit_val_lt: "is_digit c \<Longrightarrow> digit_val c < 10"
  by (auto simp: is_digit_def digit_val_def)

text \<open>One digit: the value grows as long as it fits.\<close>

lemma accumulate_digit:
  assumes "v < 2 ^ 63" "d < 10"
  shows "(case int64_mul (word_of_nat v) 10 of None \<Rightarrow> None | Some x \<Rightarrow> int64_add x (word_of_nat d)) =
    (if v * 10 + d < 2 ^ 63 then Some (word_of_nat (v * 10 + d)) else None)"
proof -
  have s: "sint (word_of_nat n :: int64) = int n \<longleftrightarrow> n < 2 ^ 63" for n
    using sint_word_of_int [of "int n"] by (simp flip: of_nat_power)
  have ten: "sint (10 :: int64) = 10" by simp
  have mul: "int64_mul (word_of_nat v) 10 = (if v * 10 < 2 ^ 63 then Some (word_of_nat (v * 10)) else None)"
    using s [of v] s [of "v * 10"] assms(1) by (auto simp: int64_mul_def ten)
  show ?thesis
  proof (cases "v * 10 < 2 ^ 63")
    case True
    then show ?thesis using s [of "v * 10"] s [of d] s [of "v * 10 + d"] assms(2) mul
      by (auto simp: int64_add_def)
  qed (simp add: mul)
qed

definition accumulate :: "nat \<Rightarrow> string \<Rightarrow> nat" where
  "accumulate v cs = foldl (\<lambda>v c. v * 10 + digit_val c) v cs"

lemma accumulate_simps [simp]: "accumulate v [] = v" "accumulate v (c # cs) = accumulate (v * 10 + digit_val c) cs"
  by (simp_all add: accumulate_def)

lemma accumulate_ge: "v \<le> accumulate v cs"
proof (induction cs arbitrary: v)
  case (Cons c cs)
  from Cons.IH [of "v * 10 + digit_val c"] show ?case by simp
qed simp

lemma parseIntLoop_rest:
  assumes "v < 2 ^ 63"
  shows "parseIntLoop False cs (word_of_nat v) =
    (if 2 ^ 63 \<le> accumulate v (takeWhile is_digit cs) then None
     else if list_all is_digit cs then Some (Some (word_of_nat (accumulate v cs))) else Some None)"
  using assms
proof (induction cs arbitrary: v)
  case (Cons c cs)
  show ?case
  proof (cases "is_digit c")
    case digit: True
    note acc = accumulate_digit [OF Cons.prems digit_val_lt [OF digit]]
    show ?thesis
    proof (cases "v * 10 + digit_val c < 2 ^ 63")
      case True
      with acc have "parseIntLoop False (c # cs) (word_of_nat v) = parseIntLoop False cs (word_of_nat (v * 10 + digit_val c))"
        using digit by (auto split: option.splits)
      with Cons.IH [OF True] digit show ?thesis by (simp del: of_nat_add of_nat_mult)
    next
      case False
      with acc have "parseIntLoop False (c # cs) (word_of_nat v) = None" using digit by (auto split: option.splits)
      moreover have "2 ^ 63 \<le> accumulate v (takeWhile is_digit (c # cs))"
        using False digit accumulate_ge [of "v * 10 + digit_val c" "takeWhile is_digit cs"] by simp
      ultimately show ?thesis by simp
    qed
  qed (use Cons.prems in simp)
qed simp

text \<open>The accepted strings: digits, with a minus sign in front or without.\<close>

definition magnitude :: "string \<Rightarrow> string" where
  "magnitude s = (if hd s = CHR ''-'' then tl s else s)"

definition strict_int_syntax :: "string \<Rightarrow> bool" where
  "strict_int_syntax s \<longleftrightarrow> s \<noteq> [] \<and> list_all is_digit (magnitude s)"

definition strict_int_value :: "string \<Rightarrow> int" where
  "strict_int_value s =
     (if hd s = CHR ''-'' then - int (digits_val (magnitude s)) else int (digits_val (magnitude s)))"

lemma digits_val_accumulate: "digits_val cs = accumulate 0 cs"
  by (simp add: digits_val_def accumulate_def)

lemma takeWhile_all_digits: "list_all is_digit cs \<Longrightarrow> takeWhile is_digit cs = cs"
  by (simp add: list_all_iff takeWhile_eq_all_conv)

lemma parseIntLoop_from_0:
  "parseIntLoop False cs 0 =
    (if 2 ^ 63 \<le> digits_val (takeWhile is_digit cs) then None
     else if list_all is_digit cs then Some (Some (word_of_nat (digits_val cs))) else Some None)"
  using parseIntLoop_rest [of 0 cs] by (simp add: digits_val_accumulate)

text \<open>Strict integer parsing accepts exactly a non-empty string of digits with an optional minus sign
  in front, and returns its value; when the digits it reads do not fit 63 bits, the accumulation is undefined.\<close>

theorem parseIntStrict_eq:
  "parseIntStrict s =
     (if s \<noteq> [] \<and> 2 ^ 63 \<le> digits_val (takeWhile is_digit (magnitude s)) then None
      else if strict_int_syntax s then Some (Some (word_of_int (strict_int_value s))) else Some None)"
proof (cases s)
  case (Cons c cs)
  show ?thesis
  proof (cases "c = CHR ''-''")
    case True
    have loop: "parseIntLoop True s 0 = parseIntLoop False cs 0" using Cons True by (simp add: is_digit_def)
    have m: "magnitude s = cs" "hd s = CHR ''-''" "s \<noteq> []" using Cons True by (simp_all add: magnitude_def)
    consider "2 ^ 63 \<le> digits_val (takeWhile is_digit cs)" | "digits_val (takeWhile is_digit cs) < 2 ^ 63" "list_all is_digit cs"
      | "digits_val (takeWhile is_digit cs) < 2 ^ 63" "\<not> list_all is_digit cs" by linarith
    then show ?thesis
    proof cases
      case 2
      then have v: "digits_val cs < 2 ^ 63" by (simp add: takeWhile_all_digits)
      have "int64_neg (word_of_nat (digits_val cs)) = Some (- word_of_nat (digits_val cs))"
        using sint_int64_of_nat [OF v] by (simp add: int64_neg_eq)
      with 2 show ?thesis
        by (simp add: parseIntStrict_def loop parseIntLoop_from_0 m strict_int_syntax_def strict_int_value_def)
    qed (simp_all add: parseIntStrict_def loop parseIntLoop_from_0 m strict_int_syntax_def)
  next
    case minus: False
    have loop: "parseIntLoop True s 0 = parseIntLoop False s 0" using Cons minus by simp
    have m: "magnitude s = s" "hd s \<noteq> CHR ''-''" "s \<noteq> []" using Cons minus by (simp_all add: magnitude_def)
    then show ?thesis
      by (simp add: parseIntStrict_def loop parseIntLoop_from_0 strict_int_syntax_def strict_int_value_def)
  qed
qed (simp add: parseIntStrict_def strict_int_syntax_def)

lemma show_int_syntax: "strict_int_syntax (show_int i) \<and> strict_int_value (show_int i) = i"
proof -
  have digits: "list_all is_digit (show_nat n)" for n
    using show_nat_digits by (auto simp: list_all_iff)
  have "hd (show_nat n) \<noteq> CHR ''-''" for n
    using show_nat_digits [OF hd_in_set [of "show_nat n"]] by auto
  with digits show ?thesis
    by (simp add: strict_int_syntax_def strict_int_value_def magnitude_def show_int_def digits_val_show_nat)
qed

text \<open>The decimal form of a 64-bit number has at most 19 digits and a sign.\<close>

lemma length_show_nat: "n < 10 ^ Suc k \<Longrightarrow> length (show_nat n) \<le> Suc k"
proof (induction k arbitrary: n)
  case 0
  then show ?case by (simp add: show_nat.simps [of n])
next
  case (Suc k)
  then have "n div 10 < 10 ^ Suc k" by (simp add: less_mult_imp_div_less)
  from Suc.IH [OF this] show ?case by (simp add: show_nat.simps [of n])
qed

lemma length_show_int64: "length (show_int (sint (i :: int64))) \<le> 20"
proof -
  have "- (2 ^ 63) \<le> sint i" "sint i < 2 ^ 63" using sint_ge [of i] sint_lt [of i] by simp_all
  then have "nat (- sint i) < 10 ^ Suc 18" "nat (sint i) < 10 ^ Suc 18" by simp_all
  from length_show_nat [OF this(1)] length_show_nat [OF this(2)] show ?thesis by (simp add: show_int_def)
qed

text \<open>Parsing what \<open>std::to_string\<close> prints gives back every 64-bit integer but the least, whose digits
  overflow before the sign is taken into account.\<close>

theorem parseIntStrict_to_string:
  "parseIntStrict (show_int (sint (i :: int64))) = (if sint i = - (2 ^ 63) then None else Some (Some i))"
proof -
  let ?s = "show_int (sint i)"
  have r: "- (2 ^ 63) \<le> sint i" "sint i < 2 ^ 63" using sint_ge [of i] sint_lt [of i] by simp_all
  have syn: "strict_int_syntax ?s" "strict_int_value ?s = sint i" using show_int_syntax [of "sint i"] by simp_all
  then have s: "?s \<noteq> []" "takeWhile is_digit (magnitude ?s) = magnitude ?s"
    by (simp_all add: strict_int_syntax_def takeWhile_all_digits)
  have "int (digits_val (magnitude ?s)) = \<bar>strict_int_value ?s\<bar>" by (simp add: strict_int_value_def)
  with syn(2) r have "2 ^ 63 \<le> digits_val (magnitude ?s) \<longleftrightarrow> sint i = - (2 ^ 63)" by auto
  with syn s show ?thesis by (simp only: parseIntStrict_eq) simp
qed

end
