(* ===== verification/RespTypes.thy ===== *)
theory RespTypes
  imports ArgParsing
begin

text \<open>
  The values of the RESP protocol (\<open>redis_server/src/resp/resp_types\<close>), their serialization
  (\<open>resp_serializer.cpp\<close>) and the view a command handler has of its arguments
  (\<open>resp_command_context.cpp\<close>). A \<open>std::shared_ptr<std::string>\<close> is an optional string; \<open>None\<close>
  as a result is the dereference of a null pointer.
\<close>

subsection \<open>Values\<close>

type_synonym string_ptr = "string option"

datatype resp_value =
    resp_integer_value int64
  | resp_simple_string_value string_ptr
  | resp_error_value string_ptr
  | resp_bulk_string_value string_ptr
  | resp_null_bulk_string_value
  | resp_array_value "resp_value list"

definition integer_value :: "int64 \<Rightarrow> resp_value" where
  "integer_value v = resp_integer_value v"

definition simple_string :: "string \<Rightarrow> resp_value" where
  "simple_string s = resp_simple_string_value (Some s)"

definition error_value :: "string \<Rightarrow> resp_value" where
  "error_value s = resp_error_value (Some s)"

definition bulk_string :: "string_ptr \<Rightarrow> resp_value" where
  "bulk_string p = resp_bulk_string_value p"

definition null_bulk_string :: resp_value where
  "null_bulk_string = resp_null_bulk_string_value"

definition array_value :: "resp_value list \<Rightarrow> resp_value" where
  "array_value xs = resp_array_value xs"

fun getAsInteger :: "resp_value \<Rightarrow> int64 option" where
  "getAsInteger (resp_integer_value v) = Some v"
| "getAsInteger _ = None"

fun getAsString :: "resp_value \<Rightarrow> string_ptr" where
  "getAsString (resp_simple_string_value p) = p"
| "getAsString (resp_bulk_string_value p) = p"
| "getAsString (resp_error_value p) = p"
| "getAsString _ = None"

fun getAsArray :: "resp_value \<Rightarrow> resp_value list option" where
  "getAsArray (resp_array_value xs) = Some xs"
| "getAsArray _ = None"

fun isInteger :: "resp_value \<Rightarrow> bool" where
  "isInteger (resp_integer_value _) = True"
| "isInteger _ = False"

fun isSimpleString :: "resp_value \<Rightarrow> bool" where
  "isSimpleString (resp_simple_string_value _) = True"
| "isSimpleString _ = False"

fun isError :: "resp_value \<Rightarrow> bool" where
  "isError (resp_error_value _) = True"
| "isError _ = False"

fun isBulkString :: "resp_value \<Rightarrow> bool" where
  "isBulkString (resp_bulk_string_value _) = True"
| "isBulkString _ = False"

fun isNullBulkString :: "resp_value \<Rightarrow> bool" where
  "isNullBulkString resp_null_bulk_string_value = True"
| "isNullBulkString _ = False"

fun isArray :: "resp_value \<Rightarrow> bool" where
  "isArray (resp_array_value _) = True"
| "isArray _ = False"

subsection \<open>Type bytes\<close>

definition resp_STRING :: char where "resp_STRING = CHR ''+''"
definition resp_ERR :: char where "resp_ERR = CHR ''-''"
definition resp_INTEGER :: char where "resp_INTEGER = CHR '':''"
definition resp_BULK_STRING :: char where "resp_BULK_STRING = CHR ''$''"
definition resp_ARRAY :: char where "resp_ARRAY = CHR ''*''"

lemmas resp_type_defs = resp_STRING_def resp_ERR_def resp_INTEGER_def resp_BULK_STRING_def resp_ARRAY_def

definition CR :: char where "CR = CHR 0x0D"
definition LF :: char where "LF = CHR 0x0A"

subsection \<open>Serialization\<close>

text \<open>The characters each function appends to the output stream.\<close>

definition writeSimpleString :: "string \<Rightarrow> string" where
  "writeSimpleString str = [resp_STRING] @ str @ [CR] @ [LF]"

definition writeError :: "string \<Rightarrow> string" where
  "writeError str = [resp_ERR] @ str @ [CR] @ [LF]"

definition writeBulkString :: "string \<Rightarrow> string" where
  "writeBulkString str = [resp_BULK_STRING] @ show_nat (length str) @ [CR] @ [LF] @ str @ [CR] @ [LF]"

definition writeNullBulkString :: string where
  "writeNullBulkString = [resp_BULK_STRING] @ show_int (- 1) @ [CR] @ [LF]"

definition writeInteger :: "int64 \<Rightarrow> string" where
  "writeInteger v = [resp_INTEGER] @ show_int (sint v) @ [CR] @ [LF]"

fun writeValue :: "resp_value \<Rightarrow> string option" and writeItems :: "resp_value list \<Rightarrow> string option" where
  "writeValue value =
     (if isInteger value then map_option writeInteger (getAsInteger value)
      else if isSimpleString value then map_option writeSimpleString (getAsString value)
      else if isError value then map_option writeError (getAsString value)
      else if isBulkString value then map_option writeBulkString (getAsString value)
      else if isNullBulkString value then Some writeNullBulkString
      else (case value of
          resp_array_value xs \<Rightarrow>
            (case writeItems xs of
               None \<Rightarrow> None
             | Some s \<Rightarrow> Some ([resp_ARRAY] @ show_nat (length xs) @ [CR] @ [LF] @ s))
        | _ \<Rightarrow> None))"
| "writeItems [] = Some []"
| "writeItems (item # items) =
     (case writeValue item of
        None \<Rightarrow> None
      | Some s \<Rightarrow> (case writeItems items of None \<Rightarrow> None | Some t \<Rightarrow> Some (s @ t)))"

declare writeValue.simps(1) [simp del]

lemma writeValue_simps [simp]:
  "writeValue (resp_integer_value v) = Some (writeInteger v)"
  "writeValue (resp_simple_string_value p) = map_option writeSimpleString p"
  "writeValue (resp_error_value p) = map_option writeError p"
  "writeValue (resp_bulk_string_value p) = map_option writeBulkString p"
  "writeValue resp_null_bulk_string_value = Some writeNullBulkString"
  "writeValue (resp_array_value xs) = (case writeItems xs of None \<Rightarrow> None
     | Some s \<Rightarrow> Some ([resp_ARRAY] @ show_nat (length xs) @ [CR] @ [LF] @ s))"
  by (simp_all add: writeValue.simps(1))

subsection \<open>Arguments of a command\<close>

text \<open>\<open>boost::iequals\<close> is a parameter.\<close>

definition argIs :: "(string \<Rightarrow> string \<Rightarrow> bool) \<Rightarrow> resp_value list \<Rightarrow> nat \<Rightarrow> string \<Rightarrow> bool option" where
  "argIs iequals command arg str =
     (if \<not> length command > arg then Some False
      else if \<not> isBulkString (command ! arg) then Some False
      else map_option (\<lambda>s. iequals s str) (getAsString (command ! arg)))"

definition getArgOrNull :: "resp_value list \<Rightarrow> nat \<Rightarrow> string_ptr" where
  "getArgOrNull command arg =
     (if length command > arg \<and> isBulkString (command ! arg) then getAsString (command ! arg) else None)"

text \<open>\<open>subspan(start)\<close> with \<open>start\<close> past the end is undefined.\<close>

definition getArgs :: "resp_value list \<Rightarrow> nat \<Rightarrow> resp_value list option" where
  "getArgs command start = (if start \<le> length command then Some (drop start command) else None)"

definition getArgsBetween :: "resp_value list \<Rightarrow> nat \<Rightarrow> nat \<Rightarrow> resp_value list option" where
  "getArgsBetween command start end =
     (if start \<le> end \<and> end \<le> length command then Some (take (end - start) (drop start command)) else None)"

definition varArgs :: "resp_value list \<Rightarrow> nat \<Rightarrow> resp_value list option" where
  "varArgs command start = (if start \<le> length command then Some (drop start command) else None)"

definition respondOk :: resp_value where
  "respondOk = simple_string ''OK''"

definition respondErrorWrongArguments :: resp_value where
  "respondErrorWrongArguments = error_value ''wrong number of arguments for command''"

definition respondErrorNoInteger :: resp_value where
  "respondErrorNoInteger = error_value ''value is not an integer or out of range''"

lemma getArgOrNull_Some:
  "getArgOrNull command arg = Some s \<longleftrightarrow> arg < length command \<and> command ! arg = resp_bulk_string_value (Some s)"
  by (cases "arg < length command"; cases "command ! arg") (auto simp: getArgOrNull_def)

end
