(* ===== verification/KvApi.thy ===== *)
theory KvApi
  imports LeafMap RespTypes "HOL-Library.Monad_Syntax"
begin

text \<open>
  The key-value operations of the server, \<open>redis_server/src/api/api_impl.cpp\<close>, over the interface
  of the tree they hold a reference to. \<open>None\<close> is undefined behaviour: of the tree, a null
  pointer dereferenced, a write past the static key buffer, or a signed sum out of range.
\<close>

subsection \<open>The interface of the tree\<close>

text \<open>The methods of \<open>BTree\<close> the server calls. A lookup may change the tree (adaptive leaves), and a
  scan threads the state \<open>'s\<close> of its callback. The first argument of \<open>kv_range\<close> is the size of the
  caller's key buffer \<open>keyOut\<close>; a scan that writes past its end is undefined.\<close>

record ('t, 's) kv_ops =
  kv_lookup :: "bytes \<Rightarrow> 't \<Rightarrow> (bytes option \<times> 't) option"
  kv_insert :: "bytes \<Rightarrow> bytes \<Rightarrow> 't \<Rightarrow> 't option"
  kv_remove :: "bytes \<Rightarrow> 't \<Rightarrow> (bool \<times> 't) option"
  kv_range :: "nat \<Rightarrow> bytes \<Rightarrow> 's callback \<Rightarrow> 't \<Rightarrow> 's \<Rightarrow> ('s \<times> 't) option"
  kv_range_desc :: "bytes \<Rightarrow> 's callback \<Rightarrow> 't \<Rightarrow> 's \<Rightarrow> ('s \<times> 't) option"
  kv_clear :: "'t \<Rightarrow> 't option"
  kv_memory :: "'t \<Rightarrow> nat option"

subsection \<open>Operations\<close>

definition api_get :: "('t, 's) kv_ops \<Rightarrow> string \<Rightarrow> 't \<Rightarrow> (string_ptr \<times> 't) option" where
  "api_get kv key t = do {
     (res, t1) \<leftarrow> kv_lookup kv (bytes_of key) t;
     Some (case res of None \<Rightarrow> None | Some bs \<Rightarrow> Some (string_of bs), t1)
   }"

definition api_set :: "('t, 's) kv_ops \<Rightarrow> string \<Rightarrow> string \<Rightarrow> 't \<Rightarrow> 't option" where
  "api_set kv key val t = do {
     (_, t1) \<leftarrow> kv_remove kv (bytes_of key) t;
     kv_insert kv (bytes_of key) (bytes_of val) t1
   }"

definition api_del :: "('t, 's) kv_ops \<Rightarrow> string \<Rightarrow> 't \<Rightarrow> (bool \<times> 't) option" where
  "api_del kv key t = kv_remove kv (bytes_of key) t"

definition api_exists :: "('t, 's) kv_ops \<Rightarrow> string \<Rightarrow> 't \<Rightarrow> (bool \<times> 't) option" where
  "api_exists kv key t = kv_remove kv (bytes_of key) t"

definition api_increment :: "('t, 's) kv_ops \<Rightarrow> string \<Rightarrow> int64 \<Rightarrow> 't \<Rightarrow> (int64 option \<times> 't) option" where
  "api_increment kv key amount t = do {
     (res, t1) \<leftarrow> kv_lookup kv (bytes_of key) t;
     optInt \<leftarrow> (case res of None \<Rightarrow> Some (Some 0) | Some bs \<Rightarrow> parseIntStrict (string_of bs));
     (case optInt of
        None \<Rightarrow> Some (None, t1)
      | Some intVal \<Rightarrow> do {
          intVal' \<leftarrow> int64_add intVal amount;
          (_, t2) \<leftarrow> kv_remove kv (bytes_of key) t1;
          t3 \<leftarrow> kv_insert kv (bytes_of key) (bytes_of (show_int (sint intVal'))) t2;
          Some (Some intVal', t3)
        })
   }"

fun api_mget :: "('t, 's) kv_ops \<Rightarrow> resp_value list \<Rightarrow> 't \<Rightarrow> (string_ptr list \<times> 't) option" where
  "api_mget kv [] t = Some ([], t)"
| "api_mget kv (key # keys) t = do {
     k \<leftarrow> getAsString key;
     (v, t1) \<leftarrow> api_get kv k t;
     (vs, t2) \<leftarrow> api_mget kv keys t1;
     Some (v # vs, t2)
   }"

fun api_mset :: "('t, 's) kv_ops \<Rightarrow> resp_value list \<Rightarrow> 't \<Rightarrow> 't option" where
  "api_mset kv [] t = Some t"
| "api_mset kv [k] t = do { key \<leftarrow> getAsString k; Some t }"
| "api_mset kv (k # v # rest) t = do {
     key \<leftarrow> getAsString k;
     val \<leftarrow> getAsString v;
     t1 \<leftarrow> api_set kv key val t;
     api_mset kv rest t1
   }"

text \<open>The loop of \<open>zadd\<close>: \<open>False\<close> when it meets a score other than 0.\<close>

fun api_zadd_loop :: "('t, 's) kv_ops \<Rightarrow> resp_value list \<Rightarrow> 't \<Rightarrow> (bool \<times> 't) option" where
  "api_zadd_loop kv [] t = Some (True, t)"
| "api_zadd_loop kv [s] t = do { score \<leftarrow> getAsString s; Some (score = ''0'', t) }"
| "api_zadd_loop kv (s # v # rest) t = do {
     score \<leftarrow> getAsString s;
     if score \<noteq> ''0'' then Some (False, t)
     else do {
       val \<leftarrow> getAsString v;
       (_, t1) \<leftarrow> kv_remove kv (bytes_of val) t;
       t2 \<leftarrow> kv_insert kv (bytes_of val) [] t1;
       api_zadd_loop kv rest t2
     }
   }"

definition api_zadd :: "('t, 's) kv_ops \<Rightarrow> resp_value list \<Rightarrow> 't \<Rightarrow> (int64 \<times> 't) option" where
  "api_zadd kv scorePairs t = do {
     (ok, t1) \<leftarrow> api_zadd_loop kv scorePairs t;
     Some (if ok then word_of_nat (length scorePairs div 2) else - 1, t1)
   }"

text \<open>The static buffer \<open>keyOut\<close> has 256 bytes; \<open>count\<close> and \<open>limit\<close> are \<open>uint64_t\<close>.\<close>

definition keyOut_size :: nat where
  "keyOut_size = 256"

definition zrange_callback :: "64 word \<Rightarrow> (bytes list \<times> nat) callback" where
  "zrange_callback limit key payload s =
     (case s of (keys, count) \<Rightarrow> (count + 1 < unat limit, (keys @ [key], count + 1)))"

definition api_zrange :: "('t, bytes list \<times> nat) kv_ops \<Rightarrow> string \<Rightarrow> 64 word \<Rightarrow> 't \<Rightarrow> (string list \<times> 't) option" where
  "api_zrange kv minKey limit t =
     (if limit = 0 then Some ([], t)
      else do {
        ((keys, _), t1) \<leftarrow> kv_range kv keyOut_size (bytes_of minKey) (zrange_callback limit) t ([], 0);
        Some (map string_of keys, t1)
      })"

definition api_flushAll :: "('t, 's) kv_ops \<Rightarrow> 't \<Rightarrow> 't option" where
  "api_flushAll kv t = kv_clear kv t"

definition api_getMemory :: "('t, 's) kv_ops \<Rightarrow> 't \<Rightarrow> nat option" where
  "api_getMemory kv t = kv_memory kv t"

text \<open>The arguments of \<open>MSET\<close> for a list of pairs.\<close>

fun mset_pairs :: "(string \<times> string) list \<Rightarrow> resp_value list" where
  "mset_pairs [] = []"
| "mset_pairs ((k, v) # ps) = bulk_string (Some k) # bulk_string (Some v) # mset_pairs ps"

subsection \<open>The contract of the tree\<close>

text \<open>\<open>inv n t\<close>: the tree is sound and has the resources for \<open>n\<close> more updates. A key buffer has to hold the
  start key and one byte more than the longest key an entry may have.\<close>

locale kv_store =
  fixes kv :: "('t, 's) kv_ops"
    and inv :: "nat \<Rightarrow> 't \<Rightarrow> bool"
    and content :: "'t \<Rightarrow> leaf_content"
    and storable :: "bytes \<Rightarrow> bytes \<Rightarrow> bool"
  assumes weaken: "inv n t \<Longrightarrow> m \<le> n \<Longrightarrow> inv m t"
    and lookup: "inv n t \<Longrightarrow> \<exists>t'. kv_lookup kv k t = Some (content t k, t') \<and> inv n t' \<and> content t' = content t"
    and insert: "inv (Suc n) t \<Longrightarrow> content t k = None \<Longrightarrow> storable k v \<Longrightarrow>
      \<exists>t'. kv_insert kv k v t = Some t' \<and> inv n t' \<and> content t' = (content t)(k \<mapsto> v)"
    and remove: "inv (Suc n) t \<Longrightarrow>
      \<exists>t'. kv_remove kv k t = Some (content t k \<noteq> None, t') \<and> inv n t' \<and> content t' = (content t)(k := None)"
    and range: "inv n t \<Longrightarrow> sorted_wrt (<) (map fst es) \<Longrightarrow> content t = map_of es \<Longrightarrow>
      length k \<le> cap \<Longrightarrow> (\<forall>k' v. storable k' v \<longrightarrow> length k' < cap) \<Longrightarrow>
      \<exists>t'. kv_range kv cap k cb t s = Some (snd (scan cb (filter (\<lambda>(k', _). k \<le> k') es) s), t') \<and>
        inv n t' \<and> content t' = content t"
    and range_desc: "inv n t \<Longrightarrow> sorted_wrt (<) (map fst es) \<Longrightarrow> content t = map_of es \<Longrightarrow>
      \<exists>t'. kv_range_desc kv k cb t s = Some (snd (scan cb (rev (filter (\<lambda>(k', _). k' \<le> k) es)) s), t') \<and>
        inv n t' \<and> content t' = content t"
    and clear: "inv (Suc n) t \<Longrightarrow> \<exists>t'. kv_clear kv t = Some t' \<and> inv n t' \<and> content t' = Map.empty"
begin

lemma get_content:
  assumes "inv n t"
  obtains t' where "api_get kv k t = Some (map_option string_of (content t (bytes_of k)), t')"
    "inv n t'" "content t' = content t"
  using lookup [OF assms, of "bytes_of k"] that by (auto simp: api_get_def split: option.splits)

lemma set_content:
  assumes "inv (n + 2) t" "storable (bytes_of k) (bytes_of v)"
  obtains t' where "api_set kv k v t = Some t'" "inv n t'"
    "content t' = (content t)(bytes_of k \<mapsto> bytes_of v)"
proof -
  have "inv (Suc (Suc n)) t" using assms(1) by simp
  then obtain t1 where t1: "kv_remove kv (bytes_of k) t = Some (content t (bytes_of k) \<noteq> None, t1)" "inv (Suc n) t1"
    "content t1 = (content t)(bytes_of k := None)"
    using remove by blast
  then obtain t2 where "kv_insert kv (bytes_of k) (bytes_of v) t1 = Some t2" "inv n t2"
    "content t2 = (content t1)(bytes_of k \<mapsto> bytes_of v)"
    using insert [OF t1(2) _ assms(2)] by auto
  with t1 that show thesis by (simp add: api_set_def)
qed

lemma del_content:
  assumes "inv (Suc n) t"
  obtains t' where "api_del kv k t = Some (content t (bytes_of k) \<noteq> None, t')" "inv n t'"
    "content t' = (content t)(bytes_of k := None)"
  using remove [OF assms, of "bytes_of k"] that by (auto simp: api_del_def)

lemma increment_number:
  assumes t: "inv (m + 2) t" and num: "(case content t (bytes_of k) of None \<Rightarrow> Some (Some 0) | Some bs \<Rightarrow> parseIntStrict (string_of bs)) = Some (Some n)"
    and sum: "int64_add n amount = Some r" and st: "storable (bytes_of k) (bytes_of (show_int (sint r)))"
  obtains t' where "api_increment kv k amount t = Some (Some r, t')" "inv m t'"
    "content t' = (content t)(bytes_of k \<mapsto> bytes_of (show_int (sint r)))"
proof -
  obtain t1 where t1: "kv_lookup kv (bytes_of k) t = Some (content t (bytes_of k), t1)"
    "inv (m + 2) t1" "content t1 = content t"
    using lookup [OF t] by blast
  have "inv (Suc (Suc m)) t1" using t1(2) by simp
  then obtain t2 where t2: "kv_remove kv (bytes_of k) t1 = Some (content t1 (bytes_of k) \<noteq> None, t2)" "inv (Suc m) t2"
    "content t2 = (content t1)(bytes_of k := None)"
    using remove by blast
  then obtain t3 where "kv_insert kv (bytes_of k) (bytes_of (show_int (sint r))) t2 = Some t3" "inv m t3"
    "content t3 = (content t2)(bytes_of k \<mapsto> bytes_of (show_int (sint r)))"
    using insert [OF t2(2) _ st] by auto
  with t1 t2 num sum that show thesis by (simp add: api_increment_def)
qed

lemma increment_overflow:
  assumes "inv m t" "(case content t (bytes_of k) of None \<Rightarrow> Some (Some 0) | Some bs \<Rightarrow> parseIntStrict (string_of bs)) = Some (Some n)"
    and "int64_add n amount = None"
  shows "api_increment kv k amount t = None"
proof -
  obtain t1 where "kv_lookup kv (bytes_of k) t = Some (content t (bytes_of k), t1)" using lookup [OF assms(1)] by blast
  with assms(2,3) show ?thesis by (simp add: api_increment_def)
qed

lemma increment_unreadable:
  assumes "inv m t" "(case content t (bytes_of k) of None \<Rightarrow> Some (Some 0) | Some bs \<Rightarrow> parseIntStrict (string_of bs)) = None"
  shows "api_increment kv k amount t = None"
proof -
  obtain t1 where "kv_lookup kv (bytes_of k) t = Some (content t (bytes_of k), t1)" using lookup [OF assms(1)] by blast
  with assms(2) show ?thesis by (simp add: api_increment_def)
qed

lemma increment_not_number:
  assumes "inv m t" "content t (bytes_of k) = Some bs" "parseIntStrict (string_of bs) = Some None"
  obtains t' where "api_increment kv k amount t = Some (None, t')" "inv m t'" "content t' = content t"
  using lookup [OF assms(1), of "bytes_of k"] assms that by (auto simp: api_increment_def)

lemma mset_content:
  assumes "inv (n + 2 * length ps) t" "\<forall>(k, v) \<in> set ps. storable (bytes_of k) (bytes_of v)"
  shows "\<exists>t'. api_mset kv (mset_pairs ps) t = Some t' \<and> inv n t' \<and>
    content t' = fold (\<lambda>(k, v) m. m(bytes_of k \<mapsto> bytes_of v)) ps (content t)"
  using assms
proof (induction ps arbitrary: t)
  case (Cons p ps)
  obtain k v where p: "p = (k, v)" by force
  have "inv (n + 2 * length ps + 2) t" using Cons.prems(1) by (simp add: ac_simps)
  then obtain t1 where t1: "api_set kv k v t = Some t1" "inv (n + 2 * length ps) t1"
    "content t1 = (content t)(bytes_of k \<mapsto> bytes_of v)"
    by (rule set_content [of _ _ k v]) (use Cons.prems(2) p in auto)
  from Cons.IH [OF t1(2)] Cons.prems(2) t1 p show ?case by (auto simp: bulk_string_def fun_upd_def)
qed simp

lemma mget_content:
  assumes "inv n t"
  shows "\<exists>t'. api_mget kv (map (\<lambda>k. bulk_string (Some k)) ks) t =
    Some (map (\<lambda>k. map_option string_of (content t (bytes_of k))) ks, t') \<and> inv n t' \<and> content t' = content t"
  using assms
proof (induction ks arbitrary: t)
  case (Cons k ks)
  obtain t1 where t1: "api_get kv k t = Some (map_option string_of (content t (bytes_of k)), t1)" "inv n t1"
    "content t1 = content t"
    by (rule get_content [OF Cons.prems])
  from Cons.IH [OF t1(2)] t1 show ?case by (auto simp: bulk_string_def)
qed simp

end

subsection \<open>The keys a limited scan collects\<close>

lemma scan_zrange:
  assumes "n < unat limit"
  shows "snd (scan (zrange_callback limit) es (ks, n)) =
    (ks @ map fst (take (unat limit - n) es), n + min (unat limit - n) (length es))"
  using assms
proof (induction es arbitrary: ks n)
  case (Cons e es)
  obtain k v where e: "e = (k, v)" by force
  have r: "unat limit - n = Suc (unat limit - Suc n)" using Cons.prems by simp
  show ?case
  proof (cases "n + 1 < unat limit")
    case True
    with Cons.IH [of "n + 1" "ks @ [k]"] r e show ?thesis
      by (simp add: zrange_callback_def del: Suc_diff_Suc)
  next
    case False
    with Cons.prems have "unat limit - n = 1" by simp
    with False e show ?thesis by (simp add: zrange_callback_def)
  qed
qed simp

locale kv_store_scan = kv_store kv inv content storable
  for kv :: "('t, bytes list \<times> nat) kv_ops" and inv content storable
begin

lemma zrange_content:
  assumes t: "inv n t" and es: "sorted_wrt (<) (map fst es)" "content t = map_of es"
    and len: "length minKey \<le> 256" "\<forall>k v. storable k v \<longrightarrow> length k < 256"
  obtains t' where "api_zrange kv minKey limit t =
      Some (map string_of (take (unat limit) (filter (\<lambda>k. bytes_of minKey \<le> k) (map fst es))), t')"
    "inv n t'" "content t' = content t"
proof (cases "limit = 0")
  case True
  with that t show thesis by (simp add: api_zrange_def)
next
  case False
  then have pos: "0 < unat limit" by (simp add: unat_gt_0)
  let ?fs = "filter (\<lambda>(k', _). bytes_of minKey \<le> k') es"
  have "length (bytes_of minKey) \<le> keyOut_size" "\<forall>k v. storable k v \<longrightarrow> length k < keyOut_size"
    using len by (simp_all add: keyOut_size_def)
  from range [OF t es this] obtain t1 where t1: "kv_range kv keyOut_size (bytes_of minKey) (zrange_callback limit) t ([], 0) =
      Some (snd (scan (zrange_callback limit) ?fs ([], 0)), t1)" "inv n t1" "content t1 = content t"
    by blast
  have keys: "map fst (take m ?fs) = take m (filter (\<lambda>k. bytes_of minKey \<le> k) (map fst es))" for m
    by (simp add: take_map [symmetric] filter_map comp_def split_def)
  have "api_zrange kv minKey limit t =
      Some (map string_of (take (unat limit) (filter (\<lambda>k. bytes_of minKey \<le> k) (map fst es))), t1)"
    using False t1(1) unfolding scan_zrange [OF pos, of ?fs "[]", simplified] keys
    by (simp add: api_zrange_def keys)
  with t1 that show thesis by blast
qed

end

end
