(* ===== verification/BTree.thy ===== *)
theory BTree
  imports AnyNode KvApi
begin

text \<open>
  The tree of \<open>libbtree/src/btree2020.cpp\<close>: descent, point operations with splits and merges, range
  lookups in both directions, and the object's construction, memory estimate and clearing. Loops
  over pointers are partial functions whose \<open>None\<close> also stands for not returning; what
  \<open>AnyNode\<close> calls undefined is \<open>None\<close> here too.
\<close>

subsection \<open>Descent\<close>

text \<open>The leaf a key belongs to and its parent, null for the root.\<close>

partial_function (option) descend :: "(ptr \<Rightarrow> AnyNode option) \<Rightarrow> bytes \<Rightarrow> ptr \<Rightarrow> ptr \<Rightarrow> (ptr \<times> ptr) option" where
  "descend pages key node parent = do {
     n \<leftarrow> pages node;
     if isAnyInner n then do {
       child \<leftarrow> AnyNode_lookupInner key n;
       descend pages key child node
     } else Some (node, parent)
   }"

text \<open>As \<open>descend\<close>, with the index of the leaf in its parent.\<close>

partial_function (option) descendIndex ::
    "(ptr \<Rightarrow> AnyNode option) \<Rightarrow> bytes \<Rightarrow> ptr \<Rightarrow> ptr \<Rightarrow> nat \<Rightarrow> (ptr \<times> ptr \<times> nat) option" where
  "descendIndex pages key node parent pos = do {
     n \<leftarrow> pages node;
     if isAnyInner n then do {
       i \<leftarrow> lookupInnerIndex key n;
       child \<leftarrow> AnyNode_getChild i n;
       descendIndex pages key child node i
     } else Some (node, parent, pos)
   }"

text \<open>The loop of \<open>ensureSpace\<close>: the parent under which the descent meets \<open>toSplit\<close>.\<close>

partial_function (option) descendTo ::
    "(ptr \<Rightarrow> AnyNode option) \<Rightarrow> bytes \<Rightarrow> ptr \<Rightarrow> ptr \<Rightarrow> ptr \<Rightarrow> ptr option" where
  "descendTo pages key toSplit node parent = do {
     n \<leftarrow> pages node;
     if isAnyInner n \<and> node \<noteq> toSplit then do {
       child \<leftarrow> AnyNode_lookupInner key n;
       descendTo pages key toSplit child node
     } else Some parent
   }"

subsection \<open>Construction, clearing, memory estimate\<close>

definition makeRootLeaf :: "config \<Rightarrow> AnyNode" where
  "makeRootLeaf cfg = (if enableHash cfg \<and> \<not> enableHashAdapt cfg then Hash HashNode_makeRootLeaf
     else Basic BTreeNode_makeLeaf)"

text \<open>The heap before the first allocation, and the seed of \<open>RangeOpCounter::rng\<close>.\<close>

definition emptyHeap :: btree where
  "emptyHeap = \<lparr>t_root = nullptr, t_pages = Map.empty, t_brk = pageSizeLeaf, t_rng = 42\<rparr>"

definition BTree_new :: "config \<Rightarrow> btree \<Rightarrow> btree option" where
  "BTree_new cfg t = do {
     (root, t1) \<leftarrow> allocPage (makeRootLeaf cfg) t;
     Some (t1\<lparr>t_root := root\<rparr>)
   }"

text \<open>The number of pages ever allocated bounds the height.\<close>

definition heightBound :: "btree \<Rightarrow> nat" where
  "heightBound t = t_brk t div pageSizeLeaf"

definition sizeof_BTree :: nat where
  "sizeof_BTree = 8"

definition approximateMemoryUsage :: "btree \<Rightarrow> nat option" where
  "approximateMemoryUsage t = memoryUsage (heightBound t) (t_pages t) (t_root t) sizeof_BTree"

definition clearImpl :: "config \<Rightarrow> btree \<Rightarrow> btree option" where
  "clearImpl cfg t = do {
     t1 \<leftarrow> (if t_root t \<noteq> nullptr then destroy (heightBound t) (t_root t) t else Some t);
     BTree_new cfg t1
   }"

subsection \<open>Lookup\<close>

definition lookupImpl :: "config \<Rightarrow> hash_env \<Rightarrow> bytes \<Rightarrow> btree \<Rightarrow> (bytes option \<times> btree) option" where
  "lookupImpl cfg env key t = do {
     (p, _) \<leftarrow> descend (t_pages t) key (t_root t) nullptr;
     node \<leftarrow> t_pages t p;
     (case node of
        Basic b \<Rightarrow>
          (let (convert, roc, r) = point_op cfg (b_roc b) (t_rng t);
               b1 = b\<lparr>b_roc := roc\<rparr>
           in case (if convert then BTreeNode_tryConvertToHash env b1 else None) of
                Some h \<Rightarrow>
                  (let (res, h1, r1) = HashNode_lookup cfg env key h r
                   in Some (res, (writePage p (Hash h1) t)\<lparr>t_rng := r1\<rparr>))
              | None \<Rightarrow> Some (BTreeNode_lookup key b1, (writePage p (Basic b1) t)\<lparr>t_rng := r\<rparr>))
      | Dense d \<Rightarrow> Some (DenseNode_lookup key d, t)
      | Hash h \<Rightarrow>
          (let (res, h1, r1) = HashNode_lookup cfg env key h (t_rng t)
           in Some (res, (writePage p (Hash h1) t)\<lparr>t_rng := r1\<rparr>))
      | _ \<Rightarrow> None)
   }"

subsection \<open>Insert\<close>

text \<open>\<open>splitNode\<close> with \<open>ensureSpace\<close> in line: when the parent has no room for the separator, the
  parent is split in its place.\<close>

partial_function (option) splitNode ::
    "config \<Rightarrow> hash_env \<Rightarrow> bytes \<Rightarrow> ptr \<Rightarrow> ptr \<Rightarrow> btree \<Rightarrow> btree option" where
  "splitNode cfg env key node parent t = do {
     (parent, t) \<leftarrow> (if parent = nullptr then do {
         (root, t') \<leftarrow> makeRoot cfg node t;
         Some (root, t'\<lparr>t_root := root\<rparr>)
       } else Some (parent, t));
     (ok, t) \<leftarrow> splitNodeWithParent cfg env key node parent t;
     if ok then Some t
     else do {
       grandparent \<leftarrow> descendTo (t_pages t) key parent (t_root t) nullptr;
       splitNode cfg env key parent grandparent t
     }
   }"

text \<open>The insert into a leaf: its result and the generator's state.\<close>

definition leafInsert :: "config \<Rightarrow> hash_env \<Rightarrow> bytes \<Rightarrow> bytes \<Rightarrow> AnyNode \<Rightarrow> rng \<Rightarrow> AnyNode insert_result \<times> rng" where
  "leafInsert cfg env key payload node r =
     (case node of
        Basic b \<Rightarrow>
          (let (convert, roc, r1) = point_op cfg (b_roc b) r;
               b1 = b\<lparr>b_roc := roc\<rparr>
           in case (if convert then BTreeNode_tryConvertToHash env b1 else None) of
                Some h \<Rightarrow>
                  (let (res, r2) = HashNode_insert cfg env key payload h r1 in (map_insert_result Hash res, r2))
              | None \<Rightarrow> (BTreeNode_insert cfg key payload b1, r1))
      | Dense d \<Rightarrow> (DenseNode_insert cfg key payload d, r)
      | Hash h \<Rightarrow>
          (let (res, r2) = HashNode_insert cfg env key payload h r in (map_insert_result Hash res, r2))
      | _ \<Rightarrow> (Aborted, r))"

partial_function (option) insertImpl :: "config \<Rightarrow> hash_env \<Rightarrow> bytes \<Rightarrow> bytes \<Rightarrow> btree \<Rightarrow> btree option" where
  "insertImpl cfg env key payload t = do {
     (p, pp) \<leftarrow> descend (t_pages t) key (t_root t) nullptr;
     node \<leftarrow> t_pages t p;
     (case leafInsert cfg env key payload node (t_rng t) of
        (Inserted node1, r) \<Rightarrow> Some ((writePage p node1 t)\<lparr>t_rng := r\<rparr>)
      | (NoSpace node1, r) \<Rightarrow> do {
          t1 \<leftarrow> splitNode cfg env key p pp ((writePage p node1 t)\<lparr>t_rng := r\<rparr>);
          insertImpl cfg env key payload t1
        }
      | (Aborted, r) \<Rightarrow> None)
   }"

subsection \<open>Remove\<close>

text \<open>The leaf after the remove, the result, and whether the leaf is now small enough to be merged,
  with the leaf in the form in which it is merged: a small dense leaf turns basic. The assertion on the tag
  with which \<open>DenseNode::remove\<close> begins is part of \<open>leafRemove\<close>.\<close>

definition leafRemove :: "hash_env \<Rightarrow> bytes \<Rightarrow> AnyNode \<Rightarrow> (bool \<times> AnyNode) option" where
  "leafRemove env key node =
     (case node of
        Basic b \<Rightarrow> (let (res, b1) = BTreeNode_remove key b in Some (res, Basic b1))
      | Dense d \<Rightarrow>
          if d_tag d \<noteq> Tag_Dense then None
          else (let (res, d1) = DenseNode_remove key d in Some (res, Dense d1))
      | Hash h \<Rightarrow> (let (res, h1) = HashNode_remove env key h in Some (res, Hash h1))
      | _ \<Rightarrow> None)"

definition leafUnderfull :: "AnyNode \<Rightarrow> bool" where
  "leafUnderfull node =
     (case node of
        Basic b \<Rightarrow> BTreeNode_freeSpaceAfterCompaction b \<ge> underFullSizeLeaf
      | Dense d \<Rightarrow> DenseNode_is_underfull d
      | Hash h \<Rightarrow> HashNode_freeSpaceAfterCompaction h \<ge> underFullSizeLeaf
      | _ \<Rightarrow> False)"

definition leafForMerge :: "AnyNode \<Rightarrow> AnyNode" where
  "leafForMerge node = (case node of Dense d \<Rightarrow> Basic (DenseNode_convertToBasic d) | _ \<Rightarrow> node)"

text \<open>The merged page, if the right neighbour is of the same kind, small enough itself, and the two
  fit.\<close>

definition leafMerge :: "hash_env \<Rightarrow> AnyNode \<Rightarrow> AnyNode \<Rightarrow> AnyNode option" where
  "leafMerge env left right =
     (case (left, right) of
        (Basic l, Basic r) \<Rightarrow>
          if BTreeNode_isLeaf r \<and> BTreeNode_freeSpaceAfterCompaction r \<ge> underFullSizeLeaf
          then map_option Basic (BTreeNode_mergeLeaves l r) else None
      | (Hash l, Hash r) \<Rightarrow>
          if HashNode_freeSpaceAfterCompaction r \<ge> underFullSizeLeaf
          then map_option Hash (HashNode_mergePages env l r) else None
      | _ \<Rightarrow> None)"

definition removeImpl :: "config \<Rightarrow> hash_env \<Rightarrow> bytes \<Rightarrow> btree \<Rightarrow> (bool \<times> btree) option" where
  "removeImpl cfg env key t = do {
     (p, pp, pos) \<leftarrow> descendIndex (t_pages t) key (t_root t) nullptr 0;
     node \<leftarrow> t_pages t p;
     (res, node1) \<leftarrow> leafRemove env key node;
     let t1 = writePage p node1 t;
     if \<not> res then Some (False, t1)
     else if pp = nullptr then Some (True, t1)
     else do {
       parent \<leftarrow> t_pages t1 pp;
       parentCount \<leftarrow> innerCount parent;
       if parentCount \<ge> 2 \<and> pos + 1 < parentCount \<and> leafUnderfull node1 then do {
         let node2 = leafForMerge node1;
         let t2 = writePage p node2 t1;
         rp \<leftarrow> AnyNode_getChild (pos + 1) parent;
         right \<leftarrow> t_pages t2 rp;
         (case leafMerge env node2 right of
            None \<Rightarrow> Some (True, t2)
          | Some merged \<Rightarrow> do {
              t3 \<leftarrow> commitMerge pos pp rp merged t2;
              Some (True, freePage p t3)
            })
       } else Some (True, t1)
     }
   }"

subsection \<open>Range lookups\<close>

text \<open>The scan of one leaf: whether to go on, the key buffer, the callback's state, the leaf and the
  generator's state afterwards.\<close>

definition leafRange :: "config \<Rightarrow> hash_env \<Rightarrow> bytes option \<Rightarrow> 's callback \<Rightarrow> AnyNode \<Rightarrow> rng \<Rightarrow> memory \<Rightarrow> 's \<Rightarrow>
    ((bool \<times> memory \<times> 's) \<times> AnyNode \<times> rng) option" where
  "leafRange cfg env key cb node r keyOut s =
     (case node of
        Basic b \<Rightarrow>
          (let (res, b1, r1) = BTreeNode_range_lookup cfg key cb b r keyOut s in Some (res, Basic b1, r1))
      | Dense d \<Rightarrow>
          (if d_tag d = Tag_Dense
           then map_option (\<lambda>res. (res, node, r)) (DenseNode_range_lookup1 key cb d keyOut s)
           else Some (DenseNode_range_lookup2 key cb d keyOut s, node, r))
      | Hash h \<Rightarrow>
          (let (res, n1, r1) = HashNode_range_lookup cfg env key cb h r keyOut s
           in Some (res, (case n1 of Inl b \<Rightarrow> Basic b | Inr h1 \<Rightarrow> Hash h1), r1))
      | _ \<Rightarrow> None)"

fun leafPrefixLength :: "AnyNode \<Rightarrow> nat" where
  "leafPrefixLength (Basic b) = b_prefixLength b"
| "leafPrefixLength (Dense d) = d_prefixLength d"
| "leafPrefixLength (Hash h) = h_prefixLength h"
| "leafPrefixLength (Head4 h) = hn_prefixLength h"
| "leafPrefixLength (Head8 h) = hn_prefixLength h"

fun leafUpperFence :: "AnyNode \<Rightarrow> bytes" where
  "leafUpperFence (Basic b) = BTreeNode_getUpperFence b"
| "leafUpperFence (Dense d) = DenseNode_getUpperFence d"
| "leafUpperFence (Hash h) = HashNode_getUpperFence h"
| "leafUpperFence (Head4 h) = HeadNode_getUpperFence h"
| "leafUpperFence (Head8 h) = HeadNode_getUpperFence h"

fun leafLowerFence :: "AnyNode \<Rightarrow> bytes" where
  "leafLowerFence (Basic b) = BTreeNode_getLowerFence b"
| "leafLowerFence (Dense d) = DenseNode_getLowerFence d"
| "leafLowerFence (Hash h) = HashNode_getLowerFence h"
| "leafLowerFence (Head4 h) = HeadNode_getLowerFence h"
| "leafLowerFence (Head8 h) = HeadNode_getLowerFence h"

text \<open>The next search key in the buffer: the upper fence, whose prefix the buffer already holds, and
  a zero byte.\<close>

definition nextSearchKey :: "AnyNode \<Rightarrow> memory \<Rightarrow> memory" where
  "nextSearchKey node keyOut =
     (let p = leafPrefixLength node; fence = leafUpperFence node
      in store (store keyOut p (drop p fence)) (length fence) [0])"

text \<open>How far the scan has written into the key buffer of its caller: the start key, every key it reports, the
  numeric prefix with which the scan of a dense leaf begins, and each upper fence with its zero byte. The
  number goes with the state of the callback.\<close>

definition watch :: "'s callback \<Rightarrow> ('s \<times> nat) callback" where
  "watch cb key payload sm =
     (case sm of (s, written) \<Rightarrow>
        (let (continue, s1) = cb key payload s in (continue, (s1, max written (length key)))))"

definition leafEnters :: "bytes option \<Rightarrow> AnyNode \<Rightarrow> nat" where
  "leafEnters key node =
     (case node of
        Dense d \<Rightarrow>
          if d_tag d = Tag_Dense \<and> (case key of None \<Rightarrow> False | Some k \<Rightarrow> \<not> DenseNode_isNumericRangeAnyLen d k)
          then 0 else computeNumericPrefixLength (d_fullKeyLen d)
      | _ \<Rightarrow> 0)"

partial_function (option) rangeLoop ::
    "config \<Rightarrow> hash_env \<Rightarrow> bytes option \<Rightarrow> nat \<Rightarrow> 's callback \<Rightarrow> memory \<Rightarrow> 's \<times> nat \<Rightarrow> btree \<Rightarrow>
      (('s \<times> nat) \<times> btree) option" where
  "rangeLoop cfg env leafKey keyLen cb keyOut sm t = do {
     (p, _) \<leftarrow> descend (t_pages t) (load keyOut 0 keyLen) (t_root t) nullptr;
     node \<leftarrow> t_pages t p;
     ((continue, keyOut1, (s1, written)), node1, r) \<leftarrow>
       leafRange cfg env leafKey (watch cb) node (t_rng t) keyOut (fst sm, max (snd sm) (leafEnters leafKey node));
     let t1 = (writePage p node1 t)\<lparr>t_rng := r\<rparr>;
     if \<not> continue then Some ((s1, written), t1)
     else
       (let fence = leafUpperFence node1;
            sm1 = (s1, max written (length fence + 1))
        in if length fence = 0 then Some (sm1, t1)
           else rangeLoop cfg env None (length fence + 1) cb (nextSearchKey node1 keyOut1) sm1 t1)
   }"

definition range_lookupBuffer ::
    "config \<Rightarrow> hash_env \<Rightarrow> bytes \<Rightarrow> 's callback \<Rightarrow> btree \<Rightarrow> 's \<Rightarrow> (('s \<times> nat) \<times> btree) option" where
  "range_lookupBuffer cfg env startKey cb t s =
     rangeLoop cfg env (Some startKey) (length startKey) cb (store (\<lambda>_. 0) 0 startKey) (s, length startKey) t"

text \<open>The scan with a buffer that is long enough, and with one of \<open>cap\<close> bytes: writing past its end is
  undefined.\<close>

definition range_lookupImpl :: "config \<Rightarrow> hash_env \<Rightarrow> bytes \<Rightarrow> 's callback \<Rightarrow> btree \<Rightarrow> 's \<Rightarrow> ('s \<times> btree) option" where
  "range_lookupImpl cfg env startKey cb t s = do {
     ((s1, written), t1) \<leftarrow> range_lookupBuffer cfg env startKey cb t s;
     Some (s1, t1)
   }"

definition range_lookupInto ::
    "config \<Rightarrow> hash_env \<Rightarrow> nat \<Rightarrow> bytes \<Rightarrow> 's callback \<Rightarrow> btree \<Rightarrow> 's \<Rightarrow> ('s \<times> btree) option" where
  "range_lookupInto cfg env cap startKey cb t s = do {
     ((s1, written), t1) \<leftarrow> range_lookupBuffer cfg env startKey cb t s;
     if cap < written then None else Some (s1, t1)
   }"

definition leafRangeDesc :: "hash_env \<Rightarrow> bytes \<Rightarrow> 's callback \<Rightarrow> AnyNode \<Rightarrow> memory \<Rightarrow> 's \<Rightarrow>
    ((bool \<times> memory \<times> 's) \<times> AnyNode) option" where
  "leafRangeDesc env key cb node keyOut s =
     (case node of
        Basic b \<Rightarrow> Some (BTreeNode_range_lookup_desc key cb b keyOut s, node)
      | Dense d \<Rightarrow> map_option (\<lambda>res. (res, node)) (DenseNode_range_lookup_desc key cb d keyOut s)
      | Hash h \<Rightarrow> (let (res, h1) = HashNode_range_lookup_desc env key cb h keyOut s in Some (res, Hash h1))
      | _ \<Rightarrow> None)"

partial_function (option) rangeDescLoop ::
    "hash_env \<Rightarrow> bytes \<Rightarrow> 's callback \<Rightarrow> memory \<Rightarrow> 's \<Rightarrow> btree \<Rightarrow> ('s \<times> btree) option" where
  "rangeDescLoop env key cb keyOut s t = do {
     (p, _) \<leftarrow> descend (t_pages t) key (t_root t) nullptr;
     node \<leftarrow> t_pages t p;
     ((continue, keyOut1, s1), node1) \<leftarrow> leafRangeDesc env key cb node keyOut s;
     let t1 = writePage p node1 t;
     if \<not> continue then Some (s1, t1)
     else if length (leafLowerFence node1) = 0 then Some (s1, t1)
     else rangeDescLoop env (leafLowerFence node1) cb keyOut1 s1 t1
   }"

definition range_lookup_descImpl :: "hash_env \<Rightarrow> bytes \<Rightarrow> 's callback \<Rightarrow> btree \<Rightarrow> 's \<Rightarrow> ('s \<times> btree) option" where
  "range_lookup_descImpl env key cb t s = rangeDescLoop env key cb (\<lambda>_. 0) s t"

subsection \<open>The object behind the interface of the server\<close>

definition btree_kv :: "config \<Rightarrow> hash_env \<Rightarrow> (btree, 's) kv_ops" where
  "btree_kv cfg env = \<lparr>
     kv_lookup = lookupImpl cfg env,
     kv_insert = insertImpl cfg env,
     kv_remove = removeImpl cfg env,
     kv_range = range_lookupInto cfg env,
     kv_range_desc = range_lookup_descImpl env,
     kv_clear = clearImpl cfg,
     kv_memory = approximateMemoryUsage\<rparr>"

end
