(* ===== verification/InnerNode.thy ===== *)
theory InnerNode
  imports HeadNodeConvert BasicNodeSpec BTree
begin

text \<open>
  What an inner page owes the tree, whatever its layout: the child of a key is the one before the first
  separator that is not smaller, and a child can be inserted with its separator or removed. The
  locale \<open>inner_page\<close> states it; the basic page and the two head nodes are its interpretations.
\<close>

subsection \<open>The contract\<close>

lemma split_is_lower_bound:
  assumes "sorted_wrt (<) (take j xs @ x # drop j xs)"
  shows "is_lower_bound xs x (min j (length xs))"
proof -
  have lr: "\<forall>y \<in> set (take j xs). y < x" "\<forall>y \<in> set (drop j xs). x < y"
    using assms by (auto simp: sorted_wrt_append)
  have "xs ! a < x" if "a < min j (length xs)" for a
    using bspec [OF lr(1) nth_mem, of a] that by simp
  moreover have "x \<le> xs ! a" if "min j (length xs) \<le> a" "a < length xs" for a
    using bspec [OF lr(2) nth_mem, of "a - j"] that by (cases "j \<le> length xs") (simp_all add: less_imp_le)
  ultimately show ?thesis unfolding is_lower_bound_def by auto
qed

locale inner_page =
  fixes inv :: "'n \<Rightarrow> bool" and lower upper :: "'n \<Rightarrow> bytes" and seps :: "'n \<Rightarrow> bytes list" and kids :: "'n \<Rightarrow> ptr list"
    and index :: "'n \<Rightarrow> bytes \<Rightarrow> nat" and child :: "'n \<Rightarrow> nat \<Rightarrow> ptr" and remove :: "nat \<Rightarrow> 'n \<Rightarrow> 'n"
    and room :: "'n \<Rightarrow> nat \<Rightarrow> bool" and insert :: "bytes \<Rightarrow> ptr \<Rightarrow> 'n \<Rightarrow> 'n option"
  assumes seps_sorted: "inv n \<Longrightarrow> sorted_wrt (<) (seps n)"
    and seps_inside: "inv n \<Longrightarrow> k \<in> set (seps n) \<Longrightarrow> inFences (lower n) (upper n) k"
    and length_kids: "inv n \<Longrightarrow> length (kids n) = Suc (length (seps n))"
    and index: "inv n \<Longrightarrow> inFences (lower n) (upper n) key \<Longrightarrow> is_lower_bound (seps n) key (index n key)"
    and child: "inv n \<Longrightarrow> i \<le> length (seps n) \<Longrightarrow> child n i = kids n ! i"
    and remove: "inv n \<Longrightarrow> i < length (seps n) \<Longrightarrow> inv (remove i n) \<and> lower (remove i n) = lower n \<and>
      upper (remove i n) = upper n \<and> seps (remove i n) = take i (seps n) @ drop (Suc i) (seps n) \<and>
      kids (remove i n) = take i (kids n) @ drop (Suc i) (kids n)"
    and insert: "inv n \<Longrightarrow> inFences (lower n) (upper n) sep \<Longrightarrow> sep \<notin> set (seps n) \<Longrightarrow> sep \<noteq> [] \<Longrightarrow>
      room n (length sep) \<Longrightarrow> p < 2 ^ 64 \<Longrightarrow> is_lower_bound (seps n) sep i \<Longrightarrow>
      \<exists>n'. insert sep p n = Some n' \<and> inv n' \<and> lower n' = lower n \<and> upper n' = upper n \<and>
        seps n' = take i (seps n) @ sep # drop i (seps n) \<and> kids n' = take i (kids n) @ p # drop i (kids n)"
begin

text \<open>A split of a child: the keys of its range up to the separator go to the new page on the left,
  every other key goes where it went before.\<close>

lemma insert_routes:
  assumes inv: "inv n" and sep: "inFences (lower n) (upper n) sep" "sep \<notin> set (seps n)" "sep \<noteq> []"
    and room: "room n (length sep)" "p < 2 ^ 64" and key: "inFences (lower n) (upper n) key"
  shows "\<exists>n'. insert sep p n = Some n' \<and> inv n' \<and>
    child n' (index n' key) = (if key \<le> sep \<and> index n key = index n sep then p else child n (index n key))"
proof -
  define i where "i = index n sep"
  have lb: "is_lower_bound (seps n) sep i" using index [OF inv sep(1)] by (simp add: i_def)
  obtain n' where n': "insert sep p n = Some n'" "inv n'" "lower n' = lower n" "upper n' = upper n"
    "seps n' = take i (seps n) @ sep # drop i (seps n)" "kids n' = take i (kids n) @ p # drop i (kids n)"
    using insert [OF inv sep room lb] by blast
  define j where "j = (if key \<le> sep then index n key else Suc (index n key))"
  have kb: "is_lower_bound (seps n) key (index n key)" by (rule index [OF inv key])
  have il: "i \<le> length (seps n)" "index n key \<le> length (seps n)" using lb kb by (simp_all add: is_lower_bound_def)
  have below: "index n key \<le> i" if "key \<le> sep"
  proof (rule ccontr)
    assume "\<not> index n key \<le> i"
    then have "seps n ! i < key" "sep \<le> seps n ! i" using lb kb il by (auto simp: is_lower_bound_def)
    with that show False by simp
  qed
  have above: "i \<le> index n key" if "\<not> key \<le> sep"
  proof (rule ccontr)
    assume "\<not> i \<le> index n key"
    then have "key \<le> seps n ! index n key" "seps n ! index n key < sep" using lb kb il by (auto simp: is_lower_bound_def)
    with that show False by simp
  qed
  have nth: "seps n' ! m = (if m < i then seps n ! m else if m = i then sep else seps n ! (m - 1))"
    if "m \<le> length (seps n)" for m
    using that il by (auto simp: n'(5) nth_append nth_Cons' min_def)
  have len: "length (seps n') = Suc (length (seps n))" using il by (simp add: n'(5))
  have "is_lower_bound (seps n') key j"
    unfolding is_lower_bound_def
  proof (intro conjI allI impI)
    show "j \<le> length (seps n')" using il by (simp add: j_def len)
    show "seps n' ! m < key" if "m < j" for m
    proof -
      have m: "m \<le> length (seps n)" using that il by (auto simp: j_def split: if_splits)
      show ?thesis
      proof (cases "key \<le> sep")
        case True
        then show ?thesis using that below kb nth [OF m] by (simp add: j_def is_lower_bound_def)
      next
        case False
        then have ik: "i \<le> index n key" "m \<le> index n key" using that above by (simp_all add: j_def)
        show ?thesis
        proof (cases "m < i")
          case True
          then show ?thesis using ik kb nth [OF m] by (simp add: is_lower_bound_def)
        next
          case mi: False
          then show ?thesis using False ik kb nth [OF m] by (auto simp: is_lower_bound_def)
        qed
      qed
    qed
    show "key \<le> seps n' ! m" if "j \<le> m \<and> m < length (seps n')" for m
    proof -
      have m: "m \<le> length (seps n)" using that by (simp add: len)
      show ?thesis
      proof (cases "key \<le> sep")
        case True
        show ?thesis
        proof (cases "m \<le> i")
          case False
          then have "i \<le> m - 1" "m - 1 < length (seps n)" using m by simp_all
          then have "sep \<le> seps n ! (m - 1)" using lb unfolding is_lower_bound_def by blast
          then show ?thesis using True False nth [OF m] by simp
        qed (use True that below kb nth [OF m] il in \<open>auto simp: j_def is_lower_bound_def\<close>)
      next
        case False
        then have "i \<le> index n key" "Suc (index n key) \<le> m" using that above by (simp_all add: j_def)
        then have "i < m" "index n key \<le> m - 1" "m - 1 < length (seps n)" using that by (auto simp: len)
        then show ?thesis using kb nth [OF m] by (auto simp: is_lower_bound_def)
      qed
    qed
  qed
  moreover have "is_lower_bound (seps n') key (index n' key)" using index [OF n'(2)] key n'(3,4) by simp
  ultimately have j: "index n' key = j" by (rule is_lower_bound_unique [rotated])
  have "kids n' ! j = (if key \<le> sep \<and> index n key = i then p else kids n ! index n key)"
    using below above il length_kids [OF inv] by (auto simp: n'(6) j_def nth_append nth_Cons' min_def)
  moreover have "child n' j = kids n' ! j" "child n (index n key) = kids n ! index n key"
    using child [OF n'(2), of j] child [OF inv il(2)] il(2) by (simp_all add: j_def len)
  ultimately show ?thesis using n'(1,2) by (intro exI [of _ n']) (simp add: j i_def)
qed

end

subsection \<open>Head nodes\<close>

sublocale head_type \<subseteq> page: inner_page "headInv :: 'w word HeadNode \<Rightarrow> bool" HeadNode_getLowerFence
  HeadNode_getUpperFence HeadNode_seps HeadNode_kids HeadNode_lookupInnerIndex hn_children HeadNode_removeSlot
  "\<lambda>n len. len < hn_prefixLength n + sizeofT TYPE('w) \<and> hn_count n < hn_keyCapacity n" HeadNode_insertChild
proof
  fix n :: "'w word HeadNode" and k key sep :: bytes and i p :: nat
  assume inv: "headInv n"
  show "sorted_wrt (<) (HeadNode_seps n)" by (rule headInv_seps(1) [OF inv])
  show "inFences (HeadNode_getLowerFence n) (HeadNode_getUpperFence n) k" if "k \<in> set (HeadNode_seps n)"
    using headInv_seps(2) [OF inv] that by blast
  show "length (HeadNode_kids n) = Suc (length (HeadNode_seps n))" by simp
  show "is_lower_bound (HeadNode_seps n) key (HeadNode_lookupInnerIndex n key)"
    if "inFences (HeadNode_getLowerFence n) (HeadNode_getUpperFence n) key"
    using HeadNode_lookupInnerIndex_correct [OF inv] that by (simp add: HeadNode_covers_def)
  show "hn_children n i = HeadNode_kids n ! i" if "i \<le> length (HeadNode_seps n)" using that by simp
  show "headInv (HeadNode_removeSlot i n) \<and>
      HeadNode_getLowerFence (HeadNode_removeSlot i n) = HeadNode_getLowerFence n \<and>
      HeadNode_getUpperFence (HeadNode_removeSlot i n) = HeadNode_getUpperFence n \<and>
      HeadNode_seps (HeadNode_removeSlot i n) = take i (HeadNode_seps n) @ drop (Suc i) (HeadNode_seps n) \<and>
      HeadNode_kids (HeadNode_removeSlot i n) = take i (HeadNode_kids n) @ drop (Suc i) (HeadNode_kids n)"
    if "i < length (HeadNode_seps n)"
    using HeadNode_removeSlot_correct [OF inv, of i] sameFrame_facts(1,2) [of n "HeadNode_removeSlot i n"] that by simp
  show "\<exists>n'. HeadNode_insertChild sep p n = Some n' \<and> headInv n' \<and>
      HeadNode_getLowerFence n' = HeadNode_getLowerFence n \<and> HeadNode_getUpperFence n' = HeadNode_getUpperFence n \<and>
      HeadNode_seps n' = take i (HeadNode_seps n) @ sep # drop i (HeadNode_seps n) \<and>
      HeadNode_kids n' = take i (HeadNode_kids n) @ p # drop i (HeadNode_kids n)"
    if new: "inFences (HeadNode_getLowerFence n) (HeadNode_getUpperFence n) sep" "sep \<notin> set (HeadNode_seps n)"
      "length sep < hn_prefixLength n + sizeofT TYPE('w) \<and> hn_count n < hn_keyCapacity n"
      "is_lower_bound (HeadNode_seps n) sep i"
  proof -
    obtain n' where "HeadNode_insertChild sep p n = Some n'" "headInv n'" "sameFrame n n'"
      "HeadNode_seps n' = take i (HeadNode_seps n) @ sep # drop i (HeadNode_seps n)"
      "HeadNode_kids n' = take i (HeadNode_kids n) @ p # drop i (HeadNode_kids n)"
      by (rule HeadNode_insertChild_correct [OF inv, of sep i p]) (use new in \<open>simp_all add: HeadNode_covers_def\<close>)
    then show ?thesis using sameFrame_facts(1,2) [of n n'] by (intro exI [of _ n']) simp
  qed
qed

subsection \<open>Basic pages\<close>

lemma basicInner_facts:
  assumes "basicInner n"
  shows "BTreeNode_inv n" "keysInFences n" "BTreeNode_isInner n" "length (BTreeNode_seps n) = b_count n"
    "length (BTreeNode_kids n) = Suc (b_count n)" "\<forall>(k, v) \<in> set (fullEntries n). length v = sizeof_ptr"
  using assms by (simp_all add: basicInner_def BTreeNode_seps_def BTreeNode_kids_def)

definition BTreeNode_childAt :: "BTreeNode \<Rightarrow> nat \<Rightarrow> ptr" where
  "BTreeNode_childAt n i = (if i = b_count n then b_upper n else BTreeNode_getChild n i)"

lemma childAt_kids:
  assumes n: "basicInner n" and "i \<le> b_count n"
  shows "BTreeNode_childAt n i = BTreeNode_kids n ! i"
proof (cases "i = b_count n")
  case False
  with assms(2) have i: "i < b_count n" by simp
  then have "fullEntries n ! i \<in> set (fullEntries n)" by simp
  then have "s_payloadLen (b_slot n i) = sizeof_ptr" using basicInner_facts(6) [OF n] i by (auto simp: nth_fullEntries)
  then have "BTreeNode_getChild n i = le_decode (BTreeNode_getPayload n i)"
    by (simp add: BTreeNode_getChild_def BTreeNode_getPayload_def)
  then show ?thesis using i False by (simp add: BTreeNode_childAt_def BTreeNode_kids_def nth_append nth_fullEntries)
qed (simp add: BTreeNode_childAt_def BTreeNode_kids_def nth_append)

lemma removeSlot_entries:
  assumes inv: "BTreeNode_inv n" and i: "i < b_count n"
  shows "fullEntries (BTreeNode_removeSlot i n) = take i (fullEntries n) @ drop (Suc i) (fullEntries n)"
proof -
  note r = removeSlot_correct [OF inv i]
  have "BTreeNode_getPrefix (BTreeNode_removeSlot i n) = BTreeNode_getPrefix n"
    by (rule getPrefix_same [OF inv_facts(1) [OF inv] inv_facts(1) [OF r(1)] r(3) r(7)])
  then show ?thesis by (simp add: fullEntries_def r(2) take_map drop_map)
qed

lemma basicInner_removeSlot:
  assumes n: "basicInner n" and i: "i < b_count n"
  defines "n' \<equiv> BTreeNode_removeSlot i n"
  shows "basicInner n'" "BTreeNode_getLowerFence n' = BTreeNode_getLowerFence n"
    "BTreeNode_getUpperFence n' = BTreeNode_getUpperFence n"
    "BTreeNode_seps n' = take i (BTreeNode_seps n) @ drop (Suc i) (BTreeNode_seps n)"
    "BTreeNode_kids n' = take i (BTreeNode_kids n) @ drop (Suc i) (BTreeNode_kids n)"
proof -
  note b = basicInner_facts [OF n] and r = removeSlot_correct [OF basicInner_facts(1) [OF n] i, folded n'_def]
  have full: "fullEntries n' = take i (fullEntries n) @ drop (Suc i) (fullEntries n)"
    unfolding n'_def by (rule removeSlot_entries [OF b(1) i])
  then have sub: "set (fullEntries n') \<subseteq> set (fullEntries n)" by (auto dest: in_set_takeD in_set_dropD)
  show "BTreeNode_seps n' = take i (BTreeNode_seps n) @ drop (Suc i) (BTreeNode_seps n)"
    by (simp add: BTreeNode_seps_def full take_map drop_map)
  show "BTreeNode_kids n' = take i (BTreeNode_kids n) @ drop (Suc i) (BTreeNode_kids n)"
    using i by (simp add: BTreeNode_kids_def full take_map drop_map r(6))
  show "BTreeNode_getLowerFence n' = BTreeNode_getLowerFence n" "BTreeNode_getUpperFence n' = BTreeNode_getUpperFence n"
    by (simp_all add: r(3,4))
  have "keysInFences n'" using b(2) sub r(3,4) by (auto simp: keysInFences_def)
  then show "basicInner n'" using n r(1,5) sub by (auto simp: basicInner_def BTreeNode_isInner_def)
qed

definition basicRoom :: "BTreeNode \<Rightarrow> nat \<Rightarrow> bool" where
  "basicRoom n len \<longleftrightarrow> len < 65536 \<and> BTreeNode_spaceNeeded n len sizeof_ptr \<le> BTreeNode_freeSpace n"

text \<open>With that room the insert does not ask for another layout.\<close>

lemma basicInner_insertChild:
  assumes n: "basicInner n" and cov: "BTreeNode_covers n sep" and new: "sep \<notin> set (BTreeNode_seps n)"
    and room: "basicRoom n (length sep)" and l: "l < 2 ^ 64" and lb: "is_lower_bound (BTreeNode_seps n) sep i"
  obtains n2 where "BTreeNode_insertChild cfg sep l n = Inserted (Basic n2)" "basicInner n2"
    "BTreeNode_getLowerFence n2 = BTreeNode_getLowerFence n" "BTreeNode_getUpperFence n2 = BTreeNode_getUpperFence n"
    "BTreeNode_seps n2 = take i (BTreeNode_seps n) @ sep # drop i (BTreeNode_seps n)"
    "BTreeNode_kids n2 = take i (BTreeNode_kids n) @ l # drop i (BTreeNode_kids n)"
proof -
  let ?v = "le_encode sizeof_ptr l"
  note b = basicInner_facts [OF n]
  have len: "length sep < 65536" "length ?v < 65536" using room by (simp_all add: basicRoom_def sizeof_ptr_def)
  have sp: "BTreeNode_spaceNeeded n (length sep) sizeof_ptr \<le> BTreeNode_freeSpace n" using room by (simp add: basicRoom_def)
  have room': "10 + length (drop (b_prefixLength n) sep) + length ?v \<le> BTreeNode_freeSpace n"
    by (rule insert_room [OF b(1) cov _ len]) (use sp in simp)
  have none: "BTreeNode_content n sep = None" using new by (simp add: content_None BTreeNode_seps_def)
  obtain j n2 where ins: "BTreeNode_insertWithSpace sep ?v n = Some n2" "BTreeNode_inv n2" "keysInFences n2"
    "fullEntries n2 = take j (fullEntries n) @ (sep, ?v) # drop j (fullEntries n)"
    "BTreeNode_getLowerFence n2 = BTreeNode_getLowerFence n" "BTreeNode_getUpperFence n2 = BTreeNode_getUpperFence n"
    "b_tag n2 = b_tag n" "b_upper n2 = b_upper n"
    by (rule insertWithSpace_content [OF b(1,2) cov room' none])
  have s2: "BTreeNode_seps n2 = take j (BTreeNode_seps n) @ sep # drop j (BTreeNode_seps n)"
    by (simp add: BTreeNode_seps_def ins(4) take_map drop_map)
  have "sorted_wrt (<) (take j (BTreeNode_seps n) @ sep # drop j (BTreeNode_seps n))"
    using inv_facts(2) [OF ins(2)] s2 by (simp add: BTreeNode_seps_def)
  then have i: "i = min j (b_count n)" using is_lower_bound_unique [OF lb split_is_lower_bound] b(4) by simp
  have full: "fullEntries n2 = take i (fullEntries n) @ (sep, ?v) # drop i (fullEntries n)"
    using ins(4) unfolding i by (cases "j \<le> b_count n") simp_all
  have "BTreeNode_insertChild cfg sep l n = Inserted (Basic n2)"
    using ins(1) sp by (simp add: BTreeNode_insertChild_def BTreeNode_insert_def BTreeNode_tryInsert_def
        BTreeNode_requestSpaceFor_def numeral_3_eq_3)
  moreover have "BTreeNode_seps n2 = take i (BTreeNode_seps n) @ sep # drop i (BTreeNode_seps n)"
    by (simp add: BTreeNode_seps_def full take_map drop_map)
  moreover have "BTreeNode_kids n2 = take i (BTreeNode_kids n) @ l # drop i (BTreeNode_kids n)"
    using l by (simp add: BTreeNode_kids_def full ins(8) take_map drop_map le_decode_encode sizeof_ptr_def i)
  moreover have "\<forall>(k, v) \<in> set (fullEntries n2). length v = sizeof_ptr"
    using b(6) unfolding full by (auto dest: in_set_takeD in_set_dropD)
  then have "basicInner n2" using ins(2,3,7) b(3) by (simp add: basicInner_def BTreeNode_isInner_def)
  ultimately show thesis using that ins(5,6) by blast
qed

definition BTreeNode_childInserted :: "config \<Rightarrow> bytes \<Rightarrow> ptr \<Rightarrow> BTreeNode \<Rightarrow> BTreeNode option" where
  "BTreeNode_childInserted cfg sep child n =
     (case BTreeNode_insertChild cfg sep child n of Inserted (Basic n') \<Rightarrow> Some n' | _ \<Rightarrow> None)"

interpretation basic_page: inner_page basicInner BTreeNode_getLowerFence BTreeNode_getUpperFence BTreeNode_seps
  BTreeNode_kids "\<lambda>n key. fst (BTreeNode_lowerBound n key)" BTreeNode_childAt BTreeNode_removeSlot basicRoom
  "BTreeNode_childInserted cfg" for cfg
proof
  fix n :: BTreeNode and k key sep :: bytes and i p :: nat
  assume n: "basicInner n"
  note b = basicInner_facts [OF n]
  show "sorted_wrt (<) (BTreeNode_seps n)" using inv_facts(2) [OF b(1)] by (simp add: BTreeNode_seps_def)
  show "inFences (BTreeNode_getLowerFence n) (BTreeNode_getUpperFence n) k" if "k \<in> set (BTreeNode_seps n)"
    using b(2) that by (auto simp: keysInFences_def BTreeNode_seps_def)
  show "length (BTreeNode_kids n) = Suc (length (BTreeNode_seps n))" using b(4,5) by simp
  show "is_lower_bound (BTreeNode_seps n) key (fst (BTreeNode_lowerBound n key))"
    if "inFences (BTreeNode_getLowerFence n) (BTreeNode_getUpperFence n) key"
    using lowerBound_full(1) [OF b(1), of key] that
    by (cases "BTreeNode_lowerBound n key") (simp add: BTreeNode_covers_def BTreeNode_seps_def)
  show "BTreeNode_childAt n i = BTreeNode_kids n ! i" if "i \<le> length (BTreeNode_seps n)"
    using childAt_kids [OF n] that b(4) by simp
  show "basicInner (BTreeNode_removeSlot i n) \<and>
      BTreeNode_getLowerFence (BTreeNode_removeSlot i n) = BTreeNode_getLowerFence n \<and>
      BTreeNode_getUpperFence (BTreeNode_removeSlot i n) = BTreeNode_getUpperFence n \<and>
      BTreeNode_seps (BTreeNode_removeSlot i n) = take i (BTreeNode_seps n) @ drop (Suc i) (BTreeNode_seps n) \<and>
      BTreeNode_kids (BTreeNode_removeSlot i n) = take i (BTreeNode_kids n) @ drop (Suc i) (BTreeNode_kids n)"
    if "i < length (BTreeNode_seps n)"
    using basicInner_removeSlot [OF n] that b(4) by simp
  show "\<exists>n'. BTreeNode_childInserted cfg sep p n = Some n' \<and> basicInner n' \<and>
      BTreeNode_getLowerFence n' = BTreeNode_getLowerFence n \<and> BTreeNode_getUpperFence n' = BTreeNode_getUpperFence n \<and>
      BTreeNode_seps n' = take i (BTreeNode_seps n) @ sep # drop i (BTreeNode_seps n) \<and>
      BTreeNode_kids n' = take i (BTreeNode_kids n) @ p # drop i (BTreeNode_kids n)"
    if cov: "inFences (BTreeNode_getLowerFence n) (BTreeNode_getUpperFence n) sep" and new: "sep \<notin> set (BTreeNode_seps n)"
      and room: "basicRoom n (length sep)" and p: "p < 2 ^ 64" and lb: "is_lower_bound (BTreeNode_seps n) sep i"
    by (rule basicInner_insertChild [OF n _ new room p lb, of cfg])
      (use cov in \<open>simp_all add: BTreeNode_covers_def BTreeNode_childInserted_def\<close>)
qed

end
