(* ===== verification/InnerPages.thy ===== *)
theory InnerPages
  imports InnerNode
begin

text \<open>
  The inner pages of the tree: the union \<open>AnyNode\<close> keeps the contract \<open>inner_page\<close> when its pages do. A
  parent is asked for room before it gets a separator, and may change its layout then; this keeps its
  fences, separators and children, and fails only on a page with many children.
\<close>

text \<open>The size of an entry for which every split of a full page succeeds. \<open>maxKVSize\<close>, which the
  library itself asserts, is 1326; see the header for what happens above the bound used here.\<close>

definition maxEntry :: nat where
  "maxEntry = 128"

subsection \<open>The union as an inner page\<close>

fun nodeSeps :: "AnyNode \<Rightarrow> bytes list" where
  "nodeSeps (Basic b) = BTreeNode_seps b"
| "nodeSeps (Head4 h) = HeadNode_seps h"
| "nodeSeps (Head8 h) = HeadNode_seps h"
| "nodeSeps _ = []"

fun nodeKids :: "AnyNode \<Rightarrow> ptr list" where
  "nodeKids (Basic b) = BTreeNode_kids b"
| "nodeKids (Head4 h) = HeadNode_kids h"
| "nodeKids (Head8 h) = HeadNode_kids h"
| "nodeKids _ = []"

fun innerInv :: "AnyNode \<Rightarrow> bool" where
  "innerInv (Basic b) = basicInner b"
| "innerInv (Head4 h) = headInv h"
| "innerInv (Head8 h) = headInv h"
| "innerInv _ = False"

fun isBasic :: "AnyNode \<Rightarrow> bool" where
  "isBasic (Basic b) = True"
| "isBasic _ = False"

text \<open>Room for a separator of the given length.\<close>

fun nodeRoom :: "AnyNode \<Rightarrow> nat \<Rightarrow> bool" where
  "nodeRoom (Basic b) len = basicRoom b len"
| "nodeRoom (Head4 h) len = (len < hn_prefixLength h + 4 \<and> hn_count h < hn_keyCapacity h)"
| "nodeRoom (Head8 h) len = (len < hn_prefixLength h + 8 \<and> hn_count h < hn_keyCapacity h)"
| "nodeRoom _ len = False"

lemma sizeofT_simps [simp]: "sizeofT TYPE(32) = 4" "sizeofT TYPE(64) = 8"
  by (simp_all add: sizeofT_def)

lemma head_rooms:
  "nodeRoom (Head4 h) len \<longleftrightarrow> len < hn_prefixLength h + sizeofT TYPE(32) \<and> hn_count h < hn_keyCapacity h"
  "nodeRoom (Head8 g) len \<longleftrightarrow> len < hn_prefixLength g + sizeofT TYPE(64) \<and> hn_count g < hn_keyCapacity g"
  by simp_all

interpretation any_page: inner_page innerInv leafLowerFence leafUpperFence nodeSeps nodeKids
  "\<lambda>n key. the (lookupInnerIndex key n)" "\<lambda>n i. the (AnyNode_getChild i n)" "\<lambda>i n. the (innerRemoveSlot i n)"
  nodeRoom "AnyNode_insertChild cfg" for cfg
proof
  fix n and k key sep :: bytes and i p :: nat
  assume inv: "innerInv n"
  show "sorted_wrt (<) (nodeSeps n)"
    using inv by (cases n) (simp_all add: basic_page.seps_sorted head4.page.seps_sorted head8.page.seps_sorted)
  show "inFences (leafLowerFence n) (leafUpperFence n) k" if "k \<in> set (nodeSeps n)"
    using inv that by (cases n) (simp_all add: basic_page.seps_inside head4.page.seps_inside head8.page.seps_inside)
  show "length (nodeKids n) = Suc (length (nodeSeps n))"
    using inv by (cases n) (simp_all add: basic_page.length_kids)
  show "is_lower_bound (nodeSeps n) key (the (lookupInnerIndex key n))"
    if "inFences (leafLowerFence n) (leafUpperFence n) key"
    using inv that basicInner_facts(3)
    by (cases n) (simp_all add: basic_page.index head4.page.index head8.page.index)
  show "the (AnyNode_getChild i n) = nodeKids n ! i" if "i \<le> length (nodeSeps n)"
    using inv that basicInner_facts(3) basic_page.child
    by (cases n) (simp_all add: BTreeNode_childAt_def)
  show "innerInv (the (innerRemoveSlot i n)) \<and> leafLowerFence (the (innerRemoveSlot i n)) = leafLowerFence n \<and>
      leafUpperFence (the (innerRemoveSlot i n)) = leafUpperFence n \<and>
      nodeSeps (the (innerRemoveSlot i n)) = take i (nodeSeps n) @ drop (Suc i) (nodeSeps n) \<and>
      nodeKids (the (innerRemoveSlot i n)) = take i (nodeKids n) @ drop (Suc i) (nodeKids n)"
    if "i < length (nodeSeps n)"
    using inv that basicInner_facts(3) basic_page.remove head4.page.remove head8.page.remove
    by (cases n) simp_all
  show "\<exists>n'. AnyNode_insertChild cfg sep p n = Some n' \<and> innerInv n' \<and> leafLowerFence n' = leafLowerFence n \<and>
      leafUpperFence n' = leafUpperFence n \<and> nodeSeps n' = take i (nodeSeps n) @ sep # drop i (nodeSeps n) \<and>
      nodeKids n' = take i (nodeKids n) @ p # drop i (nodeKids n)"
    if new: "inFences (leafLowerFence n) (leafUpperFence n) sep" "sep \<notin> set (nodeSeps n)" "sep \<noteq> []"
      "nodeRoom n (length sep)" "p < 2 ^ 64" "is_lower_bound (nodeSeps n) sep i"
  proof (cases n)
    case (Basic b)
    with inv new have b: "basicInner b" "BTreeNode_covers b sep" "sep \<notin> set (BTreeNode_seps b)" "basicRoom b (length sep)"
      "is_lower_bound (BTreeNode_seps b) sep i" by (simp_all add: BTreeNode_covers_def)
    obtain b2 where "BTreeNode_insertChild cfg sep p b = Inserted (Basic b2)" "basicInner b2"
      "BTreeNode_getLowerFence b2 = BTreeNode_getLowerFence b" "BTreeNode_getUpperFence b2 = BTreeNode_getUpperFence b"
      "BTreeNode_seps b2 = take i (BTreeNode_seps b) @ sep # drop i (BTreeNode_seps b)"
      "BTreeNode_kids b2 = take i (BTreeNode_kids b) @ p # drop i (BTreeNode_kids b)"
      by (rule basicInner_insertChild [OF b(1-4) new(5) b(5), of cfg])
    then show ?thesis using basicInner_facts(3) [OF b(1)] by (intro exI [of _ "Basic b2"]) (simp add: Basic)
  next
    case (Head4 h)
    then show ?thesis using head4.page.insert [of h sep p i] inv new by auto
  next
    case (Head8 h)
    then show ?thesis using head8.page.insert [of h sep p i] inv new by auto
  qed (use inv in simp_all)
qed

lemma inner_facts:
  assumes "innerInv n"
  shows "isAnyInner n" "innerCount n = Some (length (nodeSeps n))" "childPtrs n = nodeKids n"
    "i \<le> length (nodeSeps n) \<Longrightarrow> AnyNode_getChild i n = Some (nodeKids n ! i)"
    "i < length (nodeSeps n) \<Longrightarrow> \<exists>n'. innerRemoveSlot i n = Some n' \<and> isBasic n' = isBasic n"
proof -
  show "isAnyInner n" "innerCount n = Some (length (nodeSeps n))"
    using assms basicInner_facts(3,4) by (cases n; simp)+
  have some: "AnyNode_getChild i n \<noteq> None" "childPtrs n = map (\<lambda>i. the (AnyNode_getChild i n)) [0..<Suc (length (nodeSeps n))]"
    for i
    using assms basicInner_facts(3,4) by (cases n; simp)+
  then show child: "AnyNode_getChild i n = Some (nodeKids n ! i)" if "i \<le> length (nodeSeps n)" for i
    using any_page.child [OF assms that] some(1) [of i] by (cases "AnyNode_getChild i n") simp_all
  show "childPtrs n = nodeKids n"
    by (rule nth_equalityI) (use some(2) any_page.length_kids [OF assms] any_page.child [OF assms] in \<open>auto simp del: upt_Suc\<close>)
  show "\<exists>n'. innerRemoveSlot i n = Some n' \<and> isBasic n' = isBasic n" if "i < length (nodeSeps n)"
    using assms basicInner_facts(3) by (cases n) simp_all
qed

lemma inner_lookups:
  assumes inv: "innerInv n" and key: "inFences (leafLowerFence n) (leafUpperFence n) key"
    and lb: "is_lower_bound (nodeSeps n) key i"
  shows "lookupInnerIndex key n = Some i" "AnyNode_getChild i n = Some (nodeKids n ! i)"
    "AnyNode_lookupInner key n = Some (nodeKids n ! i)"
proof -
  obtain j where j: "lookupInnerIndex key n = Some j" "AnyNode_lookupInner key n = AnyNode_getChild j n"
    using inv basicInner_facts(3)
    by (cases n) (auto simp: BTreeNode_lookupInner_def HeadNode_lookupInner_def)
  have "j = i" using is_lower_bound_unique [OF any_page.index [OF inv key] lb] j by simp
  with j inner_facts(4) [OF inv, of i] lb show "lookupInnerIndex key n = Some i"
    "AnyNode_getChild i n = Some (nodeKids n ! i)" "AnyNode_lookupInner key n = Some (nodeKids n ! i)"
    by (simp_all add: is_lower_bound_def)
qed

subsection \<open>Pages of the tree\<close>

text \<open>The fences of a page enclose a nonempty range.\<close>

definition fenced :: "bytes \<Rightarrow> bytes \<Rightarrow> AnyNode \<Rightarrow> bool" where
  "fenced lo up n \<longleftrightarrow> leafLowerFence n = lo \<and> leafUpperFence n = up \<and>
     (up = [] \<or> lo < up) \<and> length lo \<le> maxEntry \<and> length up \<le> maxEntry"

text \<open>\<open>innerOk heads n\<close>: an inner page of the tree, of any layout if \<open>heads\<close>.\<close>

definition innerOk :: "bool \<Rightarrow> AnyNode \<Rightarrow> bool" where
  "innerOk heads n \<longleftrightarrow> innerInv n \<and> (heads \<or> isBasic n) \<and> [] \<notin> set (nodeSeps n) \<and>
     (\<forall>k \<in> set (nodeSeps n). length k \<le> maxEntry) \<and> (\<forall>c \<in> set (nodeKids n). c < 2 ^ 64)"

lemma innerOk_inv: "innerOk heads n \<Longrightarrow> innerInv n"
  by (simp add: innerOk_def)

lemma innerOk_same:
  "innerOk heads n \<Longrightarrow> innerInv n' \<Longrightarrow> heads \<or> isBasic n' \<Longrightarrow> set (nodeSeps n') \<subseteq> set (nodeSeps n) \<Longrightarrow>
    set (nodeKids n') \<subseteq> set (nodeKids n) \<Longrightarrow> innerOk heads n'"
  by (auto simp: innerOk_def)

lemma innerRemoveSlot_ok:
  assumes n: "innerOk heads n" "fenced lo up n" and i: "i < length (nodeSeps n)"
  obtains n' where "innerRemoveSlot i n = Some n'" "innerOk heads n'" "fenced lo up n'"
    "nodeSeps n' = take i (nodeSeps n) @ drop (Suc i) (nodeSeps n)"
    "nodeKids n' = take i (nodeKids n) @ drop (Suc i) (nodeKids n)" "Suc (length (nodeSeps n')) = length (nodeSeps n)"
proof -
  note inv = innerOk_inv [OF n(1)]
  obtain n' where n': "innerRemoveSlot i n = Some n'" "isBasic n' = isBasic n" using inner_facts(5) [OF inv i] by blast
  note r = any_page.remove [OF inv i, unfolded n' option.sel]
  have "innerOk heads n'"
    by (rule innerOk_same [OF n(1)]) (use r n' n(1) in \<open>auto simp: innerOk_def dest: in_set_takeD in_set_dropD\<close>)
  moreover have "fenced lo up n'" using n(2) r by (simp add: fenced_def)
  ultimately show thesis using that [OF n'(1)] r i by simp
qed

lemma insertChild_isBasic:
  assumes "innerInv n" "inFences (leafLowerFence n) (leafUpperFence n) sep" "sep \<notin> set (nodeSeps n)" "sep \<noteq> []"
    "nodeRoom n (length sep)" "p < 2 ^ 64" "AnyNode_insertChild cfg sep p n = Some n'"
  shows "isBasic n' = isBasic n"
proof (cases n)
  case (Basic b)
  with assms have b: "basicInner b" "BTreeNode_covers b sep" "sep \<notin> set (BTreeNode_seps b)" "basicRoom b (length sep)"
    by (simp_all add: BTreeNode_covers_def)
  have lb: "is_lower_bound (BTreeNode_seps b) sep (fst (BTreeNode_lowerBound b sep))"
    using basic_page.index [OF b(1)] b(2) by (simp add: BTreeNode_covers_def)
  obtain b2 where "BTreeNode_insertChild cfg sep p b = Inserted (Basic b2)"
    by (rule basicInner_insertChild [OF b assms(6) lb, of cfg])
  with assms(7) show ?thesis by (auto simp: Basic split: if_splits)
qed (use assms(1,7) in auto)

lemma insertChild_ok:
  assumes n: "innerOk heads n" "fenced lo up n" and sep: "inFences lo up sep" "sep \<notin> set (nodeSeps n)" "sep \<noteq> []"
    "length sep \<le> maxEntry" and room: "nodeRoom n (length sep)" "p < 2 ^ 64" and lb: "is_lower_bound (nodeSeps n) sep i"
  obtains n' where "AnyNode_insertChild cfg sep p n = Some n'" "innerOk heads n'" "fenced lo up n'"
    "nodeSeps n' = take i (nodeSeps n) @ sep # drop i (nodeSeps n)"
    "nodeKids n' = take i (nodeKids n) @ p # drop i (nodeKids n)" "length (nodeSeps n') = Suc (length (nodeSeps n))"
proof -
  note inv = innerOk_inv [OF n(1)]
  have f: "inFences (leafLowerFence n) (leafUpperFence n) sep" using n(2) sep(1) by (simp add: fenced_def)
  obtain n' where n': "AnyNode_insertChild cfg sep p n = Some n'" "innerInv n'" "leafLowerFence n' = leafLowerFence n"
    "leafUpperFence n' = leafUpperFence n" "nodeSeps n' = take i (nodeSeps n) @ sep # drop i (nodeSeps n)"
    "nodeKids n' = take i (nodeKids n) @ p # drop i (nodeKids n)"
    using any_page.insert [OF inv f sep(2,3) room lb] by blast
  have "isBasic n' = isBasic n" by (rule insertChild_isBasic [OF inv f sep(2,3) room n'(1)])
  then have "innerOk heads n'"
    using n(1) n'(2) sep(3,4) room(2) unfolding innerOk_def n'(5,6) by (auto dest: in_set_takeD in_set_dropD)
  moreover have "fenced lo up n'" using n(2) n'(3,4) by (simp add: fenced_def)
  moreover have "length (nodeSeps n') = Suc (length (nodeSeps n))"
    using lb by (simp add: n'(5) is_lower_bound_def)
  ultimately show thesis using that n' by blast
qed

subsection \<open>Pages that are full\<close>

lemma esize_le: "\<forall>(k, v) \<in> set es. length k + length v \<le> M \<Longrightarrow> esize es \<le> M * length es"
  by (induction es) (auto simp: algebra_simps)

lemma esize_truncated_le: "esize (truncated a es) \<le> esize es"
  by (induction es) (auto simp: truncated_def)

lemma full_page_count:
  assumes "pageOk (b_count n) n" "fenced lo up (Basic n)" "\<forall>(k, v) \<in> set (fullEntries n). length k + length v \<le> M"
    and "BTreeNode_freeSpaceAfterCompaction n < sp"
  shows "4004 < sp + 2 * maxEntry + (10 + M) * b_count n"
proof -
  have "esize (entries n) \<le> M * b_count n"
    using esize_truncated_le [of "b_prefixLength n" "fullEntries n"] esize_le [OF assms(3)]
    by (simp add: truncated_fullEntries)
  moreover have "fk_length (b_lowerFence n) \<le> maxEntry" "fk_length (b_upperFence n) \<le> maxEntry"
    using assms(2) length_getLowerFence [of n] length_getUpperFence [of n] unfolding fenced_def leafLowerFence.simps leafUpperFence.simps
    by metis+
  ultimately show ?thesis
    using assms(4) pageOk_fullRoom [OF assms(1)] freeSpaceAfterCompaction_eq [OF assms(1)]
    unfolding add_mult_distrib by linarith
qed

lemma full_basic_inner:
  assumes n: "innerOk heads (Basic b)" "fenced lo up (Basic b)" and len: "kl \<le> maxEntry" "b_prefixLength b \<le> kl"
    and full: "BTreeNode_freeSpaceAfterCompaction b < BTreeNode_spaceNeeded b kl sizeof_ptr"
  shows "25 \<le> b_count b"
proof -
  have b: "basicInner b" using n(1) by (simp add: innerOk_def)
  have ok: "pageOk (b_count b) b" using inv_facts(1) basicInner_facts(1) [OF b] by blast
  have "length k \<le> maxEntry" if "(k, v) \<in> set (fullEntries b)" for k v
    using n(1) that unfolding innerOk_def nodeSeps.simps BTreeNode_seps_def by (metis fst_conv image_eqI list.set_map)
  then have es: "\<forall>(k, v) \<in> set (fullEntries b). length k + length v \<le> maxEntry + sizeof_ptr"
    using basicInner_facts(6) [OF b] by auto
  have "BTreeNode_spaceNeeded b kl sizeof_ptr \<le> 10 + maxEntry + sizeof_ptr"
    using len by (simp add: spaceNeeded_eq maxEntry_def sizeof_ptr_def)
  then have "4004 < 10 + maxEntry + sizeof_ptr + 2 * maxEntry + (10 + (maxEntry + sizeof_ptr)) * b_count b"
    using full_page_count [OF ok n(2) es full] by linarith
  then show ?thesis by (simp add: maxEntry_def sizeof_ptr_def)
qed

subsection \<open>A parent is asked for room\<close>

lemma capacityOf_eq:
  assumes "4 \<le> s" "s \<le> 8" "length lo \<le> maxEntry" "length up \<le> maxEntry"
  shows "fenceFit s lo up" "capacityOf s lo up = (4024 - length lo - length up - (11 + s) div s * s) div (s + 8)"
    "(11 + s) div s * s \<le> 19"
proof -
  have "(11 + s) div s * s \<le> 11 + s" by (rule div_times_less_eq_dividend)
  then show r: "(11 + s) div s * s \<le> 19" using assms(2) by linarith
  have p: "paddedHeadSize s = (11 + s) div s * s + 64"
    using assms(1) by (simp add: paddedHeadSize_def sizeof_HeadNodeHead_def headNodeHintCount_def)
  have l: "length lo \<le> 128" "length up \<le> 128" using assms(3,4) by (simp_all add: maxEntry_def)
  then show "fenceFit s lo up" unfolding fenceFit_def p sizeof_ptr_def using r by linarith
  have "paddedHeadSize s + sizeof_ptr \<le> 4096 - length lo - length up" unfolding p sizeof_ptr_def using r l by linarith
  then show "capacityOf s lo up = (4024 - length lo - length up - (11 + s) div s * s) div (s + 8)"
    by (simp add: capacityOf_def headKeyCapacity_eq p algebra_simps)
qed

lemma capacityOf_bounds:
  assumes "4 \<le> s" "s \<le> 8" "length lo \<le> maxEntry" "length up \<le> maxEntry"
  shows "(s + 8) * c + length lo + length up \<le> 4005 \<Longrightarrow> c \<le> capacityOf s lo up"
    "(s + 8) * capacityOf s lo up + length lo + length up \<le> 4024"
proof -
  note e = capacityOf_eq [OF assms]
  have l: "length lo \<le> 128" "length up \<le> 128" using assms(3,4) by (simp_all add: maxEntry_def)
  show "c \<le> capacityOf s lo up" if "(s + 8) * c + length lo + length up \<le> 4005"
  proof -
    have "c * (s + 8) \<le> 4024 - length lo - length up - (11 + s) div s * s"
      using that e(3) by (subst mult.commute) linarith
    then show ?thesis unfolding e(2) by (subst less_eq_div_iff_mult_less_eq) simp_all
  qed
  have "(s + 8) * capacityOf s lo up \<le> 4024 - length lo - length up - (11 + s) div s * s"
    unfolding e(2) by (rule times_div_less_eq_dividend)
  then show "(s + 8) * capacityOf s lo up + length lo + length up \<le> 4024" using l by linarith
qed

text \<open>The pages \<open>n\<close> and \<open>n1\<close> hold the same children in the same range.\<close>

definition sameChildren :: "AnyNode \<Rightarrow> AnyNode \<Rightarrow> bool" where
  "sameChildren n n1 \<longleftrightarrow> innerInv n1 \<and> leafLowerFence n1 = leafLowerFence n \<and> leafUpperFence n1 = leafUpperFence n \<and>
     nodeSeps n1 = nodeSeps n \<and> nodeKids n1 = nodeKids n"

text \<open>A sound answer to the request: the children are the same, and there is room, or the page is
  untouched and has many children.\<close>

definition spaceAnswer :: "AnyNode \<Rightarrow> nat \<Rightarrow> bool \<times> AnyNode \<Rightarrow> bool" where
  "spaceAnswer n len = (\<lambda>(ok, n1). sameChildren n n1 \<and>
     (if ok then nodeRoom n1 len else n1 = n \<and> 25 \<le> length (nodeSeps n)))"

context head_type
begin

lemma head_toBasic:
  assumes inv: "headInv (n :: 'w word HeadNode)" and kids: "\<forall>c \<in> set (HeadNode_kids n). c < 2 ^ 64"
    and f: "length (HeadNode_getLowerFence n) \<le> maxEntry" "length (HeadNode_getUpperFence n) \<le> maxEntry"
    and len: "hn_prefixLength n \<le> len" "len \<le> maxEntry"
  shows "case HeadNode_convertToBasicWithSpace (len - hn_prefixLength n) n of None \<Rightarrow> 25 \<le> hn_count n
    | Some b \<Rightarrow> basicInner b \<and> BTreeNode_getLowerFence b = HeadNode_getLowerFence n \<and>
        BTreeNode_getUpperFence b = HeadNode_getUpperFence n \<and> BTreeNode_seps b = HeadNode_seps n \<and>
        BTreeNode_kids b = HeadNode_kids n \<and> basicRoom b len"
proof (cases "HeadNode_convertToBasicWithSpace (len - hn_prefixLength n) n")
  case None
  have "HeadNode_getKeyLength n i \<le> 7" if "i < hn_count n" for i
    using headInv_seps(4) [OF inv that] isSepHeadE(1,3) [of "hn_keys n i"] size by (simp add: HeadNode_getKeyLength_def)
  then have "(\<Sum>i\<leftarrow>[0..<hn_count n]. HeadNode_getKeyLength n i) \<le> (\<Sum>i\<leftarrow>[0..<hn_count n]. 7)"
    by (intro sum_list_mono) simp
  then have "(\<Sum>i\<leftarrow>[0..<hn_count n]. HeadNode_getKeyLength n i) \<le> 7 * hn_count n" by (simp add: sum_list_triv)
  then show ?thesis
    using None f len
    by (auto simp: HeadNode_convertToBasicWithSpace_def Let_def maxEntry_def sizeof_ptr_def sizeof_Slot_def
        sizeof_BTreeNodeHeader_def pageSizeInner_def HeadNode_getLowerFence_def HeadNode_getUpperFence_def split: if_splits)
next
  case (Some b)
  note c = convertToBasic_head [OF inv kids Some]
  then show ?thesis using len by (simp add: Some basicRoom_def maxEntry_def)
qed

end

lemma sameChildren_refl: "innerInv n \<Longrightarrow> sameChildren n n"
  by (simp add: sameChildren_def)

lemma requestSpaceFor_Head4:
  assumes n: "innerOk heads (Head4 h)" "fenced lo up (Head4 h)" and sep: "inFences lo up sep" "length sep \<le> maxEntry"
  shows "spaceAnswer (Head4 h) (length sep) (HeadNode4_requestSpaceFor (length sep) h)"
proof -
  let ?len = "length sep - hn_prefixLength h"
  have inv: "headInv h" and kids: "\<forall>c \<in> set (HeadNode_kids h). c < 2 ^ 64" using n(1) by (simp_all add: innerOk_def)
  have f: "HeadNode_getLowerFence h = lo" "HeadNode_getUpperFence h = up" "length lo \<le> maxEntry" "length up \<le> maxEntry"
    using n(2) by (simp_all add: fenced_def)
  have ok: "headPageOk h" using inv by (simp add: headInv_def)
  have pl: "hn_prefixLength h \<le> length sep"
    using head4.HeadNode_covers_prefix(2) [OF ok] sep(1) f by (simp add: HeadNode_covers_def)
  have len: "sub32 (length sep) (hn_prefixLength h) = ?len" using pl sep(2) by (simp add: c_arith maxEntry_def)
  have cap: "hn_keyCapacity h = capacityOf 4 lo up" using headPageOk_fit(2) [OF ok] f by simp
  have "25 \<le> capacityOf 4 lo up" by (rule capacityOf_bounds(1)) (use f in \<open>simp_all add: maxEntry_def\<close>)
  then have full: "25 \<le> hn_count h" if "\<not> hn_count h < hn_keyCapacity h" using that cap by simp
  have toBasic: "spaceAnswer (Head4 h) (length sep)
      (case HeadNode_convertToBasicWithSpace ?len h of Some b \<Rightarrow> (True, Basic b) | None \<Rightarrow> (False, Head4 h))"
    using head4.head_toBasic [OF inv kids _ _ pl sep(2)] f inv
    by (auto simp: spaceAnswer_def sameChildren_def split: option.splits)
  have toHead8: "spaceAnswer (Head4 h) (length sep) (True, Head8 g)"
    if "HeadNode_convertToHead8WithSpace h = Some g" "?len < 8" for g
  proof -
    have "fenceFit 8 lo up" by (rule capacityOf_eq(1)) (use f in simp_all)
    note c = convertToHead8_correct [OF inv _ that(1), unfolded f, OF this]
    have "hn_prefixLength g = hn_prefixLength h"
      using c(1-3) ok f by (simp add: headInv_def headPageOk_def)
    then show ?thesis using c f that(2) by (simp add: spaceAnswer_def sameChildren_def)
  qed
  show ?thesis
    using toBasic toHead8 full pl inv sameChildren_refl [of "Head4 h"]
    by (auto simp: HeadNode4_requestSpaceFor_def len Let_def spaceAnswer_def split: option.splits)
qed

lemma requestSpaceFor_Head8:
  assumes n: "innerOk heads (Head8 h)" "fenced lo up (Head8 h)" and sep: "inFences lo up sep" "length sep \<le> maxEntry"
  shows "spaceAnswer (Head8 h) (length sep) (HeadNode8_requestSpaceFor (length sep) h)"
proof -
  let ?len = "length sep - hn_prefixLength h"
  have inv: "headInv h" and kids: "\<forall>c \<in> set (HeadNode_kids h). c < 2 ^ 64" using n(1) by (simp_all add: innerOk_def)
  have f: "HeadNode_getLowerFence h = lo" "HeadNode_getUpperFence h = up" "length lo \<le> maxEntry" "length up \<le> maxEntry"
    using n(2) by (simp_all add: fenced_def)
  have ok: "headPageOk h" and count: "hn_count h \<le> hn_keyCapacity h" using inv by (simp_all add: headInv_def)
  have pl: "hn_prefixLength h \<le> length sep"
    using head8.HeadNode_covers_prefix(2) [OF ok] sep(1) f by (simp add: HeadNode_covers_def)
  have len: "sub32 (length sep) (hn_prefixLength h) = ?len" using pl sep(2) by (simp add: c_arith maxEntry_def)
  have cap: "hn_keyCapacity h = capacityOf 8 lo up" using headPageOk_fit(2) [OF ok] f by simp
  have "25 \<le> capacityOf 8 lo up" by (rule capacityOf_bounds(1)) (use f in \<open>simp_all add: maxEntry_def\<close>)
  then have full: "25 \<le> hn_count h" if "\<not> hn_count h < hn_keyCapacity h" using that cap by simp
  have toBasic: "spaceAnswer (Head8 h) (length sep)
      (case HeadNode_convertToBasicWithSpace ?len h of Some b \<Rightarrow> (True, Basic b) | None \<Rightarrow> (False, Head8 h))"
    using head8.head_toBasic [OF inv kids _ _ pl sep(2)] f inv
    by (auto simp: spaceAnswer_def sameChildren_def split: option.splits)
  have toHead4: "spaceAnswer (Head8 h) (length sep) (True, Head4 g)"
    if "HeadNode_convertToHead4WithSpace h = Some g" "?len < 4" "25 \<le> hn_count h" for g
  proof -
    have c8: "16 * hn_count h + length lo + length up \<le> 4024"
      using capacityOf_bounds(2) [of 8 lo up] f count cap by simp
    have "Suc (hn_count h) \<le> capacityOf 4 lo up"
      by (rule capacityOf_bounds(1)) (use c8 that(3) f in simp_all)
    moreover from this have "hn_count h \<le> capacityOf 4 lo up" by simp
    note c = convertToHead4_correct [OF inv _ that(1), unfolded f, OF this]
    have "hn_prefixLength g = hn_prefixLength h"
      using c(1-3) ok f by (simp add: headInv_def headPageOk_def)
    ultimately show ?thesis using c f that(2) by (simp add: spaceAnswer_def sameChildren_def)
  qed
  show ?thesis
    using toBasic toHead4 full pl inv sameChildren_refl [of "Head8 h"]
    by (auto simp: HeadNode8_requestSpaceFor_def len Let_def spaceAnswer_def split: option.splits)
qed

lemma esize_kids: "\<forall>(k, v) \<in> set es. length v = sizeof_ptr \<Longrightarrow> 8 * length es \<le> esize es"
  by (induction es) (auto simp: sizeof_ptr_def)

lemma esize_entries_kids:
  assumes "basicInner b"
  shows "8 * b_count b \<le> esize (entries b)"
proof -
  have "\<forall>(k, v) \<in> set (entries b). length v = sizeof_ptr"
    using basicInner_facts(6) [OF assms] unfolding truncated_fullEntries [symmetric] by (force simp: truncated_def)
  then show ?thesis using esize_kids [of "entries b"] by simp
qed

lemma clone_room:
  assumes b: "basicInner b" and f: "fenced lo up (Basic b)" and s: "4 \<le> s" "s \<le> 8"
  shows "b_count b < capacityOf s lo up"
proof -
  have ok: "pageOk (b_count b) b" using inv_facts(1) basicInner_facts(1) [OF b] by blast
  have fl: "fk_length (b_lowerFence b) = length lo" "fk_length (b_upperFence b) = length up" "length lo \<le> maxEntry"
    "length up \<le> maxEntry"
    using f length_getLowerFence [of b] length_getUpperFence [of b] by (auto simp: fenced_def)
  have c: "18 * b_count b + length lo + length up \<le> 4004"
    using pageOk_fullRoom(1) [OF ok] esize_entries_kids [OF b] fl by simp
  have "(s + 8) * Suc (b_count b) \<le> 16 * Suc (b_count b)" using s(2) by (intro mult_le_mono1) simp
  moreover have "16 * Suc (b_count b) + length lo + length up \<le> 4005"
    using c fl(3,4) by (cases "8 \<le> b_count b") (simp_all add: maxEntry_def)
  ultimately have "Suc (b_count b) \<le> capacityOf s lo up"
    by (intro capacityOf_bounds(1) [OF s fl(3,4)]) linarith
  then show ?thesis by simp
qed

text \<open>A full basic page turns into a head node if its keys and the new one are short.\<close>

lemma convert_full_basic:
  assumes b: "basicInner b" and f: "fenced lo up (Basic b)" and sep: "inFences lo up sep" "length sep \<le> maxEntry"
    and many: "25 \<le> b_count b"
  shows "case requestChildConvertFromBasic b (length sep) of
      None \<Rightarrow> True
    | Some None \<Rightarrow> False
    | Some (Some (Inl h)) \<Rightarrow> spaceAnswer (Basic b) (length sep) (True, Head4 h)
    | Some (Some (Inr h)) \<Rightarrow> spaceAnswer (Basic b) (length sep) (True, Head8 h)"
proof -
  let ?len = "length sep - b_prefixLength b"
  have ff: "BTreeNode_getLowerFence b = lo" "BTreeNode_getUpperFence b = up" "length lo \<le> maxEntry" "length up \<le> maxEntry"
    using f by (simp_all add: fenced_def)
  have pl: "b_prefixLength b \<le> length sep"
    by (rule inFences_getPrefix(1) [OF inv_facts(1) [OF basicInner_facts(1) [OF b]]]) (use sep(1) ff in simp)
  have len: "sub32 (length sep) (b_prefixLength b) = ?len" using pl sep(2) by (simp add: c_arith maxEntry_def)
  have fit: "fenceFit (sizeofT TYPE(32)) (BTreeNode_getLowerFence b) (BTreeNode_getUpperFence b)"
    "fenceFit (sizeofT TYPE(64)) (BTreeNode_getLowerFence b) (BTreeNode_getUpperFence b)"
    using capacityOf_eq(1) ff by simp_all
  have room: "b_count b < capacityOf (sizeofT TYPE(32)) (BTreeNode_getLowerFence b) (BTreeNode_getUpperFence b)"
    "b_count b < capacityOf (sizeofT TYPE(64)) (BTreeNode_getLowerFence b) (BTreeNode_getUpperFence b)"
    using clone_room [OF b f] ff by simp_all
  have four: "\<exists>h. HeadNode_clone_from_basic b = Some h \<and> spaceAnswer (Basic b) (length sep) (True, Head4 h) \<and>
      hn_count h < hn_keyCapacity h"
    if "?len < 4" "\<forall>i < b_count b. s_keyLen (b_slot b i) < 4"
    by (rule head4.clone_from_basic_correct [OF b fit(1) _ room(1)])
      (use that pl in \<open>auto simp: spaceAnswer_def sameChildren_def\<close>)
  have eight: "\<exists>h. HeadNode_clone_from_basic b = Some h \<and> spaceAnswer (Basic b) (length sep) (True, Head8 h) \<and>
      hn_count h < hn_keyCapacity h"
    if "?len < 8" "\<forall>i < b_count b. s_keyLen (b_slot b i) < 8"
    by (rule head8.clone_from_basic_correct [OF b fit(2) _ room(2)])
      (use that pl in \<open>auto simp: spaceAnswer_def sameChildren_def\<close>)
  show ?thesis
  proof (cases "?len < 8 \<and> (\<forall>i < b_count b. s_keyLen (b_slot b i) < 8)")
    case False
    then have "?len \<ge> 8 \<or> list_ex (\<lambda>i. s_keyLen (b_slot b i) \<ge> 8) [0..<b_count b]"
      by (auto simp: list_ex_iff not_less)
    then have "requestChildConvertFromBasic b (length sep) = None"
      by (simp only: requestChildConvertFromBasic_def len Let_def if_True)
    then show ?thesis by simp
  next
    case short: True
    then have no: "\<not> (?len \<ge> 8 \<or> list_ex (\<lambda>i. s_keyLen (b_slot b i) \<ge> 8) [0..<b_count b])"
      by (auto simp: list_ex_iff)
    show ?thesis
    proof (cases "?len < 4 \<and> (\<forall>i < b_count b. s_keyLen (b_slot b i) < 4)")
      case True
      then have "list_all (\<lambda>i. s_keyLen (b_slot b i) < 4) [0..<b_count b]" by (simp add: list_all_iff)
      moreover obtain h where "HeadNode_clone_from_basic b = Some h" "hn_count h < hn_keyCapacity h"
        "spaceAnswer (Basic b) (length sep) (True, Head4 h)" using four True by blast
      ultimately show ?thesis using no True by (simp add: requestChildConvertFromBasic_def len Let_def)
    next
      case False
      then have "\<not> (?len < 4 \<and> list_all (\<lambda>i. s_keyLen (b_slot b i) < 4) [0..<b_count b])"
        by (auto simp: list_all_iff)
      moreover obtain h where "HeadNode_clone_from_basic b = Some h" "hn_count h < hn_keyCapacity h"
        "spaceAnswer (Basic b) (length sep) (True, Head8 h)" using eight short by blast
      ultimately show ?thesis using no by (simp only: requestChildConvertFromBasic_def len Let_def) simp
    qed
  qed
qed

lemma requestSpaceFor_Basic:
  assumes n: "innerOk heads (Basic b)" "fenced lo up (Basic b)" and sep: "inFences lo up sep" "length sep \<le> maxEntry"
  obtains r where "innerRequestSpaceFor cfg (length sep) (Basic b) = Some r" "spaceAnswer (Basic b) (length sep) r"
    "enableHeadNode cfg \<or> isBasic (snd r)"
proof -
  let ?sp = "BTreeNode_spaceNeeded b (length sep) sizeof_ptr"
  have b: "basicInner b" using n(1) by (simp add: innerOk_def)
  note bf = basicInner_facts [OF b]
  obtain ok b1 where req: "BTreeNode_requestSpaceFor ?sp b = (ok, b1)" by force
  note r = requestSpaceFor_correct [OF bf(1,2) req]
  have b1: "basicInner b1" using b r by (simp add: basicInner_def BTreeNode_isInner_def)
  then have same: "sameChildren (Basic b) (Basic b1)"
    using r(6-8,10) by (simp add: sameChildren_def BTreeNode_seps_def BTreeNode_kids_def)
  show thesis
  proof (cases ok)
    case True
    then have "basicRoom b1 (length sep)"
      using r(3,11) sep(2) by (simp add: basicRoom_def BTreeNode_spaceNeeded_def maxEntry_def)
    then have "spaceAnswer (Basic b) (length sep) (True, Basic b1)" using same by (simp add: spaceAnswer_def)
    then show thesis using that True req bf(3) by simp
  next
    case False
    then have eq: "b1 = b" and no: "BTreeNode_freeSpaceAfterCompaction b < ?sp" using r(1,2) by simp_all
    have "b_prefixLength b \<le> length sep"
      by (rule inFences_getPrefix(1) [OF inv_facts(1) [OF bf(1)]]) (use sep(1) n(2) in \<open>simp add: fenced_def\<close>)
    then have many: "25 \<le> b_count b" by (rule full_basic_inner [OF n sep(2) _ no])
    then have keep: "spaceAnswer (Basic b) (length sep) (False, Basic b)"
      using b bf(4) by (simp add: spaceAnswer_def sameChildren_refl)
    have conv: "case requestChildConvertFromBasic b (length sep) of None \<Rightarrow> True | Some None \<Rightarrow> False
      | Some (Some (Inl h)) \<Rightarrow> spaceAnswer (Basic b) (length sep) (True, Head4 h)
      | Some (Some (Inr h)) \<Rightarrow> spaceAnswer (Basic b) (length sep) (True, Head8 h)"
      by (rule convert_full_basic [OF b n(2) sep many])
    show thesis
    proof (cases "enableHeadNode cfg")
      case False
      then show thesis using that keep req \<open>\<not> ok\<close> eq bf(3) by simp
    next
      case True
      then show thesis
        using that keep conv req False eq bf(3)
        by (cases "requestChildConvertFromBasic b (length sep)") (auto split: option.splits sum.splits)
    qed
  qed
qed

lemma innerRequestSpaceFor_ok:
  assumes cfg: "heads = enableHeadNode cfg" and n: "innerOk heads n" "fenced lo up n" and sep: "inFences lo up sep" "length sep \<le> maxEntry"
  obtains ok n1 where "innerRequestSpaceFor cfg (length sep) n = Some (ok, n1)" "innerOk heads n1"
    "fenced lo up n1" "nodeSeps n1 = nodeSeps n" "nodeKids n1 = nodeKids n" "ok \<Longrightarrow> nodeRoom n1 (length sep)"
    "\<not> ok \<Longrightarrow> n1 = n \<and> 25 \<le> length (nodeSeps n)"
proof -
  obtain r where r: "innerRequestSpaceFor cfg (length sep) n = Some r" "spaceAnswer n (length sep) r"
    "enableHeadNode cfg \<or> isBasic (snd r)"
  proof (cases n)
    case (Basic b)
    show thesis by (rule requestSpaceFor_Basic [OF n [unfolded Basic] sep, of cfg]) (use that Basic in simp)
  next
    case (Head4 h)
    show thesis using that requestSpaceFor_Head4 [OF n [unfolded Head4] sep] n(1) cfg by (simp add: Head4 innerOk_def)
  next
    case (Head8 h)
    show thesis using that requestSpaceFor_Head8 [OF n [unfolded Head8] sep] n(1) cfg by (simp add: Head8 innerOk_def)
  qed (use n(1) in \<open>simp_all add: innerOk_def\<close>)
  obtain ok n1 where rr: "r = (ok, n1)" by force
  have s: "sameChildren n n1" "if ok then nodeRoom n1 (length sep) else n1 = n \<and> 25 \<le> length (nodeSeps n)"
    using r(2) by (simp_all add: rr spaceAnswer_def)
  then have "innerOk heads n1" "fenced lo up n1"
    using n r(3) by (auto simp: sameChildren_def innerOk_def fenced_def rr cfg)
  then show thesis using that r(1) s by (auto simp: rr sameChildren_def split: if_splits)
qed

subsection \<open>A new root\<close>

definition newRoot :: "bool \<Rightarrow> ptr \<Rightarrow> AnyNode" where
  "newRoot heads child =
     (if heads then Head4 (let h = HeadNode_init [] [] TmpHeadNode in h\<lparr>hn_children := (hn_children h)(0 := child)\<rparr>)
      else Basic ((BTreeNode_init False RangeOpCounter_new TmpBTreeNode)\<lparr>b_upper := child\<rparr>))"

lemma basicRoot_facts:
  defines "r \<equiv> \<lambda>child. (BTreeNode_init False RangeOpCounter_new TmpBTreeNode)\<lparr>b_upper := child\<rparr>"
  shows "basicInner (r child)" "fenced [] [] (Basic (r child))" "BTreeNode_kids (r child) = [child]"
    "BTreeNode_seps (r child) = []"
proof -
  let ?n = "r child"
  have cnt: "b_count ?n = 0" by (simp add: r_def BTreeNode_init_def)
  then have fe: "fullEntries ?n = []" by (rule fullEntries_empty)
  then show "BTreeNode_seps ?n = []" "BTreeNode_kids ?n = [child]" by (simp_all add: BTreeNode_seps_def BTreeNode_kids_def r_def)
  have f: "BTreeNode_getLowerFence ?n = []" "BTreeNode_getUpperFence ?n = []"
    by (simp_all add: r_def BTreeNode_init_def BTreeNode_getLowerFence_def BTreeNode_getUpperFence_def)
  then show "fenced [] [] (Basic ?n)" by (simp add: fenced_def)
  have "pageOk 0 ?n"
    unfolding pageOk_def f by (simp add: r_def BTreeNode_init_def slotsEnd_eq fenceOk_def entriesUpto_def pageSizeInner_def)
  moreover have "entries ?n = []" using cnt by (simp add: entries_def entriesUpto_def)
  ultimately have "BTreeNode_inv ?n"
    using cnt by (simp add: BTreeNode_inv_def BTreeNode_validateHint_def BTreeNode_isInner_def) (simp add: r_def BTreeNode_init_def)
  then show "basicInner ?n"
    using fe by (simp add: basicInner_def keysInFences_def BTreeNode_isInner_def) (simp add: r_def BTreeNode_init_def)
qed

lemma headRoot_facts:
  defines "h \<equiv> (HeadNode_init [] [] TmpHeadNode :: HeadNode4)"
  shows "headInv h" "HeadNode_getLowerFence h = []" "HeadNode_getUpperFence h = []" "HeadNode_seps h = []" "hn_count h = 0"
proof -
  have "fenceFit (sizeofT TYPE(32)) [] []" using capacityOf_eq(1) [of 4 "[]" "[]"] by simp
  note i = HeadNode_init_facts [OF this, folded h_def]
  then show "HeadNode_getLowerFence h = []" "HeadNode_getUpperFence h = []" "hn_count h = 0" by simp_all
  then show seps: "HeadNode_seps h = []" by (simp add: HeadNode_seps_def HeadNode_heads_def)
  show "headInv h" using i by (simp add: headInv_def seps HeadNode_heads_def HeadNode_validateHint_def)
qed

lemma newRoot_facts:
  assumes "child < 2 ^ 64"
  shows "innerOk heads (newRoot heads child)" "fenced [] [] (newRoot heads child)" "nodeKids (newRoot heads child) = [child]"
    "nodeSeps (newRoot heads child) = []"
  using assms basicRoot_facts [of child] headRoot_facts
  by (simp_all add: newRoot_def innerOk_def headInv_children fenced_def HeadNode_kids_def Let_def)

end
