(* ===== verification/TreeShape.thy ===== *)
theory TreeShape
  imports InnerPages "HOL-Library.Multiset"
begin

text \<open>
  The tree as a value: the pages below the root of \<open>BTree\<close>, each with its address. A tree is well
  formed when every page satisfies the invariant of its kind, an inner page has one child more than
  separators, and the fences of a child are the separators around it. A context is the way from a
  page up to the root; the operations of the tree change a page and some of the pages on that way.
\<close>

definition leafOk :: "BTreeNode \<Rightarrow> bool" where
  "leafOk n \<longleftrightarrow> leafInv n \<and> (\<forall>(k, v) \<in> set (fullEntries n). length k + length v \<le> maxEntry)"

subsection \<open>Trees\<close>

datatype ntree = Leaf ptr BTreeNode | Inner ptr AnyNode "ntree list"

fun rootPtr :: "ntree \<Rightarrow> ptr" where
  "rootPtr (Leaf p n) = p"
| "rootPtr (Inner p n cs) = p"

fun nodes :: "ntree \<Rightarrow> (ptr \<times> AnyNode) list" where
  "nodes (Leaf p n) = [(p, Basic n)]"
| "nodes (Inner p n cs) = (p, n) # concat (map nodes cs)"

fun leaves :: "ntree \<Rightarrow> (ptr \<times> BTreeNode) list" where
  "leaves (Leaf p n) = [(p, n)]"
| "leaves (Inner p n cs) = concat (map leaves cs)"

definition leafEntries :: "(ptr \<times> BTreeNode) list \<Rightarrow> entry list" where
  "leafEntries ls = concat (map (\<lambda>(p, n). fullEntries n) ls)"

definition treeEntries :: "ntree \<Rightarrow> entry list" where
  "treeEntries T = leafEntries (leaves T)"

lemma leafEntries_simps [simp]:
  "leafEntries [] = []" "leafEntries ((p, n) # ls) = fullEntries n @ leafEntries ls"
  "leafEntries (xs @ ys) = leafEntries xs @ leafEntries ys"
  by (simp_all add: leafEntries_def)

text \<open>\<open>wfForest heads lo ups cs\<close>: the children lie side by side from \<open>lo\<close>, each up to its upper fence in
  \<open>ups\<close>.\<close>

fun wfTree :: "bool \<Rightarrow> bytes \<Rightarrow> bytes \<Rightarrow> ntree \<Rightarrow> bool"
  and wfForest :: "bool \<Rightarrow> bytes \<Rightarrow> bytes list \<Rightarrow> ntree list \<Rightarrow> bool" where
  "wfTree heads lo up (Leaf p n) \<longleftrightarrow> leafOk n \<and> fenced lo up (Basic n)"
| "wfTree heads lo up (Inner p n cs) \<longleftrightarrow> innerOk heads n \<and> fenced lo up n \<and> nodeKids n = map rootPtr cs \<and> wfForest heads lo (nodeSeps n @ [up]) cs"
| "wfForest heads lo [] [] \<longleftrightarrow> True"
| "wfForest heads lo (u # us) (c # cs) \<longleftrightarrow> wfTree heads lo u c \<and> wfForest heads u us cs"
| "wfForest heads lo [] (c # cs) \<longleftrightarrow> False"
| "wfForest heads lo (u # us) [] \<longleftrightarrow> False"

lemma wfs_length: "wfForest heads lo us cs \<Longrightarrow> length us = length cs"
proof (induction us arbitrary: lo cs)
  case Nil
  then show ?case by (cases cs) auto
next
  case (Cons u us)
  then show ?case by (cases cs) auto
qed

lemma wfs_append:
  "length us = length cs \<Longrightarrow>
   wfForest heads lo (us @ vs) (cs @ ds) \<longleftrightarrow> wfForest heads lo us cs \<and> wfForest heads (last (lo # us)) vs ds"
  by (induction us cs arbitrary: lo rule: list_induct2) auto

subsection \<open>Contexts\<close>

text \<open>A frame is an inner page with the children left and right of the one the way goes through; a
  context lists the frames from the bottom up.\<close>

type_synonym frame = "ptr \<times> AnyNode \<times> ntree list \<times> ntree list"

fun plug :: "frame list \<Rightarrow> ntree \<Rightarrow> ntree" where
  "plug [] T = T"
| "plug ((p, n, ls, rs) # fs) T = plug fs (Inner p n (ls @ T # rs))"

fun parentOf :: "frame list \<Rightarrow> ptr" where
  "parentOf [] = nullptr"
| "parentOf ((p, n, ls, rs) # fs) = p"

fun ctxNodes :: "frame list \<Rightarrow> (ptr \<times> AnyNode) list" where
  "ctxNodes [] = []"
| "ctxNodes ((p, n, ls, rs) # fs) = (p, n) # concat (map nodes ls) @ concat (map nodes rs) @ ctxNodes fs"

fun leavesLeft :: "frame list \<Rightarrow> (ptr \<times> BTreeNode) list" where
  "leavesLeft [] = []"
| "leavesLeft ((p, n, ls, rs) # fs) = leavesLeft fs @ concat (map leaves ls)"

fun leavesRight :: "frame list \<Rightarrow> (ptr \<times> BTreeNode) list" where
  "leavesRight [] = []"
| "leavesRight ((p, n, ls, rs) # fs) = concat (map leaves rs) @ leavesRight fs"

text \<open>\<open>frameOk heads f q lo up lo' up'\<close>: the child with root \<open>q\<close> and fences \<open>lo\<close>, \<open>up\<close> makes the frame a
  well-formed tree with fences \<open>lo'\<close>, \<open>up'\<close>.\<close>

fun frameOk :: "bool \<Rightarrow> frame \<Rightarrow> ptr \<Rightarrow> bytes \<Rightarrow> bytes \<Rightarrow> bytes \<Rightarrow> bytes \<Rightarrow> bool" where
  "frameOk heads (p, n, ls, rs) q lo up lo' up' \<longleftrightarrow> innerOk heads n \<and> fenced lo' up' n \<and>
     nodeKids n = map rootPtr ls @ q # map rootPtr rs \<and>
     (\<exists>us vs. nodeSeps n @ [up'] = us @ up # vs \<and> lo = last (lo' # us) \<and> wfForest heads lo' us ls \<and> wfForest heads up vs rs)"

fun ctxOk :: "bool \<Rightarrow> frame list \<Rightarrow> ptr \<Rightarrow> bytes \<Rightarrow> bytes \<Rightarrow> bool" where
  "ctxOk heads [] q lo up \<longleftrightarrow> lo = [] \<and> up = []"
| "ctxOk heads (f # fs) q lo up \<longleftrightarrow> (\<exists>lo' up'. frameOk heads f q lo up lo' up' \<and> ctxOk heads fs (fst f) lo' up')"

lemma frame_wf:
  assumes "frameOk heads (p, n, ls, rs) (rootPtr T) lo up lo' up'" "wfTree heads lo up T"
  shows "wfTree heads lo' up' (Inner p n (ls @ T # rs))"
proof -
  from assms obtain us vs where w: "nodeSeps n @ [up'] = us @ up # vs" "lo = last (lo' # us)"
    "wfForest heads lo' us ls" "wfForest heads up vs rs" by auto
  then have "wfForest heads lo' (nodeSeps n @ [up']) (ls @ T # rs)"
    using wfs_append [OF wfs_length [OF w(3)], of heads lo' "up # vs" "T # rs"] assms(2) by simp
  with assms(1) show ?thesis by simp
qed

lemma wf_plug: "ctxOk heads fs (rootPtr T) lo up \<Longrightarrow> wfTree heads lo up T \<Longrightarrow> wfTree heads [] [] (plug fs T)"
proof (induction fs arbitrary: T lo up)
  case (Cons f fs)
  obtain p n ls rs where f: "f = (p, n, ls, rs)" by (cases f)
  from Cons.prems(1) obtain lo' up' where fo: "frameOk heads (p, n, ls, rs) (rootPtr T) lo up lo' up'"
    "ctxOk heads fs p lo' up'" by (auto simp: f)
  show ?case using Cons.IH [of "Inner p n (ls @ T # rs)" lo' up'] frame_wf [OF fo(1) Cons.prems(2)] fo(2)
    by (simp add: f)
qed simp

lemma mset_nodes_plug: "mset (nodes (plug fs T)) = mset (ctxNodes fs @ nodes T)"
proof (induction fs arbitrary: T)
  case (Cons f fs)
  then show ?case by (cases f) (simp add: ac_simps)
qed simp

lemma set_nodes_plug: "set (nodes (plug fs T)) = set (ctxNodes fs) \<union> set (nodes T)"
  using mset_eq_setD [OF mset_nodes_plug [of fs T]] by simp

lemma leaves_plug: "leaves (plug fs T) = leavesLeft fs @ leaves T @ leavesRight fs"
  by (induction fs arbitrary: T) auto

lemma treeEntries_plug:
  "treeEntries (plug fs T) = leafEntries (leavesLeft fs) @ treeEntries T @ leafEntries (leavesRight fs)"
  by (simp add: treeEntries_def leaves_plug)

lemma treeEntries_simps [simp]:
  "treeEntries (Leaf p n) = fullEntries n"
  "treeEntries (Inner p m cs) = concat (map treeEntries cs)"
proof -
  have "leafEntries (concat (map leaves cs)) = concat (map treeEntries cs)"
    by (induction cs) (simp_all add: treeEntries_def)
  then show "treeEntries (Leaf p n) = fullEntries n" "treeEntries (Inner p m cs) = concat (map treeEntries cs)"
    by (simp_all add: treeEntries_def)
qed

subsection \<open>The page a key belongs to\<close>

lemma pick_child:
  assumes "wfForest heads lo us cs" "us \<noteq> []" "lo = [] \<or> lo < key" "last us = [] \<or> key \<le> last us"
    "[] \<notin> set (butlast us)"
  obtains xs u ys ls c rs where "us = xs @ u # ys" "cs = ls @ c # rs" "length xs = length ls"
    "wfForest heads lo xs ls" "wfTree heads (last (lo # xs)) u c" "wfForest heads u ys rs" "inFences (last (lo # xs)) u key"
proof -
  have "\<exists>xs u ys ls c rs. us = xs @ u # ys \<and> cs = ls @ c # rs \<and> length xs = length ls \<and>
      wfForest heads lo xs ls \<and> wfTree heads (last (lo # xs)) u c \<and> wfForest heads u ys rs \<and> inFences (last (lo # xs)) u key"
    using assms
  proof (induction us arbitrary: lo cs)
    case (Cons u us)
    from Cons.prems(1) obtain c cs' where c: "cs = c # cs'" by (cases cs) auto
    show ?case
    proof (cases "us = [] \<or> u = [] \<or> key \<le> u")
      case True
      with Cons.prems c have "inFences lo u key" by (auto simp: inFences_def split: if_splits)
      then show ?thesis using Cons.prems(1) c
        by (intro exI [of _ "[]"] exI [of _ u] exI [of _ us] exI [of _ "[]"] exI [of _ c] exI [of _ cs']) auto
    next
      case False
      with Cons.prems c obtain xs v ys ls d rs where r: "us = xs @ v # ys" "cs' = ls @ d # rs"
        "length xs = length ls" "wfForest heads u xs ls" "wfTree heads (last (u # xs)) v d" "wfForest heads v ys rs"
        "inFences (last (u # xs)) v key"
        using Cons.IH [of u cs'] by (fastforce split: if_splits)
      then show ?thesis using Cons.prems(1) c
        by (intro exI [of _ "u # xs"] exI [of _ v] exI [of _ ys] exI [of _ "c # ls"] exI [of _ d] exI [of _ rs]) auto
    qed
  qed simp
  then show thesis using that by blast
qed

lemma locate:
  assumes "ctxOk heads fs (rootPtr T) lo up" "wfTree heads lo up T" "inFences lo up key"
  obtains fs' p n lo' up' where "plug fs' (Leaf p n) = plug fs T" "ctxOk heads fs' p lo' up'"
    "leafOk n" "fenced lo' up' (Basic n)" "inFences lo' up' key"
proof -
  have "\<exists>fs' p n lo' up'. plug fs' (Leaf p n) = plug fs T \<and> ctxOk heads fs' p lo' up' \<and>
      leafOk n \<and> fenced lo' up' (Basic n) \<and> inFences lo' up' key"
    using assms
  proof (induction T arbitrary: fs lo up)
    case (Leaf p n)
    then show ?case by (intro exI [of _ fs] exI [of _ p] exI [of _ n] exI [of _ lo] exI [of _ up]) simp
  next
    case (Inner p n cs)
    have w: "wfForest heads lo (nodeSeps n @ [up]) cs" and n: "innerOk heads n" "fenced lo up n" "nodeKids n = map rootPtr cs"
      using Inner.prems(2) by simp_all
    have key: "lo = [] \<or> lo < key" "up = [] \<or> key \<le> up"
      using Inner.prems(3) by (auto simp: inFences_def)
    have nz: "[] \<notin> set (nodeSeps n)" using n(1) by (simp add: innerOk_def)
    obtain xs u ys ls c rs where s: "nodeSeps n @ [up] = xs @ u # ys" "cs = ls @ c # rs"
      "length xs = length ls" "wfForest heads lo xs ls" "wfTree heads (last (lo # xs)) u c" "wfForest heads u ys rs"
      "inFences (last (lo # xs)) u key"
      by (rule pick_child [OF w _ key(1)]) (use key nz in \<open>auto simp del: last.simps\<close>)
    have "frameOk heads (p, n, ls, rs) (rootPtr c) (last (lo # xs)) u lo up"
      using n s by auto
    then have ctx: "ctxOk heads ((p, n, ls, rs) # fs) (rootPtr c) (last (lo # xs)) u"
      using Inner.prems(1) by (simp del: frameOk.simps last.simps) blast
    have c: "c \<in> set cs" using s(2) by simp
    from Inner.IH [OF c ctx s(5,7)] show ?case by (simp add: s(2))
  qed
  then show thesis using that by blast
qed

end
