(* ===== verification/TreeHeap.thy ===== *)
theory TreeHeap
  imports TreeShape
begin

text \<open>
  The tree in memory: \<open>represents\<close> ties the object and its store of pages to a tree value whose pages
  lie at distinct page addresses. The descents of \<open>BTree\<close> follow the context of the page they end at.
\<close>

subsection \<open>Representation\<close>

definition holdsNodes :: "(ptr \<Rightarrow> AnyNode option) \<Rightarrow> (ptr \<times> AnyNode) list \<Rightarrow> bool" where
  "holdsNodes pages ns \<longleftrightarrow> (\<forall>(p, n) \<in> set ns. pages p = Some n)"

definition pageAddr :: "nat \<Rightarrow> ptr \<Rightarrow> bool" where
  "pageAddr brk p \<longleftrightarrow> 0 < p \<and> p < brk \<and> p mod pageSizeLeaf = 0"

definition represents :: "btree \<Rightarrow> ntree \<Rightarrow> bool" where
  "represents t T \<longleftrightarrow> rootPtr T = t_root t \<and> holdsNodes (t_pages t) (nodes T) \<and>
     distinct (map fst (nodes T)) \<and> (\<forall>p \<in> fst ` set (nodes T). pageAddr (t_brk t) p) \<and>
     t_brk t mod pageSizeLeaf = 0 \<and> t_brk t \<le> memoryEnd"

fun rootOf :: "frame list \<Rightarrow> ptr \<Rightarrow> ptr" where
  "rootOf [] q = q"
| "rootOf ((p, n, ls, rs) # fs) q = rootOf fs p"

lemma root_plug: "rootPtr (plug fs T) = rootOf fs (rootPtr T)"
proof (induction fs arbitrary: T)
  case (Cons f fs)
  then show ?case by (cases f) simp
qed simp

lemma parentOf_mem: "fs \<noteq> [] \<Longrightarrow> parentOf fs \<in> fst ` set (ctxNodes fs)"
proof (cases fs)
  case (Cons f fs')
  then show ?thesis by (cases f) simp
qed simp

lemma holdsNodes_simps [simp]:
  "holdsNodes pages []" "holdsNodes pages ((p, n) # ns) \<longleftrightarrow> pages p = Some n \<and> holdsNodes pages ns"
  "holdsNodes pages (ms @ ns) \<longleftrightarrow> holdsNodes pages ms \<and> holdsNodes pages ns"
  by (auto simp: holdsNodes_def)

lemma holdsNodes_cong:
  "holdsNodes pages ns \<Longrightarrow> (\<And>p. p \<in> fst ` set ns \<Longrightarrow> pages' p = pages p) \<Longrightarrow> holdsNodes pages' ns"
  by (force simp: holdsNodes_def)

lemma distinct_plug: "distinct (map fst (nodes (plug fs T))) = distinct (map fst (ctxNodes fs @ nodes T))"
  by (rule mset_eq_imp_distinct_iff) (simp only: mset_map mset_nodes_plug)

lemma represents_plug:
  "represents t (plug fs T) \<longleftrightarrow> rootOf fs (rootPtr T) = t_root t \<and>
     holdsNodes (t_pages t) (ctxNodes fs) \<and> holdsNodes (t_pages t) (nodes T) \<and>
     distinct (map fst (ctxNodes fs)) \<and> distinct (map fst (nodes T)) \<and>
     fst ` set (ctxNodes fs) \<inter> fst ` set (nodes T) = {} \<and>
     (\<forall>p \<in> fst ` set (ctxNodes fs). pageAddr (t_brk t) p) \<and>
     (\<forall>p \<in> fst ` set (nodes T). pageAddr (t_brk t) p) \<and>
     t_brk t mod pageSizeLeaf = 0 \<and> t_brk t \<le> memoryEnd"
proof -
  have "holdsNodes (t_pages t) (nodes (plug fs T)) \<longleftrightarrow>
      holdsNodes (t_pages t) (ctxNodes fs) \<and> holdsNodes (t_pages t) (nodes T)"
    by (auto simp: holdsNodes_def set_nodes_plug)
  moreover have "(\<forall>p \<in> fst ` set (nodes (plug fs T)). pageAddr (t_brk t) p) \<longleftrightarrow>
      (\<forall>p \<in> fst ` set (ctxNodes fs). pageAddr (t_brk t) p) \<and> (\<forall>p \<in> fst ` set (nodes T). pageAddr (t_brk t) p)"
    unfolding set_nodes_plug by blast
  moreover have "distinct (map fst (nodes (plug fs T))) \<longleftrightarrow> distinct (map fst (ctxNodes fs)) \<and>
      distinct (map fst (nodes T)) \<and> fst ` set (ctxNodes fs) \<inter> fst ` set (nodes T) = {}"
    by (simp add: distinct_plug)
  ultimately show ?thesis unfolding represents_def root_plug by blast
qed

lemma pageAddr_mono: "pageAddr b p \<Longrightarrow> b \<le> b' \<Longrightarrow> pageAddr b' p"
  by (simp add: pageAddr_def)

lemma represents_subtree:
  assumes "represents t (plug fs T)" "rootPtr T' = rootPtr T" "t_root t' = t_root t"
    and "holdsNodes (t_pages t') (nodes T')" "distinct (map fst (nodes T'))"
    and "\<And>p. p \<in> fst ` set (nodes T') \<Longrightarrow> p \<in> fst ` set (nodes T) \<or> t_brk t \<le> p \<and> pageAddr (t_brk t') p"
    and "\<And>p. p \<in> fst ` set (ctxNodes fs) \<Longrightarrow> t_pages t' p = t_pages t p"
    and "t_brk t \<le> t_brk t'" "t_brk t' mod pageSizeLeaf = 0" "t_brk t' \<le> memoryEnd"
  shows "represents t' (plug fs T')"
proof -
  note old = assms(1) [unfolded represents_plug]
  have "holdsNodes (t_pages t) (ctxNodes fs)" using old by blast
  then have "holdsNodes (t_pages t') (ctxNodes fs)" by (rule holdsNodes_cong) (rule assms(7))
  moreover have "fst ` set (ctxNodes fs) \<inter> fst ` set (nodes T') = {}"
  proof (rule equals0I)
    fix p assume p: "p \<in> fst ` set (ctxNodes fs) \<inter> fst ` set (nodes T')"
    then have "p \<in> fst ` set (nodes T) \<or> t_brk t \<le> p" using assms(6) by blast
    moreover have "pageAddr (t_brk t) p" "p \<notin> fst ` set (nodes T)" using p old by blast+
    ultimately show False by (simp add: pageAddr_def)
  qed
  moreover have "pageAddr (t_brk t') p" if "p \<in> fst ` set (nodes T')" for p
    using assms(6) [OF that] pageAddr_mono [OF _ assms(8), of p] old by blast
  moreover have "pageAddr (t_brk t') p" if "p \<in> fst ` set (ctxNodes fs)" for p
    using pageAddr_mono [OF _ assms(8), of p] old that by blast
  ultimately show ?thesis using old assms(2-5,9,10) by (simp add: represents_plug)
qed

lemma writePage_same: "t_pages t p = Some n \<Longrightarrow> writePage p n t = t"
  by (simp add: writePage_def fun_upd_idem)

lemma writePage_fields [simp]:
  "t_root (writePage p n t) = t_root t" "t_brk (writePage p n t) = t_brk t" "t_rng (writePage p n t) = t_rng t"
  "t_pages (writePage p n t) = (t_pages t)(p \<mapsto> n)"
  by (simp_all add: writePage_def)

lemma freePage_fields [simp]:
  "t_root (freePage p t) = t_root t" "t_brk (freePage p t) = t_brk t" "t_rng (freePage p t) = t_rng t"
  "t_pages (freePage p t) = (t_pages t)(p := None)"
  by (simp_all add: freePage_def)

subsection \<open>Children of an inner page\<close>

lemma frame_fences:
  assumes "frameOk heads (p, n, ls, rs) q lo up lo' up'"
  shows "length ls \<le> length (nodeSeps n)" "nodeKids n ! length ls = q" "lo' = [] \<or> lo' \<le> lo" "up' = [] \<or> (up \<noteq> [] \<and> up \<le> up')"
    "up = [] \<longrightarrow> rs = []"
    "\<forall>j < length ls. nodeSeps n ! j \<le> lo \<and> lo \<noteq> []" "length ls < length (nodeSeps n) \<Longrightarrow> nodeSeps n ! length ls = up \<and> up \<noteq> []"
    "length ls = length (nodeSeps n) \<Longrightarrow> up = up' \<and> rs = []"
proof -
  from assms obtain us vs where w: "nodeSeps n @ [up'] = us @ up # vs" "lo = last (lo' # us)"
    "wfForest heads lo' us ls" "wfForest heads up vs rs" and n: "innerOk heads n" "fenced lo' up' n" "nodeKids n = map rootPtr ls @ q # map rootPtr rs"
    by auto
  note l = wfs_length [OF w(3)] wfs_length [OF w(4)] any_page.seps_sorted [OF innerOk_inv [OF n(1)]]
  show le: "length ls \<le> length (nodeSeps n)" using arg_cong [OF w(1), of length] l by simp
  have us: "us = take (length ls) (nodeSeps n)"
    using arg_cong [OF w(1), of "take (length ls)"] l(1) le by simp
  show "nodeKids n ! length ls = q" by (simp add: n(3) nth_append)
  have nth: "(nodeSeps n @ [up']) ! length ls = up" by (simp add: w(1) nth_append l(1) [symmetric])
  have nz: "[] \<notin> set (nodeSeps n)" using n(1) by (simp add: innerOk_def)
  have infe: "inFences lo' up' s" if "s \<in> set (nodeSeps n)" for s
    using any_page.seps_inside [OF innerOk_inv [OF n(1)] that] n(2) by (simp add: fenced_def)
  show mid: "length ls < length (nodeSeps n) \<Longrightarrow> nodeSeps n ! length ls = up \<and> up \<noteq> []"
    using nth nz by (auto simp: nth_append in_set_conv_nth)
  show top: "length ls = length (nodeSeps n) \<Longrightarrow> up = up' \<and> rs = []"
    using nth arg_cong [OF w(1), of length] l(1,2) by (auto simp: nth_append)
  show "up = [] \<longrightarrow> rs = []" using mid top le by (cases "length ls = length (nodeSeps n)") auto
  have lo: "lo = lo' \<and> ls = [] \<or> ls \<noteq> [] \<and> lo = nodeSeps n ! (length ls - 1)"
  proof (cases "us = []")
    case False
    then have "ls \<noteq> []" using l(1) by auto
    moreover have "last us = us ! (length us - 1)" using False by (rule last_conv_nth)
    moreover have "us ! (length us - 1) = nodeSeps n ! (length ls - 1)"
      using False le l(1) by (simp add: us)
    ultimately show ?thesis using w(2) False by simp
  qed (use w(2) l(1) in simp)
  show "\<forall>j < length ls. nodeSeps n ! j \<le> lo \<and> lo \<noteq> []"
  proof (intro allI impI)
    fix j assume j: "j < length ls"
    with lo have lo: "lo = nodeSeps n ! (length ls - 1)" by auto
    have "nodeSeps n ! j \<le> nodeSeps n ! (length ls - 1)"
      using j le l(3) by (cases "j = length ls - 1") (auto simp: sorted_wrt_iff_nth_less less_imp_le)
    moreover have "lo \<in> set (nodeSeps n)" using lo j le by auto
    ultimately show "nodeSeps n ! j \<le> lo \<and> lo \<noteq> []" using lo nz by auto
  qed
  show "lo' = [] \<or> lo' \<le> lo"
  proof (cases "ls = []")
    case False
    then have "length ls - 1 < length (nodeSeps n)" using le by (cases ls) auto
    then have "lo \<in> set (nodeSeps n)" using lo False by (metis nth_mem)
    then show ?thesis using infe [of lo] by (auto simp: inFences_def)
  qed (use lo in auto)
  show "up' = [] \<or> (up \<noteq> [] \<and> up \<le> up')"
  proof (cases "length ls < length (nodeSeps n)")
    case True
    then have "up \<in> set (nodeSeps n)" using mid by auto
    then show ?thesis using infe [of up] mid True by (auto simp: inFences_def)
  qed (use top le in auto)
qed

lemma frame_covers:
  assumes "frameOk heads f q lo up lo' up'" "inFences lo up key"
  shows "inFences lo' up' key"
proof -
  obtain p n ls rs where f: "f = (p, n, ls, rs)" by (cases f)
  note fr = frame_fences [OF assms(1) [unfolded f]]
  have lo: "lo' = [] \<or> lo' < key" if "lo = [] \<or> lo < key"
    using that fr(3) by (cases "lo = []") (auto intro: order_le_less_trans)
  have up: "up' = [] \<or> key \<le> up'" if "up = [] \<or> key \<le> up"
    using that fr(4) by (auto intro: order_trans)
  show ?thesis using assms(2) lo up unfolding inFences_def by simp
qed

lemma frame_index:
  assumes fo: "frameOk heads (p, n, ls, rs) q lo up lo' up'" and key: "inFences lo up key"
  shows "AnyNode_lookupInner key n = Some q" "lookupInnerIndex key n = Some (length ls)"
    "AnyNode_getChild (length ls) n = Some q" "inFences lo' up' key" "is_lower_bound (nodeSeps n) key (length ls)"
proof -
  note fr = frame_fences [OF fo]
  from fo have n: "innerOk heads n" "fenced lo' up' n" by auto
  note inv = innerOk_inv [OF n(1)]
  show cov: "inFences lo' up' key" by (rule frame_covers [OF fo key])
  show lb: "is_lower_bound (nodeSeps n) key (length ls)"
    unfolding is_lower_bound_def
  proof (intro conjI allI impI)
    show "length ls \<le> length (nodeSeps n)" by (rule fr(1))
    show "nodeSeps n ! j < key" if "j < length ls" for j
      using fr(6) that key by (force simp: inFences_def)
    show "key \<le> nodeSeps n ! j" if "length ls \<le> j \<and> j < length (nodeSeps n)" for j
    proof -
      have "length ls < length (nodeSeps n)" using that by simp
      then have "key \<le> nodeSeps n ! length ls" using fr(7) key by (auto simp: inFences_def)
      also have "\<dots> \<le> nodeSeps n ! j" using any_page.seps_sorted [OF inv] that
        by (cases "j = length ls") (auto simp: sorted_wrt_iff_nth_less less_imp_le)
      finally show ?thesis .
    qed
  qed
  have f: "inFences (leafLowerFence n) (leafUpperFence n) key" using cov n(2) by (simp add: fenced_def)
  show "AnyNode_lookupInner key n = Some q" "lookupInnerIndex key n = Some (length ls)"
    "AnyNode_getChild (length ls) n = Some q"
    using inner_lookups [OF inv f lb] fr(2) by simp_all
qed

subsection \<open>Descents follow the context\<close>

fun indexOf :: "frame list \<Rightarrow> nat" where
  "indexOf [] = 0"
| "indexOf ((p, n, ls, rs) # fs) = length ls"

lemma descents_ctx:
  assumes "ctxOk heads fs q lo up" "inFences lo up key" "holdsNodes pages (ctxNodes fs)"
  shows "descend pages key (rootOf fs q) nullptr = descend pages key q (parentOf fs) \<and>
    descendIndex pages key (rootOf fs q) nullptr 0 = descendIndex pages key q (parentOf fs) (indexOf fs) \<and>
    (toSplit \<notin> fst ` set (ctxNodes fs) \<longrightarrow>
       descendTo pages key toSplit (rootOf fs q) nullptr = descendTo pages key toSplit q (parentOf fs))"
  using assms
proof (induction fs arbitrary: q lo up)
  case (Cons f fs)
  obtain p n ls rs where f: "f = (p, n, ls, rs)" by (cases f)
  from Cons.prems(1) obtain lo' up' where fo: "frameOk heads (p, n, ls, rs) q lo up lo' up'" "ctxOk heads fs p lo' up'"
    by (auto simp: f)
  note i = frame_index [OF fo(1) Cons.prems(2)]
  have n: "isAnyInner n" "pages p = Some n" "holdsNodes pages (ctxNodes fs)"
    using fo(1) inner_facts(1) innerOk_inv Cons.prems(3) by (auto simp: f)
  show ?case using Cons.IH [OF fo(2) i(4) n(3)] i(1-3) n
    by (simp add: f image_Un descend.simps [of pages key p] descendIndex.simps [of pages key p]
        descendTo.simps [of pages key toSplit p]
        del: isAnyInner.simps lookupInnerIndex.simps AnyNode_getChild.simps AnyNode_lookupInner.simps)
qed auto

lemma leaf_not_inner: "leafOk n \<Longrightarrow> \<not> isAnyInner (Basic n)"
  by (simp add: leafOk_def leafInv_def BTreeNode_isLeaf_def BTreeNode_isInner_def)

text \<open>Where the descent for a key ends: a leaf whose fences enclose the key, in its context.\<close>

definition atLeaf :: "bool \<Rightarrow> btree \<Rightarrow> bytes \<Rightarrow> frame list \<Rightarrow> ptr \<Rightarrow> BTreeNode \<Rightarrow> bytes \<Rightarrow> bytes \<Rightarrow> bool" where
  "atLeaf heads t key fs p n lo up \<longleftrightarrow> represents t (plug fs (Leaf p n)) \<and> ctxOk heads fs p lo up \<and> leafOk n \<and>
     fenced lo up (Basic n) \<and> inFences lo up key"

lemma atLeaf_exists:
  assumes "represents t T" "wfTree heads [] [] T"
  obtains fs p n lo up where "T = plug fs (Leaf p n)" "atLeaf heads t key fs p n lo up"
proof (rule locate [of heads "[]" T "[]" "[]" key])
  fix fs p n lo up
  assume "plug fs (Leaf p n) = plug [] T" "ctxOk heads fs p lo up" "leafOk n" "fenced lo up (Basic n)" "inFences lo up key"
  with assms(1) show thesis by (intro that [of fs p n lo up]) (simp_all add: atLeaf_def)
qed (use assms in \<open>auto simp: inFences_def\<close>)

lemma atLeaf_descend:
  assumes "atLeaf heads t key fs p n lo up"
  shows "descend (t_pages t) key (t_root t) nullptr = Some (p, parentOf fs)"
    and "descendIndex (t_pages t) key (t_root t) nullptr 0 = Some (p, parentOf fs, indexOf fs)"
    and "t_pages t p = Some (Basic n)" and "BTreeNode_covers n key"
proof -
  from assms have t: "rootOf fs p = t_root t" "holdsNodes (t_pages t) (ctxNodes fs)" "t_pages t p = Some (Basic n)"
    and c: "ctxOk heads fs p lo up" "inFences lo up key" "leafOk n" "fenced lo up (Basic n)"
    by (simp_all add: atLeaf_def represents_plug)
  show "descend (t_pages t) key (t_root t) nullptr = Some (p, parentOf fs)"
    unfolding t(1) [symmetric]
    using descents_ctx [OF c(1,2) t(2)] leaf_not_inner [OF c(3)] t(3) by (simp add: descend.simps [of _ _ p] del: isAnyInner.simps)
  show "descendIndex (t_pages t) key (t_root t) nullptr 0 = Some (p, parentOf fs, indexOf fs)"
    unfolding t(1) [symmetric]
    using descents_ctx [OF c(1,2) t(2)] leaf_not_inner [OF c(3)] t(3) by (simp add: descendIndex.simps [of _ _ p] del: isAnyInner.simps)
  show "t_pages t p = Some (Basic n)" by (rule t(3))
  show "BTreeNode_covers n key" using c by (simp add: BTreeNode_covers_def fenced_def)
qed

subsection \<open>The entries of a tree are sorted\<close>

definition within :: "bytes \<Rightarrow> bytes \<Rightarrow> entry list \<Rightarrow> bool" where
  "within lo up es \<longleftrightarrow> sorted_wrt (<) (map fst es) \<and> (\<forall>k \<in> fst ` set es. inFences lo up k)"

lemma within_append:
  assumes "within lo m es" "within m up fs" "m \<noteq> []" "lo = [] \<or> lo \<le> m" "up = [] \<or> m \<le> up"
  shows "within lo up (es @ fs)"
  using assms unfolding within_def inFences_def
  by (auto simp: sorted_wrt_append dest: order_le_less_trans order_trans)

lemma leaf_within: "leafOk n \<Longrightarrow> fenced lo up (Basic n) \<Longrightarrow> within lo up (fullEntries n)"
  using inv_facts(2) [of n] by (auto simp: leafOk_def leafInv_def fenced_def within_def keysInFences_def)

lemma wf_gap: "wfTree heads lo up T \<Longrightarrow> up = [] \<or> lo < up"
  by (cases T) (auto simp: fenced_def)

lemma wfs_gap: "wfForest heads lo us cs \<Longrightarrow> us \<noteq> [] \<Longrightarrow> [] \<notin> set (butlast us) \<Longrightarrow> last us = [] \<or> lo < last us"
proof (induction us arbitrary: lo cs)
  case (Cons u us)
  then obtain c cs' where c: "cs = c # cs'" "wfTree heads lo u c" "wfForest heads u us cs'" by (cases cs) auto
  show ?case
  proof (cases "us = []")
    case False
    with Cons.prems have "u \<noteq> []" "[] \<notin> set (butlast us)" by auto
    with Cons.IH [OF c(3) False] wf_gap [OF c(2)] False show ?thesis by (auto intro: order_less_trans)
  qed (use wf_gap [OF c(2)] in simp)
qed simp

lemma wf_within: "wfTree heads lo up T \<Longrightarrow> within lo up (treeEntries T)"
  and wfs_within: "wfForest heads lo us cs \<Longrightarrow> us \<noteq> [] \<Longrightarrow> [] \<notin> set (butlast us) \<Longrightarrow>
    within lo (last us) (concat (map treeEntries cs))"
proof (induction heads lo up T and heads lo us cs rule: wfTree_wfForest.induct)
  case (2 heads lo up p n cs)
  then have "[] \<notin> set (nodeSeps n)" by (simp add: innerOk_def)
  with 2 show ?case by simp
next
  case (4 heads lo u us c cs)
  show ?case
  proof (cases "us = []")
    case True
    with 4 show ?thesis by (cases cs) auto
  next
    case False
    with 4 have w: "within lo u (treeEntries c)" "within u (last us) (concat (map treeEntries cs))"
      "u \<noteq> []" "lo < u" "last us = [] \<or> u < last us"
      using wf_gap [of heads lo u c] wfs_gap [of heads u us cs] by auto
    with within_append [OF w(1,2,3)] False show ?thesis by (auto simp: less_imp_le)
  qed
qed (auto simp: leaf_within)

lemma ctx_sides:
  assumes "ctxOk heads fs q lo up"
  shows "(lo = [] \<longrightarrow> leavesLeft fs = []) \<and> (\<forall>k \<in> fst ` set (leafEntries (leavesLeft fs)). k \<le> lo) \<and>
    (up = [] \<longrightarrow> leavesRight fs = []) \<and> (\<forall>k \<in> fst ` set (leafEntries (leavesRight fs)). up < k)"
  using assms
proof (induction fs arbitrary: q lo up)
  case (Cons f fs)
  obtain p n ls rs where f: "f = (p, n, ls, rs)" by (cases f)
  from Cons.prems(1) obtain lo' up' where fo: "frameOk heads (p, n, ls, rs) q lo up lo' up'" "ctxOk heads fs p lo' up'"
    by (auto simp: f)
  note fr = frame_fences [OF fo(1)] and IH = Cons.IH [OF fo(2)]
  from fo(1) obtain us vs where w: "nodeSeps n @ [up'] = us @ up # vs" "lo = last (lo' # us)"
    "wfForest heads lo' us ls" "wfForest heads up vs rs" and n: "innerOk heads n" "fenced lo' up' n" by auto
  have nz: "[] \<notin> set (nodeSeps n)" using n(1) by (simp add: innerOk_def)
  have vs: "vs \<noteq> [] \<Longrightarrow> last vs = up' \<and> set (butlast vs) \<subseteq> set (nodeSeps n)"
    using arg_cong [OF w(1), of last] arg_cong [OF w(1), of butlast] by (auto simp: butlast_append)
  have us: "set us \<subseteq> set (nodeSeps n)"
    using arg_cong [OF w(1), of butlast] by (auto simp: butlast_append split: if_splits)
  have es: "leafEntries (concat (map leaves cs)) = concat (map treeEntries cs)" for cs
    using treeEntries_simps(2) [of _ _ cs] by (simp add: treeEntries_def)
  have left: "within lo' lo (concat (map treeEntries ls))" if "ls \<noteq> []"
    using wfs_within [OF w(3)] wfs_length [OF w(3)] that us nz w(2) by (auto dest: in_set_butlastD)
  have right: "within up up' (concat (map treeEntries rs))" if "rs \<noteq> []"
  proof -
    have "vs \<noteq> []" using wfs_length [OF w(4)] that by auto
    with vs [OF this] nz wfs_within [OF w(4)] show ?thesis by auto
  qed
  have lol: "lo \<noteq> []" if "ls \<noteq> []" using fr(6) that by auto
  show ?case
  proof (intro conjI)
    show "lo = [] \<longrightarrow> leavesLeft (f # fs) = []" using IH fr(3) lol by (cases "ls = []") (auto simp: f)
    show "up = [] \<longrightarrow> leavesRight (f # fs) = []" using IH fr(4,5) by (auto simp: f)
    show "\<forall>k \<in> fst ` set (leafEntries (leavesLeft (f # fs))). k \<le> lo"
    proof
      fix k assume "k \<in> fst ` set (leafEntries (leavesLeft (f # fs)))"
      then consider "k \<in> fst ` set (leafEntries (leavesLeft fs))"
        | "ls \<noteq> []" "k \<in> fst ` set (concat (map treeEntries ls))"
        by (cases "ls = []") (auto simp: f es)
      then show "k \<le> lo"
      proof cases
        case 1
        with IH have "lo' \<noteq> []" "k \<le> lo'" by auto
        with fr(3) show ?thesis by (auto intro: order_trans)
      next
        case 2
        with left lol show ?thesis unfolding within_def inFences_def by blast
      qed
    qed
    show "\<forall>k \<in> fst ` set (leafEntries (leavesRight (f # fs))). up < k"
    proof
      fix k assume "k \<in> fst ` set (leafEntries (leavesRight (f # fs)))"
      then consider "k \<in> fst ` set (leafEntries (leavesRight fs))"
        | "rs \<noteq> []" "k \<in> fst ` set (concat (map treeEntries rs))"
        by (cases "rs = []") (auto simp: f es)
      then show "up < k"
      proof cases
        case 1
        with IH have "up' \<noteq> []" "up' < k" by auto
        with fr(4) show ?thesis by (auto intro: order_le_less_trans)
      next
        case 2
        with right fr(5) show ?thesis unfolding within_def inFences_def by blast
      qed
    qed
  qed
qed simp

definition treeContent :: "ntree \<Rightarrow> leaf_content" where
  "treeContent T = map_of (treeEntries T)"

text \<open>What the content of the whole tree says of a key is what the leaf of the key says.\<close>

lemma content_leaf:
  assumes "ctxOk heads fs p lo up" "inFences lo up key"
  shows "treeContent (plug fs (Leaf p n)) key = BTreeNode_content n key"
    and "k \<in> fst ` set (leafEntries (leavesLeft fs)) \<Longrightarrow> k < key"
    and "k \<in> fst ` set (leafEntries (leavesRight fs)) \<Longrightarrow> key < k"
proof -
  note sides = ctx_sides [OF assms(1)]
  show left: "k < key" if "k \<in> fst ` set (leafEntries (leavesLeft fs))" for k
    using sides assms(2) that by (auto simp: inFences_def dest: order_le_less_trans)
  show right: "key < k" if "k \<in> fst ` set (leafEntries (leavesRight fs))" for k
    using sides assms(2) that by (auto simp: inFences_def dest: order_le_less_trans)
  have "map_of (leafEntries (leavesLeft fs)) key = None" "map_of (leafEntries (leavesRight fs)) key = None"
    using left [of key] right [of key] by (auto simp: map_of_eq_None_iff)
  then show "treeContent (plug fs (Leaf p n)) key = BTreeNode_content n key"
    by (simp add: treeContent_def treeEntries_plug BTreeNode_content_def map_add_def split: option.split)
qed

text \<open>So a change of that one leaf at the key is that change of the whole.\<close>

lemma content_update:
  assumes "ctxOk heads fs p lo up" "inFences lo up key" "fenced lo up (Basic n)" "fenced lo up (Basic n')" "leafOk n" "leafOk n'"
    and upd: "BTreeNode_content n' = (BTreeNode_content n)(key := r)"
  shows "treeContent (plug fs (Leaf p n')) = (treeContent (plug fs (Leaf p n)))(key := r)"
proof
  fix k
  show "treeContent (plug fs (Leaf p n')) k = ((treeContent (plug fs (Leaf p n)))(key := r)) k"
  proof (cases "inFences lo up k")
    case True
    then show ?thesis using content_leaf(1) [OF assms(1)] upd by simp
  next
    case False
    then have "k \<notin> fst ` set (fullEntries n)" "k \<notin> fst ` set (fullEntries n')"
      using leaf_within assms(3-6) by (auto simp: within_def)
    then have "map_of (fullEntries n) k = None" "map_of (fullEntries n') k = None"
      by (simp_all add: map_of_eq_None_iff)
    moreover have "k \<noteq> key" using False assms(2) by auto
    ultimately show ?thesis
      by (simp add: treeContent_def treeEntries_plug map_add_def split: option.split)
  qed
qed

end
