(* ===== verification/TreeLookup.thy ===== *)
theory TreeLookup
  imports TreeHeap
begin

text \<open>
  Lookups and range lookups of the tree. The leaves in order form a chain in which the upper fence of
  one is the lower fence of the next; a range lookup goes along that chain with the fence it has
  reached as its next search key.
\<close>

text \<open>The configurations of \<open>config.hpp\<close> in which leaves stay \<open>BTreeNode\<close>s. Inner pages may have any layout.\<close>

definition basicLeaves :: "config \<Rightarrow> bool" where
  "basicLeaves cfg \<longleftrightarrow> \<not> enableDense cfg \<and> \<not> enableDense2 cfg \<and> \<not> enableHash cfg \<and>
     \<not> enableHashAdapt cfg \<and> \<not> enableDensifySplit cfg \<and> \<not> enableAdaptOp cfg"

subsection \<open>Lookup\<close>

lemma lookupImpl_content:
  assumes "\<not> enableAdaptOp cfg" "represents t T" "wfTree heads [] [] T"
  shows "lookupImpl cfg env key t = Some (treeContent T key, t)"
proof -
  obtain fs p n lo up where T: "T = plug fs (Leaf p n)" and at: "atLeaf heads t key fs p n lo up"
    by (rule atLeaf_exists [OF assms(2,3)])
  note d = atLeaf_descend [OF at]
  have "BTreeNode_lookup key n = BTreeNode_content n key"
    using at d(4) lookup_content by (simp add: atLeaf_def leafOk_def leafInv_def)
  also have "\<dots> = treeContent T key"
    using content_leaf(1) [of heads fs p lo up key] at by (simp add: atLeaf_def T)
  finally show ?thesis
    using assms(1) d(1,3) by (simp add: lookupImpl_def point_op_def writePage_same)
qed

subsection \<open>The chain of leaves\<close>

fun leafChain :: "bytes \<Rightarrow> bytes \<Rightarrow> (ptr \<times> BTreeNode) list \<Rightarrow> bool" where
  "leafChain lo up [] \<longleftrightarrow> False"
| "leafChain lo up [(p, n)] \<longleftrightarrow> fenced lo up (Basic n)"
| "leafChain lo up ((p, n) # x # xs) \<longleftrightarrow> (\<exists>m. m \<noteq> [] \<and> fenced lo m (Basic n) \<and> leafChain m up (x # xs))"

lemma leafChain_append:
  "leafChain lo m xs \<Longrightarrow> m \<noteq> [] \<Longrightarrow> leafChain m up ys \<Longrightarrow> leafChain lo up (xs @ ys)"
proof (induction lo m xs rule: leafChain.induct)
  case (2 lo m p n)
  then show ?case by (cases ys) auto
qed auto

lemma wf_leafChain: "wfTree heads lo up T \<Longrightarrow> leafChain lo up (leaves T)"
  and wfs_leafChain: "wfForest heads lo us cs \<Longrightarrow> us \<noteq> [] \<Longrightarrow> [] \<notin> set (butlast us) \<Longrightarrow>
    leafChain lo (last us) (concat (map leaves cs))"
proof (induction heads lo up T and heads lo us cs rule: wfTree_wfForest.induct)
  case (2 heads lo up p n cs)
  then show ?case by (simp add: innerOk_def)
next
  case (4 heads lo u us c cs)
  show ?case
  proof (cases "us = []")
    case True
    with 4 show ?thesis by (cases cs) auto
  next
    case False
    with 4 show ?thesis by (auto intro: leafChain_append)
  qed
qed auto

lemma leafChain_drop:
  "leafChain lo up (xs @ y # ys) \<Longrightarrow> \<exists>m. leafChain m up (y # ys) \<and> (xs \<noteq> [] \<longrightarrow> m \<noteq> [] \<and> lo < m)"
proof (induction xs arbitrary: lo)
  case (Cons x xs)
  obtain p n where x: "x = (p, n)" by force
  from Cons.prems obtain m where m: "m \<noteq> []" "fenced lo m (Basic n)" "leafChain m up (xs @ y # ys)"
    by (cases xs) (auto simp: x)
  from Cons.IH [OF m(3)] show ?case
  proof (cases "xs = []")
    case False
    with Cons.IH [OF m(3)] m(1,2) show ?thesis by (auto simp: fenced_def intro: order_less_trans)
  qed (use m in \<open>auto simp: fenced_def\<close>)
qed auto

lemma leafChain_head: "leafChain lo up ((p, n) # ys) \<Longrightarrow> fenced lo (BTreeNode_getUpperFence n) (Basic n)"
  by (cases ys) (auto simp: fenced_def)

lemma leafChain_less:
  assumes "leafChain lo up (xs @ (p, n) # ys @ (q, m) # zs)"
  shows "BTreeNode_getUpperFence n \<noteq> [] \<and> BTreeNode_getUpperFence n \<le> BTreeNode_getLowerFence m"
proof -
  from leafChain_drop [OF assms] obtain lo' where c: "leafChain lo' up ((p, n) # ys @ (q, m) # zs)" by auto
  then obtain u where u: "u \<noteq> []" "fenced lo' u (Basic n)" "leafChain u up (ys @ (q, m) # zs)" by (cases ys) auto
  from leafChain_drop [OF u(3)] obtain l where l: "leafChain l up ((q, m) # zs)" "ys \<noteq> [] \<longrightarrow> u < l" by auto
  moreover have "ys = [] \<longrightarrow> leafChain u up ((q, m) # zs)" using u(3) by auto
  ultimately show ?thesis using u(1,2) leafChain_head
    by (cases "ys = []") (auto simp: fenced_def less_imp_le dest!: leafChain_head)
qed

text \<open>A key belongs to one leaf only.\<close>

lemma leafChain_unique:
  assumes "leafChain lo up ls" "ls = xs @ (p, n) # ys" "ls = xs' @ (p', n') # ys'"
    and "BTreeNode_covers n key" "BTreeNode_covers n' key"
  shows "xs = xs' \<and> ys = ys'"
proof -
  have no: False if "leafChain lo up (as @ (p, n) # bs @ (p', n') # cs)"
    "BTreeNode_covers n key" "BTreeNode_covers n' key" for as bs cs p p' n n'
    using leafChain_less [OF that(1)] that(2,3) by (auto simp: BTreeNode_covers_def inFences_def)
  from assms(2,3) have eq: "xs @ (p, n) # ys = xs' @ (p', n') # ys'" by simp
  then consider "xs = xs'" "ys = ys'"
    | zs where "xs' = xs @ (p, n) # zs" | zs where "xs = xs' @ (p', n') # zs"
    by (fastforce simp: append_eq_append_conv2 append_eq_Cons_conv Cons_eq_append_conv)
  then show ?thesis
  proof cases
    case 2
    with assms(1,3-5) no [of xs p n zs p' n' ys'] show ?thesis by simp
  next
    case 3
    with assms(1,2,4,5) no [of xs' p' n' zs p n ys] show ?thesis by simp
  qed simp
qed

lemma fence_neighbours:
  assumes at: "atLeaf heads t key fs p n lo up" and leaves: "leavesLeft fs = ls" "leavesRight fs = rs"
  shows "leafChain [] [] (ls @ (p, n) # rs)"
    and "up \<noteq> [] \<Longrightarrow> \<exists>q m rs'. rs = (q, m) # rs' \<and> BTreeNode_covers m (up @ [0])"
    and "lo \<noteq> [] \<Longrightarrow> \<exists>q m ls'. ls = ls' @ [(q, m)] \<and> BTreeNode_covers m lo"
proof -
  from at have f: "fenced lo up (Basic n)" and ctx: "ctxOk heads fs p lo up" and ok: "leafOk n" by (auto simp: atLeaf_def)
  have "wfTree heads [] [] (plug fs (Leaf p n))" by (rule wf_plug) (use ctx ok f in auto)
  then show chain: "leafChain [] [] (ls @ (p, n) # rs)"
    using wf_leafChain leaves leaves_plug [of fs "Leaf p n"] by fastforce
  show "\<exists>q m rs'. rs = (q, m) # rs' \<and> BTreeNode_covers m (up @ [0])" if up: "up \<noteq> []"
  proof -
    from leafChain_drop [OF chain] obtain lo' where c: "leafChain lo' [] ((p, n) # rs)" by blast
    then obtain x rs' where rs: "rs = x # rs'" using up f by (cases rs) (auto simp: fenced_def)
    obtain q m where x: "x = (q, m)" by force
    from c have "leafChain up [] ((q, m) # rs')" using f by (auto simp: rs x fenced_def)
    then have m: "fenced up (BTreeNode_getUpperFence m) (Basic m)" by (rule leafChain_head)
    have "up @ [0] \<le> k" if "up < k" for k
    proof -
      have "up @ [0] \<le> k" if "up < k" for up k :: bytes
        using that by (induction up k rule: list_induct2') (auto simp: word_neq_0_conv)
      then show ?thesis using that .
    qed
    then have "BTreeNode_covers m (up @ [0])"
      using m less_append1 [of "[0]" up] by (auto simp: BTreeNode_covers_def inFences_def fenced_def)
    then show ?thesis by (auto simp: rs x)
  qed
  show "\<exists>q m ls'. ls = ls' @ [(q, m)] \<and> BTreeNode_covers m lo" if lo: "lo \<noteq> []"
  proof (cases ls rule: rev_cases)
    case Nil
    with chain have "fenced [] (BTreeNode_getUpperFence n) (Basic n)" using leafChain_head by fastforce
    with lo f show ?thesis by (simp add: fenced_def)
  next
    case (snoc ls' x)
    obtain q m where x: "x = (q, m)" by force
    from chain snoc x have "leafChain [] [] (ls' @ (q, m) # (p, n) # rs)" by simp
    from leafChain_drop [OF this] obtain lo' where "leafChain lo' [] ((q, m) # (p, n) # rs)" by blast
    then obtain u where "u \<noteq> []" "fenced lo' u (Basic m)" "leafChain u [] ((p, n) # rs)" by auto
    then have "u = lo" "fenced lo' lo (Basic m)" "lo \<noteq> []" using f leafChain_head by (fastforce simp: fenced_def)+
    then have "BTreeNode_covers m lo" by (auto simp: BTreeNode_covers_def inFences_def fenced_def)
    then show ?thesis by (auto simp: snoc x)
  qed
qed

text \<open>So the descent for such a key ends at the neighbour.\<close>

lemma next_leaf:
  assumes at: "atLeaf heads t key fs p n lo up" and up: "up \<noteq> []"
  obtains fs' q m lo' up' where "atLeaf heads t (up @ [0]) fs' q m lo' up'"
    "plug fs' (Leaf q m) = plug fs (Leaf p n)" "leavesRight fs = (q, m) # leavesRight fs'" "lo' = up"
proof -
  let ?T = "plug fs (Leaf p n)"
  from at have rep: "represents t ?T" and wfT: "wfTree heads [] [] ?T"
    by (auto simp: atLeaf_def intro: wf_plug)
  obtain fs' q' m' lo' up' where T: "?T = plug fs' (Leaf q' m')" and at': "atLeaf heads t (up @ [0]) fs' q' m' lo' up'"
    by (rule atLeaf_exists [OF rep wfT])
  note chain = fence_neighbours [OF at refl refl]
  from chain(2) [OF up] obtain q m rs where rs: "leavesRight fs = (q, m) # rs" "BTreeNode_covers m (up @ [0])"
    by blast
  have eq: "leavesLeft fs @ (p, n) # leavesRight fs = leavesLeft fs' @ (q', m') # leavesRight fs'"
    using arg_cong [OF T, of leaves] by (simp add: leaves_plug)
  have "leavesLeft fs @ [(p, n)] = leavesLeft fs' \<and> rs = leavesRight fs'"
    by (rule leafChain_unique [OF chain(1) _ eq rs(2) atLeaf_descend(4) [OF at']]) (simp add: rs(1))
  with eq rs have r: "leavesRight fs = (q', m') # leavesRight fs'" by simp
  have "leafChain [] [] (leavesLeft fs @ (p, n) # (q', m') # leavesRight fs')" using chain(1) r by simp
  from leafChain_drop [OF this] obtain l where "leafChain l [] ((p, n) # (q', m') # leavesRight fs')" by blast
  then obtain u where "fenced l u (Basic n)" "leafChain u [] ((q', m') # leavesRight fs')" by auto
  then have "lo' = up" using leafChain_head [of u "[]" q' m' "leavesRight fs'"] at at' by (auto simp: fenced_def atLeaf_def)
  with that [OF at' T [symmetric] r] show thesis .
qed

lemma previous_leaf:
  assumes at: "atLeaf heads t key fs p n lo up" and lo: "lo \<noteq> []"
  obtains fs' q m lo' up' where "atLeaf heads t lo fs' q m lo' up'"
    "plug fs' (Leaf q m) = plug fs (Leaf p n)" "leavesLeft fs = leavesLeft fs' @ [(q, m)]"
proof -
  let ?T = "plug fs (Leaf p n)"
  from at have rep: "represents t ?T" and wfT: "wfTree heads [] [] ?T"
    by (auto simp: atLeaf_def intro: wf_plug)
  obtain fs' q' m' lo' up' where T: "?T = plug fs' (Leaf q' m')" and at': "atLeaf heads t lo fs' q' m' lo' up'"
    by (rule atLeaf_exists [OF rep wfT])
  note chain = fence_neighbours [OF at refl refl]
  from chain(3) [OF lo] obtain q m ls where ls: "leavesLeft fs = ls @ [(q, m)]" "BTreeNode_covers m lo"
    by blast
  have eq: "leavesLeft fs @ (p, n) # leavesRight fs = leavesLeft fs' @ (q', m') # leavesRight fs'"
    using arg_cong [OF T, of leaves] by (simp add: leaves_plug)
  have "ls = leavesLeft fs' \<and> (p, n) # leavesRight fs = leavesRight fs'"
    by (rule leafChain_unique [OF chain(1) _ eq ls(2) atLeaf_descend(4) [OF at']]) (simp add: ls(1))
  with eq ls have "leavesLeft fs = leavesLeft fs' @ [(q', m')]" by auto
  with that [OF at' T [symmetric]] show thesis by blast
qed

subsection \<open>Range lookups\<close>

lemma buffer_fence:
  assumes "p \<le> length fence" "load m 0 p = take p fence"
  shows "load (store (store m p (drop p fence)) (length fence) [0]) 0 (length fence + 1) = fence @ [0]"
proof -
  let ?m = "store m p (drop p fence)"
  have "load ?m 0 (length fence) = load ?m 0 p @ load ?m p (length fence - p)"
    using load_add [of ?m 0 p "length fence - p"] assms(1) by simp
  also have "\<dots> = take p fence @ drop p fence"
    using assms(2) by (simp add: load_store_other load_store_same)
  finally have m: "load ?m 0 (length fence) = fence" by simp
  have "load (store ?m (length fence) [0]) 0 (length fence + 1) =
      load (store ?m (length fence) [0]) 0 (length fence) @ load (store ?m (length fence) [0]) (length fence) 1"
    using load_add [of "store ?m (length fence) [0]" 0 "length fence" 1] by simp
  also have "\<dots> = fence @ [0]" using m by (simp add: load_store_other load_store_same)
  finally show ?thesis .
qed

lemma nextSearchKey_load:
  assumes inv: "BTreeNode_inv n" and k: "load keyOut 0 (b_prefixLength n) = BTreeNode_getPrefix n"
    and up: "BTreeNode_getUpperFence n = up"
  shows "load (nextSearchKey (Basic n) keyOut) 0 (length up + 1) = up @ [0]"
proof -
  note ok = inv_facts(1) [OF inv]
  have "b_prefixLength n \<le> length up" using pageOk_bounds(4) [OF ok] up by auto
  moreover have "load keyOut 0 (b_prefixLength n) = take (b_prefixLength n) up"
    using k getPrefix_take(2) [OF ok] up by simp
  ultimately show ?thesis by (simp only: nextSearchKey_def up Let_def leafPrefixLength.simps leafUpperFence.simps buffer_fence)
qed

lemma covered_prefix:
  assumes inv: "BTreeNode_inv n" and cov: "BTreeNode_covers n key" and k: "load m 0 l = key" "l = length key"
  shows "load m 0 (b_prefixLength n) = BTreeNode_getPrefix n"
proof -
  note p = inFences_getPrefix [OF inv_facts(1) [OF inv] cov [unfolded BTreeNode_covers_def]]
  have "load m 0 (b_prefixLength n) = take (b_prefixLength n) (load m 0 l)"
    using p(1) k(2) by (simp add: min_absorb1)
  also have "\<dots> = take (b_prefixLength n) key" by (simp only: k(1))
  also have "\<dots> = BTreeNode_getPrefix n" by (metis append_eq_conv_conj length_getPrefix p(2))
  finally show ?thesis .
qed

text \<open>The scan of a leaf: from the start key in the first leaf, whole in the others.\<close>

definition scanFrom :: "bytes option \<Rightarrow> entry list \<Rightarrow> entry list" where
  "scanFrom key es = (case key of None \<Rightarrow> es | Some k \<Rightarrow> filter (\<lambda>(k', _). k \<le> k') es)"

lemma leafRange_scan:
  assumes cfg: "\<not> enableAdaptOp cfg" and leaf: "leafInv n"
    and key: "case leafKey of None \<Rightarrow> True | Some k \<Rightarrow> BTreeNode_covers n k"
    and pre: "load keyOut 0 (b_prefixLength n) = BTreeNode_getPrefix n"
  obtains c keyOut1 s1 where "leafRange cfg env leafKey cb (Basic n) r keyOut s = Some ((c, keyOut1, s1), Basic n, r)"
    "(c, s1) = scan cb (scanFrom leafKey (fullEntries n)) s"
    "load keyOut1 0 (b_prefixLength n) = BTreeNode_getPrefix n"
proof -
  obtain c keyOut1 s1 n1 r1 where res: "BTreeNode_range_lookup cfg leafKey cb n r keyOut s = ((c, keyOut1, s1), n1, r1)"
    by (metis prod_cases3)
  then have n1: "n1 = n" "r1 = r" using cfg by (auto simp: BTreeNode_range_lookup_def range_op_def)
  have "(c, s1) = scan cb (scanFrom leafKey (fullEntries n)) s \<and>
      load keyOut1 0 (b_prefixLength n) = BTreeNode_getPrefix n"
  proof (cases leafKey)
    case None
    then have "BTreeNode_range_loop n cb 0 keyOut s = (c, keyOut1, s1)"
      using res cfg by (auto simp: BTreeNode_range_lookup_def range_op_def)
    from range_loop_scan [OF pre this] None show ?thesis by (simp add: scanFrom_def)
  next
    case (Some k)
    with key res have k: "BTreeNode_covers n k"
      "BTreeNode_range_lookup cfg (Some k) cb n r keyOut s = ((c, keyOut1, s1), n1, r1)" by simp_all
    show ?thesis using range_lookup_scan(1,2) [OF leaf k(1) pre k(2)] Some unfolding scanFrom_def by simp
  qed
  with that [of c keyOut1 s1] res n1 show thesis by (simp add: leafRange_def)
qed

text \<open>Watching how far the buffer is written does not change the scan; the mark never falls and stays below the
  bound of the keys.\<close>

lemma watch_pair: "watch cb k v (s, m) = (let (c, s1) = cb k v s in (c, (s1, max m (length k))))"
  by (simp add: watch_def)

lemma scan_watch:
  assumes "\<forall>(k, v) \<in> set es. length k \<le> B"
  obtains m' where "scan (watch cb) es (s, m) = (fst (scan cb es s), (snd (scan cb es s), m'))" "m \<le> m'" "m' \<le> max m B"
proof -
  have "\<exists>m'. scan (watch cb) es (s, m) = (fst (scan cb es s), (snd (scan cb es s), m')) \<and> m \<le> m' \<and> m' \<le> max m B"
    using assms
  proof (induction es arbitrary: s m)
    case (Cons e es)
    obtain k v c s1 where e: "e = (k, v)" "cb k v s = (c, s1)" by (metis prod.exhaust)
    from Cons.IH [of s1 "max m (length k)"] Cons.prems obtain m' where
      "scan (watch cb) es (s1, max m (length k)) = (fst (scan cb es s1), (snd (scan cb es s1), m'))"
      "max m (length k) \<le> m'" "m' \<le> max (max m (length k)) B" by auto
    with e Cons.prems show ?case by (cases c) (auto simp: watch_pair max_def split: if_splits)
  qed simp
  with that show thesis by blast
qed

lemma scan_leaf_watch:
  assumes "leafOk n"
  obtains m' where "scan (watch cb) (scanFrom key (fullEntries n)) (s, m) =
      (fst (scan cb (scanFrom key (fullEntries n)) s), (snd (scan cb (scanFrom key (fullEntries n)) s), m'))"
    "m \<le> m'" "m' \<le> max m maxEntry"
proof (rule scan_watch)
  show "\<forall>(k, v) \<in> set (scanFrom key (fullEntries n)). length k \<le> maxEntry"
    using assms by (cases key) (fastforce simp: leafOk_def scanFrom_def)+
qed (rule that)

lemma rangeLoop_scan:
  assumes "\<not> enableAdaptOp cfg" "atLeaf heads t key fs p n lo up"
    and "load keyOut 0 keyLen = key" "keyLen = length key" "leafKey = None \<or> leafKey = Some key"
  shows "\<exists>m'. rangeLoop cfg env leafKey keyLen cb keyOut (s, m) t =
      Some ((snd (scan cb (scanFrom leafKey (fullEntries n) @ leafEntries (leavesRight fs)) s), m'), t) \<and>
    m \<le> m' \<and> m' \<le> max m (maxEntry + 1)"
  using assms
proof (induction fs arbitrary: p n lo up key keyOut keyLen leafKey s m
    rule: measure_induct_rule [where f = "\<lambda>fs. length (leavesRight fs)"])
  case (less fs)
  note at = less.prems(2)
  note d = atLeaf_descend [OF at]
  from at have ok: "leafOk n" and n: "leafInv n" "BTreeNode_inv n" "fenced lo up (Basic n)" by (auto simp: atLeaf_def leafOk_def leafInv_def)
  have key: "case leafKey of None \<Rightarrow> True | Some k \<Rightarrow> BTreeNode_covers n k" using less.prems(5) d(4) by auto
  obtain c keyOut1 sm1 where lr: "leafRange cfg env leafKey (watch cb) (Basic n) (t_rng t) keyOut (s, m) =
      Some ((c, keyOut1, sm1), Basic n, t_rng t)"
    and sc: "(c, sm1) = scan (watch cb) (scanFrom leafKey (fullEntries n)) (s, m)"
    and pre: "load keyOut1 0 (b_prefixLength n) = BTreeNode_getPrefix n"
    by (rule leafRange_scan [OF less.prems(1) n(1) key covered_prefix [OF n(2) d(4) less.prems(3,4)]])
  obtain m1 where m1: "scan (watch cb) (scanFrom leafKey (fullEntries n)) (s, m) =
      (fst (scan cb (scanFrom leafKey (fullEntries n)) s), (snd (scan cb (scanFrom leafKey (fullEntries n)) s), m1))"
    "m \<le> m1" "m1 \<le> max m maxEntry" by (rule scan_leaf_watch [OF ok])
  obtain s1 where s1: "scan cb (scanFrom leafKey (fullEntries n)) s = (c, s1)" "sm1 = (s1, m1)"
    using sc m1(1) by (metis prod.collapse prod.inject)
  have up: "leafUpperFence (Basic n) = up" "length up \<le> maxEntry" using n(3) by (simp_all add: fenced_def)
  let ?m2 = "max m1 (length up + 1)"
  let ?next = "rangeLoop cfg env None (length up + 1) cb (nextSearchKey (Basic n) keyOut1) (s1, ?m2) t"
  have step: "rangeLoop cfg env leafKey keyLen cb keyOut (s, m) t =
      (if \<not> c then Some ((s1, m1), t) else if length up = 0 then Some ((s1, ?m2), t) else ?next)"
    using d(1,3) lr up(1) less.prems(3)
    by (simp add: rangeLoop.simps [of _ _ leafKey] writePage_same leafEnters_def s1(2))
  have m2: "m \<le> ?m2" "?m2 \<le> max m (maxEntry + 1)" "m1 \<le> max m (maxEntry + 1)" using m1(2,3) up(2) by (simp_all add: max_def split: if_splits)
  show ?case
  proof (cases "c \<and> up \<noteq> []")
    case False
    have "up = [] \<Longrightarrow> leavesRight fs = []" using at ctx_sides [of heads fs p lo up] by (simp add: atLeaf_def)
    with step s1(1) False m1(2) m2 show ?thesis by (auto simp: scan_append)
  next
    case True
    then obtain fs' q r lo' up' where nxt: "atLeaf heads t (up @ [0]) fs' q r lo' up'"
      "leavesRight fs = (q, r) # leavesRight fs'"
      using next_leaf [OF at] by metis
    have k: "load (nextSearchKey (Basic n) keyOut1) 0 (length up + 1) = up @ [0]"
      by (rule nextSearchKey_load [OF n(2) pre]) (use n(3) in \<open>simp add: fenced_def\<close>)
    have "\<exists>m'. ?next = Some ((snd (scan cb (scanFrom None (fullEntries r) @ leafEntries (leavesRight fs')) s1), m'), t) \<and>
        ?m2 \<le> m' \<and> m' \<le> max ?m2 (maxEntry + 1)"
      by (rule less.IH [OF _ less.prems(1) nxt(1) k]) (use nxt(2) in auto)
    then obtain m' where m': "?next = Some ((snd (scan cb (scanFrom None (fullEntries r) @ leafEntries (leavesRight fs')) s1), m'), t)"
      "?m2 \<le> m'" "m' \<le> max ?m2 (maxEntry + 1)" by blast
    have "m \<le> m'" "m' \<le> max m (maxEntry + 1)" using m'(2,3) m2 by linarith+
    with step s1(1) True nxt(2) m'(1) show ?thesis by (intro exI [of _ m']) (simp add: scan_append scanFrom_def)
  qed
qed

lemma filter_ge_tree:
  assumes "ctxOk heads fs p lo up" "inFences lo up key"
  shows "filter (\<lambda>(k, _). key \<le> k) (treeEntries (plug fs (Leaf p n))) =
    scanFrom (Some key) (fullEntries n) @ leafEntries (leavesRight fs)"
proof -
  note c = content_leaf [OF assms]
  have "filter (\<lambda>(k, _). key \<le> k) (leafEntries (leavesLeft fs)) = []"
    using c(2) by (force simp: filter_empty_conv)
  moreover have "filter (\<lambda>(k, _). key \<le> k) (leafEntries (leavesRight fs)) = leafEntries (leavesRight fs)"
    using c(3) by (force simp: filter_id_conv)
  ultimately show ?thesis by (simp add: treeEntries_plug scanFrom_def)
qed

lemma filter_le_tree:
  assumes "ctxOk heads fs p lo up" "inFences lo up key"
  shows "filter (\<lambda>(k, _). k \<le> key) (treeEntries (plug fs (Leaf p n))) =
    leafEntries (leavesLeft fs) @ filter (\<lambda>(k, _). k \<le> key) (fullEntries n)"
proof -
  note c = content_leaf [OF assms]
  have "filter (\<lambda>(k, _). k \<le> key) (leafEntries (leavesRight fs)) = []"
    using c(3) by (force simp: filter_empty_conv)
  moreover have "filter (\<lambda>(k, _). k \<le> key) (leafEntries (leavesLeft fs)) = leafEntries (leavesLeft fs)"
    using c(2) by (force simp: filter_id_conv)
  ultimately show ?thesis by (simp add: treeEntries_plug)
qed

lemma range_lookupBuffer_scan:
  assumes "\<not> enableAdaptOp cfg" "represents t T" "wfTree heads [] [] T"
  obtains m where "range_lookupBuffer cfg env key cb t s =
      Some ((snd (scan cb (filter (\<lambda>(k, _). key \<le> k) (treeEntries T)) s), m), t)"
    "length key \<le> m" "m \<le> max (length key) (maxEntry + 1)"
proof -
  obtain fs p n lo up where T: "T = plug fs (Leaf p n)" and at: "atLeaf heads t key fs p n lo up"
    by (rule atLeaf_exists [OF assms(2,3)])
  have k: "load (store (\<lambda>_. 0) 0 key) 0 (length key) = key" by (simp add: load_store_same)
  have es: "scanFrom (Some key) (fullEntries n) @ leafEntries (leavesRight fs) = filter (\<lambda>(k, _). key \<le> k) (treeEntries T)"
    using at filter_ge_tree [of heads fs p lo up key n] by (simp add: atLeaf_def T)
  from rangeLoop_scan [OF assms(1) at k refl disjI2 [OF refl], of env cb s "length key"] that show thesis
    unfolding es range_lookupBuffer_def by blast
qed

lemma range_lookupImpl_scan:
  assumes "\<not> enableAdaptOp cfg" "represents t T" "wfTree heads [] [] T"
  shows "range_lookupImpl cfg env key cb t s =
    Some (snd (scan cb (filter (\<lambda>(k, _). key \<le> k) (treeEntries T)) s), t)"
  by (rule range_lookupBuffer_scan [OF assms, of env key cb s]) (simp add: range_lookupImpl_def)

text \<open>A buffer for the start key, the longest key and its zero byte is long enough; one that is shorter than the start
  key is not.\<close>

lemma range_lookupInto_scan:
  assumes "\<not> enableAdaptOp cfg" "represents t T" "wfTree heads [] [] T" "length key \<le> cap" "maxEntry < cap"
  shows "range_lookupInto cfg env cap key cb t s =
    Some (snd (scan cb (filter (\<lambda>(k, _). key \<le> k) (treeEntries T)) s), t)"
  by (rule range_lookupBuffer_scan [OF assms(1-3), of env key cb s])
    (use assms(4,5) in \<open>auto simp: range_lookupInto_def\<close>)

lemma range_lookupInto_overflow:
  assumes "\<not> enableAdaptOp cfg" "represents t T" "wfTree heads [] [] T" "cap < length key"
  shows "range_lookupInto cfg env cap key cb t s = None"
  by (rule range_lookupBuffer_scan [OF assms(1-3), of env key cb s])
    (use assms(4) in \<open>auto simp: range_lookupInto_def\<close>)

lemma rangeDescLoop_scan:
  assumes "atLeaf heads t key fs p n lo up"
  shows "rangeDescLoop env key cb keyOut s t =
    Some (snd (scan cb (rev (leafEntries (leavesLeft fs) @ filter (\<lambda>(k, _). k \<le> key) (fullEntries n))) s), t)"
  using assms
proof (induction fs arbitrary: p n lo up key keyOut s
    rule: measure_induct_rule [where f = "\<lambda>fs. length (leavesLeft fs)"])
  case (less fs)
  note at = less.prems
  note d = atLeaf_descend [OF at]
  from at have n: "leafInv n" "fenced lo up (Basic n)" by (auto simp: atLeaf_def leafOk_def)
  obtain c keyOut1 s1 where r: "BTreeNode_range_lookup_desc key cb n keyOut s = (c, keyOut1, s1)"
    by (metis prod_cases3)
  note sc = range_lookup_desc_scan [OF n(1) d(4) r]
  have lo: "leafLowerFence (Basic n) = lo" using n(2) by (simp add: fenced_def)
  let ?next = "rangeDescLoop env lo cb keyOut1 s1 t"
  have step: "rangeDescLoop env key cb keyOut s t =
      (if \<not> c then Some (s1, t) else if length lo = 0 then Some (s1, t) else ?next)"
    using d(1,3) r lo by (simp add: rangeDescLoop.simps [of _ key] writePage_same leafRangeDesc_def)
  show ?case
  proof (cases "c \<and> lo \<noteq> []")
    case False
    have "lo = [] \<Longrightarrow> leavesLeft fs = []" using at ctx_sides [of heads fs p lo up] by (simp add: atLeaf_def)
    with step sc False show ?thesis by (auto simp: scan_append split: prod.split)
  next
    case True
    then obtain fs' q m lo' up' where prev: "atLeaf heads t lo fs' q m lo' up'"
      "plug fs' (Leaf q m) = plug fs (Leaf p n)" "leavesLeft fs = leavesLeft fs' @ [(q, m)]"
      using previous_leaf [OF at] by metis
    have "k \<le> lo" if "k \<in> fst ` set (fullEntries m)" for k
      using ctx_sides [of heads fs p lo up] at that prev(3) by (auto simp: atLeaf_def)
    then have "filter (\<lambda>(k, _). k \<le> lo) (fullEntries m) = fullEntries m" by (force simp: filter_id_conv)
    then have "?next = Some (snd (scan cb (rev (leafEntries (leavesLeft fs') @ fullEntries m)) s1), t)"
      using less.IH [OF _ prev(1)] prev(3) by simp
    with step sc True prev(3) show ?thesis by (auto simp: scan_append split: prod.splits)
  qed
qed

lemma range_lookup_descImpl_scan:
  assumes "represents t T" "wfTree heads [] [] T"
  shows "range_lookup_descImpl env key cb t s =
    Some (snd (scan cb (rev (filter (\<lambda>(k, _). k \<le> key) (treeEntries T))) s), t)"
proof -
  obtain fs p n lo up where T: "T = plug fs (Leaf p n)" and at: "atLeaf heads t key fs p n lo up"
    by (rule atLeaf_exists [OF assms])
  show ?thesis
    unfolding range_lookup_descImpl_def T rangeDescLoop_scan [OF at]
    using at filter_le_tree [of heads fs p lo up key n] by (simp add: atLeaf_def)
qed

end
