(* ===== verification/TreeSplit.thy ===== *)
theory TreeSplit
  imports TreeLookup
begin

text \<open>
  Splitting one page of the tree: a page without room for an entry of at most \<open>maxEntry\<close> bytes holds
  many entries, its separator has enough of them on both sides for the two halves to fit, and the
  parent takes the separator between the fences of the page.
\<close>

subsection \<open>Pages that are full\<close>

lemma esize_truncated_antimono: "a \<le> b \<Longrightarrow> esize (truncated b es) \<le> esize (truncated a es)"
  by (induction es) (auto simp: truncated_def)

lemma full_leaf_count:
  assumes "leafOk n" "fenced lo up (Basic n)" "length key + length payload \<le> maxEntry" "b_prefixLength n \<le> length key"
    and "BTreeNode_freeSpaceAfterCompaction n < BTreeNode_spaceNeeded n (length key) (length payload)"
  shows "27 \<le> b_count n"
proof -
  have ok: "pageOk (b_count n) n" and es: "\<forall>(k, v) \<in> set (fullEntries n). length k + length v \<le> maxEntry"
    using assms(1) by (auto simp: leafOk_def leafInv_def BTreeNode_inv_def)
  have "BTreeNode_spaceNeeded n (length key) (length payload) \<le> 10 + maxEntry"
    using assms(3,4) by (simp add: spaceNeeded_eq maxEntry_def)
  then have "4004 < 10 + maxEntry + 2 * maxEntry + (10 + maxEntry) * b_count n"
    using full_page_count [OF ok assms(2) es assms(5)] by linarith
  then show ?thesis by (simp add: maxEntry_def)
qed

subsection \<open>Both halves fit\<close>

lemma truncated_take_entries: "truncated (b_prefixLength n) (take k (fullEntries n)) = take k (entries n)"
  unfolding truncated_fullEntries [symmetric] by (simp add: truncated_def take_map)

lemma truncated_drop_entries: "truncated (b_prefixLength n) (drop k (fullEntries n)) = drop k (entries n)"
  unfolding truncated_fullEntries [symmetric] by (simp add: truncated_def drop_map)

lemma halves_fit:
  assumes ok: "pageOk (b_count n) n" and f: "BTreeNode_getLowerFence n = lo" "BTreeNode_getUpperFence n = up"
    and sep: "inFences lo up sep" and k: "k \<le> b_count n"
  shows "length sep \<le> 10 * (b_count n - k) + esize (drop k (entries n)) \<Longrightarrow>
      fitsPage k lo sep (take k (fullEntries n))"
    and "length sep \<le> 10 * k + esize (take k (entries n)) \<Longrightarrow>
      fitsPage (b_count n - k) sep up (drop k (fullEntries n))"
proof -
  have pl: "b_prefixLength n = lcp lo up" using ok f by (simp add: pageOk_def)
  have es: "esize (entries n) = esize (take k (entries n)) + esize (drop k (entries n))"
    using esize_simps(3) [of "take k (entries n)" "drop k (entries n)"] by simp
  have cnt: "b_count n = k + (b_count n - k)" using k by simp
  have fl: "length lo = fk_length (b_lowerFence n)" "length up = fk_length (b_upperFence n)" using f by auto
  note room = pageOk_fullRoom(1) [OF ok]
  have "esize (truncated (lcp lo sep) (take k (fullEntries n))) \<le> esize (take k (entries n))"
    using esize_truncated_antimono [OF lcp_inside(1) [OF sep]] by (simp add: truncated_take_entries [symmetric] pl)
  then show "length sep \<le> 10 * (b_count n - k) + esize (drop k (entries n)) \<Longrightarrow>
      fitsPage k lo sep (take k (fullEntries n))"
    using room es cnt fl unfolding fitsPage_def by linarith
  have "esize (truncated (lcp sep up) (drop k (fullEntries n))) \<le> esize (drop k (entries n))"
    using esize_truncated_antimono [OF lcp_inside(2) [OF sep]] by (simp add: truncated_drop_entries [symmetric] pl)
  then show "length sep \<le> 10 * k + esize (take k (entries n)) \<Longrightarrow>
      fitsPage (b_count n - k) sep up (drop k (fullEntries n))"
    using room es cnt fl unfolding fitsPage_def by linarith
qed

lemma splitsAt_fences:
  assumes "keysInFences n" "fenced lo up (Basic n)" "splitsAt (fullEntries n) c sep" "0 < c" "c < b_count n"
  shows "inFences lo up sep" "lo < sep" "up = [] \<or> sep < up" "sep \<noteq> []"
proof -
  let ?a = "fst (fullEntries n ! 0)" and ?b = "fst (fullEntries n ! c)"
  have ne: "0 < b_count n" using assms(4,5) by simp
  have "fullEntries n ! 0 \<in> set (take c (fullEntries n))"
    using assms(4,5) ne by (auto simp: in_set_conv_nth intro!: exI [of _ 0])
  then have a: "?a \<le> sep" using assms(3) by (auto simp: splitsAt_def)
  have "fullEntries n ! c \<in> set (drop c (fullEntries n))"
    using assms(5) by (auto simp: in_set_conv_nth intro!: exI [of _ 0])
  then have b: "sep < ?b" using assms(3) by (auto simp: splitsAt_def)
  have "inFences lo up ?a" "inFences lo up ?b"
    using assms(1,2,5) ne unfolding keysInFences_def fenced_def leafLowerFence.simps leafUpperFence.simps by (metis image_eqI length_fullEntries nth_mem)+
  then have ab: "lo = [] \<or> lo < ?a" "up = [] \<or> ?b \<le> up" by (simp_all add: inFences_def)
  show ne: "sep \<noteq> []" using assms(3) by (simp add: splitsAt_def)
  show lo: "lo < sep"
  proof (cases "lo = []")
    case True
    with ne show ?thesis by (cases sep) auto
  next
    case False
    with ab(1) have "lo < ?a" by simp
    then show ?thesis using a by (rule order_less_le_trans)
  qed
  show up: "up = [] \<or> sep < up" using ab(2) b by (blast intro: order_less_le_trans)
  from lo up show "inFences lo up sep" by (auto simp: inFences_def)
qed

lemma esize_nonempty: "[] \<notin> set (map fst es) \<Longrightarrow> length es \<le> esize es"
proof (induction es)
  case (Cons e es)
  then have "1 \<le> length (fst e)" by (cases "fst e") auto
  moreover have "length es \<le> esize es" using Cons by simp
  ultimately show ?case unfolding esize_simps list.size by linarith
qed simp

text \<open>How much a page counts in the argument that splits are rare: what it holds above thirteen
  entries. A split frees at least twelve.\<close>

definition weight :: "nat \<Rightarrow> nat" where
  "weight c = c - 13"

lemma weight_split: "12 \<le> a \<Longrightarrow> 12 \<le> b \<Longrightarrow> a + b = c \<Longrightarrow> 26 \<le> c \<Longrightarrow> weight a + weight b + 12 \<le> weight c"
  by (simp add: weight_def)

subsection \<open>A full leaf\<close>

text \<open>The window in which the separator of a full leaf is searched leaves enough on both sides.\<close>

lemma window_sides:
  assumes "27 \<le> c" "c div 2 - c div 32 \<le> s" "s \<le> c div 2 - c div 32 + c div 16"
  shows "14 \<le> Suc s" "12 \<le> c - Suc s" "Suc s < c"
proof -
  define a b d where "a = c div 2" and "b = c div 32" and "d = c div 16"
  have a: "2 * a \<le> c" "c \<le> 2 * a + 1" and b: "32 * b \<le> c" "c < 32 * b + 32" and d: "16 * d \<le> c"
    unfolding a_def b_def d_def by presburger+
  have s: "a - b \<le> s" "s \<le> a - b + d" using assms(2,3) by (simp_all add: a_def b_def d_def)
  show left: "14 \<le> Suc s"
  proof (cases "c < 32")
    case True
    then show ?thesis using a b s assms(1) by linarith
  qed (use a b s in linarith)
  show right: "12 \<le> c - Suc s"
  proof (cases "c < 32")
    case True
    then have "d \<le> 1" using d by linarith
    then show ?thesis using a b s assms(1) True by linarith
  qed (use a b d s in linarith)
  show "Suc s < c" using right by linarith
qed

lemma leaf_split:
  assumes leaf: "leafOk n" and f: "fenced lo up (Basic n)" and count: "27 \<le> b_count n"
  obtains info sep l r where "BTreeNode_findSeparator n = Some info" "BTreeNode_getSep n info = sep"
    "sep_length info = length sep" "BTreeNode_splitPages n (sep_slot info) sep = (l, r)"
    "leafOk l" "leafOk r" "fenced lo sep (Basic l)" "fenced sep up (Basic r)" "sep \<noteq> []"
    "fullEntries l @ fullEntries r = fullEntries n"
    "weight (b_count l) + weight (b_count r) + 12 \<le> weight (b_count n)"
proof -
  let ?c = "b_count n"
  from leaf have inv: "BTreeNode_inv n" "keysInFences n" "BTreeNode_isLeaf n"
    and small: "\<forall>(k, v) \<in> set (fullEntries n). length k + length v \<le> maxEntry"
    by (auto simp: leafOk_def leafInv_def)
  note ok = inv_facts [OF inv(1)]
  obtain info where info: "BTreeNode_findSeparator n = Some info" "0 < sep_slot info" "sep_slot info < ?c"
    "length (BTreeNode_getSep n info) = sep_length info"
    "splitsAt (fullEntries n) (Suc (sep_slot info)) (BTreeNode_getSep n info)"
    "?c div 2 - ?c div 32 \<le> sep_slot info" "sep_slot info \<le> ?c div 2 - ?c div 32 + ?c div 16"
    "\<exists>j < ?c. length (BTreeNode_getSep n info) \<le> b_prefixLength n + s_keyLen (b_slot n j)"
    by (rule leaf_separator_window [OF inv(1,3)]) (use count in auto)
  define s where "s = sep_slot info"
  define sep where "sep = BTreeNode_getSep n info"
  have win: "14 \<le> Suc s" "12 \<le> ?c - Suc s" "Suc s < ?c"
    using window_sides [OF count info(6,7)] by (simp_all only: s_def)
  have len: "length sep \<le> maxEntry"
  proof -
    from info(8) obtain j where j: "j < ?c" "length sep \<le> b_prefixLength n + s_keyLen (b_slot n j)"
      by (auto simp: sep_def)
    have "fullEntries n ! j \<in> set (fullEntries n)" using j(1) by simp
    from bspec [OF small this] have "b_prefixLength n + s_keyLen (b_slot n j) + s_payloadLen (b_slot n j) \<le> maxEntry"
      by (simp add: nth_fullEntries [OF j(1)])
    with j(2) show ?thesis by linarith
  qed
  note sp = splitsAt_fences [OF inv(2) f info(5), folded s_def sep_def]
  have sf: "inFences lo up sep" "lo < sep" "up = [] \<or> sep < up" "sep \<noteq> []" using sp win by auto
  have ff: "BTreeNode_getLowerFence n = lo" "BTreeNode_getUpperFence n = up" using f by (auto simp: fenced_def)
  have "[] \<notin> set (map fst (drop (Suc s) (entries n)))"
  proof
    assume "[] \<in> set (map fst (drop (Suc s) (entries n)))"
    then have "[] \<in> set (drop (Suc s) (slotKeys n))" by (simp add: slotKeys_def drop_map)
    then obtain i where "i < length (drop (Suc s) (slotKeys n))" "drop (Suc s) (slotKeys n) ! i = []"
      by (meson in_set_conv_nth)
    then have i: "Suc s + i < ?c" "slotKeys n ! (Suc s + i) = []" by simp_all
    have "slotKeys n ! 0 < slotKeys n ! (Suc s + i)"
      by (rule sorted_wrt_nth_less [OF ok(3)]) (use i(1) in simp_all)
    with i(2) show False by (simp del: nth_slotKeys)
  qed
  from esize_nonempty [OF this] have "?c - Suc s \<le> esize (drop (Suc s) (entries n))" by simp
  then have fitL: "fitsPage (Suc s) lo sep (take (Suc s) (fullEntries n))"
    using halves_fit(1) [OF ok(1) ff sf(1), of "Suc s"] win len by (simp add: maxEntry_def)
  have fitR: "fitsPage (?c - Suc s) sep up (drop (Suc s) (fullEntries n))"
    by (rule halves_fit(2) [OF ok(1) ff sf(1)]) (use win len in \<open>simp_all add: maxEntry_def\<close>)
  obtain l r where lr: "BTreeNode_splitPages n s sep = (l, r)" by force
  note res = splitPages_leaf [OF inv(1,2,3) info(3) info(5) _ _ lr [unfolded s_def sep_def],
      folded s_def sep_def, unfolded ff, OF fitL fitR]
  have lens: "length lo \<le> maxEntry" "length up \<le> maxEntry" using f by (auto simp: fenced_def)
  have lo: "leafOk l" "leafOk r"
    using res small by (auto simp: leafOk_def leafInv_def BTreeNode_isLeaf_def dest!: in_set_takeD in_set_dropD)
  have fen: "fenced lo sep (Basic l)" "fenced sep up (Basic r)" using res(7-10) sf lens len by (auto simp: fenced_def)
  have "b_count l = Suc s" "b_count r = ?c - Suc s"
    using arg_cong [OF res(5), of length] arg_cong [OF res(6), of length] win by auto
  then have w: "weight (b_count l) + weight (b_count r) + 12 \<le> weight ?c"
    using weight_split [of "b_count l" "b_count r" ?c] win count by simp
  have app: "fullEntries l @ fullEntries r = fullEntries n" by (simp add: res(5,6))
  from that [OF info(1) sep_def [symmetric] _ lr [unfolded s_def] lo fen sf(4) app w] info(4)
  show thesis by (simp add: sep_def)
qed

subsection \<open>A full inner page\<close>

text \<open>The halves of an inner page that is split at its separator \<open>s\<close>.\<close>

definition innerHalves :: "AnyNode \<Rightarrow> nat \<Rightarrow> AnyNode \<Rightarrow> AnyNode \<Rightarrow> bool" where
  "innerHalves n s l r \<longleftrightarrow> innerInv l \<and> innerInv r \<and> isBasic l = isBasic n \<and> isBasic r = isBasic n \<and>
     leafLowerFence l = leafLowerFence n \<and> leafUpperFence l = nodeSeps n ! s \<and>
     leafLowerFence r = nodeSeps n ! s \<and> leafUpperFence r = leafUpperFence n \<and>
     nodeSeps l = take s (nodeSeps n) \<and> nodeSeps r = drop (Suc s) (nodeSeps n) \<and>
     nodeKids l = take (Suc s) (nodeKids n) \<and> nodeKids r = drop (Suc s) (nodeKids n)"

lemma basic_halves:
  assumes n: "innerOk heads (Basic n)" and f: "fenced lo up (Basic n)" and count: "25 \<le> b_count n"
  obtains s l r where "splitPlan cfg env key (Basic n) =
      Some (Basic n, length (BTreeNode_seps n ! s), Some (BTreeNode_seps n ! s, l, r))"
    "innerHalves (Basic n) s l r" "11 \<le> s" "s + 12 \<le> b_count n"
proof -
  let ?c = "b_count n"
  have inner: "basicInner n" using n by (simp add: innerOk_def)
  note b = basicInner_facts [OF inner] and ok = inv_facts [OF basicInner_facts(1) [OF inner]]
  obtain info where info: "BTreeNode_findSeparator n = Some info" "0 < sep_slot info" "sep_slot info < ?c"
    "sep_slot info = ?c div 2 - 1" "length (BTreeNode_getSep n info) = sep_length info"
    "BTreeNode_getSep n info = fst (fullEntries n ! sep_slot info)"
    "splitsAt (fullEntries n) (Suc (sep_slot info)) (BTreeNode_getSep n info)"
    by (rule inner_separator [OF b(1,3)]) (use count in auto)
  define s where "s = sep_slot info"
  define sep where "sep = BTreeNode_getSep n info"
  have win: "11 \<le> s" "12 \<le> Suc s" "s + 12 \<le> ?c" "13 \<le> ?c - s" "Suc s < ?c" "s < ?c"
    using info(4) count unfolding s_def by auto
  have sepn: "BTreeNode_seps n ! s = sep" using info(6) win by (simp add: BTreeNode_seps_def s_def sep_def)
  have len: "length sep \<le> maxEntry" using n sepn win(6) b(4) nth_mem [of s "BTreeNode_seps n"] by (auto simp: innerOk_def)
  have sf: "inFences lo up sep"
    using splitsAt_fences(1) [OF b(2) f info(7), folded s_def sep_def] win by auto
  have ff: "BTreeNode_getLowerFence n = lo" "BTreeNode_getUpperFence n = up" using f by (auto simp: fenced_def)
  have fitL: "fitsPage s lo sep (take s (fullEntries n))"
    by (rule halves_fit(1) [OF ok(1) ff sf]) (use win len in \<open>simp_all add: maxEntry_def\<close>)
  have "\<forall>(k, v) \<in> set (entries n). length v = sizeof_ptr"
    using b(6) unfolding truncated_fullEntries [symmetric] by (force simp: truncated_def)
  then have "8 * length (take (Suc s) (entries n)) \<le> esize (take (Suc s) (entries n))"
    by (intro esize_kids) (auto dest: in_set_takeD)
  then have "96 \<le> esize (take (Suc s) (entries n))" using win by simp
  then have fitR: "fitsPage (?c - Suc s) sep up (drop (Suc s) (fullEntries n))"
    by (intro halves_fit(2) [OF ok(1) ff sf]) (use win len in \<open>simp_all add: maxEntry_def\<close>)
  obtain l r where lr: "BTreeNode_splitPages n s sep = (l, r)" by force
  note res = splitPages_inner [OF b(1,2,3) info(3,7) _ _ lr [unfolded s_def sep_def],
      folded s_def sep_def, unfolded ff, OF fitL fitR]
  have "BTreeNode_getChild n s = BTreeNode_kids n ! s"
    using childAt_kids [OF inner, of s] win(6) by (simp add: BTreeNode_childAt_def)
  then have "BTreeNode_kids l = take (Suc s) (BTreeNode_kids n)" "BTreeNode_kids r = drop (Suc s) (BTreeNode_kids n)"
    using win(5,6) by (simp_all add: BTreeNode_kids_def res(5,6,13,14) take_map drop_map take_Suc_conv_app_nth nth_append)
  moreover have "basicInner l" "basicInner r"
    using res b(6) by (auto simp: basicInner_def BTreeNode_isInner_def dest!: in_set_takeD in_set_dropD)
  ultimately have "innerHalves (Basic n) s (Basic l) (Basic r)"
    using res(7-10) ff by (simp add: innerHalves_def sepn BTreeNode_seps_def res(5,6) take_map drop_map) (simp add: sepn [unfolded BTreeNode_seps_def])
  moreover have "splitPlan cfg env key (Basic n) = Some (Basic n, length sep, Some (sep, Basic l, Basic r))"
    using b(3) info(1,5) lr by (simp add: splitPlan_def BTreeNode_splitNode_def BTreeNode_isInner_def BTreeNode_isLeaf_def
        sep_def s_def Let_def)
  ultimately show thesis using win(1,3) sepn by (intro that [of s "Basic l" "Basic r"]) simp_all
qed

definition headHalves :: "('w::len) word HeadNode \<Rightarrow> nat \<Rightarrow> 'w word HeadNode \<Rightarrow> 'w word HeadNode \<Rightarrow> bool" where
  "headHalves n s l r \<longleftrightarrow> headInv l \<and> headInv r \<and>
     HeadNode_getLowerFence l = HeadNode_getLowerFence n \<and> HeadNode_getUpperFence l = HeadNode_seps n ! s \<and>
     HeadNode_getLowerFence r = HeadNode_seps n ! s \<and> HeadNode_getUpperFence r = HeadNode_getUpperFence n \<and>
     HeadNode_seps l = take s (HeadNode_seps n) \<and> HeadNode_seps r = drop (Suc s) (HeadNode_seps n) \<and>
     HeadNode_kids l = take (Suc s) (HeadNode_kids n) \<and> HeadNode_kids r = drop (Suc s) (HeadNode_kids n)"

context head_type
begin

lemma head_halves:
  assumes inv: "headInv (n :: 'w word HeadNode)"
    and f: "length (HeadNode_getLowerFence n) \<le> maxEntry" "length (HeadNode_getUpperFence n) \<le> maxEntry"
    and seps: "[] \<notin> set (HeadNode_seps n)" "\<forall>k \<in> set (HeadNode_seps n). length k \<le> maxEntry"
    and count: "25 \<le> hn_count n"
  defines "s \<equiv> hn_count n div 2"
  obtains l r where
    "HeadNode_splitPages n (sep_slot (HeadNode_findSeparator n)) (HeadNode_getSep n (HeadNode_findSeparator n)) = Some (l, r)"
    "HeadNode_getSep n (HeadNode_findSeparator n) = HeadNode_seps n ! s"
    "sep_length (HeadNode_findSeparator n) = length (HeadNode_seps n ! s)" "headHalves n s l r"
    "11 \<le> s" "s + 12 \<le> hn_count n"
proof -
  let ?lo = "HeadNode_getLowerFence n" and ?up = "HeadNode_getUpperFence n" and ?sep = "HeadNode_seps n ! s"
  have s: "s < hn_count n" "11 \<le> s" "s + 12 \<le> hn_count n" "0 < hn_count n" using count by (auto simp: s_def)
  have "?sep \<in> set (HeadNode_seps n)" using s(1) by simp
  then have sep: "?sep \<noteq> []" "length ?sep \<le> maxEntry" using seps by auto
  have cap: "hn_count n \<le> capacityOf (sizeofT TYPE('w)) ?lo ?up"
    using inv headPageOk_fit(2) [of n] by (simp add: headInv_def)
  have "12 * hn_count n \<le> (sizeofT TYPE('w) + 8) * capacityOf (sizeofT TYPE('w)) ?lo ?up"
    using cap size(1) by (intro mult_le_mono) simp_all
  also have "\<dots> \<le> 4024" using capacityOf_bounds(2) [OF size f] by linarith
  finally have c: "hn_count n \<le> 335" by simp
  have room: "k \<le> capacityOf (sizeofT TYPE('w)) lo up"
    if "k \<le> 167" "length lo \<le> maxEntry" "length up \<le> maxEntry" for k lo up
  proof (rule capacityOf_bounds(1) [OF size that(2,3)])
    have "(sizeofT TYPE('w) + 8) * k \<le> 16 * 167" using that(1) size(2) by (intro mult_le_mono) simp_all
    then show "(sizeofT TYPE('w) + 8) * k + length lo + length up \<le> 4005" using that(2,3) by (simp add: maxEntry_def)
  qed
  obtain l r where lr: "HeadNode_splitPages n s ?sep = Some (l, r)" "headInv l" "headInv r"
    "HeadNode_getLowerFence l = ?lo" "HeadNode_getUpperFence l = ?sep" "HeadNode_getLowerFence r = ?sep"
    "HeadNode_getUpperFence r = ?up" "HeadNode_seps l = take s (HeadNode_seps n)" "HeadNode_seps r = drop (Suc s) (HeadNode_seps n)"
    "HeadNode_kids l = take (Suc s) (HeadNode_kids n)" "HeadNode_kids r = drop (Suc s) (HeadNode_kids n)"
  proof (rule HeadNode_splitPages_correct [OF inv s(1) sep(1)])
    show "fenceFit (sizeofT TYPE('w)) ?lo ?sep" "fenceFit (sizeofT TYPE('w)) ?sep ?up"
      using capacityOf_eq(1) [OF size] f sep(2) by simp_all
    have half: "s \<le> 167" "hn_count n - Suc s \<le> 167" using c unfolding s_def by linarith+
    show "s \<le> capacityOf (sizeofT TYPE('w)) ?lo ?sep" by (rule room [OF half(1) f(1) sep(2)])
    show "hn_count n - Suc s \<le> capacityOf (sizeofT TYPE('w)) ?sep ?up" by (rule room [OF half(2) sep(2) f(2)])
  qed
  note h = HeadNode_separator [OF inv s(4), folded s_def]
  show thesis by (rule that) (use lr h s in \<open>simp_all add: headHalves_def\<close>)
qed

end

lemma inner_split:
  assumes inner: "innerOk heads n" and f: "fenced lo up n" and count: "25 \<le> length (nodeSeps n)"
  obtains s sep l r where "splitPlan cfg env key n = Some (n, length sep, Some (sep, l, r))"
    "innerOk heads l" "innerOk heads r" "fenced lo sep l" "fenced sep up r" "sep \<noteq> []" "s < length (nodeSeps n)"
    "nodeSeps l = take s (nodeSeps n)" "nodeSeps n ! s = sep" "nodeSeps r = drop (Suc s) (nodeSeps n)"
    "nodeKids l = take (Suc s) (nodeKids n)" "nodeKids r = drop (Suc s) (nodeKids n)"
    "weight (length (nodeSeps l)) + weight (length (nodeSeps r)) + 12 \<le> weight (length (nodeSeps n))" "11 \<le> s"
    "s + 12 \<le> length (nodeSeps n)"
proof -
  let ?c = "length (nodeSeps n)"
  note inv = innerOk_inv [OF inner]
  obtain s l r where p: "splitPlan cfg env key n = Some (n, length (nodeSeps n ! s), Some (nodeSeps n ! s, l, r))"
    and h: "innerHalves n s l r" and s: "11 \<le> s" "s + 12 \<le> ?c"
  proof (cases n)
    case (Basic b)
    then have b: "25 \<le> b_count b" using count inv basicInner_facts(4) [of b] by simp
    show thesis
      by (rule basic_halves [OF inner [unfolded Basic] f [unfolded Basic] b, where cfg = cfg and env = env and key = key])
        (use that Basic inv basicInner_facts(4) [of b] in simp)
  next
    case (Head4 h)
    let ?s = "hn_count h div 2"
    obtain l r where
      "HeadNode_splitPages h (sep_slot (HeadNode_findSeparator h)) (HeadNode_getSep h (HeadNode_findSeparator h)) = Some (l, r)"
      "HeadNode_getSep h (HeadNode_findSeparator h) = HeadNode_seps h ! ?s"
      "sep_length (HeadNode_findSeparator h) = length (HeadNode_seps h ! ?s)" "headHalves h ?s l r" "11 \<le> ?s"
      "?s + 12 \<le> hn_count h"
      by (rule head4.head_halves [of h]) (use inner f count in \<open>simp_all add: Head4 innerOk_def fenced_def\<close>)
    then show thesis
      by (intro that [of ?s "Head4 l" "Head4 r"]) (simp_all add: Head4 splitPlan_def innerHalves_def headHalves_def Let_def)
  next
    case (Head8 h)
    let ?s = "hn_count h div 2"
    obtain l r where
      "HeadNode_splitPages h (sep_slot (HeadNode_findSeparator h)) (HeadNode_getSep h (HeadNode_findSeparator h)) = Some (l, r)"
      "HeadNode_getSep h (HeadNode_findSeparator h) = HeadNode_seps h ! ?s"
      "sep_length (HeadNode_findSeparator h) = length (HeadNode_seps h ! ?s)" "headHalves h ?s l r" "11 \<le> ?s"
      "?s + 12 \<le> hn_count h"
      by (rule head8.head_halves [of h]) (use inner f count in \<open>simp_all add: Head8 innerOk_def fenced_def\<close>)
    then show thesis
      by (intro that [of ?s "Head8 l" "Head8 r"]) (simp_all add: Head8 splitPlan_def innerHalves_def headHalves_def Let_def)
  qed (use inv in simp_all)
  define sep where "sep = nodeSeps n ! s"
  have s1: "s < ?c" "Suc s < ?c" using s by simp_all
  have mem: "sep \<in> set (nodeSeps n)" "nodeSeps n ! Suc s \<in> set (nodeSeps n)" using s1 by (simp_all add: sep_def)
  have sub: "set (nodeSeps l) \<subseteq> set (nodeSeps n)" "set (nodeSeps r) \<subseteq> set (nodeSeps n)"
    "set (nodeKids l) \<subseteq> set (nodeKids n)" "set (nodeKids r) \<subseteq> set (nodeKids n)"
    using h by (auto simp: innerHalves_def dest: in_set_takeD in_set_dropD)
  have io: "innerOk heads l" "innerOk heads r"
    using h inner innerOk_same [OF inner _ _ sub(1,3)] innerOk_same [OF inner _ _ sub(2,4)]
    by (simp_all add: innerHalves_def innerOk_def [of heads n])
  have sep: "sep \<noteq> []" "length sep \<le> maxEntry" using inner mem(1) by (auto simp: innerOk_def)
  have infe: "inFences lo up sep" "inFences lo up (nodeSeps n ! Suc s)"
    using any_page.seps_inside [OF inv] mem f by (simp_all add: fenced_def)
  have "sep < nodeSeps n ! Suc s"
    unfolding sep_def by (rule sorted_wrt_nth_less [OF any_page.seps_sorted [OF inv]]) (use s1 in simp_all)
  then have "up = [] \<or> sep < up" using infe(2) by (auto simp: inFences_def intro: order_less_le_trans)
  moreover have "lo < sep" using infe(1) sep(1) by (cases lo; cases sep) (auto simp: inFences_def)
  ultimately have fen: "fenced lo sep l" "fenced sep up r"
    using h f sep by (auto simp: innerHalves_def fenced_def sep_def)
  have seps: "nodeSeps l = take s (nodeSeps n)" "nodeSeps r = drop (Suc s) (nodeSeps n)"
    "nodeKids l = take (Suc s) (nodeKids n)" "nodeKids r = drop (Suc s) (nodeKids n)"
    using h by (simp_all add: innerHalves_def)
  have "weight (length (nodeSeps l)) + weight (length (nodeSeps r)) + 12 \<le> weight ?c"
    using s count by (simp add: seps weight_def)
  with that [OF p [folded sep_def] io fen sep(1) s1(1) seps(1) sep_def [symmetric] seps(2-4) _ s] show thesis by simp
qed

end
