(* ===== verification/TreeInsert.thy ===== *)
theory TreeInsert
  imports TreeSplit
begin

text \<open>
  Inserts into the tree: the separator of a split goes into the parent, \<open>splitNode\<close> splits the lowest
  page on the way up whose parent has room, or grows the tree by a root, and \<open>insertImpl\<close> starts again
  until the leaf has room. Every split lowers the weight of the tree, so that ends.
\<close>

subsection \<open>A new child in a frame\<close>

text \<open>The frame after the insert: the child's range is divided at the separator.\<close>

lemma insertChild_frame:
  assumes fo: "frameOk heads (p, n, ls, rs) q lo up lo' up'"
    and sep: "lo < sep" "up = [] \<or> sep < up" "sep \<noteq> []" "length sep \<le> maxEntry" and l: "l < 2 ^ 64"
    and n1: "innerOk heads n1" "fenced lo' up' n1" "nodeSeps n1 = nodeSeps n" "nodeKids n1 = nodeKids n"
    and room: "nodeRoom n1 (length sep)"
  obtains n2 where "AnyNode_insertChild cfg sep l n1 = Some n2" "length (nodeSeps n2) = Suc (length (nodeSeps n))"
    "\<And>Tl Tr. rootPtr Tl = l \<Longrightarrow> rootPtr Tr = q \<Longrightarrow> wfTree heads lo sep Tl \<Longrightarrow> wfTree heads sep up Tr \<Longrightarrow>
      wfTree heads lo' up' (Inner p n2 (ls @ Tl # Tr # rs))"
proof -
  from fo obtain us vs where w: "nodeSeps n @ [up'] = us @ up # vs" "lo = last (lo' # us)"
    "wfForest heads lo' us ls" "wfForest heads up vs rs" and n: "innerOk heads n" "fenced lo' up' n"
    "nodeKids n = map rootPtr ls @ q # map rootPtr rs" by auto
  have key: "inFences lo up sep" using sep by (auto simp: inFences_def)
  note fi = frame_index [OF fo key]
  have len: "length us = length ls" by (rule wfs_length [OF w(3)])
  have il: "length ls \<le> length (nodeSeps n)" using fi(5) by (simp add: is_lower_bound_def)
  have us: "us = take (length ls) (nodeSeps n)" "drop (length ls) (nodeSeps n) @ [up'] = up # vs"
    using arg_cong [OF w(1), of "take (length ls)"] arg_cong [OF w(1), of "drop (length ls)"] il len by simp_all
  have new: "sep \<notin> set (nodeSeps n)"
  proof
    assume "sep \<in> set (nodeSeps n)"
    then have "length ls < length (nodeSeps n)" "nodeSeps n ! length ls = sep"
      using is_lower_bound_mem [OF any_page.seps_sorted [OF innerOk_inv [OF n(1)]] fi(5)] by auto
    with frame_fences(7) [OF fo] sep(2) show False by auto
  qed
  obtain n2 where ins: "AnyNode_insertChild cfg sep l n1 = Some n2" "innerOk heads n2" "fenced lo' up' n2"
    "nodeSeps n2 = take (length ls) (nodeSeps n) @ sep # drop (length ls) (nodeSeps n)"
    "nodeKids n2 = take (length ls) (nodeKids n) @ l # drop (length ls) (nodeKids n)"
    "length (nodeSeps n2) = Suc (length (nodeSeps n))"
    by (rule insertChild_ok [OF n1(1,2), unfolded n1(3,4), OF fi(4) new sep(3,4) room l fi(5)])
  have s2: "nodeSeps n2 @ [up'] = us @ sep # up # vs" using ins(4) us by simp
  have k2: "nodeKids n2 = map rootPtr ls @ l # q # map rootPtr rs" using ins(5) by (simp add: n(3))
  have "wfTree heads lo' up' (Inner p n2 (ls @ Tl # Tr # rs))"
    if T: "rootPtr Tl = l" "rootPtr Tr = q" "wfTree heads lo sep Tl" "wfTree heads sep up Tr" for Tl Tr
    using ins(2,3) k2 T w wfs_append [OF len, of heads lo' "sep # up # vs" "Tl # Tr # rs"] by (simp add: s2)
  with that [OF ins(1,6)] show thesis by blast
qed

subsection \<open>Splitting a page in its frame\<close>

fun pageOf :: "ntree \<Rightarrow> AnyNode" where
  "pageOf (Leaf p n) = Basic n"
| "pageOf (Inner p n cs) = n"

definition below :: "ntree \<Rightarrow> (ptr \<times> AnyNode) list" where
  "below T = tl (nodes T)"

definition treeWeight :: "ntree \<Rightarrow> nat" where
  "treeWeight T = sum_list (map (\<lambda>(p, n). weight (length (nodeSeps n))) (nodes T))"

definition fullPage :: "ntree \<Rightarrow> bool" where
  "fullPage T \<longleftrightarrow> (case T of Leaf p n \<Rightarrow> 27 \<le> b_count n | Inner p n cs \<Rightarrow> 25 \<le> length (nodeSeps n))"

lemma nodes_below: "nodes T = (rootPtr T, pageOf T) # below T"
  by (cases T) (simp_all add: below_def)

lemma below_simps: "below (Leaf p n) = []" "below (Inner p m cs) = concat (map nodes cs)"
  by (simp_all add: below_def)

lemma concat_entries_append: "concat (map treeEntries (take k cs)) @ concat (map treeEntries (drop k cs)) =
    concat (map treeEntries cs)"
  by (metis append_take_drop_id concat_append map_append)

text \<open>What a split of the subtree \<open>X\<close> yields: the left half at the new address, the right one in place.\<close>

lemma length_BTreeNode_seps [simp]: "length (BTreeNode_seps n) = b_count n"
  by (simp add: BTreeNode_seps_def)

lemma split_subtree:
  assumes cfg: "basicLeaves cfg" and X: "wfTree heads lo up X" and full: "fullPage X"
  obtains sep Xl Xr where
    "splitPlan cfg env key (pageOf X) = Some (pageOf X, length sep, Some (sep, pageOf Xl, pageOf Xr))"
    "rootPtr Xl = l" "rootPtr Xr = rootPtr X" "wfTree heads lo sep Xl" "wfTree heads sep up Xr" "sep \<noteq> []"
    "treeEntries Xl @ treeEntries Xr = treeEntries X" "below Xl @ below Xr = below X"
    "weight (length (nodeSeps (pageOf Xl))) + weight (length (nodeSeps (pageOf Xr))) + 12 \<le>
      weight (length (nodeSeps (pageOf X)))"
proof (cases X)
  case (Leaf p n)
  with X full have n: "leafOk n" "fenced lo up (Basic n)" "27 \<le> b_count n" by (auto simp: fullPage_def)
  obtain info sep nl nr where s: "BTreeNode_findSeparator n = Some info" "BTreeNode_getSep n info = sep"
    "sep_length info = length sep" "BTreeNode_splitPages n (sep_slot info) sep = (nl, nr)"
    "leafOk nl" "leafOk nr" "fenced lo sep (Basic nl)" "fenced sep up (Basic nr)" "sep \<noteq> []"
    "fullEntries nl @ fullEntries nr = fullEntries n"
    "weight (b_count nl) + weight (b_count nr) + 12 \<le> weight (b_count n)"
    by (rule leaf_split [OF n])
  have "splitPlan cfg env key (Basic n) = Some (Basic n, length sep, Some (sep, Basic nl, Basic nr))"
    using cfg s(1-4) by (simp add: splitPlan_def basicLeaves_def BTreeNode_splitNode_def Let_def)
  with s that [of sep "Leaf l nl" "Leaf p nr"] show thesis by (simp add: Leaf below_simps)
next
  case (Inner p n cs)
  with X full have n: "innerOk heads n" "fenced lo up n" "25 \<le> length (nodeSeps n)" and k: "nodeKids n = map rootPtr cs"
    and w: "wfForest heads lo (nodeSeps n @ [up]) cs" by (auto simp: fullPage_def)
  obtain s sep nl nr where s: "splitPlan cfg env key n = Some (n, length sep, Some (sep, nl, nr))"
    "innerOk heads nl" "innerOk heads nr" "fenced lo sep nl" "fenced sep up nr" "sep \<noteq> []" "s < length (nodeSeps n)"
    "nodeSeps nl = take s (nodeSeps n)" "nodeSeps n ! s = sep" "nodeSeps nr = drop (Suc s) (nodeSeps n)"
    "nodeKids nl = take (Suc s) (nodeKids n)" "nodeKids nr = drop (Suc s) (nodeKids n)"
    "weight (length (nodeSeps nl)) + weight (length (nodeSeps nr)) + 12 \<le> weight (length (nodeSeps n))" "11 \<le> s"
    "s + 12 \<le> length (nodeSeps n)"
    by (rule inner_split [OF n])
  let ?cl = "take (Suc s) cs" and ?cr = "drop (Suc s) cs"
  have len: "length cs = Suc (length (nodeSeps n))" using wfs_length [OF w] by simp
  have us: "nodeSeps n @ [up] = (take s (nodeSeps n) @ [sep]) @ drop (Suc s) (nodeSeps n) @ [up]"
    using id_take_nth_drop [of s "nodeSeps n"] s(7,9) by simp
  have "wfForest heads lo (take s (nodeSeps n) @ [sep]) ?cl \<and> wfForest heads sep (drop (Suc s) (nodeSeps n) @ [up]) ?cr"
    using w [unfolded us] s(7) len
      wfs_append [of "take s (nodeSeps n) @ [sep]" ?cl heads lo "drop (Suc s) (nodeSeps n) @ [up]" ?cr]
    by simp
  then have "wfTree heads lo sep (Inner l nl ?cl)" "wfTree heads sep up (Inner p nr ?cr)"
    using s by (simp_all add: k take_map drop_map)
  moreover have "below (Inner l nl ?cl) @ below (Inner p nr ?cr) = below X"
    by (simp add: Inner below_simps) (metis append_take_drop_id concat_append map_append)
  ultimately show thesis using s(1,6,13) that [of sep "Inner l nl ?cl" "Inner p nr ?cr"]
    by (simp add: Inner concat_entries_append)
qed

lemma treeWeight_plug:
  "treeWeight (plug fs T) = sum_list (map (\<lambda>(p, n). weight (length (nodeSeps n))) (ctxNodes fs)) + treeWeight T"
proof -
  have "mset (map (\<lambda>(p, n). weight (length (nodeSeps n))) (nodes (plug fs T))) =
      mset (map (\<lambda>(p, n). weight (length (nodeSeps n))) (ctxNodes fs @ nodes T))"
    by (simp only: mset_map mset_nodes_plug)
  from arg_cong [OF this, of sum_mset] show ?thesis
    unfolding treeWeight_def sum_mset_sum_list by simp
qed

text \<open>The outcome of the attempt to split a page: nothing has happened and the parent is full itself, or
  the tree has one page more, the same entries, and less weight.\<close>

definition splitDone :: "bool \<Rightarrow> btree \<Rightarrow> btree \<Rightarrow> ntree \<Rightarrow> ntree \<Rightarrow> nat \<Rightarrow> bool" where
  "splitDone heads t t' T T' pages \<longleftrightarrow> represents t' T' \<and> wfTree heads [] [] T' \<and> treeEntries T' = treeEntries T \<and>
     treeWeight T' + 11 \<le> treeWeight T \<and> t_brk t' = t_brk t + pages * pageSizeLeaf \<and> t_rng t' = t_rng t"

lemma holdsNodes_mset: "mset xs = mset ys \<Longrightarrow> holdsNodes P xs = holdsNodes P ys"
  unfolding holdsNodes_def by (metis set_mset_mset)

lemma distinct_fst_mset: "mset xs = mset ys \<Longrightarrow> distinct (map fst xs) = distinct (map fst ys)"
  by (metis mset_eq_imp_distinct_iff mset_map)

lemma wf_root_fence: "wfTree heads lo up T \<Longrightarrow> length lo \<le> maxEntry \<and> length up \<le> maxEntry"
  by (cases T) (auto simp: fenced_def)

lemma weight_Suc: "weight (Suc c) \<le> weight c + 1"
  by (simp add: weight_def)

lemma represents_split:
  assumes rep: "represents t (plug fs S)" and S: "mset (nodes S) = mset ((pp, n) # (q, nq) # rest)"
    and S': "mset (nodes S') = mset ((pp, n2) # (t_brk t, nl) # (q, nr) # rest)" and rootPtr: "rootPtr S' = rootPtr S"
    and mem: "t_brk t + pageSizeLeaf \<le> memoryEnd"
  shows "represents (t\<lparr>t_pages := (t_pages t)(q \<mapsto> x, pp \<mapsto> y, t_brk t \<mapsto> nl, pp \<mapsto> n2,
      q \<mapsto> nr), t_brk := t_brk t + pageSizeLeaf\<rparr>) (plug fs S')" (is "represents ?t' _")
proof (rule represents_subtree [OF rep rootPtr])
  let ?l = "t_brk t"
  note rp = rep [unfolded represents_plug]
  have nS: "set (nodes S) = {(pp, n), (q, nq)} \<union> set rest"
    "set (nodes S') = {(pp, n2), (?l, nl), (q, nr)} \<union> set rest"
    using arg_cong [OF S, of set_mset] arg_cong [OF S', of set_mset] by auto
  have addr: "pageAddr ?l p" if "p \<in> fst ` set (nodes S)" for p using rp that by blast
  then have fresh: "pp \<noteq> ?l" "q \<noteq> ?l" "?l \<notin> fst ` set rest" "0 < ?l"
    unfolding nS pageAddr_def by fastforce+
  have old: "holdsNodes (t_pages t) rest" "distinct (pp # q # map fst rest)"
    using rp holdsNodes_mset [OF S, of "t_pages t"] distinct_fst_mset [OF S] by simp_all
  show "t_root ?t' = t_root t" "t_brk t \<le> t_brk ?t'" "t_brk ?t' \<le> memoryEnd" using mem by simp_all
  show "t_brk ?t' mod pageSizeLeaf = 0" using rp by simp
  have "holdsNodes (t_pages ?t') rest"
  proof (rule holdsNodes_cong [OF old(1)])
    fix p assume p: "p \<in> fst ` set rest"
    then have "p \<noteq> pp" "p \<noteq> q" using old(2) by auto
    moreover have "p \<noteq> ?l" using p fresh(3) by blast
    ultimately show "t_pages ?t' p = t_pages t p" by simp
  qed
  then show "holdsNodes (t_pages ?t') (nodes S')"
    unfolding holdsNodes_mset [OF S'] using old(2) fresh(1,2) by simp
  show "distinct (map fst (nodes S'))"
    unfolding distinct_fst_mset [OF S'] using old(2) fresh by auto
  show "p \<in> fst ` set (nodes S) \<or> t_brk t \<le> p \<and> pageAddr (t_brk ?t') p" if "p \<in> fst ` set (nodes S')" for p
    using that fresh(4) rp unfolding nS by (auto simp: pageAddr_def pageSizeLeaf_def)
  show "t_pages ?t' p = t_pages t p" if "p \<in> fst ` set (ctxNodes fs)" for p
  proof -
    have "p \<notin> fst ` set (nodes S)" "p \<noteq> ?l" using rp that by (auto simp: pageAddr_def)
    then show ?thesis unfolding nS by auto
  qed
qed

lemma split_in_frame:
  assumes cfg: "basicLeaves cfg" "heads = enableHeadNode cfg" and rep: "represents t (plug ((pp, n, ls, rs) # fs) X)"
    and ctx: "ctxOk heads ((pp, n, ls, rs) # fs) (rootPtr X) lo up" and X: "wfTree heads lo up X" and full: "fullPage X"
    and mem: "t_brk t + pageSizeLeaf \<le> memoryEnd"
  obtains "splitNodeWithParent cfg env key (rootPtr X) pp t = Some (False, t)" "25 \<le> length (nodeSeps n)"
  | t' T' where "splitNodeWithParent cfg env key (rootPtr X) pp t = Some (True, t')"
      "splitDone heads t t' (plug ((pp, n, ls, rs) # fs) X) T' 1"
proof -
  let ?l = "t_brk t" and ?q = "rootPtr X" and ?S = "Inner pp n (ls @ X # rs)"
  let ?rest = "concat (map nodes ls) @ below X @ concat (map nodes rs)"
  note rp = rep [unfolded plug.simps represents_plug]
  obtain lo' up' where fo: "frameOk heads (pp, n, ls, rs) ?q lo up lo' up'" "ctxOk heads fs pp lo' up'" using ctx by auto
  then have n: "innerOk heads n" "fenced lo' up' n" by auto
  obtain sep Xl Xr where sp: "splitPlan cfg env key (pageOf X) = Some (pageOf X, length sep, Some (sep, pageOf Xl, pageOf Xr))"
    "rootPtr Xl = ?l" "rootPtr Xr = ?q" "wfTree heads lo sep Xl" "wfTree heads sep up Xr" "sep \<noteq> []"
    "treeEntries Xl @ treeEntries Xr = treeEntries X" "below Xl @ below Xr = below X"
    "weight (length (nodeSeps (pageOf Xl))) + weight (length (nodeSeps (pageOf Xr))) + 12 \<le>
      weight (length (nodeSeps (pageOf X)))"
    by (rule split_subtree [OF cfg(1) X full])
  have mS: "mset (nodes ?S) = mset ((pp, n) # (?q, pageOf X) # ?rest)"
    by (simp add: nodes_below [of X])
  have old: "t_pages t pp = Some n" "t_pages t ?q = Some (pageOf X)" "holdsNodes (t_pages t) ?rest"
    "distinct (pp # ?q # map fst ?rest)"
    using rp holdsNodes_mset [OF mS, of "t_pages t"] distinct_fst_mset [OF mS] by simp_all
  have seplen: "length sep \<le> maxEntry" using wf_root_fence [OF sp(4)] by simp
  have gaps: "lo < sep" "up = [] \<or> sep < up" using wf_gap [OF sp(4)] wf_gap [OF sp(5)] sp(6) by auto
  have key: "inFences lo up sep" using gaps by (auto simp: inFences_def)
  have kin: "inFences lo' up' sep" by (rule frame_covers [OF fo(1) key])
  obtain ok n1 where r: "innerRequestSpaceFor cfg (length sep) n = Some (ok, n1)" "innerOk heads n1" "fenced lo' up' n1"
    "nodeSeps n1 = nodeSeps n" "nodeKids n1 = nodeKids n" "ok \<Longrightarrow> nodeRoom n1 (length sep)"
    "\<not> ok \<Longrightarrow> n1 = n \<and> 25 \<le> length (nodeSeps n)"
    by (rule innerRequestSpaceFor_ok [OF cfg(2) n kin seplen]) blast
  have neq: "pp \<noteq> ?q" using old(4) by simp
  show thesis
  proof (cases ok)
    case False
    then have "splitNodeWithParent cfg env key ?q pp t = Some (False, t)"
      using old sp(1) r(1) r(7) [OF False] by (simp add: splitNodeWithParent_def writePage_same)
    then show thesis using that(1) r(7) [OF False] by blast
  next
    case True
    have l64: "?l < 2 ^ 64" using mem by (simp add: memoryEnd_def pageSizeLeaf_def)
    obtain n2 where ins: "AnyNode_insertChild cfg sep ?l n1 = Some n2"
      "length (nodeSeps n2) = Suc (length (nodeSeps n))"
      "\<And>Tl Tr. rootPtr Tl = ?l \<Longrightarrow> rootPtr Tr = ?q \<Longrightarrow> wfTree heads lo sep Tl \<Longrightarrow> wfTree heads sep up Tr \<Longrightarrow>
        wfTree heads lo' up' (Inner pp n2 (ls @ Tl # Tr # rs))"
      by (rule insertChild_frame [OF fo(1) gaps sp(6) seplen l64 r(2-5) r(6) [OF True], of cfg]) blast
    let ?S' = "Inner pp n2 (ls @ Xl # Xr # rs)"
    let ?t' = "t\<lparr>t_pages := (t_pages t)(?q \<mapsto> pageOf X, pp \<mapsto> n1, ?l \<mapsto> pageOf Xl,
        pp \<mapsto> n2, ?q \<mapsto> pageOf Xr), t_brk := ?l + pageSizeLeaf\<rparr>"
    have "pageAddr ?l pp" "pageAddr ?l ?q" using rp by (auto simp: nodes_below [of X])
    then have nfresh: "pp \<noteq> ?l" "?q \<noteq> ?l" by (auto simp: pageAddr_def)
    have step: "splitNodeWithParent cfg env key ?q pp t = Some (True, ?t')"
      using True old sp(1) r(1) ins(1) mem nfresh neq
      by (simp add: splitNodeWithParent_def commitSplit_def allocPage_def writePage_def)
    have mS': "mset (nodes ?S') = mset ((pp, n2) # (?l, pageOf Xl) # (?q, pageOf Xr) # ?rest)"
      using arg_cong [OF sp(8), of mset] by (simp add: nodes_below [of Xl] nodes_below [of Xr] sp(2,3) ac_simps)
    have wfS: "wfTree heads lo' up' ?S'" by (rule ins(3) [OF sp(2-5)])
    have "represents ?t' (plug fs ?S')"
      by (rule represents_split [OF rep [unfolded plug.simps] mS mS' _ mem]) simp
    moreover have "wfTree heads [] [] (plug fs ?S')" by (rule wf_plug [OF _ wfS]) (use fo(2) in simp)
    moreover have "treeEntries (plug fs ?S') = treeEntries (plug ((pp, n, ls, rs) # fs) X)"
      using sp(7) by (simp add: treeEntries_plug)
    moreover have "treeWeight (plug fs ?S') + 11 \<le> treeWeight (plug ((pp, n, ls, rs) # fs) X)"
    proof -
      have "treeWeight ?S' = sum_mset (image_mset (\<lambda>(p, n). weight (length (nodeSeps n))) (mset (nodes ?S')))"
        "treeWeight ?S = sum_mset (image_mset (\<lambda>(p, n). weight (length (nodeSeps n))) (mset (nodes ?S)))"
        by (simp_all only: treeWeight_def mset_map [symmetric] sum_mset_sum_list)
      then have "treeWeight ?S' + 11 \<le> treeWeight ?S"
        unfolding mS mS' using sp(9) weight_Suc [of "length (nodeSeps n)"] by (simp add: ins(2))
      then show ?thesis by (simp add: treeWeight_plug)
    qed
    ultimately have "splitDone heads t ?t' (plug ((pp, n, ls, rs) # fs) X) (plug fs ?S') 1"
      by (simp add: splitDone_def)
    with step that(2) show thesis by blast
  qed
qed

subsection \<open>Splitting up to the root\<close>

lemma root_address: "represents t X \<Longrightarrow> rootPtr X < 2 ^ 64"
  by (auto simp: represents_def nodes_below [of X] pageAddr_def memoryEnd_def)

lemma grow_root:
  assumes cfg: "basicLeaves cfg" "heads = enableHeadNode cfg" and rep: "represents t X" and X: "wfTree heads [] [] X"
    and mem: "t_brk t + pageSizeLeaf \<le> memoryEnd"
  defines "R \<equiv> (t_brk t, newRoot heads (rootPtr X), [], [])"
  obtains t1 where "makeRoot cfg (rootPtr X) t = Some (t_brk t, t1)"
    "represents (t1\<lparr>t_root := t_brk t\<rparr>) (plug [R] X)" "ctxOk heads [R] (rootPtr X) [] []"
    "t_brk t1 = t_brk t + pageSizeLeaf" "t_rng t1 = t_rng t" "treeWeight (plug [R] X) = treeWeight X"
    "treeEntries (plug [R] X) = treeEntries X"
proof -
  let ?t1 = "t\<lparr>t_pages := (t_pages t)(t_brk t \<mapsto> newRoot heads (rootPtr X)), t_brk := t_brk t + pageSizeLeaf\<rparr>"
  have make: "makeRoot cfg (rootPtr X) t = Some (t_brk t, ?t1)"
    using cfg mem by (simp add: makeRoot_def allocPage_def newRoot_def Let_def)
  note rp = rep [unfolded represents_def]
  have fresh: "p \<noteq> t_brk t" if "p \<in> fst ` set (nodes X)" for p using rp that by (auto simp: pageAddr_def)
  have "holdsNodes (t_pages ?t1) (nodes X)"
    by (rule holdsNodes_cong [of "t_pages t"]) (use rp fresh in simp_all)
  moreover have "pageAddr (t_brk ?t1) p" if "p \<in> fst ` set (nodes X)" for p
    using rp that by (auto intro: pageAddr_mono [of "t_brk t"])
  moreover have "0 < t_brk t" using rp by (auto simp: nodes_below [of X] pageAddr_def)
  ultimately have "represents (?t1\<lparr>t_root := t_brk t\<rparr>) (plug [R] X)"
    using rp mem fresh by (auto simp: represents_def R_def pageAddr_def pageSizeLeaf_def)
  moreover have "ctxOk heads [R] (rootPtr X) [] []"
    using newRoot_facts [OF root_address [OF rep]] by (auto simp: R_def)
  ultimately show thesis
    by (rule that [OF make]) (simp_all add: R_def treeWeight_def newRoot_facts(4) [OF root_address [OF rep]] weight_def)
qed

lemma splitNode_done:
  assumes cfg: "basicLeaves cfg" "heads = enableHeadNode cfg" and rep: "represents t (plug fs X)" and ctx: "ctxOk heads fs (rootPtr X) lo up"
    and X: "wfTree heads lo up X" and full: "fullPage X" and key: "inFences lo up key"
    and mem: "t_brk t + 2 * pageSizeLeaf \<le> memoryEnd"
  shows "\<exists>t' T' pages. splitNode cfg env key (rootPtr X) (parentOf fs) t = Some t' \<and>
    splitDone heads t t' (plug fs X) T' pages \<and> pages \<le> 2"
  using rep ctx X full key
proof (induction fs arbitrary: X lo up)
  case Nil
  then have X: "represents t X" "wfTree heads [] [] X" "fullPage X" by auto
  have mem1: "t_brk t + pageSizeLeaf \<le> memoryEnd" using mem by simp
  let ?R = "(t_brk t, newRoot heads (rootPtr X), [], []) :: frame"
  obtain t1 where r: "makeRoot cfg (rootPtr X) t = Some (t_brk t, t1)"
    "represents (t1\<lparr>t_root := t_brk t\<rparr>) (plug [?R] X)" "ctxOk heads [?R] (rootPtr X) [] []"
    "t_brk t1 = t_brk t + pageSizeLeaf" "t_rng t1 = t_rng t" "treeWeight (plug [?R] X) = treeWeight X"
    "treeEntries (plug [?R] X) = treeEntries X"
    by (rule grow_root [OF cfg X(1,2) mem1])
  have mem2: "t_brk (t1\<lparr>t_root := t_brk t\<rparr>) + pageSizeLeaf \<le> memoryEnd" using mem r(4) by simp
  show ?case
  proof (rule split_in_frame [OF cfg r(2,3) X(2,3) mem2, where key = key and env = env])
    assume "25 \<le> length (nodeSeps (newRoot heads (rootPtr X)))"
    then show ?thesis by (simp add: newRoot_facts(4) [OF root_address [OF X(1)]])
  next
    fix t' T'
    assume s: "splitNodeWithParent cfg env key (rootPtr X) (t_brk t) (t1\<lparr>t_root := t_brk t\<rparr>) = Some (True, t')"
      "splitDone heads (t1\<lparr>t_root := t_brk t\<rparr>) t' (plug [?R] X) T' 1"
    then have "splitDone heads t t' X T' 2" using r(4-7) by (simp add: splitDone_def)
    moreover have "splitNode cfg env key (rootPtr X) nullptr t = Some t'"
      using r(1) s(1) by (simp add: splitNode.simps [of _ _ _ "rootPtr X"])
    ultimately show ?thesis by auto
  qed
next
  case (Cons f fs)
  obtain pp n ls rs where f: "f = (pp, n, ls, rs)" by (cases f)
  note prems = Cons.prems [unfolded f]
  let ?S = "Inner pp n (ls @ X # rs)"
  have mem1: "t_brk t + pageSizeLeaf \<le> memoryEnd" using mem by simp
  have "pageAddr (t_brk t) pp" using prems(1) by (auto simp: represents_plug)
  then have pp: "pp \<noteq> nullptr" by (simp add: pageAddr_def nullptr_def)
  show ?case
  proof (rule split_in_frame [OF cfg prems(1-4) mem1, where key = key and env = env])
    assume s: "splitNodeWithParent cfg env key (rootPtr X) pp t = Some (False, t)" "25 \<le> length (nodeSeps n)"
    from prems(2) obtain lo' up' where fo: "frameOk heads (pp, n, ls, rs) (rootPtr X) lo up lo' up'" "ctxOk heads fs pp lo' up'"
      by auto
    have rp: "rootOf fs pp = t_root t" "holdsNodes (t_pages t) (ctxNodes fs)" "pp \<notin> fst ` set (ctxNodes fs)"
      "t_pages t pp = Some n"
      using prems(1) by (auto simp: represents_plug)
    note cov = frame_covers [OF fo(1) prems(5)]
    have grand: "descendTo (t_pages t) key pp (t_root t) nullptr = Some (parentOf fs)"
      unfolding rp(1) [symmetric]
      using descents_ctx [OF fo(2) cov rp(2), of pp] rp(3,4) by (simp add: descendTo.simps [of _ _ pp pp])
    have "represents t (plug fs ?S)" "ctxOk heads fs (rootPtr ?S) lo' up'" "fullPage ?S"
      using prems(1) fo(2) s(2) by (simp_all add: fullPage_def)
    from Cons.IH [OF this(1,2) frame_wf [OF fo(1) prems(3)] this(3) cov]
    show ?thesis using s(1) grand pp by (simp add: f splitNode.simps [of _ _ _ "rootPtr X"])
  next
    fix t' T'
    assume s: "splitNodeWithParent cfg env key (rootPtr X) pp t = Some (True, t')"
      "splitDone heads t t' (plug ((pp, n, ls, rs) # fs) X) T' 1"
    then have "splitNode cfg env key (rootPtr X) (parentOf ((pp, n, ls, rs) # fs)) t = Some t'"
      using pp by (simp add: splitNode.simps [of _ _ _ "rootPtr X"])
    with s(2) show ?thesis unfolding f by (intro exI [of _ t'] exI [of _ T'] exI [of _ 1]) simp
  qed
qed

subsection \<open>Insert\<close>

text \<open>The pages allocated so far and the weight of the tree bound the pages that splits may still ask
  for: each split takes at most two and gives back eleven units of weight.\<close>

definition credit :: "btree \<Rightarrow> ntree \<Rightarrow> nat" where
  "credit t T = 11 * (t_brk t div pageSizeLeaf) + 2 * treeWeight T"

definition creditLimit :: nat where
  "creditLimit = 11 * 2 ^ 52"

lemma represents_leaf:
  assumes "represents t (plug fs (Leaf p n))"
  shows "represents ((writePage p (Basic n') t)\<lparr>t_rng := r\<rparr>) (plug fs (Leaf p n'))"
proof (rule represents_subtree [OF assms])
  show "t_pages ((writePage p (Basic n') t)\<lparr>t_rng := r\<rparr>) q = t_pages t q" if "q \<in> fst ` set (ctxNodes fs)" for q
    using assms that by (auto simp: represents_plug)
qed (use assms in \<open>auto simp: represents_plug\<close>)

lemma BTreeNode_insert_basic:
  "basicLeaves cfg \<Longrightarrow> BTreeNode_insert cfg key payload n = map_insert_result Basic (BTreeNode_tryInsert key payload n)"
  by (simp add: BTreeNode_insert_def numeral_3_eq_3 basicLeaves_def Let_def split: insert_result.split)

lemma leafInsert_basic:
  "basicLeaves cfg \<Longrightarrow> leafInsert cfg env key payload (Basic n) r =
    (map_insert_result Basic (BTreeNode_tryInsert key payload n), r)"
  by (simp add: leafInsert_def point_op_def basicLeaves_def BTreeNode_insert_basic)

lemma treeWeight_leaf:
  "b_count n' \<le> Suc (b_count n) \<Longrightarrow> treeWeight (plug fs (Leaf p n')) \<le> treeWeight (plug fs (Leaf p n)) + 1"
  by (simp add: treeWeight_plug) (simp add: treeWeight_def weight_def)

text \<open>A full leaf is split and the insert starts again, on a tree with the same content and less weight.\<close>

lemma insert_restart:
  assumes cfg: "basicLeaves cfg" "heads = enableHeadNode cfg" and at: "atLeaf heads t key fs p n lo up" and size: "length key + length payload \<le> maxEntry"
    and cred: "credit t (plug fs (Leaf p n)) \<le> creditLimit"
    and full: "BTreeNode_tryInsert key payload n = NoSpace n1"
  obtains t1 T1 where "insertImpl cfg env key payload t = insertImpl cfg env key payload t1" "represents t1 T1"
    "wfTree heads [] [] T1" "treeContent T1 = treeContent (plug fs (Leaf p n))"
    "treeWeight T1 < treeWeight (plug fs (Leaf p n))" "credit t1 T1 \<le> credit t (plug fs (Leaf p n))"
proof -
  let ?T = "plug fs (Leaf p n)"
  note d = atLeaf_descend [OF at]
  from at have c: "ctxOk heads fs p lo up" "inFences lo up key" "leafOk n" "fenced lo up (Basic n)" and rep: "represents t ?T"
    by (simp_all add: atLeaf_def)
  have inv: "leafInv n" using c(3) by (simp add: leafOk_def)
  have len: "length key < 65536" "length payload < 65536" using size by (simp_all add: maxEntry_def)
  note i = tryInsert_correct(2) [OF inv d(4) len full]
  have "b_prefixLength n \<le> length key"
    using inFences_getPrefix(1) [OF inv_facts(1)] inv d(4) by (simp add: leafInv_def BTreeNode_covers_def)
  then have cnt: "27 \<le> b_count n" by (rule full_leaf_count [OF c(3,4) size]) (use i in simp)
  then have fp: "fullPage (Leaf p n)" by (simp add: fullPage_def)
  have "12 \<le> treeWeight ?T" using cnt unfolding treeWeight_plug by (simp add: treeWeight_def weight_def)
  moreover have "t_brk t = pageSizeLeaf * (t_brk t div pageSizeLeaf)" using rep by (auto simp: represents_def)
  ultimately have mem: "t_brk t + 2 * pageSizeLeaf \<le> memoryEnd"
    using cred by (simp add: credit_def creditLimit_def memoryEnd_def pageSizeLeaf_def)
  obtain t1 T1 pages where s: "splitNode cfg env key p (parentOf fs) t = Some t1" "splitDone heads t t1 ?T T1 pages" "pages \<le> 2"
    using splitNode_done [OF cfg rep _ _ fp c(2) mem, of env] c by auto
  then have sd: "represents t1 T1" "wfTree heads [] [] T1" "treeContent T1 = treeContent ?T" "treeWeight T1 + 11 \<le> treeWeight ?T"
    by (simp_all add: splitDone_def treeContent_def)
  have "t_brk t1 div pageSizeLeaf = t_brk t div pageSizeLeaf + pages"
    using s(2) by (simp add: splitDone_def pageSizeLeaf_def)
  then have "credit t1 T1 \<le> credit t ?T" using sd(4) s(3) by (simp add: credit_def)
  moreover have "insertImpl cfg env key payload t = insertImpl cfg env key payload t1"
    using d(1,3) full i s(1) cfg by (simp add: insertImpl.simps [of _ _ key _ t] leafInsert_basic writePage_same)
  ultimately show thesis using that [OF _ sd(1-3)] sd(4) by simp
qed

lemma insertImpl_content:
  assumes cfg: "basicLeaves cfg" "heads = enableHeadNode cfg" and rep: "represents t T" and wf: "wfTree heads [] [] T" and new: "treeContent T key = None"
    and size: "length key + length payload \<le> maxEntry" and cred: "credit t T \<le> creditLimit"
  shows "\<exists>t' T'. insertImpl cfg env key payload t = Some t' \<and> represents t' T' \<and> wfTree heads [] [] T' \<and>
    treeContent T' = (treeContent T)(key \<mapsto> payload) \<and> credit t' T' \<le> credit t T + 2"
  using rep wf new cred
proof (induction T arbitrary: t rule: measure_induct_rule [where f = treeWeight])
  case (less T)
  obtain fs p n lo up where T: "T = plug fs (Leaf p n)" and at: "atLeaf heads t key fs p n lo up"
    by (rule atLeaf_exists [OF less.prems(1,2)])
  note d = atLeaf_descend [OF at]
  from at have c: "ctxOk heads fs p lo up" "inFences lo up key" "leafOk n" "fenced lo up (Basic n)" by (simp_all add: atLeaf_def)
  have new: "BTreeNode_content n key = None"
    using less.prems(3) content_leaf(1) [OF c(1,2)] by (simp add: T)
  have inv: "leafInv n" using c(3) by (simp add: leafOk_def)
  have len: "length key < 65536" "length payload < 65536" using size by (simp_all add: maxEntry_def)
  note ins = tryInsert_correct [OF inv d(4) len]
  show ?case
  proof (cases "BTreeNode_tryInsert key payload n")
    case (Inserted n')
    note i = ins(1) [OF Inserted]
    let ?t' = "(writePage p (Basic n') t)\<lparr>t_rng := t_rng t\<rparr>"
    from i obtain j where j: "fullEntries n' = take j (fullEntries n) @ (key, payload) # drop j (fullEntries n)" by blast
    have leaf': "leafOk n'" "fenced lo up (Basic n')"
      using i c(3,4) size unfolding leafOk_def fenced_def j by (auto dest: in_set_takeD in_set_dropD)
    have res: "insertImpl cfg env key payload t = Some ?t'"
      using d(1,3) Inserted cfg by (simp add: insertImpl.simps [of _ _ key] leafInsert_basic)
    have rep': "represents ?t' (plug fs (Leaf p n'))"
      by (rule represents_leaf) (use less.prems(1) T in simp)
    have wf': "wfTree heads [] [] (plug fs (Leaf p n'))" by (rule wf_plug) (use c(1) leaf' in auto)
    have con: "treeContent (plug fs (Leaf p n')) = (treeContent T)(key \<mapsto> payload)"
      unfolding T by (rule content_update [OF c(1,2,4) leaf'(2) c(3) leaf'(1)]) (use i in simp)
    have "b_count n' \<le> Suc (b_count n)" using arg_cong [OF j, of length] by simp
    then have "credit ?t' (plug fs (Leaf p n')) \<le> credit t T + 2"
      using treeWeight_leaf [of n' n fs p] by (simp add: credit_def T)
    with res rep' wf' con show ?thesis by blast
  next
    case (NoSpace n1)
    obtain t1 T1 where r: "insertImpl cfg env key payload t = insertImpl cfg env key payload t1" "represents t1 T1"
      "wfTree heads [] [] T1" "treeContent T1 = treeContent T" "treeWeight T1 < treeWeight T" "credit t1 T1 \<le> credit t T"
      by (rule insert_restart [OF cfg at size _ NoSpace]) (use less.prems(4) T in auto)
    have "\<exists>t' T'. insertImpl cfg env key payload t1 = Some t' \<and> represents t' T' \<and> wfTree heads [] [] T' \<and>
        treeContent T' = (treeContent T1)(key \<mapsto> payload) \<and> credit t' T' \<le> credit t1 T1 + 2"
      by (rule less.IH [of T1]) (use r less.prems(3,4) in simp_all)
    then obtain t' T' where t': "insertImpl cfg env key payload t1 = Some t'" "represents t' T'" "wfTree heads [] [] T'"
      "treeContent T' = (treeContent T1)(key \<mapsto> payload)" "credit t' T' \<le> credit t1 T1 + 2" by blast
    have "credit t' T' \<le> credit t T + 2" using t'(5) r(6) by linarith
    with t'(1-4) r(1,4) show ?thesis by (intro exI [of _ t'] exI [of _ T']) simp
  next
    case Aborted
    with ins(3) new show ?thesis by simp
  qed
qed

text \<open>An insert of a key that is there ends in the \<open>abort()\<close> of the leaf, after splits if need be.\<close>

lemma insertImpl_present:
  assumes cfg: "basicLeaves cfg" "heads = enableHeadNode cfg" and rep: "represents t T" and wf: "wfTree heads [] [] T" and old: "treeContent T key \<noteq> None"
    and size: "length key + length payload \<le> maxEntry" and cred: "credit t T \<le> creditLimit"
  shows "insertImpl cfg env key payload t = None"
  using rep wf old cred
proof (induction T arbitrary: t rule: measure_induct_rule [where f = treeWeight])
  case (less T)
  obtain fs p n lo up where T: "T = plug fs (Leaf p n)" and at: "atLeaf heads t key fs p n lo up"
    by (rule atLeaf_exists [OF less.prems(1,2)])
  note d = atLeaf_descend [OF at]
  from at have c: "ctxOk heads fs p lo up" "inFences lo up key" "leafOk n" by (simp_all add: atLeaf_def)
  have old: "BTreeNode_content n key \<noteq> None" using less.prems(3) content_leaf(1) [OF c(1,2)] by (simp add: T)
  have inv: "leafInv n" using c(3) by (simp add: leafOk_def)
  have len: "length key < 65536" "length payload < 65536" using size by (simp_all add: maxEntry_def)
  show ?case
  proof (cases "BTreeNode_tryInsert key payload n")
    case (Inserted n')
    with tryInsert_correct(1) [OF inv d(4) len] old show ?thesis by simp
  next
    case (NoSpace n1)
    obtain t1 T1 where r: "insertImpl cfg env key payload t = insertImpl cfg env key payload t1" "represents t1 T1"
      "wfTree heads [] [] T1" "treeContent T1 = treeContent T" "treeWeight T1 < treeWeight T" "credit t1 T1 \<le> credit t T"
      by (rule insert_restart [OF cfg at size _ NoSpace]) (use less.prems(4) T in auto)
    have "insertImpl cfg env key payload t1 = None"
      by (rule less.IH [of T1]) (use r less.prems(3,4) in simp_all)
    with r(1) show ?thesis by simp
  next
    case Aborted
    then show ?thesis using d(1,3) cfg by (simp add: insertImpl.simps [of _ _ key] leafInsert_basic)
  qed
qed

end
