(* ===== verification/TreeRemove.thy ===== *)
theory TreeRemove
  imports TreeInsert
begin

text \<open>
  Removal with the merge of two small neighbouring leaves, and the operations on the whole tree:
  construction, clearing and the memory estimate. The pages ever allocated bound the recursion of
  the last two.
\<close>

subsection \<open>The leaf and its parent after a removal\<close>

lemma remove_entries:
  assumes inv: "BTreeNode_inv n" and res: "BTreeNode_remove key n = (b, n')"
  shows "set (fullEntries n') \<subseteq> set (fullEntries n)" "b_count n' \<le> b_count n" "\<not> b \<Longrightarrow> n' = n"
proof -
  obtain i found where lb: "BTreeNode_lowerBound n key = (i, found)" by force
  have "set (fullEntries n') \<subseteq> set (fullEntries n) \<and> b_count n' \<le> b_count n" if found
  proof -
    have i: "i < b_count n" using lowerBound_correct(3) [OF inv lb that] by simp
    have n': "n' = BTreeNode_removeSlot i n" using res lb that by (simp add: BTreeNode_remove_def)
    note f = removeSlot_entries [OF inv i]
    have "b_count n' \<le> b_count n" using arg_cong [OF f, of length] i by (simp add: n')
    then show ?thesis unfolding n' f by (auto dest: in_set_takeD in_set_dropD)
  qed
  moreover have "n' = n" if "\<not> found" using res lb that by (simp add: BTreeNode_remove_def)
  ultimately show "set (fullEntries n') \<subseteq> set (fullEntries n)" "b_count n' \<le> b_count n" by auto
  show "\<not> b \<Longrightarrow> n' = n" using res lb by (auto simp: BTreeNode_remove_def split: if_splits)
qed

lemma remove_leaf:
  assumes leaf: "leafOk n" and f: "fenced lo up (Basic n)" and cov: "BTreeNode_covers n key"
    and res: "BTreeNode_remove key n = (b, n')"
  shows "leafOk n'" "fenced lo up (Basic n')" "BTreeNode_content n' = (BTreeNode_content n)(key := None)"
    "b \<longleftrightarrow> BTreeNode_content n key \<noteq> None" "b_count n' \<le> b_count n"
proof -
  from leaf have inv: "BTreeNode_inv n" "keysInFences n" "BTreeNode_isLeaf n" by (auto simp: leafOk_def leafInv_def)
  note r = remove_correct [OF inv(1,2) cov res] and e = remove_entries [OF inv(1) res]
  show "leafOk n'" using leaf r(1,2,6) e(1) by (auto simp: leafOk_def leafInv_def BTreeNode_isLeaf_def)
  show "fenced lo up (Basic n')" using f r(8,9) by (simp add: fenced_def)
qed (use remove_correct [OF _ _ cov res] remove_entries [OF _ res] leaf in \<open>auto simp: leafOk_def leafInv_def\<close>)

text \<open>Merging a leaf into its right neighbour: the frame loses the leaf and the separator between.\<close>

lemma merge_frame:
  assumes fo: "frameOk heads (pp, n, ls, Leaf q r # rs) p lo up lo' up'" and l: "leafOk l" "fenced lo up (Basic l)"
    and res: "BTreeNode_mergeLeaves l r = Some m"
  obtains n' up2 where "innerRemoveSlot (length ls) n = Some n'" "frameOk heads (pp, n', ls, rs) q lo up2 lo' up'"
    "wfTree heads lo up2 (Leaf q m)" "fullEntries m = fullEntries l @ fullEntries r"
    "Suc (length (nodeSeps n')) = length (nodeSeps n)"
proof -
  from fo obtain us vs where w: "nodeSeps n @ [up'] = us @ up # vs" "lo = last (lo' # us)"
    "wfForest heads lo' us ls" "wfForest heads up vs (Leaf q r # rs)" and n: "innerOk heads n" "fenced lo' up' n"
    "nodeKids n = map rootPtr ls @ p # q # map rootPtr rs" by auto
  then obtain up2 vs2 where vs: "vs = up2 # vs2" "leafOk r" "fenced up up2 (Basic r)" "wfForest heads up2 vs2 rs"
    by (cases vs) auto
  have len: "length us = length ls" by (rule wfs_length [OF w(3)])
  have i: "length ls < length (nodeSeps n)" using arg_cong [OF w(1), of length] len by (simp add: vs(1))
  note fr = frame_fences [OF fo]
  have up: "up \<noteq> []" using fr(7) [OF i] by simp
  have gap: "lo < up" "up2 = [] \<or> up < up2" using l(2) vs(3) up by (auto simp: fenced_def)
  have lr: "BTreeNode_inv l" "BTreeNode_inv r" "keysInFences l" "keysInFences r" "BTreeNode_isLeaf l"
    using l(1) vs(2) by (auto simp: leafOk_def leafInv_def)
  have "neighbours l r" using l(2) vs(3) up gap by (auto simp: neighbours_def fenced_def inFences_def)
  note m = mergeLeaves_Some [OF lr this res]
  have leafm: "leafOk m"
    using m l(1) vs(2) by (auto simp: leafOk_def leafInv_def BTreeNode_isLeaf_def)
  have "up2 = [] \<or> lo < up2" using gap by (auto intro: order_less_trans)
  then have fm: "fenced lo up2 (Basic m)" using l(2) vs(3) m(4,5) by (simp add: fenced_def)
  obtain n' where rs: "innerRemoveSlot (length ls) n = Some n'" "innerOk heads n'" "fenced lo' up' n'"
    "nodeSeps n' = take (length ls) (nodeSeps n) @ drop (Suc (length ls)) (nodeSeps n)"
    "nodeKids n' = take (length ls) (nodeKids n) @ drop (Suc (length ls)) (nodeKids n)"
    "Suc (length (nodeSeps n')) = length (nodeSeps n)"
    by (rule innerRemoveSlot_ok [OF n(1,2) i])
  have "drop (Suc (length ls)) (nodeSeps n @ [up']) = up2 # vs2" "take (length ls) (nodeSeps n @ [up']) = us"
    unfolding w(1) vs(1) using len by simp_all
  then have "drop (Suc (length ls)) (nodeSeps n) @ [up'] = up2 # vs2" "take (length ls) (nodeSeps n) = us"
    using i by simp_all
  then have "nodeSeps n' @ [up'] = us @ up2 # vs2" by (simp add: rs(4))
  then have frame: "frameOk heads (pp, n', ls, rs) q lo up2 lo' up'"
    using rs(2,3,5) w(2,3) vs(4) by (auto simp: n(3))
  show thesis by (rule that [OF rs(1) frame _ m(2) rs(6)]) (use leafm fm in simp)
qed

lemma weight_merge: "weight (a + b) \<le> weight a + weight b + 13"
  by (simp add: weight_def)

lemma represents_merge:
  assumes rep: "represents t (plug fs S)" and S: "mset (nodes S) = mset ((pp, n) # (p, l) # (q, r) # rest)"
    and S': "mset (nodes S') = mset ((pp, n') # (q, m) # rest)" and root: "rootPtr S' = rootPtr S"
    and pages: "t_pages t' = ((t_pages t)(pp \<mapsto> n', q \<mapsto> m))(p := None)"
    and same: "t_root t' = t_root t" "t_brk t' = t_brk t"
  shows "represents t' (plug fs S')"
proof (rule represents_subtree [OF rep root same(1)])
  note rp = rep [unfolded represents_plug]
  have nS: "set (nodes S) = {(pp, n), (p, l), (q, r)} \<union> set rest" "set (nodes S') = {(pp, n'), (q, m)} \<union> set rest"
    using arg_cong [OF S, of set_mset] arg_cong [OF S', of set_mset] by auto
  have old: "holdsNodes (t_pages t) rest" "distinct (pp # p # q # map fst rest)"
    using rp holdsNodes_mset [OF S, of "t_pages t"] distinct_fst_mset [OF S] by simp_all
  have "holdsNodes (t_pages t') rest"
  proof (rule holdsNodes_cong [OF old(1)])
    fix x assume "x \<in> fst ` set rest"
    then show "t_pages t' x = t_pages t x" using old(2) by (auto simp: pages)
  qed
  then show "holdsNodes (t_pages t') (nodes S')"
    unfolding holdsNodes_mset [OF S'] using old(2) by (auto simp: pages)
  show "distinct (map fst (nodes S'))" unfolding distinct_fst_mset [OF S'] using old(2) by simp
  show "x \<in> fst ` set (nodes S) \<or> t_brk t \<le> x \<and> pageAddr (t_brk t') x" if "x \<in> fst ` set (nodes S')" for x
    using that unfolding nS by auto
  show "t_pages t' x = t_pages t x" if "x \<in> fst ` set (ctxNodes fs)" for x
  proof -
    have "x \<notin> fst ` set (nodes S)" using rp that by auto
    then show ?thesis unfolding nS by (auto simp: pages)
  qed
qed (use rep same in \<open>simp_all add: represents_plug\<close>)

subsection \<open>Remove\<close>

lemma treeContent_cong: "treeEntries T' = treeEntries T \<Longrightarrow> treeContent T' = treeContent T"
  by (simp add: treeContent_def)

lemma leafForMerge_Basic: "leafForMerge (Basic n) = Basic n"
  by (simp add: leafForMerge_def)

lemma writePage_twice: "writePage p n (writePage p n t) = writePage p n t"
  by (simp add: writePage_def)

lemma removeImpl_content:
  assumes rep: "represents t T" and wf: "wfTree heads [] [] T"
  shows "\<exists>t' T'. removeImpl cfg env key t = Some (treeContent T key \<noteq> None, t') \<and> represents t' T' \<and>
    wfTree heads [] [] T' \<and> treeContent T' = (treeContent T)(key := None) \<and> credit t' T' \<le> credit t T + 26"
proof -
  obtain fs p n lo up where T: "T = plug fs (Leaf p n)" and at: "atLeaf heads t key fs p n lo up"
    by (rule atLeaf_exists [OF rep wf])
  note d = atLeaf_descend [OF at]
  from at have c: "ctxOk heads fs p lo up" "inFences lo up key" "leafOk n" "fenced lo up (Basic n)" by (simp_all add: atLeaf_def)
  obtain b n1 where res: "BTreeNode_remove key n = (b, n1)" by force
  note r = remove_leaf [OF c(3,4) d(4) res]
  let ?t1 = "writePage p (Basic n1) t" and ?T1 = "plug fs (Leaf p n1)"
  have b: "b \<longleftrightarrow> treeContent T key \<noteq> None" using r(4) content_leaf(1) [OF c(1,2)] by (simp add: T)
  have rep1: "represents ?t1 ?T1"
    using represents_leaf [OF rep [unfolded T], where n' = n1 and r = "t_rng t"] by (simp add: represents_def)
  have wf1: "wfTree heads [] [] ?T1" by (rule wf_plug) (use c(1) r(1,2) in auto)
  have con1: "treeContent ?T1 = (treeContent T)(key := None)"
    unfolding T by (rule content_update [OF c(1,2,4) r(2) c(3) r(1) r(3)])
  have cred1: "credit ?t1 ?T1 \<le> credit t T"
    using r(5) unfolding credit_def T treeWeight_plug by (simp add: treeWeight_def weight_def)
  have plain: ?thesis if "removeImpl cfg env key t = Some (b, ?t1)"
    using that rep1 wf1 con1 cred1 b by (intro exI [of _ ?t1] exI [of _ ?T1]) simp
  have start: "removeImpl cfg env key t =
      (if \<not> b then Some (False, ?t1) else if parentOf fs = nullptr then Some (True, ?t1)
       else do {
         parent \<leftarrow> t_pages ?t1 (parentOf fs);
         parentCount \<leftarrow> innerCount parent;
         if parentCount \<ge> 2 \<and> indexOf fs + 1 < parentCount \<and> leafUnderfull (Basic n1) then do {
           rp \<leftarrow> AnyNode_getChild (indexOf fs + 1) parent;
           right \<leftarrow> t_pages ?t1 rp;
           (case leafMerge env (Basic n1) right of
              None \<Rightarrow> Some (True, ?t1)
            | Some merged \<Rightarrow> do {
                t3 \<leftarrow> commitMerge (indexOf fs) (parentOf fs) rp merged ?t1;
                Some (True, freePage p t3)
              })
         } else Some (True, ?t1)
       })"
    using d(2,3) res
    by (simp add: removeImpl_def leafRemove_def leafForMerge_Basic writePage_twice Let_def
        cong: if_cong option.case_cong del: AnyNode_getChild.simps innerCount.simps innerRemoveSlot.simps writePage_fields)
  show ?thesis
  proof (cases "b \<and> fs \<noteq> []")
    case False
    then have "removeImpl cfg env key t = Some (b, ?t1)" by (cases fs) (auto simp: start)
    then show ?thesis by (rule plain)
  next
    case True
    then obtain f fs' where fs: "fs = f # fs'" by (cases fs) auto
    obtain pp np ls rs where f: "f = (pp, np, ls, rs)" by (cases f)
    from c(1) obtain lo' up' where fo: "frameOk heads (pp, np, ls, rs) p lo up lo' up'" "ctxOk heads fs' pp lo' up'"
      by (auto simp: fs f)
    then have np: "innerOk heads np" "fenced lo' up' np" "nodeKids np = map rootPtr ls @ p # map rootPtr rs" by auto
    have pages: "t_pages ?t1 pp = Some np" "holdsNodes (t_pages ?t1) (concat (map nodes rs))" "pp \<noteq> nullptr"
      using rep1 by (auto simp: fs f represents_plug pageAddr_def nullptr_def)
    note inv = innerOk_inv [OF np(1)]
    have count: "innerCount np = Some (length (nodeSeps np))" by (rule inner_facts(2) [OF inv])
    show ?thesis
    proof (cases "length ls + 1 < length (nodeSeps np) \<and> leafUnderfull (Basic n1)")
      case False
      then have "removeImpl cfg env key t = Some (b, ?t1)"
        using True pages count by (auto simp: start fs f)
      then show ?thesis by (rule plain)
    next
      case go: True
      have "length (nodeKids np) = length ls + 1 + length rs" by (simp add: np(3))
      then obtain R rs' where rs: "rs = R # rs'"
        using go any_page.length_kids [OF inv] by (cases rs) auto
      have rp: "AnyNode_getChild (length ls + 1) np = Some (rootPtr R)"
        using inner_facts(4) [OF inv, of "length ls + 1"] go by (simp add: np(3) rs nth_append)
      have right: "t_pages ?t1 (rootPtr R) = Some (pageOf R)"
        using pages(2) by (simp add: rs nodes_below [of R] del: writePage_fields)
      show ?thesis
      proof (cases "leafMerge env (Basic n1) (pageOf R)")
        case None
        then have "removeImpl cfg env key t = Some (b, ?t1)"
          using True go pages count rp right by (simp add: start fs f del: AnyNode_getChild.simps innerCount.simps innerRemoveSlot.simps)
        then show ?thesis by (rule plain)
      next
        case (Some merged)
        then obtain m rn where m: "merged = Basic m" "pageOf R = Basic rn" "BTreeNode_mergeLeaves n1 rn = Some m"
          and isLeaf: "BTreeNode_isLeaf rn" by (auto simp: leafMerge_def split: AnyNode.split_asm if_splits)
        obtain vs where "wfForest heads up vs (R # rs')" using fo(1) by (auto simp: rs)
        then have wfR: "\<exists>lo up. wfTree heads lo up R" by (cases vs) auto
        obtain q where R: "R = Leaf q rn"
          using wfR isLeaf m(2) basicInner_facts(3) [of rn]
          by (cases R) (auto simp: innerOk_def BTreeNode_isInner_def BTreeNode_isLeaf_def)
        obtain np' up2 where mf: "innerRemoveSlot (length ls) np = Some np'"
          "frameOk heads (pp, np', ls, rs') q lo up2 lo' up'"
          "wfTree heads lo up2 (Leaf q m)" "fullEntries m = fullEntries n1 @ fullEntries rn"
          "Suc (length (nodeSeps np')) = length (nodeSeps np)"
          by (rule merge_frame [OF fo(1) [unfolded rs R] r(1,2) m(3)])
        let ?S = "Inner pp np (ls @ Leaf p n1 # Leaf q rn # rs')" and ?S' = "Inner pp np' (ls @ Leaf q m # rs')"
        let ?rest = "concat (map nodes ls) @ concat (map nodes rs')"
        let ?t2 = "freePage p (writePage q (Basic m) (writePage pp (np') ?t1))"
        have step: "removeImpl cfg env key t = Some (True, ?t2)"
          using True go pages count rp right Some m(1) mf(1)
          by (simp add: start fs f R commitMerge_def del: AnyNode_getChild.simps innerCount.simps innerRemoveSlot.simps)
        have mS: "mset (nodes ?S) = mset ((pp, np) # (p, Basic n1) # (q, Basic rn) # ?rest)" by simp
        have mS': "mset (nodes ?S') = mset ((pp, np') # (q, Basic m) # ?rest)" by simp
        have plugS: "?T1 = plug fs' ?S" by (simp add: fs f rs R)
        have rep2: "represents ?t2 (plug fs' ?S')"
          by (rule represents_merge [OF rep1 [unfolded plugS] mS mS']) simp_all
        have "frameOk heads (pp, np', ls, rs') (rootPtr (Leaf q m)) lo up2 lo' up'" using mf(2) by (simp only: rootPtr.simps)
        then have wfS: "wfTree heads lo' up' ?S'" using mf(3) by (rule frame_wf)
        have wf2: "wfTree heads [] [] (plug fs' ?S')" by (rule wf_plug [OF _ wfS]) (use fo(2) in simp)
        have con2: "treeContent (plug fs' ?S') = (treeContent T)(key := None)"
          unfolding con1 [symmetric] plugS
          by (rule treeContent_cong) (use mf(4) in \<open>simp add: treeEntries_plug\<close>)
        have "treeWeight ?S' \<le> treeWeight ?S + 13"
        proof -
          have "b_count m = b_count n1 + b_count rn" using arg_cong [OF mf(4), of length] by simp
          moreover have "weight (length (nodeSeps np')) \<le> weight (length (nodeSeps np))" using mf(5) by (simp add: weight_def)
          ultimately show ?thesis
            using weight_merge [of "b_count n1" "b_count rn"] by (simp add: treeWeight_def)
        qed
        then have "credit ?t2 (plug fs' ?S') \<le> credit ?t1 ?T1 + 26"
          unfolding credit_def plugS treeWeight_plug by simp
        with step rep2 wf2 con2 cred1 b True show ?thesis
          by (intro exI [of _ ?t2] exI [of _ "plug fs' ?S'"]) simp
      qed
    qed
  qed
qed

subsection \<open>The pages below an address\<close>

lemma pages_bound:
  assumes "represents t T"
  shows "length (nodes T) < t_brk t div pageSizeLeaf"
proof -
  let ?ps = "fst ` set (nodes T)" and ?d = "\<lambda>p. p div pageSizeLeaf"
  note rp = assms [unfolded represents_def]
  have size: "0 < pageSizeLeaf" by (simp add: pageSizeLeaf_def)
  have addr: "0 < p \<and> p < t_brk t \<and> p mod pageSizeLeaf = 0" if "p \<in> ?ps" for p
    using rp that by (auto simp: pageAddr_def)
  have inj: "inj_on ?d ?ps"
  proof (rule inj_onI)
    fix p q assume "p \<in> ?ps" "q \<in> ?ps" and eq: "?d p = ?d q"
    then have "p mod pageSizeLeaf = 0" "q mod pageSizeLeaf = 0" using addr by simp_all
    then show "p = q" using eq by (metis mod_eq_0_iff_dvd dvd_mult_div_cancel)
  qed
  have sub: "?d ` ?ps \<subseteq> {1..<?d (t_brk t)}"
  proof
    fix x assume "x \<in> ?d ` ?ps"
    then obtain p where p: "p \<in> ?ps" "x = ?d p" by blast
    then have a: "0 < p" "p < t_brk t" "p mod pageSizeLeaf = 0" using addr by simp_all
    have p1: "p = pageSizeLeaf * x" using a(3) p(2) by (metis mod_eq_0_iff_dvd dvd_mult_div_cancel)
    moreover have "t_brk t = pageSizeLeaf * ?d (t_brk t)" using rp by (metis mod_eq_0_iff_dvd dvd_mult_div_cancel)
    ultimately have "pageSizeLeaf * x < pageSizeLeaf * ?d (t_brk t)" using a(2) by metis
    then have "x < ?d (t_brk t)" by (simp only: mult_less_cancel1)
    moreover have "0 < x" using a(1) p1 by (cases x) auto
    ultimately show "x \<in> {1..<?d (t_brk t)}" by simp
  qed
  have "length (nodes T) = card ?ps" using rp distinct_card [of "map fst (nodes T)"] by simp
  also have "\<dots> = card (?d ` ?ps)" using inj by (rule card_image [symmetric])
  also have "\<dots> \<le> card {1..<?d (t_brk t)}" by (rule card_mono [OF _ sub]) simp
  also have "\<dots> = ?d (t_brk t) - 1" by simp
  finally have "length (nodes T) \<le> ?d (t_brk t) - 1" .
  moreover have "0 < length (nodes T)" by (simp add: nodes_below)
  ultimately show ?thesis by linarith
qed

lemma length_nodes_child: "c \<in> set cs \<Longrightarrow> length (nodes c) \<le> length (concat (map nodes cs))"
  by (induction cs) auto

lemma wfForest_children: "wfForest heads lo us cs \<Longrightarrow> c \<in> set cs \<Longrightarrow> \<exists>lo up. wfTree heads lo up c"
proof (induction us arbitrary: lo cs)
  case Nil
  then show ?case by (cases cs) auto
next
  case (Cons u us)
  then show ?case by (cases cs) auto
qed

subsection \<open>Clearing\<close>

lemma destroy_children:
  assumes IH: "\<And>c t. c \<in> set cs \<Longrightarrow> holdsNodes (t_pages t) (nodes c) \<Longrightarrow>
      \<exists>t'. destroy f (rootPtr c) t = Some t' \<and> t_brk t' = t_brk t \<and> t_root t' = t_root t \<and>
        (\<forall>q. q \<notin> fst ` set (nodes c) \<longrightarrow> t_pages t' q = t_pages t q)"
    and "holdsNodes (t_pages t) (concat (map nodes cs))" "distinct (map fst (concat (map nodes cs)))"
  shows "\<exists>t'. fold (\<lambda>c acc. Option.bind acc (destroy f c)) (map rootPtr cs) (Some t) = Some t' \<and>
    t_brk t' = t_brk t \<and> t_root t' = t_root t \<and>
    (\<forall>q. q \<notin> fst ` set (concat (map nodes cs)) \<longrightarrow> t_pages t' q = t_pages t q)"
  using assms
proof (induction cs arbitrary: t)
  case (Cons c cs)
  from Cons.prems(2) have "holdsNodes (t_pages t) (nodes c)" by simp
  with Cons.prems(1) [of c t] obtain t1 where t1: "destroy f (rootPtr c) t = Some t1" "t_brk t1 = t_brk t"
    "t_root t1 = t_root t" "\<forall>q. q \<notin> fst ` set (nodes c) \<longrightarrow> t_pages t1 q = t_pages t q" by auto
  have "holdsNodes (t_pages t1) (concat (map nodes cs))"
  proof (rule holdsNodes_cong [of "t_pages t"])
    fix p assume "p \<in> fst ` set (concat (map nodes cs))"
    then show "t_pages t1 p = t_pages t p" using Cons.prems(3) t1(4) by auto
  qed (use Cons.prems(2) in simp)
  moreover have "distinct (map fst (concat (map nodes cs)))" using Cons.prems(3) by simp
  ultimately obtain t2 where
    "fold (\<lambda>c acc. Option.bind acc (destroy f c)) (map rootPtr cs) (Some t1) = Some t2" "t_brk t2 = t_brk t1"
    "t_root t2 = t_root t1" "\<forall>q. q \<notin> fst ` set (concat (map nodes cs)) \<longrightarrow> t_pages t2 q = t_pages t1 q"
    using Cons.IH [of t1] Cons.prems(1) by auto
  with t1 show ?case by (intro exI [of _ t2]) (auto simp: image_Un)
qed simp

lemma destroy_tree:
  assumes "wfTree heads lo up T" "length (nodes T) \<le> f" "holdsNodes (t_pages t) (nodes T)" "distinct (map fst (nodes T))"
  shows "\<exists>t'. destroy f (rootPtr T) t = Some t' \<and> t_brk t' = t_brk t \<and> t_root t' = t_root t \<and>
    (\<forall>q. q \<notin> fst ` set (nodes T) \<longrightarrow> t_pages t' q = t_pages t q)"
  using assms
proof (induction T arbitrary: lo up f t)
  case (Leaf p n)
  then obtain f' where f: "f = Suc f'" by (cases f) auto
  have "childPtrs (Basic n) = []" using Leaf.prems(1) leaf_not_inner [of n] by auto
  with Leaf.prems(3) show ?case by (simp add: f)
next
  case (Inner p n cs)
  then obtain f' where f: "f = Suc f'" by (cases f) auto
  from Inner.prems(1) have n: "innerOk heads n" "nodeKids n = map rootPtr cs" "wfForest heads lo (nodeSeps n @ [up]) cs" by simp_all
  have "\<exists>t'. fold (\<lambda>c acc. Option.bind acc (destroy f' c)) (map rootPtr cs) (Some t) = Some t' \<and>
    t_brk t' = t_brk t \<and> t_root t' = t_root t \<and>
    (\<forall>q. q \<notin> fst ` set (concat (map nodes cs)) \<longrightarrow> t_pages t' q = t_pages t q)"
  proof (rule destroy_children)
    fix c and t2 :: btree assume c: "c \<in> set cs" "holdsNodes (t_pages t2) (nodes c)"
    from wfForest_children [OF n(3) c(1)] obtain lo2 up2 where w: "wfTree heads lo2 up2 c" by blast
    have "length (nodes c) \<le> f'" using Inner.prems(2) length_nodes_child [OF c(1)] by (simp add: f)
    moreover have "distinct (map fst (nodes c))"
      using Inner.prems(4) split_list [OF c(1)] by auto
    ultimately show "\<exists>t'. destroy f' (rootPtr c) t2 = Some t' \<and> t_brk t' = t_brk t2 \<and> t_root t' = t_root t2 \<and>
        (\<forall>q. q \<notin> fst ` set (nodes c) \<longrightarrow> t_pages t' q = t_pages t2 q)"
      using Inner.IH [OF c(1) w _ c(2)] by blast
  qed (use Inner.prems in simp_all)
  then show ?case
    using Inner.prems(3) inner_facts(1,3) [OF innerOk_inv [OF n(1)]] by (auto simp: f n(2) simp del: childPtrs.simps split: AnyNode.split)
qed

lemma leafOk_makeLeaf: "leafOk BTreeNode_makeLeaf" "fenced [] [] (Basic BTreeNode_makeLeaf)" "b_count BTreeNode_makeLeaf = 0"
  using leafInv_makeLeaf(1,2,5,6) length_fullEntries [of BTreeNode_makeLeaf] by (auto simp: leafOk_def fenced_def)

lemma BTree_new_content:
  assumes cfg: "\<not> enableHash cfg" and brk: "t_brk t + pageSizeLeaf \<le> memoryEnd" "0 < t_brk t" "t_brk t mod pageSizeLeaf = 0"
  shows "\<exists>t' T'. BTree_new cfg t = Some t' \<and> represents t' T' \<and> wfTree heads [] [] T' \<and> treeContent T' = Map.empty \<and>
    11 * (t_brk t div pageSizeLeaf) + 11 = credit t' T'"
proof -
  let ?t' = "t\<lparr>t_pages := (t_pages t)(t_brk t \<mapsto> Basic BTreeNode_makeLeaf), t_brk := t_brk t + pageSizeLeaf,
      t_root := t_brk t\<rparr>" and ?T' = "Leaf (t_brk t) BTreeNode_makeLeaf"
  have "BTree_new cfg t = Some ?t'" using cfg brk by (simp add: BTree_new_def allocPage_def makeRootLeaf_def)
  moreover have "represents ?t' ?T'" using brk by (simp add: represents_def pageAddr_def pageSizeLeaf_def)
  moreover have "wfTree heads [] [] ?T'" using leafOk_makeLeaf by simp
  moreover have "treeContent ?T' = Map.empty" by (simp add: treeContent_def leafInv_makeLeaf(2))
  moreover have "11 * (t_brk t div pageSizeLeaf) + 11 = credit ?t' ?T'"
  proof -
    have "(t_brk t + pageSizeLeaf) div pageSizeLeaf = t_brk t div pageSizeLeaf + 1"
      by (rule div_add_self2) (simp add: pageSizeLeaf_def)
    then show ?thesis by (simp add: credit_def treeWeight_def leafOk_makeLeaf weight_def)
  qed
  ultimately show ?thesis by blast
qed

lemma clearImpl_content:
  assumes cfg: "\<not> enableHash cfg" and rep: "represents t T" and wf: "wfTree heads [] [] T"
    and cred: "credit t T + 11 \<le> creditLimit"
  shows "\<exists>t' T'. clearImpl cfg t = Some t' \<and> represents t' T' \<and> wfTree heads [] [] T' \<and> treeContent T' = Map.empty \<and>
    credit t' T' \<le> credit t T + 11"
proof -
  note rp = rep [unfolded represents_def]
  have "t_root t \<noteq> nullptr" using rp by (auto simp: nodes_below [of T] pageAddr_def nullptr_def)
  moreover have "length (nodes T) \<le> heightBound t" using pages_bound [OF rep] by (simp add: heightBound_def)
  with destroy_tree [OF wf this, of t] rp obtain t1 where t1: "destroy (heightBound t) (t_root t) t = Some t1"
    "t_brk t1 = t_brk t" by auto
  moreover have "t_brk t1 + pageSizeLeaf \<le> memoryEnd" "0 < t_brk t1" "t_brk t1 mod pageSizeLeaf = 0"
  proof -
    have "t_brk t = pageSizeLeaf * (t_brk t div pageSizeLeaf)" using rp by auto
    then show "t_brk t1 + pageSizeLeaf \<le> memoryEnd"
      using cred t1(2) by (simp add: credit_def creditLimit_def memoryEnd_def pageSizeLeaf_def)
    show "0 < t_brk t1" "t_brk t1 mod pageSizeLeaf = 0"
      using rp t1(2) by (auto simp: nodes_below [of T] pageAddr_def)
  qed
  from BTree_new_content [OF cfg this] obtain t' T' where t': "BTree_new cfg t1 = Some t'" "represents t' T'"
    "wfTree heads [] [] T'" "treeContent T' = Map.empty" "11 * (t_brk t1 div pageSizeLeaf) + 11 = credit t' T'" by blast
  moreover have "credit t' T' \<le> credit t T + 11" using t'(5) t1(2) by (simp add: credit_def)
  ultimately show ?thesis by (intro exI [of _ t'] exI [of _ T']) (simp add: clearImpl_def)
qed

subsection \<open>The memory estimate\<close>

lemma memoryUsage_tree:
  assumes "wfTree heads lo up T" "length (nodes T) \<le> f" "holdsNodes pages (nodes T)" "nullptr \<notin> fst ` set (nodes T)"
  shows "memoryUsage f pages (rootPtr T) used = Some (used + pageSizeLeaf * length (nodes T))"
  using assms
proof (induction T arbitrary: lo up f used)
  case (Leaf p n)
  then obtain f' where f: "f = Suc f'" by (cases f) auto
  have "childPtrs (Basic n) = []" using Leaf.prems(1) leaf_not_inner [of n] by auto
  with Leaf.prems show ?case by (simp add: f pageSizeInner_def pageSizeLeaf_def)
next
  case (Inner p n cs)
  then obtain f' where f: "f = Suc f'" by (cases f) auto
  from Inner.prems(1) have n: "innerOk heads n" "nodeKids n = map rootPtr cs" "wfForest heads lo (nodeSeps n @ [up]) cs" by simp_all
  have child: "memoryUsage f' pages (rootPtr c) u = Some (u + pageSizeLeaf * length (nodes c))" if "c \<in> set cs" for c u
  proof -
    from wfForest_children [OF n(3) that] obtain lo2 up2 where w: "wfTree heads lo2 up2 c" by blast
    have "length (nodes c) \<le> f'" using Inner.prems(2) length_nodes_child [OF that] by (simp add: f)
    moreover have "holdsNodes pages (nodes c)" "nullptr \<notin> fst ` set (nodes c)"
      using Inner.prems(3,4) that by (auto simp: holdsNodes_def)
    ultimately show ?thesis using Inner.IH [OF that w] by blast
  qed
  have "fold (\<lambda>c acc. Option.bind acc (memoryUsage f' pages c)) (map rootPtr cs) (Some u) =
      Some (u + pageSizeLeaf * length (concat (map nodes cs)))" for u
    using child by (induction cs arbitrary: u) (simp_all add: algebra_simps)
  then show ?case
    using Inner.prems(3,4) inner_facts(1,3) [OF innerOk_inv [OF n(1)]]
    by (auto simp: f n(2) pageSizeInner_def pageSizeLeaf_def simp del: childPtrs.simps)
qed

lemma approximateMemoryUsage_tree:
  assumes "represents t T" "wfTree heads [] [] T"
  shows "approximateMemoryUsage t = Some (8 + pageSizeLeaf * length (nodes T))"
proof -
  have "nullptr \<notin> fst ` set (nodes T)" using assms(1) by (auto simp: represents_def pageAddr_def nullptr_def)
  then show ?thesis
    using memoryUsage_tree [OF assms(2), of "heightBound t" "t_pages t"] pages_bound [OF assms(1)] assms(1)
    by (simp add: approximateMemoryUsage_def represents_def heightBound_def sizeof_BTree_def)
qed

end
