(* ===== verification/RespConnection.thy ===== *)
theory RespConnection
  imports RespTypes
begin

text \<open>
  A client connection of the server: \<open>resp_connection.cpp\<close> with its read and write buffers, and
  the reader of RESP values on top of it, \<open>resp_deserializer.cpp\<close>. The socket operations of
  \<open>boost::asio\<close>, the string functions of \<open>boost::algorithm\<close> and the allocator are not part of the
  repository: they are the fields of an environment record, over a network state of any type.
\<close>

subsection \<open>The environment\<close>

datatype net_error = Eof | Net_error

text \<open>\<open>asio_read k\<close> transfers at least \<open>k\<close> bytes into the read buffer, \<open>asio_read_until c\<close> reads
  until the buffer holds \<open>c\<close>; both give the bytes they appended and the error, if any.
  \<open>reserve_ok n\<close>: a container can reserve \<open>n\<close> elements without an exception.\<close>

record 'n environment =
  asio_read :: "nat \<Rightarrow> 'n \<Rightarrow> string \<times> net_error option \<times> 'n"
  asio_read_until :: "char \<Rightarrow> string \<Rightarrow> 'n \<Rightarrow> string \<times> net_error option \<times> 'n"
  asio_write :: "string \<Rightarrow> 'n \<Rightarrow> net_error option \<times> 'n"
  reserve_ok :: "nat \<Rightarrow> bool"
  to_lower_copy :: "string \<Rightarrow> string"
  iequals :: "string \<Rightarrow> string \<Rightarrow> bool"

datatype failure = connection_closed | runtime_error | allocation_failure | undefined_behaviour | out_of_fuel

record 'n conn =
  readBuf :: string
  writeBuf :: string
  socket :: 'n

type_synonym ('n, 'a) io = "'n conn \<Rightarrow> failure + 'a \<times> 'n conn"

subsection \<open>The connection\<close>

definition requireData :: "'n environment \<Rightarrow> nat \<Rightarrow> ('n, unit) io" where
  "requireData env bytes c =
     (if length (readBuf c) < bytes then
        (let (d, e, n) = asio_read env (bytes - length (readBuf c)) (socket c)
         in if e = Some Eof then Inl connection_closed
            else if e \<noteq> None then Inl connection_closed
            else Inr ((), c\<lparr>readBuf := readBuf c @ d, socket := n\<rparr>))
      else Inr ((), c))"

definition requireDataUntil :: "'n environment \<Rightarrow> char \<Rightarrow> ('n, unit) io" where
  "requireDataUntil env byte c =
     (let (d, e, n) = asio_read_until env byte (readBuf c) (socket c)
      in if e = Some Eof then Inl connection_closed
         else if e \<noteq> None then Inl connection_closed
         else Inr ((), c\<lparr>readBuf := readBuf c @ d, socket := n\<rparr>))"

definition flush :: "'n environment \<Rightarrow> ('n, unit) io" where
  "flush env c =
     (if length (writeBuf c) = 0 then Inr ((), c)
      else
        (let (e, n) = asio_write env (writeBuf c) (socket c)
         in if e = Some Eof then Inl connection_closed
            else if e \<noteq> None then Inl connection_closed
            else Inr ((), c\<lparr>writeBuf := [], socket := n\<rparr>)))"

definition conn_send :: "'n environment \<Rightarrow> resp_value \<Rightarrow> ('n, unit) io" where
  "conn_send env value c =
     (case writeValue value of
        None \<Rightarrow> Inl undefined_behaviour
      | Some s \<Rightarrow> flush env (c\<lparr>writeBuf := writeBuf c @ s\<rparr>))"

subsection \<open>Reading values\<close>

text \<open>\<open>input.get()\<close>; at the end of the buffer it is \<open>EOF\<close>, which the casts turn into 0xFF.\<close>

definition input_get :: "'n conn \<Rightarrow> char \<times> 'n conn" where
  "input_get c = (case readBuf c of [] \<Rightarrow> (CHR 0xFF, c) | b # bs \<Rightarrow> (b, c\<lparr>readBuf := bs\<rparr>))"

definition readByte :: "'n environment \<Rightarrow> ('n, char) io" where
  "readByte env c = (case requireData env 1 c of Inl e \<Rightarrow> Inl e | Inr (_, c') \<Rightarrow> Inr (input_get c'))"

definition expect :: "'n environment \<Rightarrow> char \<Rightarrow> ('n, unit) io" where
  "expect env byte c =
     (case readByte env c of
        Inl e \<Rightarrow> Inl e
      | Inr (b, c') \<Rightarrow> if b \<noteq> byte then Inl runtime_error else Inr ((), c'))"

text \<open>The loop of \<open>readInteger\<close> over the buffered bytes up to the carriage return: the absolute
  value, the sign flag and the bytes left. The code accumulates in a signed \<open>long\<close>; where that overflows (a number
  out of range, or the absolute value of the least number) this is the value the machine wraps to.\<close>

fun readIntegerLoop :: "string \<Rightarrow> int64 \<Rightarrow> bool \<Rightarrow> failure + (int64 \<times> bool \<times> string)" where
  "readIntegerLoop [] value negative = Inl runtime_error"
| "readIntegerLoop (byte # bs) value negative =
     (if is_digit byte then readIntegerLoop bs (value * 10 + word_of_nat (digit_val byte)) negative
      else if byte = CR then Inr (value, negative, bs)
      else if byte = CHR ''+'' then readIntegerLoop bs value negative
      else if byte = CHR ''-'' then readIntegerLoop bs value True
      else Inl runtime_error)"

definition readInteger :: "'n environment \<Rightarrow> ('n, int64) io" where
  "readInteger env c =
     (case requireDataUntil env CR c of
        Inl e \<Rightarrow> Inl e
      | Inr (_, c1) \<Rightarrow>
          (case readIntegerLoop (readBuf c1) 0 False of
             Inl e \<Rightarrow> Inl e
           | Inr (value, negative, rest) \<Rightarrow>
               (case expect env LF (c1\<lparr>readBuf := rest\<rparr>) of
                  Inl e \<Rightarrow> Inl e
                | Inr (_, c2) \<Rightarrow> Inr (if negative then - value else value, c2))))"

definition readSimpleString :: "'n environment \<Rightarrow> ('n, string) io" where
  "readSimpleString env c =
     (case requireDataUntil env CR c of
        Inl e \<Rightarrow> Inl e
      | Inr (_, c1) \<Rightarrow>
          (let str = takeWhile (\<lambda>b. b \<noteq> CR) (readBuf c1);
               c2 = c1\<lparr>readBuf := drop 1 (dropWhile (\<lambda>b. b \<noteq> CR) (readBuf c1))\<rparr>
           in case expect env LF c2 of Inl e \<Rightarrow> Inl e | Inr (_, c3) \<Rightarrow> Inr (str, c3)))"

definition readError :: "'n environment \<Rightarrow> ('n, string) io" where
  "readError env c =
     (case requireDataUntil env CR c of
        Inl e \<Rightarrow> Inl e
      | Inr (_, c1) \<Rightarrow>
          (let str = takeWhile (\<lambda>b. b \<noteq> CR) (readBuf c1);
               c2 = c1\<lparr>readBuf := drop 1 (dropWhile (\<lambda>b. b \<noteq> CR) (readBuf c1))\<rparr>
           in case expect env LF c2 of Inl e \<Rightarrow> Inl e | Inr (_, c3) \<Rightarrow> Inr (str, c3)))"

text \<open>\<open>std::copy_n\<close> reads \<open>length\<close> characters but leaves the last one in the stream, which the
  following \<open>get\<close> takes.\<close>

definition readBulkString :: "'n environment \<Rightarrow> ('n, string) io" where
  "readBulkString env c =
     (case readInteger env c of
        Inl e \<Rightarrow> Inl e
      | Inr (len, c1) \<Rightarrow>
          (case requireData env (unat (len + 2)) c1 of
             Inl e \<Rightarrow> Inl e
           | Inr (_, c2) \<Rightarrow>
               if \<not> reserve_ok env (unat len) then Inl allocation_failure
               else
                 (let n = nat (sint len);
                      str = take n (readBuf c2);
                      c3 = c2\<lparr>readBuf := drop (n - 1) (readBuf c2)\<rparr>;
                      c4 = (if len \<noteq> 0 then snd (input_get c3) else c3)
                  in case expect env CR c4 of
                       Inl e \<Rightarrow> Inl e
                     | Inr (_, c5) \<Rightarrow>
                         (case expect env LF c5 of Inl e \<Rightarrow> Inl e | Inr (_, c6) \<Rightarrow> Inr (str, c6)))))"

text \<open>The mutual recursion of \<open>readValue\<close> and \<open>readArray\<close> ends only with the input, so it gets
  fuel: one unit per nested call and per array element.\<close>

fun readValue :: "nat \<Rightarrow> 'n environment \<Rightarrow> ('n, resp_value) io"
  and readItems :: "nat \<Rightarrow> 'n environment \<Rightarrow> nat \<Rightarrow> ('n, resp_value list) io" where
  "readValue 0 env c = Inl out_of_fuel"
| "readValue (Suc f) env c =
     (case readByte env c of
        Inl e \<Rightarrow> Inl e
      | Inr (valueType, c1) \<Rightarrow>
          if valueType = resp_INTEGER then
            (case readInteger env c1 of Inl e \<Rightarrow> Inl e | Inr (v, c2) \<Rightarrow> Inr (integer_value v, c2))
          else if valueType = resp_STRING then
            (case readSimpleString env c1 of Inl e \<Rightarrow> Inl e | Inr (s, c2) \<Rightarrow> Inr (simple_string s, c2))
          else if valueType = resp_ERR then
            (case readError env c1 of Inl e \<Rightarrow> Inl e | Inr (s, c2) \<Rightarrow> Inr (error_value s, c2))
          else if valueType = resp_BULK_STRING then
            (case readBulkString env c1 of Inl e \<Rightarrow> Inl e | Inr (s, c2) \<Rightarrow> Inr (bulk_string (Some s), c2))
          else if valueType = resp_ARRAY then
            (case readInteger env c1 of
               Inl e \<Rightarrow> Inl e
             | Inr (len, c2) \<Rightarrow>
                 if \<not> reserve_ok env (unat len) then Inl allocation_failure
                 else (case readItems f env (nat (sint len)) c2 of
                         Inl e \<Rightarrow> Inl e
                       | Inr (xs, c3) \<Rightarrow> Inr (array_value xs, c3)))
          else Inl runtime_error)"
| "readItems f env 0 c = Inr ([], c)"
| "readItems 0 env (Suc k) c = Inl out_of_fuel"
| "readItems (Suc f) env (Suc k) c =
     (case readValue f env c of
        Inl e \<Rightarrow> Inl e
      | Inr (x, c1) \<Rightarrow>
          (case readItems f env k c1 of Inl e \<Rightarrow> Inl e | Inr (xs, c2) \<Rightarrow> Inr (x # xs, c2)))"

definition readCommand :: "nat \<Rightarrow> 'n environment \<Rightarrow> ('n, resp_value list) io" where
  "readCommand fuel env c =
     (case readValue fuel env c of
        Inl e \<Rightarrow> Inl e
      | Inr (val, c1) \<Rightarrow>
          (case getAsArray val of None \<Rightarrow> Inl runtime_error | Some xs \<Rightarrow> Inr (xs, c1)))"

text \<open>\<open>run\<close>: commands until the peer closes the connection. The handler works on the server state
  \<open>'s\<close> and the connection; it may fail after it changed the state. The loop ends only with the
  connection, so it gets fuel; \<open>connection_closed\<close> is caught, any other failure leaves \<open>run\<close>.\<close>

type_synonym ('n, 's) command_handler =
  "resp_value list \<Rightarrow> 's \<Rightarrow> 'n conn \<Rightarrow> (failure + 'n conn) \<times> 's"

fun run :: "nat \<Rightarrow> nat \<Rightarrow> 'n environment \<Rightarrow> ('n, 's) command_handler \<Rightarrow> 's \<Rightarrow> 'n conn \<Rightarrow> failure option \<times> 's" where
  "run 0 fuel env handler s c = (Some out_of_fuel, s)"
| "run (Suc k) fuel env handler s c =
     (case readCommand fuel env c of
        Inl connection_closed \<Rightarrow> (None, s)
      | Inl e \<Rightarrow> (Some e, s)
      | Inr (command, c1) \<Rightarrow>
          (case handler command s c1 of
             (Inl connection_closed, s1) \<Rightarrow> (None, s1)
           | (Inl e, s1) \<Rightarrow> (Some e, s1)
           | (Inr c2, s1) \<Rightarrow> run k fuel env handler s1 c2))"

text \<open>\<open>main\<close>: one connection after the other on the same server state; a failure that leaves \<open>run\<close>
  terminates the server.\<close>

fun serve :: "nat \<Rightarrow> nat \<Rightarrow> 'n environment \<Rightarrow> ('n, 's) command_handler \<Rightarrow> 's \<Rightarrow> 'n list \<Rightarrow> failure option \<times> 's" where
  "serve k fuel env handler s [] = (None, s)"
| "serve k fuel env handler s (n # ns) =
     (case run k fuel env handler s \<lparr>readBuf = [], writeBuf = [], socket = n\<rparr> of
        (None, s1) \<Rightarrow> serve k fuel env handler s1 ns
      | (Some e, s1) \<Rightarrow> (Some e, s1))"

end
