(* ===== verification/RespRoundtrip.thy ===== *)
theory RespRoundtrip
  imports RespConnection
begin

text \<open>
  The reader against the writer: whatever pieces the network delivers its bytes in, reading gives
  back every value the serializer writes that the reader knows (all but the null bulk string,
  which it rejects). The laws of the socket are the assumptions of the locale \<open>byte_network\<close>; a
  network that delivers a list of chunks satisfies them.
\<close>

subsection \<open>Values that survive\<close>

fun readable :: "(nat \<Rightarrow> bool) \<Rightarrow> resp_value \<Rightarrow> bool" where
  "readable ok (resp_integer_value v) = True"
| "readable ok (resp_simple_string_value p) = (\<exists>s. p = Some s \<and> CR \<notin> set s)"
| "readable ok (resp_error_value p) = (\<exists>s. p = Some s \<and> CR \<notin> set s)"
| "readable ok (resp_bulk_string_value p) = (\<exists>s. p = Some s \<and> length s < 2 ^ 63 - 2 \<and> ok (length s))"
| "readable ok resp_null_bulk_string_value = False"
| "readable ok (resp_array_value xs) = (length xs < 2 ^ 63 \<and> ok (length xs) \<and> (\<forall>x \<in> set xs. readable ok x))"

fun fuelFor :: "resp_value \<Rightarrow> nat" and fuelForItems :: "resp_value list \<Rightarrow> nat" where
  "fuelFor (resp_array_value xs) = Suc (fuelForItems xs)"
| "fuelFor (resp_integer_value v) = 1"
| "fuelFor (resp_simple_string_value p) = 1"
| "fuelFor (resp_error_value p) = 1"
| "fuelFor (resp_bulk_string_value p) = 1"
| "fuelFor resp_null_bulk_string_value = 1"
| "fuelForItems [] = 0"
| "fuelForItems (x # xs) = Suc (max (fuelFor x) (fuelForItems xs))"

subsection \<open>Reading a printed integer\<close>

lemma readIntegerLoop_digits:
  "list_all is_digit ds \<Longrightarrow> readIntegerLoop (ds @ CR # s) (word_of_nat v) neg =
     Inr (word_of_nat (foldl (\<lambda>v c. v * 10 + digit_val c) v ds), neg, s)"
proof (induction ds arbitrary: v)
  case Nil
  have "\<not> is_digit CR" by (simp add: CR_def)
  then show ?case by simp
next
  case (Cons d ds)
  have "word_of_nat v * 10 + word_of_nat (digit_val d) = (word_of_nat (v * 10 + digit_val d) :: int64)"
    by simp
  with Cons.IH [of "v * 10 + digit_val d"] Cons.prems show ?case by (simp del: of_nat_add of_nat_mult)
qed

lemma readIntegerLoop_show_int:
  "\<exists>v neg. readIntegerLoop (show_int i @ CR # s) 0 False = Inr (v, neg, s) \<and>
     (if neg then - v else v) = word_of_int i"
proof -
  have d: "list_all is_digit (show_nat n)" for n using show_nat_digits by (auto simp: list_all_iff)
  have loop: "readIntegerLoop (show_nat n @ CR # s) 0 neg = Inr (word_of_nat n, neg, s)" for n neg
    using readIntegerLoop_digits [OF d, of n s 0 neg] digits_val_show_nat [of n] by (simp add: digits_val_def)
  show ?thesis
  proof (cases "i < 0")
    case True
    have "CHR ''-'' \<noteq> CR" by (simp add: CR_def)
    then have "readIntegerLoop (show_int i @ CR # s) 0 False = Inr (word_of_nat (nat (- i)), True, s)"
      using True loop by (simp add: show_int_def)
    with True show ?thesis
      by (intro exI [of _ "word_of_nat (nat (- i))"] exI [of _ True]) simp
  next
    case False
    then show ?thesis using loop [of "nat i" False]
      by (intro exI [of _ "word_of_nat (nat i)"] exI [of _ False]) (simp add: show_int_def)
  qed
qed

lemma CR_not_in_show_int: "CR \<notin> set (show_int i)"
  using show_nat_digits [of CR] by (auto simp: show_int_def CR_def)

subsection \<open>The socket\<close>

text \<open>\<open>pending n\<close>: the bytes the peer still sends before it closes the connection.\<close>

locale byte_network =
  fixes env :: "'n environment"
    and pending :: "'n \<Rightarrow> string"
  assumes read_data: "asio_read env k n = (d, None, n') \<Longrightarrow> pending n = d @ pending n' \<and> k \<le> length d"
    and read_error: "asio_read env k n = (d, Some e, n') \<Longrightarrow> length (pending n) < k"
    and until_data: "asio_read_until env b buf n = (d, None, n') \<Longrightarrow>
      pending n = d @ pending n' \<and> b \<in> set (buf @ d)"
    and until_error: "asio_read_until env b buf n = (d, Some e, n') \<Longrightarrow> b \<notin> set (buf @ pending n)"
    and write_pending: "asio_write env s n = (err, n') \<Longrightarrow> pending n' = pending n"
    and reserve_big: "2 ^ 63 \<le> k \<Longrightarrow> \<not> reserve_ok env k"
begin

definition stream :: "'n conn \<Rightarrow> string" where
  "stream c = readBuf c @ pending (socket c)"

lemma requireData_ok:
  assumes "k \<le> length (stream c)"
  obtains c' where "requireData env k c = Inr ((), c')" "stream c' = stream c" "k \<le> length (readBuf c')"
    "writeBuf c' = writeBuf c"
proof (cases "length (readBuf c) < k")
  case True
  obtain d e n where r: "asio_read env (k - length (readBuf c)) (socket c) = (d, e, n)" by (metis prod_cases3)
  have "e = None" using read_error r assms True by (cases e) (fastforce simp: stream_def)+
  with r have p: "pending (socket c) = d @ pending n" "k - length (readBuf c) \<le> length d"
    using read_data by blast+
  then have "k \<le> length (readBuf c @ d)" by simp
  with r p True \<open>e = None\<close> that [of "c\<lparr>readBuf := readBuf c @ d, socket := n\<rparr>"]
  show thesis by (simp add: requireData_def stream_def)
qed (use that [of c] in \<open>simp add: requireData_def\<close>)

lemma requireData_closed:
  "length (stream c) < k \<Longrightarrow> requireData env k c = Inl connection_closed"
proof -
  assume len: "length (stream c) < k"
  obtain d e n where r: "asio_read env (k - length (readBuf c)) (socket c) = (d, e, n)" by (metis prod_cases3)
  have "e \<noteq> None"
  proof
    assume "e = None"
    with r have "pending (socket c) = d @ pending n" "k - length (readBuf c) \<le> length d"
      using read_data by blast+
    with len show False by (auto simp: stream_def)
  qed
  with r len show ?thesis by (auto simp: requireData_def stream_def)
qed

lemma requireDataUntil_ok:
  assumes "b \<in> set (stream c)"
  obtains c' where "requireDataUntil env b c = Inr ((), c')" "stream c' = stream c" "b \<in> set (readBuf c')"
    "writeBuf c' = writeBuf c"
proof -
  obtain d e n where r: "asio_read_until env b (readBuf c) (socket c) = (d, e, n)" by (metis prod_cases3)
  have "e = None" using until_error r assms by (cases e) (fastforce simp: stream_def)+
  with r until_data [of b "readBuf c" "socket c" d n] that [of "c\<lparr>readBuf := readBuf c @ d, socket := n\<rparr>"]
  show thesis by (simp add: requireDataUntil_def stream_def)
qed

lemma readByte_ok:
  assumes "stream c = b # s"
  obtains c' where "readByte env c = Inr (b, c')" "stream c' = s" "writeBuf c' = writeBuf c"
proof -
  obtain c1 where c1: "requireData env 1 c = Inr ((), c1)" "stream c1 = stream c" "1 \<le> length (readBuf c1)"
    "writeBuf c1 = writeBuf c"
    by (rule requireData_ok [of 1 c]) (simp add: assms)
  then obtain x xs where x: "readBuf c1 = x # xs" by (cases "readBuf c1") auto
  then have "x = b" "stream (c1\<lparr>readBuf := xs\<rparr>) = s" using c1(2) assms by (simp_all add: stream_def)
  with that [of "c1\<lparr>readBuf := xs\<rparr>"] c1 x show thesis by (simp add: readByte_def input_get_def)
qed

lemma readByte_closed: "stream c = [] \<Longrightarrow> readByte env c = Inl connection_closed"
  by (simp add: readByte_def requireData_closed)

lemma expect_ok:
  assumes "stream c = b # s"
  obtains c' where "expect env b c = Inr ((), c')" "stream c' = s" "writeBuf c' = writeBuf c"
proof -
  obtain c' where "readByte env c = Inr (b, c')" "stream c' = s" "writeBuf c' = writeBuf c"
    by (rule readByte_ok [OF assms])
  with that [of c'] show thesis by (simp add: expect_def)
qed

lemma first_split:
  "xs @ b # ys = pre @ b # s \<Longrightarrow> b \<notin> set xs \<Longrightarrow> b \<notin> set pre \<Longrightarrow> xs = pre \<and> ys = s"
proof (induction xs arbitrary: pre)
  case Nil
  then show ?case by (cases pre) auto
next
  case (Cons x xs)
  then show ?case by (cases pre) auto
qed

lemma split_at_CR:
  assumes "b \<in> set buf" "buf @ p = pre @ b # s" "b \<notin> set pre"
  obtains m where "buf = pre @ b # m" "m @ p = s"
proof -
  obtain xs ys where xy: "buf = xs @ b # ys" "b \<notin> set xs" using assms(1) by (meson split_list_first)
  with assms(2) have "xs @ b # (ys @ p) = pre @ b # s" by simp
  from first_split [OF this xy(2) assms(3)] xy that show thesis by simp
qed

lemma readInteger_ok:
  assumes "stream c = show_int i @ [CR, LF] @ s"
  obtains c' where "readInteger env c = Inr (word_of_int i, c')" "stream c' = s" "writeBuf c' = writeBuf c"
proof -
  obtain c1 where c1: "requireDataUntil env CR c = Inr ((), c1)" "stream c1 = stream c" "CR \<in> set (readBuf c1)"
    "writeBuf c1 = writeBuf c"
    by (rule requireDataUntil_ok [of CR c]) (simp add: assms)
  have "readBuf c1 @ pending (socket c1) = show_int i @ CR # LF # s"
    using c1(2) assms by (simp add: stream_def)
  then obtain m where m: "readBuf c1 = show_int i @ CR # m" "m @ pending (socket c1) = LF # s"
    by (rule split_at_CR [OF c1(3) _ CR_not_in_show_int])
  obtain v neg where v: "readIntegerLoop (readBuf c1) 0 False = Inr (v, neg, m)"
    "(if neg then - v else v) = word_of_int i"
    using readIntegerLoop_show_int [of i m] m(1) by auto
  have "stream (c1\<lparr>readBuf := m\<rparr>) = LF # s" using m(2) by (simp add: stream_def)
  then obtain c2 where "expect env LF (c1\<lparr>readBuf := m\<rparr>) = Inr ((), c2)" "stream c2 = s"
    "writeBuf c2 = writeBuf (c1\<lparr>readBuf := m\<rparr>)" by (rule expect_ok)
  with c1 v that [of c2] show thesis by (simp add: readInteger_def)
qed

lemma readSimpleString_ok:
  assumes "stream c = str @ [CR, LF] @ s" "CR \<notin> set str"
  obtains c' where "readSimpleString env c = Inr (str, c')" "stream c' = s" "writeBuf c' = writeBuf c"
proof -
  obtain c1 where c1: "requireDataUntil env CR c = Inr ((), c1)" "stream c1 = stream c" "CR \<in> set (readBuf c1)"
    "writeBuf c1 = writeBuf c"
    by (rule requireDataUntil_ok [of CR c]) (simp add: assms)
  have "readBuf c1 @ pending (socket c1) = str @ CR # LF # s" using c1(2) assms by (simp add: stream_def)
  then obtain m where m: "readBuf c1 = str @ CR # m" "m @ pending (socket c1) = LF # s"
    by (rule split_at_CR [OF c1(3) _ assms(2)])
  have tw: "takeWhile (\<lambda>b. b \<noteq> CR) (readBuf c1) = str" "drop 1 (dropWhile (\<lambda>b. b \<noteq> CR) (readBuf c1)) = m"
    unfolding m(1) by (use assms(2) in \<open>subst takeWhile_append2; auto\<close>, use assms(2) in \<open>subst dropWhile_append2; auto\<close>)
  have "stream (c1\<lparr>readBuf := m\<rparr>) = LF # s" using m(2) by (simp add: stream_def)
  then obtain c2 where "expect env LF (c1\<lparr>readBuf := m\<rparr>) = Inr ((), c2)" "stream c2 = s"
    "writeBuf c2 = writeBuf (c1\<lparr>readBuf := m\<rparr>)" by (rule expect_ok)
  with c1 that [of c2] show thesis by (simp add: readSimpleString_def tw(1) tw(2) [unfolded One_nat_def])
qed

lemma readError_eq: "readError env = readSimpleString env"
  by (simp add: readError_def readSimpleString_def fun_eq_iff)

lemma readBulkString_ok:
  assumes st: "stream c = show_nat (length str) @ [CR, LF] @ str @ [CR, LF] @ s"
    and len: "length str < 2 ^ 63 - 2" and ok: "reserve_ok env (length str)"
  obtains c' where "readBulkString env c = Inr (str, c')" "stream c' = s" "writeBuf c' = writeBuf c"
proof -
  let ?len = "word_of_nat (length str) :: int64"
  have "stream c = show_int (int (length str)) @ [CR, LF] @ (str @ [CR, LF] @ s)"
    using st by (simp add: show_int_def)
  then obtain c1 where c1: "readInteger env c = Inr (?len, c1)" "stream c1 = str @ [CR, LF] @ s"
    "writeBuf c1 = writeBuf c"
    by (rule readInteger_ok) simp
  have u: "unat ?len = length str" "unat (?len + 2) = length str + 2"
    using len by (simp_all add: unat_of_nat unat_word_ariths)
  have sl: "nat (sint ?len) = length str"
    using len by (simp add: sint_int64_of_nat)
  obtain c2 where c2: "requireData env (length str + 2) c1 = Inr ((), c2)" "stream c2 = stream c1"
    "length str + 2 \<le> length (readBuf c2)" "writeBuf c2 = writeBuf c1"
    by (rule requireData_ok [of "length str + 2" c1]) (simp add: c1(2))
  define c4 where "c4 = c2\<lparr>readBuf := drop (length str) (readBuf c2)\<rparr>"
  have st2: "readBuf c2 @ pending (socket c2) = str @ [CR, LF] @ s" using c2(2) c1(2) by (simp add: stream_def)
  then have tk: "take (length str) (readBuf c2) = str"
    using c2(3) by (metis append_eq_conv_conj le_add1 order_trans take_append take_all_iff diff_is_0_eq take0 append_Nil2)
  have "str @ drop (length str) (readBuf c2) @ pending (socket c2) = str @ [CR, LF] @ s"
    using st2 by (metis append_assoc append_take_drop_id tk)
  then have st4: "stream c4 = CR # LF # s" by (simp add: stream_def c4_def)
  have get: "(if ?len \<noteq> 0 then snd (input_get (c2\<lparr>readBuf := drop (length str - 1) (readBuf c2)\<rparr>))
      else c2\<lparr>readBuf := drop (length str - 1) (readBuf c2)\<rparr>) = c4"
  proof (cases "str = []")
    case False
    then have "?len \<noteq> 0" using u(1) by (metis length_0_conv unat_0)
    moreover have "drop (length str - 1) (readBuf c2) = readBuf c2 ! (length str - 1) # drop (length str) (readBuf c2)"
      using c2(3) False Cons_nth_drop_Suc [of "length str - 1" "readBuf c2"] by simp
    ultimately show ?thesis by (simp add: input_get_def c4_def)
  qed (simp add: c4_def)
  obtain c5 where c5: "expect env CR c4 = Inr ((), c5)" "stream c5 = LF # s" "writeBuf c5 = writeBuf c4"
    by (rule expect_ok [OF st4])
  obtain c6 where c6: "expect env LF c5 = Inr ((), c6)" "stream c6 = s" "writeBuf c6 = writeBuf c5"
    by (rule expect_ok [OF c5(2)])
  have "readBulkString env c = Inr (str, c6)"
    by (simp only: readBulkString_def c1(1) sum.case prod.case u c2(1) ok not_True_eq_False if_False sl
        Let_def get c5(1) c6(1) tk)
  with that c6 c5 c2 c1 show thesis by (simp add: c4_def)
qed

lemma readable_no_null: "readable ok v \<Longrightarrow> writeValue v \<noteq> None"
  and readable_items_no_null: "\<forall>x \<in> set xs. readable ok x \<Longrightarrow> writeItems xs \<noteq> None"
  by (induction v and xs rule: writeValue_writeItems.induct)
    (auto simp: writeValue.simps(1) split: option.splits resp_value.splits)

lemma readValue_write:
  "writeValue v = Some s \<Longrightarrow> readable (reserve_ok env) v \<Longrightarrow> fuelFor v \<le> f \<Longrightarrow> stream c = s @ rest \<Longrightarrow>
    \<exists>c'. readValue f env c = Inr (v, c') \<and> stream c' = rest \<and> writeBuf c' = writeBuf c"
  and readItems_write:
  "writeItems xs = Some s \<Longrightarrow> \<forall>x \<in> set xs. readable (reserve_ok env) x \<Longrightarrow> fuelForItems xs \<le> f \<Longrightarrow>
    stream c = s @ rest \<Longrightarrow>
    \<exists>c'. readItems f env (length xs) c = Inr (xs, c') \<and> stream c' = rest \<and> writeBuf c' = writeBuf c"
proof (induction v and xs arbitrary: f s c rest and f s c rest rule: fuelFor_fuelForItems.induct)
  case (1 xs)
  then obtain t where t: "writeItems xs = Some t" "s = [resp_ARRAY] @ show_nat (length xs) @ [CR] @ [LF] @ t"
    by (auto split: option.splits)
  from 1 obtain g where f: "f = Suc g" "fuelForItems xs \<le> g" by (cases f) auto
  have "stream c = resp_ARRAY # (show_int (int (length xs)) @ [CR, LF] @ (t @ rest))"
    using 1 t by (simp add: show_int_def)
  then obtain c1 where c1: "readByte env c = Inr (resp_ARRAY, c1)" "writeBuf c1 = writeBuf c"
    "stream c1 = show_int (int (length xs)) @ [CR, LF] @ (t @ rest)"
    by (rule readByte_ok)
  obtain c2 where c2: "readInteger env c1 = Inr (word_of_int (int (length xs)), c2)" "stream c2 = t @ rest"
    "writeBuf c2 = writeBuf c1"
    by (rule readInteger_ok [OF c1(3)])
  have len: "length xs < 2 ^ 63" "reserve_ok env (length xs)" using 1 by auto
  then have u: "unat (word_of_nat (length xs) :: int64) = length xs" "sint (word_of_nat (length xs) :: int64) = int (length xs)"
    by (simp_all add: unat_of_nat sint_int64_of_nat)
  obtain c3 where "readItems g env (length xs) c2 = Inr (xs, c3)" "stream c3 = rest" "writeBuf c3 = writeBuf c2"
    using 1 t f c2 by (metis readable.simps(6))
  with c1 c2 f len u show ?case
    by (auto simp: resp_type_defs array_value_def)
next
  case (2 v)
  then obtain g where f: "f = Suc g" by (cases f) auto
  have "stream c = resp_INTEGER # (show_int (sint v) @ [CR, LF] @ rest)"
    using 2 by (auto simp: writeInteger_def)
  then obtain c1 where c1: "readByte env c = Inr (resp_INTEGER, c1)" "writeBuf c1 = writeBuf c"
    "stream c1 = show_int (sint v) @ [CR, LF] @ rest"
    by (rule readByte_ok)
  obtain c2 where "readInteger env c1 = Inr (word_of_int (sint v), c2)" "stream c2 = rest" "writeBuf c2 = writeBuf c1"
    by (rule readInteger_ok [OF c1(3)])
  with c1 f show ?case by (simp add: integer_value_def)
next
  case (3 p)
  then obtain g str where f: "f = Suc g" and p: "p = Some str" "CR \<notin> set str" by (cases f) auto
  have "stream c = resp_STRING # (str @ [CR, LF] @ rest)"
    using 3 p by (auto simp: writeSimpleString_def)
  then obtain c1 where c1: "readByte env c = Inr (resp_STRING, c1)" "writeBuf c1 = writeBuf c"
    "stream c1 = str @ [CR, LF] @ rest"
    by (rule readByte_ok)
  obtain c2 where "readSimpleString env c1 = Inr (str, c2)" "stream c2 = rest" "writeBuf c2 = writeBuf c1"
    by (rule readSimpleString_ok [OF c1(3) p(2)])
  with c1 f p show ?case by (simp add: resp_type_defs simple_string_def)
next
  case (4 p)
  then obtain g str where f: "f = Suc g" and p: "p = Some str" "CR \<notin> set str" by (cases f) auto
  have "stream c = resp_ERR # (str @ [CR, LF] @ rest)"
    using 4 p by (auto simp: writeError_def)
  then obtain c1 where c1: "readByte env c = Inr (resp_ERR, c1)" "writeBuf c1 = writeBuf c"
    "stream c1 = str @ [CR, LF] @ rest"
    by (rule readByte_ok)
  obtain c2 where "readSimpleString env c1 = Inr (str, c2)" "stream c2 = rest" "writeBuf c2 = writeBuf c1"
    by (rule readSimpleString_ok [OF c1(3) p(2)])
  with c1 f p show ?case by (simp add: resp_type_defs error_value_def readError_eq)
next
  case (5 p)
  then obtain g str where f: "f = Suc g"
    and p: "p = Some str" "length str < 2 ^ 63 - 2" "reserve_ok env (length str)" by (cases f) auto
  have "stream c = resp_BULK_STRING # (show_nat (length str) @ [CR, LF] @ str @ [CR, LF] @ rest)"
    using 5 p by (auto simp: writeBulkString_def)
  then obtain c1 where c1: "readByte env c = Inr (resp_BULK_STRING, c1)" "writeBuf c1 = writeBuf c"
    "stream c1 = show_nat (length str) @ [CR, LF] @ str @ [CR, LF] @ rest"
    by (rule readByte_ok)
  obtain c2 where "readBulkString env c1 = Inr (str, c2)" "stream c2 = rest" "writeBuf c2 = writeBuf c1"
    by (rule readBulkString_ok [OF c1(3) p(2,3)])
  with c1 f p show ?case by (simp add: resp_type_defs bulk_string_def)
next
  case (8 x xs)
  then obtain sx t where w: "writeValue x = Some sx" "writeItems xs = Some t" "s = sx @ t"
    by (auto split: option.splits)
  from 8 obtain g where f: "f = Suc g" "fuelFor x \<le> g" "fuelForItems xs \<le> g" by (cases f) auto
  from 8 w f obtain c1 where c1: "readValue g env c = Inr (x, c1)" "stream c1 = t @ rest" "writeBuf c1 = writeBuf c"
    by (metis append_assoc list.set_intros(1))
  from 8 w f c1 obtain c2 where "readItems g env (length xs) c1 = Inr (xs, c2)" "stream c2 = rest"
    "writeBuf c2 = writeBuf c1"
    by (metis list.set_intros(2))
  with c1 f show ?case by simp
qed (auto simp: readItems.simps(1))

lemma readCommand_write:
  assumes "writeValue (resp_array_value xs) = Some s" "readable (reserve_ok env) (resp_array_value xs)"
    and "fuelFor (resp_array_value xs) \<le> f" "stream c = s @ rest"
  obtains c' where "readCommand f env c = Inr (xs, c')" "stream c' = rest" "writeBuf c' = writeBuf c"
proof -
  obtain c' where "readValue f env c = Inr (resp_array_value xs, c')" "stream c' = rest" "writeBuf c' = writeBuf c"
    using readValue_write [OF assms] by blast
  with that show thesis by (simp add: readCommand_def)
qed

lemma readCommand_closed: "0 < f \<Longrightarrow> stream c = [] \<Longrightarrow> readCommand f env c = Inl connection_closed"
  by (cases f) (simp_all add: readCommand_def readByte_closed)

text \<open>A sequence of commands on one connection; the handler answers without consuming input. The
  invariant of the state may depend on the number of commands to come.\<close>

lemma run_commands:
  assumes handler: "\<And>command s c k. command \<in> set commands \<Longrightarrow> I (Suc k) s \<Longrightarrow>
      \<exists>c'. handler command s c = (Inr c', step command s) \<and> stream c' = stream c \<and> I k (step command s)"
    and fuel: "\<forall>xs \<in> set commands. fuelFor (resp_array_value xs) \<le> fuel" "0 < fuel"
    and readable: "\<forall>xs \<in> set commands. readable (reserve_ok env) (resp_array_value xs)"
    and input: "stream c = concat (map (\<lambda>xs. the (writeValue (resp_array_value xs))) commands)"
    and start: "I (length commands) s"
  shows "run (Suc (length commands)) fuel env handler s c = (None, fold step commands s) \<and>
    I 0 (fold step commands s)"
  using assms
proof (induction commands arbitrary: s c)
  case Nil
  then show ?case by (simp add: readCommand_closed)
next
  case (Cons xs commands)
  obtain w where w: "writeValue (resp_array_value xs) = Some w"
    using readable_no_null [of "reserve_ok env" "resp_array_value xs"] Cons.prems(4) by auto
  obtain c1 where c1: "readCommand fuel env c = Inr (xs, c1)"
    "stream c1 = concat (map (\<lambda>xs. the (writeValue (resp_array_value xs))) commands)"
    by (rule readCommand_write [OF w, of fuel c]) (use Cons.prems w in auto)
  obtain c2 where c2: "handler xs s c1 = (Inr c2, step xs s)" "stream c2 = stream c1"
    "I (length commands) (step xs s)"
    using Cons.prems(1) [of xs "length commands" s c1] Cons.prems(6) by auto
  have "run (Suc (length commands)) fuel env handler (step xs s) c2 = (None, fold step commands (step xs s)) \<and>
      I 0 (fold step commands (step xs s))"
    by (rule Cons.IH) (use Cons.prems c1 c2 in auto)
  with c1 c2 show ?case by simp
qed

end

subsection \<open>A network that delivers chunks\<close>

fun chunk_read :: "nat \<Rightarrow> string list \<Rightarrow> string \<times> net_error option \<times> string list" where
  "chunk_read k [] = (if k = 0 then ([], None, []) else ([], Some Eof, []))"
| "chunk_read k (x # xs) =
     (if k = 0 then ([], None, x # xs)
      else (let (d, e, n) = chunk_read (k - length x) xs in (x @ d, e, n)))"

fun chunk_read_until :: "char \<Rightarrow> string \<Rightarrow> string list \<Rightarrow> string \<times> net_error option \<times> string list" where
  "chunk_read_until b buf [] = (if b \<in> set buf then ([], None, []) else ([], Some Eof, []))"
| "chunk_read_until b buf (x # xs) =
     (if b \<in> set buf then ([], None, x # xs)
      else (let (d, e, n) = chunk_read_until b (buf @ x) xs in (x @ d, e, n)))"

definition ascii_lower :: "char \<Rightarrow> char" where
  "ascii_lower c = (if 65 \<le> (of_char c :: nat) \<and> of_char c \<le> (90 :: nat) then char_of (of_char c + 32 :: nat) else c)"

definition chunk_env :: "string list environment" where
  "chunk_env = \<lparr>asio_read = chunk_read, asio_read_until = chunk_read_until, asio_write = (\<lambda>s n. (None, n)),
     reserve_ok = (\<lambda>k. k < 2 ^ 40), to_lower_copy = map ascii_lower,
     iequals = (\<lambda>s t. map ascii_lower s = map ascii_lower t)\<rparr>"

lemma chunk_read_data:
  "chunk_read k n = (d, None, n') \<Longrightarrow> concat n = d @ concat n' \<and> k \<le> length d"
  by (induction k n arbitrary: d n' rule: chunk_read.induct) (auto split: if_splits prod.splits)

lemma chunk_read_error: "chunk_read k n = (d, Some e, n') \<Longrightarrow> length (concat n) < k"
  by (induction k n arbitrary: d n' rule: chunk_read.induct) (fastforce split: if_splits prod.splits)+

lemma chunk_until_data:
  "chunk_read_until b buf n = (d, None, n') \<Longrightarrow> concat n = d @ concat n' \<and> b \<in> set (buf @ d)"
  by (induction b buf n arbitrary: d n' rule: chunk_read_until.induct) (auto split: if_splits prod.splits)

lemma chunk_until_error: "chunk_read_until b buf n = (d, Some e, n') \<Longrightarrow> b \<notin> set (buf @ concat n)"
  by (induction b buf n arbitrary: d n' rule: chunk_read_until.induct) (auto split: if_splits prod.splits)

interpretation chunk_net: byte_network chunk_env concat
proof
  fix k :: nat and n n' :: "string list" and d buf s :: string and b :: char
  show "concat n = d @ concat n' \<and> k \<le> length d" if "asio_read chunk_env k n = (d, None, n')"
    using that chunk_read_data by (simp add: chunk_env_def)
  show "length (concat n) < k" if "asio_read chunk_env k n = (d, Some e, n')" for e
    using that chunk_read_error by (simp add: chunk_env_def)
  show "concat n = d @ concat n' \<and> b \<in> set (buf @ d)" if "asio_read_until chunk_env b buf n = (d, None, n')"
    using that chunk_until_data by (simp add: chunk_env_def)
  show "b \<notin> set (buf @ concat n)" if "asio_read_until chunk_env b buf n = (d, Some e, n')" for e
    using that chunk_until_error by (simp add: chunk_env_def)
  show "concat n' = concat n" if "asio_write chunk_env s n = (err, n')" for err
    using that by (simp add: chunk_env_def)
  show "\<not> reserve_ok chunk_env k" if "2 ^ 63 \<le> k"
    using that by (simp add: chunk_env_def)
qed

subsection \<open>Properties\<close>

text \<open>C21: whatever pieces the network delivers the bytes in, the reader gives back every value the
  serializer writes and stops exactly behind it, for strings without carriage returns where the
  protocol forbids them and sizes a container can hold; the null bulk string is excluded.\<close>

theorem readValue_writeValue:
  assumes "byte_network env pending" "writeValue v = Some s" "readable (reserve_ok env) v" "fuelFor v \<le> f"
    and "readBuf c @ pending (socket c) = s @ rest"
  shows "\<exists>c'. readValue f env c = Inr (v, c') \<and> readBuf c' @ pending (socket c') = rest"
  using byte_network.readValue_write [OF assms(1-4), of c rest] assms(5)
  by (auto simp: byte_network.stream_def [OF assms(1)])

theorem readValue_writeValue_witness:
  "\<exists>c'. readValue 3 chunk_env \<lparr>readBuf = [], writeBuf = [], socket = [''*1'', [CR, LF, CHR '':''], ''-'' @ ''7'' @ [CR], [LF]]\<rparr> =
     Inr (resp_array_value [resp_integer_value (- 7)], c')"
proof -
  let ?v = "resp_array_value [resp_integer_value (- 7)]"
  let ?c = "\<lparr>readBuf = [], writeBuf = [], socket = [''*1'', [CR, LF, CHR '':''], ''-'' @ ''7'' @ [CR], [LF]]\<rparr>"
  have n: "show_nat (Suc 0) = ''1''" "show_int (- 7) = ''-7''"
    by (simp_all add: show_nat.simps show_int_def digit_char_def char_of_def bit_0)
  have s: "sint (- 7 :: int64) = - 7" by simp
  have w: "writeValue ?v = Some (''*1'' @ [CR, LF] @ '':-7'' @ [CR, LF])"
    by (simp add: writeInteger_def s n resp_type_defs)
  have "readable (reserve_ok chunk_env) ?v" "fuelFor ?v \<le> 3"
    "readBuf ?c @ concat (socket ?c) = (''*1'' @ [CR, LF] @ '':-7'' @ [CR, LF]) @ []"
    by (simp_all add: chunk_env_def)
  from readValue_writeValue [OF chunk_net.byte_network_axioms w this] show ?thesis by blast
qed



end
