(* ===== verification/RespApi.thy ===== *)
theory RespApi
  imports KvApi RespRoundtrip
begin

text \<open>
  The command handlers of the server, \<open>redis_server/src/api/resp_api.cpp\<close>. Every handler of the
  code responds exactly once, as its last action, so a handler gives the response and the new
  tree; \<open>processCommand\<close> finds it in the command map and sends the response. \<open>None\<close> is undefined
  behaviour, as in \<open>KvApi\<close>.
\<close>

type_synonym 't handler = "resp_value list \<Rightarrow> 't \<Rightarrow> (resp_value \<times> 't) option"

definition onPing :: "'t handler" where
  "onPing command t = Some (simple_string ''PONG'', t)"

definition onInfo :: "('t, 's) kv_ops \<Rightarrow> 't handler" where
  "onInfo kv command t = do {
     memory \<leftarrow> api_getMemory kv t;
     Some (bulk_string (Some (''# Server'' @ [CR, LF] @ ''redis_version:8.6.2'' @ [CR, LF] @
       ''redis_mode:standalone'' @ [CR, LF] @ [CR, LF] @ ''# Memory'' @ [CR, LF] @
       ''used_memory_dataset:'' @ show_nat memory @ [CR, LF])), t)
   }"

definition onGet :: "('t, 's) kv_ops \<Rightarrow> 't handler" where
  "onGet kv command t =
     (case getArgOrNull command 1 of
        None \<Rightarrow> Some (respondErrorWrongArguments, t)
      | Some key \<Rightarrow> do {
          (val, t1) \<leftarrow> api_get kv key t;
          Some (if val = None then null_bulk_string else bulk_string val, t1)
        })"

definition onSet :: "('t, 's) kv_ops \<Rightarrow> 't handler" where
  "onSet kv command t =
     (case getArgOrNull command 1 of
        None \<Rightarrow> Some (respondErrorWrongArguments, t)
      | Some key \<Rightarrow>
          (case getArgOrNull command 2 of
             None \<Rightarrow> Some (respondErrorWrongArguments, t)
           | Some val \<Rightarrow> do { t1 \<leftarrow> api_set kv key val t; Some (respondOk, t1) }))"

text \<open>The loops of \<open>del\<close> and \<open>exists\<close> over the remaining arguments, with the counter.\<close>

fun countKeys :: "(string \<Rightarrow> 't \<Rightarrow> (bool \<times> 't) option) \<Rightarrow> resp_value list \<Rightarrow> int64 \<Rightarrow> 't \<Rightarrow> (resp_value \<times> 't) option" where
  "countKeys f [] count t = Some (integer_value count, t)"
| "countKeys f (arg # args) count t =
     (case getAsString arg of
        None \<Rightarrow> Some (respondErrorWrongArguments, t)
      | Some key \<Rightarrow> do {
          (b, t1) \<leftarrow> f key t;
          countKeys f args (if b then count + 1 else count) t1
        })"

definition onDel :: "('t, 's) kv_ops \<Rightarrow> 't handler" where
  "onDel kv command t =
     (if length command < 2 then Some (respondErrorWrongArguments, t)
      else do { args \<leftarrow> varArgs command 1; countKeys (api_del kv) args 0 t })"

definition onExists :: "('t, 's) kv_ops \<Rightarrow> 't handler" where
  "onExists kv command t =
     (if length command < 2 then Some (respondErrorWrongArguments, t)
      else do { args \<leftarrow> varArgs command 1; countKeys (api_exists kv) args 0 t })"

definition onIncr :: "('t, 's) kv_ops \<Rightarrow> 't handler" where
  "onIncr kv command t =
     (case getArgOrNull command 1 of
        None \<Rightarrow> Some (respondErrorWrongArguments, t)
      | Some key \<Rightarrow> do {
          (result, t1) \<leftarrow> api_increment kv key 1 t;
          Some (case result of
              None \<Rightarrow> error_value ''value is not an integer or out of range''
            | Some v \<Rightarrow> integer_value v, t1)
        })"

definition onIncrBy :: "('t, 's) kv_ops \<Rightarrow> 't handler" where
  "onIncrBy kv command t =
     (case getArgOrNull command 1 of
        None \<Rightarrow> Some (respondErrorWrongArguments, t)
      | Some key \<Rightarrow>
          (case getArgOrNull command 2 of
             None \<Rightarrow> Some (respondErrorWrongArguments, t)
           | Some amountStr \<Rightarrow>
               (case parseIntStrict amountStr of
                  None \<Rightarrow> None
                | Some None \<Rightarrow> Some (respondErrorNoInteger, t)
                | Some (Some amount) \<Rightarrow> do {
                    (result, t1) \<leftarrow> api_increment kv key amount t;
                    Some (case result of None \<Rightarrow> respondErrorNoInteger | Some v \<Rightarrow> integer_value v, t1)
                  })))"

definition onDecr :: "('t, 's) kv_ops \<Rightarrow> 't handler" where
  "onDecr kv command t =
     (case getArgOrNull command 1 of
        None \<Rightarrow> Some (respondErrorWrongArguments, t)
      | Some key \<Rightarrow> do {
          (result, t1) \<leftarrow> api_increment kv key (- 1) t;
          Some (case result of
              None \<Rightarrow> error_value ''value is not an integer or out of range''
            | Some v \<Rightarrow> integer_value v, t1)
        })"

definition onDecrBy :: "('t, 's) kv_ops \<Rightarrow> 't handler" where
  "onDecrBy kv command t =
     (case getArgOrNull command 1 of
        None \<Rightarrow> Some (respondErrorWrongArguments, t)
      | Some key \<Rightarrow>
          (case getArgOrNull command 2 of
             None \<Rightarrow> Some (respondErrorWrongArguments, t)
           | Some amountStr \<Rightarrow>
               (case parseIntStrict amountStr of
                  None \<Rightarrow> None
                | Some None \<Rightarrow> Some (respondErrorNoInteger, t)
                | Some (Some amount) \<Rightarrow> do {
                    negated \<leftarrow> int64_neg amount;
                    (result, t1) \<leftarrow> api_increment kv key negated t;
                    Some (case result of None \<Rightarrow> respondErrorNoInteger | Some v \<Rightarrow> integer_value v, t1)
                  })))"

definition onMGet :: "('t, 's) kv_ops \<Rightarrow> 't handler" where
  "onMGet kv command t = do {
     keys \<leftarrow> getArgs command 1;
     (result, t1) \<leftarrow> api_mget kv keys t;
     Some (array_value (map bulk_string result), t1)
   }"

definition onMSet :: "('t, 's) kv_ops \<Rightarrow> 't handler" where
  "onMSet kv command t = do {
     kvPairs \<leftarrow> getArgs command 1;
     t1 \<leftarrow> api_mset kv kvPairs t;
     Some (respondOk, t1)
   }"

definition only_root_error :: resp_value where
  "only_root_error = error_value (''For simplicity, only $ROOT$ is allowed for the key to operate on '' @
     ''the entire BTree-Implementation. This is all that''  @ [CHR 0x27] @
     ''s needed for this specific benchmarking use-case'')"

definition onZAdd :: "('t, 's) kv_ops \<Rightarrow> 't handler" where
  "onZAdd kv command t =
     (case getArgOrNull command 1 of
        None \<Rightarrow> Some (respondErrorWrongArguments, t)
      | Some key \<Rightarrow>
          if key \<noteq> ''$ROOT$'' then Some (only_root_error, t)
          else do {
            args \<leftarrow> getArgs command 2;
            (result, t1) \<leftarrow> api_zadd kv args t;
            Some (integer_value result, t1)
          })"

text \<open>\<open>(*minArg)[0]\<close> of an empty string is the terminating null character.\<close>

definition onZRange :: "'n environment \<Rightarrow> ('t, bytes list \<times> nat) kv_ops \<Rightarrow> 't handler" where
  "onZRange env kv command t =
     (case (getArgOrNull command 1, getArgOrNull command 2, getArgOrNull command 7) of
        (Some key, Some minArg, Some limitArg) \<Rightarrow>
          if key \<noteq> ''$ROOT$'' then Some (only_root_error, t)
          else do {
            bylex \<leftarrow> argIs (iequals env) command 4 ''bylex'';
            if \<not> bylex then Some (error_value ''ZRANGE command is only supported with BYLEX'', t)
            else do {
              plus \<leftarrow> argIs (iequals env) command 3 ''+'';
              if \<not> plus then Some (error_value ''ZRANGE command is only supported with a max of + (infinite)'', t)
              else do {
                lim \<leftarrow> argIs (iequals env) command 5 ''limit'';
                if \<not> lim then Some (error_value ''ZRANGE command requires the LIMIT part'', t)
                else do {
                  zero \<leftarrow> argIs (iequals env) command 6 ''0'';
                  if \<not> zero then Some (error_value ''ZRANGE command requires the LIMIT part'', t)
                  else
                    (case parseIntStrict limitArg of
                       None \<Rightarrow> None
                     | Some None \<Rightarrow> Some (respondErrorNoInteger, t)
                     | Some (Some limit) \<Rightarrow>
                         if (case minArg of [] \<Rightarrow> True | c # _ \<Rightarrow> c \<noteq> CHR ''['')
                         then Some (error_value ''ZRANGE min value must start with ['', t)
                         else do {
                           (result, t1) \<leftarrow> api_zrange kv (tl minArg) limit t;
                           Some (array_value (map (\<lambda>k. bulk_string (Some k)) result), t1)
                         })
                }
              }
            }
          }
      | _ \<Rightarrow> Some (respondErrorWrongArguments, t))"

definition onFlushAll :: "('t, 's) kv_ops \<Rightarrow> 't handler" where
  "onFlushAll kv command t = do { t1 \<leftarrow> api_flushAll kv t; Some (respondOk, t1) }"

definition commandMap :: "'n environment \<Rightarrow> ('t, bytes list \<times> nat) kv_ops \<Rightarrow> (string \<times> 't handler) list" where
  "commandMap env kv =
     [(''ping'', onPing), (''info'', onInfo kv), (''get'', onGet kv), (''set'', onSet kv),
      (''del'', onDel kv), (''exists'', onExists kv), (''incr'', onIncr kv), (''incrby'', onIncrBy kv),
      (''decr'', onDecr kv), (''decrby'', onDecrBy kv), (''mget'', onMGet kv), (''mset'', onMSet kv),
      (''zadd'', onZAdd kv), (''zrange'', onZRange env kv), (''flushall'', onFlushAll kv)]"

definition commandReply :: "'n environment \<Rightarrow> ('t, bytes list \<times> nat) kv_ops \<Rightarrow> 't handler" where
  "commandReply env kv command t =
     (case getArgOrNull command 0 of
        None \<Rightarrow> Some (respondErrorWrongArguments, t)
      | Some rootCommand \<Rightarrow>
          (case map_of (commandMap env kv) (to_lower_copy env rootCommand) of
             None \<Rightarrow> Some (error_value (''ERR unknown command '' @ [CHR 0x27] @ rootCommand @ [CHR 0x27]), t)
           | Some commandFn \<Rightarrow> commandFn command t))"

text \<open>The handler \<open>main\<close> gives the connections. After undefined behaviour there is no state to speak
  of; the old tree stands for it.\<close>

definition processCommand :: "'n environment \<Rightarrow> ('t, bytes list \<times> nat) kv_ops \<Rightarrow> ('n, 't) command_handler" where
  "processCommand env kv command t c =
     (case commandReply env kv command t of
        None \<Rightarrow> (Inl undefined_behaviour, t)
      | Some (reply, t1) \<Rightarrow>
          (case conn_send env reply c of
             Inl e \<Rightarrow> (Inl e, t1)
           | Inr (_, c1) \<Rightarrow> (Inr c1, t1)))"

definition server_main :: "nat \<Rightarrow> nat \<Rightarrow> 'n environment \<Rightarrow> ('t, bytes list \<times> nat) kv_ops \<Rightarrow> 't \<Rightarrow> 'n list \<Rightarrow> failure option \<times> 't" where
  "server_main k fuel env kv t clients = serve k fuel env (processCommand env kv) t clients"

end
