(* ===== verification/Wrapper.thy ===== *)
theory Wrapper
  imports KvApi
begin

text \<open>
  \<open>DataStructureWrapper\<close> (\<open>btree2020.cpp\<close>) with \<open>CHECK_TREE_OPS\<close>: beside the tree it keeps a
  \<open>std::map\<close> with the same content and asserts after every operation that both agree. The map is
  a sorted association list. \<open>None\<close> is a failed assertion, or undefined behaviour of the tree.
\<close>

subsection \<open>The shadow map\<close>

type_synonym std_map = "(bytes \<times> bytes) list"

fun std_map_assign :: "bytes \<Rightarrow> bytes \<Rightarrow> std_map \<Rightarrow> std_map" where
  "std_map_assign k v [] = [(k, v)]"
| "std_map_assign k v ((k', v') # m) =
     (if k < k' then (k, v) # (k', v') # m
      else if k = k' then (k, v) # m
      else (k', v') # std_map_assign k v m)"

definition std_map_find :: "bytes \<Rightarrow> std_map \<Rightarrow> bytes option" where
  "std_map_find k m = map_of m k"

definition std_map_erase :: "bytes \<Rightarrow> std_map \<Rightarrow> std_map" where
  "std_map_erase k m = filter (\<lambda>(k', _). k' \<noteq> k) m"

text \<open>An iterator is the position in the list; the end is its length.\<close>

definition std_map_lower_bound :: "bytes \<Rightarrow> std_map \<Rightarrow> nat" where
  "std_map_lower_bound k m = length (takeWhile (\<lambda>(k', _). k' < k) m)"

subsection \<open>The wrapper\<close>

record 't wrapper =
  w_impl :: 't
  w_std_map :: std_map

definition wrapper_lookup :: "('t, 's) kv_ops \<Rightarrow> bytes \<Rightarrow> 't wrapper \<Rightarrow> (bytes option \<times> 't wrapper) option" where
  "wrapper_lookup kv key w = do {
     (payload, t) \<leftarrow> kv_lookup kv key (w_impl w);
     if payload \<noteq> std_map_find key (w_std_map w) then None
     else Some (payload, w\<lparr>w_impl := t\<rparr>)
   }"

definition wrapper_insert :: "('t, 's) kv_ops \<Rightarrow> bytes \<Rightarrow> bytes \<Rightarrow> 't wrapper \<Rightarrow> 't wrapper option" where
  "wrapper_insert kv key payload w = do {
     t \<leftarrow> kv_insert kv key payload (w_impl w);
     Some (w\<lparr>w_impl := t, w_std_map := std_map_assign key payload (w_std_map w)\<rparr>)
   }"

definition wrapper_remove :: "('t, 's) kv_ops \<Rightarrow> bytes \<Rightarrow> 't wrapper \<Rightarrow> (bool \<times> 't wrapper) option" where
  "wrapper_remove kv key w = do {
     (removed, t) \<leftarrow> kv_remove kv key (w_impl w);
     (case std_map_find key (w_std_map w) of
        None \<Rightarrow> if removed then None else Some (removed, w\<lparr>w_impl := t\<rparr>)
      | Some _ \<Rightarrow> if \<not> removed then None
          else Some (removed, w\<lparr>w_impl := t, w_std_map := std_map_erase key (w_std_map w)\<rparr>))
   }"

text \<open>The checking callback: \<open>shouldContinue\<close>, the iterator, the state of the user's callback, and
  whether no assertion has failed yet.\<close>

type_synonym 's checked = "bool \<times> nat \<times> 's \<times> bool"

definition check_callback :: "std_map \<Rightarrow> 's callback \<Rightarrow> 's checked callback" where
  "check_callback m cb key payload st =
     (case st of (shouldContinue, it, s, ok) \<Rightarrow>
        if \<not> ok \<or> \<not> shouldContinue \<or> it = length m \<or> m ! it \<noteq> (key, payload)
        then (False, (shouldContinue, it, s, False))
        else (let (c, s') = cb key payload s in (c, (c, it + 1, s', True))))"

definition wrapper_range_lookup ::
    "('t, 's checked) kv_ops \<Rightarrow> nat \<Rightarrow> bytes \<Rightarrow> 's callback \<Rightarrow> 't wrapper \<Rightarrow> 's \<Rightarrow> ('s \<times> 't wrapper) option" where
  "wrapper_range_lookup kv cap key cb w s =
     (let m = w_std_map w in do {
        ((shouldContinue, it, s', ok), t) \<leftarrow>
          kv_range kv cap key (check_callback m cb) (w_impl w) (True, std_map_lower_bound key m, s, True);
        if \<not> ok then None
        else if shouldContinue \<and> it \<noteq> length m then None
        else Some (s', w\<lparr>w_impl := t\<rparr>)
      })"

text \<open>Descending, the iterator stops at the first element and \<open>stdExhausted\<close> records that it was used.\<close>

type_synonym 's checked_desc = "bool \<times> nat \<times> bool \<times> 's \<times> bool"

definition check_callback_desc :: "std_map \<Rightarrow> 's callback \<Rightarrow> 's checked_desc callback" where
  "check_callback_desc m cb key payload st =
     (case st of (shouldContinue, it, stdExhausted, s, ok) \<Rightarrow>
        if \<not> ok \<or> \<not> shouldContinue \<or> stdExhausted \<or> m ! it \<noteq> (key, payload)
        then (False, (shouldContinue, it, stdExhausted, s, False))
        else
          (let (c, s') = cb key payload s
           in (c, (c, if it = 0 then (it, True, s', True) else (it - 1, stdExhausted, s', True)))))"

definition wrapper_range_lookup_desc ::
    "('t, 's checked_desc) kv_ops \<Rightarrow> bytes \<Rightarrow> 's callback \<Rightarrow> 't wrapper \<Rightarrow> 's \<Rightarrow> ('s \<times> 't wrapper) option" where
  "wrapper_range_lookup_desc kv key cb w s =
     (let m = w_std_map w;
          lb = std_map_lower_bound key m;
          it = (if lb \<noteq> length m \<and> lb \<noteq> 0 \<and> key < fst (m ! lb) then lb - 1 else lb)
      in do {
        ((shouldContinue, it', stdExhausted, s', ok), t) \<leftarrow>
          kv_range_desc kv key (check_callback_desc m cb) (w_impl w) (True, it, it = length m, s, True);
        if \<not> ok then None
        else if shouldContinue \<and> \<not> stdExhausted then None
        else Some (s', w\<lparr>w_impl := t\<rparr>)
      })"

definition wrapper_clear :: "('t, 's) kv_ops \<Rightarrow> 't wrapper \<Rightarrow> 't wrapper option" where
  "wrapper_clear kv w = do {
     t \<leftarrow> kv_clear kv (w_impl w);
     Some (w\<lparr>w_impl := t, w_std_map := []\<rparr>)
   }"

text \<open>A sequence of updates through the wrapper: a put removes the key before it inserts it.\<close>

fun wrapper_updates :: "('t, 's) kv_ops \<Rightarrow> leaf_op list \<Rightarrow> 't wrapper \<Rightarrow> 't wrapper option" where
  "wrapper_updates kv [] w = Some w"
| "wrapper_updates kv (Put k v # ops) w = do {
     (_, w1) \<leftarrow> wrapper_remove kv k w;
     w2 \<leftarrow> wrapper_insert kv k v w1;
     wrapper_updates kv ops w2
   }"
| "wrapper_updates kv (Del k # ops) w = do {
     (_, w1) \<leftarrow> wrapper_remove kv k w;
     wrapper_updates kv ops w1
   }"

subsection \<open>The shadow map as a store\<close>

lemma std_map_assign_keys: "fst ` set (std_map_assign k v m) = insert k (fst ` set m)"
  by (induction k v m rule: std_map_assign.induct) auto

lemma std_map_assign_sorted:
  "sorted_wrt (<) (map fst m) \<Longrightarrow> sorted_wrt (<) (map fst (std_map_assign k v m))"
proof (induction k v m rule: std_map_assign.induct)
  case (2 k v k' v' m)
  have "\<forall>x \<in> fst ` set (std_map_assign k v m). k' < x" if "\<not> k < k'" "k \<noteq> k'"
    using 2(2) that by (auto simp: std_map_assign_keys not_less order_less_le)
  with 2 show ?case by (auto simp: not_less intro: less_trans)
qed simp

lemma std_map_assign_content:
  "sorted_wrt (<) (map fst m) \<Longrightarrow> map_of (std_map_assign k v m) = (map_of m)(k \<mapsto> v)"
  by (induction k v m rule: std_map_assign.induct) (auto simp: fun_upd_twist)

lemma std_map_erase_sorted: "sorted_wrt (<) (map fst m) \<Longrightarrow> sorted_wrt (<) (map fst (std_map_erase k m))"
  by (induction m) (auto simp: std_map_erase_def)

lemma std_map_erase_content: "map_of (std_map_erase k m) = (map_of m)(k := None)"
  by (induction m) (auto simp: std_map_erase_def fun_eq_iff)

lemma std_map_lower_bound_drop:
  "sorted_wrt (<) (map fst m) \<Longrightarrow> drop (std_map_lower_bound k m) m = filter (\<lambda>(k', _). k \<le> k') m"
proof (induction m)
  case (Cons e m)
  show ?case
  proof (cases "fst e < k")
    case True
    with Cons show ?thesis by (auto simp: std_map_lower_bound_def split: prod.splits)
  next
    case False
    with Cons.prems have "\<forall>x \<in> set m. k \<le> fst x" by (auto simp: not_less intro: order_trans less_imp_le)
    then have "filter (\<lambda>(k', _). k \<le> k') m = m" by (simp add: filter_id_conv split_def)
    with False show ?thesis by (auto simp: std_map_lower_bound_def not_less split: prod.splits)
  qed
qed (simp add: std_map_lower_bound_def)

lemma std_map_lower_bound_le: "std_map_lower_bound k m \<le> length m"
  by (simp add: std_map_lower_bound_def length_takeWhile_le)

subsection \<open>The checks succeed beside a correct tree\<close>

definition shadows :: "('t \<Rightarrow> bool) \<Rightarrow> ('t \<Rightarrow> leaf_content) \<Rightarrow> 't wrapper \<Rightarrow> bool" where
  "shadows good content w \<longleftrightarrow> good (w_impl w) \<and> sorted_wrt (<) (map fst (w_std_map w)) \<and>
     content (w_impl w) = map_of (w_std_map w)"

lemma scan_check:
  assumes "i \<le> length m"
  shows "\<exists>c it s' ok. scan (check_callback m cb) (drop i m) (True, i, s, True) = (c, (c, it, s', ok)) \<and> ok \<and>
    (c \<longrightarrow> it = length m) \<and> scan cb (drop i m) s = (c, s')"
  using assms
proof (induction "length m - i" arbitrary: i s)
  case (Suc n)
  then have i: "i < length m" by simp
  obtain k v where e: "m ! i = (k, v)" by force
  obtain c s1 where cb: "cb k v s = (c, s1)" by force
  have d: "drop i m = (k, v) # drop (Suc i) m" using i e by (metis Cons_nth_drop_Suc)
  show ?case
  proof (cases c)
    case True
    with Suc.hyps(1) [of "Suc i" s1] Suc.hyps(2) i cb e show ?thesis
      by (auto simp: d check_callback_def)
  next
    case False
    with i cb e show ?thesis by (simp add: d check_callback_def) blast
  qed
qed (simp, blast)

context kv_store
begin

lemma wrapper_lookup_ok:
  assumes "shadows (inv n) content w"
  shows "\<exists>w'. wrapper_lookup kv k w = Some (map_of (w_std_map w) k, w') \<and> shadows (inv n) content w' \<and>
    w_std_map w' = w_std_map w"
  using lookup [of n "w_impl w" k] assms by (auto simp: wrapper_lookup_def shadows_def std_map_find_def)

lemma wrapper_insert_ok:
  assumes "shadows (inv (Suc n)) content w" "map_of (w_std_map w) k = None" "storable k v"
  shows "\<exists>w'. wrapper_insert kv k v w = Some w' \<and> shadows (inv n) content w' \<and>
    map_of (w_std_map w') = (map_of (w_std_map w))(k \<mapsto> v)"
  using insert [of n "w_impl w" k v] assms std_map_assign_sorted [of "w_std_map w" k v]
    std_map_assign_content [of "w_std_map w" k v]
  by (auto simp: wrapper_insert_def shadows_def)

lemma wrapper_remove_ok:
  assumes "shadows (inv (Suc n)) content w"
  shows "\<exists>w'. wrapper_remove kv k w = Some (map_of (w_std_map w) k \<noteq> None, w') \<and> shadows (inv n) content w' \<and>
    map_of (w_std_map w') = (map_of (w_std_map w))(k := None)"
  using remove [of n "w_impl w" k] assms std_map_erase_sorted [of "w_std_map w" k]
    std_map_erase_content [of k "w_std_map w"]
  by (cases "map_of (w_std_map w) k") (auto simp: wrapper_remove_def shadows_def std_map_find_def fun_upd_idem)

lemma wrapper_updates_ok:
  assumes "shadows (inv (n + 2 * length ops)) content w" "\<forall>op \<in> set ops. op_ok storable op"
  shows "\<exists>w'. wrapper_updates kv ops w = Some w' \<and> shadows (inv n) content w' \<and>
    map_of (w_std_map w') = fold content_op ops (map_of (w_std_map w))"
  using assms
proof (induction ops arbitrary: w)
  case (Cons op ops)
  have w: "shadows (inv (Suc (Suc (n + 2 * length ops)))) content w" using Cons.prems(1) by simp
  show ?case
  proof (cases op)
    case (Put k v)
    obtain w1 where w1: "wrapper_remove kv k w = Some (map_of (w_std_map w) k \<noteq> None, w1)"
      "shadows (inv (Suc (n + 2 * length ops))) content w1" "map_of (w_std_map w1) = (map_of (w_std_map w))(k := None)"
      using wrapper_remove_ok [OF w] by blast
    then obtain w2 where w2: "wrapper_insert kv k v w1 = Some w2" "shadows (inv (n + 2 * length ops)) content w2"
      "map_of (w_std_map w2) = (map_of (w_std_map w1))(k \<mapsto> v)"
      using wrapper_insert_ok [OF w1(2), of k v] Cons.prems(2) Put by auto
    then have "map_of (w_std_map w2) = content_op op (map_of (w_std_map w))" using w1(3) Put by simp
    with Cons.IH [OF w2(2)] Cons.prems(2) w1(1) w2(1) Put show ?thesis by (simp del: content_op.simps)
  next
    case (Del k)
    have "shadows (inv (Suc (n + 2 * length ops))) content w" using w weaken by (auto simp: shadows_def)
    then obtain w1 where w1: "wrapper_remove kv k w = Some (map_of (w_std_map w) k \<noteq> None, w1)"
      "shadows (inv (n + 2 * length ops)) content w1" "map_of (w_std_map w1) = (map_of (w_std_map w))(k := None)"
      using wrapper_remove_ok by blast
    then have "map_of (w_std_map w1) = content_op op (map_of (w_std_map w))" using Del by simp
    with Cons.IH [OF w1(2)] Cons.prems(2) w1(1) Del show ?thesis by (simp del: content_op.simps)
  qed
qed simp

end

lemma scan_check_desc:
  assumes "i < length m"
  shows "\<exists>c it ex s' ok. scan (check_callback_desc m cb) (rev (take (Suc i) m)) (True, i, False, s, True) =
      (c, (c, it, ex, s', ok)) \<and> ok \<and> (c \<longrightarrow> ex) \<and> scan cb (rev (take (Suc i) m)) s = (c, s')"
  using assms
proof (induction i arbitrary: s)
  case 0
  obtain k v where e: "m ! 0 = (k, v)" by force
  obtain c s1 where cb: "cb k v s = (c, s1)" by force
  have "take (Suc 0) m = [(k, v)]" using 0 e by (cases m) auto
  with cb e show ?case by (cases c) (auto simp: check_callback_desc_def)
next
  case (Suc i)
  obtain k v where e: "m ! Suc i = (k, v)" by force
  obtain c s1 where cb: "cb k v s = (c, s1)" by force
  have d: "rev (take (Suc (Suc i)) m) = (k, v) # rev (take (Suc i) m)"
    using Suc.prems e by (simp add: take_Suc_conv_app_nth)
  show ?case
  proof (cases c)
    case True
    with Suc.IH [of s1] Suc.prems cb e show ?thesis by (auto simp: d check_callback_desc_def)
  next
    case False
    with cb e show ?thesis by (simp add: d check_callback_desc_def) blast
  qed
qed

text \<open>The operations of the shadow map alone, as a store.\<close>

definition shadow_kv :: "(std_map, 's) kv_ops" where
  "shadow_kv = \<lparr>kv_lookup = (\<lambda>k m. Some (std_map_find k m, m)),
     kv_insert = (\<lambda>k v m. Some (std_map_assign k v m)),
     kv_remove = (\<lambda>k m. Some (std_map_find k m \<noteq> None, std_map_erase k m)),
     kv_range = (\<lambda>cap k cb m s. Some (snd (scan cb (drop (std_map_lower_bound k m) m) s), m)),
     kv_range_desc = (\<lambda>k cb m s. Some (snd (scan cb (rev (filter (\<lambda>(k', _). k' \<le> k) m)) s), m)),
     kv_clear = (\<lambda>m. Some []), kv_memory = (\<lambda>m. Some 0)\<rparr>"

lemma map_of_sorted_unique:
  fixes xs ys :: "('k::linorder \<times> 'v) list"
  assumes "sorted_wrt (<) (map fst xs)" "sorted_wrt (<) (map fst ys)" "map_of xs = map_of ys"
  shows "xs = ys"
proof -
  have d: "distinct (map fst xs)" "distinct (map fst ys)" "sorted (map fst xs)" "sorted (map fst ys)"
    using assms strict_sorted_iff by blast+
  have "e \<in> set xs \<longleftrightarrow> e \<in> set ys" for e
    using map_of_eq_Some_iff [OF d(1), of "fst e" "snd e"] map_of_eq_Some_iff [OF d(2), of "fst e" "snd e"] assms(3)
    by simp
  then have eq: "set xs = set ys" by blast
  show ?thesis
    by (rule map_sorted_distinct_set_unique [OF _ d(3,1,4,2) eq]) (use d(1) eq in \<open>simp add: distinct_map\<close>)
qed

interpretation shadow_store: kv_store shadow_kv "\<lambda>n m. sorted_wrt (<) (map fst m)" map_of "\<lambda>_ _. True"
proof
  fix t :: std_map and k v cb s and es :: std_map and cap :: nat
  assume t: "sorted_wrt (<) (map fst t)"
  show "\<exists>t'. kv_lookup shadow_kv k t = Some (map_of t k, t') \<and> sorted_wrt (<) (map fst t') \<and> map_of t' = map_of t"
    using t by (simp add: shadow_kv_def std_map_find_def)
  show "\<exists>t'. kv_insert shadow_kv k v t = Some t' \<and> sorted_wrt (<) (map fst t') \<and> map_of t' = (map_of t)(k \<mapsto> v)"
    using t by (simp add: shadow_kv_def std_map_assign_sorted std_map_assign_content)
  show "\<exists>t'. kv_remove shadow_kv k t = Some (map_of t k \<noteq> None, t') \<and> sorted_wrt (<) (map fst t') \<and>
      map_of t' = (map_of t)(k := None)"
    using t by (simp add: shadow_kv_def std_map_find_def std_map_erase_sorted std_map_erase_content)
  show "\<exists>t'. kv_clear shadow_kv t = Some t' \<and> sorted_wrt (<) (map fst t') \<and> map_of t' = Map.empty"
    by (simp add: shadow_kv_def)
  assume es: "sorted_wrt (<) (map fst es)" "map_of t = map_of es"
  then have "t = es" using t by (intro map_of_sorted_unique) auto
  then show "\<exists>t'. kv_range shadow_kv cap k cb t s = Some (snd (scan cb (filter (\<lambda>(k', _). k \<le> k') es) s), t') \<and>
      sorted_wrt (<) (map fst t') \<and> map_of t' = map_of t"
    "\<exists>t'. kv_range_desc shadow_kv k cb t s = Some (snd (scan cb (rev (filter (\<lambda>(k', _). k' \<le> k) es)) s), t') \<and>
      sorted_wrt (<) (map fst t') \<and> map_of t' = map_of t"
    using t by (simp_all add: shadow_kv_def std_map_lower_bound_drop)
qed

subsection \<open>Properties\<close>

text \<open>Beside a tree that keeps its contract and can take one more update, every operation of the checking wrapper passes its
  assertions, returns what the shadow map says and leaves tree and shadow map in agreement.\<close>

theorem wrapper_checks_pass:
  assumes "kv_store kv good content storable" "shadows (good (Suc n)) content w"
  shows "(\<exists>w'. wrapper_lookup kv k w = Some (map_of (w_std_map w) k, w') \<and> shadows (good (Suc n)) content w') \<and>
    (map_of (w_std_map w) k = None \<and> storable k v \<longrightarrow> (\<exists>w'. wrapper_insert kv k v w = Some w' \<and>
      shadows (good n) content w' \<and> map_of (w_std_map w') = (map_of (w_std_map w))(k \<mapsto> v))) \<and>
    (\<exists>w'. wrapper_remove kv k w = Some (map_of (w_std_map w) k \<noteq> None, w') \<and>
      shadows (good n) content w' \<and> map_of (w_std_map w') = (map_of (w_std_map w))(k := None))"
  using kv_store.wrapper_lookup_ok [OF assms, of k] kv_store.wrapper_insert_ok [OF assms, of k v]
    kv_store.wrapper_remove_ok [OF assms, of k]
  by blast

theorem wrapper_checks_pass_witness:
  "\<exists>w'. wrapper_remove (shadow_kv :: (std_map, unit) kv_ops) [1]
     \<lparr>w_impl = [([1], [2])], w_std_map = [([1], [2])]\<rparr> = Some (True, w') \<and> map_of (w_std_map w') = Map.empty"
proof -
  let ?w = "\<lparr>w_impl = [([1], [2])], w_std_map = [([1], [2])]\<rparr> :: std_map wrapper"
  have "shadows (\<lambda>m. sorted_wrt (<) (map fst m)) map_of ?w" by (simp add: shadows_def)
  from wrapper_checks_pass [where kv = "shadow_kv :: (std_map, unit) kv_ops", OF shadow_store.kv_store_axioms this,
      of "[1]" "[]"]
  show ?thesis by auto
qed

text \<open>An ascending range lookup through the checking wrapper passes all assertions of its callback and
  shows the user's callback exactly the entries not smaller than the start key, in order.\<close>

lemma wrapper_range_lookup_ok:
  assumes "kv_store kv good content storable" "shadows (good n) content w"
    and "length k \<le> cap" "\<forall>k v. storable k v \<longrightarrow> length k < cap"
  shows "\<exists>w'. wrapper_range_lookup kv cap k cb w s =
      Some (snd (scan cb (filter (\<lambda>(k', _). k \<le> k') (w_std_map w)) s), w') \<and> shadows (good n) content w' \<and>
    w_std_map w' = w_std_map w"
proof -
  let ?m = "w_std_map w" and ?lb = "std_map_lower_bound k (w_std_map w)"
  from assms(2) have g: "good n (w_impl w)" and m: "sorted_wrt (<) (map fst ?m)" "content (w_impl w) = map_of ?m"
    by (auto simp: shadows_def)
  obtain t' where t': "kv_range kv cap k (check_callback ?m cb) (w_impl w) (True, ?lb, s, True) =
      Some (snd (scan (check_callback ?m cb) (filter (\<lambda>(k', _). k \<le> k') ?m) (True, ?lb, s, True)), t')"
    "good n t'" "content t' = content (w_impl w)"
    using kv_store.range [OF assms(1) g m assms(3,4)] by blast
  obtain c it s' ok where sc: "scan (check_callback ?m cb) (drop ?lb ?m) (True, ?lb, s, True) = (c, (c, it, s', ok))"
    "ok" "c \<longrightarrow> it = length ?m" "scan cb (drop ?lb ?m) s = (c, s')"
    using scan_check [OF std_map_lower_bound_le] by metis
  with t' m assms(2) show ?thesis
    by (auto simp: wrapper_range_lookup_def shadows_def std_map_lower_bound_drop [OF m(1), symmetric])
qed

text \<open>The descending check is wrong at the upper end: when the start key is greater than every stored
  key, the wrapper takes the scan for exhausted before it starts and its assertion fails on the
  first entry a correct tree delivers.\<close>

theorem wrapper_range_lookup_desc_fails:
  assumes "kv_store kv good content storable" "shadows (good n) content w"
    and "w_std_map w \<noteq> []" "\<forall>k' \<in> fst ` set (w_std_map w). k' < k"
  shows "wrapper_range_lookup_desc kv k cb w s = None"
proof -
  let ?m = "w_std_map w"
  from assms(2) have g: "good n (w_impl w)" and m: "sorted_wrt (<) (map fst ?m)" "content (w_impl w) = map_of ?m"
    by (auto simp: shadows_def)
  have lb: "std_map_lower_bound k ?m = length ?m"
  proof -
    have "takeWhile (\<lambda>(k', _). k' < k) ?m = ?m"
      using assms(4) by (simp only: takeWhile_eq_all_conv split_def) simp
    then show ?thesis unfolding std_map_lower_bound_def by (simp only:)
  qed
  have all: "filter (\<lambda>(k', _). k' \<le> k) ?m = ?m"
    using assms(4) by (auto simp: filter_id_conv split_def less_imp_le)
  obtain e es where e: "rev ?m = e # es" using assms(3) by (cases "rev ?m") auto
  have sc: "scan (check_callback_desc ?m cb) (rev ?m) (True, length ?m, True, s, True) =
      (False, (True, length ?m, True, s, False))"
    unfolding e by (cases e) (simp add: check_callback_desc_def)
  obtain t' where "kv_range_desc kv k (check_callback_desc ?m cb) (w_impl w) (True, length ?m, True, s, True) =
      Some (snd (scan (check_callback_desc ?m cb) (rev ?m) (True, length ?m, True, s, True)), t')"
    using kv_store.range_desc [OF assms(1) g m, of k] unfolding all by blast
  then show ?thesis by (simp add: wrapper_range_lookup_desc_def Let_def lb sc)
qed

theorem wrapper_range_lookup_desc_fails_witness:
  "wrapper_range_lookup_desc shadow_kv [2] (\<lambda>k v (s :: unit). (True, s))
     \<lparr>w_impl = [([1], [])], w_std_map = [([1], [])]\<rparr> () = None"
proof -
  let ?w = "\<lparr>w_impl = [([1], [])], w_std_map = [([1], [])]\<rparr> :: std_map wrapper"
  have "shadows (\<lambda>m. sorted_wrt (<) (map fst m)) map_of ?w" by (simp add: shadows_def)
  from wrapper_range_lookup_desc_fails [OF shadow_store.kv_store_axioms this, of "[2]"] show ?thesis
    by simp
qed

end
