(* ===== verification/RespApiSpec.thy ===== *)
theory RespApiSpec
  imports RespApi Wrapper
begin

text \<open>
  What the server promises over any tree that keeps the contract \<open>kv_store\<close>: the effect of the
  commands on the stored map and on the connection. The witnesses take the shadow map for the
  tree and a network that delivers chunks.
\<close>

subsection \<open>Commands on the map\<close>

definition bulk :: "string \<Rightarrow> resp_value" where
  "bulk s = bulk_string (Some s)"

definition set_command :: "string \<Rightarrow> string \<Rightarrow> resp_value list" where
  "set_command k v = [bulk ''set'', bulk k, bulk v]"

definition del_command :: "string \<Rightarrow> resp_value list" where
  "del_command k = [bulk ''del'', bulk k]"

lemma getArgOrNull_bulk [simp]:
  "i < length command \<Longrightarrow> command ! i = bulk s \<Longrightarrow> getArgOrNull command i = Some s"
  by (simp add: getArgOrNull_Some bulk_def bulk_string_def)

lemma getArgOrNull_short [simp]: "length command \<le> i \<Longrightarrow> getArgOrNull command i = None"
  by (simp add: getArgOrNull_def)

lemma getAsString_bulk [simp]: "getAsString (bulk s) = Some s"
  by (simp add: bulk_def bulk_string_def)

text \<open>A value that was set is what a get returns, and no other key is affected.\<close>

theorem api_set_get:
  assumes "kv_store kv good content storable" "good (n + 2) t" "storable (bytes_of k) (bytes_of v)"
  shows "\<exists>t1 t2. api_set kv k v t = Some t1 \<and> good n t1 \<and>
    api_get kv k' t1 = Some (if k' = k then Some v else map_option string_of (content t (bytes_of k')), t2)"
proof -
  note st = assms(1)
  obtain t1 where t1: "api_set kv k v t = Some t1" "good n t1"
    "content t1 = (content t)(bytes_of k \<mapsto> bytes_of v)"
    by (rule kv_store.set_content [OF st assms(2,3)])
  obtain t2 where "api_get kv k' t1 = Some (map_option string_of (content t1 (bytes_of k')), t2)"
    by (rule kv_store.get_content [OF st t1(2)])
  with t1 show ?thesis by auto
qed

theorem api_set_get_witness:
  "\<exists>t1 t2. api_set (shadow_kv :: (std_map, unit) kv_ops) ''k'' ''v'' [] = Some t1 \<and>
     api_get (shadow_kv :: (std_map, unit) kv_ops) ''k'' t1 = Some (Some ''v'', t2)"
proof -
  have "sorted_wrt (<) (map fst ([] :: std_map))" by simp
  from api_set_get [where kv = "shadow_kv :: (std_map, unit) kv_ops", OF shadow_store.kv_store_axioms this, of "''k''" "''v''" "''k''"]
  show ?thesis by auto
qed

text \<open>\<open>EXISTS\<close> reports whether each key was present, but it removes the keys it is asked about.\<close>

theorem exists_deletes_key:
  assumes "kv_store kv good content storable" "good (Suc n) t" "to_lower_copy env name = ''exists''"
  shows "\<exists>t1. commandReply env kv [bulk name, bulk k] t =
      Some (integer_value (if content t (bytes_of k) = None then 0 else 1), t1) \<and>
    good n t1 \<and> content t1 = (content t)(bytes_of k := None)"
proof -
  obtain t1 where t1: "kv_remove kv (bytes_of k) t = Some (content t (bytes_of k) \<noteq> None, t1)" "good n t1"
    "content t1 = (content t)(bytes_of k := None)"
    using kv_store.remove [OF assms(1,2)] by blast
  then show ?thesis
    by (simp add: commandReply_def assms(3) commandMap_def onExists_def varArgs_def api_exists_def)
qed

theorem exists_deletes_key_witness:
  "\<exists>t1. commandReply chunk_env shadow_kv [bulk ''exists'', bulk ''k''] [(bytes_of ''k'', [1])] =
     Some (integer_value 1, t1) \<and> map_of t1 (bytes_of ''k'') = None"
proof -
  have l: "to_lower_copy chunk_env ''exists'' = ''exists''" by (simp add: chunk_env_def ascii_lower_def)
  from exists_deletes_key [OF shadow_store.kv_store_axioms _ l, of "[(bytes_of ''k'', [1])]" "''k''"]
  show ?thesis by simp
qed

text \<open>The increment behind \<open>INCR\<close>, \<open>INCRBY\<close>, \<open>DECR\<close> and \<open>DECRBY\<close>, over any store that can hold the
  decimal form of a 64-bit number under the key.\<close>

lemma increment_over_store:
  assumes "kv_store kv good content storable" "good (m + 2) t"
    and "\<And>n :: int64. storable (bytes_of k) (bytes_of (show_int (sint n)))"
  shows "case (case content t (bytes_of k) of None \<Rightarrow> Some (Some 0) | Some bs \<Rightarrow> parseIntStrict (string_of bs)) of
      None \<Rightarrow> api_increment kv k amount t = None
    | Some None \<Rightarrow> \<exists>t1. api_increment kv k amount t = Some (None, t1) \<and> good (m + 2) t1 \<and> content t1 = content t
    | Some (Some n) \<Rightarrow>
        (if - (2 ^ 63) \<le> sint n + sint amount \<and> sint n + sint amount < 2 ^ 63
         then \<exists>t1 r. api_increment kv k amount t = Some (Some r, t1) \<and> sint r = sint n + sint amount \<and> good m t1 \<and>
           content t1 = (content t)(bytes_of k \<mapsto> bytes_of (show_int (sint n + sint amount)))
         else api_increment kv k amount t = None)"
proof -
  note st = assms(1)
  let ?n = "case content t (bytes_of k) of None \<Rightarrow> Some (Some 0) | Some bs \<Rightarrow> parseIntStrict (string_of bs)"
  consider "?n = None" | "?n = Some None" | n where "?n = Some (Some n)" by (metis option.exhaust)
  then show ?thesis
  proof cases
    case 1
    with kv_store.increment_unreadable [OF st assms(2) 1] show ?thesis by simp
  next
    case 2
    then obtain bs where bs: "content t (bytes_of k) = Some bs" "parseIntStrict (string_of bs) = Some None"
      by (cases "content t (bytes_of k)") auto
    obtain t1 where "api_increment kv k amount t = Some (None, t1)" "good (m + 2) t1" "content t1 = content t"
      by (rule kv_store.increment_not_number [OF st assms(2) bs])
    with 2 show ?thesis by simp
  next
    case (3 n)
    show ?thesis
    proof (cases "int64_add n amount")
      case None
      with kv_store.increment_overflow [OF st assms(2) 3 None] 3 show ?thesis
        by (simp add: int64_add_eq split: if_splits)
    next
      case (Some r)
      then have r: "sint r = sint n + sint amount" "- (2 ^ 63) \<le> sint n + sint amount" "sint n + sint amount < 2 ^ 63"
        using int64_add_eq [of n amount] by (auto simp: int64_add_def split: if_splits)
      obtain t1 where "api_increment kv k amount t = Some (Some r, t1)" "good m t1"
        "content t1 = (content t)(bytes_of k \<mapsto> bytes_of (show_int (sint r)))"
        by (rule kv_store.increment_number [OF st assms(2) 3 Some assms(3)])
      with 3 r show ?thesis by simp
    qed
  qed
qed

text \<open>\<open>MSET\<close> stores its pairs one after the other, later pairs winning, and \<open>MGET\<close> returns the value
  or a null pointer for each key, in order.\<close>

theorem mset_mget_spec:
  assumes "kv_store kv good content storable" "good (n + 2 * length ps) t"
    and "\<forall>(k, v) \<in> set ps. storable (bytes_of k) (bytes_of v)"
  shows "\<exists>t1 t2. api_mset kv (mset_pairs ps) t = Some t1 \<and>
    api_mget kv (map bulk ks) t1 =
      Some (map (\<lambda>k. map_option string_of
        (fold (\<lambda>(k, v) m. m(bytes_of k \<mapsto> bytes_of v)) ps (content t) (bytes_of k))) ks, t2) \<and>
    good n t2 \<and> content t2 = content t1"
proof -
  note st = assms(1)
  obtain t1 where t1: "api_mset kv (mset_pairs ps) t = Some t1" "good n t1"
    "content t1 = fold (\<lambda>(k, v) m. m(bytes_of k \<mapsto> bytes_of v)) ps (content t)"
    using kv_store.mset_content [OF assms] by blast
  from kv_store.mget_content [OF st t1(2), of ks] t1 show ?thesis by (auto simp: bulk_def [abs_def])
qed

theorem mset_mget_spec_witness:
  "\<exists>t1 t2. api_mset (shadow_kv :: (std_map, unit) kv_ops) (mset_pairs [(''a'', ''1''), (''a'', ''2'')]) [] = Some t1 \<and>
     api_mget (shadow_kv :: (std_map, unit) kv_ops) (map bulk [''a'', ''b'']) t1 = Some ([Some ''2'', None], t2)"
proof -
  have "sorted_wrt (<) (map fst ([] :: std_map))" by simp
  from mset_mget_spec [where kv = "shadow_kv :: (std_map, unit) kv_ops", OF shadow_store.kv_store_axioms this,
      of "[(''a'', ''1''), (''a'', ''2'')]" "[''a'', ''b'']"]
  show ?thesis by auto
qed

text \<open>\<open>MGET\<close> of a key that is not stored answers with a bulk string whose pointer is null, and sending
  that answer dereferences it.\<close>

theorem mget_missing_key_undefined:
  assumes "kv_store kv good content storable" "good n t" "to_lower_copy env name = ''mget''"
    and "content t (bytes_of k) = None"
  shows "fst (processCommand env kv [bulk name, bulk k] t c) = Inl undefined_behaviour"
proof -
  obtain t1 where "api_get kv k t = Some (None, t1)"
    using kv_store.get_content [OF assms(1,2), of k] assms(4) by auto
  then have "commandReply env kv [bulk name, bulk k] t = Some (array_value [bulk_string None], t1)"
    by (simp add: commandReply_def assms(3) commandMap_def onMGet_def getArgs_def)
  then show ?thesis
    by (simp add: processCommand_def conn_send_def array_value_def bulk_string_def)
qed

theorem mget_missing_key_undefined_witness:
  "fst (processCommand chunk_env shadow_kv [bulk ''mget'', bulk ''k''] []
     \<lparr>readBuf = [], writeBuf = [], socket = []\<rparr>) = Inl undefined_behaviour"
proof -
  have l: "to_lower_copy chunk_env ''mget'' = ''mget''" by (simp add: chunk_env_def ascii_lower_def)
  have "sorted_wrt (<) (map fst ([] :: std_map))" by simp
  from mget_missing_key_undefined [OF shadow_store.kv_store_axioms this l] show ?thesis by simp
qed

text \<open>C26: without arguments, \<open>GET\<close>, \<open>SET\<close>, \<open>DEL\<close>, \<open>EXISTS\<close>, \<open>INCR\<close>, \<open>INCRBY\<close>, \<open>DECR\<close>, \<open>DECRBY\<close>, \<open>ZADD\<close> and \<open>ZRANGE\<close>
  are answered with the error for a wrong number of arguments and change nothing; \<open>MGET\<close> is answered with an
  empty array and \<open>MSET\<close> with OK, also without a change. A command the server does not know is answered with
  an error and changes nothing, whatever its arguments. The name is looked up in lower case
  (\<open>to_lower_copy\<close>, a parameter).\<close>

theorem command_errors:
  assumes "to_lower_copy env name \<in> set [''get'', ''set'', ''del'', ''exists'', ''incr'', ''incrby'', ''decr'',
      ''decrby'', ''zadd'', ''zrange'']"
    and "to_lower_copy env other \<notin> set (map fst (commandMap env kv))"
    and "to_lower_copy env mget = ''mget''" "to_lower_copy env mset = ''mset''"
  shows "commandReply env kv [bulk name] t = Some (respondErrorWrongArguments, t) \<and>
    (\<exists>message. commandReply env kv (bulk other # args) t = Some (error_value message, t)) \<and>
    commandReply env kv [bulk mget] t = Some (array_value [], t) \<and>
    commandReply env kv [bulk mset] t = Some (respondOk, t)"
proof (intro conjI)
  show "commandReply env kv [bulk name] t = Some (respondErrorWrongArguments, t)"
    using assms(1)
    by (auto simp: commandReply_def commandMap_def onGet_def onSet_def onDel_def onExists_def onIncr_def
        onIncrBy_def onDecr_def onDecrBy_def onZAdd_def onZRange_def)
  have "map_of (commandMap env kv) (to_lower_copy env other) = None"
    using assms(2) by (simp add: map_of_eq_None_iff)
  then show "\<exists>message. commandReply env kv (bulk other # args) t = Some (error_value message, t)"
    by (simp add: commandReply_def) (rule exI, rule refl)
  show "commandReply env kv [bulk mget] t = Some (array_value [], t)"
    by (simp add: commandReply_def assms(3) commandMap_def onMGet_def getArgs_def)
  show "commandReply env kv [bulk mset] t = Some (respondOk, t)"
    by (simp add: commandReply_def assms(4) commandMap_def onMSet_def getArgs_def)
qed

theorem command_errors_witness:
  "commandReply chunk_env shadow_kv [bulk ''GET''] [] = Some (respondErrorWrongArguments, [])"
proof -
  have "to_lower_copy chunk_env ''GET'' = ''get''" "to_lower_copy chunk_env ''hello'' = ''hello''"
    "to_lower_copy chunk_env ''mget'' = ''mget''" "to_lower_copy chunk_env ''mset'' = ''mset''"
    by (simp_all add: chunk_env_def ascii_lower_def char_of_def bit_0)
  then show ?thesis
    using command_errors [of chunk_env "''GET''" "''hello''" shadow_kv "''mget''" "''mset''" "[] :: std_map" "[]"]
    by (simp add: commandMap_def)
qed

subsection \<open>From the socket to the map\<close>

definition op_command :: "leaf_op \<Rightarrow> resp_value list" where
  "op_command op = (case op of
      Put k v \<Rightarrow> set_command (string_of k) (string_of v)
    | Del k \<Rightarrow> del_command (string_of k))"

text \<open>The documented behaviour of \<open>to_lower_copy\<close> on the two lower-case names.\<close>

definition lower_ok :: "'n environment \<Rightarrow> bool" where
  "lower_ok env \<longleftrightarrow> to_lower_copy env ''set'' = ''set'' \<and> to_lower_copy env ''del'' = ''del''"

definition tree_step :: "('t, bytes list \<times> nat) kv_ops \<Rightarrow> 'n environment \<Rightarrow> resp_value list \<Rightarrow> 't \<Rightarrow> 't" where
  "tree_step kv env command t = snd (the (commandReply env kv command t))"

lemma op_command_reply:
  assumes st: "kv_store kv good content storable" and t: "good (n + 2) t" and env: "lower_ok env"
    and op: "op_ok storable op"
  obtains reply w t1 where "commandReply env kv (op_command op) t = Some (reply, t1)" "writeValue reply = Some w"
    "good n t1" "content t1 = content_op op (content t)"
proof (cases op)
  case (Put k v)
  with op have "storable (bytes_of (string_of k)) (bytes_of (string_of v))" by simp
  then obtain t1 where "api_set kv (string_of k) (string_of v) t = Some t1" "good n t1"
    "content t1 = (content t)(k \<mapsto> v)"
    using kv_store.set_content [OF st t] by (metis bytes_of_string_of)
  moreover have "writeValue respondOk = Some (writeSimpleString ''OK'')"
    by (simp add: respondOk_def simple_string_def)
  ultimately show thesis
    using that env Put
    by (simp add: op_command_def set_command_def commandReply_def lower_ok_def commandMap_def onSet_def)
next
  case (Del k)
  have "good (Suc n) t" using kv_store.weaken [OF st t] by simp
  then obtain t1 where "api_del kv (string_of k) t = Some (content t k \<noteq> None, t1)" "good n t1"
    "content t1 = (content t)(k := None)"
    using kv_store.del_content [OF st, of n t "string_of k"] by auto
  with that env Del show thesis
    by (simp add: op_command_def del_command_def commandReply_def lower_ok_def commandMap_def onDel_def
        varArgs_def integer_value_def)
qed

lemma op_command_readable:
  assumes "\<forall>i \<le> 2 ^ 32. reserve_ok env i" "length (op_key op) \<le> 2 ^ 32"
    and "\<And>k v. op = Put k v \<Longrightarrow> length v \<le> 2 ^ 32"
  shows "readable (reserve_ok env) (resp_array_value (op_command op))"
    "fuelFor (resp_array_value (op_command op)) \<le> 5"
  using assms
  by (cases op; simp add: op_command_def set_command_def del_command_def bulk_def bulk_string_def)+

lemma server_map:
  assumes net: "byte_network env pending" and st: "kv_store kv good content storable" and t: "good (m + 2 * length ops) t"
    and env: "lower_ok env" "\<forall>i \<le> 2 ^ 32. reserve_ok env i" "\<forall>s n. fst (asio_write env s n) = None"
    and ops: "\<forall>op \<in> set ops. op_ok storable op \<and> length (op_key op) \<le> 2 ^ 32 \<and>
      (\<forall>k v. op = Put k v \<longrightarrow> length v \<le> 2 ^ 32)"
    and input: "pending n = concat (map (\<lambda>op. the (writeValue (resp_array_value (op_command op)))) ops)"
  shows "\<exists>t1. run (Suc (length ops)) 5 env (processCommand env kv) t
      \<lparr>readBuf = [], writeBuf = [], socket = n\<rparr> = (None, t1) \<and>
    good m t1 \<and> content t1 = fold content_op ops (content t)"
proof -
  let ?commands = "map op_command ops"
  have handler: "\<exists>c'. processCommand env kv command s c = (Inr c', tree_step kv env command s) \<and>
      byte_network.stream pending c' = byte_network.stream pending c \<and> good (m + 2 * k) (tree_step kv env command s)"
    if command: "command \<in> set ?commands" and s: "good (m + 2 * Suc k) s" for command s c k
  proof -
    from command obtain op where op: "op \<in> set ops" "command = op_command op" by auto
    obtain reply w t1 where "commandReply env kv (op_command op) s = Some (reply, t1)" "writeValue reply = Some w"
      "good (m + 2 * k) t1" "content t1 = content_op op (content s)"
      by (rule op_command_reply [OF st _ env(1), of "m + 2 * k" s op]) (use s op ops in auto)
    then have r: "commandReply env kv command s = Some (reply, t1)" "writeValue reply = Some w"
      "good (m + 2 * k) t1" by (simp_all add: op(2))
    let ?c = "c\<lparr>writeBuf := writeBuf c @ w\<rparr>"
    obtain n' where n': "asio_write env (writeBuf ?c) (socket c) = (None, n')"
      using env(3) by (metis prod.collapse)
    have "pending n' = pending (socket c)" by (rule byte_network.write_pending [OF net n'])
    with r n' show ?thesis
      by (auto simp: processCommand_def conn_send_def flush_def tree_step_def byte_network.stream_def [OF net])
  qed
  have runs: "run (Suc (length ?commands)) 5 env (processCommand env kv) t \<lparr>readBuf = [], writeBuf = [], socket = n\<rparr> =
      (None, fold (tree_step kv env) ?commands t) \<and> good (m + 2 * 0) (fold (tree_step kv env) ?commands t)"
  proof (rule byte_network.run_commands [OF net, where I = "\<lambda>k. good (m + 2 * k)"])
    have "readable (reserve_ok env) (resp_array_value (op_command op)) \<and>
        fuelFor (resp_array_value (op_command op)) \<le> 5" if "op \<in> set ops" for op
      using op_command_readable [OF env(2), of op] ops that by blast
    then show "\<forall>xs \<in> set ?commands. fuelFor (resp_array_value xs) \<le> 5"
      "\<forall>xs \<in> set ?commands. readable (reserve_ok env) (resp_array_value xs)"
      by (simp_all del: readable.simps fuelFor.simps)
    show "byte_network.stream pending \<lparr>readBuf = [], writeBuf = [], socket = n\<rparr> =
        concat (map (\<lambda>xs. the (writeValue (resp_array_value xs))) ?commands)"
      using input by (simp add: byte_network.stream_def [OF net] comp_def del: writeValue_simps)
  qed (use handler t in auto)
  have "content (fold (tree_step kv env) (map op_command os) s) = fold content_op os (content s)"
    if "set os \<subseteq> set ops" "good (m + 2 * length os) s" for os s
    using that
  proof (induction os arbitrary: s)
    case (Cons op os)
    obtain reply w t1 where r: "commandReply env kv (op_command op) s = Some (reply, t1)"
      "writeValue reply = Some w" "good (m + 2 * length os) t1" "content t1 = content_op op (content s)"
      by (rule op_command_reply [OF st _ env(1), of "m + 2 * length os" s op]) (use Cons.prems ops in auto)
    with Cons show ?case by (simp add: tree_step_def)
  qed simp
  from this [of ops t] t runs show ?thesis by auto
qed

text \<open>C9: the server over any store that keeps the contract \<open>kv_store\<close> (for the tree: \<open>basicLeaves\<close>, as in
  \<open>hints.hpp\<close> and \<open>inner.hpp\<close>, and entries of at most 128 bytes; not the default configuration) and has
  resources for two updates per command. The input, in whatever pieces the network delivers it, is a sequence
  of \<open>SET\<close> and \<open>DEL\<close> commands with storable entries, each string at most 2 to the 32 bytes, and then the end of
  the connection. Memory for strings of that length can be reserved, no write to the socket fails, and
  \<open>to_lower_copy\<close> keeps the names \<open>set\<close> and \<open>del\<close>. Then the command loop ends with exactly the map the
  sequence of updates gives, and without an error that would end the server.\<close>

theorem server_refines_map:
  assumes net: "byte_network env pending" and st: "kv_store kv good content storable" and t: "good (m + 2 * length ops) t"
    and env: "lower_ok env" "\<forall>i \<le> 2 ^ 32. reserve_ok env i" "\<forall>s n. fst (asio_write env s n) = None"
    and ops: "\<forall>op \<in> set ops. op_ok storable op \<and> length (op_key op) \<le> 2 ^ 32 \<and>
      (\<forall>k v. op = Put k v \<longrightarrow> length v \<le> 2 ^ 32)"
    and input: "pending n = concat (map (\<lambda>op. the (writeValue (resp_array_value (op_command op)))) ops)"
  shows "\<exists>t1. run (Suc (length ops)) 5 env (processCommand env kv) t
      \<lparr>readBuf = [], writeBuf = [], socket = n\<rparr> = (None, t1) \<and>
    good m t1 \<and> content t1 = fold content_op ops (content t)"
  by (rule server_map [OF assms])

theorem server_refines_map_witness:
  "\<exists>t1. run 3 5 chunk_env (processCommand chunk_env shadow_kv) []
     \<lparr>readBuf = [], writeBuf = [],
       socket = [the (writeValue (resp_array_value (set_command ''a'' ''1''))),
         the (writeValue (resp_array_value (del_command ''a'')))]\<rparr> = (None, t1) \<and> map_of t1 = Map.empty"
proof -
  let ?ops = "[Put (bytes_of ''a'') (bytes_of ''1''), Del (bytes_of ''a'')]"
  let ?n = "[the (writeValue (resp_array_value (set_command ''a'' ''1''))),
         the (writeValue (resp_array_value (del_command ''a'')))]"
  have "sorted_wrt (<) (map fst ([] :: std_map))" "lower_ok chunk_env"
    "\<forall>i \<le> 2 ^ 32. reserve_ok chunk_env i" "\<forall>s n. fst (asio_write chunk_env s n) = None"
    by (simp_all add: lower_ok_def chunk_env_def ascii_lower_def)
  moreover have "op_command (Put (bytes_of ''a'') (bytes_of ''1'')) = set_command ''a'' ''1''"
    "op_command (Del (bytes_of ''a'')) = del_command ''a''"
    by (simp_all add: op_command_def)
  then have "concat ?n = concat (map (\<lambda>op. the (writeValue (resp_array_value (op_command op)))) ?ops)"
    by (simp only: list.map)
  ultimately have "\<exists>t1. run (Suc (length ?ops)) 5 chunk_env (processCommand chunk_env shadow_kv) []
      \<lparr>readBuf = [], writeBuf = [], socket = ?n\<rparr> = (None, t1) \<and> sorted_wrt (<) (map fst t1) \<and>
      map_of t1 = fold content_op ?ops (map_of [])"
    by (intro server_refines_map [OF chunk_net.byte_network_axioms shadow_store.kv_store_axioms]) auto
  then show ?thesis by (simp add: numeral_3_eq_3 fun_upd_idem del: run.simps)
qed

text \<open>C22: a byte that starts no RESP value makes the reader throw an error that nothing catches: the server
  ends and serves none of the connections that wait.\<close>

theorem malformed_byte_ends_server:
  assumes "byte_network env pending" "pending n = b # rest"
    and "b \<notin> {resp_INTEGER, resp_STRING, resp_ERR, resp_BULK_STRING, resp_ARRAY}"
  shows "server_main (Suc k) (Suc fuel) env kv t (n # clients) = (Some runtime_error, t)"
proof -
  let ?c = "\<lparr>readBuf = [], writeBuf = [], socket = n\<rparr>"
  have "byte_network.stream pending ?c = b # rest"
    using assms(2) by (simp add: byte_network.stream_def [OF assms(1)])
  then obtain c1 where "readByte env ?c = Inr (b, c1)" by (rule byte_network.readByte_ok [OF assms(1)])
  then show ?thesis using assms(3) by (simp add: server_main_def readCommand_def)
qed

theorem malformed_byte_ends_server_witness:
  "server_main 1 1 chunk_env shadow_kv [] [[''hello''], [''*1'']] = (Some runtime_error, [])"
  using malformed_byte_ends_server [OF chunk_net.byte_network_axioms, of "[''hello'']" "CHR ''h''" "''ello''" 0 0 shadow_kv "[]" "[[''*1'']]"]
  by (simp add: resp_type_defs)

end
