(* ===== verification/TreeSpec.thy ===== *)
theory TreeSpec
  imports TreeRemove RespApiSpec
begin

text \<open>
  The contract of the tree: with pages of type \<open>BTreeNode\<close> it is a finite map, for entries of at most
  \<open>maxEntry\<close> bytes and as many updates as the address space has room for. It interprets the interface
  \<open>kv_store\<close> of the server, so what the server promises over any such store holds over this tree.
\<close>

subsection \<open>The contract\<close>

definition btreeContent :: "btree \<Rightarrow> leaf_content" where
  "btreeContent t key = do {
     (p, _) \<leftarrow> descend (t_pages t) key (t_root t) nullptr;
     node \<leftarrow> t_pages t p;
     (case node of Basic b \<Rightarrow> BTreeNode_lookup key b | _ \<Rightarrow> None)
   }"

text \<open>\<open>treeGood heads n t\<close>: the pages below the root are a well-formed tree, and \<open>n\<close> more updates cannot exhaust the
  address space. An insert costs two units of credit, a removal at most 26, a clearing eleven.\<close>

definition treeGood :: "bool \<Rightarrow> nat \<Rightarrow> btree \<Rightarrow> bool" where
  "treeGood heads n t \<longleftrightarrow> (\<exists>T. represents t T \<and> wfTree heads [] [] T \<and> credit t T + 26 * n \<le> creditLimit)"

definition smallEntry :: "bytes \<Rightarrow> bytes \<Rightarrow> bool" where
  "smallEntry k v \<longleftrightarrow> length k + length v \<le> maxEntry"

lemma btreeContent_tree:
  assumes "represents t T" "wfTree heads [] [] T"
  shows "btreeContent t = treeContent T"
proof
  fix key
  obtain fs p n lo up where T: "T = plug fs (Leaf p n)" and at: "atLeaf heads t key fs p n lo up"
    by (rule atLeaf_exists [OF assms])
  note d = atLeaf_descend [OF at]
  have "BTreeNode_lookup key n = BTreeNode_content n key"
    using at d(4) lookup_content by (simp add: atLeaf_def leafOk_def leafInv_def)
  then show "btreeContent t key = treeContent T key"
    using d(1,3) content_leaf(1) [of heads fs p lo up key] at by (simp add: btreeContent_def atLeaf_def T)
qed

lemma treeGoodE:
  assumes "treeGood heads n t"
  obtains T where "represents t T" "wfTree heads [] [] T" "credit t T + 26 * n \<le> creditLimit"
    "btreeContent t = treeContent T" "sorted_wrt (<) (map fst (treeEntries T))"
  using assms btreeContent_tree wf_within [of _ "[]" "[]"] unfolding treeGood_def within_def by blast

lemma treeGoodI:
  "represents t T \<Longrightarrow> wfTree heads [] [] T \<Longrightarrow> credit t T + 26 * n \<le> creditLimit \<Longrightarrow> treeGood heads n t"
  by (auto simp: treeGood_def)

lemma btree_lookup:
  assumes "\<not> enableAdaptOp cfg" "treeGood heads n t"
  shows "lookupImpl cfg env key t = Some (btreeContent t key, t)"
  using assms lookupImpl_content by (elim treeGoodE) simp

lemma btree_insert:
  assumes cfg: "basicLeaves cfg" "heads = enableHeadNode cfg" and t: "treeGood heads (Suc n) t" and new: "btreeContent t key = None"
    and small: "smallEntry key payload"
  obtains t' where "insertImpl cfg env key payload t = Some t'" "treeGood heads n t'"
    "btreeContent t' = (btreeContent t)(key \<mapsto> payload)"
proof -
  from t obtain T where T: "represents t T" "wfTree heads [] [] T" "credit t T + 26 * Suc n \<le> creditLimit"
    "btreeContent t = treeContent T" by (rule treeGoodE)
  have "credit t T \<le> creditLimit" using T(3) by simp
  with insertImpl_content [OF cfg T(1,2), of key payload env] new small T(4)
  obtain t' T' where r: "insertImpl cfg env key payload t = Some t'" "represents t' T'" "wfTree heads [] [] T'"
    "treeContent T' = (treeContent T)(key \<mapsto> payload)" "credit t' T' \<le> credit t T + 2"
    by (auto simp: smallEntry_def)
  have "treeGood heads n t'" by (rule treeGoodI [OF r(2,3)]) (use r(5) T(3) in simp)
  with r T(4) that btreeContent_tree [OF r(2,3)] show thesis by simp
qed

lemma btree_remove:
  assumes "treeGood heads (Suc n) t"
  obtains t' where "removeImpl cfg env key t = Some (btreeContent t key \<noteq> None, t')" "treeGood heads n t'"
    "btreeContent t' = (btreeContent t)(key := None)"
proof -
  from assms obtain T where T: "represents t T" "wfTree heads [] [] T" "credit t T + 26 * Suc n \<le> creditLimit"
    "btreeContent t = treeContent T" by (rule treeGoodE)
  from removeImpl_content [OF T(1,2), of cfg env key]
  obtain t' T' where r: "removeImpl cfg env key t = Some (treeContent T key \<noteq> None, t')" "represents t' T'"
    "wfTree heads [] [] T'" "treeContent T' = (treeContent T)(key := None)" "credit t' T' \<le> credit t T + 26"
    by blast
  have "treeGood heads n t'" by (rule treeGoodI [OF r(2,3)]) (use r(5) T(3) in simp)
  with r T(4) that btreeContent_tree [OF r(2,3)] show thesis by simp
qed

lemma btree_clear:
  assumes "\<not> enableHash cfg" "treeGood heads (Suc n) t"
  obtains t' where "clearImpl cfg t = Some t'" "treeGood heads n t'" "btreeContent t' = Map.empty"
proof -
  from assms(2) obtain T where T: "represents t T" "wfTree heads [] [] T" "credit t T + 26 * Suc n \<le> creditLimit"
    by (rule treeGoodE)
  have "credit t T + 11 \<le> creditLimit" using T(3) by simp
  from clearImpl_content [OF assms(1) T(1,2) this]
  obtain t' T' where r: "clearImpl cfg t = Some t'" "represents t' T'" "wfTree heads [] [] T'"
    "treeContent T' = Map.empty" "credit t' T' \<le> credit t T + 11" by blast
  have "treeGood heads n t'" by (rule treeGoodI [OF r(2,3)]) (use r(5) T(3) in simp)
  with r that btreeContent_tree [OF r(2,3)] show thesis by simp
qed

lemma btree_entries:
  assumes "treeGood heads n t" "sorted_wrt (<) (map fst es)" "btreeContent t = map_of es"
  obtains T where "represents t T" "wfTree heads [] [] T" "es = treeEntries T"
proof -
  from assms(1) obtain T where T: "represents t T" "wfTree heads [] [] T" "btreeContent t = treeContent T"
    "sorted_wrt (<) (map fst (treeEntries T))" by (rule treeGoodE)
  then have "es = treeEntries T" using assms(2,3) by (intro map_of_sorted_unique) (simp_all add: treeContent_def)
  with T that show thesis by blast
qed

lemma btree_store:
  assumes cfg: "basicLeaves cfg" "heads = enableHeadNode cfg"
  shows "kv_store (btree_kv cfg env) (treeGood heads) btreeContent smallEntry"
proof
  fix n m cap :: nat and t k v cb s and es :: "(bytes \<times> bytes) list"
  have c: "\<not> enableAdaptOp cfg" "\<not> enableHash cfg" using cfg by (simp_all add: basicLeaves_def)
  {
    assume "treeGood heads n t" "m \<le> n"
    then show "treeGood heads m t" unfolding treeGood_def by (meson add_left_mono mult_le_mono2 order_trans)
  next
    assume t: "treeGood heads n t"
    then show "\<exists>t'. kv_lookup (btree_kv cfg env) k t = Some (btreeContent t k, t') \<and> treeGood heads n t' \<and>
        btreeContent t' = btreeContent t"
      using btree_lookup [OF c(1) t] by (simp add: btree_kv_def)
    assume es: "sorted_wrt (<) (map fst es)" "btreeContent t = map_of es"
    obtain T where T: "represents t T" "wfTree heads [] [] T" "es = treeEntries T" by (rule btree_entries [OF t es])
    show "\<exists>t'. kv_range_desc (btree_kv cfg env) k cb t s =
        Some (snd (scan cb (rev (filter (\<lambda>(k', _). k' \<le> k) es)) s), t') \<and> treeGood heads n t' \<and>
        btreeContent t' = btreeContent t"
      using t by (simp add: btree_kv_def range_lookup_descImpl_scan [OF T(1,2)] T(3))
    assume cap: "length k \<le> cap" "\<forall>k' v. smallEntry k' v \<longrightarrow> length k' < cap"
    have "smallEntry (replicate maxEntry 0) []" by (simp add: smallEntry_def)
    with cap(2) have "length (replicate maxEntry (0 :: byte)) < cap" by blast
    then have "maxEntry < cap" by simp
    with t show "\<exists>t'. kv_range (btree_kv cfg env) cap k cb t s =
        Some (snd (scan cb (filter (\<lambda>(k', _). k \<le> k') es) s), t') \<and> treeGood heads n t' \<and> btreeContent t' = btreeContent t"
      by (simp add: btree_kv_def range_lookupInto_scan [OF c(1) T(1,2) cap(1)] T(3))
  next
    assume t: "treeGood heads (Suc n) t"
    show "\<exists>t'. kv_remove (btree_kv cfg env) k t = Some (btreeContent t k \<noteq> None, t') \<and> treeGood heads n t' \<and>
        btreeContent t' = (btreeContent t)(k := None)"
      by (rule btree_remove [OF t, of cfg env k]) (simp add: btree_kv_def)
    show "\<exists>t'. kv_clear (btree_kv cfg env) t = Some t' \<and> treeGood heads n t' \<and> btreeContent t' = Map.empty"
      by (rule btree_clear [OF c(2) t]) (simp add: btree_kv_def)
    assume new: "btreeContent t k = None" "smallEntry k v"
    obtain t' where "insertImpl cfg env k v t = Some t'" "treeGood heads n t'" "btreeContent t' = (btreeContent t)(k \<mapsto> v)"
      by (rule btree_insert [OF cfg t new])
    then show "\<exists>t'. kv_insert (btree_kv cfg env) k v t = Some t' \<and> treeGood heads n t' \<and>
        btreeContent t' = (btreeContent t)(k \<mapsto> v)"
      by (simp add: btree_kv_def)
  }
qed

lemma hints_basicLeaves: "basicLeaves hints_config"
  by (simp add: basicLeaves_def hints_config_def)

lemma inner_basicLeaves: "basicLeaves inner_config"
  by (simp add: basicLeaves_def inner_config_def)

lemma config_heads: "False = enableHeadNode hints_config" "True = enableHeadNode inner_config"
  by (simp_all add: hints_config_def inner_config_def)

interpretation hints_store: kv_store "btree_kv hints_config env" "treeGood False" btreeContent smallEntry for env
  by (rule btree_store [OF hints_basicLeaves config_heads(1)])

interpretation inner_store: kv_store "btree_kv inner_config env" "treeGood True" btreeContent smallEntry for env
  by (rule btree_store [OF inner_basicLeaves config_heads(2)])

lemma btree_new:
  assumes "\<not> enableHash cfg" "26 * n \<le> 2 ^ 55"
  obtains t where "BTree_new cfg emptyHeap = Some t" "treeGood heads n t" "btreeContent t = Map.empty"
proof -
  have "t_brk emptyHeap + pageSizeLeaf \<le> memoryEnd" "0 < t_brk emptyHeap" "t_brk emptyHeap mod pageSizeLeaf = 0"
    by (simp_all add: emptyHeap_def pageSizeLeaf_def memoryEnd_def)
  from BTree_new_content [OF assms(1) this] obtain t T where t: "BTree_new cfg emptyHeap = Some t" "represents t T"
    "wfTree heads [] [] T" "treeContent T = Map.empty" "11 * (t_brk emptyHeap div pageSizeLeaf) + 11 = credit t T" by blast
  have "treeGood heads n t"
    by (rule treeGoodI [OF t(2,3)]) (use t(5) assms(2) in \<open>simp add: emptyHeap_def pageSizeLeaf_def creditLimit_def\<close>)
  with t that btreeContent_tree [OF t(2,3)] show thesis by simp
qed

subsection \<open>Sequences of updates\<close>

text \<open>The updates of the server: a \<open>SET\<close> removes the key before it inserts it.\<close>

fun run_updates :: "('t, 's) kv_ops \<Rightarrow> leaf_op list \<Rightarrow> 't \<Rightarrow> 't option" where
  "run_updates kv [] t = Some t"
| "run_updates kv (Put k v # ops) t = do {
     (_, t1) \<leftarrow> kv_remove kv k t;
     t2 \<leftarrow> kv_insert kv k v t1;
     run_updates kv ops t2
   }"
| "run_updates kv (Del k # ops) t = do {
     (_, t1) \<leftarrow> kv_remove kv k t;
     run_updates kv ops t1
   }"

context kv_store
begin

lemma run_updates_content:
  assumes "inv (n + 2 * length ops) t" "\<forall>op \<in> set ops. op_ok storable op"
  shows "\<exists>t'. run_updates kv ops t = Some t' \<and> inv n t' \<and> content t' = fold content_op ops (content t)"
  using assms
proof (induction ops arbitrary: t)
  case (Cons op ops)
  have t: "inv (Suc (Suc (n + 2 * length ops))) t" using Cons.prems(1) by simp
  show ?case
  proof (cases op)
    case (Put k v)
    obtain t1 where t1: "kv_remove kv k t = Some (content t k \<noteq> None, t1)" "inv (Suc (n + 2 * length ops)) t1"
      "content t1 = (content t)(k := None)" using remove [OF t] by blast
    then obtain t2 where t2: "kv_insert kv k v t1 = Some t2" "inv (n + 2 * length ops) t2"
      "content t2 = (content t1)(k \<mapsto> v)"
      using insert [OF t1(2), of k v] Cons.prems(2) Put by auto
    then have "content t2 = content_op op (content t)" using t1(3) Put by simp
    with Cons.IH [OF t2(2)] Cons.prems(2) t1(1) t2(1) Put show ?thesis by (simp del: content_op.simps)
  next
    case (Del k)
    have "inv (Suc (n + 2 * length ops)) t" by (rule weaken [OF t]) simp
    then obtain t1 where t1: "kv_remove kv k t = Some (content t k \<noteq> None, t1)" "inv (n + 2 * length ops) t1"
      "content t1 = (content t)(k := None)" using remove by blast
    then have "content t1 = content_op op (content t)" using Del by simp
    with Cons.IH [OF t1(2)] Cons.prems(2) t1(1) Del show ?thesis by (simp del: content_op.simps)
  qed
qed simp

end

subsection \<open>No dangling pointers\<close>

text \<open>The addresses the code can reach from the root through the pointers of inner pages.\<close>

inductive reaches :: "btree \<Rightarrow> ptr \<Rightarrow> bool" for t where
  root: "reaches t (t_root t)"
| child: "reaches t p \<Longrightarrow> t_pages t p = Some node \<Longrightarrow> q \<in> set (childPtrs node) \<Longrightarrow> reaches t q"

lemma nodes_children:
  "wfTree heads lo up T \<Longrightarrow> (p, n) \<in> set (nodes T) \<Longrightarrow> q \<in> set (childPtrs n) \<Longrightarrow> q \<in> fst ` set (nodes T)"
proof (induction T arbitrary: lo up)
  case (Leaf r m)
  then have "leafOk m" "n = Basic m" by simp_all
  then show ?case using leaf_not_inner [of m] Leaf.prems(3) by simp
next
  case (Inner r m cs)
  from Inner.prems(1) have m: "innerOk heads m" "nodeKids m = map rootPtr cs" "wfForest heads lo (nodeSeps m @ [up]) cs" by simp_all
  show ?case
  proof (cases "(p, n) = (r, m)")
    case True
    then have "q \<in> rootPtr ` set cs" using Inner.prems(3) inner_facts(3) [OF innerOk_inv [OF m(1)]] m(2) by (simp del: childPtrs.simps)
    then obtain c where "c \<in> set cs" "q = rootPtr c" by blast
    then have "q \<in> fst ` set (nodes c)" "c \<in> set cs" by (simp_all add: nodes_below)
    then show ?thesis by auto
  next
    case False
    then obtain c where c: "c \<in> set cs" "(p, n) \<in> set (nodes c)" using Inner.prems(2) by auto
    from wfForest_children [OF m(3) c(1)] obtain lo2 up2 where "wfTree heads lo2 up2 c" by blast
    from Inner.IH [OF c(1) this c(2) Inner.prems(3)] have "q \<in> fst ` set (nodes c)" .
    with c(1) show ?thesis by auto
  qed
qed

lemma wfTree_nodes: "wfTree heads lo up T \<Longrightarrow> (p, n) \<in> set (nodes T) \<Longrightarrow>
    (\<exists>b. n = Basic b \<and> leafOk b) \<or> innerOk heads n"
proof (induction T arbitrary: lo up)
  case (Inner r m cs)
  then show ?case using wfForest_children [of heads lo "nodeSeps m @ [up]" cs] by fastforce
qed simp

lemma reaches_nodes:
  assumes "represents t T" "wfTree heads [] [] T" "reaches t p"
  shows "\<exists>n. (p, n) \<in> set (nodes T)"
  using assms(3)
proof (induction rule: reaches.induct)
  case root
  have "rootPtr T = t_root t" using assms(1) by (simp add: represents_def)
  then show ?case using nodes_below [of T] by (metis list.set_intros(1))
next
  case (child p node q)
  then obtain n where n: "(p, n) \<in> set (nodes T)" by blast
  have "t_pages t p = Some n" using assms(1) n by (auto simp: represents_def holdsNodes_def)
  then have "q \<in> fst ` set (nodes T)" using nodes_children [OF assms(2) n] child.hyps(2,3) by simp
  then show ?case by force
qed

lemma reaches_subtree:
  "wfTree heads lo up S \<Longrightarrow> holdsNodes (t_pages t) (nodes S) \<Longrightarrow> reaches t (rootPtr S) \<Longrightarrow> p \<in> fst ` set (nodes S) \<Longrightarrow>
    reaches t p"
proof (induction S arbitrary: lo up)
  case (Inner r m cs)
  from Inner.prems(1) have m: "innerOk heads m" "nodeKids m = map rootPtr cs" "wfForest heads lo (nodeSeps m @ [up]) cs" by simp_all
  show ?case
  proof (cases "p = r")
    case False
    with Inner.prems(4) obtain c where c: "c \<in> set cs" "p \<in> fst ` set (nodes c)" by auto
    from wfForest_children [OF m(3) c(1)] obtain lo2 up2 where w: "wfTree heads lo2 up2 c" by blast
    have "reaches t (rootPtr c)"
      by (rule reaches.child [of t r m])
        (use Inner.prems(2,3) c(1) inner_facts(3) [OF innerOk_inv [OF m(1)]] m(2) in \<open>simp_all del: childPtrs.simps\<close>)
    moreover have "holdsNodes (t_pages t) (nodes c)" using Inner.prems(2) c(1) by (auto simp: holdsNodes_def)
    ultimately show ?thesis using Inner.IH [OF c(1) w] c(2) by blast
  qed (use Inner.prems(3) in simp)
qed simp

lemma nodes_reached:
  assumes "represents t T" "wfTree heads [] [] T" "p \<in> fst ` set (nodes T)"
  shows "reaches t p"
  by (rule reaches_subtree [OF assms(2) _ _ assms(3)])
    (use assms(1) reaches.root [of t] in \<open>simp_all add: represents_def\<close>)

text \<open>A start for the witnesses: an empty tree, with basic pages only or with head nodes.\<close>

lemma new_tree:
  assumes "cfg = hints_config \<or> cfg = inner_config"
  obtains t where "BTree_new cfg emptyHeap = Some t" "treeGood (enableHeadNode cfg) 1000 t" "btreeContent t = Map.empty"
    "sorted_wrt (<) (map fst ([] :: (bytes \<times> bytes) list))" "btreeContent t = map_of []"
proof (rule btree_new [of cfg 1000 "enableHeadNode cfg"])
  fix t assume "BTree_new cfg emptyHeap = Some t" "treeGood (enableHeadNode cfg) 1000 t" "btreeContent t = Map.empty"
  then show thesis using that by simp
qed (use assms in \<open>auto simp: hints_config_def inner_config_def\<close>)

lemma new_tree_entry:
  obtains t0 t where "BTree_new inner_config emptyHeap = Some t0" "insertImpl inner_config env [1] [10] t0 = Some t"
    "treeGood True 999 t" "btreeContent t = map_of [([1], [10])]"
proof -
  obtain t0 where t0: "BTree_new inner_config emptyHeap = Some t0" "treeGood (enableHeadNode inner_config) 1000 t0"
    "btreeContent t0 = Map.empty" by (rule new_tree [OF disjI2 [OF refl]])
  from t0(2) have good: "treeGood True (Suc 999) t0" by (simp add: inner_config_def)
  have "btreeContent t0 [1] = None" "smallEntry [1] [10]" using t0(3) by (simp_all add: smallEntry_def maxEntry_def)
  from btree_insert [OF inner_basicLeaves config_heads(2) good this, of env] t0(1,3) that show thesis by auto
qed

text \<open>A sequence of updates on a new tree succeeds and leaves a sound tree with the content it gives.\<close>

lemma run_from_new:
  assumes "basicLeaves cfg" "length ops \<le> 2 ^ 49" "\<forall>op \<in> set ops. op_ok smallEntry op"
  obtains t0 t1 where "BTree_new cfg emptyHeap = Some t0"
    "run_updates (btree_kv cfg env :: (btree, unit) kv_ops) ops t0 = Some t1" "treeGood (enableHeadNode cfg) 0 t1"
    "btreeContent t1 = fold content_op ops Map.empty"
proof -
  have c: "\<not> enableHash cfg" using assms(1) by (simp add: basicLeaves_def)
  have "26 * (0 + 2 * length ops) \<le> 2 ^ 55" using assms(2) by simp
  then obtain t0 where t0: "BTree_new cfg emptyHeap = Some t0" "treeGood (enableHeadNode cfg) (0 + 2 * length ops) t0"
    "btreeContent t0 = Map.empty" by (rule btree_new [OF c])
  from kv_store.run_updates_content [OF btree_store [OF assms(1) refl, of env] t0(2) assms(3)] t0(1,3) that
  show thesis by auto
qed

subsection \<open>Properties\<close>

text \<open>C1: with \<open>basicLeaves\<close> (leaves of type \<open>BTreeNode\<close>, inner pages basic or head nodes, as \<open>hints.hpp\<close>
  and \<open>inner.hpp\<close> configure the library; the default configuration with its dense leaves is excluded), a new
  tree is an empty map. After any sequence of at most 2 to the 49 puts (a removal and an insert, as in
  \<open>SET\<close>) and removals of entries of at most 128 bytes, key and payload together, every one of which succeeds,
  a lookup of any key finds what the sequence of updates gives, through all splits, merges and new roots.\<close>

theorem BTree_refines_map:
  assumes "basicLeaves cfg" "length ops \<le> 2 ^ 49" "\<forall>op \<in> set ops. op_ok smallEntry op"
  shows "\<exists>t0 t1. BTree_new cfg emptyHeap = Some t0 \<and>
    run_updates (btree_kv cfg env :: (btree, unit) kv_ops) ops t0 = Some t1 \<and>
    (\<forall>key. lookupImpl cfg env key t1 = Some (fold content_op ops Map.empty key, t1))"
proof -
  have c: "\<not> enableAdaptOp cfg" using assms(1) by (simp add: basicLeaves_def)
  obtain t0 t1 where "BTree_new cfg emptyHeap = Some t0"
    "run_updates (btree_kv cfg env :: (btree, unit) kv_ops) ops t0 = Some t1" "treeGood (enableHeadNode cfg) 0 t1"
    "btreeContent t1 = fold content_op ops Map.empty"
    by (rule run_from_new [OF assms])
  with btree_lookup [OF c] show ?thesis by auto
qed

theorem BTree_refines_map_witness:
  "\<forall>env. \<exists>t0 t1. BTree_new inner_config emptyHeap = Some t0 \<and>
     run_updates (btree_kv inner_config env :: (btree, unit) kv_ops) [Put [1] [10], Put [2] [20], Put [1] [11], Del [2]] t0 =
       Some t1 \<and>
     lookupImpl inner_config env [1] t1 = Some (Some [11], t1) \<and> lookupImpl inner_config env [2] t1 = Some (None, t1)"
proof
  fix env
  show "\<exists>t0 t1. BTree_new inner_config emptyHeap = Some t0 \<and>
     run_updates (btree_kv inner_config env :: (btree, unit) kv_ops) [Put [1] [10], Put [2] [20], Put [1] [11], Del [2]] t0 =
       Some t1 \<and>
     lookupImpl inner_config env [1] t1 = Some (Some [11], t1) \<and> lookupImpl inner_config env [2] t1 = Some (None, t1)"
    using BTree_refines_map [OF inner_basicLeaves, of "[Put [1] [10], Put [2] [20], Put [1] [11], Del [2]]" env]
    by (auto simp: smallEntry_def maxEntry_def simp del: run_updates.simps)
qed

text \<open>C3: with \<open>basicLeaves\<close> (not the default configuration), in a sound tree (\<open>treeGood\<close>) with address space for
  one more update, an insert of an entry of at most 128 bytes returns when the key is new: the entry is added,
  splitting what is full on the way and starting again as often as needed, and the tree is sound again. When the
  key is there it does not return a tree: the model has no result (\<open>None\<close>), as for an \<open>abort()\<close>, a dangling
  access or a run without end.\<close>

theorem insertImpl_spec:
  assumes "basicLeaves cfg" "treeGood (enableHeadNode cfg) (Suc n) t" "smallEntry key payload"
  shows "case btreeContent t key of
      None \<Rightarrow> \<exists>t'. insertImpl cfg env key payload t = Some t' \<and> treeGood (enableHeadNode cfg) n t' \<and>
        btreeContent t' = (btreeContent t)(key \<mapsto> payload)
    | Some _ \<Rightarrow> insertImpl cfg env key payload t = None"
proof (cases "btreeContent t key")
  case None
  with btree_insert [OF assms(1) refl assms(2) None assms(3), of env] show ?thesis by auto
next
  case (Some old)
  from assms(2) obtain T where T: "represents t T" "wfTree (enableHeadNode cfg) [] [] T" "credit t T + 26 * Suc n \<le> creditLimit"
    "btreeContent t = treeContent T" by (rule treeGoodE)
  have "insertImpl cfg env key payload t = None"
    by (rule insertImpl_present [OF assms(1) refl T(1,2)]) (use Some T(3,4) assms(3) in \<open>simp_all add: smallEntry_def\<close>)
  with Some show ?thesis by simp
qed

theorem insertImpl_spec_witness:
  "\<forall>env. \<exists>t t'. BTree_new inner_config emptyHeap = Some t \<and> insertImpl inner_config env [1] [10] t = Some t' \<and>
     btreeContent t' [1] = Some [10]"
proof
  fix env
  obtain t where t: "BTree_new inner_config emptyHeap = Some t" "treeGood (enableHeadNode inner_config) 1000 t" "btreeContent t = Map.empty"
    by (rule new_tree [OF disjI2 [OF refl]])
  from t(2) have "treeGood (enableHeadNode inner_config) (Suc 999) t" by simp
  from insertImpl_spec [OF inner_basicLeaves this, of "[1]" "[10]" env] t
  show "\<exists>t t'. BTree_new inner_config emptyHeap = Some t \<and> insertImpl inner_config env [1] [10] t = Some t' \<and>
     btreeContent t' [1] = Some [10]"
    by (auto simp: smallEntry_def maxEntry_def)
qed

text \<open>C4: a removal from a sound tree (\<open>treeGood\<close>: basic leaves, entries of at most 128 bytes) with address space
  for one more update returns whether the key was there and takes exactly that entry out, also when the leaf is
  small enough to be merged into its right neighbour; the tree is sound again.\<close>

theorem removeImpl_spec:
  assumes "treeGood heads (Suc n) t"
  shows "\<exists>t'. removeImpl cfg env key t = Some (btreeContent t key \<noteq> None, t') \<and> treeGood heads n t' \<and>
    btreeContent t' = (btreeContent t)(key := None)"
  using btree_remove [OF assms, of cfg env key] by metis

theorem removeImpl_spec_witness:
  "\<forall>env. \<exists>t0 t t'. BTree_new inner_config emptyHeap = Some t0 \<and> insertImpl inner_config env [1] [10] t0 = Some t \<and>
     removeImpl inner_config env [1] t = Some (True, t') \<and> btreeContent t' = Map.empty"
proof
  fix env
  obtain t0 t where t: "BTree_new inner_config emptyHeap = Some t0" "insertImpl inner_config env [1] [10] t0 = Some t"
    "treeGood True 999 t" "btreeContent t = map_of [([1], [10])]" by (rule new_tree_entry)
  from t(3) have "treeGood True (Suc 998) t" by simp
  from removeImpl_spec [OF this, of inner_config env "[1]"] t
  show "\<exists>t0 t t'. BTree_new inner_config emptyHeap = Some t0 \<and> insertImpl inner_config env [1] [10] t0 = Some t \<and>
     removeImpl inner_config env [1] t = Some (True, t') \<and> btreeContent t' = Map.empty"
    by auto
qed

text \<open>C5: without adaptive operations, a range lookup of a sound tree (\<open>treeGood\<close>: basic leaves) goes from leaf to
  leaf and hands the callback exactly the entries not smaller than the start key, in key order, until the callback
  says stop, and leaves the tree alone; the caller's key buffer is taken to be long enough.\<close>

theorem range_lookupImpl_spec:
  assumes "\<not> enableAdaptOp cfg" "treeGood heads n t" "sorted_wrt (<) (map fst es)" "btreeContent t = map_of es"
  shows "range_lookupImpl cfg env key cb t s = Some (snd (scan cb (filter (\<lambda>(k, _). key \<le> k) es) s), t)"
proof -
  obtain T where T: "represents t T" "wfTree heads [] [] T" "es = treeEntries T" by (rule btree_entries [OF assms(2-4)])
  show ?thesis unfolding T(3) by (rule range_lookupImpl_scan [OF assms(1) T(1,2)])
qed

theorem range_lookupImpl_spec_witness:
  "\<forall>env. \<exists>t0 t. BTree_new inner_config emptyHeap = Some t0 \<and> insertImpl inner_config env [1] [10] t0 = Some t \<and>
     range_lookupImpl inner_config env [0] (\<lambda>k v s. (True, s @ [(k, v)])) t [] = Some ([([1], [10])], t)"
proof
  fix env
  obtain t0 t where t: "BTree_new inner_config emptyHeap = Some t0" "insertImpl inner_config env [1] [10] t0 = Some t"
    "treeGood True 999 t" "btreeContent t = map_of [([1], [10])]" by (rule new_tree_entry)
  have es: "sorted_wrt (<) (map fst [([1 :: byte], [10 :: byte])])" by simp
  have "\<not> enableAdaptOp inner_config" by (simp add: inner_config_def)
  from range_lookupImpl_spec [OF this t(3) es t(4), of env "[0]" "\<lambda>k v s. (True, s @ [(k, v)])" "[]"] t(1,2)
  show "\<exists>t0 t. BTree_new inner_config emptyHeap = Some t0 \<and> insertImpl inner_config env [1] [10] t0 = Some t \<and>
     range_lookupImpl inner_config env [0] (\<lambda>k v s. (True, s @ [(k, v)])) t [] = Some ([([1], [10])], t)"
    by simp
qed

text \<open>C6: a descending range lookup of a sound tree (\<open>treeGood\<close>: all leaves are of type \<open>BTreeNode\<close>) hands the
  callback exactly the entries not greater than the start key, in descending order, until it says stop, and
  leaves the tree alone. The default configuration is excluded: the descending scan of a dense leaf aborts.\<close>

theorem range_lookup_descImpl_spec:
  assumes "treeGood heads n t" "sorted_wrt (<) (map fst es)" "btreeContent t = map_of es"
  shows "range_lookup_descImpl env key cb t s = Some (snd (scan cb (rev (filter (\<lambda>(k, _). k \<le> key) es)) s), t)"
proof -
  obtain T where T: "represents t T" "wfTree heads [] [] T" "es = treeEntries T" by (rule btree_entries [OF assms])
  show ?thesis unfolding T(3) by (rule range_lookup_descImpl_scan [OF T(1,2)])
qed

theorem range_lookup_descImpl_spec_witness:
  "\<forall>env. \<exists>t0 t. BTree_new inner_config emptyHeap = Some t0 \<and> insertImpl inner_config env [1] [10] t0 = Some t \<and>
     range_lookup_descImpl env [2] (\<lambda>k v s. (True, s @ [(k, v)])) t [] = Some ([([1], [10])], t)"
proof
  fix env
  obtain t0 t where t: "BTree_new inner_config emptyHeap = Some t0" "insertImpl inner_config env [1] [10] t0 = Some t"
    "treeGood True 999 t" "btreeContent t = map_of [([1], [10])]" by (rule new_tree_entry)
  have es: "sorted_wrt (<) (map fst [([1 :: byte], [10 :: byte])])" by simp
  from range_lookup_descImpl_spec [OF t(3) es t(4), of env "[2]" "\<lambda>k v s. (True, s @ [(k, v)])" "[]"] t(1,2)
  show "\<exists>t0 t. BTree_new inner_config emptyHeap = Some t0 \<and> insertImpl inner_config env [1] [10] t0 = Some t \<and>
     range_lookup_descImpl env [2] (\<lambda>k v s. (True, s @ [(k, v)])) t [] = Some ([([1], [10])], t)"
    by simp
qed

lemma sound_pages:
  assumes "basicLeaves cfg" "treeGood (enableHeadNode cfg) n t" "reaches t p"
  shows "\<exists>node. t_pages t p = Some node \<and> AnyNode_tagOk cfg node \<and> 0 < p \<and> p < t_brk t \<and>
    (if isAnyInner node then innerInv node else \<exists>b. node = Basic b \<and> leafInv b)"
proof -
  from assms(2) obtain T where T: "represents t T" "wfTree (enableHeadNode cfg) [] [] T" by (rule treeGoodE)
  from reaches_nodes [OF T assms(3)] obtain node where b: "(p, node) \<in> set (nodes T)" by blast
  then have page: "t_pages t p = Some node" "pageAddr (t_brk t) p"
    using T(1) by (auto simp: represents_def holdsNodes_def)
  have "AnyNode_tagOk cfg node \<and> (if isAnyInner node then innerInv node else \<exists>b. node = Basic b \<and> leafInv b)"
    using wfTree_nodes [OF T(2) b]
  proof
    assume "\<exists>b. node = Basic b \<and> leafOk b"
    then show ?thesis using assms(1) leaf_not_inner
      by (auto simp: AnyNode_tagOk_def basicLeaves_def leafOk_def leafInv_def BTreeNode_isLeaf_def BTreeNode_isInner_def)
  next
    assume n: "innerOk (enableHeadNode cfg) node"
    then show ?thesis using assms(1) inner_facts(1) [OF innerOk_inv [OF n]] basicInner_facts(3)
      by (cases node) (auto simp: AnyNode_tagOk_def basicLeaves_def innerOk_def BTreeNode_isInner_def)
  qed
  with page show ?thesis by (auto simp: pageAddr_def)
qed

text \<open>C15: with \<open>basicLeaves\<close> (not the default configuration), after any sequence of at most 2 to the 49 puts and
  removals of entries of at most 128 bytes on a new tree, that is after all splits, merges and freed pages, every
  address the code can reach from the root through child pointers is a live page, inside the allocated memory
  and of a type the configuration has (the \<open>ASSUME\<close>s of \<open>AnyNode::tag\<close>), and holds a leaf or an inner page in
  the state its operations require: no split or merge leaves a dangling pointer behind.\<close>

theorem reachable_pages_live:
  assumes "basicLeaves cfg" "length ops \<le> 2 ^ 49" "\<forall>op \<in> set ops. op_ok smallEntry op"
  shows "\<exists>t0 t1. BTree_new cfg emptyHeap = Some t0 \<and>
    run_updates (btree_kv cfg env :: (btree, unit) kv_ops) ops t0 = Some t1 \<and>
    (\<forall>p. reaches t1 p \<longrightarrow> (\<exists>node. t_pages t1 p = Some node \<and> AnyNode_tagOk cfg node \<and> 0 < p \<and> p < t_brk t1 \<and>
      (if isAnyInner node then innerInv node else \<exists>b. node = Basic b \<and> leafInv b)))"
proof -
  obtain t0 t1 where "BTree_new cfg emptyHeap = Some t0"
    "run_updates (btree_kv cfg env :: (btree, unit) kv_ops) ops t0 = Some t1" "treeGood (enableHeadNode cfg) 0 t1"
    by (rule run_from_new [OF assms])
  with sound_pages [OF assms(1)] show ?thesis by blast
qed

theorem reachable_pages_live_witness:
  "\<forall>env. \<exists>t0 t1. BTree_new inner_config emptyHeap = Some t0 \<and>
     run_updates (btree_kv inner_config env :: (btree, unit) kv_ops) [Put [1] [10], Put [2] [20], Del [1]] t0 = Some t1 \<and>
     (\<exists>node. t_pages t1 (t_root t1) = Some node \<and> AnyNode_tagOk inner_config node)"
proof
  fix env
  have "length [Put [1] [10], Put [2] [20], Del [1]] \<le> (2 :: nat) ^ 49"
    "\<forall>op \<in> set [Put [1] [10], Put [2] [20], Del [1]]. op_ok smallEntry op"
    by (simp_all add: smallEntry_def maxEntry_def)
  from reachable_pages_live [OF inner_basicLeaves this, of env] reaches.root
  show "\<exists>t0 t1. BTree_new inner_config emptyHeap = Some t0 \<and>
     run_updates (btree_kv inner_config env :: (btree, unit) kv_ops) [Put [1] [10], Put [2] [20], Del [1]] t0 = Some t1 \<and>
     (\<exists>node. t_pages t1 (t_root t1) = Some node \<and> AnyNode_tagOk inner_config node)"
    by blast
qed

text \<open>C16: in a sound tree (\<open>treeGood\<close>: basic leaves) the memory estimate counts the object and every page the code can
  reach from the root once, so it is at least one page and never more than what was ever allocated.\<close>

theorem approximateMemoryUsage_spec:
  assumes "treeGood heads n t"
  shows "\<exists>m. approximateMemoryUsage t = Some m \<and> m = 8 + 4096 * card {p. reaches t p} \<and> 4104 \<le> m \<and> m < t_brk t"
proof -
  from assms obtain T where T: "represents t T" "wfTree heads [] [] T" by (rule treeGoodE)
  have "{p. reaches t p} = fst ` set (nodes T)"
  proof
    show "{p. reaches t p} \<subseteq> fst ` set (nodes T)" using reaches_nodes [OF T] by force
    show "fst ` set (nodes T) \<subseteq> {p. reaches t p}" using nodes_reached [OF T] by auto
  qed
  then have "card {p. reaches t p} = length (nodes T)"
    using T(1) distinct_card [of "map fst (nodes T)"] by (simp add: represents_def)
  moreover have "0 < length (nodes T)" by (simp add: nodes_below)
  moreover have "8 + 4096 * length (nodes T) < t_brk t"
  proof -
    have "t_brk t = pageSizeLeaf * (t_brk t div pageSizeLeaf)" using T(1) by (auto simp: represents_def)
    with pages_bound [OF T(1)] show ?thesis by (simp add: pageSizeLeaf_def)
  qed
  ultimately show ?thesis using approximateMemoryUsage_tree [OF T] by (simp add: pageSizeLeaf_def Suc_le_eq)
qed

theorem approximateMemoryUsage_spec_witness:
  "\<exists>t m. BTree_new inner_config emptyHeap = Some t \<and> approximateMemoryUsage t = Some m \<and> 4104 \<le> m"
proof -
  obtain t where t: "BTree_new inner_config emptyHeap = Some t" "treeGood (enableHeadNode inner_config) 1000 t" "btreeContent t = Map.empty"
    by (rule new_tree [OF disjI2 [OF refl]])
  from approximateMemoryUsage_spec [OF t(2)] t(1) show ?thesis by blast
qed

end
