(* ===== verification/TreeApi.thy ===== *)
theory TreeApi
  imports TreeSpec
begin

text \<open>
  Operations of the server and the checking wrapper over the tree itself: what \<open>KvApi\<close> and \<open>Wrapper\<close> show
  for any store with the contract, with \<open>btree_kv\<close> for the store.
\<close>

text \<open>C23: the wrapper that checks a tree against a \<open>std::map\<close>, with \<open>basicLeaves\<close> (not claimed for the
  default configuration, whose dense leaves have faults the checks can meet): from a new tree and an empty map, any
  sequence of at most 2 to the 49 checked puts and removals of entries of at most 128 bytes passes all assertions.
  An ascending range lookup after it, with a key buffer that holds the start key and is longer than 128 bytes, passes
  all assertions of its callback too, shows the user's callback exactly the entries not smaller than the start
  key, in key order until it says stop, and leaves the map as it was.\<close>

theorem wrapper_range_lookup_spec:
  assumes "basicLeaves cfg" "length ops \<le> 2 ^ 49" "\<forall>op \<in> set ops. op_ok smallEntry op"
    and "length key \<le> cap" "128 < cap"
  shows "\<exists>t0 w1 w2. BTree_new cfg emptyHeap = Some t0 \<and>
    wrapper_updates (btree_kv cfg henv :: (btree, unit) kv_ops) ops \<lparr>w_impl = t0, w_std_map = []\<rparr> = Some w1 \<and>
    sorted_wrt (<) (map fst (w_std_map w1)) \<and> map_of (w_std_map w1) = fold content_op ops Map.empty \<and>
    wrapper_range_lookup (btree_kv cfg henv) cap key cb w1 s =
      Some (snd (scan cb (filter (\<lambda>(k, _). key \<le> k) (w_std_map w1)) s), w2) \<and> w_std_map w2 = w_std_map w1"
proof -
  have st: "kv_store (btree_kv cfg henv :: (btree, unit) kv_ops) (treeGood (enableHeadNode cfg)) btreeContent smallEntry"
    by (rule btree_store [OF assms(1) refl])
  have c: "\<not> enableHash cfg" using assms(1) by (simp add: basicLeaves_def)
  have "26 * (0 + 2 * length ops) \<le> 2 ^ 55" using assms(2) by simp
  then obtain t0 where t0: "BTree_new cfg emptyHeap = Some t0" "treeGood (enableHeadNode cfg) (0 + 2 * length ops) t0"
    "btreeContent t0 = Map.empty" by (rule btree_new [OF c])
  let ?w = "\<lparr>w_impl = t0, w_std_map = []\<rparr>"
  have "shadows (treeGood (enableHeadNode cfg) (0 + 2 * length ops)) btreeContent ?w" using t0 by (simp add: shadows_def)
  from kv_store.wrapper_updates_ok [OF st this assms(3)] obtain w1 where
    w1: "wrapper_updates (btree_kv cfg henv :: (btree, unit) kv_ops) ops ?w = Some w1" "shadows (treeGood (enableHeadNode cfg) 0) btreeContent w1"
    "map_of (w_std_map w1) = fold content_op ops Map.empty" by auto
  have "\<forall>k v. smallEntry k v \<longrightarrow> length k < cap" using assms(5) by (simp add: smallEntry_def maxEntry_def)
  from wrapper_range_lookup_ok [OF btree_store [OF assms(1) refl] w1(2) assms(4) this, of henv cb s] obtain w2 where
    "wrapper_range_lookup (btree_kv cfg henv) cap key cb w1 s =
      Some (snd (scan cb (filter (\<lambda>(k', _). key \<le> k') (w_std_map w1)) s), w2)" "w_std_map w2 = w_std_map w1" by blast
  moreover have "sorted_wrt (<) (map fst (w_std_map w1))" using w1(2) by (simp add: shadows_def)
  ultimately show ?thesis using w1(1,3) t0(1) by blast
qed

theorem wrapper_range_lookup_spec_witness:
  "\<forall>henv. \<exists>t0 w1 w2. BTree_new inner_config emptyHeap = Some t0 \<and>
     wrapper_updates (btree_kv inner_config henv :: (btree, unit) kv_ops) [Put [1] [10], Put [2] [20], Del [1]] \<lparr>w_impl = t0, w_std_map = []\<rparr> = Some w1 \<and>
     map_of (w_std_map w1) = [[2] \<mapsto> [20]] \<and>
     wrapper_range_lookup (btree_kv inner_config henv) 256 [0] (\<lambda>k v s. (True, s @ [k])) w1 [] =
       Some (snd (scan (\<lambda>k v s. (True, s @ [k])) (filter (\<lambda>(k, _). [0] \<le> k) (w_std_map w1)) []), w2)"
proof
  fix henv
  let ?ops = "[Put [1] [10], Put [2] [20], Del [1]] :: leaf_op list"
  have "length ?ops \<le> 2 ^ 49" "\<forall>op \<in> set ?ops. op_ok smallEntry op" "length [0 :: byte] \<le> 256" "128 < (256 :: nat)"
    by (simp_all add: smallEntry_def maxEntry_def)
  from wrapper_range_lookup_spec [OF inner_basicLeaves this, of henv "\<lambda>k v s. (True, s @ [k])" "[]"]
  obtain t0 w1 w2 where r: "BTree_new inner_config emptyHeap = Some t0"
    "wrapper_updates (btree_kv inner_config henv :: (btree, unit) kv_ops) ?ops \<lparr>w_impl = t0, w_std_map = []\<rparr> = Some w1"
    "map_of (w_std_map w1) = fold content_op ?ops Map.empty"
    "wrapper_range_lookup (btree_kv inner_config henv) 256 [0] (\<lambda>k v s. (True, s @ [k])) w1 [] =
      Some (snd (scan (\<lambda>k v s. (True, s @ [k])) (filter (\<lambda>(k, _). [0] \<le> k) (w_std_map w1)) []), w2)" by blast
  have "fold content_op ?ops Map.empty = [[2 :: byte] \<mapsto> [20]]" by (auto simp: fun_eq_iff)
  with r show "\<exists>t0 w1 w2. BTree_new inner_config emptyHeap = Some t0 \<and>
     wrapper_updates (btree_kv inner_config henv :: (btree, unit) kv_ops) ?ops \<lparr>w_impl = t0, w_std_map = []\<rparr> = Some w1 \<and>
     map_of (w_std_map w1) = [[2] \<mapsto> [20]] \<and>
     wrapper_range_lookup (btree_kv inner_config henv) 256 [0] (\<lambda>k v s. (True, s @ [k])) w1 [] =
       Some (snd (scan (\<lambda>k v s. (True, s @ [k])) (filter (\<lambda>(k, _). [0] \<le> k) (w_std_map w1)) []), w2)"
    by (simp only:) blast
qed

text \<open>C24: the increment behind \<open>INCR\<close>, \<open>INCRBY\<close>, \<open>DECR\<close> and \<open>DECRBY\<close>, on a sound tree (\<open>treeGood\<close>) with
  \<open>basicLeaves\<close> (not the default configuration), address space for two more updates and a key of at most 108
  bytes, so that key and number are an entry of at most 128 bytes. A missing key counts as 0. When the stored value
  is no integer, the result is the error and the map stays as it is. When the sum of stored value and amount is a
  64-bit number, it is returned and its decimal form stored, and nothing else changes. When it is not, or when the
  digits of the stored value do not fit, the signed arithmetic overflows, which is undefined behaviour: the
  model has no result.\<close>

theorem api_increment_spec:
  assumes "basicLeaves cfg" "treeGood (enableHeadNode cfg) (m + 2) t" "length k \<le> 108"
  shows "case (case btreeContent t (bytes_of k) of None \<Rightarrow> Some (Some 0) | Some bs \<Rightarrow> parseIntStrict (string_of bs)) of
      None \<Rightarrow> api_increment (btree_kv cfg henv :: (btree, 's) kv_ops) k amount t = None
    | Some None \<Rightarrow> \<exists>t1. api_increment (btree_kv cfg henv :: (btree, 's) kv_ops) k amount t = Some (None, t1) \<and>
        treeGood (enableHeadNode cfg) (m + 2) t1 \<and> btreeContent t1 = btreeContent t
    | Some (Some n) \<Rightarrow>
        (if - (2 ^ 63) \<le> sint n + sint amount \<and> sint n + sint amount < 2 ^ 63
         then \<exists>t1 r. api_increment (btree_kv cfg henv :: (btree, 's) kv_ops) k amount t = Some (Some r, t1) \<and>
           sint r = sint n + sint amount \<and> treeGood (enableHeadNode cfg) m t1 \<and>
           btreeContent t1 = (btreeContent t)(bytes_of k \<mapsto> bytes_of (show_int (sint n + sint amount)))
         else api_increment (btree_kv cfg henv :: (btree, 's) kv_ops) k amount t = None)"
proof -
  have "smallEntry (bytes_of k) (bytes_of (show_int (sint n)))" for n :: int64
    using assms(3) length_show_int64 [of n] by (simp add: smallEntry_def maxEntry_def)
  from increment_over_store [OF btree_store [OF assms(1) refl] assms(2) this, of henv amount] show ?thesis .
qed

theorem api_increment_spec_witness:
  "\<forall>henv. \<exists>t0 t1. BTree_new inner_config emptyHeap = Some t0 \<and>
     api_increment (btree_kv inner_config henv :: (btree, unit) kv_ops) ''n'' 5 t0 = Some (Some 5, t1) \<and>
     btreeContent t1 (bytes_of ''n'') = Some (bytes_of ''5'')"
proof
  fix henv
  obtain t0 where t0: "BTree_new inner_config emptyHeap = Some t0" "treeGood (enableHeadNode inner_config) 1000 t0"
    "btreeContent t0 = Map.empty" by (rule new_tree [OF disjI2 [OF refl]])
  from t0(2) have good: "treeGood (enableHeadNode inner_config) (998 + 2) t0" by simp
  have len: "length ''n'' \<le> 108" by simp
  have five: "sint (5 :: int64) = 5" by simp
  from api_increment_spec [OF inner_basicLeaves good len, where amount = 5 and henv = henv] t0(3)
  obtain t1 r where r: "api_increment (btree_kv inner_config henv :: (btree, unit) kv_ops) ''n'' 5 t0 = Some (Some r, t1)"
    "sint r = 5" "btreeContent t1 = [bytes_of ''n'' \<mapsto> bytes_of (show_int 5)]" by (auto simp: five)
  from r(2) five have "r = 5" by (metis signed_word_eqI)
  moreover have "show_int 5 = ''5''" by (simp add: show_int_def show_nat.simps digit_char_def char_of_def bit_0)
  ultimately show "\<exists>t0 t1. BTree_new inner_config emptyHeap = Some t0 \<and>
     api_increment (btree_kv inner_config henv :: (btree, unit) kv_ops) ''n'' 5 t0 = Some (Some 5, t1) \<and>
     btreeContent t1 (bytes_of ''n'') = Some (bytes_of ''5'')" using t0(1) r by auto
qed

text \<open>C25: \<open>ZRANGE\<close> over a sound tree (\<open>treeGood\<close>: entries of at most 128 bytes) with \<open>basicLeaves\<close> (not the
  default configuration) collects the first keys not smaller than the minimum, in lexicographic order, as many as the
  limit allows, and changes nothing. The scan writes the minimum, every key it reports and every upper fence with a
  zero byte into the static buffer of 256 bytes: with a minimum of at most 256 bytes no write passes its end, with a
  longer one (and a limit above 0) the copy of the minimum does, and the model has no result.\<close>

theorem api_zrange_spec:
  assumes "basicLeaves cfg" "treeGood (enableHeadNode cfg) n t"
    and "sorted_wrt (<) (map fst es)" "btreeContent t = map_of es"
  shows "if limit = 0 \<or> length minKey \<le> 256
    then \<exists>t1. api_zrange (btree_kv cfg henv) minKey limit t =
        Some (map string_of (take (unat limit) (filter (\<lambda>k. bytes_of minKey \<le> k) (map fst es))), t1) \<and>
      treeGood (enableHeadNode cfg) n t1 \<and> btreeContent t1 = btreeContent t
    else api_zrange (btree_kv cfg henv) minKey limit t = None"
proof -
  have c: "\<not> enableAdaptOp cfg" using assms(1) by (simp add: basicLeaves_def)
  have small: "\<forall>k v. smallEntry k v \<longrightarrow> length k < 256" by (simp add: smallEntry_def maxEntry_def)
  consider "limit = 0" | "length minKey \<le> 256" | "limit \<noteq> 0" "256 < length minKey" by linarith
  then show ?thesis
  proof cases
    case 1
    with assms(2) show ?thesis by (simp add: api_zrange_def)
  next
    case 2
    from kv_store_scan.zrange_content [OF kv_store_scan.intro [OF btree_store [OF assms(1) refl]] assms(2-4) 2 small,
        of henv limit] 2
    show ?thesis by auto
  next
    case 3
    obtain T where T: "represents t T" "wfTree (enableHeadNode cfg) [] [] T" by (rule btree_entries [OF assms(2-4)])
    have "keyOut_size < length (bytes_of minKey)" using 3(2) by (simp add: keyOut_size_def)
    from range_lookupInto_overflow [OF c T this, where env = henv and cb = "zrange_callback limit" and s = "([], 0)"] 3 show ?thesis by (simp add: api_zrange_def btree_kv_def)
  qed
qed

theorem api_zrange_spec_witness:
  "\<forall>henv. \<exists>t0 t t1. BTree_new inner_config emptyHeap = Some t0 \<and> insertImpl inner_config henv [1] [10] t0 = Some t \<and>
     api_zrange (btree_kv inner_config henv) [] 3 t = Some ([string_of [1]], t1) \<and>
     api_zrange (btree_kv inner_config henv) (replicate 257 CHR ''a'') 3 t = None"
proof
  fix henv
  obtain t0 t where t: "BTree_new inner_config emptyHeap = Some t0" "insertImpl inner_config henv [1] [10] t0 = Some t"
    "treeGood True 999 t" "btreeContent t = map_of [([1], [10])]" by (rule new_tree_entry)
  have good: "treeGood (enableHeadNode inner_config) 999 t" using t(3) by (simp add: inner_config_def)
  have es: "sorted_wrt (<) (map fst [([1 :: byte], [10 :: byte])])" by simp
  note z = api_zrange_spec [OF inner_basicLeaves good es t(4), where limit = 3 and henv = henv]
  from z [of "[]"] z [of "replicate 257 CHR ''a''"] t(1,2)
  show "\<exists>t0 t t1. BTree_new inner_config emptyHeap = Some t0 \<and> insertImpl inner_config henv [1] [10] t0 = Some t \<and>
     api_zrange (btree_kv inner_config henv) [] 3 t = Some ([string_of [1]], t1) \<and>
     api_zrange (btree_kv inner_config henv) (replicate 257 CHR ''a'') 3 t = None"
    by (simp add: bytes_of_def) blast
qed

end
