(* ===== verification/HashNodeProps.thy ===== *)
theory HashNodeProps
  imports HashNode
begin

text \<open>
  The search of the hash leaf: the vectorised search finds the same slot as the plain loop, for
  every alignment of the hash array, and both find a key exactly when the leaf holds it.
\<close>

subsection \<open>The vectorised search\<close>

lemma bit_hashSimdEq: "bit (hashSimdEq m addr needle) j \<longleftrightarrow> j < 32 \<and> m (addr + j) = needle"
proof (cases "j < 32")
  case True
  then have "bit (hashSimdEq m addr needle) j = (map (\<lambda>j. m (addr + j) = needle) [0..<32]) ! j"
    unfolding hashSimdEq_def hashSimdWidth_def
    by (subst bit_horner_sum_bit_iff) (simp add: possible_bit_def)
  with True show ?thesis by simp
next
  case False
  then show ?thesis using bit_imp_le_length [of "hashSimdEq m addr needle" j] by auto
qed

lemma countr_zero_32: "countr_zero w = 32 \<Longrightarrow> \<not> bit w j"
  using countr_zero_before [of j w] bit_imp_le_length [of w j] by fastforce

lemma bit_minus_one_odd:
  fixes w :: "32 word"
  assumes "bit w 0"
  shows "bit (w - 1) j \<longleftrightarrow> bit w j \<and> j \<noteq> 0"
proof -
  have odd: "odd w" using assms by (simp add: bit_0)
  show ?thesis
  proof (cases "j = 0")
    case True
    with odd show ?thesis by (simp add: bit_0)
  next
    case False
    with odd_bit_iff_bit_pred [OF odd, of j] show ?thesis by simp
  qed
qed

definition slotMatches :: "HashNode \<Rightarrow> bytes \<Rightarrow> byte \<Rightarrow> nat \<Rightarrow> bool" where
  "slotMatches n key hash i \<longleftrightarrow> HashNode_hash n i = hash \<and> hs_keyLen (h_slot n i) = length key \<and>
     memcmp (HashNode_getKey n i) key = 0"

definition firstMatch :: "HashNode \<Rightarrow> bytes \<Rightarrow> byte \<Rightarrow> nat option" where
  "firstMatch n key hash =
     (let i = for_until (slotMatches n key hash) 0 (h_count n) in if i < h_count n then Some i else None)"

lemma firstMatch_None: "(\<And>i. i < h_count n \<Longrightarrow> \<not> slotMatches n key hash i) \<Longrightarrow> firstMatch n key hash = None"
  using for_until_stop [of "slotMatches n key hash" 0 "h_count n"] by (auto simp: firstMatch_def Let_def)

lemma firstMatch_Some:
  assumes "i < h_count n" "slotMatches n key hash i" "\<And>j. j < i \<Longrightarrow> \<not> slotMatches n key hash j"
  shows "firstMatch n key hash = Some i"
proof -
  let ?i = "for_until (slotMatches n key hash) 0 (h_count n)"
  have "?i \<le> h_count n" using for_until_bounds [of 0 "h_count n"] by simp
  have "\<not> i < ?i" using for_until_before [of 0 i "slotMatches n key hash" "h_count n"] assms(2) by auto
  moreover have "\<not> ?i < i"
    using for_until_stop [of "slotMatches n key hash" 0 "h_count n"] assms(1,3) by (metis less_trans)
  ultimately have "?i = i" by simp
  with assms(1) show ?thesis by (simp add: firstMatch_def)
qed

lemma findIndexNoSimd_firstMatch:
  "HashNode_findIndexNoSimd n key hash = firstMatch n (drop (h_prefixLength n) key) hash"
proof -
  have "(\<lambda>i. HashNode_hash n i = hash \<and> length k = hs_keyLen (h_slot n i) \<and> memcmp (HashNode_getKey n i) k = 0) =
      slotMatches n k hash" for k by (auto simp: slotMatches_def)
  then show ?thesis by (simp only: HashNode_findIndexNoSimd_def firstMatch_def Let_def)
qed

text \<open>The state of the loop: \<open>seen\<close> says whether the position \<open>shift\<close> itself was already rejected.\<close>

definition simdState :: "HashNode \<Rightarrow> bytes \<Rightarrow> byte \<Rightarrow> bool \<Rightarrow> nat \<Rightarrow> nat \<Rightarrow> 32 word \<Rightarrow> bool" where
  "simdState n key hash seen haystack shift matches \<longleftrightarrow>
     (let misalign = h_hashOffset n mod 32
      in misalign \<le> shift \<and>
         haystack + shift mod 32 + misalign = h_hashOffset n + shift \<and>
         (\<forall>j. bit matches j \<longleftrightarrow> shift mod 32 + j < 32 \<and> h_heap n (haystack + shift mod 32 + j) = hash \<and> \<not> (j = 0 \<and> seen)) \<and>
         (\<forall>i < shift - misalign + of_bool seen. \<not> slotMatches n key hash i))"

lemma simdStateD:
  assumes "simdState n key hash seen haystack shift matches"
  shows "h_hashOffset n mod 32 \<le> shift"
    and "haystack + shift mod 32 + h_hashOffset n mod 32 = h_hashOffset n + shift"
    and "bit matches j \<longleftrightarrow>
      shift mod 32 + j < 32 \<and> h_heap n (haystack + shift mod 32 + j) = hash \<and> \<not> (j = 0 \<and> seen)"
    and "i < shift - h_hashOffset n mod 32 + of_bool seen \<Longrightarrow> \<not> slotMatches n key hash i"
  using assms unfolding simdState_def Let_def by blast+

lemma simdStateI:
  assumes "h_hashOffset n mod 32 \<le> shift"
    and "haystack + shift mod 32 + h_hashOffset n mod 32 = h_hashOffset n + shift"
    and "\<And>j. bit matches j \<longleftrightarrow>
      shift mod 32 + j < 32 \<and> h_heap n (haystack + shift mod 32 + j) = hash \<and> \<not> (j = 0 \<and> seen)"
    and "\<And>i. i < shift - h_hashOffset n mod 32 + of_bool seen \<Longrightarrow> \<not> slotMatches n key hash i"
  shows "simdState n key hash seen haystack shift matches"
  using assms unfolding simdState_def Let_def by blast

lemma simdState_hash:
  assumes "simdState n key hash seen haystack shift matches"
  shows "h_heap n (haystack + shift mod 32 + j) = HashNode_hash n (shift - h_hashOffset n mod 32 + j)"
proof -
  note d = simdStateD(1,2) [OF assms]
  from d have "haystack + shift mod 32 + j = h_hashOffset n + (shift - h_hashOffset n mod 32 + j)"
    by linarith
  then show ?thesis unfolding HashNode_hash_def by (rule arg_cong)
qed

lemma simdState_gap:
  assumes s: "simdState n key hash seen haystack shift matches"
    and i: "i < shift - h_hashOffset n mod 32 + k" "k + shift mod 32 \<le> 32"
    and bits: "\<And>j. j < k \<Longrightarrow> \<not> bit matches j"
  shows "\<not> slotMatches n key hash i"
proof (cases "i < shift - h_hashOffset n mod 32 + of_bool seen")
  case True
  with simdStateD(4) [OF s] show ?thesis by blast
next
  case False
  define j where "j = i - (shift - h_hashOffset n mod 32)"
  have ge: "shift - h_hashOffset n mod 32 \<le> i" using False by simp
  have j: "i = shift - h_hashOffset n mod 32 + j" unfolding j_def using ge by simp
  have jk: "j < k" using i(1) j by linarith
  then have "shift mod 32 + j < 32" using i(2) by linarith
  moreover have "\<not> (j = 0 \<and> seen)" using False j by auto
  ultimately have "h_heap n (haystack + shift mod 32 + j) \<noteq> hash"
    using bits [OF jk] simdStateD(3) [OF s, of j] by blast
  then have "HashNode_hash n i \<noteq> hash" using simdState_hash [OF s, of j] j by metis
  then show ?thesis by (simp add: slotMatches_def)
qed

lemma next_block: "(shift - shift mod 32 + 32) mod 32 = (0 :: nat)" "shift - shift mod 32 + 32 = shift + (32 - shift mod 32)"
  for shift :: nat
proof -
  show "(shift - shift mod 32 + 32) mod 32 = 0" by (simp add: minus_mod_eq_div_mult)
  show "shift - shift mod 32 + 32 = shift + (32 - shift mod 32)"
    using mod_less_divisor [of 32 shift] mod_less_eq_dividend [of shift 32] by linarith
qed

lemma simdState_next_block:
  assumes s: "simdState n key hash seen haystack shift matches" and z: "countr_zero matches = 32"
  shows "simdState n key hash False (haystack + 32) (shift - shift mod 32 + 32)
    (hashSimdEq (h_heap n) (haystack + 32) hash)"
proof (rule simdStateI)
  let ?m = "h_hashOffset n mod 32" and ?s = "shift - shift mod 32 + 32"
  note d = simdStateD(1,2) [OF s] and nb = next_block [of shift]
  show "?m \<le> ?s" using d(1) nb(2) by linarith
  show "haystack + 32 + ?s mod 32 + ?m = h_hashOffset n + ?s"
    using d(2) nb mod_less_divisor [of 32 shift] by linarith
  show "bit (hashSimdEq (h_heap n) (haystack + 32) hash) j \<longleftrightarrow>
      ?s mod 32 + j < 32 \<and> h_heap n (haystack + 32 + ?s mod 32 + j) = hash \<and> \<not> (j = 0 \<and> False)" for j
    by (simp only: nb(1) bit_hashSimdEq) simp
  show "\<not> slotMatches n key hash i" if "i < ?s - ?m + of_bool False" for i
  proof (rule simdState_gap [OF s, where k = "32 - shift mod 32"])
    show "i < shift - ?m + (32 - shift mod 32)" using that nb(2) d(1) by simp
    show "32 - shift mod 32 + shift mod 32 \<le> 32" using mod_less_divisor [of 32 shift] by linarith
  qed (use countr_zero_32 [OF z] in blast)
qed

lemma simdState_candidate:
  assumes s: "simdState n key hash seen haystack shift matches" and z: "countr_zero matches = tz" "tz < 32"
  shows "HashNode_hash n (shift + tz - h_hashOffset n mod 32) = hash"
    and "i < shift + tz - h_hashOffset n mod 32 \<Longrightarrow> \<not> slotMatches n key hash i"
    and "\<not> slotMatches n key hash (shift + tz - h_hashOffset n mod 32) \<Longrightarrow>
      simdState n key hash True haystack (shift + tz) (drop_bit tz matches - 1)"
proof -
  let ?m = "h_hashOffset n mod 32"
  have bt: "bit matches tz" using countr_zero_bit z by auto
  note d = simdStateD(1,2) [OF s]
  have r: "shift mod 32 + tz < 32" and eq: "h_heap n (haystack + shift mod 32 + tz) = hash"
    using simdStateD(3) [OF s, of tz] bt by blast+
  have e: "shift + tz - ?m = shift - ?m + tz" by (rule diff_add_assoc2 [OF d(1)])
  show hash: "HashNode_hash n (shift + tz - ?m) = hash" using simdState_hash [OF s, of tz] eq e by metis
  have before: "\<not> slotMatches n key hash j" if "j < shift + tz - ?m" for j
  proof (rule simdState_gap [OF s, where k = tz])
    show "j < shift - ?m + tz" using that by (simp only: e)
    show "tz + shift mod 32 \<le> 32" using r by (simp only: add.commute less_imp_le)
  qed (use z(1) countr_zero_before [of _ matches] in blast)
  then show "i < shift + tz - ?m \<Longrightarrow> \<not> slotMatches n key hash i" .
  have "(shift + tz) mod 32 = (shift mod 32 + tz) mod 32" by (simp add: mod_add_left_eq)
  also have "\<dots> = shift mod 32 + tz" using r by (rule mod_less)
  finally have md: "(shift + tz) mod 32 = shift mod 32 + tz" .
  show "simdState n key hash True haystack (shift + tz) (drop_bit tz matches - 1)"
    if no: "\<not> slotMatches n key hash (shift + tz - ?m)"
  proof (rule simdStateI)
    show "?m \<le> shift + tz" using d(1) by linarith
    show "haystack + (shift + tz) mod 32 + ?m = h_hashOffset n + (shift + tz)" using d(2) md by linarith
    have b: "bit (drop_bit tz matches - 1) j \<longleftrightarrow> bit matches (tz + j) \<and> j \<noteq> 0" for j
      using bt by (subst bit_minus_one_odd) (auto simp: bit_drop_bit_eq)
    show "bit (drop_bit tz matches - 1) j \<longleftrightarrow> (shift + tz) mod 32 + j < 32 \<and>
        h_heap n (haystack + (shift + tz) mod 32 + j) = hash \<and> \<not> (j = 0 \<and> True)" for j
      unfolding b simdStateD(3) [OF s] md by (auto simp only: add.assoc)
    show "\<not> slotMatches n key hash j" if "j < shift + tz - ?m + of_bool True" for j
      using that before no by (metis less_Suc_eq Suc_eq_plus1 of_bool_eq(2))
  qed
qed

lemma simdLoop_firstMatch:
  assumes "simdState n key hash seen haystack shift matches" "misalign = h_hashOffset n mod 32"
    and "limit = misalign + h_count n"
  shows "HashNode_simdLoop n key hash misalign limit haystack shift matches = firstMatch n key hash"
  using assms
proof (induction n key hash misalign limit haystack shift matches arbitrary: seen rule: HashNode_simdLoop.induct)
  case (1 n key hash misalign limit haystack shift matches)
  note s = 1(3)
  note unfolded = HashNode_simdLoop.simps [of n key hash misalign limit haystack shift matches]
  let ?tz = "countr_zero matches"
  have m: "misalign \<le> shift" using simdStateD(1) [OF s] 1(4) by simp
  show ?case
  proof (cases "shift < limit")
    case False
    have "firstMatch n key hash = None"
      using False 1(4,5) by (intro firstMatch_None simdStateD(4) [OF s]) linarith
    with False unfolded show ?thesis by simp
  next
    case True
    show ?thesis
    proof (cases "?tz = hashSimdWidth")
      case tz: True
      let ?s = "shift - shift mod 32 + 32"
      from simdState_next_block [OF s] tz
      have s': "simdState n key hash False (haystack + 32) ?s (hashSimdEq (h_heap n) (haystack + 32) hash)"
        by (simp add: hashSimdWidth_def)
      show ?thesis
      proof (cases "?s \<ge> limit")
        case past: True
        have "firstMatch n key hash = None"
          using past 1(4,5) by (intro firstMatch_None simdStateD(4) [OF s']) linarith
        with True tz past unfolded show ?thesis by (simp add: hashSimdWidth_def)
      next
        case False
        with True tz unfolded 1(1) [OF True refl] s' 1(4,5) show ?thesis by (simp add: hashSimdWidth_def)
      qed
    next
      case tz: False
      then have "?tz < 32" using countr_zero_le [of matches] by (simp add: hashSimdWidth_def)
      note c = simdState_candidate [OF s refl this]
      let ?e = "shift + ?tz - misalign"
      show ?thesis
      proof (cases "shift + ?tz \<ge> limit")
        case past: True
        have "firstMatch n key hash = None"
          using past 1(4,5) by (intro firstMatch_None c(2)) linarith
        with True tz past unfolded show ?thesis by simp
      next
        case inside: False
        show ?thesis
        proof (cases "slotMatches n key hash ?e")
          case True
          then have "firstMatch n key hash = Some ?e"
            using inside c(2) 1(4,5) m by (intro firstMatch_Some) auto
          with True \<open>shift < limit\<close> tz inside unfolded show ?thesis by (simp add: slotMatches_def)
        next
          case False
          then have mm: "\<not> (hs_keyLen (h_slot n ?e) = length key \<and> memcmp (HashNode_getKey n ?e) key = 0)"
            using c(1) 1(4) by (simp add: slotMatches_def)
          have "HashNode_simdLoop n key hash misalign limit haystack shift matches =
              HashNode_simdLoop n key hash misalign limit haystack (shift + ?tz) (drop_bit ?tz matches - 1)"
            using \<open>shift < limit\<close> tz inside unfolded by (simp only: Let_def if_True if_False mm)
          moreover have "simdState n key hash True haystack (shift + ?tz) (drop_bit ?tz matches - 1)"
            using c(3) False 1(4) by simp
          ultimately show ?thesis
            using 1(2) [OF \<open>shift < limit\<close> refl tz refl refl inside refl mm, of True] 1(4,5) by simp
        qed
      qed
    qed
  qed
qed

lemma findIndexSimd_eq: "HashNode_findIndexSimd n key hash = HashNode_findIndexNoSimd n key hash"
proof -
  let ?m = "h_hashOffset n mod 32"
  have "simdState n (drop (h_prefixLength n) key) hash False (h_hashOffset n - ?m) ?m
      (drop_bit ?m (hashSimdEq (h_heap n) (h_hashOffset n - ?m) hash))"
    by (rule simdStateI) (simp_all add: bit_drop_bit_eq bit_hashSimdEq add.assoc)
  from simdLoop_firstMatch [OF this refl refl] show ?thesis
    by (simp add: HashNode_findIndexSimd_def findIndexNoSimd_firstMatch hashSimdWidth_def Let_def)
qed

end
