(* ===== verification/HashNodeMap.thy ===== *)
theory HashNodeMap
  imports HashNodeProps
begin

text \<open>
  The hash leaf as a finite map. A page is seen as its list of entries in slot order; the layout
  invariant says where the hash array lies, that the hash of every slot is the hash of its key
  and that no entry overlaps the array. \<open>insert\<close> of a present key subtracts the size of the new
  entry from \<open>spaceUsed\<close> instead of the size of the replaced one, so the accounting, and with it
  the whole contract, holds for leaves whose payloads all have one length.
\<close>

subsection \<open>Entries and layout\<close>

definition hEntriesUpto :: "HashNode \<Rightarrow> nat \<Rightarrow> entry list" where
  "hEntriesUpto n m = map (\<lambda>i. (HashNode_getKey n i, HashNode_getPayload n i)) [0..<m]"

definition hEntries :: "HashNode \<Rightarrow> entry list" where
  "hEntries n = hEntriesUpto n (h_count n)"

definition hFullEntries :: "HashNode \<Rightarrow> entry list" where
  "hFullEntries n = map (\<lambda>(k, v). (HashNode_getPrefix n @ k, v)) (hEntries n)"

lemma length_hEntries [simp]: "length (hEntriesUpto n m) = m" "length (hEntries n) = h_count n"
    "length (hFullEntries n) = h_count n"
  by (simp_all add: hEntriesUpto_def hEntries_def hFullEntries_def)

lemma nth_hEntriesUpto: "i < m \<Longrightarrow> hEntriesUpto n m ! i = (HashNode_getKey n i, HashNode_getPayload n i)"
  by (simp add: hEntriesUpto_def)

lemma nth_hEntries: "i < h_count n \<Longrightarrow> hEntries n ! i = (HashNode_getKey n i, HashNode_getPayload n i)"
  by (simp add: hEntries_def nth_hEntriesUpto)

lemma length_hash_reads [simp]:
  "length (HashNode_getKey n i) = hs_keyLen (h_slot n i)"
  "length (HashNode_getPayload n i) = hs_payloadLen (h_slot n i)"
  "length (HashNode_getLowerFence n) = h_lowerFenceLen n"
  "length (HashNode_getUpperFence n) = h_upperFenceLen n"
  "length (HashNode_getPrefix n) = h_prefixLength n"
  by (simp_all add: HashNode_getKey_def HashNode_getPayload_def HashNode_getLowerFence_def
      HashNode_getUpperFence_def HashNode_getPrefix_def)

lemma hEntries_key: "k \<in> fst ` set (hEntries n) \<longleftrightarrow> (\<exists>i<h_count n. HashNode_getKey n i = k)"
  by (auto simp: hEntries_def hEntriesUpto_def image_image)

definition hslotOk :: "hash_env \<Rightarrow> HashNode \<Rightarrow> nat \<Rightarrow> bool" where
  "hslotOk env n i \<longleftrightarrow>
     (let s = h_slot n i; stop = hs_offset s + hs_keyLen s + hs_payloadLen s
      in h_dataOffset n \<le> hs_offset s \<and> stop \<le> 4096 \<and>
         (stop \<le> h_hashOffset n \<or> h_hashOffset n + h_hashCapacity n \<le> hs_offset s)) \<and>
     HashNode_hash n i = compute_hash env 0 (HashNode_getKey n i)"

definition hashLayout :: "hash_env \<Rightarrow> nat \<Rightarrow> HashNode \<Rightarrow> bool" where
  "hashLayout env m n \<longleftrightarrow>
     hashSlotsEnd m \<le> h_dataOffset n \<and> m \<le> h_hashCapacity n \<and>
     h_dataOffset n \<le> h_hashOffset n \<and>
     h_hashOffset n + h_hashCapacity n + h_lowerFenceLen n + h_upperFenceLen n \<le> 4096 \<and>
     h_prefixLength n = lcp (HashNode_getLowerFence n) (HashNode_getUpperFence n) \<and>
     (\<forall>i<m. hslotOk env n i)"

text \<open>The space the header counts, and the room it promises to a compaction.\<close>

definition hashSpace :: "nat \<Rightarrow> HashNode \<Rightarrow> bool" where
  "hashSpace m n \<longleftrightarrow>
     h_spaceUsed n = h_lowerFenceLen n + h_upperFenceLen n + esize (hEntriesUpto n m) \<and>
     h_dataOffset n + h_hashCapacity n + h_spaceUsed n \<le> 4096"

lemma hashSlotsEnd_eq: "hashSlotsEnd m = 20 + 6 * m"
  by (simp add: hashSlotsEnd_def sizeof_HashNodeHeader_def sizeof_HashSlot_def)

lemma pageSizeLeaf_4096: "pageSizeLeaf = 4096"
  by (simp add: config_defs)

lemma hashLayout_bounds:
  assumes "hashLayout env m n"
  shows "20 + 6 * m \<le> h_dataOffset n" "m \<le> h_hashCapacity n" "h_dataOffset n \<le> h_hashOffset n"
    "h_hashOffset n + h_hashCapacity n + h_lowerFenceLen n + h_upperFenceLen n \<le> 4096"
    "i < m \<Longrightarrow> hslotOk env n i"
  using assms by (auto simp: hashLayout_def hashSlotsEnd_eq)

lemma hashLayout_mono: "hashLayout env m n \<Longrightarrow> k \<le> m \<Longrightarrow> hashLayout env k n"
  by (auto simp: hashLayout_def hashSlotsEnd_eq)

lemma hashPrefix_take:
  assumes "hashLayout env m n"
  shows "HashNode_getPrefix n = take (h_prefixLength n) (HashNode_getLowerFence n)"
    "h_prefixLength n = lcp (HashNode_getLowerFence n) (HashNode_getUpperFence n)"
    "h_prefixLength n \<le> h_lowerFenceLen n"
proof -
  show p: "h_prefixLength n = lcp (HashNode_getLowerFence n) (HashNode_getUpperFence n)"
    using assms by (simp add: hashLayout_def)
  show "h_prefixLength n \<le> h_lowerFenceLen n"
    unfolding p using lcp_le1 [of "HashNode_getLowerFence n" "HashNode_getUpperFence n"] by simp
  then show "HashNode_getPrefix n = take (h_prefixLength n) (HashNode_getLowerFence n)"
    by (simp add: HashNode_getPrefix_def HashNode_getLowerFence_def min_absorb1)
qed

text \<open>Pages that differ in neither slots nor heap nor header lengths.\<close>

definition sameHashPage :: "HashNode \<Rightarrow> HashNode \<Rightarrow> bool" where
  "sameHashPage n n' \<longleftrightarrow> h_slot n' = h_slot n \<and> h_heap n' = h_heap n \<and> h_dataOffset n' = h_dataOffset n \<and>
     h_prefixLength n' = h_prefixLength n \<and> h_hashCapacity n' = h_hashCapacity n \<and>
     h_hashOffset n' = h_hashOffset n \<and> h_lowerFenceLen n' = h_lowerFenceLen n \<and>
     h_upperFenceLen n' = h_upperFenceLen n"

lemma sameHashPage_facts:
  assumes "sameHashPage n n'"
  shows "HashNode_getKey n' = HashNode_getKey n" "HashNode_getPayload n' = HashNode_getPayload n"
    "HashNode_hash n' = HashNode_hash n" "HashNode_getPrefix n' = HashNode_getPrefix n"
    "HashNode_getLowerFence n' = HashNode_getLowerFence n"
    "HashNode_getUpperFence n' = HashNode_getUpperFence n"
    "hEntriesUpto n' m = hEntriesUpto n m" "hashLayout env m n' = hashLayout env m n"
proof -
  note f = assms [unfolded sameHashPage_def]
  show k: "HashNode_getKey n' = HashNode_getKey n" "HashNode_getPayload n' = HashNode_getPayload n"
    "HashNode_hash n' = HashNode_hash n" "HashNode_getPrefix n' = HashNode_getPrefix n"
    "HashNode_getLowerFence n' = HashNode_getLowerFence n"
    "HashNode_getUpperFence n' = HashNode_getUpperFence n"
    by (simp_all add: fun_eq_iff HashNode_getKey_def HashNode_getPayload_def HashNode_hash_def
        HashNode_getPrefix_def HashNode_getLowerFence_def HashNode_getUpperFence_def f)
  show "hEntriesUpto n' m = hEntriesUpto n m" by (simp add: hEntriesUpto_def k)
  show "hashLayout env m n' = hashLayout env m n" by (simp add: hashLayout_def hslotOk_def f k)
qed

lemma sameHashPage_roc: "sameHashPage n (n\<lparr>h_roc := r\<rparr>)"
  by (simp add: sameHashPage_def)

lemma sameHashPage_header: "sameHashPage n (n\<lparr>h_count := c, h_sortedCount := s, h_spaceUsed := u\<rparr>)"
  by (simp add: sameHashPage_def)

subsection \<open>Storing one entry\<close>

lemma hash_store_fields [simp]:
  "h_roc (HashNode_storeKeyValue i k v h n) = h_roc n"
  "h_count (HashNode_storeKeyValue i k v h n) = h_count n"
  "h_sortedCount (HashNode_storeKeyValue i k v h n) = h_sortedCount n"
  "h_prefixLength (HashNode_storeKeyValue i k v h n) = h_prefixLength n"
  "h_hashCapacity (HashNode_storeKeyValue i k v h n) = h_hashCapacity n"
  "h_hashOffset (HashNode_storeKeyValue i k v h n) = h_hashOffset n"
  "h_lowerFenceLen (HashNode_storeKeyValue i k v h n) = h_lowerFenceLen n"
  "h_upperFenceLen (HashNode_storeKeyValue i k v h n) = h_upperFenceLen n"
  by (simp_all add: HashNode_storeKeyValue_def HashNode_setHash_def Let_def)

lemma hash_store_facts:
  fixes i :: nat and h :: byte
  assumes lay: "hashLayout env m n" and i: "i < h_hashCapacity n"
    and fit: "length (drop (h_prefixLength n) key) + length v \<le> h_dataOffset n"
    and used: "h_spaceUsed n \<le> 4096"
  defines "n' \<equiv> HashNode_storeKeyValue i key v h n" and "k \<equiv> drop (h_prefixLength n) key"
  shows "h_dataOffset n' = h_dataOffset n - (length k + length v)"
    "h_spaceUsed n' = h_spaceUsed n + (length k + length v)"
    "HashNode_getKey n' i = k" "HashNode_getPayload n' i = v" "HashNode_hash n' i = h"
    "h_slot n' i = \<lparr>hs_offset = h_dataOffset n', hs_keyLen = length k, hs_payloadLen = length v\<rparr>"
    "j \<noteq> i \<Longrightarrow> h_slot n' j = h_slot n j"
    "j \<noteq> i \<Longrightarrow> HashNode_hash n' j = HashNode_hash n j"
    "j \<noteq> i \<Longrightarrow> hslotOk env n j \<Longrightarrow> HashNode_getKey n' j = HashNode_getKey n j"
    "j \<noteq> i \<Longrightarrow> hslotOk env n j \<Longrightarrow> HashNode_getPayload n' j = HashNode_getPayload n j"
    "HashNode_getLowerFence n' = HashNode_getLowerFence n"
    "HashNode_getUpperFence n' = HashNode_getUpperFence n"
proof -
  note b = hashLayout_bounds(1-4) [OF lay]
  define off where "off = h_dataOffset n - (length k + length v)"
  have stop: "off + length k + length v = h_dataOffset n" using fit by (simp add: off_def k_def)
  have off: "sub16 (h_dataOffset n) (length k + length v) = off"
    "add16 (h_spaceUsed n) (length k + length v) = h_spaceUsed n + (length k + length v)"
    "u16 (length k) = length k" "u16 (length v) = length v"
    using fit b used unfolding off_def k_def [symmetric] by (simp_all add: c_arith)
  have n': "n' = n\<lparr>h_dataOffset := off, h_spaceUsed := h_spaceUsed n + (length k + length v),
      h_slot := (h_slot n)(i := \<lparr>hs_offset = off, hs_keyLen = length k, hs_payloadLen = length v\<rparr>),
      h_heap := store (store (store (h_heap n) off k) (off + length k) v) (h_hashOffset n + i) [h]\<rparr>"
    unfolding n'_def HashNode_storeKeyValue_def HashNode_setHash_def Let_def k_def [symmetric] off by simp
  have hash: "h_dataOffset n \<le> h_hashOffset n + i" using b by simp
  show "h_dataOffset n' = h_dataOffset n - (length k + length v)"
    "h_spaceUsed n' = h_spaceUsed n + (length k + length v)" by (simp_all add: n' off_def)
  show "HashNode_getKey n' i = k" "HashNode_getPayload n' i = v"
    using stop hash
    by (simp_all add: n' HashNode_getKey_def HashNode_getPayload_def load_store_other load_store_same)
  show "HashNode_hash n' i = h" by (simp add: n' HashNode_hash_def store_def)
  show "h_slot n' i = \<lparr>hs_offset = h_dataOffset n', hs_keyLen = length k, hs_payloadLen = length v\<rparr>"
    by (simp add: n')
  show "j \<noteq> i \<Longrightarrow> h_slot n' j = h_slot n j" by (simp add: n')
  show "j \<noteq> i \<Longrightarrow> HashNode_hash n' j = HashNode_hash n j"
    using stop b by (auto simp: n' HashNode_hash_def store_def)
  show "HashNode_getKey n' j = HashNode_getKey n j" "HashNode_getPayload n' j = HashNode_getPayload n j"
    if "j \<noteq> i" "hslotOk env n j"
    using that stop b i
    by (auto simp: n' HashNode_getKey_def HashNode_getPayload_def load_store_other hslotOk_def Let_def)
  show "HashNode_getLowerFence n' = HashNode_getLowerFence n"
    "HashNode_getUpperFence n' = HashNode_getUpperFence n"
  proof -
    have "h_dataOffset n \<le> 4096 - (h_lowerFenceLen n + h_upperFenceLen n)"
      "h_hashOffset n + i + 1 \<le> 4096 - (h_lowerFenceLen n + h_upperFenceLen n)"
      "h_dataOffset n \<le> 4096 - h_lowerFenceLen n" "h_hashOffset n + i + 1 \<le> 4096 - h_lowerFenceLen n"
      using b i by simp_all
    with stop show "HashNode_getLowerFence n' = HashNode_getLowerFence n"
      "HashNode_getUpperFence n' = HashNode_getUpperFence n"
      by (simp_all add: n' HashNode_getLowerFence_def HashNode_getUpperFence_def pageSizeLeaf_4096
          load_store_other)
  qed
qed

lemma hashLayout_store:
  assumes lay: "hashLayout env m n" and i: "i \<le> m" "i < h_hashCapacity n"
    and room: "length (drop (h_prefixLength n) key) + length v + 20 + 6 * max m (Suc i) \<le> h_dataOffset n"
    and used: "h_spaceUsed n \<le> 4096" and h: "h = compute_hash env 0 (drop (h_prefixLength n) key)"
  defines "n' \<equiv> HashNode_storeKeyValue i key v h n"
  shows "hashLayout env (max m (Suc i)) n'"
    "hEntriesUpto n' (max m (Suc i)) =
      (if i < m then (hEntriesUpto n m)[i := (drop (h_prefixLength n) key, v)]
       else hEntriesUpto n m @ [(drop (h_prefixLength n) key, v)])"
    "HashNode_getPrefix n' = HashNode_getPrefix n"
proof -
  let ?k = "drop (h_prefixLength n) key"
  have fit: "length ?k + length v \<le> h_dataOffset n" using room by simp
  note st = hash_store_facts [where h = h, OF lay i(2) fit used, folded n'_def]
  note b = hashLayout_bounds [OF lay]
  have slot_i: "hslotOk env n' i"
    using st(1,3,5,6) fit b(3,4) h by (auto simp: hslotOk_def Let_def n'_def)
  have slot_j: "hslotOk env n' j" if "j < m" "j \<noteq> i" for j
    using b(5) [OF that(1)] st(1,7-9) that
    by (auto simp: hslotOk_def Let_def n'_def intro: le_trans)
  have "hslotOk env n' j" if "j < max m (Suc i)" for j
    using that slot_i slot_j i(1) by (cases "j = i") (auto simp: less_max_iff_disj less_Suc_eq)
  moreover have "hashSlotsEnd (max m (Suc i)) \<le> h_dataOffset n'" "h_dataOffset n' \<le> h_hashOffset n'"
    "max m (Suc i) \<le> h_hashCapacity n'"
    using room st(1) b i(2) by (auto simp: hashSlotsEnd_eq n'_def)
  ultimately show lay': "hashLayout env (max m (Suc i)) n'"
    using b(4) st(11,12) hashPrefix_take(2) [OF lay] by (simp add: hashLayout_def n'_def)
  show "hEntriesUpto n' (max m (Suc i)) =
      (if i < m then (hEntriesUpto n m)[i := (?k, v)] else hEntriesUpto n m @ [(?k, v)])"
  proof (rule nth_equalityI)
    show "length (hEntriesUpto n' (max m (Suc i))) =
        length (if i < m then (hEntriesUpto n m)[i := (?k, v)] else hEntriesUpto n m @ [(?k, v)])"
      using i by (auto simp: max_def)
  next
    fix j assume "j < length (hEntriesUpto n' (max m (Suc i)))"
    then have j: "j < max m (Suc i)" by simp
    then have "j \<noteq> i \<Longrightarrow> j < m" using i(1) by (auto simp: less_max_iff_disj less_Suc_eq)
    then show "hEntriesUpto n' (max m (Suc i)) ! j =
        (if i < m then (hEntriesUpto n m)[i := (?k, v)] else hEntriesUpto n m @ [(?k, v)]) ! j"
      using st(3,4) st(9,10) [of j] b(5) [of j] i(1) j
      by (cases "j = i") (auto simp: nth_hEntriesUpto nth_append nth_list_update)
  qed
  show "HashNode_getPrefix n' = HashNode_getPrefix n"
    using hashPrefix_take(1) [OF lay] hashPrefix_take(1) [OF lay'] st(11) by (simp add: n'_def)
qed

subsection \<open>The invariant and the search\<close>

definition HashNode_inv :: "hash_env \<Rightarrow> nat \<Rightarrow> HashNode \<Rightarrow> bool" where
  "HashNode_inv env len n \<longleftrightarrow>
     hashLayout env (h_count n) n \<and> hashSpace (h_count n) n \<and> distinct (map fst (hEntries n)) \<and>
     h_sortedCount n \<le> h_count n \<and> sorted_wrt (<) (map fst (take (h_sortedCount n) (hEntries n))) \<and>
     (\<forall>(k, v) \<in> set (hEntries n). length v = len) \<and>
     (\<forall>k \<in> fst ` set (hFullEntries n). inFences (HashNode_getLowerFence n) (HashNode_getUpperFence n) k)"

definition HashNode_content :: "HashNode \<Rightarrow> leaf_content" where
  "HashNode_content n = map_of (hFullEntries n)"

definition HashNode_covers :: "HashNode \<Rightarrow> bytes \<Rightarrow> bool" where
  "HashNode_covers n = inFences (HashNode_getLowerFence n) (HashNode_getUpperFence n)"

lemma HashNode_invD:
  assumes "HashNode_inv env len n"
  shows "hashLayout env (h_count n) n" "hashSpace (h_count n) n" "distinct (map fst (hEntries n))"
    "h_sortedCount n \<le> h_count n" "sorted_wrt (<) (map fst (take (h_sortedCount n) (hEntries n)))"
    "e \<in> set (hEntries n) \<Longrightarrow> length (snd e) = len"
    "k \<in> fst ` set (hFullEntries n) \<Longrightarrow> inFences (HashNode_getLowerFence n) (HashNode_getUpperFence n) k"
  using assms by (auto simp: HashNode_inv_def)

lemma hashSpace_bounds:
  assumes "HashNode_inv env len n"
  shows "h_spaceUsed n \<le> 4096" "h_dataOffset n + h_hashCapacity n + h_spaceUsed n \<le> 4096"
    "h_spaceUsed n = h_lowerFenceLen n + h_upperFenceLen n + esize (hEntries n)"
    "20 + 6 * h_count n \<le> h_dataOffset n"
  using HashNode_invD(2) [OF assms] hashLayout_bounds(1) [OF HashNode_invD(1) [OF assms]]
  by (auto simp: hashSpace_def hEntries_def)

lemma covers_hashPrefix:
  assumes "hashLayout env m n" "HashNode_covers n key"
  shows "h_prefixLength n \<le> length key" "HashNode_getPrefix n @ drop (h_prefixLength n) key = key"
proof -
  note p = inFences_prefix [OF assms(2) [unfolded HashNode_covers_def]] hashPrefix_take [OF assms(1)]
  show "h_prefixLength n \<le> length key" using p(1) by (simp only: p(4))
  have "HashNode_getPrefix n = take (h_prefixLength n) key" using p(2) by (simp only: p(3,4))
  then show "HashNode_getPrefix n @ drop (h_prefixLength n) key = key" by simp
qed

lemma hash_content_truncated:
  assumes "hashLayout env m n" "HashNode_covers n key"
  shows "HashNode_content n key = map_of (hEntries n) (drop (h_prefixLength n) key)"
    "key \<in> fst ` set (hFullEntries n) \<longleftrightarrow> drop (h_prefixLength n) key \<in> fst ` set (hEntries n)"
proof -
  note k = covers_hashPrefix(2) [OF assms]
  show "HashNode_content n key = map_of (hEntries n) (drop (h_prefixLength n) key)"
    by (metis k map_of_prefixed HashNode_content_def hFullEntries_def)
  show "key \<in> fst ` set (hFullEntries n) \<longleftrightarrow> drop (h_prefixLength n) key \<in> fst ` set (hEntries n)"
    using prefixed_mem [of "HashNode_getPrefix n" "drop (h_prefixLength n) key" "hEntries n"]
    unfolding k by (simp only: hFullEntries_def)
qed

lemma hFullEntries_keys: "map fst (hFullEntries n) = map ((@) (HashNode_getPrefix n)) (map fst (hEntries n))"
  by (simp add: hFullEntries_def split_def)

lemma distinct_hFullEntries:
  "distinct (map fst (hEntries n)) \<Longrightarrow> distinct (map fst (hFullEntries n))"
  by (simp only: hFullEntries_keys distinct_map inj_on_def) simp

lemma findIndex_firstMatch: "HashNode_findIndex n key h = firstMatch n (drop (h_prefixLength n) key) h"
  by (simp add: HashNode_findIndex_def findIndexSimd_eq findIndexNoSimd_firstMatch)

lemma memcmp_same_length: "length a = length b \<Longrightarrow> memcmp a b = 0 \<longleftrightarrow> a = b"
  by (induction a b rule: memcmp.induct) (auto simp: not_less_iff_gr_or_eq)

lemma slotMatches_key:
  assumes "hslotOk env n i"
  shows "slotMatches n k (compute_hash env 0 k) i \<longleftrightarrow> HashNode_getKey n i = k"
  using assms memcmp_same_length [of "HashNode_getKey n i" k]
  by (auto simp: slotMatches_def hslotOk_def)

lemma findIndex_Some:
  assumes "hashLayout env (h_count n) n" "distinct (map fst (hEntries n))" "i < h_count n"
    "HashNode_getKey n i = drop (h_prefixLength n) key"
  shows "HashNode_findIndex n key (compute_hash env 0 (drop (h_prefixLength n) key)) = Some i"
  unfolding findIndex_firstMatch
proof (rule firstMatch_Some [OF assms(3)])
  note ok = hashLayout_bounds(5) [OF assms(1)]
  show "slotMatches n (drop (h_prefixLength n) key) (compute_hash env 0 (drop (h_prefixLength n) key)) i"
    using slotMatches_key [OF ok [OF assms(3)]] assms(4) by simp
  show "\<not> slotMatches n (drop (h_prefixLength n) key) (compute_hash env 0 (drop (h_prefixLength n) key)) j"
    if "j < i" for j
  proof
    assume "slotMatches n (drop (h_prefixLength n) key) (compute_hash env 0 (drop (h_prefixLength n) key)) j"
    with slotMatches_key [OF ok] that assms(3,4) have "HashNode_getKey n j = HashNode_getKey n i" by simp
    with that assms(2,3) show False
      by (auto simp: distinct_conv_nth nth_hEntries dest: spec [of _ j] spec [of _ i])
  qed
qed

lemma findIndex_None:
  assumes "hashLayout env (h_count n) n" "drop (h_prefixLength n) key \<notin> fst ` set (hEntries n)"
  shows "HashNode_findIndex n key (compute_hash env 0 (drop (h_prefixLength n) key)) = None"
  unfolding findIndex_firstMatch
proof (rule firstMatch_None)
  fix i assume i: "i < h_count n"
  with assms(2) have "HashNode_getKey n i \<noteq> drop (h_prefixLength n) key" unfolding hEntries_key by blast
  with slotMatches_key [OF hashLayout_bounds(5) [OF assms(1) i]]
  show "\<not> slotMatches n (drop (h_prefixLength n) key) (compute_hash env 0 (drop (h_prefixLength n) key)) i"
    by simp
qed

text \<open>The result of the search: \<open>None\<close> for a key the leaf does not hold, else its slot.\<close>

lemma findIndex_cases:
  assumes lay: "hashLayout env (h_count n) n" and dist: "distinct (map fst (hEntries n))"
  obtains (absent) "HashNode_findIndex n key (compute_hash env 0 (drop (h_prefixLength n) key)) = None"
      "drop (h_prefixLength n) key \<notin> fst ` set (hEntries n)"
    | (present) i where "i < h_count n" "HashNode_getKey n i = drop (h_prefixLength n) key"
      "HashNode_findIndex n key (compute_hash env 0 (drop (h_prefixLength n) key)) = Some i"
proof (cases "drop (h_prefixLength n) key \<in> fst ` set (hEntries n)")
  case True
  then obtain i where i: "i < h_count n" "HashNode_getKey n i = drop (h_prefixLength n) key"
    unfolding hEntries_key by blast
  from present [OF i findIndex_Some [OF lay dist i]] show ?thesis .
next
  case False
  from absent [OF findIndex_None [OF lay False] False] show ?thesis .
qed

lemma hash_lookup_content:
  assumes inv: "HashNode_inv env len n" and cov: "HashNode_covers n key"
  shows "fst (HashNode_lookup cfg env key n r) = HashNode_content n key"
proof -
  obtain c roc r' where p: "point_op cfg (h_roc n) r = (c, roc, r')" by (metis prod_cases3)
  let ?n = "n\<lparr>h_roc := roc\<rparr>"
  note same = sameHashPage_facts [OF sameHashPage_roc [of n roc]]
  have f: "HashNode_findIndex ?n key h = HashNode_findIndex n key h" for h
    by (simp add: findIndex_firstMatch firstMatch_def slotMatches_def [abs_def] same)
  have l: "fst (HashNode_lookup cfg env key n r) = map_option (HashNode_getPayload n)
      (HashNode_findIndex n key (compute_hash env 0 (drop (h_prefixLength n) key)))"
    by (simp add: HashNode_lookup_def p f same)
  note lay = HashNode_invD(1) [OF inv] and d = HashNode_invD(3) [OF inv]
  from lay d show ?thesis
  proof (cases rule: findIndex_cases [where key = key])
    case absent
    then show ?thesis
      by (simp add: l hash_content_truncated(1) [OF lay cov] map_of_eq_None_iff [THEN iffD2])
  next
    case (present i)
    then have "(drop (h_prefixLength n) key, HashNode_getPayload n i) \<in> set (hEntries n)"
      by (metis length_hEntries(2) nth_hEntries nth_mem)
    with d present(3) show ?thesis by (simp add: l hash_content_truncated(1) [OF lay cov])
  qed
qed

subsection \<open>Insert\<close>

lemma map_of_update_at:
  "distinct (map fst es) \<Longrightarrow> i < length es \<Longrightarrow> fst (es ! i) = k \<Longrightarrow> map_of (es[i := (k, v)]) = (map_of es)(k \<mapsto> v)"
proof (induction es arbitrary: i)
  case (Cons e es)
  show ?case
  proof (cases i)
    case 0
    with Cons.prems show ?thesis by (cases e) (auto simp: fun_eq_iff)
  next
    case (Suc j)
    with Cons.prems have j: "j < length es" "fst (es ! j) = k" by simp_all
    then have "k \<in> fst ` set es" by (metis imageI nth_mem)
    with Cons.prems(1) have "fst e \<noteq> k" by auto
    with Suc Cons.IH [of j] Cons.prems show ?thesis by (cases e) (auto simp: fun_eq_iff)
  qed
qed simp

lemma esize_update:
  "i < length es \<Longrightarrow> length (fst e) + length (snd e) = length (fst (es ! i)) + length (snd (es ! i)) \<Longrightarrow>
    esize (es[i := e]) = esize es"
  by (induction es arbitrary: i) (auto split: nat.splits)

text \<open>The room \<open>requestSlotAndSpace\<close> guarantees.\<close>

definition hashRoom :: "HashNode \<Rightarrow> nat \<Rightarrow> bool" where
  "hashRoom n kvSize \<longleftrightarrow> h_count n < h_hashCapacity n \<and> kvSize + 26 + 6 * h_count n \<le> h_dataOffset n"

lemma insertWithSpace_absent:
  assumes inv: "HashNode_inv env len n" and cov: "HashNode_covers n key" and v: "length v = len"
    and room: "hashRoom n (length (drop (h_prefixLength n) key) + length v)"
    and new: "drop (h_prefixLength n) key \<notin> fst ` set (hEntries n)"
  defines "n' \<equiv> HashNode_insertWithSpace env key v n"
  shows "HashNode_inv env len n' \<and> HashNode_covers n' = HashNode_covers n \<and>
    hFullEntries n' = hFullEntries n @ [(key, v)]"
proof -
  let ?k = "drop (h_prefixLength n) key" and ?m = "h_count n"
  let ?n1 = "HashNode_storeKeyValue ?m key v (compute_hash env 0 ?k) n"
  note lay = HashNode_invD(1) [OF inv] and sp = hashSpace_bounds [OF inv]
  have cap: "?m < h_hashCapacity n" and fit: "length ?k + length v + 20 + 6 * max ?m (Suc ?m) \<le> h_dataOffset n"
    using room by (auto simp: hashRoom_def)
  have small: "length ?k + length v \<le> h_dataOffset n" "Suc ?m < 65536" using fit sp by auto
  note st = hash_store_facts [where h = "compute_hash env 0 ?k", OF lay cap small(1) sp(1)]
  note sl = hashLayout_store [OF lay order_refl cap fit sp(1) refl]
  have n': "n' = ?n1\<lparr>h_count := Suc ?m, h_sortedCount := h_sortedCount ?n1, h_spaceUsed := h_spaceUsed ?n1\<rparr>"
    using findIndex_None [OF lay new] small(2) by (simp add: n'_def HashNode_insertWithSpace_def c_arith)
  note same = sameHashPage_facts [OF sameHashPage_header [where n = ?n1 and c = "Suc ?m" and s = "h_sortedCount ?n1" and u = "h_spaceUsed ?n1"],
      folded n']
  have f: "h_count n' = Suc ?m" "h_sortedCount n' = h_sortedCount n" "h_spaceUsed n' = h_spaceUsed ?n1"
    "h_dataOffset n' = h_dataOffset ?n1" "h_hashCapacity n' = h_hashCapacity n"
    "h_lowerFenceLen n' = h_lowerFenceLen n" "h_upperFenceLen n' = h_upperFenceLen n" by (simp_all add: n')
  have es: "hEntries n' = hEntries n @ [(?k, v)]"
    unfolding hEntries_def f(1) same(7) using sl(2) by simp
  have pre: "HashNode_getPrefix n' = HashNode_getPrefix n" using sl(3) by (simp add: same)
  have fences: "HashNode_getLowerFence n' = HashNode_getLowerFence n"
    "HashNode_getUpperFence n' = HashNode_getUpperFence n" using st(11,12) by (simp_all add: same)
  have full: "hFullEntries n' = hFullEntries n @ [(key, v)]"
    by (simp add: hFullEntries_def es pre covers_hashPrefix(2) [OF lay cov])
  have "hashLayout env (h_count n') n'" using sl(1) by (simp add: same f)
  moreover have "hashSpace (h_count n') n'"
    using sp st(1,2) small(1) sl(2) by (simp add: hashSpace_def same f hEntries_def)
  moreover have "take (h_sortedCount n') (hEntries n') = take (h_sortedCount n) (hEntries n)"
    using HashNode_invD(4) [OF inv] by (simp add: es f)
  moreover have "h_sortedCount n' \<le> h_count n'" using HashNode_invD(4) [OF inv] by (simp add: f)
  ultimately have "HashNode_inv env len n'"
    using HashNode_invD(3,5-7) [OF inv] new v cov unfolding HashNode_inv_def fences full es HashNode_covers_def
    by auto
  with fences full show ?thesis by (simp add: HashNode_covers_def)
qed

lemma insertWithSpace_present:
  assumes inv: "HashNode_inv env len n" and cov: "HashNode_covers n key" and v: "length v = len"
    and room: "hashRoom n (length (drop (h_prefixLength n) key) + length v)"
    and old: "i < h_count n" "HashNode_getKey n i = drop (h_prefixLength n) key"
  defines "n' \<equiv> HashNode_insertWithSpace env key v n"
  shows "HashNode_inv env len n' \<and> HashNode_covers n' = HashNode_covers n \<and>
    hFullEntries n' = (hFullEntries n)[i := (key, v)]"
proof -
  let ?k = "drop (h_prefixLength n) key" and ?m = "h_count n"
  let ?n1 = "HashNode_storeKeyValue i key v (compute_hash env 0 ?k) n"
  note lay = HashNode_invD(1) [OF inv] and sp = hashSpace_bounds [OF inv] and d = HashNode_invD(3) [OF inv]
  have i: "i \<le> ?m" "i < h_hashCapacity n" "max ?m (Suc i) = ?m" using old(1) room by (auto simp: hashRoom_def)
  have fit: "length ?k + length v + 20 + 6 * max ?m (Suc i) \<le> h_dataOffset n"
    using room i(3) by (simp add: hashRoom_def)
  then have small: "length ?k + length v \<le> h_dataOffset n" by simp
  note st = hash_store_facts [where h = "compute_hash env 0 ?k", OF lay i(2) small sp(1)]
  note sl = hashLayout_store [OF lay i(1,2) fit sp(1) refl, unfolded i(3)]
  have "sub32 (length key) (h_prefixLength n) + length v = length ?k + length v"
    using covers_hashPrefix(1) [OF lay cov] hashPrefix_take(3) [OF lay] small sp by (simp add: c_arith)
  then have n': "n' = ?n1\<lparr>h_count := h_count ?n1, h_sortedCount := h_sortedCount ?n1, h_spaceUsed := h_spaceUsed n\<rparr>"
    using findIndex_Some [OF lay d old] st(2) small sp
    by (simp add: n'_def HashNode_insertWithSpace_def c_arith)
  note same = sameHashPage_facts [OF sameHashPage_header [where n = ?n1 and c = "h_count ?n1" and s = "h_sortedCount ?n1" and u = "h_spaceUsed n"],
      folded n']
  have f: "h_count n' = ?m" "h_sortedCount n' = h_sortedCount n" "h_spaceUsed n' = h_spaceUsed n"
    "h_dataOffset n' = h_dataOffset ?n1" "h_hashCapacity n' = h_hashCapacity n"
    "h_lowerFenceLen n' = h_lowerFenceLen n" "h_upperFenceLen n' = h_upperFenceLen n" by (simp_all add: n')
  have es: "hEntries n' = (hEntries n)[i := (?k, v)]"
    unfolding hEntries_def f(1) same(7) using sl(2) old(1) by simp
  have pre: "HashNode_getPrefix n' = HashNode_getPrefix n" using sl(3) by (simp add: same)
  have fences: "HashNode_getLowerFence n' = HashNode_getLowerFence n"
    "HashNode_getUpperFence n' = HashNode_getUpperFence n" using st(11,12) by (simp_all add: same)
  have full: "hFullEntries n' = (hFullEntries n)[i := (key, v)]"
    by (simp add: hFullEntries_def es pre map_update covers_hashPrefix(2) [OF lay cov])
  have key_i: "fst (hEntries n ! i) = ?k" "length (snd (hEntries n ! i)) = len"
    using old HashNode_invD(6) [OF inv nth_mem, of i] by (simp_all add: nth_hEntries)
  have keys: "map fst (hEntries n') = map fst (hEntries n)"
    using key_i(1) old(1) unfolding es map_update by (metis fst_conv length_hEntries(2) list_update_id map_update nth_map)
  have fkeys: "map fst (hFullEntries n') = map fst (hFullEntries n)"
    unfolding hFullEntries_keys keys pre ..
  have lens: "length (snd e) = len" if "e \<in> set (hEntries n')" for e
  proof -
    from that set_update_subset_insert [of "hEntries n" i "(?k, v)"]
    have "e = (?k, v) \<or> e \<in> set (hEntries n)" unfolding es by blast
    with HashNode_invD(6) [OF inv] v show ?thesis by (metis snd_conv)
  qed
  have "esize (hEntries n') = esize (hEntries n)"
    unfolding es using old(1) key_i v by (intro esize_update) auto
  moreover have "hEntriesUpto n' ?m = hEntries n'" by (simp add: hEntries_def f)
  ultimately have "hashSpace (h_count n') n'"
    using sp st(1) by (simp add: hashSpace_def f)
  moreover have "hashLayout env (h_count n') n'" using sl(1) by (simp add: same f)
  moreover note f(1,2)
  moreover have "fst ` set (hFullEntries n') = fst ` set (hFullEntries n)"
    using fkeys by (metis list.set_map)
  ultimately have "HashNode_inv env len n'"
    using HashNode_invD(3-5,7) [OF inv] lens keys unfolding HashNode_inv_def fences by (auto simp: take_map [symmetric])
  with fences full show ?thesis by (simp add: HashNode_covers_def)
qed

lemma insertWithSpace_map:
  assumes "HashNode_inv env len n" "HashNode_covers n key" "length v = len"
    "hashRoom n (length (drop (h_prefixLength n) key) + length v)"
  defines "n' \<equiv> HashNode_insertWithSpace env key v n"
  shows "HashNode_inv env len n' \<and> HashNode_covers n' = HashNode_covers n \<and>
    HashNode_content n' = (HashNode_content n)(key \<mapsto> v)"
proof -
  note lay = HashNode_invD(1) [OF assms(1)] and d = HashNode_invD(3) [OF assms(1)]
  from lay d show ?thesis
  proof (cases rule: findIndex_cases [where key = key])
    case absent
    note a = insertWithSpace_absent [OF assms(1-4) absent(2), folded n'_def]
    have "key \<notin> fst ` set (hFullEntries n)"
      using absent(2) hash_content_truncated(2) [OF lay assms(2)] by blast
    then have "map_of (hFullEntries n @ [(key, v)]) = (map_of (hFullEntries n))(key \<mapsto> v)"
      using map_of_insert_at [of key "hFullEntries n" "h_count n" v] by simp
    with a show ?thesis by (simp add: HashNode_content_def)
  next
    case (present i)
    note p = insertWithSpace_present [OF assms(1-4) present(1,2), folded n'_def]
    have "fst (hFullEntries n ! i) = key"
      using present covers_hashPrefix(2) [OF lay assms(2)] by (simp add: hFullEntries_def nth_hEntries)
    with map_of_update_at [OF distinct_hFullEntries [OF d], of i key v] present(1) p show ?thesis
      by (simp add: HashNode_content_def)
  qed
qed

subsection \<open>Copying entries\<close>

lemma hash_copyTruncated_eq:
  assumes small: "hs_keyLen (h_slot src s) + hs_payloadLen (h_slot src s) \<le> 4096"
    and pl: "h_prefixLength src \<le> h_prefixLength dst"
    and diff: "h_prefixLength dst - h_prefixLength src \<le> hs_keyLen (h_slot src s)"
  shows "HashNode_copyTruncated env src (h_prefixLength dst - h_prefixLength src) s d dst =
    HashNode_copyKeyValue env src s d dst"
proof -
  let ?sl = "h_slot src s" and ?diff = "h_prefixLength dst - h_prefixLength src"
  let ?k = "load (h_heap src) (hs_offset ?sl + ?diff) (hs_keyLen ?sl - ?diff)"
  have k: "drop (h_prefixLength dst) (HashNode_getPrefix src @ HashNode_getKey src s) = ?k"
    using pl by (simp add: HashNode_getKey_def)
  have nk: "sub32 (hs_keyLen ?sl) ?diff = hs_keyLen ?sl - ?diff"
    "u32 (hs_keyLen ?sl - ?diff + hs_payloadLen ?sl) = hs_keyLen ?sl - ?diff + hs_payloadLen ?sl"
    "u16 (hs_keyLen ?sl - ?diff) = hs_keyLen ?sl - ?diff" "u16 (hs_payloadLen ?sl) = hs_payloadLen ?sl"
    using diff small by (simp_all add: c_arith)
  have raw: "load (h_heap src) (hs_offset ?sl + ?diff) (hs_keyLen ?sl - ?diff + hs_payloadLen ?sl) =
      ?k @ HashNode_getPayload src s"
    unfolding load_add using diff by (simp add: HashNode_getPayload_def)
  have len: "length ?k = hs_keyLen ?sl - ?diff" by simp
  define off where "off = sub16 (h_dataOffset dst) (length ?k + hs_payloadLen ?sl)"
  define X where "X = dst\<lparr>h_dataOffset := off, h_spaceUsed := add16 (h_spaceUsed dst) (length ?k + hs_payloadLen ?sl),
      h_slot := (h_slot dst)(d := \<lparr>hs_offset = off, hs_keyLen = length ?k, hs_payloadLen = hs_payloadLen ?sl\<rparr>),
      h_heap := store (h_heap dst) off (?k @ HashNode_getPayload src s)\<rparr>"
  have key: "HashNode_getKey X d = ?k"
    by (rule nth_equalityI) (auto simp: X_def HashNode_getKey_def store_def nth_append)
  have "HashNode_copyTruncated env src ?diff s d dst = HashNode_updateHash env d X"
    unfolding HashNode_copyTruncated_def Let_def nk raw X_def off_def len ..
  also have "\<dots> = HashNode_setHash d (compute_hash env 0 ?k) X"
    by (simp only: HashNode_updateHash_def key compute_hash_addr [where addr = "hs_offset (h_slot X d)"])
  also have "\<dots> = HashNode_copyKeyValue env src s d dst"
    unfolding HashNode_copyKeyValue_def HashNode_storeKeyValue_def Let_def k X_def off_def
    by (simp only: length_load length_hash_reads nk store_append)
  finally show ?thesis .
qed

definition hStoreAll :: "hash_env \<Rightarrow> nat \<Rightarrow> entry list \<Rightarrow> HashNode \<Rightarrow> HashNode" where
  "hStoreAll env d xs n = fold (\<lambda>i m. HashNode_storeKeyValue (d + i) (fst (xs ! i)) (snd (xs ! i))
     (compute_hash env 0 (drop (h_prefixLength m) (fst (xs ! i)))) m) [0..<length xs] n"

lemma hStoreAll_Nil [simp]: "hStoreAll env d [] n = n"
  by (simp add: hStoreAll_def)

lemma hStoreAll_snoc:
  "hStoreAll env d (xs @ [x]) n =
    (let m = hStoreAll env d xs n
     in HashNode_storeKeyValue (d + length xs) (fst x) (snd x) (compute_hash env 0 (drop (h_prefixLength m) (fst x))) m)"
proof -
  have "fold (\<lambda>i m. HashNode_storeKeyValue (d + i) (fst ((xs @ [x]) ! i)) (snd ((xs @ [x]) ! i))
      (compute_hash env 0 (drop (h_prefixLength m) (fst ((xs @ [x]) ! i)))) m) [0..<length xs] n =
    hStoreAll env d xs n"
    unfolding hStoreAll_def by (rule fold_cong) (auto simp: nth_append)
  then show ?thesis by (simp add: hStoreAll_def Let_def)
qed

lemma hStoreAll_fields [simp]:
  "h_roc (hStoreAll env d xs n) = h_roc n" "h_count (hStoreAll env d xs n) = h_count n"
  "h_sortedCount (hStoreAll env d xs n) = h_sortedCount n"
  "h_prefixLength (hStoreAll env d xs n) = h_prefixLength n"
  "h_hashCapacity (hStoreAll env d xs n) = h_hashCapacity n"
  "h_hashOffset (hStoreAll env d xs n) = h_hashOffset n"
  "h_lowerFenceLen (hStoreAll env d xs n) = h_lowerFenceLen n"
  "h_upperFenceLen (hStoreAll env d xs n) = h_upperFenceLen n"
  by (induction xs rule: rev_induct) (simp_all add: hStoreAll_snoc Let_def)

lemma hStoreAll_correct:
  assumes "hashLayout env d n" "d + length xs \<le> h_hashCapacity n"
    and "20 + 6 * (d + length xs) + esize (truncated (h_prefixLength n) xs) \<le> h_dataOffset n"
    and "h_spaceUsed n + esize (truncated (h_prefixLength n) xs) \<le> 4096"
  shows "hashLayout env (d + length xs) (hStoreAll env d xs n) \<and>
    hEntriesUpto (hStoreAll env d xs n) (d + length xs) = hEntriesUpto n d @ truncated (h_prefixLength n) xs \<and>
    HashNode_getLowerFence (hStoreAll env d xs n) = HashNode_getLowerFence n \<and>
    HashNode_getUpperFence (hStoreAll env d xs n) = HashNode_getUpperFence n \<and>
    HashNode_getPrefix (hStoreAll env d xs n) = HashNode_getPrefix n \<and>
    h_dataOffset (hStoreAll env d xs n) = h_dataOffset n - esize (truncated (h_prefixLength n) xs) \<and>
    h_spaceUsed (hStoreAll env d xs n) = h_spaceUsed n + esize (truncated (h_prefixLength n) xs)"
  using assms(2-4)
proof (induction xs rule: rev_induct)
  case Nil
  with assms(1) show ?case by simp
next
  case (snoc x xs)
  let ?n = "hStoreAll env d xs n" and ?m = "d + length xs" and ?pl = "h_prefixLength n"
  let ?k = "drop ?pl (fst x)"
  let ?n' = "HashNode_storeKeyValue ?m (fst x) (snd x) (compute_hash env 0 ?k) ?n"
  from snoc have ih: "hashLayout env ?m ?n" "hEntriesUpto ?n ?m = hEntriesUpto n d @ truncated ?pl xs"
    "HashNode_getLowerFence ?n = HashNode_getLowerFence n" "HashNode_getUpperFence ?n = HashNode_getUpperFence n"
    "HashNode_getPrefix ?n = HashNode_getPrefix n"
    "h_dataOffset ?n = h_dataOffset n - esize (truncated ?pl xs)"
    "h_spaceUsed ?n = h_spaceUsed n + esize (truncated ?pl xs)" by auto
  have cap: "?m < h_hashCapacity ?n" using snoc.prems(1) by simp
  have fit: "length (drop (h_prefixLength ?n) (fst x)) + length (snd x) + 20 + 6 * max ?m (Suc ?m) \<le> h_dataOffset ?n"
    "length (drop (h_prefixLength ?n) (fst x)) + length (snd x) \<le> h_dataOffset ?n" "h_spaceUsed ?n \<le> 4096"
    using snoc.prems ih(6,7) by simp_all
  note st = hash_store_facts [where h = "compute_hash env 0 ?k", OF ih(1) cap fit(2,3)]
  note sl = hashLayout_store [OF ih(1) order_refl cap fit(1,3), of "compute_hash env 0 ?k"]
  have s: "hStoreAll env d (xs @ [x]) n = ?n'" by (simp add: hStoreAll_snoc Let_def)
  have d1: "d + length (xs @ [x]) = Suc ?m" by simp
  show ?case unfolding s d1 using sl st(1,2,11,12) ih by simp
qed

end
