(* ===== verification/HashNodeMapOps.thy ===== *)
theory HashNodeMapOps
  imports HashNodeMap
begin

text \<open>
  The operations of the hash leaf that move its entries: the copy loop, compaction, the growth of
  the hash array in place, and \<open>remove\<close>; then \<open>insert\<close> on top of them and the interpretation of
  \<open>leaf_map\<close>.
\<close>

subsection \<open>The copy loop\<close>

lemma hash_copyKeyValue_prefixLength:
  "h_prefixLength (HashNode_copyKeyValue env src s d n) = h_prefixLength n"
  by (simp add: HashNode_copyKeyValue_def)

text \<open>Both branches of \<open>copyKeyValueRange\<close> are the same list operation.\<close>

lemma hash_copyRange_eq:
  assumes small: "\<forall>i<cnt. hs_keyLen (h_slot src (s + i)) + hs_payloadLen (h_slot src (s + i)) \<le> 4096"
    and long: "\<forall>i<cnt. h_prefixLength dst \<le> h_prefixLength src + hs_keyLen (h_slot src (s + i))"
    and xs: "xs = map (\<lambda>i. (HashNode_getPrefix src @ HashNode_getKey src (s + i),
      HashNode_getPayload src (s + i))) [0..<cnt]"
  shows "HashNode_copyKeyValueRange env src d s cnt dst =
    (hStoreAll env d xs dst)\<lparr>h_count := add16 (h_count dst) cnt\<rparr>"
proof -
  let ?f = "\<lambda>i. HashNode_copyKeyValue env src (s + i) (d + i)"
  have all: "hStoreAll env d xs dst = fold ?f [0..<cnt] dst"
    unfolding hStoreAll_def
    by (rule fold_cong) (auto simp: xs HashNode_copyKeyValue_def fun_eq_iff Let_def)
  have "fold (\<lambda>i. HashNode_copyTruncated env src (h_prefixLength dst - h_prefixLength src) (s + i) (d + i)) [0..<m] dst =
      fold ?f [0..<m] dst \<and> h_prefixLength (fold ?f [0..<m] dst) = h_prefixLength dst"
    if pl: "h_prefixLength src \<le> h_prefixLength dst" and "m \<le> cnt" for m
    using that(2)
  proof (induction m)
    case (Suc m)
    let ?d = "fold ?f [0..<m] dst"
    from Suc have ih: "h_prefixLength ?d = h_prefixLength dst"
      "fold (\<lambda>i. HashNode_copyTruncated env src (h_prefixLength dst - h_prefixLength src) (s + i) (d + i)) [0..<m] dst = ?d"
      by auto
    have "h_prefixLength dst - h_prefixLength src \<le> hs_keyLen (h_slot src (s + m))"
      using Suc.prems long by (auto simp: le_diff_conv add.commute)
    then have "HashNode_copyTruncated env src (h_prefixLength dst - h_prefixLength src) (s + m) (d + m) ?d = ?f m ?d"
      using hash_copyTruncated_eq [of src "s + m" ?d env "d + m"] pl small Suc.prems by (simp add: ih(1))
    with ih show ?case by (simp add: hash_copyKeyValue_prefixLength)
  qed simp
  from this [OF _ order_refl] show ?thesis
    unfolding HashNode_copyKeyValueRange_def Let_def by (auto simp: all [symmetric])
qed

subsection \<open>Fresh pages and compaction\<close>

lemma hash_init_facts:
  fixes roc :: nat and n0 :: HashNode
  assumes fit: "length lo + length up + cap + 20 \<le> 4096"
  defines "n \<equiv> HashNode_init lo up cap roc n0"
  shows "HashNode_getLowerFence n = lo" "HashNode_getUpperFence n = up"
    "h_count n = 0" "h_sortedCount n = 0" "h_roc n = roc" "h_hashCapacity n = cap"
    "h_dataOffset n = 4096 - (length lo + length up) - cap" "h_hashOffset n = h_dataOffset n"
    "h_spaceUsed n = length lo + length up" "h_prefixLength n = lcp lo up"
proof -
  define n1 where "n1 = n0\<lparr>h_roc := roc, h_count := 0, h_sortedCount := 0,
           h_spaceUsed := length lo + length up, h_dataOffset := 4096 - (length lo + length up) - cap,
           h_hashOffset := 4096 - (length lo + length up) - cap,
           h_hashCapacity := cap, h_lowerFenceLen := length lo, h_upperFenceLen := length up,
           h_heap := store (store (h_heap n0) (4096 - length lo) lo) (4096 - length lo - length up) up\<rparr>"
  have n: "n = HashNode_updatePrefixLength n1"
    using fit by (simp add: n_def HashNode_init_def n1_def Let_def pageSizeLeaf_4096 c_arith add.commute)
  have fe: "HashNode_getLowerFence n1 = lo" "HashNode_getUpperFence n1 = up"
    using fit by (simp_all add: n1_def HashNode_getLowerFence_def HashNode_getUpperFence_def pageSizeLeaf_4096
        load_store_other load_store_same)
  have "n = n1\<lparr>h_prefixLength := for_until (\<lambda>i. lo ! i \<noteq> up ! i) 0 (min (length up) (length lo))\<rparr>"
    unfolding n HashNode_updatePrefixLength_def fe by (simp add: n1_def)
  then have n': "n = n1\<lparr>h_prefixLength := lcp lo up\<rparr>" unfolding for_until_lcp .
  show "HashNode_getLowerFence n = lo" "HashNode_getUpperFence n = up"
    using fe unfolding n' by (simp_all add: HashNode_getLowerFence_def HashNode_getUpperFence_def)
  show "h_count n = 0" "h_sortedCount n = 0" "h_roc n = roc" "h_hashCapacity n = cap"
    "h_dataOffset n = 4096 - (length lo + length up) - cap" "h_hashOffset n = h_dataOffset n"
    "h_spaceUsed n = length lo + length up" "h_prefixLength n = lcp lo up"
    by (simp_all add: n' n1_def)
qed

lemma hFullEntries_map:
  "hFullEntries n = map (\<lambda>i. (HashNode_getPrefix n @ HashNode_getKey n i, HashNode_getPayload n i)) [0..<h_count n]"
  by (simp add: hFullEntries_def hEntries_def hEntriesUpto_def)

lemma truncated_hFullEntries: "truncated (h_prefixLength n) (hFullEntries n) = hEntries n"
  by (auto simp: truncated_def hFullEntries_def intro!: nth_equalityI split: prod.splits)

text \<open>A page that holds the entries of another one under the same fences.\<close>

definition sameEntries :: "HashNode \<Rightarrow> HashNode \<Rightarrow> bool" where
  "sameEntries n n' \<longleftrightarrow> hEntries n' = hEntries n \<and> h_count n' = h_count n \<and> h_sortedCount n' = h_sortedCount n \<and>
     HashNode_getLowerFence n' = HashNode_getLowerFence n \<and>
     HashNode_getUpperFence n' = HashNode_getUpperFence n"

lemma sameEntries_inv:
  assumes inv: "HashNode_inv env len n" and same: "sameEntries n n'"
    and lay: "hashLayout env (h_count n) n'" and sp: "hashSpace (h_count n) n'"
  shows "HashNode_inv env len n'" "hFullEntries n' = hFullEntries n"
    "HashNode_getPrefix n' = HashNode_getPrefix n" "h_prefixLength n' = h_prefixLength n"
proof -
  note f = same [unfolded sameEntries_def]
  show pl: "h_prefixLength n' = h_prefixLength n"
    using hashPrefix_take(2) [OF lay] hashPrefix_take(2) [OF HashNode_invD(1) [OF inv]] f by simp
  show pre: "HashNode_getPrefix n' = HashNode_getPrefix n"
    using hashPrefix_take(1) [OF lay] hashPrefix_take(1) [OF HashNode_invD(1) [OF inv]] f pl by simp
  show full: "hFullEntries n' = hFullEntries n" by (simp add: hFullEntries_def pre f)
  show "HashNode_inv env len n'"
    using inv lay sp f full by (simp add: HashNode_inv_def)
qed

lemma hash_compactify_correct:
  assumes inv: "HashNode_inv env len n" and cap: "h_count n \<le> cap"
    and fit: "cap + h_spaceUsed n + 20 + 6 * h_count n \<le> 4096"
  defines "n' \<equiv> HashNode_compactify env cap n"
  shows "HashNode_inv env len n'" "sameEntries n n'" "h_hashCapacity n' = cap"
    "h_dataOffset n' = 4096 - cap - h_spaceUsed n" "h_roc n' = h_roc n"
proof -
  let ?lo = "HashNode_getLowerFence n" and ?up = "HashNode_getUpperFence n" and ?m = "h_count n"
  note lay = HashNode_invD(1) [OF inv] and sp = hashSpace_bounds [OF inv]
  let ?t0 = "HashNode_init ?lo ?up cap (h_roc n) TmpHashNode"
  define t where "t = ?t0\<lparr>h_heap := store (h_heap ?t0) (h_hashOffset ?t0) (load (h_heap n) (h_hashOffset n) ?m),
      h_slot := (\<lambda>i. if i < ?m then h_slot n i else h_slot ?t0 i)\<rparr>"
  have fit0: "length ?lo + length ?up + cap + 20 \<le> 4096" using fit sp(3) by simp
  note i = hash_init_facts [OF fit0, of "h_roc n" TmpHashNode]
  have tf: "h_count t = 0" "h_roc t = h_roc n" "h_hashCapacity t = cap" "h_spaceUsed t = length ?lo + length ?up"
    "h_dataOffset t = 4096 - (length ?lo + length ?up) - cap" "h_hashOffset t = h_dataOffset t"
    "h_prefixLength t = h_prefixLength n" "h_lowerFenceLen t = h_lowerFenceLen ?t0" "h_upperFenceLen t = h_upperFenceLen ?t0"
    using i hashPrefix_take(2) [OF lay] by (simp_all add: t_def)
  have fl: "h_lowerFenceLen ?t0 = length ?lo" "h_upperFenceLen ?t0 = length ?up"
    using i(1,2) length_hash_reads(3,4) [of ?t0] by simp_all
  have "HashNode_getLowerFence t = HashNode_getLowerFence ?t0" "HashNode_getUpperFence t = HashNode_getUpperFence ?t0"
  proof -
    have "4096 - (length ?lo + length ?up) - cap + ?m \<le> 4096 - (length ?lo + length ?up)"
      "4096 - (length ?lo + length ?up) - cap + ?m \<le> 4096 - length ?lo" using fit0 cap by simp_all
    then show "HashNode_getLowerFence t = HashNode_getLowerFence ?t0" "HashNode_getUpperFence t = HashNode_getUpperFence ?t0"
      using i(7,8) fl
      by (simp_all add: t_def HashNode_getLowerFence_def HashNode_getUpperFence_def pageSizeLeaf_4096 load_store_other)
  qed
  with i(1,2) have fe: "HashNode_getLowerFence t = ?lo" "HashNode_getUpperFence t = ?up" by simp_all
  have lay0: "hashLayout env 0 t"
    using fit0 hashPrefix_take(2) [OF lay] by (simp add: hashLayout_def hashSlotsEnd_eq tf fl fe)
  have tr: "truncated (h_prefixLength t) (hFullEntries n) = hEntries n"
    by (simp add: tf truncated_hFullEntries)
  let ?s = "hStoreAll env 0 (hFullEntries n) t"
  have c1: "0 + length (hFullEntries n) \<le> h_hashCapacity t" using cap by (simp add: tf)
  have c2: "20 + 6 * (0 + length (hFullEntries n)) + esize (truncated (h_prefixLength t) (hFullEntries n)) \<le> h_dataOffset t"
    and c3: "h_spaceUsed t + esize (truncated (h_prefixLength t) (hFullEntries n)) \<le> 4096"
    unfolding tr using fit sp(3) by (simp_all add: tf)
  note sa = hStoreAll_correct [OF lay0 c1 c2 c3, unfolded tr]
  have small: "\<forall>i<?m. hs_keyLen (h_slot n (0 + i)) + hs_payloadLen (h_slot n (0 + i)) \<le> 4096"
    using hashLayout_bounds(5) [OF lay] unfolding hslotOk_def Let_def by fastforce
  have "HashNode_copyKeyValueRange env n 0 0 ?m t = ?s\<lparr>h_count := add16 (h_count t) ?m\<rparr>"
    by (rule hash_copyRange_eq [OF small]) (simp_all add: tf hFullEntries_map)
  then have n': "n' = ?s\<lparr>h_count := ?m, h_sortedCount := h_sortedCount n, h_spaceUsed := h_spaceUsed ?s\<rparr>"
    using sp(4) fit by (simp add: n'_def HashNode_compactify_def t_def [symmetric] tf c_arith Let_def)
  note same = sameHashPage_facts [OF sameHashPage_header [where n = ?s and c = ?m and s = "h_sortedCount n"
        and u = "h_spaceUsed ?s"], folded n']
  have f: "h_count n' = ?m" "h_sortedCount n' = h_sortedCount n" "h_spaceUsed n' = h_spaceUsed ?s"
    "h_dataOffset n' = h_dataOffset ?s" "h_hashCapacity n' = cap" "h_roc n' = h_roc n"
    "h_lowerFenceLen n' = h_lowerFenceLen n" "h_upperFenceLen n' = h_upperFenceLen n"
    by (simp_all add: n' tf fl)
  have es: "hEntriesUpto n' ?m = hEntries n" using sa unfolding same(7) by (simp add: hEntriesUpto_def [of t])
  show se: "sameEntries n n'"
    using sa es by (simp add: sameEntries_def f same fe hEntries_def)
  show d: "h_dataOffset n' = 4096 - cap - h_spaceUsed n" using sa sp(3) by (simp add: f tf)
  have "hashLayout env ?m n'" using sa by (simp add: same(8))
  moreover have "hashSpace ?m n'" using sa sp(3) fit d by (simp add: hashSpace_def es f tf)
  ultimately show "HashNode_inv env len n'" by (rule sameEntries_inv(1) [OF inv se])
  show "h_hashCapacity n' = cap" "h_roc n' = h_roc n" by (rule f)+
qed

text \<open>Growing the hash array in place, below the entries.\<close>

lemma hash_grow_correct:
  assumes inv: "HashNode_inv env len n" and cap: "h_count n \<le> cap"
    and fit: "cap + 20 + 6 * h_count n \<le> h_dataOffset n"
  defines "n' \<equiv> n\<lparr>h_dataOffset := h_dataOffset n - cap,
      h_heap := store (h_heap n) (h_dataOffset n - cap) (load (h_heap n) (h_hashOffset n) (h_count n)),
      h_hashOffset := h_dataOffset n - cap, h_hashCapacity := cap\<rparr>"
  shows "HashNode_inv env len n'" "sameEntries n n'"
proof -
  let ?m = "h_count n"
  note lay = HashNode_invD(1) [OF inv] and sp = hashSpace_bounds [OF inv]
  note b = hashLayout_bounds [OF lay]
  have stop: "h_dataOffset n - cap + ?m \<le> h_dataOffset n" using fit cap by simp
  have off: "h_dataOffset n \<le> hs_offset (h_slot n i)" if "i < ?m" for i
    using b(5) [OF that] by (simp add: hslotOk_def Let_def)
  have key: "HashNode_getKey n' i = HashNode_getKey n i" "HashNode_getPayload n' i = HashNode_getPayload n i"
    if "i < ?m" for i
    using off [OF that] stop
    by (simp_all add: n'_def HashNode_getKey_def HashNode_getPayload_def load_store_other)
  have hash: "HashNode_hash n' i = HashNode_hash n i" if "i < ?m" for i
    using that by (simp add: n'_def HashNode_hash_def store_def)
  have "h_dataOffset n \<le> 4096 - (h_lowerFenceLen n + h_upperFenceLen n)" "h_dataOffset n \<le> 4096 - h_lowerFenceLen n"
    using b(2-4) by simp_all
  with stop have fe: "HashNode_getLowerFence n' = HashNode_getLowerFence n" "HashNode_getUpperFence n' = HashNode_getUpperFence n"
    by (simp_all add: n'_def HashNode_getLowerFence_def HashNode_getUpperFence_def pageSizeLeaf_4096 load_store_other)
  have f: "h_count n' = ?m" "h_sortedCount n' = h_sortedCount n" "h_spaceUsed n' = h_spaceUsed n"
    "h_prefixLength n' = h_prefixLength n" "h_lowerFenceLen n' = h_lowerFenceLen n"
    "h_upperFenceLen n' = h_upperFenceLen n" by (simp_all add: n'_def)
  have es: "hEntriesUpto n' ?m = hEntriesUpto n ?m" by (simp add: hEntriesUpto_def key)
  show se: "sameEntries n n'" by (simp add: sameEntries_def hEntries_def f es fe)
  have "hslotOk env n' i" if "i < ?m" for i
    using b(5) [OF that] off [OF that] fit key [OF that] hash [OF that]
    by (auto simp: hslotOk_def Let_def) (simp_all add: n'_def)
  then have "hashLayout env ?m n'"
    using hashPrefix_take(2) [OF lay] b(2-4) fit cap unfolding hashLayout_def fe f
    by (simp add: hashSlotsEnd_eq) (simp add: n'_def)
  moreover have "hashSpace ?m n'"
    using sp(2,3) fit unfolding hashSpace_def f es hEntries_def [symmetric] by (simp add: n'_def)
  ultimately show "HashNode_inv env len n'" by (rule sameEntries_inv(1) [OF inv se])
qed

subsection \<open>Room, insert and remove\<close>

lemma requestSlot_correct:
  assumes inv: "HashNode_inv env len n" and res: "HashNode_requestSlotAndSpace env kv n = (ok, n')"
  shows "HashNode_inv env len n'" "sameEntries n n'" "ok \<Longrightarrow> hashRoom n' kv" "\<not> ok \<Longrightarrow> n' = n"
proof -
  let ?m = "h_count n"
  define cap where "cap = max (HashNode_estimateCapacity n) (?m + 1)"
  note lay = HashNode_invD(1) [OF inv] and sp = hashSpace_bounds [OF inv]
  note b = hashLayout_bounds [OF lay]
  have free: "HashNode_freeSpace n = h_dataOffset n - (20 + 6 * ?m)"
    "HashNode_freeSpaceAfterCompaction n = 4096 - (20 + 6 * ?m + h_spaceUsed n)"
    using sp by (simp_all add: HashNode_freeSpace_def HashNode_freeSpaceAfterCompaction_def hashSlotsEnd_eq
        pageSizeLeaf_4096 c_arith)
  have gt: "?m < cap" by (simp add: cap_def)
  define grown where "grown = n\<lparr>h_dataOffset := sub16 (h_dataOffset n) cap,
      h_heap := store (h_heap n) (sub16 (h_dataOffset n) cap) (load (h_heap n) (h_hashOffset n) ?m),
      h_hashOffset := sub16 (h_dataOffset n) cap, h_hashCapacity := u16 cap\<rparr>"
  define compacted where "compacted = HashNode_compactify env cap n"
  have unfolded: "HashNode_requestSlotAndSpace env kv n =
     (if ?m < h_hashCapacity n \<and> kv + 6 \<le> HashNode_freeSpace n then (True, n)
      else if ?m < h_hashCapacity n then
        (if cap + kv + 6 > HashNode_freeSpaceAfterCompaction n then (False, n)
         else if cap \<le> ?m + ?m * 3 div 128 then (False, n) else (True, compacted))
      else if cap + kv + 6 \<le> HashNode_freeSpace n then (True, grown)
      else if cap + kv + 6 > HashNode_freeSpaceAfterCompaction n then (False, n)
      else if cap \<le> ?m + ?m * 3 div 128 then (False, n) else (True, compacted))"
    unfolding HashNode_requestSlotAndSpace_def cap_def [symmetric] sizeof_HashSlot_def Let_def
      compacted_def [symmetric] grown_def [symmetric] ..
  consider (same) "?m < h_hashCapacity n" "kv + 6 \<le> HashNode_freeSpace n" "ok" "n' = n"
    | (full) "\<not> ok" "n' = n"
    | (compact) "cap + kv + 6 \<le> HashNode_freeSpaceAfterCompaction n" "ok" "n' = compacted"
    | (grow) "cap + kv + 6 \<le> HashNode_freeSpace n" "ok" "n' = grown"
    using res unfolding unfolded by (auto split: if_split_asm simp: not_less)
  then have "HashNode_inv env len n' \<and> sameEntries n n' \<and> (ok \<longrightarrow> hashRoom n' kv) \<and> (\<not> ok \<longrightarrow> n' = n)"
  proof cases
    case same
    then show ?thesis using inv sp(4) by (simp add: sameEntries_def hashRoom_def free)
  next
    case full
    then show ?thesis using inv by (simp add: sameEntries_def)
  next
    case compact
    then have fit: "cap + h_spaceUsed n + 20 + 6 * ?m \<le> 4096" "kv + cap + h_spaceUsed n + 26 + 6 * ?m \<le> 4096"
      using sp unfolding free by linarith+
    note c = hash_compactify_correct [OF inv less_imp_le [OF gt] fit(1), folded compacted_def, folded compact(3)]
    have "h_count n' = ?m" using c(2) by (simp add: sameEntries_def)
    then have "hashRoom n' kv" using gt fit(2) by (simp add: hashRoom_def c(3,4))
    with c compact(2) show ?thesis by simp
  next
    case grow
    then have fit: "cap + 20 + 6 * ?m \<le> h_dataOffset n" "kv + cap + 26 + 6 * ?m \<le> h_dataOffset n"
      using sp unfolding free by linarith+
    have "cap \<le> h_dataOffset n" "h_dataOffset n < 65536" using fit sp(2) by linarith+
    then have "sub16 (h_dataOffset n) cap = h_dataOffset n - cap" "u16 cap = cap" by (simp_all add: c_arith)
    with grow(3) [unfolded grown_def] have n': "n' = n\<lparr>h_dataOffset := h_dataOffset n - cap,
      h_heap := store (h_heap n) (h_dataOffset n - cap) (load (h_heap n) (h_hashOffset n) ?m),
      h_hashOffset := h_dataOffset n - cap, h_hashCapacity := cap\<rparr>" by simp
    note g = hash_grow_correct [OF inv less_imp_le [OF gt] fit(1), folded n']
    have "hashRoom n' kv" using gt fit(2) by (simp add: hashRoom_def n')
    with g grow(2) show ?thesis by simp
  qed
  then show "HashNode_inv env len n'" "sameEntries n n'" "ok \<Longrightarrow> hashRoom n' kv" "\<not> ok \<Longrightarrow> n' = n" by blast+
qed

lemma hash_tryInsert_correct:
  assumes inv: "HashNode_inv env len n" and cov: "HashNode_covers n key" and v: "length v = len"
    and small: "length key < 65536" "len < 65536"
  shows "HashNode_tryInsert env key v n = Inserted n' \<Longrightarrow>
      HashNode_inv env len n' \<and> HashNode_covers n' = HashNode_covers n \<and>
      HashNode_content n' = (HashNode_content n)(key \<mapsto> v)"
    "HashNode_tryInsert env key v n = NoSpace n' \<Longrightarrow> n' = n"
proof -
  let ?size = "u32 (sub32 (length key) (h_prefixLength n) + length v)"
  obtain ok n1 where res: "HashNode_requestSlotAndSpace env ?size n = (ok, n1)" by force
  note q = requestSlot_correct [OF inv res]
  note lay = HashNode_invD(1) [OF inv]
  note lay1 = HashNode_invD(1) [OF q(1)] and se = q(2) [unfolded sameEntries_def]
  have size: "?size = length (drop (h_prefixLength n) key) + length v"
    using covers_hashPrefix(1) [OF lay cov] small v by (simp add: c_arith)
  have lay': "hashLayout env (h_count n) n1" "hashSpace (h_count n) n1"
    using lay1 HashNode_invD(2) [OF q(1)] se by simp_all
  note si = sameEntries_inv [OF inv q(2) lay']
  have cov1: "HashNode_covers n1 = HashNode_covers n" by (simp add: HashNode_covers_def se)
  have con1: "HashNode_content n1 = HashNode_content n" by (simp add: HashNode_content_def si(2))
  show "HashNode_inv env len n' \<and> HashNode_covers n' = HashNode_covers n \<and>
      HashNode_content n' = (HashNode_content n)(key \<mapsto> v)"
    if "HashNode_tryInsert env key v n = Inserted n'"
  proof -
    from that res have ok: ok and n': "n' = HashNode_insertWithSpace env key v n1"
      by (auto simp: HashNode_tryInsert_def split: if_splits)
    have room: "hashRoom n1 (length (drop (h_prefixLength n1) key) + length v)"
      using q(3) [OF ok] unfolding size si(4) .
    have c: "HashNode_covers n1 key" using cov cov1 by simp
    from insertWithSpace_map [OF si(1) c v room] show ?thesis by (simp add: n' cov1 con1)
  qed
  show "n' = n" if "HashNode_tryInsert env key v n = NoSpace n'"
    using that res q(4) by (auto simp: HashNode_tryInsert_def split: if_splits)
qed

lemma sorted_remove_at:
  assumes "sorted_wrt P (take s xs)" "i < length xs" "s \<le> length xs"
  shows "sorted_wrt P (take (s - (if i < s then 1 else 0)) (take i xs @ drop (Suc i) xs))"
proof (cases "i < s")
  case True
  then have eq: "min (s - 1) i = i" "s - 1 - i = s - Suc i" by simp_all
  have "take (s - 1) (take i xs @ drop (Suc i) xs) = take i (take s xs) @ drop (Suc i) (take s xs)"
    using True assms(2) by (simp add: eq take_append drop_take min_absorb2)
  moreover have "sorted_wrt P (take i (take s xs) @ drop i (take s xs))"
    using assms(1) by (simp only: append_take_drop_id)
  then have "sorted_wrt P (take i (take s xs) @ drop (Suc i) (take s xs))"
    unfolding sorted_wrt_append by (metis sorted_wrt_drop drop_drop plus_1_eq_Suc in_set_dropD)
  ultimately show ?thesis using True by simp
next
  case False
  with assms show ?thesis by simp
qed

lemma hash_removeSlot_correct:
  assumes inv: "HashNode_inv env len n" and i: "i < h_count n"
  defines "n' \<equiv> HashNode_removeSlot i n"
  shows "HashNode_inv env len n'" "HashNode_covers n' = HashNode_covers n"
    "hFullEntries n' = take i (hFullEntries n) @ drop (Suc i) (hFullEntries n)"
proof -
  let ?m = "h_count n"
  note lay = HashNode_invD(1) [OF inv] and sp = hashSpace_bounds [OF inv]
  note b = hashLayout_bounds [OF lay]
  let ?skip = "\<lambda>j. if j < i then j else Suc j"
  let ?e = "hEntries n ! i"
  have split: "hEntries n = take i (hEntries n) @ ?e # drop (Suc i) (hEntries n)"
    using i by (metis id_take_nth_drop length_hEntries(2))
  have e: "esize (hEntries n) = esize (take i (hEntries n)) + esize (drop (Suc i) (hEntries n)) +
      (hs_keyLen (h_slot n i) + hs_payloadLen (h_slot n i))"
    using i by (subst split) (simp add: nth_hEntries)
  have f: "h_count n' = ?m - 1" "h_spaceUsed n' = h_spaceUsed n - (hs_keyLen (h_slot n i) + hs_payloadLen (h_slot n i))"
    "h_sortedCount n' = h_sortedCount n - (if i < h_sortedCount n then 1 else 0)"
    "h_prefixLength n' = h_prefixLength n" "h_hashCapacity n' = h_hashCapacity n" "h_hashOffset n' = h_hashOffset n"
    "h_dataOffset n' = h_dataOffset n" "h_lowerFenceLen n' = h_lowerFenceLen n" "h_upperFenceLen n' = h_upperFenceLen n"
    using i e sp by (simp_all add: n'_def HashNode_removeSlot_def c_arith)
  have heap: "h_heap n' x = h_heap n x" if "x < h_hashOffset n \<or> h_hashOffset n + h_hashCapacity n \<le> x" for x
    using that b(2) i by (auto simp: n'_def HashNode_removeSlot_def memmove_array_def)
  have hash: "HashNode_hash n' j = HashNode_hash n (?skip j)" if "j < ?m - 1" for j
    using that i by (auto simp: n'_def HashNode_removeSlot_def memmove_array_def HashNode_hash_def)
  have slot: "h_slot n' j = h_slot n (?skip j)" if "j < ?m - 1" for j
    using that i by (auto simp: n'_def HashNode_removeSlot_def memmove_array_def)
  have ok: "hslotOk env n (?skip j)" if "j < ?m - 1" for j using b(5) [of "?skip j"] that by auto
  have key: "HashNode_getKey n' j = HashNode_getKey n (?skip j)" "HashNode_getPayload n' j = HashNode_getPayload n (?skip j)"
    if "j < ?m - 1" for j
    using ok [OF that] unfolding HashNode_getKey_def HashNode_getPayload_def slot [OF that] hslotOk_def Let_def
    by (intro load_eqI heap; auto)+
  have "h_hashOffset n + h_hashCapacity n \<le> 4096 - (h_lowerFenceLen n + h_upperFenceLen n)" using b(4) by simp
  then have fe: "HashNode_getLowerFence n' = HashNode_getLowerFence n" "HashNode_getUpperFence n' = HashNode_getUpperFence n"
    unfolding HashNode_getLowerFence_def HashNode_getUpperFence_def f pageSizeLeaf_4096
    by (intro load_eqI heap disjI2; simp)+
  have es: "hEntries n' = take i (hEntries n) @ drop (Suc i) (hEntries n)"
  proof (rule nth_equalityI)
    fix j assume "j < length (hEntries n')"
    then have j: "j < ?m - 1" by (simp add: f)
    with i show "hEntries n' ! j = (take i (hEntries n) @ drop (Suc i) (hEntries n)) ! j"
      by (simp add: nth_hEntries f key [OF j] nth_append)
  qed (use i in \<open>simp add: f\<close>)
  have "\<forall>j<?m - 1. hslotOk env n' j"
    using ok by (auto simp: hslotOk_def Let_def slot hash key f)
  then have lay': "hashLayout env (h_count n') n'"
    using b(1-4) hashPrefix_take(2) [OF lay] unfolding hashLayout_def fe f
    by (simp add: hashSlotsEnd_eq) linarith
  have pre: "HashNode_getPrefix n' = HashNode_getPrefix n"
    using hashPrefix_take(1) [OF lay] hashPrefix_take(1) [OF lay'] fe f by simp
  show full: "hFullEntries n' = take i (hFullEntries n) @ drop (Suc i) (hFullEntries n)"
    by (simp add: hFullEntries_def es pre take_map drop_map)
  show "HashNode_covers n' = HashNode_covers n" by (simp add: HashNode_covers_def fe)
  have sub: "set (hEntries n') \<subseteq> set (hEntries n)" "set (hFullEntries n') \<subseteq> set (hFullEntries n)"
    unfolding es full by (auto dest: in_set_takeD in_set_dropD)
  have lens: "\<forall>(k, v) \<in> set (hEntries n'). length v = len"
    using HashNode_invD(6) [OF inv subsetD [OF sub(1)]] by (simp add: case_prod_unfold)
  have fen: "\<forall>k \<in> fst ` set (hFullEntries n'). inFences (HashNode_getLowerFence n) (HashNode_getUpperFence n) k"
  proof
    fix k assume "k \<in> fst ` set (hFullEntries n')"
    with image_mono [OF sub(2), of fst] have "k \<in> fst ` set (hFullEntries n)" by (rule subsetD)
    then show "inFences (HashNode_getLowerFence n) (HashNode_getUpperFence n) k" by (rule HashNode_invD(7) [OF inv])
  qed
  have eu: "hEntriesUpto n' (?m - 1) = hEntries n'" by (simp only: hEntries_def f)
  have "hashSpace (h_count n') n'"
    using sp(2,3) e unfolding hashSpace_def f eu es by simp
  moreover have "distinct (map fst (hEntries n'))"
    unfolding es map_append take_map [symmetric] drop_map [symmetric] distinct_append
    using HashNode_invD(3) [OF inv] set_take_disj_set_drop_if_distinct [of "map fst (hEntries n)" i "Suc i"]
    by (intro conjI distinct_take distinct_drop) simp_all
  moreover have "sorted_wrt (<) (map fst (take (h_sortedCount n') (hEntries n')))"
    using sorted_remove_at [of "\<lambda>x y. fst x < fst y" "h_sortedCount n" "hEntries n" i] i HashNode_invD(4,5) [OF inv]
    unfolding f es sorted_wrt_map by simp
  moreover have "h_sortedCount n' \<le> h_count n'"
    using HashNode_invD(4) [OF inv] i by (auto simp: f)
  ultimately show "HashNode_inv env len n'"
    using lay' lens fen unfolding HashNode_inv_def fe by simp
qed

lemma hash_remove_correct:
  assumes inv: "HashNode_inv env len n" and cov: "HashNode_covers n key"
    and res: "HashNode_remove env key n = (b, n')"
  shows "HashNode_inv env len n' \<and> HashNode_covers n' = HashNode_covers n \<and>
    HashNode_content n' = (HashNode_content n)(key := None) \<and> (b \<longleftrightarrow> HashNode_content n key \<noteq> None)"
proof -
  note lay = HashNode_invD(1) [OF inv] and d = HashNode_invD(3) [OF inv]
  note con = hash_content_truncated(1) [OF lay cov]
  from lay d show ?thesis
  proof (cases rule: findIndex_cases [where key = key])
    case absent
    then have "HashNode_content n key = None" by (simp add: con map_of_eq_None_iff [THEN iffD2])
    with absent(1) res inv show ?thesis by (auto simp: HashNode_remove_def fun_upd_idem)
  next
    case (present i)
    then have r: "b" "n' = HashNode_removeSlot i n" using res by (simp_all add: HashNode_remove_def)
    note c = hash_removeSlot_correct [OF inv present(1), folded r(2)]
    have k: "fst (hFullEntries n ! i) = key"
      using present covers_hashPrefix(2) [OF lay cov] by (simp add: hFullEntries_def nth_hEntries)
    have "key \<in> fst ` set (hFullEntries n)" using k present(1) by (metis imageI length_hEntries(3) nth_mem)
    then have "HashNode_content n key \<noteq> None" by (simp add: HashNode_content_def map_of_eq_None_iff)
    with c r(1) k map_of_remove_at [OF distinct_hFullEntries [OF d], of i] present(1) show ?thesis
      by (simp add: HashNode_content_def)
  qed
qed

subsection \<open>The hash leaf is a map\<close>

definition hashStorable :: "nat \<Rightarrow> bytes \<Rightarrow> bytes \<Rightarrow> bool" where
  "hashStorable len k v \<longleftrightarrow> length k < 65536 \<and> length v = len \<and> len < 65536"

interpretation hash_leaf: leaf_map "HashNode_inv env len" HashNode_covers HashNode_content
    "\<lambda>k n. fst (HashNode_lookup cfg env k n r)" "HashNode_tryInsert env" "HashNode_remove env" "hashStorable len"
  for cfg :: config and env :: hash_env and len :: nat and r :: rng
proof
  fix n n' k v b
  show "fst (HashNode_lookup cfg env k n r) = HashNode_content n k"
    if "HashNode_inv env len n" "HashNode_covers n k"
    using that by (rule hash_lookup_content)
  show "HashNode_inv env len n' \<and> HashNode_covers n' = HashNode_covers n \<and>
      HashNode_content n' = (HashNode_content n)(k \<mapsto> v)"
    if "HashNode_inv env len n" "HashNode_covers n k" "hashStorable len k v"
      "HashNode_tryInsert env k v n = Inserted n'"
    using hash_tryInsert_correct(1) [OF that(1,2) _ _ _ that(4)] that(3) by (simp add: hashStorable_def)
  show "HashNode_inv env len n' \<and> HashNode_covers n' = HashNode_covers n \<and> HashNode_content n' = HashNode_content n"
    if "HashNode_inv env len n" "HashNode_covers n k" "hashStorable len k v"
      "HashNode_tryInsert env k v n = NoSpace n'"
    using hash_tryInsert_correct(2) [OF that(1,2) _ _ _ that(4)] that(1,3) by (simp add: hashStorable_def)
  show "HashNode_inv env len n' \<and> HashNode_covers n' = HashNode_covers n \<and>
      HashNode_content n' = (HashNode_content n)(k := None) \<and> (b \<longleftrightarrow> HashNode_content n k \<noteq> None)"
    if "HashNode_inv env len n" "HashNode_covers n k" "HashNode_remove env k n = (b, n')"
    using that by (rule hash_remove_correct)
qed

end
