(* ===== verification/HashNodeSort.thy ===== *)
theory HashNodeSort
  imports HashNodeMapOps "HOL-Library.Multiset"
begin

text \<open>
  \<open>HashNode::sort\<close>, the binary search in a sorted hash leaf, the conversion of a hash leaf to a
  basic leaf and the range lookup of the hash leaf, which sorts it or converts it first.
\<close>

subsection \<open>Merging sorted lists\<close>

lemma mset_merge_by: "mset (merge_by f xs ys) = mset xs + mset ys"
  by (induction f xs ys rule: merge_by.induct) auto

lemma set_merge_by: "set (merge_by f xs ys) = set xs \<union> set ys"
  by (metis mset_merge_by set_mset_mset set_mset_union)

lemma sorted_merge_by:
  "sorted (map f xs) \<Longrightarrow> sorted (map f ys) \<Longrightarrow> sorted (map f (merge_by f xs ys))"
  by (induction f xs ys rule: merge_by.induct) (auto simp: set_merge_by not_less intro: order.trans less_imp_le)

subsection \<open>Sorting the slots\<close>

definition slotPayload :: "HashNode \<Rightarrow> HashSlot \<Rightarrow> bytes" where
  "slotPayload n s = load (h_heap n) (hs_offset s + hs_keyLen s) (hs_payloadLen s)"

definition slotEntry :: "HashNode \<Rightarrow> HashSlot \<Rightarrow> entry" where
  "slotEntry n s = (slotKey n s, slotPayload n s)"

lemma hEntries_slots: "hEntries n = map (slotEntry n) (HashNode_slots n)"
  by (simp add: hEntries_def hEntriesUpto_def HashNode_slots_def slotEntry_def slotKey_def slotPayload_def
      HashNode_getKey_def HashNode_getPayload_def)

definition sortedSlots :: "HashNode \<Rightarrow> HashSlot list" where
  "sortedSlots n = merge_by (slotKey n) (take (h_sortedCount n) (HashNode_slots n))
     (sort_key (slotKey n) (drop (h_sortedCount n) (HashNode_slots n)))"

lemma mset_sortedSlots: "mset (sortedSlots n) = mset (HashNode_slots n)"
  by (metis append_take_drop_id mset_append mset_merge_by mset_sort sortedSlots_def)

lemma sortedSlots_facts:
  assumes "HashNode_inv env len n"
  shows "length (sortedSlots n) = h_count n" "set (sortedSlots n) = h_slot n ` {..<h_count n}"
    "sorted_wrt (<) (map (slotKey n) (sortedSlots n))"
proof -
  have keys: "map (slotKey n) (HashNode_slots n) = map fst (hEntries n)"
    by (simp add: hEntries_slots slotEntry_def)
  show "length (sortedSlots n) = h_count n"
    using mset_eq_length [OF mset_sortedSlots [of n]] by (simp add: HashNode_slots_def)
  show "set (sortedSlots n) = h_slot n ` {..<h_count n}"
    using mset_eq_setD [OF mset_sortedSlots [of n]] by (simp add: HashNode_slots_def lessThan_atLeast0)
  have "sorted (map (slotKey n) (take (h_sortedCount n) (HashNode_slots n)))"
    using HashNode_invD(5) [OF assms] strict_sorted_imp_sorted
    by (metis keys take_map)
  then have "sorted (map (slotKey n) (sortedSlots n))"
    unfolding sortedSlots_def by (rule sorted_merge_by) simp
  moreover have "mset (map (slotKey n) (sortedSlots n)) = mset (map fst (hEntries n))"
    by (metis keys mset_map mset_sortedSlots)
  then have "distinct (map (slotKey n) (sortedSlots n))"
    using HashNode_invD(3) [OF assms] mset_eq_imp_distinct_iff by blast
  ultimately show "sorted_wrt (<) (map (slotKey n) (sortedSlots n))" by (simp add: strict_sorted_iff)
qed

text \<open>The loop that writes the hash of every slot again touches the hash array only.\<close>

lemma updateHash_loop:
  assumes disj: "\<forall>j<m. hs_offset (h_slot n j) + hs_keyLen (h_slot n j) \<le> h_hashOffset n \<or>
      h_hashOffset n + c \<le> hs_offset (h_slot n j)" and "m \<le> c"
  shows "\<exists>h. fold (HashNode_updateHash env) [0..<m] n = n\<lparr>h_heap := h\<rparr> \<and>
    (\<forall>x. x < h_hashOffset n \<or> h_hashOffset n + m \<le> x \<longrightarrow> h x = h_heap n x) \<and>
    (\<forall>j<m. h (h_hashOffset n + j) = compute_hash env 0 (HashNode_getKey n j))"
  using assms
proof (induction m)
  case 0
  show ?case by (intro exI [of _ "h_heap n"]) simp
next
  case (Suc m)
  then obtain h where h: "fold (HashNode_updateHash env) [0..<m] n = n\<lparr>h_heap := h\<rparr>"
    "\<forall>x. x < h_hashOffset n \<or> h_hashOffset n + m \<le> x \<longrightarrow> h x = h_heap n x"
    "\<forall>j<m. h (h_hashOffset n + j) = compute_hash env 0 (HashNode_getKey n j)" by auto
  have key: "HashNode_getKey (n\<lparr>h_heap := h\<rparr>) m = HashNode_getKey n m"
    unfolding HashNode_getKey_def using Suc.prems h(2) by (auto intro!: load_eqI)
  let ?h = "store h (h_hashOffset n + m) [compute_hash env 0 (HashNode_getKey n m)]"
  have "fold (HashNode_updateHash env) [0..<Suc m] n = n\<lparr>h_heap := ?h\<rparr>"
    using h(1) by (simp add: HashNode_updateHash_def HashNode_setHash_def key
        compute_hash_addr [of env "hs_offset (h_slot n m)"])
  moreover have "\<forall>x. x < h_hashOffset n \<or> h_hashOffset n + Suc m \<le> x \<longrightarrow> ?h x = h_heap n x"
    using h(2) by (auto simp: store_def)
  moreover have "\<forall>j<Suc m. ?h (h_hashOffset n + j) = compute_hash env 0 (HashNode_getKey n j)"
    using h(3) by (auto simp: store_def less_Suc_eq)
  ultimately show ?case by blast
qed

lemma hash_sort_correct:
  assumes inv: "HashNode_inv env len n"
  defines "n' \<equiv> HashNode_sort env n"
  shows "HashNode_inv env len n'" "HashNode_covers n' = HashNode_covers n"
    "mset (hFullEntries n') = mset (hFullEntries n)" "sorted_wrt (<) (map fst (hEntries n'))"
    "h_sortedCount n' = h_count n'" "h_count n' = h_count n" "h_spaceUsed n' = h_spaceUsed n"
    "h_roc n' = h_roc n" "HashNode_getPrefix n' = HashNode_getPrefix n" "h_prefixLength n' = h_prefixLength n"
    "HashNode_getLowerFence n' = HashNode_getLowerFence n" "HashNode_getUpperFence n' = HashNode_getUpperFence n"
proof -
  let ?m = "h_count n"
  note lay = HashNode_invD(1) [OF inv] and b = hashLayout_bounds [OF HashNode_invD(1) [OF inv]]
  have "HashNode_inv env len n' \<and> HashNode_covers n' = HashNode_covers n \<and>
    mset (hFullEntries n') = mset (hFullEntries n) \<and> sorted_wrt (<) (map fst (hEntries n')) \<and>
    h_sortedCount n' = h_count n' \<and> h_count n' = h_count n \<and> h_spaceUsed n' = h_spaceUsed n \<and>
    h_roc n' = h_roc n \<and> HashNode_getPrefix n' = HashNode_getPrefix n \<and> h_prefixLength n' = h_prefixLength n \<and>
    HashNode_getLowerFence n' = HashNode_getLowerFence n \<and> HashNode_getUpperFence n' = HashNode_getUpperFence n"
  proof (cases "h_sortedCount n = ?m")
    case True
    then have "n' = n" by (simp add: n'_def HashNode_sort_def)
    moreover have "sorted_wrt (<) (map fst (hEntries n))" using HashNode_invD(5) [OF inv] True by simp
    ultimately show ?thesis using inv True by simp
  next
    case False
    let ?s = "sortedSlots n"
    note s = sortedSlots_facts [OF inv]
    define n1 where "n1 = n\<lparr>h_slot := (\<lambda>i. if i < ?m then ?s ! i else h_slot n i)\<rparr>"
    have from_old: "\<exists>j<?m. ?s ! i = h_slot n j" if "i < ?m" for i
      using that s(1,2) nth_mem [of i ?s] by auto
    have region: "h_dataOffset n \<le> hs_offset (?s ! i) \<and>
        hs_offset (?s ! i) + hs_keyLen (?s ! i) + hs_payloadLen (?s ! i) \<le> 4096 \<and>
        (hs_offset (?s ! i) + hs_keyLen (?s ! i) + hs_payloadLen (?s ! i) \<le> h_hashOffset n \<or>
         h_hashOffset n + h_hashCapacity n \<le> hs_offset (?s ! i))" if "i < ?m" for i
    proof -
      from from_old [OF that] obtain j where "j < ?m" "?s ! i = h_slot n j" by blast
      with b(5) [of j] show ?thesis by (simp add: hslotOk_def Let_def)
    qed
    have "\<exists>h. fold (HashNode_updateHash env) [0..<?m] n1 = n1\<lparr>h_heap := h\<rparr> \<and>
      (\<forall>x. x < h_hashOffset n1 \<or> h_hashOffset n1 + ?m \<le> x \<longrightarrow> h x = h_heap n1 x) \<and>
      (\<forall>j<?m. h (h_hashOffset n1 + j) = compute_hash env 0 (HashNode_getKey n1 j))"
      by (rule updateHash_loop [where c = "h_hashCapacity n"])
        (use region b(2) in \<open>force simp: n1_def\<close>)+
    then obtain h where h: "fold (HashNode_updateHash env) [0..<?m] n1 = n1\<lparr>h_heap := h\<rparr>"
      "\<forall>x. x < h_hashOffset n \<or> h_hashOffset n + ?m \<le> x \<longrightarrow> h x = h_heap n x"
      "\<forall>j<?m. h (h_hashOffset n + j) = compute_hash env 0 (HashNode_getKey n1 j)"
      by (auto simp: n1_def)
    have "n' = n1\<lparr>h_heap := h, h_sortedCount := ?m\<rparr>"
      unfolding n'_def HashNode_sort_def Let_def sortedSlots_def [symmetric] n1_def [symmetric]
      using False h(1) by simp
    then have n': "n' = n\<lparr>h_slot := (\<lambda>i. if i < ?m then ?s ! i else h_slot n i), h_heap := h, h_sortedCount := ?m\<rparr>"
      by (simp add: n1_def)
    have same: "load h off l = load (h_heap n) off l" if "off + l \<le> h_hashOffset n \<or> h_hashOffset n + h_hashCapacity n \<le> off" for off l
      using that h(2) b(2) by (intro load_eqI) auto
    have key: "HashNode_getKey n' i = slotKey n (?s ! i)" "HashNode_getPayload n' i = slotPayload n (?s ! i)"
      if "i < ?m" for i
      using region [OF that] that
      by (auto simp: n' HashNode_getKey_def HashNode_getPayload_def slotKey_def slotPayload_def intro!: same)
    have key1: "HashNode_getKey n1 i = slotKey n (?s ! i)" if "i < ?m" for i
      using that by (simp add: n1_def HashNode_getKey_def slotKey_def)
    have "h_hashOffset n + h_hashCapacity n \<le> 4096 - (h_lowerFenceLen n + h_upperFenceLen n)"
      "h_hashOffset n + h_hashCapacity n \<le> 4096 - h_lowerFenceLen n" using b(4) by simp_all
    then have fe: "HashNode_getLowerFence n' = HashNode_getLowerFence n" "HashNode_getUpperFence n' = HashNode_getUpperFence n"
      by (simp_all add: n' HashNode_getLowerFence_def HashNode_getUpperFence_def pageSizeLeaf_4096 same)
    have f: "h_count n' = ?m" "h_sortedCount n' = ?m" "h_spaceUsed n' = h_spaceUsed n" "h_roc n' = h_roc n"
      "h_prefixLength n' = h_prefixLength n" "h_lowerFenceLen n' = h_lowerFenceLen n" "h_upperFenceLen n' = h_upperFenceLen n"
      "h_dataOffset n' = h_dataOffset n" "h_hashOffset n' = h_hashOffset n" "h_hashCapacity n' = h_hashCapacity n"
      by (simp_all add: n')
    have es: "hEntries n' = map (slotEntry n) ?s"
      by (rule nth_equalityI) (simp_all add: f s(1) nth_hEntries key slotEntry_def)
    have ms: "mset (hEntries n') = mset (hEntries n)"
      unfolding es hEntries_slots [of n] mset_map mset_sortedSlots ..
    have "hslotOk env n' i" if "i < ?m" for i
      unfolding hslotOk_def Let_def f key(1) [OF that]
      using region [OF that] that h(3) key1 by (simp add: n' HashNode_hash_def)
    then have lay': "hashLayout env ?m n'"
      using b(1-4) hashPrefix_take(2) [OF lay] unfolding hashLayout_def fe f by (simp add: hashSlotsEnd_eq)
    have pre: "HashNode_getPrefix n' = HashNode_getPrefix n"
      using hashPrefix_take(1) [OF lay] hashPrefix_take(1) [OF lay'] fe f by simp
    have full: "mset (hFullEntries n') = mset (hFullEntries n)"
      unfolding hFullEntries_def mset_map ms pre ..
    have ez: "esize (hEntries n') = esize (hEntries n)"
      unfolding esize_def sum_mset_sum_list [symmetric] mset_map ms ..
    have eu: "hEntriesUpto n' ?m = hEntries n'" by (simp only: hEntries_def f)
    have srt: "sorted_wrt (<) (map fst (hEntries n'))"
      unfolding es using s(3) by (simp add: slotEntry_def comp_def)
    have sets: "set (hEntries n') = set (hEntries n)" "set (hFullEntries n') = set (hFullEntries n)"
      by (rule mset_eq_setD [OF ms], rule mset_eq_setD [OF full])
    have "hashSpace (h_count n') n'"
      using HashNode_invD(2) [OF inv] ez unfolding hashSpace_def f eu hEntries_def [of n] by simp
    moreover have "distinct (map fst (hEntries n'))" using srt by (simp only: strict_sorted_iff)
    moreover have "sorted_wrt (<) (map fst (take (h_sortedCount n') (hEntries n')))" using srt f by simp
    ultimately have "HashNode_inv env len n'"
      using inv lay' unfolding HashNode_inv_def fe sets f by simp
    then show ?thesis using fe full srt f pre by (simp add: HashNode_covers_def)
  qed
  then show "HashNode_inv env len n'" "HashNode_covers n' = HashNode_covers n"
    "mset (hFullEntries n') = mset (hFullEntries n)" "sorted_wrt (<) (map fst (hEntries n'))"
    "h_sortedCount n' = h_count n'" "h_count n' = h_count n" "h_spaceUsed n' = h_spaceUsed n"
    "h_roc n' = h_roc n" "HashNode_getPrefix n' = HashNode_getPrefix n" "h_prefixLength n' = h_prefixLength n"
    "HashNode_getLowerFence n' = HashNode_getLowerFence n" "HashNode_getUpperFence n' = HashNode_getUpperFence n"
    by blast+
qed

subsection \<open>The binary search in a sorted leaf\<close>

interpretation hash_search: halving_search "HashNode_search n key" "hashSlotCmp n key" for n key
  by unfold_locales (rule HashNode_search.simps)

lemma key_cmp_sign: "(key_cmp a b < 0 \<longleftrightarrow> a < b) \<and> (key_cmp a b > 0 \<longleftrightarrow> b < a)"
  using key_cmp_cases [of a b] key_cmp_less [of a b] key_cmp_greater [of a b] by auto

lemma hash_lowerBound_correct:
  assumes inv: "HashNode_inv env len n" and cov: "HashNode_covers n key"
    and sorted: "sorted_wrt (<) (map fst (hEntries n))" and res: "HashNode_lowerBound n key = (i, found)"
  shows "is_lower_bound (map fst (hFullEntries n)) key i"
    "found \<longleftrightarrow> i < h_count n \<and> fst (hFullEntries n ! i) = key"
    "sorted_wrt (<) (map fst (hFullEntries n))"
proof -
  let ?k = "drop (h_prefixLength n) key" and ?ks = "map fst (hEntries n)"
  note lay = HashNode_invD(1) [OF inv]
  have cmp: "\<And>i. i < length ?ks \<Longrightarrow> (hashSlotCmp n ?k i < 0 \<longleftrightarrow> ?k < ?ks ! i) \<and> (hashSlotCmp n ?k i > 0 \<longleftrightarrow> ?ks ! i < ?k)"
    using key_cmp_sign by (simp add: hashSlotCmp_def nth_hEntries)
  note lb = hash_search.search_result [OF cmp sorted, of 0 "h_count n", simplified]
  have full: "map fst (hFullEntries n) = map ((@) (HashNode_getPrefix n)) ?ks" by (rule hFullEntries_keys)
  have key: "HashNode_getPrefix n @ ?k = key" by (rule covers_hashPrefix(2) [OF lay cov])
  from lb res have b: "is_lower_bound ?ks ?k i" "found \<longrightarrow> i < h_count n \<and> ?ks ! i = ?k"
    "\<not> found \<longrightarrow> (\<forall>j<h_count n. ?ks ! j \<noteq> ?k)"
    by (auto simp: HashNode_lowerBound_def)
  have nth: "fst (hFullEntries n ! j) = HashNode_getPrefix n @ ?ks ! j" if "j < h_count n" for j
    using that by (simp add: hFullEntries_def split_def)
  show "is_lower_bound (map fst (hFullEntries n)) key i"
    using b(1) unfolding is_lower_bound_def full by (metis (no_types, lifting) key length_map less_append_same le_append_same nth_map order_less_le_trans)
  show "found \<longleftrightarrow> i < h_count n \<and> fst (hFullEntries n ! i) = key"
    using b(2,3) nth [of i] key by (metis same_append_eq)
  show "sorted_wrt (<) (map fst (hFullEntries n))"
    using sorted unfolding full sorted_wrt_map by simp
qed

subsection \<open>Scans of a sorted leaf\<close>

lemma nth_hFullEntries:
  "i < h_count n \<Longrightarrow> hFullEntries n ! i = (HashNode_getPrefix n @ HashNode_getKey n i, HashNode_getPayload n i)"
  by (simp add: hFullEntries_def nth_hEntries)

lemma hash_range_loop_scan:
  assumes "load keyOut 0 (h_prefixLength n) = HashNode_getPrefix n"
    and "HashNode_range_loop n cb i keyOut s = (c, keyOut', s')"
  shows "(c, s') = scan cb (drop i (hFullEntries n)) s \<and> load keyOut' 0 (h_prefixLength n) = HashNode_getPrefix n"
  using assms
proof (induction "h_count n - i" arbitrary: i keyOut s)
  case 0
  then have "\<not> i < h_count n" by simp
  with 0 show ?case by (simp add: HashNode_range_loop.simps [of n cb i])
next
  case (Suc m)
  then have i: "i < h_count n" by simp
  let ?k1 = "store keyOut (h_prefixLength n) (HashNode_getKey n i)"
  have k1: "load ?k1 0 (h_prefixLength n) = HashNode_getPrefix n"
    using Suc.prems(1) by (simp add: load_store_other)
  have key: "load ?k1 0 (hs_keyLen (h_slot n i) + h_prefixLength n) = fst (hFullEntries n ! i)"
    using k1 load_add [of ?k1 0 "h_prefixLength n" "hs_keyLen (h_slot n i)"] i
    by (simp add: add.commute load_store_same nth_hFullEntries)
  have d: "drop i (hFullEntries n) = hFullEntries n ! i # drop (Suc i) (hFullEntries n)"
    using i by (simp add: Cons_nth_drop_Suc)
  obtain c1 s1 where cb: "cb (fst (hFullEntries n ! i)) (HashNode_getPayload n i) s = (c1, s1)" by force
  have loop: "HashNode_range_loop n cb i keyOut s =
      (if \<not> c1 then (False, ?k1, s1) else HashNode_range_loop n cb (i + 1) ?k1 s1)"
    using i key cb by (subst HashNode_range_loop.simps) (simp add: Let_def)
  have sc: "scan cb (drop i (hFullEntries n)) s = (if c1 then scan cb (drop (Suc i) (hFullEntries n)) s1 else (False, s1))"
    unfolding d using cb i by (simp add: nth_hFullEntries)
  show ?case
  proof (cases c1)
    case True
    with Suc.hyps(1) [of "i + 1" ?k1 s1] Suc.hyps(2) Suc.prems(2) k1 loop sc show ?thesis by simp
  next
    case False
    with Suc.prems(2) loop sc k1 show ?thesis by auto
  qed
qed

lemma hash_range_loop_desc_scan:
  assumes "load keyOut 0 (h_prefixLength n) = HashNode_getPrefix n" "i \<le> h_count n"
    and "HashNode_range_loop_desc n cb i keyOut s = (c, keyOut', s')"
  shows "(c, s') = scan cb (rev (take i (hFullEntries n))) s"
  using assms
proof (induction i arbitrary: keyOut s)
  case (Suc i)
  then have i: "i < h_count n" by simp
  let ?k1 = "store keyOut (h_prefixLength n) (HashNode_getKey n i)"
  have k1: "load ?k1 0 (h_prefixLength n) = HashNode_getPrefix n"
    using Suc.prems(1) by (simp add: load_store_other)
  have key: "load ?k1 0 (hs_keyLen (h_slot n i) + h_prefixLength n) = fst (hFullEntries n ! i)"
    using k1 load_add [of ?k1 0 "h_prefixLength n" "hs_keyLen (h_slot n i)"] i
    by (simp add: add.commute load_store_same nth_hFullEntries)
  have d: "rev (take (Suc i) (hFullEntries n)) = hFullEntries n ! i # rev (take i (hFullEntries n))"
    using i by (simp add: take_Suc_conv_app_nth)
  obtain c1 s1 where cb: "cb (fst (hFullEntries n ! i)) (HashNode_getPayload n i) s = (c1, s1)" by force
  show ?case
    using Suc.IH [of ?k1 s1] Suc.prems(3) k1 key cb i unfolding d
    by (auto simp: nth_hFullEntries Let_def split: if_splits)
qed simp

subsection \<open>The conversion to a basic leaf\<close>

lemma copyRangeToBasic_eq:
  "HashNode_copyKeyValueRangeToBasic n 0 0 (h_count n) dst =
    BTreeNode_makeHint ((storeAll 0 (hFullEntries n) dst)\<lparr>b_count := add16 (b_count dst) (h_count n)\<rparr>)"
proof -
  have "fold (\<lambda>i. HashNode_copyKeyValueToBasic n (0 + i) (0 + i)) [0..<h_count n] dst = storeAll 0 (hFullEntries n) dst"
    unfolding storeAll_def
    by (rule fold_cong) (auto simp: HashNode_copyKeyValueToBasic_def nth_hFullEntries fun_eq_iff)
  then show ?thesis by (simp add: HashNode_copyKeyValueRangeToBasic_def Let_def)
qed

lemma hash_tryConvertToBasic_correct:
  assumes inv: "HashNode_inv env len n" and res: "HashNode_tryConvertToBasic env n = Some p"
  shows "leafInv p" "mset (fullEntries p) = mset (hFullEntries n)" "BTreeNode_covers p = HashNode_covers n"
    "BTreeNode_getPrefix p = HashNode_getPrefix n" "b_prefixLength p = h_prefixLength n" "b_roc p = h_roc n"
proof -
  let ?n = "HashNode_sort env n"
  note sc = hash_sort_correct [OF inv]
  note lay = HashNode_invD(1) [OF sc(1)] and sp = hashSpace_bounds [OF sc(1)]
  let ?lo = "HashNode_getLowerFence ?n" and ?up = "HashNode_getUpperFence ?n"
  let ?f = "freshPage True (h_roc ?n) ?lo ?up" and ?xs = "hFullEntries ?n"
  from res have fit: "h_spaceUsed n + h_count n * 10 + 92 \<le> 4096"
    and p: "p = HashNode_copyKeyValueRangeToBasic ?n 0 0 (h_count ?n) ?f"
    by (auto simp: HashNode_tryConvertToBasic_def Let_def freshPage_def sizeof_Slot_def sizeof_BTreeNodeHeader_def
        pageSizeLeaf_4096 split: if_splits)
  have fit0: "length ?lo + length ?up + 92 \<le> 4096" using fit sp(3) sc(7) by simp
  note ff = freshPage_facts [OF fit0, of True "h_roc ?n"]
  have tr: "truncated (lcp ?lo ?up) ?xs = hEntries ?n"
    using truncated_hFullEntries [of ?n] hashPrefix_take(2) [OF lay] by simp
  have room: "fitsPage (length ?xs) ?lo ?up ?xs"
    unfolding fitsPage_def tr using fit sp(3) sc(6,7) by simp
  have "\<forall>k \<in> fst ` set ?xs. inFences ?lo ?up k" "sorted_wrt (<) (map fst ?xs)"
    using HashNode_invD(7) [OF sc(1)] sc(4) by (blast, simp add: hFullEntries_keys sorted_wrt_map)
  note fl = freshLeaf_storeAll [OF room this, of "h_roc ?n"]
  have p': "p = BTreeNode_makeHint ((storeAll 0 ?xs ?f)\<lparr>b_count := length ?xs\<rparr>)"
    using fit sc(6) unfolding p copyRangeToBasic_eq by (simp add: ff(4) c_arith)
  show "leafInv p" using fl(1) unfolding p' .
  show "mset (fullEntries p) = mset (hFullEntries n)" using fl(2) sc(3) unfolding p' by simp
  have fe: "BTreeNode_getLowerFence p = ?lo" "BTreeNode_getUpperFence p = ?up" using fl(3,4) unfolding p' by simp_all
  then show "BTreeNode_covers p = HashNode_covers n" by (simp add: BTreeNode_covers_def HashNode_covers_def sc)
  show pl: "b_prefixLength p = h_prefixLength n" "b_roc p = h_roc n"
    using fl(5,6) hashPrefix_take(2) [OF lay] unfolding p' by (simp_all add: sc)
  have "pageOk (b_count p) p" using fl(1) unfolding p' leafInv_def BTreeNode_inv_def by simp
  then show "BTreeNode_getPrefix p = HashNode_getPrefix n"
    using getPrefix_take(1) hashPrefix_take(1) [OF lay] sc(9,10) pl(1) fe by metis
qed

end
