(* ===== verification/HashNodeSpec.thy ===== *)
theory HashNodeSpec
  imports HashNodeSort BasicNodeSpec
begin

text \<open>
  The properties of the hash leaf: the vectorised search, the operations as updates of a finite
  map, sorting, the range lookup, and the drift of \<open>spaceUsed\<close> under overwrites of another length.
\<close>

subsection \<open>A leaf without fences\<close>

lemma HashNode_inv_roc:
  assumes "HashNode_inv env len n"
  shows "HashNode_inv env len (n\<lparr>h_roc := r\<rparr>)" "hEntries (n\<lparr>h_roc := r\<rparr>) = hEntries n"
    "hFullEntries (n\<lparr>h_roc := r\<rparr>) = hFullEntries n" "HashNode_covers (n\<lparr>h_roc := r\<rparr>) = HashNode_covers n"
    "HashNode_getPrefix (n\<lparr>h_roc := r\<rparr>) = HashNode_getPrefix n"
proof -
  note same = sameHashPage_facts [OF sameHashPage_roc [of n r]]
  show e: "hEntries (n\<lparr>h_roc := r\<rparr>) = hEntries n" by (simp add: hEntries_def same)
  show f: "hFullEntries (n\<lparr>h_roc := r\<rparr>) = hFullEntries n" by (simp add: hFullEntries_def e same)
  show "HashNode_covers (n\<lparr>h_roc := r\<rparr>) = HashNode_covers n" by (simp add: HashNode_covers_def same)
  show "HashNode_getPrefix (n\<lparr>h_roc := r\<rparr>) = HashNode_getPrefix n" by (rule same)
  show "HashNode_inv env len (n\<lparr>h_roc := r\<rparr>)"
    using assms by (simp add: HashNode_inv_def e f same hashSpace_def)
qed

lemma requestSlot_room:
  assumes "HashNode_inv env len n" "hashRoom n kv"
  shows "HashNode_requestSlotAndSpace env kv n = (True, n)"
proof -
  have "HashNode_freeSpace n = h_dataOffset n - (20 + 6 * h_count n)"
    using hashSpace_bounds(2,4) [OF assms(1)] by (simp add: HashNode_freeSpace_def hashSlotsEnd_eq c_arith)
  then have "h_count n < h_hashCapacity n \<and> kv + sizeof_HashSlot \<le> HashNode_freeSpace n"
    using assms(2) by (auto simp: hashRoom_def sizeof_HashSlot_def)
  then show ?thesis unfolding HashNode_requestSlotAndSpace_def by (simp only: if_True simp_thms)
qed

definition demoHash :: HashNode where
  "demoHash = HashNode_makeRootLeaf"

lemma demoHash_facts:
  "HashNode_inv env len demoHash" "HashNode_covers demoHash k" "hFullEntries demoHash = []"
  "h_count demoHash = 0" "h_hashCapacity demoHash = 64" "h_dataOffset demoHash = 4032" "h_prefixLength demoHash = 0"
proof -
  have fit: "length ([] :: bytes) + length ([] :: bytes) + 64 + 20 \<le> 4096" by simp
  have d: "demoHash = HashNode_init [] [] 64 RangeOpCounter_new TmpHashNode"
    by (simp add: demoHash_def HashNode_makeRootLeaf_def pageSizeLeaf_4096)
  note i = hash_init_facts [OF fit, of RangeOpCounter_new TmpHashNode, folded d]
  have l: "h_lowerFenceLen demoHash = 0" "h_upperFenceLen demoHash = 0"
    using i(1,2) length_hash_reads(3,4) [of demoHash] by simp_all
  show e: "hFullEntries demoHash = []" using i(3) by (metis length_0_conv length_hEntries(3))
  have e': "hEntries demoHash = []" using i(3) by (metis length_0_conv length_hEntries(2))
  show "HashNode_covers demoHash k" using i by (simp add: HashNode_covers_def inFences_def)
  show "h_count demoHash = 0" "h_hashCapacity demoHash = 64" "h_dataOffset demoHash = 4032" "h_prefixLength demoHash = 0"
    using i by simp_all
  show "HashNode_inv env len demoHash"
    using i l e e' by (simp add: HashNode_inv_def hashLayout_def hashSpace_def hashSlotsEnd_eq hEntriesUpto_def)
qed

lemma demoHash_put:
  assumes "length k < 100" "length v < 100"
  shows "HashNode_tryInsert env k v demoHash = Inserted (HashNode_insertWithSpace env k v demoHash)"
    "HashNode_inv env (length v) (HashNode_insertWithSpace env k v demoHash)"
    "HashNode_covers (HashNode_insertWithSpace env k v demoHash) k'"
    "hFullEntries (HashNode_insertWithSpace env k v demoHash) = [(k, v)]"
proof -
  note f = demoHash_facts
  have room: "hashRoom demoHash (length k + length v)" using assms f by (simp add: hashRoom_def)
  show "HashNode_tryInsert env k v demoHash = Inserted (HashNode_insertWithSpace env k v demoHash)"
    using requestSlot_room [OF f(1) room] assms
    by (simp add: HashNode_tryInsert_def f(7) c_arith)
  have new: "drop (h_prefixLength demoHash) k \<notin> fst ` set (hEntries demoHash)"
    using f(3,4) by (simp add: hEntries_def hEntriesUpto_def)
  have room': "hashRoom demoHash (length (drop (h_prefixLength demoHash) k) + length v)" using room f(7) by simp
  note i = insertWithSpace_absent [OF f(1,2) refl room' new]
  show "HashNode_inv env (length v) (HashNode_insertWithSpace env k v demoHash)"
    "HashNode_covers (HashNode_insertWithSpace env k v demoHash) k'"
    "hFullEntries (HashNode_insertWithSpace env k v demoHash) = [(k, v)]"
    using i f(2,3) by simp_all
qed

subsection \<open>Search\<close>

text \<open>C27: the vectorised search over the aligned blocks of the hash array finds the same slot as the
  plain loop over all slots, whatever the alignment of the array and whatever lies around it.\<close>

theorem HashNode_findIndexSimd_is_NoSimd:
  "HashNode_findIndexSimd n key hash = HashNode_findIndexNoSimd n key hash"
  by (rule findIndexSimd_eq)

subsection \<open>The leaf as a map\<close>

text \<open>C28: after any sequence of inserts, overwrites and removes that a hash leaf takes without
  running out of room, payloads all of one length, a lookup returns what the same sequence of updates
  of a finite map gives, and the leaf satisfies its invariant.\<close>

theorem HashNode_ops_refine_map:
  assumes "HashNode_inv env len n" "\<forall>op \<in> set ops. HashNode_covers n (op_key op) \<and> op_ok (hashStorable len) op"
    and "run_ops (HashNode_tryInsert env) (HashNode_remove env) ops n = Some n'" "HashNode_covers n key"
  shows "HashNode_inv env len n' \<and>
    fst (HashNode_lookup cfg env key n' r) = fold content_op ops (HashNode_content n) key"
  using hash_leaf.run_ops_content [OF assms(1-3)] hash_leaf.lookup_content [of env len n' key cfg r] assms(4) by simp

theorem HashNode_ops_refine_map_witness:
  "\<forall>env r. \<exists>n'. run_ops (HashNode_tryInsert env) (HashNode_remove env) [Put [1] [10], Del [9]] demoHash = Some n' \<and>
     fst (HashNode_lookup default_config env [1] n' r) = Some [10]"
proof (intro allI)
  fix env r
  let ?ops = "[Put [1] [10], Del [9]] :: leaf_op list"
  obtain n' where n': "run_ops (HashNode_tryInsert env) (HashNode_remove env) ?ops demoHash = Some n'"
    using demoHash_put(1) [of "[1]" "[10]" env] by simp
  have "\<forall>op \<in> set ?ops. HashNode_covers demoHash (op_key op) \<and> op_ok (hashStorable 1) op"
    using demoHash_facts(2) by (simp add: hashStorable_def)
  from HashNode_ops_refine_map [OF demoHash_facts(1) this n' demoHash_facts(2), where cfg = default_config and r = r] n'
  show "\<exists>n'. run_ops (HashNode_tryInsert env) (HashNode_remove env) ?ops demoHash = Some n' \<and>
      fst (HashNode_lookup default_config env [1] n' r) = Some [10]"
    by simp
qed

lemma esize_update_int:
  "i < length es \<Longrightarrow> int (esize (es[i := (k, v)])) =
    int (esize es) + int (length k + length v) - int (length (fst (es ! i)) + length (snd (es ! i)))"
  by (induction es arbitrary: i) (auto split: nat.splits)

lemma hash_overwrite:
  assumes inv: "HashNode_inv env len n" and cov: "HashNode_covers n key" and old: "HashNode_content n key \<noteq> None"
    and room: "hashRoom n (length (drop (h_prefixLength n) key) + length payload)"
  defines "n' \<equiv> HashNode_insertWithSpace env key payload n"
  shows "h_spaceUsed n' = h_spaceUsed n"
    "int (h_lowerFenceLen n' + h_upperFenceLen n' + esize (hEntries n')) =
      int (h_spaceUsed n') + (int (length payload) - int len)"
proof -
  let ?k = "drop (h_prefixLength n) key" and ?m = "h_count n"
  note lay = HashNode_invD(1) [OF inv] and sp = hashSpace_bounds [OF inv] and d = HashNode_invD(3) [OF inv]
  have mem: "?k \<in> fst ` set (hEntries n)"
    using old hash_content_truncated(1) [OF lay cov] by (simp add: map_of_eq_None_iff)
  from lay d obtain i where i: "i < ?m" "HashNode_getKey n i = ?k"
      "HashNode_findIndex n key (compute_hash env 0 ?k) = Some i"
    by (cases rule: findIndex_cases [where key = key]) (use mem in auto)
  let ?n1 = "HashNode_storeKeyValue i key payload (compute_hash env 0 ?k) n"
  have b: "i \<le> ?m" "i < h_hashCapacity n" "max ?m (Suc i) = ?m" using i(1) room by (auto simp: hashRoom_def)
  have fit: "length ?k + length payload + 20 + 6 * max ?m (Suc i) \<le> h_dataOffset n"
    "length ?k + length payload \<le> h_dataOffset n"
    using room b(3) by (simp_all add: hashRoom_def)
  note st = hash_store_facts [where h = "compute_hash env 0 ?k", OF lay b(2) fit(2) sp(1)]
  note sl = hashLayout_store [OF lay b(1,2) fit(1) sp(1) refl, unfolded b(3)]
  have "sub32 (length key) (h_prefixLength n) + length payload = length ?k + length payload"
    using covers_hashPrefix(1) [OF lay cov] hashPrefix_take(3) [OF lay] fit sp by (simp add: c_arith)
  then have n': "n' = ?n1\<lparr>h_count := h_count ?n1, h_sortedCount := h_sortedCount ?n1, h_spaceUsed := h_spaceUsed n\<rparr>"
    using i(3) st(2) fit sp by (simp add: n'_def HashNode_insertWithSpace_def c_arith)
  note same = sameHashPage_facts [OF sameHashPage_header [where n = ?n1 and c = "h_count ?n1"
        and s = "h_sortedCount ?n1" and u = "h_spaceUsed n"], folded n']
  have f: "h_count n' = ?m" "h_lowerFenceLen n' = h_lowerFenceLen n" "h_upperFenceLen n' = h_upperFenceLen n"
    by (simp_all add: n')
  show u: "h_spaceUsed n' = h_spaceUsed n" by (simp add: n')
  have es: "hEntries n' = (hEntries n)[i := (?k, payload)]"
    unfolding hEntries_def f(1) same(7) using sl(2) i(1) by simp
  have "fst (hEntries n ! i) = ?k" "length (snd (hEntries n ! i)) = len"
    using i HashNode_invD(6) [OF inv nth_mem, of i] by (simp_all add: nth_hEntries)
  then have "int (esize (hEntries n')) = int (esize (hEntries n)) + int (length payload) - int len"
    using esize_update_int [of i "hEntries n" ?k payload] i(1) unfolding es by simp
  then show "int (h_lowerFenceLen n' + h_upperFenceLen n' + esize (hEntries n')) =
      int (h_spaceUsed n') + (int (length payload) - int len)"
    unfolding f u using sp(3) by simp
qed

text \<open>An insert of a key that a hash leaf already holds replaces its entry but leaves
  \<open>spaceUsed\<close> as it was, so with a payload of another length the counter no longer is the size of
  fences and entries: it is off by the difference of the two lengths.\<close>

theorem HashNode_overwrite_spaceUsed:
  assumes inv: "HashNode_inv env len n" and cov: "HashNode_covers n key" and old: "HashNode_content n key \<noteq> None"
    and room: "hashRoom n (length (drop (h_prefixLength n) key) + length payload)"
  defines "n' \<equiv> HashNode_insertWithSpace env key payload n"
  shows "h_spaceUsed n' = h_spaceUsed n \<and>
    int (h_lowerFenceLen n' + h_upperFenceLen n' + esize (hEntries n')) =
      int (h_spaceUsed n') + (int (length payload) - int len)"
  using hash_overwrite [OF inv cov old room] by (simp add: n'_def)

theorem HashNode_overwrite_spaceUsed_witness:
  "\<forall>env. let n = HashNode_insertWithSpace env [1] [10] demoHash;
      n' = HashNode_insertWithSpace env [1] (replicate 50 10) n
    in h_spaceUsed n' + 49 = h_lowerFenceLen n' + h_upperFenceLen n' + esize (hEntries n')"
proof
  fix env
  let ?n = "HashNode_insertWithSpace env [1] [10] demoHash"
  let ?n' = "HashNode_insertWithSpace env [1] (replicate 50 10) ?n"
  note p = demoHash_put [of "[1]" "[10]", simplified, of env]
  have room: "hashRoom ?n (length (drop (h_prefixLength ?n) [1]) + length (replicate 50 (10 :: byte)))"
  proof -
    have "HashNode_findIndex demoHash [1] (compute_hash env 0 [1]) = None"
      using findIndex_None [of env demoHash "[1]"] demoHash_facts HashNode_invD(1) [OF demoHash_facts(1)]
      by (simp add: hEntries_def hEntriesUpto_def)
    then show ?thesis
      by (simp add: hashRoom_def HashNode_insertWithSpace_def HashNode_storeKeyValue_def HashNode_setHash_def
          Let_def demoHash_facts(4-7) c_arith)
  qed
  have "HashNode_content ?n [1] \<noteq> None" using p(4) by (simp add: HashNode_content_def)
  from HashNode_overwrite_spaceUsed [OF p(2,3) this room]
  have "int (h_lowerFenceLen ?n' + h_upperFenceLen ?n' + esize (hEntries ?n')) = int (h_spaceUsed ?n' + 49)"
    by simp
  then show "let n = ?n; n' = HashNode_insertWithSpace env [1] (replicate 50 10) n
    in h_spaceUsed n' + 49 = h_lowerFenceLen n' + h_upperFenceLen n' + esize (hEntries n')"
    unfolding Let_def of_nat_eq_iff by simp
qed

subsection \<open>Sorting\<close>

text \<open>C29: sorting a hash leaf keeps its invariant, its fences and its entries as a multiset, hash
  bytes included, and brings all slots into key order.\<close>

theorem HashNode_sort_spec:
  assumes "HashNode_inv env len n"
  shows "HashNode_inv env len (HashNode_sort env n) \<and>
    h_sortedCount (HashNode_sort env n) = h_count n \<and>
    mset (hFullEntries (HashNode_sort env n)) = mset (hFullEntries n) \<and>
    sorted_wrt (<) (map fst (hFullEntries (HashNode_sort env n))) \<and>
    HashNode_covers (HashNode_sort env n) = HashNode_covers n"
  using hash_sort_correct [OF assms] by (simp add: hFullEntries_keys sorted_wrt_map)

theorem HashNode_sort_spec_witness:
  "\<forall>env. mset (hFullEntries (HashNode_sort env (HashNode_insertWithSpace env [1] [10] demoHash))) = {#([1], [10])#}"
proof
  fix env
  note p = demoHash_put [of "[1]" "[10]", simplified, of env]
  from HashNode_sort_spec [OF p(2)] p(4)
  show "mset (hFullEntries (HashNode_sort env (HashNode_insertWithSpace env [1] [10] demoHash))) = {#([1], [10])#}"
    by simp
qed

subsection \<open>Range lookups\<close>

text \<open>The entries in key order.\<close>

definition orderedEntries :: "entry list \<Rightarrow> entry list" where
  "orderedEntries es = sort_key fst es"

lemma orderedEntries_eq:
  assumes "mset es' = mset es" "sorted_wrt (<) (map fst es')"
  shows "orderedEntries es = es'"
proof -
  have "distinct (map fst es')" "sorted (map fst es')" using assms(2) strict_sorted_iff by blast+
  then have "inj_on fst (set es)" using mset_eq_setD [OF assms(1)] by (simp add: distinct_map)
  with \<open>sorted (map fst es')\<close> assms(1) show ?thesis
    unfolding orderedEntries_def by (intro sort_key_inj_key_eq) simp_all
qed

lemma hash_sorted_full:
  assumes "HashNode_inv env len n" "sorted_wrt (<) (map fst (hEntries n))"
  shows "sorted_wrt (<) (map fst (hFullEntries n))"
  using assms(2) by (simp add: hFullEntries_keys sorted_wrt_map)

text \<open>C30: when the key buffer starts with the prefix of a hash leaf, an ascending range lookup hands
  the callback exactly the entries not smaller than the start key, in key order, until it says stop,
  whether the leaf is sorted in place or converted to a basic leaf first; the leaf that results holds
  the same entries.\<close>

theorem HashNode_range_lookup_spec:
  assumes inv: "HashNode_inv env len n" and cov: "HashNode_covers n key"
    and buf: "load keyOut 0 (h_prefixLength n) = HashNode_getPrefix n"
    and res: "HashNode_range_lookup cfg env (Some key) cb n r keyOut s = ((c, keyOut', s'), leaf, r')"
  shows "(c, s') = scan cb (filter (\<lambda>(k, v). key \<le> k) (orderedEntries (hFullEntries n))) s \<and>
    load keyOut' 0 (h_prefixLength n) = HashNode_getPrefix n \<and>
    (case leaf of
       Inl b \<Rightarrow> leafInv b \<and> mset (fullEntries b) = mset (hFullEntries n)
     | Inr n' \<Rightarrow> HashNode_inv env len n' \<and> mset (hFullEntries n') = mset (hFullEntries n))"
proof -
  obtain convert roc r1 where ro: "range_op cfg (h_roc n) r = (convert, roc, r1)" by (metis prod_cases3)
  let ?n = "n\<lparr>h_roc := roc\<rparr>"
  note same = HashNode_inv_roc [OF inv, of roc]
  show ?thesis
  proof (cases "if convert then HashNode_tryConvertToBasic env ?n else None")
    case (Some b)
    then have conv: "HashNode_tryConvertToBasic env ?n = Some b" by (simp split: if_splits)
    note t = hash_tryConvertToBasic_correct [OF same(1) conv]
    obtain b' r2 where rl: "BTreeNode_range_lookup cfg (Some key) cb b r1 keyOut s = ((c, keyOut', s'), b', r2)"
      "leaf = Inl b'"
      using res Some ro by (auto simp: HashNode_range_lookup_def Let_def split: prod.splits)
    have "BTreeNode_covers b key" "load keyOut 0 (b_prefixLength b) = BTreeNode_getPrefix b"
      using cov buf t same by simp_all
    note bs = range_lookup_scan [OF t(1) this rl(1)]
    have "BTreeNode_inv b" using t(1) by (simp add: leafInv_def)
    then have "orderedEntries (hFullEntries n) = fullEntries b"
      using orderedEntries_eq t(2) inv_facts(2) same(3) by metis
    with bs t rl(2) same show ?thesis by simp
  next
    case None
    let ?s = "HashNode_sort env ?n"
    note sc = hash_sort_correct [OF same(1)]
    obtain i found where lb: "HashNode_lowerBound ?s key = (i, found)" by force
    have cov': "HashNode_covers ?s key" using cov sc(2) same(4) by simp
    note l = hash_lowerBound_correct [OF sc(1) cov' sc(4) lb]
    have loop: "HashNode_range_loop ?s cb i keyOut s = (c, keyOut', s')" and leaf: "leaf = Inr ?s"
      using res None ro lb by (auto simp: HashNode_range_lookup_def Let_def)
    have "load keyOut 0 (h_prefixLength ?s) = HashNode_getPrefix ?s" using buf sc(9,10) same(5) by simp
    note sn = hash_range_loop_scan [OF this loop]
    have "orderedEntries (hFullEntries n) = hFullEntries ?s"
      using orderedEntries_eq [OF sc(3) l(3)] same(3) by simp
    with sn sc leaf same filter_ge_lower_bound [OF l(1)] show ?thesis by simp
  qed
qed

theorem HashNode_range_lookup_spec_witness:
  "\<forall>env. \<exists>keyOut' leaf r'. HashNode_range_lookup default_config env (Some [0]) (\<lambda>k v s. (True, s @ [k]))
      (HashNode_insertWithSpace env [1] [10] demoHash) 42 (\<lambda>_. 0) [] = ((True, keyOut', [[1]]), leaf, r')"
proof
  fix env
  let ?n = "HashNode_insertWithSpace env [1] [10] demoHash"
  let ?cb = "\<lambda>k v s. (True, s @ [k]) :: bool \<times> bytes list"
  note p = demoHash_put [of "[1]" "[10]", simplified, of env]
  obtain c k' s' leaf r' where r: "HashNode_range_lookup default_config env (Some [0]) ?cb ?n 42 (\<lambda>_. 0) [] =
      ((c, k', s'), leaf, r')" by (metis prod_cases3)
  have "h_prefixLength ?n = 0"
    by (simp add: HashNode_insertWithSpace_def Let_def demoHash_facts(7) split: option.split)
  then have "load (\<lambda>_. 0) 0 (h_prefixLength ?n) = HashNode_getPrefix ?n"
    by (simp add: HashNode_getPrefix_def)
  from HashNode_range_lookup_spec [OF p(2,3) this r]
  have "(c, s') = (True, [[1]])" by (simp add: p(4) orderedEntries_def)
  with r show "\<exists>keyOut' leaf r'. HashNode_range_lookup default_config env (Some [0]) ?cb ?n 42 (\<lambda>_. 0) [] =
      ((True, keyOut', [[1]]), leaf, r')" by auto
qed

end
