(* ===== verification/DenseNodeKeys.thy ===== *)
theory DenseNodeKeys
  imports DenseNode
begin

text \<open>
  The keys of a dense leaf: the numeric part of a key is the big-endian value of its last four
  bytes, and restoring a key from its index and taking the index of a key are inverse.
\<close>

subsection \<open>Big-endian values\<close>

lemma word32_mod: "(word_of_nat a :: 32 word) = word_of_nat b" if "a mod 256 ^ 4 = b mod 256 ^ 4"
  using that by (simp add: word_of_nat_eq_iff take_bit_eq_mod)

subsection \<open>The numeric part as a number\<close>

lemma loadUnaligned16_take: "2 \<le> n \<Longrightarrow> loadUnaligned16 (take n xs) = loadUnaligned16 xs"
  by (simp add: loadUnaligned16_def min_absorb1)

lemma be_pad_take_ge: "n \<le> m \<Longrightarrow> be_pad n (take m xs) = be_pad n xs"
  by (metis be_pad_take min_absorb1 take_take)

text \<open>The bytes the code loads, without the shift: the big-endian value of the last four bytes of a
  string, or of all of it when it is shorter.\<close>

lemma ucast_or_shift8:
  assumes "m < 65536"
  shows "or (push_bit 8 (ucast (word_of_nat m :: 16 word))) (ucast (b :: byte)) = (word_of_nat (m * 256 + unat b) :: 32 word)"
proof -
  have u: "(ucast (word_of_nat m :: 16 word) :: 32 word) = word_of_nat m" by (rule ucast_of_nat16 [OF assms])
  have "\<not> bit (push_bit 8 (word_of_nat m) :: 32 word) n \<or> \<not> bit (ucast b :: 32 word) n" for n
    by (auto simp: bit_push_bit_iff bit_ucast_iff dest: bit_imp_le_length)
  then have "or (push_bit 8 (word_of_nat m)) (ucast b) = push_bit 8 (word_of_nat m) + (ucast b :: 32 word)"
    by (rule disjunctive_add [symmetric])
  also have "\<dots> = word_of_nat (m * 2 ^ 8) + word_of_nat (unat b)"
    by (simp only: push_bit_of_nat ucast_eq_of_nat)
  finally show ?thesis by (simp add: u)
qed

definition lastFour :: "bytes \<Rightarrow> 32 word" where
  "lastFour K =
     (if length K = 0 then 0
      else if length K = 1 then ucast (K ! 0)
      else if length K = 2 then ucast (bswap16 (loadUnaligned16 K))
      else if length K = 3 then or (push_bit 8 (ucast (bswap16 (loadUnaligned16 K)))) (ucast (K ! 2))
      else bswap32 (loadUnaligned32 (drop (length K - 4) K)))"

lemma lastFour_value: "lastFour K = word_of_nat (be_pad (min 4 (length K)) (drop (length K - 4) K))"
proof (cases K rule: list_cases4)
  case (3 a b)
  then have "min 4 (length K) = 2" "drop (length K - 4) K = [a, b]" by simp_all
  moreover have "lastFour K = word_of_nat (be_pad 2 [a, b])"
    using 3 be_pad_less [of 2 "[a, b]"]
    by (simp add: lastFour_def bswap16_load ucast_of_nat16 del: be_pad.simps be_pad_numeral)
  ultimately show ?thesis by simp
next
  case (4 a b c)
  have m: "be_pad 2 [a, b, c] < 65536" using be_pad_less [of 2 "[a, b, c]"] by simp
  have "lastFour K = word_of_nat (be_pad 2 [a, b, c] * 256 + unat c)"
    using 4 by (simp add: lastFour_def bswap16_load ucast_or_shift8 [OF m] del: be_pad.simps be_pad_numeral)
  also have "be_pad 2 [a, b, c] * 256 + unat c = be_pad 3 [a, b, c]" by simp
  finally show ?thesis using 4 by simp
next
  case (5 a b c d ys)
  then have "4 \<le> length (drop (length K - 4) K)" by simp
  with 5 have "lastFour K = word_of_nat (be_pad 4 (drop (length K - 4) K))"
    by (simp add: lastFour_def bswap32_load del: be_pad.simps be_pad_numeral)
  moreover have "min 4 (length K) = 4" using 5 by simp
  ultimately show ?thesis by simp
qed (auto simp: lastFour_def)

lemma getNumericPart_take:
  "getNumericPart key target =
    (let K = take target key
     in if length K + sizeof_NumericPart \<le> target then 0 else push_bit (8 * (target - length K)) (lastFour K))"
proof -
  let ?K = "take target key" and ?len = "min (length key) target"
  have len: "length ?K = ?len" by simp
  have x: "(if ?len = 0 then 0
               else if ?len = 1 then ucast (key ! 0)
               else if ?len = 2 then ucast (bswap16 (loadUnaligned16 key))
               else if ?len = 3 then or (push_bit 8 (ucast (bswap16 (loadUnaligned16 key)))) (ucast (key ! 2))
               else bswap32 (loadUnaligned32 (drop (?len - 4) key))) = lastFour ?K"
  proof -
    have "loadUnaligned32 (drop (?len - 4) ?K) = loadUnaligned32 (drop (?len - 4) key)" if "4 \<le> ?len"
    proof -
      have "take 4 (drop (?len - 4) ?K) = take 4 (drop (?len - 4) key)"
      proof -
        have "4 \<le> target - (?len - 4)" using that by simp
        then show ?thesis by (simp only: drop_take take_take min_absorb1)
      qed
      then show ?thesis by (simp only: loadUnaligned32_def)
    qed
    moreover obtain L where L: "?len = L" by simp
    moreover from L have "L \<le> target" by auto
    ultimately show ?thesis
      unfolding lastFour_def len L by (auto simp: loadUnaligned16_take)
  qed
  show ?thesis unfolding getNumericPart_def Let_def x len ..
qed

text \<open>The numeric part of a key of any length: its bytes from \<open>fullKeyLen - 4\<close> on, zero-padded.\<close>

lemma getNumericPart_value:
  "getNumericPart key full =
    word_of_nat (be_pad (computeNumericPartLen full) (drop (computeNumericPrefixLength full) key))"
proof -
  let ?K = "take full key" and ?np = "computeNumericPartLen full"
  let ?len = "length ?K" and ?d = "full - length (take full key)"
  have np: "?np = min 4 full" "computeNumericPrefixLength full = full - 4"
    by (auto simp: computeNumericPartLen_def computeNumericPrefixLength_def sizeof_NumericPart_def)
  have rhs: "be_pad ?np (drop (full - 4) key) = be_pad ?np (drop (full - 4) ?K)"
    by (simp add: drop_take np(1) be_pad_take_ge)
  show ?thesis
  proof (cases "?len + 4 \<le> full")
    case True
    then have "drop (full - 4) ?K = []" by simp
    moreover have "length key + 4 \<le> full" using True by (simp add: min_def split: if_splits)
    ultimately show ?thesis unfolding np(2) rhs by (simp add: getNumericPart_take Let_def sizeof_NumericPart_def)
  next
    case False
    let ?m = "min 4 ?len" and ?xs = "drop (?len - 4) ?K"
    have lx: "length ?xs = ?m" by simp
    have le: "?len \<le> full" by simp
    have "getNumericPart key full = push_bit (8 * ?d) (word_of_nat (be_pad ?m ?xs))"
      using False by (simp only: getNumericPart_take Let_def sizeof_NumericPart_def lastFour_value if_False)
    also have "\<dots> = word_of_nat (be_pad ?m ?xs * 256 ^ ?d)"
      unfolding push_bit_of_nat power_mult by simp
    also have "(be_pad ?m ?xs * 256 ^ ?d) mod 256 ^ 4 = be_pad ?np (drop (full - 4) ?K) mod 256 ^ 4"
    proof (cases "4 \<le> full")
      case full4: True
      have d: "?d = (4 - ?m) + (full - 4 - (?len - 4))" using False le full4 by linarith
      have "?m + (4 - ?m) = 4" by (rule le_add_diff_inverse) simp
      then have app: "be_pad 4 ?xs = be_pad ?m ?xs * 256 ^ (4 - ?m)"
        using be_pad_append_zero [of ?xs ?m "4 - ?m"] lx by (simp only: order_refl)
      have "be_pad ?m ?xs * 256 ^ ?d = be_pad 4 ?xs * 256 ^ (full - 4 - (?len - 4))"
        unfolding app by (subst d) (simp only: power_add mult.assoc)
      also have "\<dots> mod 256 ^ 4 = be_pad 4 (drop (full - 4 - (?len - 4)) ?xs)"
        by (rule be_pad_shift) (simp only: lx)
      also have "drop (full - 4 - (?len - 4)) ?xs = drop (full - 4) ?K"
      proof -
        have "full - 4 - (?len - 4) + (?len - 4) = full - 4" using le by linarith
        then show ?thesis by (simp only: drop_drop)
      qed
      finally show ?thesis using full4 by (simp add: np(1) be_pad_less)
    next
      case False
      then have "?xs = ?K" "?m = ?len" "?np = ?len + ?d" using le by (auto simp: np)
      then show ?thesis using be_pad_append_zero [of ?K ?len ?d] False by simp
    qed
    then have "(word_of_nat (be_pad ?m ?xs * 256 ^ ?d) :: 32 word) = word_of_nat (be_pad ?np (drop (full - 4) ?K))"
      by (rule word32_mod)
    finally show ?thesis unfolding np(2) rhs .
  qed
qed

subsection \<open>Numeric parts as bytes\<close>

lemma numericBytes_eq:
  assumes "len \<le> 4"
  shows "numericBytes len x = rev (le_encode len (unat x))"
proof -
  let ?bs = "rev (le_encode 4 (unat x))"
  have "le_encode 4 (unat (bswap32 x)) = ?bs"
    using le_decode_less [of ?bs] le_encode_decode [of 4 ?bs] by (simp add: bswap32_def unat_of_nat)
  moreover have "drop (4 - len) ?bs = rev (take len (le_encode 4 (unat x)))"
    using assms by (simp add: rev_take)
  ultimately show ?thesis using assms by (simp add: numericBytes_def sizeof_NumericPart_def take_le_encode)
qed

lemma length_numericBytes [simp]: "len \<le> 4 \<Longrightarrow> length (numericBytes len x) = len"
  by (simp add: numericBytes_eq)

lemma be_pad_numericBytes: "len \<le> 4 \<Longrightarrow> be_pad len (numericBytes len x) = unat x mod 256 ^ len"
  using be_pad_snoc_le_decode [of "numericBytes len x"] by (simp add: numericBytes_eq le_decode_encode_mod)

lemma numericBytes_be_pad:
  assumes "length xs = len" "len \<le> 4"
  shows "numericBytes len (word_of_nat (be_pad len xs)) = xs"
proof (rule be_pad_inj)
  have "(256 :: nat) ^ len \<le> 256 ^ 4" using assms(2) by (intro power_increasing) simp_all
  then have "be_pad len xs < 4294967296" using be_pad_less [of len xs] by simp
  then have "unat (word_of_nat (be_pad len xs) :: 32 word) = be_pad len xs" by (simp add: unat_of_nat)
  then show "be_pad len (numericBytes len (word_of_nat (be_pad len xs))) = be_pad len xs"
    using be_pad_less [of len xs] by (simp add: be_pad_numericBytes assms(2))
qed (use assms in simp_all)

subsection \<open>The first numeric part above a fence\<close>

lemma computeNumeric_facts:
  "computeNumericPartLen full \<le> 4" "computeNumericPartLen full + computeNumericPrefixLength full = full"
  "computeNumericPrefixLength full = full - 4" "0 < full \<Longrightarrow> 0 < computeNumericPartLen full"
  by (auto simp: computeNumericPartLen_def computeNumericPrefixLength_def sizeof_NumericPart_def)

lemma leastGreaterKey_value:
  "leastGreaterKey key full = word_of_nat
    (be_pad (computeNumericPartLen full) (drop (computeNumericPrefixLength full) key) + of_bool (full \<le> length key))"
  by (simp add: leastGreaterKey_def getNumericPart_value)

text \<open>A key above a fence that agrees with it up to the numeric part has a larger numeric part.\<close>

lemma above_fence_numeric:
  fixes lo key :: bytes
  assumes same: "take fp key = take fp lo" and fp: "fp \<le> length lo" and full: "0 < np"
    and len: "fp + np \<le> length lo \<Longrightarrow> length key \<le> fp + np" and lt: "lo = [] \<or> lo < key"
  shows "be_pad np (drop fp lo) + of_bool (fp + np \<le> length lo) \<le> be_pad np (drop fp key)"
proof (cases "lo = []")
  case True
  then show ?thesis using fp full by simp
next
  case False
  then have "take fp lo @ drop fp lo < take fp lo @ drop fp key"
    using lt same by (metis append_take_drop_id)
  then have less: "drop fp lo < drop fp key" by (simp only: less_append_same)
  show ?thesis
  proof (cases "fp + np \<le> length lo")
    case False
    then show ?thesis using less by (simp add: be_pad_mono less_imp_le)
  next
    case True
    have k: "length (drop fp key) \<le> np" using len [OF True] by simp
    have "take np (drop fp lo) < drop fp key"
      using le_append1 [of "take np (drop fp lo)" "drop np (drop fp lo)"] less
      by (metis append_take_drop_id order_le_less_trans)
    moreover have "length (take np (drop fp lo)) = np" using True by simp
    ultimately have "be_pad np (take np (drop fp lo)) < be_pad np (drop fp key)"
      using be_pad_strict k by blast
    then show ?thesis using True by (simp add: be_pad_take)
  qed
qed

end
