(* ===== verification/DenseNodeMap.thy ===== *)
theory DenseNodeMap
  imports DenseNodeKeys BasicNodeMap
begin

text \<open>
  The dense leaf of type 1 as a finite map: its invariant, the key of a slot and the slot of a key
  as inverse functions, the presence mask and the values in memory, and lookup and remove.
\<close>

subsection \<open>Layout\<close>

definition DenseNode_covers :: "DenseNode \<Rightarrow> bytes \<Rightarrow> bool" where
  "DenseNode_covers n = inFences (DenseNode_getLowerFence n) (DenseNode_getUpperFence n)"

text \<open>The lengths of the numeric part and of what is before it.\<close>

abbreviation npLen :: "DenseNode \<Rightarrow> nat" where
  "npLen n \<equiv> computeNumericPartLen (d_fullKeyLen n)"

abbreviation nprefLen :: "DenseNode \<Rightarrow> nat" where
  "nprefLen n \<equiv> computeNumericPrefixLength (d_fullKeyLen n)"

definition denseFences :: "DenseNode \<Rightarrow> bool" where
  "denseFences n \<longleftrightarrow>
     d_lowerFenceLen n + max (d_upperFenceLen n) (d_fullKeyLen n) \<le> 4096 \<and>
     0 < d_fullKeyLen n \<and> nprefLen n \<le> d_lowerFenceLen n \<and>
     d_prefixLength n = lcp (DenseNode_getLowerFence n) (DenseNode_getUpperFence n) \<and>
     d_arrayStart n = leastGreaterKey (DenseNode_getLowerFence n) (d_fullKeyLen n)"

definition denseLayout :: "DenseNode \<Rightarrow> bool" where
  "denseLayout n \<longleftrightarrow>
     d_tag n = Tag_Dense \<and> denseFences n \<and>
     24 + 8 * DenseNode_maskWordCount n + d_slotCount n * d_valLen n \<le> DenseNode_fencesOffset n"

lemma length_dense_reads [simp]:
  "length (DenseNode_getLowerFence n) = d_lowerFenceLen n"
  "length (DenseNode_getUpperFence n) = d_upperFenceLen n"
  "length (DenseNode_getPrefix n) = d_prefixLength n"
  "length (DenseNode_getVal n i) = d_valLen n"
  by (simp_all add: DenseNode_getLowerFence_def DenseNode_getUpperFence_def DenseNode_getPrefix_def
      DenseNode_getVal_def)

lemma denseFences_bounds:
  assumes "denseFences n"
  shows "DenseNode_fencesOffset n = 4096 - (d_lowerFenceLen n + max (d_upperFenceLen n) (d_fullKeyLen n))"
    "d_lowerFenceLen n \<le> 4096" "DenseNode_fencesOffset n + d_upperFenceLen n \<le> 4096 - d_lowerFenceLen n"
    "d_prefixLength n \<le> d_lowerFenceLen n" "d_prefixLength n \<le> d_upperFenceLen n" "d_fullKeyLen n \<le> 4096"
proof -
  have b: "d_lowerFenceLen n + max (d_upperFenceLen n) (d_fullKeyLen n) \<le> 4096"
    using assms by (simp add: denseFences_def)
  show f: "DenseNode_fencesOffset n = 4096 - (d_lowerFenceLen n + max (d_upperFenceLen n) (d_fullKeyLen n))"
  proof -
    have "d_lowerFenceLen n \<le> 4096" "max (d_upperFenceLen n) (d_fullKeyLen n) \<le> 4096 - d_lowerFenceLen n"
      using b by linarith+
    then show ?thesis by (simp add: DenseNode_fencesOffset_def pageSizeLeaf_def c_arith)
  qed
  show "d_lowerFenceLen n \<le> 4096" "DenseNode_fencesOffset n + d_upperFenceLen n \<le> 4096 - d_lowerFenceLen n"
    "d_fullKeyLen n \<le> 4096"
    using b unfolding f by auto
  have "d_prefixLength n = lcp (DenseNode_getLowerFence n) (DenseNode_getUpperFence n)"
    using assms by (simp add: denseFences_def)
  then show "d_prefixLength n \<le> d_lowerFenceLen n" "d_prefixLength n \<le> d_upperFenceLen n"
    by (metis lcp_le1 length_dense_reads(1), metis lcp_le2 length_dense_reads(2))
qed

lemma densePrefix_take:
  assumes "denseFences n"
  shows "DenseNode_getPrefix n = take (d_prefixLength n) (DenseNode_getLowerFence n)"
  using denseFences_bounds(4) [OF assms]
  by (simp add: DenseNode_getPrefix_def DenseNode_getLowerFence_def min_absorb1)

lemma covers_densePrefix:
  assumes "denseFences n" "DenseNode_covers n key"
  shows "d_prefixLength n \<le> length key" "take (d_prefixLength n) key = take (d_prefixLength n) (DenseNode_getLowerFence n)"
  using inFences_prefix [OF assms(2) [unfolded DenseNode_covers_def]] assms(1) by (simp_all add: denseFences_def)

subsection \<open>The key of a slot\<close>

definition DenseNode_key :: "DenseNode \<Rightarrow> nat \<Rightarrow> bytes" where
  "DenseNode_key n i = restoreNumericKey (d_arrayStart n) (d_fullKeyLen n) (DenseNode_getLowerFence n) i"

text \<open>No wrap-around between the start of the array and slot \<open>i\<close>.\<close>

definition slotInRange :: "DenseNode \<Rightarrow> nat \<Rightarrow> bool" where
  "slotInRange n i \<longleftrightarrow> unat (d_arrayStart n) + i < 256 ^ npLen n"

lemma DenseNode_key_eq:
  "DenseNode_key n i = take (nprefLen n) (DenseNode_getLowerFence n) @ numericBytes (npLen n) (d_arrayStart n + word_of_nat i)"
  by (simp add: DenseNode_key_def restoreNumericKey_def computeNumericPrefixLength_def Let_def)

lemma slotInRange_unat:
  assumes "slotInRange n i"
  shows "unat (d_arrayStart n + word_of_nat i) = unat (d_arrayStart n) + i" "i < 4294967296"
proof -
  have "(256 :: nat) ^ npLen n \<le> 256 ^ 4" by (intro power_increasing) (simp_all add: computeNumeric_facts)
  then have "unat (d_arrayStart n) + i < 4294967296" using assms by (simp add: slotInRange_def)
  then show "unat (d_arrayStart n + word_of_nat i) = unat (d_arrayStart n) + i" "i < 4294967296"
    by (simp_all add: unat_word_ariths unat_of_nat mod_simps)
qed

lemma DenseNode_key_facts:
  assumes f: "denseFences n"
  shows "length (DenseNode_key n i) = d_fullKeyLen n"
    "take (nprefLen n) (DenseNode_key n i) = take (nprefLen n) (DenseNode_getLowerFence n)"
    "drop (nprefLen n) (DenseNode_key n i) = numericBytes (npLen n) (d_arrayStart n + word_of_nat i)"
    "slotInRange n i \<Longrightarrow> be_pad (npLen n) (drop (nprefLen n) (DenseNode_key n i)) = unat (d_arrayStart n) + i"
    "getNumericPart (DenseNode_key n i) (d_fullKeyLen n) - d_arrayStart n = word_of_nat i \<or> \<not> slotInRange n i"
proof -
  note c = computeNumeric_facts(1,2) [of "d_fullKeyLen n"]
  have l: "length (take (nprefLen n) (DenseNode_getLowerFence n)) = nprefLen n"
    using f by (simp add: denseFences_def)
  show "length (DenseNode_key n i) = d_fullKeyLen n"
    using l c by (simp add: DenseNode_key_eq add.commute)
  show "take (nprefLen n) (DenseNode_key n i) = take (nprefLen n) (DenseNode_getLowerFence n)"
    using l by (simp add: DenseNode_key_eq)
  show d: "drop (nprefLen n) (DenseNode_key n i) = numericBytes (npLen n) (d_arrayStart n + word_of_nat i)"
    using l by (simp add: DenseNode_key_eq)
  show v: "be_pad (npLen n) (drop (nprefLen n) (DenseNode_key n i)) = unat (d_arrayStart n) + i"
    if "slotInRange n i" for i
    using that l c by (simp add: DenseNode_key_eq be_pad_numericBytes slotInRange_unat slotInRange_def)
  show "getNumericPart (DenseNode_key n i) (d_fullKeyLen n) - d_arrayStart n = word_of_nat i \<or> \<not> slotInRange n i"
    using v [of i] by (auto simp: getNumericPart_value)
qed

lemma DenseNode_key_less:
  assumes "denseFences n" "slotInRange n j" "i < j"
  shows "DenseNode_key n i < DenseNode_key n j"
proof -
  have i: "slotInRange n i" using assms(2,3) by (simp add: slotInRange_def)
  have "drop (nprefLen n) (DenseNode_key n i) < drop (nprefLen n) (DenseNode_key n j)"
    by (rule be_pad_less_imp [where n = "npLen n"])
      (simp only: DenseNode_key_facts(4) [OF assms(1)] i assms(2) add_less_cancel_left assms(3))
  then have "take (nprefLen n) (DenseNode_key n j) @ drop (nprefLen n) (DenseNode_key n i) <
      take (nprefLen n) (DenseNode_key n j) @ drop (nprefLen n) (DenseNode_key n j)"
    by (simp only: less_append_same)
  then show ?thesis
    using DenseNode_key_facts(2) [OF assms(1), of i] DenseNode_key_facts(2) [OF assms(1), of j]
    by (metis append_take_drop_id)
qed

lemma DenseNode_key_eq_iff:
  assumes "denseFences n" "slotInRange n i" "slotInRange n j"
  shows "DenseNode_key n i = DenseNode_key n j \<longleftrightarrow> i = j"
  using DenseNode_key_less [OF assms(1,2)] DenseNode_key_less [OF assms(1,3)]
  by (metis less_irrefl linorder_neqE_nat)

subsection \<open>The slot of a key\<close>

lemma covered_numeric:
  assumes f: "denseFences n" and cov: "DenseNode_covers n key"
    and same: "take (nprefLen n) key = take (nprefLen n) (DenseNode_getLowerFence n)"
    and len: "length key \<le> d_fullKeyLen n"
  shows "unat (d_arrayStart n) \<le> be_pad (npLen n) (drop (nprefLen n) key)"
proof -
  let ?lo = "DenseNode_getLowerFence n" and ?np = "npLen n" and ?fp = "nprefLen n"
  let ?v = "be_pad ?np (drop ?fp ?lo) + of_bool (d_fullKeyLen n \<le> length ?lo)"
  note c = computeNumeric_facts [of "d_fullKeyLen n"]
  have start: "d_arrayStart n = word_of_nat ?v"
    using f leastGreaterKey_value by (simp only: denseFences_def)
  have "be_pad ?np (drop ?fp ?lo) + of_bool (?fp + ?np \<le> length ?lo) \<le> be_pad ?np (drop ?fp key)"
  proof (rule above_fence_numeric [OF same])
    show "?fp \<le> length ?lo" "0 < ?np" using f c by (simp_all add: denseFences_def)
    show "length key \<le> ?fp + ?np" using len c(2) by (simp add: add.commute)
    show "?lo = [] \<or> ?lo < key" using cov by (auto simp: DenseNode_covers_def inFences_def)
  qed
  then have "?v \<le> be_pad ?np (drop ?fp key)" using c(2) by (simp only: add.commute)
  moreover have "unat (d_arrayStart n) \<le> ?v" unfolding start unat_of_nat by (rule mod_less_eq_dividend)
  ultimately show ?thesis by simp
qed

lemma covered_key:
  assumes f: "denseFences n" and cov: "DenseNode_covers n key" and len: "length key = d_fullKeyLen n"
    and same: "take (nprefLen n) key = take (nprefLen n) (DenseNode_getLowerFence n)"
  defines "i \<equiv> unat (getNumericPart key (d_fullKeyLen n) - d_arrayStart n)"
  shows "key = DenseNode_key n i" "slotInRange n i"
proof -
  let ?np = "npLen n" and ?fp = "nprefLen n" and ?b = "be_pad (npLen n) (drop (nprefLen n) key)"
  note c = computeNumeric_facts [of "d_fullKeyLen n"]
  have le: "unat (d_arrayStart n) \<le> ?b" using covered_numeric [OF f cov same] len by simp
  have less: "?b < 256 ^ ?np" by (rule be_pad_less)
  have "(256 :: nat) ^ ?np \<le> 256 ^ 4" by (intro power_increasing) (simp_all add: c)
  with less have b: "unat (word_of_nat ?b :: 32 word) = ?b" by (simp add: unat_of_nat)
  then have i: "i = ?b - unat (d_arrayStart n)"
    using le by (simp add: i_def getNumericPart_value unat_sub_if_size)
  with le less show r: "slotInRange n i" by (simp add: slotInRange_def)
  have "d_arrayStart n + word_of_nat i = word_of_nat ?b"
    by (rule unsigned_word_eqI) (use slotInRange_unat(1) [OF r] le i b in simp)
  then have "numericBytes ?np (d_arrayStart n + word_of_nat i) = numericBytes ?np (word_of_nat ?b)" by simp
  also have "\<dots> = drop ?fp key"
    using numericBytes_be_pad [of "drop ?fp key" ?np] len c(1,2) by (metis add_diff_cancel_right' length_drop)
  finally have "drop ?fp key = numericBytes ?np (d_arrayStart n + word_of_nat i)" by simp
  then show "key = DenseNode_key n i" unfolding DenseNode_key_eq same [symmetric] by (metis append_take_drop_id)
qed

text \<open>The bytes between the prefix and the numeric part, which \<open>keyToIndex\<close> compares.\<close>

lemma mid_bytes:
  assumes f: "denseFences n" and p: "d_prefixLength n \<le> nprefLen n"
  shows "load (d_heap n) (pageSizeLeaf - d_lowerFenceLen n + d_prefixLength n) (nprefLen n - d_prefixLength n) =
    drop (d_prefixLength n) (take (nprefLen n) (DenseNode_getLowerFence n))"
  using f p by (simp add: DenseNode_getLowerFence_def denseFences_def min_absorb1)

lemma keyToIndex_key:
  assumes f: "denseFences n" and i: "slotInRange n i" "i < d_slotCount n"
  shows "DenseNode_keyToIndex n (DenseNode_key n i) = Index i"
proof -
  let ?key = "DenseNode_key n i" and ?p = "d_prefixLength n" and ?full = "d_fullKeyLen n"
  note k = DenseNode_key_facts [OF f, of i] and c = computeNumeric_facts [of ?full]
  have "load (d_heap n) (pageSizeLeaf - d_lowerFenceLen n + ?p) (?full - 4 - ?p) = take (?full - 4 - ?p) (drop ?p ?key)"
    if "?p + 4 < ?full"
  proof -
    have "?p \<le> nprefLen n" using that c(3) by simp
    from mid_bytes [OF f this] arg_cong [OF k(2), of "drop ?p"] show ?thesis by (simp add: c(3) drop_take)
  qed
  moreover have "unat (getNumericPart ?key ?full - d_arrayStart n) = i"
    using k(5) i(1) slotInRange_unat(2) [OF i(1)] by (simp add: unat_of_nat)
  ultimately show ?thesis
    using k(1) i(2) by (simp add: DenseNode_keyToIndex_def sizeof_NumericPart_def Let_def)
qed

lemma keyToIndex_covered:
  assumes f: "denseFences n" and cov: "DenseNode_covers n key" and ix: "DenseNode_keyToIndex n key = Index i"
  shows "key = DenseNode_key n i" "slotInRange n i" "i < d_slotCount n"
proof -
  let ?p = "d_prefixLength n" and ?full = "d_fullKeyLen n" and ?lo = "DenseNode_getLowerFence n"
  note c = computeNumeric_facts [of ?full] and pre = covers_densePrefix [OF f cov]
  from ix have len: "length key = ?full" and i: "i = unat (getNumericPart key ?full - d_arrayStart n)" "i < d_slotCount n"
    and cmp: "?p + 4 < ?full \<Longrightarrow> load (d_heap n) (pageSizeLeaf - d_lowerFenceLen n + ?p) (?full - 4 - ?p) =
      take (?full - 4 - ?p) (drop ?p key)"
    by (simp_all add: DenseNode_keyToIndex_def sizeof_NumericPart_def Let_def split: if_split_asm)
  have same: "take (nprefLen n) key = take (nprefLen n) ?lo"
  proof (cases "?p \<le> nprefLen n \<and> ?p + 4 < ?full")
    case True
    have "take ?p (take (nprefLen n) key) = take ?p (take (nprefLen n) ?lo)"
      using pre(2) True by (simp add: min_absorb1)
    moreover have "drop ?p (take (nprefLen n) key) = drop ?p (take (nprefLen n) ?lo)"
      using cmp mid_bytes [OF f] True by (simp add: c(3) drop_take)
    ultimately show ?thesis by (metis append_take_drop_id)
  next
    case False
    then have "nprefLen n \<le> ?p" using c(3) by auto
    then show ?thesis using arg_cong [OF pre(2), of "take (nprefLen n)"] by (simp add: min_absorb1)
  qed
  from covered_key [OF f cov len same] i
  show "key = DenseNode_key n i" "slotInRange n i" "i < d_slotCount n" by simp_all
qed

subsection \<open>The mask and the values in memory\<close>

lemma maskWord_less: "i < d_slotCount n \<Longrightarrow> i div 64 < DenseNode_maskWordCount n"
  by (simp add: DenseNode_maskWordCount_def maskBitsPerWord_def)

lemma mask_setMask:
  "DenseNode_mask (DenseNode_setMask w x n) v = (if v = w then x else DenseNode_mask n v)"
proof -
  have "le_decode (le_encode 8 (unat x)) = unat x"
    by (rule le_decode_encode) (use unsigned_less [of x] in simp)
  moreover have "load (store (d_heap n) (24 + w * 8) (le_encode 8 (unat x))) (24 + v * 8) 8 =
      load (d_heap n) (24 + v * 8) 8" if "v \<noteq> w"
    using that by (intro load_store_other) (cases "v < w", simp_all)
  ultimately show ?thesis
    by (simp add: DenseNode_mask_def DenseNode_setMask_def maskBytesPerWord_def offsetof_mask_def load_store_same)
qed

text \<open>A page that differs in the mask only.\<close>

definition sameButMask :: "DenseNode \<Rightarrow> DenseNode \<Rightarrow> bool" where
  "sameButMask n n' \<longleftrightarrow> (\<exists>h. n' = n\<lparr>d_heap := h\<rparr>) \<and>
     (\<forall>a len. 24 + 8 * DenseNode_maskWordCount n \<le> a \<longrightarrow> load (d_heap n') a len = load (d_heap n) a len)"

lemma sameButMask_setMask: "w < DenseNode_maskWordCount n \<Longrightarrow> sameButMask n (DenseNode_setMask w x n)"
  unfolding sameButMask_def
  by (auto simp: DenseNode_setMask_def maskBytesPerWord_def offsetof_mask_def intro!: exI load_store_other)

lemma sameButMask_fields:
  assumes "sameButMask n n'"
  shows "d_tag n' = d_tag n" "d_fullKeyLen n' = d_fullKeyLen n" "d_arrayStart n' = d_arrayStart n"
    "d_valLen n' = d_valLen n" "d_slotCount n' = d_slotCount n" "d_occupiedCount n' = d_occupiedCount n"
    "d_lowerFenceLen n' = d_lowerFenceLen n" "d_upperFenceLen n' = d_upperFenceLen n"
    "d_prefixLength n' = d_prefixLength n" "DenseNode_maskWordCount n' = DenseNode_maskWordCount n"
    "DenseNode_fencesOffset n' = DenseNode_fencesOffset n" "DenseNode_valOffset n' i = DenseNode_valOffset n i"
    "DenseNode_getVal n' i = DenseNode_getVal n i"
proof -
  from assms obtain h where n': "n' = n\<lparr>d_heap := h\<rparr>"
    and h: "\<And>a len. 24 + 8 * DenseNode_maskWordCount n \<le> a \<Longrightarrow> load h a len = load (d_heap n) a len"
    by (auto simp: sameButMask_def)
  show "d_tag n' = d_tag n" "d_fullKeyLen n' = d_fullKeyLen n" "d_arrayStart n' = d_arrayStart n"
    "d_valLen n' = d_valLen n" "d_slotCount n' = d_slotCount n" "d_occupiedCount n' = d_occupiedCount n"
    "d_lowerFenceLen n' = d_lowerFenceLen n" "d_upperFenceLen n' = d_upperFenceLen n"
    "d_prefixLength n' = d_prefixLength n" "DenseNode_maskWordCount n' = DenseNode_maskWordCount n"
    "DenseNode_fencesOffset n' = DenseNode_fencesOffset n" "DenseNode_valOffset n' i = DenseNode_valOffset n i"
    by (simp_all add: n' DenseNode_maskWordCount_def DenseNode_fencesOffset_def DenseNode_valOffset_def)
  then show "DenseNode_getVal n' i = DenseNode_getVal n i"
    using h [of "DenseNode_valOffset n i" "d_valLen n"]
    by (simp add: DenseNode_getVal_def n' DenseNode_valOffset_def maskBytesPerWord_def offsetof_mask_def)
qed

lemma sameButMask_fences:
  assumes "sameButMask n n'" "denseLayout n"
  shows "DenseNode_getLowerFence n' = DenseNode_getLowerFence n" "DenseNode_getUpperFence n' = DenseNode_getUpperFence n"
    "denseLayout n'" "DenseNode_key n' = DenseNode_key n" "DenseNode_covers n' = DenseNode_covers n"
proof -
  note s = sameButMask_fields [OF assms(1)]
  have f: "denseFences n" and lay: "24 + 8 * DenseNode_maskWordCount n + d_slotCount n * d_valLen n \<le> DenseNode_fencesOffset n"
    using assms(2) by (auto simp: denseLayout_def)
  note b = denseFences_bounds [OF f]
  have h: "load (d_heap n') a len = load (d_heap n) a len" if "24 + 8 * DenseNode_maskWordCount n \<le> a" for a len
    using assms(1) that by (auto simp: sameButMask_def)
  have "24 + 8 * DenseNode_maskWordCount n \<le> 4096 - d_lowerFenceLen n" using lay b(3) by linarith
  then show lo: "DenseNode_getLowerFence n' = DenseNode_getLowerFence n"
    by (simp add: DenseNode_getLowerFence_def s h pageSizeLeaf_def)
  show up: "DenseNode_getUpperFence n' = DenseNode_getUpperFence n"
    using lay by (simp add: DenseNode_getUpperFence_def s h)
  show "denseLayout n'" using assms(2) by (simp add: denseLayout_def denseFences_def lo up s)
  show "DenseNode_key n' = DenseNode_key n" by (simp add: DenseNode_key_def fun_eq_iff s lo)
  show "DenseNode_covers n' = DenseNode_covers n" by (simp add: DenseNode_covers_def lo up)
qed

lemma setSlotPresent_facts:
  assumes "i < d_slotCount n"
  shows "sameButMask n (DenseNode_setSlotPresent i n)" "sameButMask n (DenseNode_unsetSlotPresent i n)"
    "DenseNode_isSlotPresent (DenseNode_setSlotPresent i n) j \<longleftrightarrow> DenseNode_isSlotPresent n j \<or> j = i"
    "DenseNode_isSlotPresent (DenseNode_unsetSlotPresent i n) j \<longleftrightarrow> DenseNode_isSlotPresent n j \<and> j \<noteq> i"
proof -
  show "sameButMask n (DenseNode_setSlotPresent i n)" "sameButMask n (DenseNode_unsetSlotPresent i n)"
    using maskWord_less [OF assms]
    by (simp_all add: DenseNode_setSlotPresent_def DenseNode_unsetSlotPresent_def Let_def maskBitsPerWord_def
        sameButMask_setMask)
  have eq: "j = i \<longleftrightarrow> j div 64 = i div 64 \<and> j mod 64 = i mod 64" by (metis div_mult_mod_eq)
  show "DenseNode_isSlotPresent (DenseNode_setSlotPresent i n) j \<longleftrightarrow> DenseNode_isSlotPresent n j \<or> j = i"
    by (auto simp: DenseNode_isSlotPresent_def DenseNode_setSlotPresent_def Let_def mask_setMask maskBitsPerWord_def
        bit_or_iff bit_push_bit_iff bit_exp_iff possible_bit_word eq)
  show "DenseNode_isSlotPresent (DenseNode_unsetSlotPresent i n) j \<longleftrightarrow> DenseNode_isSlotPresent n j \<and> j \<noteq> i"
    by (auto simp: DenseNode_isSlotPresent_def DenseNode_unsetSlotPresent_def Let_def mask_setMask maskBitsPerWord_def
        bit_and_iff bit_not_iff bit_push_bit_iff bit_exp_iff possible_bit_word eq)
qed

subsection \<open>The invariant and the entries\<close>

definition densePresent :: "DenseNode \<Rightarrow> nat list" where
  "densePresent n = filter (DenseNode_isSlotPresent n) [0..<d_slotCount n]"

definition denseEntries :: "DenseNode \<Rightarrow> entry list" where
  "denseEntries n = map (\<lambda>i. (DenseNode_key n i, DenseNode_getVal n i)) (densePresent n)"

definition DenseNode_inv :: "DenseNode \<Rightarrow> bool" where
  "DenseNode_inv n \<longleftrightarrow> denseLayout n \<and> d_occupiedCount n = length (densePresent n) \<and>
     (\<forall>i<64 * DenseNode_maskWordCount n. DenseNode_isSlotPresent n i \<longrightarrow>
        i < d_slotCount n \<and> slotInRange n i \<and> DenseNode_covers n (DenseNode_key n i))"

definition DenseNode_content :: "DenseNode \<Rightarrow> leaf_content" where
  "DenseNode_content n = map_of (denseEntries n)"

lemma slotCount_maskWords: "d_slotCount n \<le> 64 * DenseNode_maskWordCount n"
proof -
  have "(c :: nat) \<le> 64 * ((c + 63) div 64)" for c by linarith
  then show ?thesis by (simp add: DenseNode_maskWordCount_def maskBitsPerWord_def)
qed

lemma DenseNode_invD:
  assumes "DenseNode_inv n"
  shows "denseLayout n" "denseFences n" "d_occupiedCount n = length (densePresent n)"
    "i < d_slotCount n \<Longrightarrow> DenseNode_isSlotPresent n i \<Longrightarrow> slotInRange n i \<and> DenseNode_covers n (DenseNode_key n i)"
    "d_occupiedCount n < 65535"
proof -
  show l: "denseLayout n" "denseFences n" "d_occupiedCount n = length (densePresent n)"
    using assms by (auto simp: DenseNode_inv_def denseLayout_def)
  show "i < d_slotCount n \<Longrightarrow> DenseNode_isSlotPresent n i \<Longrightarrow> slotInRange n i \<and> DenseNode_covers n (DenseNode_key n i)"
    using assms slotCount_maskWords [of n] by (auto simp: DenseNode_inv_def)
  have "length (densePresent n) \<le> d_slotCount n"
    unfolding densePresent_def using length_filter_le [of _ "[0..<d_slotCount n]"] by simp
  moreover have "8 * DenseNode_maskWordCount n \<le> 4096"
    using l(1) unfolding denseLayout_def denseFences_bounds(1) [OF l(2)] by linarith
  ultimately show "d_occupiedCount n < 65535" using l(3) slotCount_maskWords [of n] by linarith
qed

lemma densePresent_range:
  assumes "DenseNode_inv n" "i \<in> set (densePresent n)"
  shows "i < d_slotCount n" "DenseNode_isSlotPresent n i" "slotInRange n i" "DenseNode_covers n (DenseNode_key n i)"
  using assms(2) DenseNode_invD(4) [OF assms(1), of i] by (auto simp: densePresent_def)

lemma denseEntries_sorted:
  assumes "DenseNode_inv n"
  shows "sorted_wrt (<) (map fst (denseEntries n))"
proof -
  have "sorted_wrt (<) (densePresent n)"
    unfolding densePresent_def by (intro sorted_wrt_filter) (simp add: strict_sorted_iff)
  then have "sorted_wrt (\<lambda>i j. DenseNode_key n i < DenseNode_key n j) (densePresent n)"
    by (rule sorted_wrt_mono_rel [rotated])
      (use DenseNode_key_less DenseNode_invD(2) densePresent_range(3) assms in blast)
  then show ?thesis by (simp add: denseEntries_def sorted_wrt_map comp_def)
qed

lemma denseEntries_distinct: "DenseNode_inv n \<Longrightarrow> distinct (map fst (denseEntries n))"
  using denseEntries_sorted strict_sorted_iff by blast

lemma dense_content_Some:
  assumes "DenseNode_inv n"
  shows "DenseNode_content n key = Some v \<longleftrightarrow>
    (\<exists>i<d_slotCount n. DenseNode_isSlotPresent n i \<and> key = DenseNode_key n i \<and> v = DenseNode_getVal n i)"
  using denseEntries_distinct [OF assms]
  by (auto simp: DenseNode_content_def map_of_eq_Some_iff denseEntries_def densePresent_def)

lemma dense_content_key:
  assumes inv: "DenseNode_inv n" and i: "i < d_slotCount n" "slotInRange n i"
  shows "DenseNode_content n (DenseNode_key n i) =
    (if DenseNode_isSlotPresent n i then Some (DenseNode_getVal n i) else None)"
proof (cases "DenseNode_isSlotPresent n i")
  case True
  then have "DenseNode_content n (DenseNode_key n i) = Some (DenseNode_getVal n i)"
    using i dense_content_Some [OF inv] by blast
  with True show ?thesis by simp
next
  case False
  have "DenseNode_content n (DenseNode_key n i) \<noteq> Some v" for v
    using False DenseNode_invD(4) [OF inv] DenseNode_key_eq_iff [OF DenseNode_invD(2) [OF inv] i(2)]
    by (auto simp: dense_content_Some [OF inv])
  with False show ?thesis by (cases "DenseNode_content n (DenseNode_key n i)") auto
qed

lemma dense_content_outside:
  assumes inv: "DenseNode_inv n" and out: "\<And>i. DenseNode_keyToIndex n key \<noteq> Index i"
  shows "DenseNode_content n key = None"
proof (rule ccontr)
  assume "DenseNode_content n key \<noteq> None"
  then obtain i where i: "i < d_slotCount n" "DenseNode_isSlotPresent n i" "key = DenseNode_key n i"
    using dense_content_Some [OF inv] by blast
  with DenseNode_invD(4) [OF inv i(1,2)] keyToIndex_key [OF DenseNode_invD(2) [OF inv]] out show False by blast
qed

lemma dense_lookup_content:
  assumes inv: "DenseNode_inv n" and cov: "DenseNode_covers n key"
  shows "DenseNode_lookup key n = DenseNode_content n key"
proof -
  have tag: "d_tag n = Tag_Dense" using DenseNode_invD(1) [OF inv] by (simp add: denseLayout_def)
  show ?thesis
  proof (cases "DenseNode_keyToIndex n key")
    case (Index i)
    note k = keyToIndex_covered [OF DenseNode_invD(2) [OF inv] cov Index]
    show ?thesis using dense_content_key [OF inv k(3,2)] by (simp add: DenseNode_lookup_def Index tag k(1) [symmetric])
  qed (use dense_content_outside [OF inv, of key] in \<open>simp_all add: DenseNode_lookup_def\<close>)
qed

subsection \<open>Updates of one slot\<close>

text \<open>Another page over the same keys: fences, length of keys and values and number of slots agree.\<close>

definition sameSlots :: "DenseNode \<Rightarrow> DenseNode \<Rightarrow> bool" where
  "sameSlots n n' \<longleftrightarrow> denseLayout n' \<and> d_fullKeyLen n' = d_fullKeyLen n \<and> d_valLen n' = d_valLen n \<and>
     d_arrayStart n' = d_arrayStart n \<and> d_slotCount n' = d_slotCount n \<and>
     DenseNode_getLowerFence n' = DenseNode_getLowerFence n \<and>
     DenseNode_getUpperFence n' = DenseNode_getUpperFence n"

lemma sameSlots_facts:
  assumes "sameSlots n n'"
  shows "DenseNode_maskWordCount n' = DenseNode_maskWordCount n" "DenseNode_key n' = DenseNode_key n"
    "slotInRange n' = slotInRange n" "DenseNode_covers n' = DenseNode_covers n"
  using assms by (simp_all add: sameSlots_def DenseNode_maskWordCount_def DenseNode_key_def slotInRange_def
      DenseNode_covers_def fun_eq_iff)

lemma length_filter_insert:
  "i < m \<Longrightarrow> length (filter (\<lambda>j. P j \<or> j = i) [0..<m]) = length (filter P [0..<m]) + of_bool (\<not> P i)"
  "i < m \<Longrightarrow> length (filter (\<lambda>j. P j \<and> j \<noteq> i) [0..<m]) = length (filter P [0..<m]) - of_bool (P i)"
proof -
  have card: "length (filter Q [0..<m]) = card {j. j < m \<and> Q j}" for Q
    using distinct_card [of "filter Q [0..<m]"] by (simp add: set_filter Collect_conj_eq inf_commute)
  assume i: "i < m"
  have "{j. j < m \<and> (P j \<or> j = i)} = insert i {j. j < m \<and> P j}"
    "{j. j < m \<and> P j \<and> j \<noteq> i} = {j. j < m \<and> P j} - {i}" using i by auto
  then show "length (filter (\<lambda>j. P j \<or> j = i) [0..<m]) = length (filter P [0..<m]) + of_bool (\<not> P i)"
    "length (filter (\<lambda>j. P j \<and> j \<noteq> i) [0..<m]) = length (filter P [0..<m]) - of_bool (P i)"
    unfolding card using i by (simp_all add: card_insert_if card_Diff_singleton_if)
qed

lemma dense_put_slot:
  assumes inv: "DenseNode_inv n" and same: "sameSlots n n'" and i: "i < d_slotCount n" "slotInRange n i"
    and cov: "DenseNode_covers n (DenseNode_key n i)"
    and pres: "\<And>j. j < 64 * DenseNode_maskWordCount n \<Longrightarrow> DenseNode_isSlotPresent n' j \<longleftrightarrow> DenseNode_isSlotPresent n j \<or> j = i"
    and val: "\<And>j. j < d_slotCount n \<Longrightarrow> DenseNode_getVal n' j = (if j = i then v else DenseNode_getVal n j)"
    and occ: "d_occupiedCount n' = d_occupiedCount n + of_bool (\<not> DenseNode_isSlotPresent n i)"
  shows "DenseNode_inv n'" "DenseNode_content n' = (DenseNode_content n)(DenseNode_key n i \<mapsto> v)"
proof -
  note s = sameSlots_facts [OF same] and s' = same [unfolded sameSlots_def]
  have w: "j < 64 * DenseNode_maskWordCount n" if "j < d_slotCount n" for j
    using that slotCount_maskWords [of n] by simp
  have p: "densePresent n' = filter (\<lambda>j. DenseNode_isSlotPresent n j \<or> j = i) [0..<d_slotCount n]"
    unfolding densePresent_def using s' pres w by (auto intro: filter_cong)
  have "d_occupiedCount n' = length (densePresent n')"
    unfolding p occ DenseNode_invD(3) [OF inv] unfolding densePresent_def by (simp add: length_filter_insert(1) [OF i(1)])
  then show inv': "DenseNode_inv n'"
    using inv s' i cov pres unfolding DenseNode_inv_def s by auto
  have "DenseNode_content n' q = Some x \<longleftrightarrow> ((DenseNode_content n)(DenseNode_key n i \<mapsto> v)) q = Some x" for q x
  proof (cases "q = DenseNode_key n i")
    case True
    then show ?thesis
      using dense_content_key [OF inv', of i] s s' i pres w val by simp
  next
    case False
    then show ?thesis
      using s s' pres w val by (auto simp: dense_content_Some [OF inv] dense_content_Some [OF inv'])
  qed
  then show "DenseNode_content n' = (DenseNode_content n)(DenseNode_key n i \<mapsto> v)"
    by (intro ext) (metis not_Some_eq)
qed

lemma dense_remove_slot:
  assumes inv: "DenseNode_inv n" and same: "sameSlots n n'" and i: "i < d_slotCount n"
    and pres: "\<And>j. j < 64 * DenseNode_maskWordCount n \<Longrightarrow> DenseNode_isSlotPresent n' j \<longleftrightarrow> DenseNode_isSlotPresent n j \<and> j \<noteq> i"
    and val: "\<And>j. j < d_slotCount n \<Longrightarrow> DenseNode_getVal n' j = DenseNode_getVal n j"
    and occ: "d_occupiedCount n' = d_occupiedCount n - 1" and old: "DenseNode_isSlotPresent n i"
  shows "DenseNode_inv n'" "DenseNode_content n' = (DenseNode_content n)(DenseNode_key n i := None)"
proof -
  note s = sameSlots_facts [OF same] and s' = same [unfolded sameSlots_def] and r = DenseNode_invD(4) [OF inv i old]
  have w: "j < 64 * DenseNode_maskWordCount n" if "j < d_slotCount n" for j
    using that slotCount_maskWords [of n] by simp
  have p: "densePresent n' = filter (\<lambda>j. DenseNode_isSlotPresent n j \<and> j \<noteq> i) [0..<d_slotCount n]"
    unfolding densePresent_def using s' pres w by (auto intro: filter_cong)
  have "d_occupiedCount n' = length (densePresent n')"
    unfolding p occ DenseNode_invD(3) [OF inv] unfolding densePresent_def using old by (simp add: length_filter_insert(2) [OF i])
  then show inv': "DenseNode_inv n'"
    using inv s' pres unfolding DenseNode_inv_def s by auto
  have "DenseNode_content n' q = Some x \<longleftrightarrow> ((DenseNode_content n)(DenseNode_key n i := None)) q = Some x" for q x
  proof (cases "q = DenseNode_key n i")
    case True
    then show ?thesis using dense_content_key [OF inv', of i] s s' i r pres w by simp
  next
    case False
    then show ?thesis
      using s s' pres w val by (auto simp: dense_content_Some [OF inv] dense_content_Some [OF inv'])
  qed
  then show "DenseNode_content n' = (DenseNode_content n)(DenseNode_key n i := None)"
    by (intro ext) (metis not_Some_eq)
qed

end
