(* ===== verification/DenseNodeMapOps.thy ===== *)
theory DenseNodeMapOps
  imports DenseNodeMap AnyNode
begin

text \<open>
  Insert and remove of the dense leaf of type 1 as updates of its map, the interpretation of
  \<open>leaf_map\<close> for keys and values of the leaf's lengths, and its range lookup as a scan.
\<close>

subsection \<open>Writing a value\<close>

lemma valOffset_eq: "DenseNode_valOffset n i = 24 + 8 * DenseNode_maskWordCount n + i * d_valLen n"
  by (simp add: DenseNode_valOffset_def offsetof_mask_def maskBytesPerWord_def)

lemma val_disjoint:
  assumes "j \<noteq> (i :: nat)"
  shows "j * len + len \<le> i * len \<or> i * len + len \<le> j * len"
proof -
  from assms consider "Suc j \<le> i" | "Suc i \<le> j" by linarith
  then show ?thesis
  proof cases
    case 1
    then have "Suc j * len \<le> i * len" by (rule mult_le_mono1)
    then show ?thesis by (simp add: add.commute)
  next
    case 2
    then have "Suc i * len \<le> j * len" by (rule mult_le_mono1)
    then show ?thesis by (simp add: add.commute)
  qed
qed

lemma setVal_facts:
  assumes lay: "denseLayout n" and i: "i < d_slotCount n" and len: "length v = d_valLen n"
  defines "n' \<equiv> DenseNode_setVal i v n"
  shows "sameSlots n n'" "d_occupiedCount n' = d_occupiedCount n"
    "j < 64 * DenseNode_maskWordCount n \<Longrightarrow> DenseNode_isSlotPresent n' j = DenseNode_isSlotPresent n j"
    "DenseNode_getVal n' j = (if j = i then v else DenseNode_getVal n j)"
    "d_prefixLength n' = d_prefixLength n"
proof -
  let ?off = "DenseNode_valOffset n i"
  have f: "denseFences n" and room: "24 + 8 * DenseNode_maskWordCount n + d_slotCount n * d_valLen n \<le> DenseNode_fencesOffset n"
    using lay by (auto simp: denseLayout_def)
  note b = denseFences_bounds [OF f]
  have "Suc i * d_valLen n \<le> d_slotCount n * d_valLen n" using i by (intro mult_le_mono1) simp
  then have stop: "?off + d_valLen n \<le> DenseNode_fencesOffset n" using room by (simp add: valOffset_eq)
  have n': "n' = n\<lparr>d_heap := store (d_heap n) ?off v\<rparr>" by (simp add: n'_def DenseNode_setVal_def)
  have c: "DenseNode_maskWordCount n' = DenseNode_maskWordCount n" "DenseNode_fencesOffset n' = DenseNode_fencesOffset n"
    "DenseNode_valOffset n' j = DenseNode_valOffset n j" for j
    by (simp_all add: n' DenseNode_maskWordCount_def DenseNode_fencesOffset_def DenseNode_valOffset_def)
  have far: "load (store (d_heap n) ?off v) a l = load (d_heap n) a l" if "DenseNode_fencesOffset n \<le> a" for a l
    using that stop len by (intro load_store_other) simp
  have lo: "DenseNode_getLowerFence n' = DenseNode_getLowerFence n"
    and up: "DenseNode_getUpperFence n' = DenseNode_getUpperFence n"
  proof -
    have "DenseNode_fencesOffset n \<le> 4096 - d_lowerFenceLen n" using b(3) by simp
    then show "DenseNode_getLowerFence n' = DenseNode_getLowerFence n"
      by (simp add: DenseNode_getLowerFence_def n' pageSizeLeaf_def far)
    show "DenseNode_getUpperFence n' = DenseNode_getUpperFence n"
      by (simp add: DenseNode_getUpperFence_def c) (simp add: n' far)
  qed
  have "denseFences n'" using f by (simp add: denseFences_def lo up) (simp add: n')
  then have "denseLayout n'" using lay by (simp add: denseLayout_def c) (simp add: n')
  then show "sameSlots n n'" by (simp add: sameSlots_def lo up) (simp add: n')
  show "d_occupiedCount n' = d_occupiedCount n" "d_prefixLength n' = d_prefixLength n" by (simp_all add: n')
  show "DenseNode_isSlotPresent n' j = DenseNode_isSlotPresent n j" if "j < 64 * DenseNode_maskWordCount n"
  proof -
    have "j div 64 < DenseNode_maskWordCount n" using that by (simp add: less_mult_imp_div_less mult.commute)
    then have "24 + j div 64 * 8 + 8 \<le> ?off" by (simp add: valOffset_eq)
    then have "load (store (d_heap n) ?off v) (24 + j div 64 * 8) 8 = load (d_heap n) (24 + j div 64 * 8) 8"
      by (intro load_store_other) simp
    then show ?thesis
      by (simp add: DenseNode_isSlotPresent_def DenseNode_mask_def n' offsetof_mask_def maskBytesPerWord_def maskBitsPerWord_def)
  qed
  show "DenseNode_getVal n' j = (if j = i then v else DenseNode_getVal n j)"
  proof (cases "j = i")
    case True
    then show ?thesis by (simp add: DenseNode_getVal_def c) (simp add: n' load_store_same len)
  next
    case False
    have "load (store (d_heap n) ?off v) (DenseNode_valOffset n j) (d_valLen n) = load (d_heap n) (DenseNode_valOffset n j) (d_valLen n)"
      using val_disjoint [OF False, of "d_valLen n"] len by (intro load_store_other) (auto simp: valOffset_eq)
    with False show ?thesis by (simp add: DenseNode_getVal_def c) (simp add: n')
  qed
qed

lemma sameSlots_mask: "denseLayout n \<Longrightarrow> sameButMask n n' \<Longrightarrow> sameSlots n n'"
  using sameButMask_fences [of n n'] sameButMask_fields [of n n'] by (simp add: sameSlots_def)

lemma sameSlots_trans: "sameSlots n n' \<Longrightarrow> sameSlots n' n'' \<Longrightarrow> sameSlots n n''"
  by (simp add: sameSlots_def)

lemma sameSlots_occupied: "sameSlots n (n'\<lparr>d_occupiedCount := c\<rparr>) = sameSlots n n'"
  "sameSlots (n\<lparr>d_occupiedCount := c\<rparr>) n' = sameSlots n n'"
  by (simp_all add: sameSlots_def denseLayout_def denseFences_def DenseNode_getLowerFence_def DenseNode_getUpperFence_def
      DenseNode_fencesOffset_def DenseNode_maskWordCount_def)

lemma occupied_reads:
  "DenseNode_isSlotPresent (n\<lparr>d_occupiedCount := c\<rparr>) = DenseNode_isSlotPresent n"
  "DenseNode_getVal (n\<lparr>d_occupiedCount := c\<rparr>) = DenseNode_getVal n"
  "DenseNode_maskWordCount (n\<lparr>d_occupiedCount := c\<rparr>) = DenseNode_maskWordCount n"
  "denseLayout (n\<lparr>d_occupiedCount := c\<rparr>) = denseLayout n"
  by (simp_all add: fun_eq_iff DenseNode_isSlotPresent_def DenseNode_mask_def DenseNode_getVal_def
      DenseNode_valOffset_def DenseNode_maskWordCount_def denseLayout_def denseFences_def DenseNode_getLowerFence_def
      DenseNode_getUpperFence_def DenseNode_fencesOffset_def)

subsection \<open>Insert and remove\<close>

text \<open>Writing an entry into slot \<open>i\<close>.\<close>

definition densePut :: "nat \<Rightarrow> bytes \<Rightarrow> DenseNode \<Rightarrow> DenseNode" where
  "densePut i v n = DenseNode_setVal i v (DenseNode_setSlotPresent i n)"

lemma densePut_facts:
  assumes lay: "denseLayout n" and i: "i < d_slotCount n" and len: "length v = d_valLen n"
  defines "n' \<equiv> densePut i v n"
  shows "sameSlots n n'" "d_occupiedCount n' = d_occupiedCount n"
    "j < 64 * DenseNode_maskWordCount n \<Longrightarrow> DenseNode_isSlotPresent n' j \<longleftrightarrow> DenseNode_isSlotPresent n j \<or> j = i"
    "DenseNode_getVal n' j = (if j = i then v else DenseNode_getVal n j)"
proof -
  let ?n = "DenseNode_setSlotPresent i n"
  note p = setSlotPresent_facts [OF i] and m = sameButMask_fields [OF setSlotPresent_facts(1) [OF i]]
  have ss: "sameSlots n ?n" by (rule sameSlots_mask [OF lay p(1)])
  then have "denseLayout ?n" "i < d_slotCount ?n" "length v = d_valLen ?n"
    using i len by (simp_all add: sameSlots_def)
  note v = setVal_facts [OF this, folded densePut_def n'_def]
  show "sameSlots n n'" by (rule sameSlots_trans [OF ss v(1)])
  show "d_occupiedCount n' = d_occupiedCount n" using v(2) m(6) by simp
  show "DenseNode_isSlotPresent n' j \<longleftrightarrow> DenseNode_isSlotPresent n j \<or> j = i"
    if "j < 64 * DenseNode_maskWordCount n"
    using v(3) [of j] that m(10) p(3) by simp
  show "DenseNode_getVal n' j = (if j = i then v else DenseNode_getVal n j)" using v(4) m(13) by simp
qed

definition DenseNode_tryInsert :: "config \<Rightarrow> bytes \<Rightarrow> bytes \<Rightarrow> DenseNode \<Rightarrow> DenseNode insert_result" where
  "DenseNode_tryInsert cfg key payload n =
     (case DenseNode_insert cfg key payload n of
        Inserted (Dense n') \<Rightarrow> Inserted n'
      | NoSpace (Dense n') \<Rightarrow> NoSpace n'
      | _ \<Rightarrow> Aborted)"

lemma dense_insert_cases:
  assumes tag: "d_tag n = Tag_Dense" and len: "length key = d_fullKeyLen n" "length payload = d_valLen n"
  shows "DenseNode_insert cfg key payload n =
    (case DenseNode_keyToIndex n key of
       Index i \<Rightarrow> Inserted (Dense (densePut i payload
         (n\<lparr>d_occupiedCount := add16 (d_occupiedCount n) (of_bool (\<not> DenseNode_isSlotPresent n i))\<rparr>)))
     | WrongLen \<Rightarrow> Aborted
     | _ \<Rightarrow> NoSpace (Dense n))"
  using assms by (simp add: DenseNode_insert_def numeral_3_eq_3 Let_def densePut_def split: KeyIndex.split)

lemma keyToIndex_WrongLen: "length key = d_fullKeyLen n \<Longrightarrow> DenseNode_keyToIndex n key \<noteq> WrongLen"
  by (simp add: DenseNode_keyToIndex_def Let_def)

lemma dense_tryInsert_correct:
  assumes inv: "DenseNode_inv n" and cov: "DenseNode_covers n key"
    and len: "length key = d_fullKeyLen n" "length payload = d_valLen n"
  shows "DenseNode_tryInsert cfg key payload n = Inserted n' \<Longrightarrow>
      DenseNode_inv n' \<and> sameSlots n n' \<and> DenseNode_content n' = (DenseNode_content n)(key \<mapsto> payload)"
    "DenseNode_tryInsert cfg key payload n = NoSpace n' \<Longrightarrow> n' = n"
    "DenseNode_tryInsert cfg key payload n \<noteq> Aborted"
proof -
  have tag: "d_tag n = Tag_Dense" using DenseNode_invD(1) [OF inv] by (simp add: denseLayout_def)
  note c = dense_insert_cases [OF tag len, of cfg]
  show "DenseNode_tryInsert cfg key payload n \<noteq> Aborted"
    using keyToIndex_WrongLen [OF len(1)] by (auto simp: DenseNode_tryInsert_def c split: KeyIndex.split)
  show "DenseNode_tryInsert cfg key payload n = NoSpace n' \<Longrightarrow> n' = n"
    by (auto simp: DenseNode_tryInsert_def c split: KeyIndex.splits)
  assume "DenseNode_tryInsert cfg key payload n = Inserted n'"
  then obtain i where ix: "DenseNode_keyToIndex n key = Index i" and n': "n' = densePut i payload
      (n\<lparr>d_occupiedCount := add16 (d_occupiedCount n) (of_bool (\<not> DenseNode_isSlotPresent n i))\<rparr>)"
    by (auto simp: DenseNode_tryInsert_def c split: KeyIndex.splits)
  let ?n = "n\<lparr>d_occupiedCount := add16 (d_occupiedCount n) (of_bool (\<not> DenseNode_isSlotPresent n i))\<rparr>"
  note k = keyToIndex_covered [OF DenseNode_invD(2) [OF inv] cov ix]
  have "denseLayout ?n" "i < d_slotCount ?n" "length payload = d_valLen ?n"
    using DenseNode_invD(1) [OF inv] k(3) len(2) by (simp_all add: occupied_reads)
  note p = densePut_facts [OF this, folded n', unfolded occupied_reads sameSlots_occupied]
  have occ: "d_occupiedCount n' = d_occupiedCount n + of_bool (\<not> DenseNode_isSlotPresent n i)"
    using p(2) DenseNode_invD(5) [OF inv] by (simp add: c_arith)
  have "DenseNode_covers n (DenseNode_key n i)" using cov k(1) by simp
  from dense_put_slot [OF inv p(1) k(3,2) this p(3,4) occ] p(1) k(1)
  show "DenseNode_inv n' \<and> sameSlots n n' \<and> DenseNode_content n' = (DenseNode_content n)(key \<mapsto> payload)" by simp
qed

lemma dense_remove_correct:
  assumes inv: "DenseNode_inv n" and cov: "DenseNode_covers n key" and res: "DenseNode_remove key n = (b, n')"
  shows "DenseNode_inv n' \<and> sameSlots n n' \<and> DenseNode_content n' = (DenseNode_content n)(key := None) \<and>
    (b \<longleftrightarrow> DenseNode_content n key \<noteq> None)"
proof -
  have same: "sameSlots n n" using DenseNode_invD(1) [OF inv] by (simp add: sameSlots_def)
  show ?thesis
  proof (cases "DenseNode_keyToIndex n key")
    case (Index i)
    note k = keyToIndex_covered [OF DenseNode_invD(2) [OF inv] cov Index]
    note ck = dense_content_key [OF inv k(3,2), folded k(1)]
    show ?thesis
    proof (cases "DenseNode_isSlotPresent n i")
      case False
      then have "(b, n') = (False, n)" using res Index by (simp add: DenseNode_remove_def)
      with False ck inv same show ?thesis by auto
    next
      case True
      let ?n = "DenseNode_unsetSlotPresent i n"
      note p = setSlotPresent_facts [OF k(3)] and m = sameButMask_fields [OF setSlotPresent_facts(2) [OF k(3)]]
      from True have n': "n' = ?n\<lparr>d_occupiedCount := sub16 (d_occupiedCount n) 1\<rparr>" and b: "b"
        using res Index m(6) by (simp_all add: DenseNode_remove_def)
      have "i \<in> set (densePresent n)" using True k(3) by (simp add: densePresent_def)
      then have "0 < d_occupiedCount n" using DenseNode_invD(3) [OF inv] by (auto intro: length_pos_if_in_set)
      then have occ: "d_occupiedCount n' = d_occupiedCount n - 1"
        using DenseNode_invD(5) [OF inv] by (simp add: n' c_arith)
      have ss: "sameSlots n n'"
        unfolding n' sameSlots_occupied by (rule sameSlots_mask [OF DenseNode_invD(1) [OF inv] p(2)])
      have pres: "DenseNode_isSlotPresent n' j \<longleftrightarrow> DenseNode_isSlotPresent n j \<and> j \<noteq> i" for j
        unfolding n' occupied_reads by (rule p(4))
      have val: "DenseNode_getVal n' j = DenseNode_getVal n j" for j
        unfolding n' occupied_reads by (rule m(13))
      from dense_remove_slot [OF inv ss k(3) pres val occ True] ss b ck True k(1) show ?thesis by simp
    qed
  qed (use res inv same dense_content_outside [OF inv, of key] in \<open>auto simp: DenseNode_remove_def\<close>)
qed

text \<open>The leaf as a map: keys and payloads of the lengths the leaf was built for.\<close>

definition denseInv :: "nat \<Rightarrow> nat \<Rightarrow> DenseNode \<Rightarrow> bool" where
  "denseInv keyLen valLen n \<longleftrightarrow> DenseNode_inv n \<and> d_fullKeyLen n = keyLen \<and> d_valLen n = valLen"

definition denseStorable :: "nat \<Rightarrow> nat \<Rightarrow> bytes \<Rightarrow> bytes \<Rightarrow> bool" where
  "denseStorable keyLen valLen k v \<longleftrightarrow> length k = keyLen \<and> length v = valLen"

interpretation dense_leaf: leaf_map "denseInv keyLen valLen" DenseNode_covers DenseNode_content DenseNode_lookup
  "DenseNode_tryInsert cfg" DenseNode_remove "denseStorable keyLen valLen" for keyLen valLen cfg
proof (unfold_locales, goal_cases)
  case (1 n k)
  then show ?case by (simp add: denseInv_def dense_lookup_content)
next
  case (2 n k v n')
  then show ?case
    using dense_tryInsert_correct(1) [of n k v cfg n'] sameSlots_facts(4) [of n n']
    by (simp add: denseInv_def denseStorable_def sameSlots_def)
next
  case (3 n k v n')
  then have "n' = n" using dense_tryInsert_correct(2) [of n k v cfg n'] by (simp add: denseInv_def denseStorable_def)
  with 3 show ?case by simp
next
  case (4 n k b n')
  then show ?case
    using dense_remove_correct [of n k b n'] sameSlots_facts(4) [of n n'] by (simp add: denseInv_def sameSlots_def)
qed

end
