(* ===== verification/DenseNodeScan.thy ===== *)
theory DenseNodeScan
  imports DenseNodeMapOps
begin

text \<open>
  The ascending range lookup of the dense leaf of type 1: the loop over the mask words delivers the
  present slots from the first index on in key order, and the first index belongs to the smallest
  key of the leaf that is not below the start key.
\<close>

subsection \<open>The entries from a slot on\<close>

definition denseFrom :: "DenseNode \<Rightarrow> nat \<Rightarrow> entry list" where
  "denseFrom n i = map (\<lambda>j. (DenseNode_key n j, DenseNode_getVal n j)) (filter (DenseNode_isSlotPresent n) [i..<d_slotCount n])"

lemma denseFrom_0: "denseFrom n 0 = denseEntries n"
  by (simp add: denseFrom_def denseEntries_def densePresent_def)

lemma filter_upt_skip:
  assumes "\<And>j. i \<le> j \<Longrightarrow> j < k \<Longrightarrow> j < m \<Longrightarrow> \<not> P j" "i \<le> k"
  shows "filter P [i..<m] = filter P [k..<m]"
proof (cases "k \<le> m")
  case True
  then have "[i..<m] = [i..<k] @ [k..<m]" using assms(2) upt_add_eq_append [of i k "m - k"] by simp
  moreover have "filter P [i..<k] = []" using assms(1) True by (auto simp: filter_empty_conv)
  ultimately show ?thesis by simp
next
  case False
  then show ?thesis using assms(1) by (auto simp: filter_empty_conv)
qed

lemma denseFrom_skip:
  "(\<And>j. i \<le> j \<Longrightarrow> j < k \<Longrightarrow> j < d_slotCount n \<Longrightarrow> \<not> DenseNode_isSlotPresent n j) \<Longrightarrow> i \<le> k \<Longrightarrow> denseFrom n i = denseFrom n k"
  using filter_upt_skip [of i k "d_slotCount n" "DenseNode_isSlotPresent n"] by (simp add: denseFrom_def)

lemma denseFrom_Cons:
  "i < d_slotCount n \<Longrightarrow> DenseNode_isSlotPresent n i \<Longrightarrow>
    denseFrom n i = (DenseNode_key n i, DenseNode_getVal n i) # denseFrom n (Suc i)"
  by (simp add: denseFrom_def upt_conv_Cons)

subsection \<open>The loop\<close>

lemma writeNumeric_key:
  assumes f: "denseFences n" and buf: "load keyOut 0 (nprefLen n) = take (nprefLen n) (DenseNode_getLowerFence n)"
  shows "load (DenseNode_writeNumeric n i keyOut) 0 (d_fullKeyLen n) = DenseNode_key n i"
    "load (DenseNode_writeNumeric n i keyOut) 0 (nprefLen n) = take (nprefLen n) (DenseNode_getLowerFence n)"
proof -
  note c = computeNumeric_facts(1,2) [of "d_fullKeyLen n"]
  show l: "load (DenseNode_writeNumeric n i keyOut) 0 (nprefLen n) = take (nprefLen n) (DenseNode_getLowerFence n)"
    using buf by (simp add: DenseNode_writeNumeric_def load_store_other)
  have "load (DenseNode_writeNumeric n i keyOut) (nprefLen n) (npLen n) = numericBytes (npLen n) (d_arrayStart n + word_of_nat i)"
    using c by (simp add: DenseNode_writeNumeric_def load_store_same)
  with l have "load (DenseNode_writeNumeric n i keyOut) 0 (nprefLen n + npLen n) = DenseNode_key n i"
    by (simp add: load_add DenseNode_key_eq)
  then show "load (DenseNode_writeNumeric n i keyOut) 0 (d_fullKeyLen n) = DenseNode_key n i"
    using c(2) by (simp only: add.commute)
qed

lemma present_in_word:
  "b < 64 \<Longrightarrow> DenseNode_isSlotPresent n (w * 64 + b) \<longleftrightarrow> bit (DenseNode_mask n w) b"
  by (simp add: DenseNode_isSlotPresent_def maskBitsPerWord_def)

text \<open>No slot is present between a position in a word and its next bit.\<close>

lemma no_slot_before_bit:
  assumes "w * 64 + shift \<le> j" "j < w * 64 + (shift + maskTrailingZeros (drop_bit shift (DenseNode_mask n w)))" "j < w * 64 + 64"
  shows "\<not> DenseNode_isSlotPresent n j"
proof -
  define b where "b = j - w * 64"
  have j: "j = w * 64 + b" and b: "shift \<le> b" "b < 64" "b - shift < maskTrailingZeros (drop_bit shift (DenseNode_mask n w))"
    using assms by (auto simp: b_def)
  have "\<not> bit (drop_bit shift (DenseNode_mask n w)) (b - shift)"
    using for_until_before [of 0 "b - shift"] b(3) unfolding maskTrailingZeros_def by blast
  then show ?thesis using b(1,2) by (simp add: j present_in_word bit_drop_bit_eq)
qed

lemma next_bit_present:
  fixes n :: DenseNode and shift w :: nat
  defines "tz \<equiv> maskTrailingZeros (drop_bit shift (DenseNode_mask n w))"
  assumes "tz < 64"
  shows "shift + tz < 64" "DenseNode_isSlotPresent n (w * 64 + (shift + tz))"
proof -
  have bit: "bit (DenseNode_mask n w) (shift + tz)"
    using maskTrailingZeros_bit [of "drop_bit shift (DenseNode_mask n w)"] assms by (simp add: bit_drop_bit_eq)
  then show "shift + tz < 64" using bit_imp_le_length [OF bit] by simp
  with bit show "DenseNode_isSlotPresent n (w * 64 + (shift + tz))" by (simp add: present_in_word)
qed

lemma range_loop1_scan:
  "DenseNode_inv n \<Longrightarrow> word = drop_bit shift (DenseNode_mask n w) \<Longrightarrow> shift \<le> 64 \<Longrightarrow> w < DenseNode_maskWordCount n \<Longrightarrow>
    load keyOut 0 (nprefLen n) = take (nprefLen n) (DenseNode_getLowerFence n) \<Longrightarrow>
    DenseNode_range_loop1 n cb w shift word keyOut s = (c, keyOut', s') \<Longrightarrow>
    (c, s') = scan cb (denseFrom n (w * 64 + shift)) s \<and>
    load keyOut' 0 (nprefLen n) = take (nprefLen n) (DenseNode_getLowerFence n)"
proof (induction n cb w shift word keyOut s rule: DenseNode_range_loop1.induct)
  case (1 n cb w shift word keyOut s)
  let ?tz = "maskTrailingZeros word" and ?base = "w * 64 + shift"
  note inv = "1.prems"(1) and word = "1.prems"(2) and buf = "1.prems"(5)
  note f = DenseNode_invD(2) [OF inv]
  have step: "DenseNode_range_loop1 n cb w shift word keyOut s = (c, keyOut', s')" by (rule "1.prems"(6))
  show ?case
  proof (cases "?tz = 64")
    case True
    have none: "denseFrom n ?base = denseFrom n ((w + 1) * 64)"
    proof (rule denseFrom_skip)
      fix j assume "?base \<le> j" "j < (w + 1) * 64"
      then show "\<not> DenseNode_isSlotPresent n j"
        using no_slot_before_bit [of w shift j n] True word by simp
    qed (use "1.prems"(3) in simp)
    show ?thesis
    proof (cases "w + 1 \<ge> DenseNode_maskWordCount n")
      case last: True
      then have "d_slotCount n \<le> (w + 1) * 64" using slotCount_maskWords [of n] by simp
      then have "denseFrom n ((w + 1) * 64) = []" by (simp add: denseFrom_def)
      with step True last none buf show ?thesis
        by (simp add: DenseNode_range_loop1.simps [of n cb w] maskBitsPerWord_def)
    next
      case False
      with step True have "DenseNode_range_loop1 n cb (w + 1) 0 (DenseNode_mask n (w + 1)) keyOut s = (c, keyOut', s')"
        by (simp add: DenseNode_range_loop1.simps [of n cb w] maskBitsPerWord_def)
      with "1.IH"(1) [OF refl] True False inv buf none show ?thesis by (simp add: maskBitsPerWord_def)
    qed
  next
    case False
    then have tz: "?tz < 64" using maskTrailingZeros_le [of word] by simp
    let ?e = "w * 64 + (shift + ?tz)"
    note nb = next_bit_present [of shift n w, folded word, OF tz]
    have "?e < 64 * DenseNode_maskWordCount n" using nb(1) "1.prems"(4) by linarith
    with nb(2) inv have e: "?e < d_slotCount n" by (simp add: DenseNode_inv_def)
    have from_e: "denseFrom n ?base = denseFrom n ?e"
    proof (rule denseFrom_skip)
      fix j assume "?base \<le> j" "j < ?e"
      then show "\<not> DenseNode_isSlotPresent n j"
        using no_slot_before_bit [of w shift j n] nb(1) word by simp
    qed simp
    let ?k = "DenseNode_writeNumeric n ?e keyOut"
    obtain cont s1 where cb: "cb (DenseNode_key n ?e) (DenseNode_getVal n ?e) s = (cont, s1)" by force
    note wk = writeNumeric_key [OF f buf, of ?e]
    have es: "denseFrom n ?base = (DenseNode_key n ?e, DenseNode_getVal n ?e) # denseFrom n (Suc ?e)"
      using from_e denseFrom_Cons [OF e nb(2)] by simp
    have unf: "(c, keyOut', s') = (if \<not> cont then (False, ?k, s1)
        else DenseNode_range_loop1 n cb w (shift + ?tz + 1) (drop_bit 1 (drop_bit ?tz word)) ?k s1)"
      using step False e cb wk(1) by (simp add: DenseNode_range_loop1.simps [of n cb w] maskBitsPerWord_def Let_def)
    show ?thesis
    proof (cases cont)
      case False
      with unf cb wk(2) show ?thesis by (simp add: es)
    next
      case True
      have "drop_bit 1 (drop_bit ?tz word) = drop_bit (shift + ?tz + 1) (DenseNode_mask n w)"
        by (simp add: word drop_bit_drop_bit add.commute add.left_commute)
      moreover have "shift + ?tz + 1 \<le> 64" using nb(1) by simp
      moreover have "\<not> ?e > d_slotCount n" using e by simp
      ultimately have "(c, s') = scan cb (denseFrom n (w * 64 + (shift + ?tz + 1))) s1 \<and>
          load keyOut' 0 (nprefLen n) = take (nprefLen n) (DenseNode_getLowerFence n)"
        using "1.IH"(2) [OF refl _ refl _ refl _ refl] False inv "1.prems"(4) wk cb unf True
        by (simp add: maskBitsPerWord_def)
      moreover have "w * 64 + (shift + ?tz + 1) = Suc ?e" by simp
      ultimately show ?thesis using cb True by (simp only: es scan.simps Let_def prod.case if_True)
    qed
  qed
qed

subsection \<open>The first index\<close>

text \<open>A key above a fence that does not agree with it on some prefix is above all keys that do.\<close>

lemma above_prefix:
  fixes lo key q :: bytes
  assumes "lo < key" "take m lo \<noteq> take m key" "take m q = take m lo" "m \<le> length lo"
  shows "q < key"
  using assms
proof (induction m arbitrary: lo key q)
  case (Suc m)
  from Suc.prems obtain a lo' b q' where lo: "lo = a # lo'" "q = b # q'" by (cases lo; cases q) auto
  from Suc.prems(1) lo obtain c key' where key: "key = c # key'" by (cases key) auto
  have b: "b = a" using Suc.prems(3) by (simp add: lo)
  from Suc.prems(1) have "a < c \<or> a = c \<and> lo' < key'" by (auto simp: lo key)
  then show ?case
  proof
    assume "a = c \<and> lo' < key'"
    with Suc.IH [of lo' key' q'] Suc.prems show ?thesis by (simp add: lo key b)
  qed (simp add: lo key b)
qed simp

lemma numericRange_iff:
  assumes f: "denseFences n" and cov: "DenseNode_covers n key" and p: "d_prefixLength n \<le> nprefLen n"
  shows "DenseNode_isNumericRangeAnyLen n key \<longleftrightarrow> take (nprefLen n) key = take (nprefLen n) (DenseNode_getLowerFence n)"
proof -
  let ?lo = "DenseNode_getLowerFence n" and ?fp = "nprefLen n" and ?p = "d_prefixLength n"
  note pre = covers_densePrefix [OF f cov]
  have fp: "?fp \<le> length ?lo" using f by (simp add: denseFences_def)
  have lt: "?lo = [] \<or> ?lo < key" using cov by (auto simp: DenseNode_covers_def inFences_def)
  have heap: "d_heap n (pageSizeLeaf - d_lowerFenceLen n + i) = ?lo ! i" if "i < ?fp" for i
    using that fp by (simp add: DenseNode_getLowerFence_def)
  have nr: "DenseNode_isNumericRangeAnyLen n key \<longleftrightarrow>
      (\<forall>i. ?p \<le> i \<and> i < ?fp \<longrightarrow> ?lo ! i = (if i < length key then key ! i else 0))"
    unfolding DenseNode_isNumericRangeAnyLen_def list_all_iff using heap by auto
  have below: "?lo ! i = key ! i" if "i < ?p" for i
    using arg_cong [OF pre(2), of "\<lambda>xs. xs ! i"] that by simp
  show ?thesis
  proof
    assume "DenseNode_isNumericRangeAnyLen n key"
    then have all: "?lo ! i = (if i < length key then key ! i else 0)" if "i < ?fp" for i
      using that nr below pre(1) by (cases "i < ?p") auto
    have long: "?fp \<le> length key"
    proof (rule ccontr)
      assume short: "\<not> ?fp \<le> length key"
      have "take (length key) ?lo = key"
        by (rule nth_equalityI) (use short fp all in \<open>simp_all add: min_absorb2\<close>)
      then have "key \<le> ?lo" using le_append1 [of key "drop (length key) ?lo"] by (metis append_take_drop_id)
      moreover have "?lo \<noteq> []" using short fp by (metis list.size(3) le_zero_eq not_less0 not_le_imp_less order.trans zero_le)
      ultimately show False using lt by (auto simp: not_le [symmetric])
    qed
    show "take ?fp key = take ?fp ?lo"
      by (rule nth_equalityI) (use long fp all in simp_all)
  next
    assume same: "take ?fp key = take ?fp ?lo"
    have "?fp \<le> length key" using arg_cong [OF same, of length] fp by simp
    moreover have "?lo ! i = key ! i" if "i < ?fp" for i
      using arg_cong [OF same, of "\<lambda>xs. xs ! i"] that by simp
    ultimately show "DenseNode_isNumericRangeAnyLen n key" unfolding nr by simp
  qed
qed

lemma numericRange_prefix:
  assumes f: "denseFences n" and cov: "DenseNode_covers n key" and p: "\<not> d_prefixLength n \<le> nprefLen n"
  shows "DenseNode_isNumericRangeAnyLen n key" "take (nprefLen n) key = take (nprefLen n) (DenseNode_getLowerFence n)"
proof -
  show "DenseNode_isNumericRangeAnyLen n key" using p by (simp add: DenseNode_isNumericRangeAnyLen_def)
  show "take (nprefLen n) key = take (nprefLen n) (DenseNode_getLowerFence n)"
    using arg_cong [OF covers_densePrefix(2) [OF f cov], of "take (nprefLen n)"] p by (simp add: min_absorb1)
qed

lemma numericRange_take:
  assumes "denseFences n" "DenseNode_covers n key"
  shows "DenseNode_isNumericRangeAnyLen n key \<longleftrightarrow> take (nprefLen n) key = take (nprefLen n) (DenseNode_getLowerFence n)"
  using numericRange_iff [OF assms] numericRange_prefix [OF assms] by blast

lemma outside_range_above:
  assumes f: "denseFences n" and cov: "DenseNode_covers n key" and out: "\<not> DenseNode_isNumericRangeAnyLen n key"
  shows "DenseNode_key n i < key"
proof -
  let ?lo = "DenseNode_getLowerFence n"
  have ne: "take (nprefLen n) ?lo \<noteq> take (nprefLen n) key" using out numericRange_take [OF f cov] by simp
  have fp: "nprefLen n \<le> length ?lo" using f by (simp add: denseFences_def)
  with ne have "?lo \<noteq> []" by (metis list.size(3) le_zero_eq take0)
  then have "?lo < key" using cov by (auto simp: DenseNode_covers_def inFences_def)
  from above_prefix [OF this ne DenseNode_key_facts(2) [OF f] fp] show ?thesis .
qed

lemma firstIndex_le:
  assumes f: "denseFences n" and cov: "DenseNode_covers n key" and rng: "DenseNode_isNumericRangeAnyLen n key"
    and len: "length key \<le> d_fullKeyLen n" and i: "slotInRange n i"
  shows "key \<le> DenseNode_key n i \<longleftrightarrow> DenseNode_firstIndex n (Some key) \<le> i"
proof -
  let ?lo = "DenseNode_getLowerFence n" and ?fp = "nprefLen n" and ?np = "npLen n"
  let ?K = "drop ?fp key" and ?N = "drop ?fp (DenseNode_key n i)"
  note c = computeNumeric_facts(1,2) [of "d_fullKeyLen n"] and k = DenseNode_key_facts [OF f, of i]
  have same: "take ?fp key = take ?fp ?lo" using rng numericRange_take [OF f cov] by simp
  have ge: "unat (d_arrayStart n) \<le> be_pad ?np ?K" by (rule covered_numeric [OF f cov same len])
  have "(256 :: nat) ^ ?np \<le> 256 ^ 4" by (intro power_increasing) (simp_all add: c)
  with be_pad_less [of ?np ?K] have u: "unat (word_of_nat (be_pad ?np ?K) :: 32 word) = be_pad ?np ?K"
    by (simp add: unat_of_nat)
  have "leastGreaterKey key (d_fullKeyLen n) - of_bool (length key = d_fullKeyLen n) = getNumericPart key (d_fullKeyLen n)"
    using len by (auto simp: leastGreaterKey_def)
  then have first: "DenseNode_firstIndex n (Some key) = be_pad ?np ?K - unat (d_arrayStart n)"
    using ge u by (simp add: DenseNode_firstIndex_def getNumericPart_value unat_sub_if_size)
  have N: "length ?N = ?np" "be_pad ?np ?N = unat (d_arrayStart n) + i" "length ?K \<le> ?np"
    using k(1,4) i c(2) len by simp_all
  have "key \<le> DenseNode_key n i \<longleftrightarrow> take ?fp ?lo @ ?K \<le> take ?fp ?lo @ ?N"
    using same k(2) by (metis append_take_drop_id)
  then have "key \<le> DenseNode_key n i \<longleftrightarrow> ?K \<le> ?N" by (simp only: le_append_same)
  also have "\<dots> \<longleftrightarrow> be_pad ?np ?K \<le> be_pad ?np ?N"
    using be_pad_mono [of ?K ?N ?np] be_pad_strict [of ?N ?np ?K] N(1,3) by (meson not_le)
  finally show ?thesis using N(2) ge first by auto
qed

lemma filter_upt_from: "filter (\<lambda>i. m \<le> i) (filter P [0..<k]) = filter P [m..<k]"
proof -
  have "filter (\<lambda>i. P i \<and> m \<le> i) [0..<k] = filter (\<lambda>i. P i \<and> m \<le> i) [m..<k]"
    by (rule filter_upt_skip) auto
  also have "\<dots> = filter P [m..<k]" by (rule filter_cong) auto
  finally show ?thesis by (simp add: conj_commute)
qed

lemma entries_from_key:
  assumes inv: "DenseNode_inv n" and cov: "DenseNode_covers n key" and rng: "DenseNode_isNumericRangeAnyLen n key"
    and len: "length key \<le> d_fullKeyLen n"
  shows "filter (\<lambda>(k, v). key \<le> k) (denseEntries n) = denseFrom n (DenseNode_firstIndex n (Some key))"
proof -
  have "filter (\<lambda>(k, v). key \<le> k) (denseEntries n) =
      map (\<lambda>j. (DenseNode_key n j, DenseNode_getVal n j)) (filter (\<lambda>i. key \<le> DenseNode_key n i) (densePresent n))"
    by (simp add: denseEntries_def filter_map comp_def)
  also have "filter (\<lambda>i. key \<le> DenseNode_key n i) (densePresent n) =
      filter (\<lambda>i. DenseNode_firstIndex n (Some key) \<le> i) (densePresent n)"
    using firstIndex_le [OF DenseNode_invD(2) [OF inv] cov rng len] densePresent_range(3) [OF inv]
    by (auto intro: filter_cong)
  finally show ?thesis unfolding denseFrom_def densePresent_def filter_upt_from .
qed

subsection \<open>The range lookup\<close>

lemma enterKeyOut_prefix:
  assumes f: "denseFences n" and buf: "load keyOut 0 (d_prefixLength n) = DenseNode_getPrefix n"
  shows "load (DenseNode_enterKeyOut n keyOut) 0 (nprefLen n) = take (nprefLen n) (DenseNode_getLowerFence n)"
proof (cases "d_prefixLength n \<le> nprefLen n")
  case True
  let ?p = "d_prefixLength n" and ?d = "nprefLen n - d_prefixLength n" and ?k = "DenseNode_enterKeyOut n keyOut"
  have "load ?k 0 ?p = take ?p (DenseNode_getLowerFence n)"
    using buf densePrefix_take [OF f] by (simp add: DenseNode_enterKeyOut_def load_store_other)
  moreover have "load ?k ?p ?d = drop ?p (take (nprefLen n) (DenseNode_getLowerFence n))"
    unfolding mid_bytes [OF f True, symmetric] by (simp add: DenseNode_enterKeyOut_def load_store_same)
  moreover have "take ?p (take (nprefLen n) (DenseNode_getLowerFence n)) = take ?p (DenseNode_getLowerFence n)"
    using True by (simp add: min_absorb1)
  ultimately have "load ?k 0 (?p + ?d) = take (nprefLen n) (DenseNode_getLowerFence n)"
    unfolding load_add by (metis add_0 append_take_drop_id)
  then show ?thesis using True by simp
next
  case False
  then have "nprefLen n \<le> d_prefixLength n" by simp
  moreover have "DenseNode_enterKeyOut n keyOut = keyOut"
    using False by (auto simp: DenseNode_enterKeyOut_def store_def fun_eq_iff)
  ultimately show ?thesis
    using arg_cong [OF buf, of "take (nprefLen n)"] by (simp add: densePrefix_take [OF f] min_absorb1)
qed

lemma keyOut_keeps_prefix:
  assumes "denseFences n" "load keyOut 0 (nprefLen n) = take (nprefLen n) (DenseNode_getLowerFence n)"
    "d_prefixLength n \<le> nprefLen n"
  shows "load keyOut 0 (d_prefixLength n) = DenseNode_getPrefix n"
  using arg_cong [OF assms(2), of "take (d_prefixLength n)"] assms(3) by (simp add: densePrefix_take [OF assms(1)] min_absorb1)

lemma range_lookup1_scan:
  assumes inv: "DenseNode_inv n" and buf: "load keyOut 0 (d_prefixLength n) = DenseNode_getPrefix n"
    and inside: "DenseNode_firstIndex n (Some key) < 64 * DenseNode_maskWordCount n"
    and cov: "DenseNode_covers n key" and len: "length key \<le> d_fullKeyLen n"
    and res: "DenseNode_range_lookup1 (Some key) cb n keyOut s = Some (c, keyOut', s')"
  shows "(c, s') = scan cb (filter (\<lambda>(k, v). key \<le> k) (denseEntries n)) s"
proof (cases "DenseNode_isNumericRangeAnyLen n key")
  case False
  have "filter (\<lambda>(k, v). key \<le> k) (denseEntries n) = []"
    using outside_range_above [OF DenseNode_invD(2) [OF inv] cov False]
    by (auto simp: filter_empty_conv denseEntries_def not_le)
  with False res show ?thesis by (simp add: DenseNode_range_lookup1_def)
next
  case True
  let ?i = "DenseNode_firstIndex n (Some key)"
  have loop: "DenseNode_range_loop1 n cb (?i div 64) (?i mod 64) (drop_bit (?i mod 64) (DenseNode_mask n (?i div 64)))
      (DenseNode_enterKeyOut n keyOut) s = (c, keyOut', s')"
    using res True by (simp add: DenseNode_range_lookup1_def maskBitsPerWord_def Let_def)
  have "?i mod 64 \<le> 64" "?i div 64 < DenseNode_maskWordCount n"
    using inside by (simp_all add: less_imp_le less_mult_imp_div_less mult.commute)
  from range_loop1_scan [OF inv refl this enterKeyOut_prefix [OF DenseNode_invD(2) [OF inv] buf] loop]
  have "(c, s') = scan cb (denseFrom n ?i) s" by simp
  then show ?thesis by (simp only: entries_from_key [OF inv cov True len])
qed

lemma range_lookup1_scan_all:
  assumes inv: "DenseNode_inv n" and buf: "load keyOut 0 (d_prefixLength n) = DenseNode_getPrefix n"
    and slots: "0 < d_slotCount n" and pre: "nprefLen n \<le> d_prefixLength n"
  shows "\<exists>c keyOut' s'. DenseNode_range_lookup1 None cb n keyOut s = Some (c, keyOut', s') \<and>
    (c, s') = scan cb (denseEntries n) s"
proof -
  obtain c keyOut' s' where loop: "DenseNode_range_loop1 n cb 0 0 (drop_bit 0 (DenseNode_mask n 0))
      (DenseNode_enterKeyOut n keyOut) s = (c, keyOut', s')" by (metis prod_cases3)
  have "DenseNode_range_lookup1 None cb n keyOut s = Some (c, keyOut', s')"
    using loop pre by (simp add: DenseNode_range_lookup1_def DenseNode_firstIndex_def)
  moreover have "0 < DenseNode_maskWordCount n" using slots by (simp add: DenseNode_maskWordCount_def maskBitsPerWord_def)
  then have "(c, s') = scan cb (denseFrom n (0 * 64 + 0)) s"
    using range_loop1_scan [OF inv refl _ _ enterKeyOut_prefix [OF DenseNode_invD(2) [OF inv] buf] loop] by simp
  ultimately show ?thesis by (auto simp: denseFrom_0)
qed

end
