(* ===== verification/DenseNodeConvert.thy ===== *)
theory DenseNodeConvert
  imports DenseNodeScan
begin

text \<open>
  Changes of layout of a dense leaf of type 1: a page that was just given its fences is empty,
  \<open>densify1\<close> keeps the entries of a basic leaf, \<open>convertToBasic\<close> those of a dense leaf, and a split
  leaves all entries in the left page.
\<close>

subsection \<open>A fresh page\<close>

lemma sameButMask_refl: "sameButMask n n"
  unfolding sameButMask_def by (auto intro: exI [of _ "d_heap n"])

lemma sameButMask_trans:
  assumes "sameButMask a b" "sameButMask b c"
  shows "sameButMask a c"
proof -
  from assms obtain h1 h2 where "b = a\<lparr>d_heap := h1\<rparr>" "c = b\<lparr>d_heap := h2\<rparr>" by (auto simp: sameButMask_def)
  then have "c = a\<lparr>d_heap := h2\<rparr>" by simp
  then show ?thesis
    using assms sameButMask_fields(10) [OF assms(1)] unfolding sameButMask_def by auto
qed

lemma zeroMask_facts:
  "sameButMask n (DenseNode_zeroMask n)"
  "w < DenseNode_maskWordCount n \<Longrightarrow> DenseNode_mask (DenseNode_zeroMask n) w = 0"
proof -
  let ?f = "\<lambda>m. fold (\<lambda>i. DenseNode_setMask i 0) [0..<m] n"
  have "sameButMask n (?f m) \<and> (\<forall>w<m. DenseNode_mask (?f m) w = 0)" if "m \<le> DenseNode_maskWordCount n" for m
    using that
  proof (induction m)
    case 0
    then show ?case by (simp add: sameButMask_refl)
  next
    case (Suc m)
    then have ih: "sameButMask n (?f m)" "\<forall>w<m. DenseNode_mask (?f m) w = 0" by simp_all
    have "sameButMask (?f m) (DenseNode_setMask m 0 (?f m))"
      using sameButMask_fields(10) [OF ih(1)] Suc.prems by (intro sameButMask_setMask) simp
    with ih show ?case
      using sameButMask_trans by (auto simp: mask_setMask less_Suc_eq)
  qed
  from this [OF order_refl] show "sameButMask n (DenseNode_zeroMask n)"
    "w < DenseNode_maskWordCount n \<Longrightarrow> DenseNode_mask (DenseNode_zeroMask n) w = 0"
    by (simp_all add: DenseNode_zeroMask_def)
qed

text \<open>Writing the fences into a page whose mask is empty.\<close>

definition withFences :: "bytes \<Rightarrow> bytes \<Rightarrow> DenseNode \<Rightarrow> DenseNode" where
  "withFences lo up n =
     n\<lparr>d_heap := store (store (d_heap n) (pageSizeLeaf - length lo) lo) (DenseNode_fencesOffset n) up,
       d_prefixLength := lcp lo up, d_arrayStart := leastGreaterKey lo (d_fullKeyLen n)\<rparr>"

lemma withFences_facts:
  assumes len: "d_lowerFenceLen n = length lo" "d_upperFenceLen n = length up" "d_tag n = Tag_Dense"
    and room: "length lo + max (length up) (d_fullKeyLen n) \<le> 4096"
      "24 + 8 * DenseNode_maskWordCount n + d_slotCount n * d_valLen n \<le> DenseNode_fencesOffset n"
    and full: "0 < d_fullKeyLen n" "nprefLen n \<le> length lo"
  defines "n' \<equiv> withFences lo up n"
  shows "denseLayout n'" "DenseNode_getLowerFence n' = lo" "DenseNode_getUpperFence n' = up"
    "w < DenseNode_maskWordCount n \<Longrightarrow> DenseNode_mask n' w = DenseNode_mask n w"
proof -
  let ?fo = "DenseNode_fencesOffset n"
  let ?h = "store (store (d_heap n) (pageSizeLeaf - length lo) lo) ?fo up"
  have lm: "length lo \<le> 4096" "max (length up) (d_fullKeyLen n) \<le> 4096 - length lo" using room(1) by linarith+
  then have fo: "?fo = 4096 - length lo - max (length up) (d_fullKeyLen n)"
    using len by (simp add: DenseNode_fencesOffset_def pageSizeLeaf_def c_arith)
  have up: "?fo + length up \<le> 4096 - length lo" using lm unfolding fo by linarith
  have fo': "DenseNode_fencesOffset n' = ?fo" "DenseNode_maskWordCount n' = DenseNode_maskWordCount n"
    by (simp_all add: n'_def withFences_def DenseNode_fencesOffset_def DenseNode_maskWordCount_def)
  show l: "DenseNode_getLowerFence n' = lo"
    using up by (simp add: DenseNode_getLowerFence_def n'_def withFences_def len pageSizeLeaf_def load_store_other load_store_same)
  show u: "DenseNode_getUpperFence n' = up"
    unfolding DenseNode_getUpperFence_def fo' by (simp add: n'_def withFences_def len load_store_same)
  have "denseFences n'" using room(1) full unfolding denseFences_def l u by (simp add: n'_def withFences_def len)
  then show "denseLayout n'" using room(2) len(3) unfolding denseLayout_def fo' by (simp add: n'_def withFences_def)
  show "DenseNode_mask n' w = DenseNode_mask n w" if "w < DenseNode_maskWordCount n"
  proof -
    have a: "24 + w * 8 + 8 \<le> ?fo" using that room(2) by simp
    then have "24 + w * 8 + 8 \<le> 4096 - length lo" using up by simp
    with a have "load ?h (24 + w * 8) 8 = load (d_heap n) (24 + w * 8) 8"
      by (simp add: load_store_other pageSizeLeaf_def)
    then show ?thesis by (simp add: DenseNode_mask_def n'_def withFences_def offsetof_mask_def maskBytesPerWord_def)
  qed
qed

lemma empty_page:
  assumes lay: "denseLayout n" and mask: "\<forall>w<DenseNode_maskWordCount n. DenseNode_mask n w = 0"
  shows "DenseNode_inv (n\<lparr>d_occupiedCount := 0\<rparr>)" "denseEntries (n\<lparr>d_occupiedCount := 0\<rparr>) = []"
proof -
  let ?n = "n\<lparr>d_occupiedCount := 0\<rparr>"
  have none: "\<not> DenseNode_isSlotPresent ?n i" if "i < 64 * DenseNode_maskWordCount n" for i
    unfolding occupied_reads using that mask [rule_format, of "i div 64"]
    by (simp add: DenseNode_isSlotPresent_def maskBitsPerWord_def less_mult_imp_div_less mult.commute)
  have "\<not> DenseNode_isSlotPresent ?n i" if "i < d_slotCount n" for i
    using that none [of i] slotCount_maskWords [of n] by simp
  then have p: "densePresent ?n = []" by (simp add: densePresent_def filter_empty_conv)
  then show "denseEntries ?n = []" by (simp add: denseEntries_def)
  show "DenseNode_inv ?n" using none lay p unfolding DenseNode_inv_def occupied_reads by simp
qed

subsection \<open>The number of slots\<close>

lemma slotCountFrom_fits:
  "slotCountFrom v f c = 0 \<or> 24 + 8 * ((slotCountFrom v f c + 63) div 64) + slotCountFrom v f c * v \<le> f"
proof (induction c)
  case (Suc c)
  then show ?case
    by (auto simp: Let_def offsetof_mask_def maskBytesPerWord_def maskBitsPerWord_def not_less mult.commute simp del: div_mult_self1_is_m)
qed simp

lemma computeSlotCount_fits:
  assumes "computeSlotCount v f \<noteq> 0"
  shows "24 + 8 * ((computeSlotCount v f + 63) div 64) + computeSlotCount v f * v \<le> f"
  using assms slotCountFrom_fits [of v f "u32 (f * 8) div (v * 8 + 1)"] unfolding computeSlotCount_def by linarith

lemma computeSlotCount_less:
  assumes "f \<le> 4096"
  shows "computeSlotCount v f < 65536"
proof (rule ccontr)
  assume a: "\<not> computeSlotCount v f < 65536"
  then have "computeSlotCount v f \<noteq> 0" by simp
  from computeSlotCount_fits [OF this] assms have "8 * ((computeSlotCount v f + 63) div 64) \<le> 4096" by linarith
  with a show False by linarith
qed

subsection \<open>Numeric parts of a truncated key\<close>

lemma be_pad_append: "be_pad (length xs + k) (xs @ ys) = be_pad (length xs) xs * 256 ^ k + be_pad k ys"
  by (induction xs) (simp_all add: algebra_simps power_add)

lemma numericPart_truncated:
  assumes "length pre + length key = full"
  shows "getNumericPart pre full + getNumericPart key (full - length pre) = getNumericPart (pre @ key) full"
proof -
  let ?p = "length pre" and ?fp = "full - 4" and ?np = "min 4 full"
  have np: "computeNumericPartLen full = ?np" "computeNumericPrefixLength full = ?fp"
    "computeNumericPartLen (full - ?p) = min 4 (full - ?p)" "computeNumericPrefixLength (full - ?p) = full - ?p - 4"
    by (simp_all add: computeNumericPartLen_def sizeof_NumericPart_def computeNumeric_facts(3))
  show ?thesis
  proof (cases "?p \<le> full - 4 \<and> 4 \<le> full")
    case True
    then have "4 \<le> full - ?p" "?fp - ?p = full - ?p - 4" by linarith+
    with True have "min 4 (full - ?p) = ?np" "drop (full - ?p - 4) key = drop ?fp (pre @ key)" "drop ?fp pre = []"
      by (simp_all only: drop_append drop_all append_Nil min_absorb1)
    then show ?thesis by (simp only: getNumericPart_value np be_pad_Nil) simp
  next
    case False
    let ?X = "drop ?fp pre"
    have "?fp - ?p = 0" using False by linarith
    then have d: "drop ?fp (pre @ key) = ?X @ key" by (simp only: drop_append drop_0)
    have l: "?np = length ?X + length key" using assms False by auto
    have "full - ?p - 4 = 0" using False by linarith
    then have k: "min 4 (full - ?p) = length key" "drop (full - ?p - 4) key = key"
      using assms False by (auto simp only: drop_0)
    have pX: "be_pad ?np ?X = be_pad (length ?X) ?X * 256 ^ length key"
      unfolding l by (rule be_pad_append_zero) simp
    show ?thesis
      unfolding getNumericPart_value np k d pX unfolding l be_pad_append by simp
  qed
qed

subsection \<open>Filling a page\<close>

text \<open>The slot of an entry is computed from the start of the array in the page being filled.\<close>

definition densePutAll :: "(32 word \<Rightarrow> nat \<Rightarrow> nat) \<Rightarrow> (nat \<Rightarrow> bytes) \<Rightarrow> nat \<Rightarrow> DenseNode \<Rightarrow> DenseNode" where
  "densePutAll idx val m n = fold (\<lambda>i out. densePut (idx (d_arrayStart out) i) (val i) out) [0..<m] n"

lemma densePutAll_Suc:
  "densePutAll idx val (Suc m) n =
    densePut (idx (d_arrayStart (densePutAll idx val m n)) m) (val m) (densePutAll idx val m n)"
  by (simp add: densePutAll_def)

lemma map_of_snoc: "k \<notin> fst ` set xs \<Longrightarrow> map_of (xs @ [(k, v)]) = (map_of xs)(k \<mapsto> v)"
  using map_of_insert_at [of k xs "length xs" v] by simp

lemma densePutAll_correct:
  fixes idx :: "32 word \<Rightarrow> nat \<Rightarrow> nat"
  assumes inv: "DenseNode_inv (n\<lparr>d_occupiedCount := 0\<rparr>)" "denseEntries (n\<lparr>d_occupiedCount := 0\<rparr>) = []"
    and dist: "distinct (map fst xs)"
    and key: "\<And>i. i < length xs \<Longrightarrow> fst (xs ! i) = DenseNode_key n (idx (d_arrayStart n) i)"
    and idx: "\<And>i. i < length xs \<Longrightarrow> idx (d_arrayStart n) i < d_slotCount n \<and> slotInRange n (idx (d_arrayStart n) i) \<and>
      DenseNode_covers n (fst (xs ! i))"
    and len: "\<And>i. i < length xs \<Longrightarrow> length (snd (xs ! i)) = d_valLen n"
  shows "m \<le> length xs \<Longrightarrow>
    DenseNode_inv ((densePutAll idx (\<lambda>i. snd (xs ! i)) m n)\<lparr>d_occupiedCount := m\<rparr>) \<and>
    DenseNode_content ((densePutAll idx (\<lambda>i. snd (xs ! i)) m n)\<lparr>d_occupiedCount := m\<rparr>) = map_of (take m xs) \<and>
    sameSlots n (densePutAll idx (\<lambda>i. snd (xs ! i)) m n)"
proof (induction m)
  case 0
  then show ?case
    using inv by (simp add: densePutAll_def DenseNode_content_def sameSlots_def DenseNode_inv_def occupied_reads)
next
  case (Suc m)
  let ?N = "densePutAll idx (\<lambda>i. snd (xs ! i)) m n" and ?k = "fst (xs ! m)" and ?v = "snd (xs ! m)"
  let ?n = "?N\<lparr>d_occupiedCount := m\<rparr>" and ?i = "idx (d_arrayStart n) m"
  let ?N' = "densePutAll idx (\<lambda>i. snd (xs ! i)) (Suc m) n"
  let ?n' = "?N'\<lparr>d_occupiedCount := Suc m\<rparr>"
  from Suc have m: "m < length xs" and ih: "DenseNode_inv ?n" "DenseNode_content ?n = map_of (take m xs)" "sameSlots n ?N"
    by auto
  have N': "?N' = densePut ?i ?v ?N" using ih(3) by (simp add: densePutAll_Suc sameSlots_def)
  have ss: "sameSlots n ?n" using ih(3) by (simp only: sameSlots_occupied)
  note s = sameSlots_facts [OF ss] and s' = ss [unfolded sameSlots_def]
  have lay: "denseLayout ?N" using ih(3) by (simp add: sameSlots_def)
  have i: "?i < d_slotCount ?N" "length ?v = d_valLen ?N" using idx [OF m] len [OF m] s' by simp_all
  note p = densePut_facts [OF lay i, folded N']
  have k: "?k = DenseNode_key ?n ?i" using key [OF m] s(2) by simp
  have i': "?i < d_slotCount ?n" "slotInRange ?n ?i" "DenseNode_covers ?n (DenseNode_key ?n ?i)"
    using idx [OF m] s s' k by simp_all
  have fresh: "?k \<notin> fst ` set (take m xs)"
  proof
    assume "?k \<in> fst ` set (take m xs)"
    then obtain j where "j < m" "fst (xs ! j) = ?k" using m by (auto simp: in_set_conv_nth)
    then show False using dist m nth_eq_iff_index_eq [of "map fst xs" j m] by simp
  qed
  then have "map_of (take m xs) ?k = None" by (simp add: map_of_eq_None_iff)
  then have new: "\<not> DenseNode_isSlotPresent ?n ?i"
    using dense_content_key [OF ih(1) i'(1,2)] ih(2) k by (auto split: if_splits)
  have "DenseNode_inv ?n' \<and> DenseNode_content ?n' = (DenseNode_content ?n)(DenseNode_key ?n ?i \<mapsto> ?v)"
  proof (rule conjI)
    have a: "sameSlots ?n ?n'" using p(1) by (simp only: sameSlots_occupied)
    have b: "DenseNode_isSlotPresent ?n' j \<longleftrightarrow> DenseNode_isSlotPresent ?n j \<or> j = ?i"
      if "j < 64 * DenseNode_maskWordCount ?n" for j
      using p(3) [of j] that unfolding occupied_reads .
    have c: "DenseNode_getVal ?n' j = (if j = ?i then ?v else DenseNode_getVal ?n j)" for j
      using p(4) [of j] unfolding occupied_reads .
    have d: "d_occupiedCount ?n' = d_occupiedCount ?n + of_bool (\<not> DenseNode_isSlotPresent ?n ?i)" using new by simp
    show "DenseNode_inv ?n'" "DenseNode_content ?n' = (DenseNode_content ?n)(DenseNode_key ?n ?i \<mapsto> ?v)"
      using dense_put_slot [OF ih(1) a i' b c d] by simp_all
  qed
  moreover have "map_of (take (Suc m) xs) = (map_of (take m xs))(?k \<mapsto> ?v)"
    using map_of_snoc [OF fresh] m by (simp add: take_Suc_conv_app_nth)
  ultimately show ?case using ih(2) k sameSlots_trans [OF ih(3) p(1)] by simp
qed

text \<open>Two strictly sorted lists of entries with the same map are equal.\<close>

lemma sorted_entries_unique:
  assumes "sorted_wrt (<) (map fst xs)" "sorted_wrt (<) (map fst (ys :: entry list))" "map_of xs = map_of ys"
  shows "xs = ys"
proof -
  have d: "distinct (map fst xs)" "distinct (map fst ys)" "sorted (map fst xs)" "sorted (map fst ys)"
    using assms(1,2) strict_sorted_iff by blast+
  then have "set xs = set ys" using assms(3) by (simp add: map_of_inject_set)
  then have "inj_on fst (set xs \<union> set ys)" using d(1) by (simp add: distinct_map)
  then show ?thesis
    using d \<open>set xs = set ys\<close> by (intro map_sorted_distinct_set_unique [of fst]) (simp_all add: distinct_map)
qed

subsection \<open>From a basic leaf\<close>

text \<open>The page \<open>densify1\<close> fills, and the slot of an entry.\<close>

definition densifyPage :: "BTreeNode \<Rightarrow> nat \<Rightarrow> nat \<Rightarrow> DenseNode" where
  "densifyPage b fullKeyLen valLen =
     (let out = TmpDenseNode\<lparr>d_lowerFenceLen := fk_length (b_lowerFence b), d_upperFenceLen := fk_length (b_upperFence b),
            d_fullKeyLen := u16 fullKeyLen, d_arrayStart := leastGreaterKey (BTreeNode_getLowerFence b) fullKeyLen\<rparr>
      in out\<lparr>d_slotCount := u16 (computeSlotCount valLen (DenseNode_fencesOffset out)), d_tag := Tag_Dense,
             d_valLen := u16 valLen, d_occupiedCount := 0\<rparr>)"

definition densifyIndex :: "BTreeNode \<Rightarrow> nat \<Rightarrow> 32 word \<Rightarrow> nat \<Rightarrow> nat" where
  "densifyIndex b fullKeyLen start i =
     unat (getNumericPart (BTreeNode_getPrefix b) fullKeyLen +
       getNumericPart (BTreeNode_getKey b i) (fullKeyLen - b_prefixLength b) - start)"

lemma densify1_eq:
  fixes b :: BTreeNode
  defines "full \<equiv> s_keyLen (b_slot b 0) + b_prefixLength b" and "valLen \<equiv> s_payloadLen (b_slot b 0)"
  defines "page \<equiv> densifyPage b full valLen" and "lo \<equiv> BTreeNode_getLowerFence b"
  assumes pl: "b_prefixLength b = lcp lo (BTreeNode_getUpperFence b)" and small: "full < 65536"
  shows "densify1 b =
     (if length lo + 4 < full then None
      else if list_ex (\<lambda>i. s_keyLen (b_slot b i) \<noteq> s_keyLen (b_slot b 0) \<or> s_payloadLen (b_slot b i) \<noteq> valLen) [1..<b_count b] then None
      else if list_ex (\<lambda>i. BTreeNode_getKey b (b_count b - 1) ! (i - b_prefixLength b) \<noteq> lo ! i) [b_prefixLength b..<full - 4] \<or>
        densifyIndex b full (d_arrayStart page) (b_count b - 1) \<ge> d_slotCount page then None
      else Some ((densePutAll (densifyIndex b full) (BTreeNode_getPayload b) (b_count b)
        (withFences lo (BTreeNode_getUpperFence b) (DenseNode_zeroMask page)))\<lparr>d_occupiedCount := b_count b\<rparr>))"
proof -
  let ?up = "BTreeNode_getUpperFence b" and ?z = "DenseNode_zeroMask page"
  note zf = sameButMask_fields [OF zeroMask_facts(1) [of page]]
  have pf: "d_arrayStart page = leastGreaterKey lo full" "d_fullKeyLen page = full"
    using small by (simp_all add: page_def densifyPage_def Let_def lo_def c_arith)
  have wf: "withFences lo ?up ?z = ?z\<lparr>d_heap := store (store (d_heap ?z) (pageSizeLeaf - length lo) lo)
      (DenseNode_fencesOffset ?z) ?up, d_prefixLength := b_prefixLength b\<rparr>"
    by (rule DenseNode.equality) (simp_all add: withFences_def pl zf pf)
  show ?thesis
    unfolding wf unfolding densify1_def Let_def densePutAll_def densePut_def densifyIndex_def page_def densifyPage_def
    by (simp add: full_def valLen_def lo_def sizeof_NumericPart_def)
qed

lemma densify1_Some:
  fixes b :: BTreeNode
  defines "full \<equiv> s_keyLen (b_slot b 0) + b_prefixLength b" and "valLen \<equiv> s_payloadLen (b_slot b 0)"
  defines "page \<equiv> densifyPage b full valLen" and "lo \<equiv> BTreeNode_getLowerFence b"
  assumes some: "densify1 b = Some d" and pl: "b_prefixLength b = lcp lo (BTreeNode_getUpperFence b)"
    and small: "full < 65536"
  shows "full \<le> length lo + 4"
    "\<And>i. 1 \<le> i \<Longrightarrow> i < b_count b \<Longrightarrow> s_keyLen (b_slot b i) = s_keyLen (b_slot b 0) \<and> s_payloadLen (b_slot b i) = valLen"
    "\<And>i. b_prefixLength b \<le> i \<Longrightarrow> i < full - 4 \<Longrightarrow> BTreeNode_getKey b (b_count b - 1) ! (i - b_prefixLength b) = lo ! i"
    "densifyIndex b full (d_arrayStart page) (b_count b - 1) < d_slotCount page"
    "d = (densePutAll (densifyIndex b full) (BTreeNode_getPayload b) (b_count b)
      (withFences lo (BTreeNode_getUpperFence b) (DenseNode_zeroMask page)))\<lparr>d_occupiedCount := b_count b\<rparr>"
proof -
  define outside where "outside \<longleftrightarrow>
    list_ex (\<lambda>i. BTreeNode_getKey b (b_count b - 1) ! (i - b_prefixLength b) \<noteq> lo ! i) [b_prefixLength b..<full - 4] \<or>
    densifyIndex b full (d_arrayStart page) (b_count b - 1) \<ge> d_slotCount page"
  note eq = densify1_eq [OF pl [unfolded lo_def] small [unfolded full_def], folded full_def valLen_def lo_def,
      folded page_def, folded outside_def]
  show "full \<le> length lo + 4" using some unfolding eq by (simp split: if_split_asm)
  have no: "\<not> list_ex (\<lambda>i. s_keyLen (b_slot b i) \<noteq> s_keyLen (b_slot b 0) \<or> s_payloadLen (b_slot b i) \<noteq> valLen) [1..<b_count b]"
    "\<not> outside"
    using some unfolding eq by (simp_all split: if_split_asm)
  show "s_keyLen (b_slot b i) = s_keyLen (b_slot b 0) \<and> s_payloadLen (b_slot b i) = valLen"
    if "1 \<le> i" "i < b_count b" for i
    using no(1) that by (auto simp: list_ex_iff)
  show "BTreeNode_getKey b (b_count b - 1) ! (i - b_prefixLength b) = lo ! i" if "b_prefixLength b \<le> i" "i < full - 4" for i
    using no(2) that by (auto simp: outside_def list_ex_iff)
  show "densifyIndex b full (d_arrayStart page) (b_count b - 1) < d_slotCount page"
    using no(2) by (simp add: outside_def)
  show "d = (densePutAll (densifyIndex b full) (BTreeNode_getPayload b) (b_count b)
      (withFences lo (BTreeNode_getUpperFence b) (DenseNode_zeroMask page)))\<lparr>d_occupiedCount := b_count b\<rparr>"
    using some no unfolding eq by (simp split: if_split_asm)
qed

text \<open>When only the last key is known to agree with the lower fence up to the numeric part, all
  smaller keys do.\<close>

lemma prefix_below:
  fixes lo key last' :: bytes
  assumes "take m last' = take m lo" "m \<le> length lo" "lo = [] \<or> lo < key" "key \<le> last'"
  shows "take m key = take m lo"
proof (cases "m = 0")
  case False
  then have "lo < key" "m \<le> length last'" using assms by (auto dest: arg_cong [of _ _ length])
  with prefix_between [of lo key last' m] assms show ?thesis by (simp add: less_imp_le)
qed simp

lemma densifyPage_facts:
  fixes b :: BTreeNode and full valLen :: nat
  assumes ok: "pageOk (b_count b) b" and full: "length (BTreeNode_getLowerFence b) + max (length (BTreeNode_getUpperFence b)) full \<le> 4096"
    and val: "valLen \<le> 4096"
  defines "page \<equiv> densifyPage b full valLen"
  shows "d_lowerFenceLen page = length (BTreeNode_getLowerFence b)" "d_upperFenceLen page = length (BTreeNode_getUpperFence b)"
    "d_fullKeyLen page = full" "d_tag page = Tag_Dense" "d_valLen page = valLen" "d_occupiedCount page = 0"
    "d_arrayStart page = leastGreaterKey (BTreeNode_getLowerFence b) full" "d_slotCount page < 65536"
    "d_slotCount page \<noteq> 0 \<Longrightarrow>
      24 + 8 * DenseNode_maskWordCount page + d_slotCount page * d_valLen page \<le> DenseNode_fencesOffset page"
proof -
  show f: "d_lowerFenceLen page = length (BTreeNode_getLowerFence b)" "d_upperFenceLen page = length (BTreeNode_getUpperFence b)"
    "d_fullKeyLen page = full" "d_tag page = Tag_Dense" "d_valLen page = valLen" "d_occupiedCount page = 0"
    "d_arrayStart page = leastGreaterKey (BTreeNode_getLowerFence b) full"
    using full val by (simp_all add: page_def densifyPage_def Let_def c_arith)
  let ?fo = "DenseNode_fencesOffset page"
  have "?fo = 4096 - length (BTreeNode_getLowerFence b) - max (length (BTreeNode_getUpperFence b)) full"
  proof -
    have "length (BTreeNode_getLowerFence b) \<le> 4096"
      "max (length (BTreeNode_getUpperFence b)) full \<le> 4096 - length (BTreeNode_getLowerFence b)" using full by linarith+
    then show ?thesis unfolding DenseNode_fencesOffset_def f pageSizeLeaf_def by (simp add: sub32_eq)
  qed
  then have fo: "?fo \<le> 4096" by simp
  have sc: "d_slotCount page = u16 (computeSlotCount valLen ?fo)"
    by (simp add: page_def densifyPage_def Let_def DenseNode_fencesOffset_def)
  have "u16 (computeSlotCount valLen ?fo) = computeSlotCount valLen ?fo"
    using computeSlotCount_less [OF fo] by (rule u16_eq)
  with sc have sc': "d_slotCount page = computeSlotCount valLen ?fo" by simp
  then show "d_slotCount page < 65536" using computeSlotCount_less [OF fo] by simp
  show "24 + 8 * DenseNode_maskWordCount page + d_slotCount page * d_valLen page \<le> ?fo" if "d_slotCount page \<noteq> 0"
    using computeSlotCount_fits [of valLen ?fo] that
    by (simp add: sc' DenseNode_maskWordCount_def maskBitsPerWord_def f(5) add.commute [of _ 63])
qed

lemma esize_nth_le: "i < length es \<Longrightarrow> length (fst (es ! i)) + length (snd (es ! i)) \<le> esize es"
proof (induction es arbitrary: i)
  case (Cons e es)
  then show ?case by (cases i) (fastforce simp: trans_le_add2)+
qed simp

lemma getNumericPart_0: "getNumericPart key 0 = 0"
  by (simp add: getNumericPart_def Let_def)

lemma densify1_correct:
  assumes leaf: "leafInv b" and cnt: "0 < b_count b" and some: "densify1 b = Some d"
  shows "DenseNode_inv d" "denseEntries d = fullEntries b" "DenseNode_covers d = BTreeNode_covers b"
    "d_fullKeyLen d = s_keyLen (b_slot b 0) + b_prefixLength b" "d_valLen d = s_payloadLen (b_slot b 0)"
    "d_prefixLength d = b_prefixLength b"
    "DenseNode_getLowerFence d = BTreeNode_getLowerFence b" "DenseNode_getUpperFence d = BTreeNode_getUpperFence b"
proof -
  let ?lo = "BTreeNode_getLowerFence b" and ?up = "BTreeNode_getUpperFence b" and ?p = "b_prefixLength b"
  define full valLen where fv: "full = s_keyLen (b_slot b 0) + ?p" "valLen = s_payloadLen (b_slot b 0)"
  have inv: "BTreeNode_inv b" and kf: "\<forall>k \<in> fst ` set (fullEntries b). inFences ?lo ?up k"
    using leaf by (auto simp: leafInv_def keysInFences_def)
  note ok = inv_facts(1) [OF inv] and sorted = inv_facts(2) [OF inv]
  note bd = pageOk_bounds [OF ok]
  have pl: "?p = lcp ?lo ?up" using ok by (simp add: pageOk_def)
  have "s_keyLen (b_slot b 0) + valLen \<le> esize (entries b)"
    using esize_nth_le [of 0 "entries b"] cnt by (simp add: entries_def nth_entriesUpto fv)
  moreover have "length ?lo + length ?up + esize (entries b) \<le> 4004"
    using bd(1,2) ok by (simp add: pageOk_def entries_def)
  ultimately have sz: "length ?lo + max (length ?up) full \<le> 4096" "valLen \<le> 4096"
    using bd(4) by (auto simp: fv)
  define page where "page = densifyPage b full valLen"
  have "full < 65536" using sz(1) by simp
  note d1 = densify1_Some [OF some pl, folded fv, OF this, folded page_def]
  note pf = densifyPage_facts [OF ok sz, folded page_def]
  let ?xs = "fullEntries b" and ?idx = "densifyIndex b full" and ?last = "b_count b - 1"
  have key: "fst (?xs ! i) = BTreeNode_getPrefix b @ BTreeNode_getKey b i" "snd (?xs ! i) = BTreeNode_getPayload b i"
    "length (fst (?xs ! i)) = full" "length (snd (?xs ! i)) = valLen"
    "?idx start i = unat (getNumericPart (fst (?xs ! i)) full - start)" if "i < b_count b" for i start
  proof -
    have l: "s_keyLen (b_slot b i) = s_keyLen (b_slot b 0)" "s_payloadLen (b_slot b i) = valLen"
      using d1(2) [of i] that by (cases "i = 0"; simp add: fv)+
    show x: "fst (?xs ! i) = BTreeNode_getPrefix b @ BTreeNode_getKey b i" "snd (?xs ! i) = BTreeNode_getPayload b i"
      using that by (simp_all add: nth_fullEntries)
    then show "length (fst (?xs ! i)) = full" "length (snd (?xs ! i)) = valLen" using l by (simp_all add: fv)
    show "?idx start i = unat (getNumericPart (fst (?xs ! i)) full - start)"
      using numericPart_truncated [of "BTreeNode_getPrefix b" "BTreeNode_getKey b i" full] l x
      by (simp add: densifyIndex_def fv)
  qed
  have slots: "d_slotCount page \<noteq> 0" using d1(4) by simp
  have full: "0 < full"
  proof (rule ccontr)
    assume "\<not> 0 < full"
    then have "full = 0" by simp
    then have "?idx (d_arrayStart page) ?last = 4294967295"
      using key(5) [of ?last "d_arrayStart page"] cnt by (simp add: pf(7) leastGreaterKey_def getNumericPart_0 unsigned_minus_1_eq_mask mask_eq_exp_minus_1)
    with d1(4) pf(8) show False by simp
  qed
  let ?z = "DenseNode_zeroMask page"
  let ?w = "withFences ?lo ?up ?z"
  note zm = zeroMask_facts [where n = page]
  note zf = sameButMask_fields [OF zm(1)]
  have np: "nprefLen ?z \<le> length ?lo" using d1(1) by (simp add: zf pf(3) computeNumeric_facts(3))
  have wf: "denseLayout ?w" "DenseNode_getLowerFence ?w = ?lo" "DenseNode_getUpperFence ?w = ?up"
    "\<And>w. w < DenseNode_maskWordCount ?z \<Longrightarrow> DenseNode_mask ?w w = DenseNode_mask ?z w"
    by (rule withFences_facts; use sz(1) pf slots full np in \<open>simp add: zf\<close>)+
  have wc: "DenseNode_maskWordCount ?w = DenseNode_maskWordCount ?z" "d_fullKeyLen ?w = full"
    "d_arrayStart ?w = d_arrayStart page" "d_slotCount ?w = d_slotCount page" "d_valLen ?w = valLen"
    by (simp_all add: withFences_def DenseNode_maskWordCount_def zf pf)
  have "\<forall>w<DenseNode_maskWordCount ?w. DenseNode_mask ?w w = 0"
    using wf(4) zm(2) zf(10) wc(1) by simp
  note e = empty_page [OF wf(1) this]
  have f: "denseFences ?w" using wf(1) by (simp add: denseLayout_def)
  have cov: "DenseNode_covers ?w (fst (?xs ! i))" if "i < b_count b" for i
    using kf that nth_mem [of i ?xs] by (simp add: DenseNode_covers_def wf(2,3))
  have fp: "nprefLen ?w = full - 4" by (simp add: wc computeNumeric_facts(3))
  have lastk: "take (full - 4) (fst (?xs ! ?last)) = take (full - 4) ?lo"
  proof (rule nth_equalityI)
    let ?k = "fst (?xs ! ?last)"
    have lk: "length ?k = full" "?k = BTreeNode_getPrefix b @ BTreeNode_getKey b ?last" using key cnt by simp_all
    show "length (take (full - 4) ?k) = length (take (full - 4) ?lo)" using lk d1(1) by simp
    fix i assume "i < length (take (full - 4) ?k)"
    then have i: "i < full - 4" by simp
    have "?k ! i = ?lo ! i"
    proof (cases "i < ?p")
      case True
      then show ?thesis unfolding lk(2) getPrefix_take(1) [OF ok] using bd(3) by (simp add: nth_append)
    next
      case False
      then show ?thesis unfolding lk(2) using d1(3) [of i] i by (simp add: nth_append)
    qed
    with i show "take (full - 4) ?k ! i = take (full - 4) ?lo ! i" by simp
  qed
  have le: "fst (?xs ! i) \<le> fst (?xs ! ?last)" if "i < b_count b" for i
    using sorted that by (cases "i = ?last") (auto simp: sorted_wrt_iff_nth_less less_imp_le)
  have same: "take (nprefLen ?w) (fst (?xs ! i)) = take (nprefLen ?w) (DenseNode_getLowerFence ?w)" if "i < b_count b" for i
    unfolding fp wf(2) using prefix_below [OF lastk _ _ le [OF that]] d1(1) kf that nth_mem [of i ?xs]
    by (auto simp: inFences_def)
  have ck: "fst (?xs ! i) = DenseNode_key ?w (?idx (d_arrayStart ?w) i)" "slotInRange ?w (?idx (d_arrayStart ?w) i)"
    if "i < b_count b" for i
    using covered_key [OF f cov [OF that] _ same [OF that]] key(3,5) [OF that] by (simp_all add: wc)
  have "?idx (d_arrayStart ?w) i < d_slotCount ?w" if "i < b_count b" for i
  proof (rule ccontr)
    assume "\<not> ?idx (d_arrayStart ?w) i < d_slotCount ?w"
    then have "?idx (d_arrayStart ?w) ?last < ?idx (d_arrayStart ?w) i" using d1(4) wc by simp
    from DenseNode_key_less [OF f ck(2) [OF that] this] ck(1) [OF that] ck(1) [of ?last] le [OF that] cnt
    show False by simp
  qed
  then have idx: "?idx (d_arrayStart ?w) i < d_slotCount ?w \<and> slotInRange ?w (?idx (d_arrayStart ?w) i) \<and>
      DenseNode_covers ?w (fst (?xs ! i))" if "i < length ?xs" for i
    using that ck(2) cov by simp
  have vals: "densePutAll ?idx (\<lambda>i. snd (?xs ! i)) (b_count b) ?w = densePutAll ?idx (BTreeNode_getPayload b) (b_count b) ?w"
    unfolding densePutAll_def by (rule fold_cong) (simp_all add: key(2))
  have d: "d = (densePutAll ?idx (\<lambda>i. snd (?xs ! i)) (b_count b) ?w)\<lparr>d_occupiedCount := b_count b\<rparr>"
    unfolding vals by (rule d1(5))
  have a: "DenseNode_inv d \<and> DenseNode_content d = map_of (take (b_count b) ?xs) \<and>
      sameSlots ?w (densePutAll ?idx (\<lambda>i. snd (?xs ! i)) (b_count b) ?w)"
    unfolding d by (rule densePutAll_correct [OF e inv_facts(4) [OF inv]]) (use idx in \<open>simp_all add: ck(1) key(4) wc\<close>)
  then show invd: "DenseNode_inv d" by simp
  have ss: "sameSlots ?w d" unfolding d sameSlots_occupied using a by simp
  show "denseEntries d = fullEntries b"
    using a by (intro sorted_entries_unique [OF denseEntries_sorted [OF invd] sorted]) (simp add: DenseNode_content_def)
  show fe: "DenseNode_getLowerFence d = ?lo" "DenseNode_getUpperFence d = ?up" using ss wf by (simp_all add: sameSlots_def)
  then show "DenseNode_covers d = BTreeNode_covers b" by (simp add: DenseNode_covers_def BTreeNode_covers_def)
  show "d_fullKeyLen d = s_keyLen (b_slot b 0) + ?p" "d_valLen d = s_payloadLen (b_slot b 0)"
    using ss wc(2,5) by (simp_all add: sameSlots_def fv)
  show "d_prefixLength d = ?p" using DenseNode_invD(2) [OF invd] by (simp add: denseFences_def fe pl)
qed

end
