(* ===== verification/DenseNodeSplit.thy ===== *)
theory DenseNodeSplit
  imports DenseNodeConvert
begin

text \<open>
  A dense leaf of type 1 turned into a basic leaf, and its split: the entries survive the
  conversion when they fit, and a split for a key outside the array leaves them in the left page.
\<close>

subsection \<open>To a basic leaf\<close>

lemma numericBytes_drop: "k \<le> len \<Longrightarrow> len \<le> 4 \<Longrightarrow> drop k (numericBytes len x) = numericBytes (len - k) x"
  by (simp add: numericBytes_def sizeof_NumericPart_def) (metis Nat.diff_diff_right add.commute)

text \<open>The key of a slot without the prefix, as the conversion copies it.\<close>

lemma DenseNode_key_drop:
  assumes f: "denseFences n" and p: "d_prefixLength n \<le> d_fullKeyLen n"
  shows "drop (d_prefixLength n) (DenseNode_key n i) =
    (if nprefLen n > d_prefixLength n
     then load (d_heap n) (pageSizeLeaf - d_lowerFenceLen n + d_prefixLength n) (nprefLen n - d_prefixLength n) @
       numericBytes (npLen n) (d_arrayStart n + word_of_nat i)
     else numericBytes (d_fullKeyLen n - d_prefixLength n) (d_arrayStart n + word_of_nat i))"
proof -
  let ?p = "d_prefixLength n" and ?fp = "nprefLen n" and ?nb = "numericBytes (npLen n) (d_arrayStart n + word_of_nat i)"
  note c = computeNumeric_facts(1,2) [of "d_fullKeyLen n"]
  have l: "length (take ?fp (DenseNode_getLowerFence n)) = ?fp" using f by (simp add: denseFences_def)
  show ?thesis
  proof (cases "?fp > ?p")
    case True
    then have "drop ?p (DenseNode_key n i) = drop ?p (take ?fp (DenseNode_getLowerFence n)) @ ?nb"
      using l by (simp add: DenseNode_key_eq)
    then show ?thesis using True mid_bytes [OF f] by simp
  next
    case False
    then have "drop ?p (DenseNode_key n i) = drop (?p - ?fp) ?nb"
      using l by (simp add: DenseNode_key_eq)
    also have "\<dots> = numericBytes (npLen n - (?p - ?fp)) (d_arrayStart n + word_of_nat i)"
      by (rule numericBytes_drop) (use False c p in linarith)+
    also have "npLen n - (?p - ?fp) = d_fullKeyLen n - ?p" using False c p by linarith
    finally show ?thesis using False by simp
  qed
qed

lemma present_bounds:
  assumes inv: "DenseNode_inv n" and i: "i < d_slotCount n" "DenseNode_isSlotPresent n i"
  shows "d_prefixLength n \<le> d_fullKeyLen n" "d_valLen n \<le> 4096"
proof -
  note f = DenseNode_invD(2) [OF inv]
  show "d_prefixLength n \<le> d_fullKeyLen n"
    using covers_densePrefix(1) [OF f] DenseNode_invD(4) [OF inv i] DenseNode_key_facts(1) [OF f] by metis
  have "1 * d_valLen n \<le> d_slotCount n * d_valLen n" using i(1) by (intro mult_le_mono1) simp
  then show "d_valLen n \<le> 4096"
    using DenseNode_invD(1) [OF inv] unfolding denseLayout_def denseFences_bounds(1) [OF f] by linarith
qed

lemma copyToBasicStep_present:
  assumes inv: "DenseNode_inv n" and i: "i < d_slotCount n" "DenseNode_isSlotPresent n i"
    and p: "b_prefixLength dst = d_prefixLength n"
  shows "DenseNode_copyToBasicStep n i (dst, k) =
    (BTreeNode_storeKeyValue k (DenseNode_key n i) (DenseNode_getVal n i) dst, k + 1)"
proof -
  note f = DenseNode_invD(2) [OF inv] and b = present_bounds [OF inv i]
  note key = DenseNode_key_drop [OF f b(1), of i]
  have tag: "d_tag n = Tag_Dense" using DenseNode_invD(1) [OF inv] by (simp add: denseLayout_def)
  have full: "d_fullKeyLen n \<le> 4096" by (rule denseFences_bounds(6) [OF f])
  let ?len = "d_fullKeyLen n - d_prefixLength n" and ?k = "drop (d_prefixLength n) (DenseNode_key n i)"
  have len: "length ?k = ?len" using DenseNode_key_facts(1) [OF f] by simp
  have a: "sub32 (d_fullKeyLen n) (d_prefixLength n) = ?len" "u32 (?len + d_valLen n) = ?len + d_valLen n"
    "u16 ?len = ?len" "u16 (d_valLen n) = d_valLen n"
    using b full by (simp_all add: c_arith)
  have np: "d_fullKeyLen n - npLen n = nprefLen n" by (simp add: computeNumericPrefixLength_def)
  show ?thesis
    unfolding DenseNode_copyToBasicStep_def BTreeNode_storeKeyValue_def Let_def prod.case p a np key [symmetric] tag
    using i(2) len by (simp add: a load_store_other load_store_same)
qed

definition denseUpto :: "DenseNode \<Rightarrow> nat \<Rightarrow> entry list" where
  "denseUpto n m = map (\<lambda>i. (DenseNode_key n i, DenseNode_getVal n i)) (filter (DenseNode_isSlotPresent n) [0..<m])"

lemma denseUpto_Suc:
  "denseUpto n (Suc m) = denseUpto n m @
    (if DenseNode_isSlotPresent n m then [(DenseNode_key n m, DenseNode_getVal n m)] else [])"
  by (simp add: denseUpto_def)

lemma copyToBasic_storeAll:
  assumes inv: "DenseNode_inv n" and p: "b_prefixLength dst = d_prefixLength n"
  shows "m \<le> d_slotCount n \<Longrightarrow>
    fold (DenseNode_copyToBasicStep n) [0..<m] (dst, 0) = (storeAll 0 (denseUpto n m) dst, length (denseUpto n m))"
proof (induction m)
  case (Suc m)
  then show ?case
  proof (cases "DenseNode_isSlotPresent n m")
    case True
    with Suc copyToBasicStep_present [OF inv, of m "storeAll 0 (denseUpto n m) dst"] p
    show ?thesis by (simp add: denseUpto_Suc storeAll_snoc)
  next
    case False
    with Suc show ?thesis by (simp add: denseUpto_Suc DenseNode_copyToBasicStep_def)
  qed
qed (simp add: denseUpto_def)

text \<open>The room the entries take in a basic leaf.\<close>

definition denseAsBasic :: "DenseNode \<Rightarrow> nat \<Rightarrow> nat" where
  "denseAsBasic n len = d_occupiedCount n * (d_fullKeyLen n - d_prefixLength n + len + 10) +
     d_lowerFenceLen n + d_upperFenceLen n + 92"

lemma length_denseEntries: "DenseNode_inv n \<Longrightarrow> length (denseEntries n) = d_occupiedCount n"
  by (simp add: denseEntries_def DenseNode_invD(3))

lemma esize_const: "(\<And>e. e \<in> set es \<Longrightarrow> length (fst e) + length (snd e) = s) \<Longrightarrow> esize es = length es * s"
  by (induction es) auto

lemma convertToBasic_correct:
  assumes inv: "DenseNode_inv n" and room: "denseAsBasic n (d_valLen n) \<le> 4096"
  defines "b \<equiv> DenseNode_convertToBasic n"
  shows "leafInv b" "fullEntries b = denseEntries n" "BTreeNode_getLowerFence b = DenseNode_getLowerFence n"
    "BTreeNode_getUpperFence b = DenseNode_getUpperFence n" "b_prefixLength b = d_prefixLength n"
proof -
  let ?lo = "DenseNode_getLowerFence n" and ?up = "DenseNode_getUpperFence n" and ?es = "denseEntries n"
  let ?f = "freshPage True RangeOpCounter_new ?lo ?up"
  note f = DenseNode_invD(2) [OF inv] and le = length_denseEntries [OF inv]
  have pl: "d_prefixLength n = lcp ?lo ?up" using f by (simp add: denseFences_def)
  have "esize (truncated (d_prefixLength n) ?es) = length (truncated (d_prefixLength n) ?es) *
      (d_fullKeyLen n - d_prefixLength n + d_valLen n)"
    by (rule esize_const) (auto simp: truncated_def denseEntries_def DenseNode_key_facts(1) [OF f])
  then have "esize (truncated (lcp ?lo ?up) ?es) = d_occupiedCount n * (d_fullKeyLen n - d_prefixLength n + d_valLen n)"
    by (simp add: le pl)
  then have fits: "fitsPage (length ?es) ?lo ?up ?es"
    using room by (simp add: fitsPage_def denseAsBasic_def le algebra_simps)
  then have "length ?lo + length ?up + 92 \<le> 4096" by (simp add: fitsPage_def)
  note ff = freshPage_facts [OF this, of True RangeOpCounter_new]
  have all: "denseUpto n (d_slotCount n) = ?es" by (simp add: denseUpto_def denseEntries_def densePresent_def)
  have "b_prefixLength ?f = d_prefixLength n" using ff(8) pl by simp
  from copyToBasic_storeAll [OF inv this order_refl]
  have "DenseNode_copyKeyValueRangeToBasic n 0 (d_slotCount n) ?f = (storeAll 0 ?es ?f)\<lparr>b_count := u16 (length ?es)\<rparr>"
    by (simp add: DenseNode_copyKeyValueRangeToBasic_def all)
  moreover have "u16 (length ?es) = length ?es" using DenseNode_invD(5) [OF inv] le by (simp add: c_arith)
  ultimately have b: "b = BTreeNode_makeHint ((storeAll 0 ?es ?f)\<lparr>b_count := length ?es\<rparr>)"
    by (simp add: b_def DenseNode_convertToBasic_def freshPage_def)
  have "\<forall>k \<in> fst ` set ?es. inFences ?lo ?up k"
    using densePresent_range(4) [OF inv] by (auto simp: denseEntries_def DenseNode_covers_def)
  note fl = freshLeaf_storeAll [OF fits this denseEntries_sorted [OF inv], of RangeOpCounter_new, folded b]
  show "leafInv b" "fullEntries b = ?es" "BTreeNode_getLowerFence b = ?lo" "BTreeNode_getUpperFence b = ?up"
    "b_prefixLength b = d_prefixLength n" using fl pl by simp_all
qed

subsection \<open>Split\<close>

lemma split_boundary:
  assumes "denseFences n"
  shows "restoreNumericKey (d_arrayStart n) (d_fullKeyLen n)
    (load (d_heap n) (pageSizeLeaf - d_lowerFenceLen n) (nprefLen n)) i = DenseNode_key n i"
  using assms by (simp add: DenseNode_key_def restoreNumericKey_def Let_def DenseNode_getLowerFence_def
      computeNumericPrefixLength_def denseFences_def min_absorb1)

text \<open>The left page: the same slots below a new upper fence.\<close>

lemma changeUpperFence_correct:
  assumes inv: "DenseNode_inv n" and len: "length up = d_fullKeyLen n"
    and below: "\<And>i. i < d_slotCount n \<Longrightarrow> DenseNode_isSlotPresent n i \<Longrightarrow> DenseNode_key n i \<le> up"
  defines "l \<equiv> DenseNode_changeUpperFence up n"
  shows "DenseNode_inv l" "denseEntries l = denseEntries n" "DenseNode_getLowerFence l = DenseNode_getLowerFence n"
    "DenseNode_getUpperFence l = up" "d_fullKeyLen l = d_fullKeyLen n" "d_valLen l = d_valLen n"
proof -
  note f = DenseNode_invD(2) [OF inv]
  note b = denseFences_bounds [OF f]
  let ?lo = "DenseNode_getLowerFence n" and ?full = "d_fullKeyLen n" and ?ll = "d_lowerFenceLen n"
  let ?n = "n\<lparr>d_upperFenceLen := ?full\<rparr>"
  let ?fo = "DenseNode_fencesOffset ?n"
  have lf: "?ll + ?full \<le> 4096" using f by (auto simp: denseFences_def)
  then have lf': "?ll \<le> 4096" "?full \<le> 4096 - ?ll" by linarith+
  then have fo: "?fo = 4096 - ?ll - ?full"
    by (simp add: DenseNode_fencesOffset_def pageSizeLeaf_def c_arith)
  have room: "24 + 8 * DenseNode_maskWordCount n + d_slotCount n * d_valLen n \<le> DenseNode_fencesOffset n"
    using DenseNode_invD(1) [OF inv] by (simp add: denseLayout_def)
  have ge: "DenseNode_fencesOffset n \<le> ?fo" unfolding fo b(1) by linarith
  define n1 where "n1 = ?n\<lparr>d_heap := store (d_heap n) ?fo up\<rparr>"
  have n1_fo: "DenseNode_fencesOffset n1 = ?fo" by (simp add: n1_def DenseNode_fencesOffset_def)
  have "?fo + length up \<le> 4096 - ?ll" using lf' fo len by simp
  then have fe: "DenseNode_getLowerFence n1 = ?lo" "DenseNode_getUpperFence n1 = up"
    unfolding DenseNode_getLowerFence_def DenseNode_getUpperFence_def n1_fo
    by (simp_all add: n1_def pageSizeLeaf_def load_store_other load_store_same len)
  have "u16 ?full = ?full" using b(6) by (simp add: c_arith)
  then have "l = DenseNode_updatePrefixLength n1"
    by (simp add: l_def DenseNode_changeUpperFence_def Let_def len n1_def)
  also have "\<dots> = n1\<lparr>d_prefixLength := for_until (\<lambda>i. ?lo ! i \<noteq> up ! i) 0 (min (length up) (length ?lo))\<rparr>"
    unfolding DenseNode_updatePrefixLength_def fe by (simp add: n1_def len)
  finally have l: "l = n1\<lparr>d_prefixLength := lcp ?lo up\<rparr>" unfolding for_until_lcp .
  have lw: "DenseNode_maskWordCount l = DenseNode_maskWordCount n" "DenseNode_fencesOffset l = ?fo"
    "DenseNode_valOffset l i = DenseNode_valOffset n i" "slotInRange l i = slotInRange n i" for i
    by (simp_all add: l n1_def DenseNode_maskWordCount_def DenseNode_fencesOffset_def DenseNode_valOffset_def slotInRange_def)
  show lfe: "DenseNode_getLowerFence l = ?lo" "DenseNode_getUpperFence l = up"
    using fe by (simp_all add: l DenseNode_getLowerFence_def DenseNode_getUpperFence_def DenseNode_fencesOffset_def)
  show "d_fullKeyLen l = ?full" and vl: "d_valLen l = d_valLen n" by (simp_all add: l n1_def)
  have key: "DenseNode_key l i = DenseNode_key n i" for i by (simp add: DenseNode_key_def lfe) (simp add: l n1_def)
  have ll: "denseFences l" using f lf unfolding denseFences_def lfe by (simp add: l n1_def len)
  have lay: "denseLayout l"
    using ll DenseNode_invD(1) [OF inv] room ge unfolding denseLayout_def lw by (simp add: l n1_def)
  have mem: "load (d_heap l) a k = load (d_heap n) a k" if "a + k \<le> DenseNode_fencesOffset n" for a k
    using that ge by (simp add: l n1_def load_store_other)
  have pres: "DenseNode_isSlotPresent l i = DenseNode_isSlotPresent n i" if "i < 64 * DenseNode_maskWordCount n" for i
  proof -
    have "i div 64 < DenseNode_maskWordCount n" using that by (simp add: less_mult_imp_div_less mult.commute)
    then have "24 + i div 64 * 8 + 8 \<le> DenseNode_fencesOffset n" using room by linarith
    then show ?thesis
      by (simp add: DenseNode_isSlotPresent_def DenseNode_mask_def mem offsetof_mask_def maskBytesPerWord_def maskBitsPerWord_def)
  qed
  have val: "DenseNode_getVal l i = DenseNode_getVal n i" if "i < d_slotCount n" for i
  proof -
    have "Suc i * d_valLen n \<le> d_slotCount n * d_valLen n" using that by (intro mult_le_mono1) simp
    then have "DenseNode_valOffset n i + d_valLen n \<le> DenseNode_fencesOffset n" using room by (simp add: valOffset_eq)
    then show ?thesis unfolding DenseNode_getVal_def lw vl by (rule mem)
  qed
  have sc: "d_slotCount l = d_slotCount n" "d_occupiedCount l = d_occupiedCount n" by (simp_all add: l n1_def)
  have small: "i < 64 * DenseNode_maskWordCount n" if "i < d_slotCount n" for i
    using that slotCount_maskWords [of n] by simp
  then have dp: "densePresent l = densePresent n"
    unfolding densePresent_def sc using pres by (auto intro: filter_cong)
  then show "denseEntries l = denseEntries n"
    using val densePresent_range(1) [OF inv] by (auto simp: denseEntries_def key)
  have "DenseNode_covers l (DenseNode_key l i)" if "i < d_slotCount n" "DenseNode_isSlotPresent n i" for i
    using DenseNode_invD(4) [OF inv that] below [OF that] by (simp add: DenseNode_covers_def lfe key inFences_def)
  then show "DenseNode_inv l"
    using inv lay pres unfolding DenseNode_inv_def lw sc dp by auto
qed

text \<open>The right page: no entries, the boundary as its lower fence.\<close>

lemma changeLowerFence_correct:
  assumes tag: "0 < d_fullKeyLen n" and len: "length lo = d_fullKeyLen n" "length up = d_upperFenceLen n"
    and room: "length lo + max (length up) (d_fullKeyLen n) + 24 \<le> 4096"
  defines "r \<equiv> DenseNode_changeLowerFence lo up n"
  shows "DenseNode_inv r" "denseEntries r = []" "DenseNode_getLowerFence r = lo"
    "DenseNode_getUpperFence r = up" "d_fullKeyLen r = d_fullKeyLen n" "d_valLen r = d_valLen n"
    "d_slotCount r = computeSlotCount (d_valLen n) (4096 - length lo - max (length up) (d_fullKeyLen n))"
proof -
  let ?n = "n\<lparr>d_tag := Tag_Dense, d_lowerFenceLen := length lo, d_occupiedCount := 0\<rparr>"
  let ?fo = "DenseNode_fencesOffset ?n"
  let ?m = "?n\<lparr>d_slotCount := computeSlotCount (d_valLen n) ?fo\<rparr>"
  let ?z = "DenseNode_zeroMask ?m"
  note zm = zeroMask_facts [where n = ?m]
  note zf = sameButMask_fields [OF zm(1)]
  have "max (length up) (d_fullKeyLen n) \<le> 4096 - length lo" "length lo \<le> 4096" using room by linarith+
  then have fo: "?fo = 4096 - length lo - max (length up) (d_fullKeyLen n)"
    by (simp add: DenseNode_fencesOffset_def len(2) pageSizeLeaf_def c_arith)
  then have fo': "?fo \<le> 4096" "24 \<le> ?fo" using room by linarith+
  have u: "u16 (length lo) = length lo" "u16 (computeSlotCount (d_valLen n) ?fo) = computeSlotCount (d_valLen n) ?fo"
    using room computeSlotCount_less [OF fo'(1)] by (simp_all add: c_arith)
  let ?s = "?z\<lparr>d_heap := store (store (d_heap ?z) (pageSizeLeaf - length lo) lo) (DenseNode_fencesOffset ?z) up\<rparr>"
  let ?w = "withFences lo up ?z"
  have fom: "DenseNode_fencesOffset ?m = ?fo" by (simp add: DenseNode_fencesOffset_def)
  have layout: "24 + 8 * DenseNode_maskWordCount ?m + d_slotCount ?m * d_valLen ?m \<le> DenseNode_fencesOffset ?m"
    using computeSlotCount_fits [of "d_valLen n" ?fo] fo'(2) unfolding fom
    by (cases "computeSlotCount (d_valLen n) ?fo = 0")
      (simp_all add: DenseNode_maskWordCount_def maskBitsPerWord_def add.commute [of _ 63])
  have z: "d_tag ?z = Tag_Dense" "d_fullKeyLen ?z = d_fullKeyLen n" "d_lowerFenceLen ?z = length lo"
    "d_upperFenceLen ?z = length up" "d_valLen ?z = d_valLen n" "d_occupiedCount ?z = 0"
    "24 + 8 * DenseNode_maskWordCount ?z + d_slotCount ?z * d_valLen ?z \<le> DenseNode_fencesOffset ?z"
    unfolding zf using layout len(2) by simp_all
  have z': "length lo + max (length up) (d_fullKeyLen ?z) \<le> 4096" "0 < d_fullKeyLen ?z" "nprefLen ?z \<le> length lo"
    unfolding z(2) using room tag len(1) by (simp_all add: computeNumeric_facts(3))
  note wf = withFences_facts [OF z(3,4,1) z'(1) z(7) z'(2,3)]
  have sf: "DenseNode_getLowerFence ?s = lo" "DenseNode_getUpperFence ?s = up"
    using wf(2,3) by (simp_all add: withFences_def DenseNode_getLowerFence_def DenseNode_getUpperFence_def DenseNode_fencesOffset_def)
  have "r = DenseNode_updateArrayStart (DenseNode_updatePrefixLength ?s)"
    by (simp add: r_def DenseNode_changeLowerFence_def Let_def u)
  also have "DenseNode_updatePrefixLength ?s =
      ?s\<lparr>d_prefixLength := for_until (\<lambda>i. lo ! i \<noteq> up ! i) 0 (min (length up) (length lo))\<rparr>"
    unfolding DenseNode_updatePrefixLength_def sf using z(3,4) by simp
  also have "\<dots> = ?s\<lparr>d_prefixLength := lcp lo up\<rparr>" unfolding for_until_lcp ..
  also have "DenseNode_updateArrayStart (?s\<lparr>d_prefixLength := lcp lo up\<rparr>) = ?w"
  proof -
    have "DenseNode_getLowerFence (?s\<lparr>d_prefixLength := lcp lo up\<rparr>) = lo"
      using sf(1) by (simp add: DenseNode_getLowerFence_def)
    then show ?thesis by (simp add: DenseNode_updateArrayStart_def withFences_def)
  qed
  finally have r: "r = ?w" .
  have occ: "?w\<lparr>d_occupiedCount := 0\<rparr> = ?w" using z(6) by (intro DenseNode.equality) (simp_all add: withFences_def)
  have "DenseNode_maskWordCount ?w = DenseNode_maskWordCount ?z" by (simp add: withFences_def DenseNode_maskWordCount_def)
  then have "\<forall>w<DenseNode_maskWordCount ?w. DenseNode_mask ?w w = 0" using wf(4) zm(2) zf(10) by simp
  from empty_page [OF wf(1) this] occ show "DenseNode_inv r" "denseEntries r = []" by (simp_all add: r)
  show "DenseNode_getLowerFence r = lo" "DenseNode_getUpperFence r = up" "d_fullKeyLen r = d_fullKeyLen n"
    "d_valLen r = d_valLen n"
    using wf(2,3) z by (simp_all add: r) (simp_all add: withFences_def)
  have "d_slotCount r = d_slotCount ?m" unfolding r by (simp add: withFences_def zf)
  then show "d_slotCount r = computeSlotCount (d_valLen n) (4096 - length lo - max (length up) (d_fullKeyLen n))"
    unfolding fo by simp
qed

lemma fresh_basic_leaf:
  assumes "length lo + length up + 92 \<le> 4096"
  shows "leafInv (freshPage True roc lo up)" "fullEntries (freshPage True roc lo up) = []"
    "BTreeNode_getLowerFence (freshPage True roc lo up) = lo" "BTreeNode_getUpperFence (freshPage True roc lo up) = up"
proof -
  note f = freshPage_facts [OF assms, of True roc]
  show e: "fullEntries (freshPage True roc lo up) = []" using f(4) by (rule fullEntries_empty)
  show "leafInv (freshPage True roc lo up)"
    using f e by (simp add: leafInv_def BTreeNode_inv_def BTreeNode_validateHint_def keysInFences_def
        BTreeNode_isLeaf_def entries_def entriesUpto_def)
qed (use freshPage_facts [OF assms, of True roc] in simp_all)

text \<open>A key of the leaf's length without a slot is above all slots.\<close>

lemma outside_above:
  assumes f: "denseFences n" and cov: "DenseNode_covers n key" and len: "length key = d_fullKeyLen n"
    and out: "\<forall>i. DenseNode_keyToIndex n key \<noteq> Index i" and j: "j < d_slotCount n" "slotInRange n j"
  shows "DenseNode_key n j < key"
proof (cases "DenseNode_isNumericRangeAnyLen n key")
  case False
  then show ?thesis by (rule outside_range_above [OF f cov])
next
  case True
  then have same: "take (nprefLen n) key = take (nprefLen n) (DenseNode_getLowerFence n)"
    using numericRange_take [OF f cov] by simp
  let ?i = "unat (getNumericPart key (d_fullKeyLen n) - d_arrayStart n)"
  note k = covered_key [OF f cov len same]
  have "\<not> ?i < d_slotCount n" using keyToIndex_key [OF f k(2)] out k(1) by metis
  then have "j < ?i" using j(1) by simp
  from DenseNode_key_less [OF f k(2) this] show ?thesis using k(1) by simp
qed

lemma split_some:
  assumes "\<forall>i. DenseNode_keyToIndex n key \<noteq> Index i" "denseFences n"
  obtains toSelf where "DenseNode_splitPages1 n key = Some (DenseNode_key n (d_slotCount n - 1),
     DenseNode_changeUpperFence (DenseNode_key n (d_slotCount n - 1)) n,
     if toSelf then Inr (DenseNode_changeLowerFence (DenseNode_key n (d_slotCount n - 1)) (DenseNode_getUpperFence n) n)
     else Inl (freshPage True RangeOpCounter_new (DenseNode_key n (d_slotCount n - 1)) (DenseNode_getUpperFence n)))"
proof -
  from assms(1) obtain toSelf where "split_to_self (DenseNode_keyToIndex n key) = Some toSelf"
    by (cases "DenseNode_keyToIndex n key") (auto simp: split_to_self_def)
  then show ?thesis
    by (intro that [of toSelf]) (simp add: DenseNode_splitPages1_def Let_def split_boundary [OF assms(2)] freshPage_def)
qed

text \<open>When the numeric parts of the array wrap around, the last slot is below the lower fence.\<close>

lemma wrapped_slot_below:
  assumes inv: "DenseNode_inv n" and full: "4 \<le> d_fullKeyLen n" and i: "i < 65536" "\<not> slotInRange n i"
  shows "DenseNode_key n i \<le> DenseNode_getLowerFence n" "DenseNode_getLowerFence n \<noteq> []"
proof -
  note f = DenseNode_invD(2) [OF inv]
  let ?lo = "DenseNode_getLowerFence n" and ?fp = "nprefLen n"
  let ?L = "drop ?fp ?lo" and ?N = "drop ?fp (DenseNode_key n i)"
  have np: "npLen n = 4" using full by (simp add: computeNumericPartLen_def sizeof_NumericPart_def)
  have len: "length ?N = 4" using DenseNode_key_facts(1) [OF f] full by (simp add: computeNumeric_facts(3))
  have "4294967296 \<le> unat (d_arrayStart n) + i" using i(2) by (simp add: slotInRange_def np)
  moreover have "unat (d_arrayStart n) < 4294967296" using unsigned_less [of "d_arrayStart n"] by simp
  ultimately have "(unat (d_arrayStart n) + i) mod 4294967296 = unat (d_arrayStart n) + i - 4294967296"
      "unat (d_arrayStart n) + i - 4294967296 < unat (d_arrayStart n)"
    using i(1) le_mod_geq [of 4294967296 "unat (d_arrayStart n) + i"] by (simp_all add: mod_less)
  then have "(unat (d_arrayStart n) + i) mod 4294967296 < unat (d_arrayStart n)" by simp
  moreover have "be_pad 4 ?N = (unat (d_arrayStart n) + i) mod 4294967296"
    using i(1) by (simp add: DenseNode_key_facts(3) [OF f] np be_pad_numericBytes unat_word_ariths unat_of_nat
        del: be_pad_numeral)
  ultimately have less: "be_pad 4 ?N < unat (d_arrayStart n)" by simp
  have "d_arrayStart n = word_of_nat (be_pad 4 ?L + of_bool (d_fullKeyLen n \<le> length ?lo))"
    using f leastGreaterKey_value [of ?lo "d_fullKeyLen n"] np by (simp only: denseFences_def)
  then have "unat (d_arrayStart n) \<le> be_pad 4 ?L + of_bool (d_fullKeyLen n \<le> length ?lo)"
    by (simp only: unat_of_nat mod_less_eq_dividend)
  with less have le: "be_pad 4 ?N < be_pad 4 ?L \<or> be_pad 4 ?N = be_pad 4 ?L \<and> d_fullKeyLen n \<le> length ?lo"
    by (auto simp del: be_pad_numeral split: if_splits simp: of_bool_def)
  then have NL: "?N \<le> ?L"
  proof
    assume "be_pad 4 ?N < be_pad 4 ?L"
    then show ?thesis using be_pad_less_imp less_imp_le by blast
  next
    assume a: "be_pad 4 ?N = be_pad 4 ?L \<and> d_fullKeyLen n \<le> length ?lo"
    then have "d_fullKeyLen n \<le> d_lowerFenceLen n" by simp
    then have "4 \<le> length ?L"
      using full unfolding computeNumeric_facts(3) length_drop length_dense_reads by linarith
    then have "length (take 4 ?L) = 4" by (simp only: length_take min_absorb2)
    with len a have "?N = take 4 ?L" using be_pad_inj [of ?N 4 "take 4 ?L"] by (simp only: be_pad_take)
    then show ?thesis using le_append1 [of ?N "drop 4 ?L"] by (simp only: append_take_drop_id)
  qed
  have "take ?fp ?lo @ ?N \<le> take ?fp ?lo @ ?L" using NL by (simp only: le_append_same)
  then show "DenseNode_key n i \<le> ?lo"
    using DenseNode_key_facts(2) [OF f, of i] by (metis append_take_drop_id)
  then show "?lo \<noteq> []" using DenseNode_key_facts(1) [OF f, of i] full by auto
qed

end
