(* ===== verification/DenseNodeLeaf.thy ===== *)
theory DenseNodeLeaf
  imports DenseNodeSplit BTree
begin

text \<open>
  The leaf of the default configuration: a basic leaf that becomes dense when it is full of entries
  of one shape, and a dense leaf that becomes basic for a key of another length. Whatever its form,
  it is a map; with payloads of one length it is an interpretation of \<open>leaf_map\<close>.
\<close>

subsection \<open>The map of a leaf of either form\<close>

fun anyLower :: "AnyNode \<Rightarrow> bytes" where
  "anyLower (Basic b) = BTreeNode_getLowerFence b"
| "anyLower (Dense d) = DenseNode_getLowerFence d"
| "anyLower _ = []"

fun anyUpper :: "AnyNode \<Rightarrow> bytes" where
  "anyUpper (Basic b) = BTreeNode_getUpperFence b"
| "anyUpper (Dense d) = DenseNode_getUpperFence d"
| "anyUpper _ = []"

fun anyEntries :: "AnyNode \<Rightarrow> entry list" where
  "anyEntries (Basic b) = fullEntries b"
| "anyEntries (Dense d) = denseEntries d"
| "anyEntries _ = []"

definition anyCovers :: "AnyNode \<Rightarrow> bytes \<Rightarrow> bool" where
  "anyCovers node = inFences (anyLower node) (anyUpper node)"

definition anyContent :: "AnyNode \<Rightarrow> leaf_content" where
  "anyContent node = map_of (anyEntries node)"

lemma any_simps [simp]:
  "anyCovers (Basic b) = BTreeNode_covers b" "anyCovers (Dense d) = DenseNode_covers d"
  "anyContent (Basic b) = BTreeNode_content b" "anyContent (Dense d) = DenseNode_content d"
  by (simp_all add: anyCovers_def anyContent_def BTreeNode_covers_def DenseNode_covers_def
      BTreeNode_content_def DenseNode_content_def)

text \<open>All payloads have length \<open>len\<close>, and the fences leave room for an entry.\<close>

definition defaultLeaf :: "nat \<Rightarrow> AnyNode \<Rightarrow> bool" where
  "defaultLeaf len node \<longleftrightarrow>
     (case node of Basic b \<Rightarrow> leafInv b | Dense d \<Rightarrow> DenseNode_inv d \<and> d_valLen d = len | _ \<Rightarrow> False) \<and>
     (\<forall>k v. anyContent node k = Some v \<longrightarrow> length v = len) \<and>
     length (anyLower node) + length (anyUpper node) \<le> 2000"

definition defaultStorable :: "nat \<Rightarrow> bytes \<Rightarrow> bytes \<Rightarrow> bool" where
  "defaultStorable len k v \<longleftrightarrow> length v = len \<and> length k + length v \<le> 1900"

text \<open>The leaf's part of \<open>lookupImpl\<close> without adaptive operations.\<close>

definition anyLookup :: "bytes \<Rightarrow> AnyNode \<Rightarrow> bytes option" where
  "anyLookup key node =
     (case node of Basic b \<Rightarrow> BTreeNode_lookup key b | Dense d \<Rightarrow> DenseNode_lookup key d | _ \<Rightarrow> None)"

subsection \<open>Insert\<close>

text \<open>What an insert into a leaf may do to it.\<close>

definition insertOk :: "nat \<Rightarrow> AnyNode \<Rightarrow> bytes \<Rightarrow> bytes \<Rightarrow> AnyNode insert_result \<Rightarrow> bool" where
  "insertOk len node key v res \<longleftrightarrow>
     (case res of
        Inserted n' \<Rightarrow> defaultLeaf len n' \<and> anyContent n' = (anyContent node)(key \<mapsto> v) \<and>
          anyLower n' = anyLower node \<and> anyUpper n' = anyUpper node
      | NoSpace n' \<Rightarrow> defaultLeaf len n' \<and> anyContent n' = anyContent node \<and>
          anyLower n' = anyLower node \<and> anyUpper n' = anyUpper node
      | Aborted \<Rightarrow> anyContent node key \<noteq> None)"

lemma insertOk_congr:
  "anyContent node = anyContent node' \<Longrightarrow> anyLower node = anyLower node' \<Longrightarrow> anyUpper node = anyUpper node' \<Longrightarrow>
    insertOk len node key v res \<longleftrightarrow> insertOk len node' key v res"
  by (cases res) (simp_all add: insertOk_def)

lemma dense_insert_same:
  assumes d: "defaultLeaf len (Dense d)" and cov: "DenseNode_covers d key"
    and kv: "length key = d_fullKeyLen d" "length v = len"
  shows "insertOk len (Dense d) key v (DenseNode_insertFuel (Suc f) cfg key v d)"
proof -
  have inv: "DenseNode_inv d" and vl: "d_valLen d = len" using d by (auto simp: defaultLeaf_def)
  have tag: "d_tag d = Tag_Dense" using DenseNode_invD(1) [OF inv] by (simp add: denseLayout_def)
  have any: "DenseNode_insertFuel (Suc f) cfg key v d = DenseNode_insert cfg key v d"
    using tag kv vl by (simp add: DenseNode_insert_def numeral_3_eq_3 Let_def)
  note cases = dense_insert_cases [OF tag kv(1), of v cfg]
  have lens: "length v = d_valLen d" using kv(2) vl by simp
  show ?thesis
  proof (cases "DenseNode_keyToIndex d key")
    case (Index i)
    then obtain d' where res: "DenseNode_insert cfg key v d = Inserted (Dense d')" using cases lens by simp
    then have "DenseNode_tryInsert cfg key v d = Inserted d'" by (simp add: DenseNode_tryInsert_def)
    from dense_tryInsert_correct(1) [OF inv cov kv(1) lens this]
    have c: "DenseNode_inv d'" "sameSlots d d'" "DenseNode_content d' = (DenseNode_content d)(key \<mapsto> v)" by simp_all
    with d kv(2) show ?thesis
      unfolding any res by (simp add: insertOk_def defaultLeaf_def sameSlots_def)
  next
    case WrongLen
    then show ?thesis using keyToIndex_WrongLen [OF kv(1)] by simp
  qed (unfold any, use cases lens d in \<open>simp_all add: insertOk_def\<close>)
qed

lemma basic_insert_ok:
  assumes b: "defaultLeaf len (Basic b)" and cov: "BTreeNode_covers b key"
    and kv: "defaultStorable len key v" and cfg: "\<not> enableDense2 cfg"
  shows "insertOk len (Basic b) key v (BTreeNode_insertFuel (Suc (Suc f)) cfg key v b)"
proof -
  have leaf: "leafInv b" and uni: "\<forall>k v. BTreeNode_content b k = Some v \<longrightarrow> length v = len"
    and room: "length (BTreeNode_getLowerFence b) + length (BTreeNode_getUpperFence b) \<le> 2000"
    using b by (auto simp: defaultLeaf_def)
  have small: "length key < 65536" "length v < 65536" "length v = len" using kv by (auto simp: defaultStorable_def)
  note t = tryInsert_correct [OF leaf cov small(1,2)]
  note ok = inv_facts(1) [of b] and leafb = leaf [unfolded leafInv_def]
  show ?thesis
  proof (cases "BTreeNode_tryInsert key v b")
    case (Inserted b')
    with t(1) [OF this] uni room small(3) show ?thesis
      by (auto simp: insertOk_def defaultLeaf_def)
  next
    case Aborted
    with t(3) show ?thesis by (simp add: insertOk_def)
  next
    case (NoSpace b')
    then have b': "b' = b" and full: "BTreeNode_freeSpaceAfterCompaction b < BTreeNode_spaceNeeded b (length key) (length v)"
      using t(2) by simp_all
    have inv: "BTreeNode_inv b" using leaf by (simp add: leafInv_def)
    note pok = inv_facts(1) [OF inv]
    have plen: "b_prefixLength b \<le> length key"
      using inFences_getPrefix(1) [OF pok] cov by (simp add: BTreeNode_covers_def)
    have noSpace: "insertOk len (Basic b) key v (NoSpace (Basic b))" using b by (simp add: insertOk_def)
    show ?thesis
    proof (cases "enableDense cfg \<and> BTreeNode_isLeaf b \<and> sub32 (length key) (b_prefixLength b) = s_keyLen (b_slot b 0) \<and>
        length v = s_payloadLen (b_slot b 0)")
      case False
      then show ?thesis using NoSpace b' noSpace cfg by (auto simp: Let_def)
    next
      case True
      then have td: "try_densify cfg b = map_option Some (densify1 b)" by (simp add: try_densify_def)
      show ?thesis
      proof (cases "densify1 b")
        case None
        then show ?thesis using NoSpace b' noSpace True td by (auto simp: Let_def)
      next
        case (Some d)
        have cnt: "0 < b_count b"
        proof (rule ccontr)
          assume "\<not> 0 < b_count b"
          then have "esize (entriesUpto b (b_count b)) = 0" by (simp add: entriesUpto_def)
          then have "BTreeNode_freeSpaceAfterCompaction b \<ge> 2004"
            using pok room \<open>\<not> 0 < b_count b\<close>
            by (simp add: pageOk_def BTreeNode_freeSpaceAfterCompaction_def slotsEnd_eq c_arith)
          moreover have "BTreeNode_spaceNeeded b (length key) (length v) \<le> 1910"
            using kv plen spaceNeeded_eq [OF plen small(1,2)] unfolding defaultStorable_def by linarith
          ultimately show False using full by simp
        qed
        note dc = densify1_correct [OF leaf cnt Some]
        have klen: "length key = d_fullKeyLen d"
          using True plen sub32_eq [OF plen] small(1) unfolding dc(4) by linarith
        have vlen: "d_valLen d = len" using True small(3) by (simp add: dc(5))
        have fe: "DenseNode_getLowerFence d = BTreeNode_getLowerFence b" "DenseNode_getUpperFence d = BTreeNode_getUpperFence b"
          by (rule dc)+
        have con: "DenseNode_content d = BTreeNode_content b"
          by (simp add: DenseNode_content_def BTreeNode_content_def dc(2))
        have "defaultLeaf len (Dense d)" using dc(1) vlen uni room by (simp add: defaultLeaf_def fe con)
        moreover have "DenseNode_covers d key" using cov dc(3) by simp
        ultimately have "insertOk len (Dense d) key v (DenseNode_insertFuel (Suc f) cfg key v d)"
          by (rule dense_insert_same [OF _ _ klen small(3)])
        then have "insertOk len (Basic b) key v (DenseNode_insertFuel (Suc f) cfg key v d)"
          by (simp only: insertOk_congr [of "Basic b" "Dense d"] any_simps con anyLower.simps anyUpper.simps fe)
        moreover have "BTreeNode_insertFuel (Suc (Suc f)) cfg key v b = DenseNode_insertFuel (Suc f) cfg key v d"
          using NoSpace True td Some by (simp add: Let_def del: DenseNode_insertFuel.simps)
        ultimately show ?thesis by simp
      qed
    qed
  qed
qed

text \<open>A dense leaf becomes basic for a key of another length.\<close>

lemma dense_insert_ok:
  assumes d: "defaultLeaf len (Dense d)" and cov: "DenseNode_covers d key"
    and kv: "defaultStorable len key v" and cfg: "\<not> enableDense2 cfg"
  shows "insertOk len (Dense d) key v (DenseNode_insert cfg key v d)"
proof (cases "length key = d_fullKeyLen d")
  case True
  with dense_insert_same [OF d cov, of v 2 cfg] kv show ?thesis
    by (simp add: DenseNode_insert_def numeral_3_eq_3 defaultStorable_def del: DenseNode_insertFuel.simps)
next
  case False
  have inv: "DenseNode_inv d" and vl: "d_valLen d = len" "length v = len"
    using d kv by (auto simp: defaultLeaf_def defaultStorable_def)
  have tag: "d_tag d = Tag_Dense" using DenseNode_invD(1) [OF inv] by (simp add: denseLayout_def)
  note f = DenseNode_invD(2) [OF inv]
  let ?b = "DenseNode_convertToBasic d"
  have size: "d_occupiedCount d * (sub32 (d_fullKeyLen d) (d_prefixLength d) + length v + sizeof_Slot) +
      (d_lowerFenceLen d + d_upperFenceLen d + sizeof_BTreeNodeHeader) = denseAsBasic d (d_valLen d) + 4"
  proof (cases "densePresent d = []")
    case True
    then show ?thesis using DenseNode_invD(3) [OF inv] by (simp add: denseAsBasic_def sizeof_BTreeNodeHeader_def)
  next
    case False
    then obtain i where "i \<in> set (densePresent d)" using hd_in_set by blast
    from present_bounds(1) [OF inv densePresent_range(1,2) [OF inv this]] denseFences_bounds(6) [OF f]
    show ?thesis by (simp add: denseAsBasic_def sizeof_BTreeNodeHeader_def sizeof_Slot_def vl c_arith)
  qed
  have step: "DenseNode_insert cfg key v d =
      (if denseAsBasic d (d_valLen d) + 4 \<le> 4096 then BTreeNode_insertFuel (Suc (Suc 0)) cfg key v ?b else NoSpace (Dense d))"
    unfolding DenseNode_insert_def numeral_3_eq_3 DenseNode_insertFuel.simps(2) Let_def size
    using False tag by (simp add: pageSizeLeaf_def del: BTreeNode_insertFuel.simps)
  show ?thesis
  proof (cases "denseAsBasic d (d_valLen d) + 4 \<le> 4096")
    case True
    then have "denseAsBasic d (d_valLen d) \<le> 4096" by simp
    note cb = convertToBasic_correct [OF inv this]
    have con: "BTreeNode_content ?b = DenseNode_content d"
      by (simp add: BTreeNode_content_def DenseNode_content_def cb(2))
    have "defaultLeaf len (Basic ?b)" using d cb(1) by (simp add: defaultLeaf_def con cb(3,4))
    moreover have "BTreeNode_covers ?b key"
      using cov by (simp add: BTreeNode_covers_def DenseNode_covers_def cb(3,4))
    ultimately have "insertOk len (Basic ?b) key v (BTreeNode_insertFuel (Suc (Suc 0)) cfg key v ?b)"
      by (rule basic_insert_ok [OF _ _ kv cfg])
    then have "insertOk len (Dense d) key v (BTreeNode_insertFuel (Suc (Suc 0)) cfg key v ?b)"
      by (simp only: insertOk_congr [of "Dense d" "Basic ?b"] any_simps con anyLower.simps anyUpper.simps cb(3,4))
    then show ?thesis using True by (simp only: step if_True)
  next
    case False
    then show ?thesis using d by (simp add: step insertOk_def)
  qed
qed

lemma default_insert_ok:
  assumes inv: "defaultLeaf len node" and cov: "anyCovers node key" and kv: "defaultStorable len key v"
    and cfg: "\<not> enableDense2 cfg" "\<not> enableAdaptOp cfg"
  shows "insertOk len node key v (fst (leafInsert cfg env key v node r))"
proof (cases node)
  case (Basic b)
  have "b\<lparr>b_roc := b_roc b\<rparr> = b" by simp
  then have "leafInsert cfg env key v node r = (BTreeNode_insertFuel (Suc (Suc 1)) cfg key v b, r)"
    using cfg Basic by (simp add: leafInsert_def point_op_def BTreeNode_insert_def numeral_3_eq_3 Let_def
        del: BTreeNode_insertFuel.simps)
  then show ?thesis using basic_insert_ok [of len b key v cfg 1] inv cov kv cfg Basic by simp
next
  case (Dense d)
  then show ?thesis using dense_insert_ok [of len d key v cfg] inv cov kv cfg by (simp add: leafInsert_def)
qed (use inv in \<open>simp_all add: defaultLeaf_def\<close>)

subsection \<open>Remove and the interpretation\<close>

lemma default_remove_ok:
  assumes inv: "defaultLeaf len node" and cov: "anyCovers node key"
  shows "\<exists>b node'. leafRemove env key node = Some (b, node') \<and> defaultLeaf len node' \<and>
    anyLower node' = anyLower node \<and> anyUpper node' = anyUpper node \<and>
    anyContent node' = (anyContent node)(key := None) \<and> (b \<longleftrightarrow> anyContent node key \<noteq> None)"
proof (cases node)
  case (Basic n)
  obtain b n' where res: "BTreeNode_remove key n = (b, n')" by force
  have "BTreeNode_inv n" "keysInFences n" "BTreeNode_covers n key"
    using inv cov Basic by (auto simp: defaultLeaf_def leafInv_def)
  from remove_correct [OF this res] inv show ?thesis
    by (simp add: Basic leafRemove_def res defaultLeaf_def leafInv_def BTreeNode_isLeaf_def)
next
  case (Dense n)
  obtain b n' where res: "DenseNode_remove key n = (b, n')" by force
  have "DenseNode_inv n" "DenseNode_covers n key" using inv cov Dense by (simp_all add: defaultLeaf_def)
  moreover from this have "d_tag n = Tag_Dense" by (simp add: DenseNode_inv_def denseLayout_def)
  ultimately show ?thesis using dense_remove_correct [OF _ _ res] inv
    by (simp add: Dense leafRemove_def res defaultLeaf_def sameSlots_def)
qed (use inv in \<open>simp_all add: defaultLeaf_def\<close>)

definition defaultInsert :: "hash_env \<Rightarrow> bytes \<Rightarrow> bytes \<Rightarrow> AnyNode \<Rightarrow> AnyNode insert_result" where
  "defaultInsert env key v node = fst (leafInsert default_config env key v node 42)"

definition defaultRemove :: "hash_env \<Rightarrow> bytes \<Rightarrow> AnyNode \<Rightarrow> bool \<times> AnyNode" where
  "defaultRemove env key node = (case leafRemove env key node of None \<Rightarrow> (False, node) | Some res \<Rightarrow> res)"

lemma default_config_flags: "\<not> enableDense2 default_config" "\<not> enableAdaptOp default_config"
  by (simp_all add: default_config_def)

interpretation default_leaf: leaf_map "defaultLeaf len" anyCovers anyContent anyLookup
  "defaultInsert env" "defaultRemove env" "defaultStorable len" for len env
proof (unfold_locales, goal_cases)
  case (1 n k)
  then show ?case
    by (cases n) (auto simp: defaultLeaf_def anyLookup_def leafInv_def dense_lookup_content intro: lookup_content)
next
  case (2 n k v n')
  then show ?case
    using default_insert_ok [OF 2(1-3) default_config_flags, of env 42]
    by (simp add: defaultInsert_def insertOk_def anyCovers_def)
next
  case (3 n k v n')
  then show ?case
    using default_insert_ok [OF 3(1-3) default_config_flags, of env 42]
    by (simp add: defaultInsert_def insertOk_def anyCovers_def)
next
  case (4 n k b n')
  then show ?case
    using default_remove_ok [OF 4(1,2), of env] by (auto simp: defaultRemove_def anyCovers_def)
qed

end
