(* ===== verification/DenseNodeSpec.thy ===== *)
theory DenseNodeSpec
  imports DenseNodeLeaf BasicNodeSpec
begin

text \<open>
  The properties of the dense leaf: the leaf of the default configuration as a map, the conversions
  in both directions, indices and keys as inverse functions, the range lookup and the split, with
  the cases in which the last two go wrong.
\<close>

subsection \<open>Concrete leaves\<close>

text \<open>Keys of length 4 above \<open>00 00 01 00\<close>, with payloads of 63 bytes, below a given upper fence.\<close>

definition demoDense :: "bytes \<Rightarrow> DenseNode" where
  "demoDense up = DenseNode_changeLowerFence [0, 0, 1, 0] up
     (TmpDenseNode\<lparr>d_fullKeyLen := 4, d_valLen := 63, d_upperFenceLen := length up\<rparr>)"

lemma slotCountFrom_numeral:
  "slotCountFrom v f (numeral k) =
    (if offsetof_mask + (numeral k + maskBitsPerWord - 1) div maskBitsPerWord * maskBytesPerWord + numeral k * v > f
     then slotCountFrom v f (pred_numeral k) else numeral k)"
  by (simp add: numeral_eq_Suc Let_def)

lemma demo_slotCount: "computeSlotCount 63 4088 = 64" "computeSlotCount 8 4080 = 499"
  by (simp_all add: computeSlotCount_def slotCountFrom_numeral u32_def offsetof_mask_def maskBitsPerWord_def
      maskBytesPerWord_def)

lemma demo_start:
  "leastGreaterKey [0, 0, 1, 0] 4 = 257" "leastGreaterKey [0, 0, 0, 0, 255, 255, 255, 0] 8 = 4294967041"
  by (simp_all add: leastGreaterKey_value computeNumericPartLen_def computeNumericPrefixLength_def
      sizeof_NumericPart_def)

lemma numericBytes_4: "numericBytes 4 (word_of_nat (be_pad 4 [a, b, c, d])) = [a, b, c, d]"
  by (rule numericBytes_be_pad) simp_all

lemma demoDense_facts:
  assumes up: "length up \<le> 4"
  shows "DenseNode_inv (demoDense up)" "denseEntries (demoDense up) = []"
    "DenseNode_getLowerFence (demoDense up) = [0, 0, 1, 0]" "DenseNode_getUpperFence (demoDense up) = up"
    "d_fullKeyLen (demoDense up) = 4" "d_valLen (demoDense up) = 63"
    "d_slotCount (demoDense up) = 64" "d_arrayStart (demoDense up) = 257"
    "d_prefixLength (demoDense up) = lcp [0, 0, 1, 0] up" "DenseNode_maskWordCount (demoDense up) = 1"
    "npLen (demoDense up) = 4" "nprefLen (demoDense up) = 0"
    "DenseNode_covers (demoDense up) = inFences [0, 0, 1, 0] up"
proof -
  let ?t = "TmpDenseNode\<lparr>d_fullKeyLen := 4, d_valLen := 63, d_upperFenceLen := length up\<rparr>"
  have "0 < d_fullKeyLen ?t" "length [0, 0, 1, 0 :: byte] = d_fullKeyLen ?t" "length up = d_upperFenceLen ?t"
    "length [0, 0, 1, 0 :: byte] + max (length up) (d_fullKeyLen ?t) + 24 \<le> 4096" using up by simp_all
  note c = changeLowerFence_correct [OF this, folded demoDense_def]
  show i: "DenseNode_inv (demoDense up)" "denseEntries (demoDense up) = []"
    and fe: "DenseNode_getLowerFence (demoDense up) = [0, 0, 1, 0]" "DenseNode_getUpperFence (demoDense up) = up"
    and l: "d_fullKeyLen (demoDense up) = 4" "d_valLen (demoDense up) = 63" using c by simp_all
  show s: "d_slotCount (demoDense up) = 64" using c(7) up by (simp add: demo_slotCount max_absorb2)
  show "d_arrayStart (demoDense up) = 257" "d_prefixLength (demoDense up) = lcp [0, 0, 1, 0] up"
    using DenseNode_invD(2) [OF i(1)] by (simp_all add: denseFences_def fe l demo_start)
  show "DenseNode_maskWordCount (demoDense up) = 1" by (simp add: DenseNode_maskWordCount_def s maskBitsPerWord_def)
  show "npLen (demoDense up) = 4" "nprefLen (demoDense up) = 0"
    by (simp_all add: l computeNumericPartLen_def computeNumericPrefixLength_def sizeof_NumericPart_def)
  show "DenseNode_covers (demoDense up) = inFences [0, 0, 1, 0] up" by (simp add: DenseNode_covers_def fe)
qed

lemma demoDense_first: "DenseNode_key (demoDense []) 0 = [0, 0, 1, 1]" "DenseNode_keyToIndex (demoDense []) [0, 0, 1, 1] = Index 0"
proof -
  note f = demoDense_facts [of "[]", simplified]
  show k: "DenseNode_key (demoDense []) 0 = [0, 0, 1, 1]"
    using numericBytes_4 [of 0 0 1 1] unfolding DenseNode_key_eq f(3,8,11,12) by simp
  have "slotInRange (demoDense []) 0" unfolding slotInRange_def f(8,11) by simp
  from keyToIndex_key [OF DenseNode_invD(2) [OF f(1)] this] f(7) k
  show "DenseNode_keyToIndex (demoDense []) [0, 0, 1, 1] = Index 0" by simp
qed

text \<open>The leaf with one entry.\<close>

definition demoEntry :: DenseNode where
  "demoEntry = densePut 0 (replicate 63 1) ((demoDense [])\<lparr>d_occupiedCount := 1\<rparr>)"

lemma demoEntry_facts:
  "DenseNode_insert cfg [0, 0, 1, 1] (replicate 63 1) (demoDense []) = Inserted (Dense demoEntry)"
  "DenseNode_inv demoEntry" "denseEntries demoEntry = [([0, 0, 1, 1], replicate 63 1)]"
  "sameSlots (demoDense []) demoEntry" "d_prefixLength demoEntry = 0" "d_occupiedCount demoEntry = 1"
  "DenseNode_key demoEntry 0 = [0, 0, 1, 1]"
proof -
  let ?d = "demoDense []" and ?v = "replicate 63 1 :: bytes"
  note f = demoDense_facts [of "[]", simplified]
  have tag: "d_tag ?d = Tag_Dense" using DenseNode_invD(1) [OF f(1)] by (simp add: denseLayout_def)
  have l: "length [0, 0, 1, 1 :: byte] = d_fullKeyLen ?d" "length ?v = d_valLen ?d" by (simp_all add: f)
  have "d_occupiedCount ?d = 0" using length_denseEntries [OF f(1)] f(2) by simp
  moreover have "\<not> DenseNode_isSlotPresent ?d 0"
    using f(2,7) by (simp add: denseEntries_def densePresent_def filter_empty_conv)
  ultimately show ins: "DenseNode_insert cfg [0, 0, 1, 1] ?v ?d = Inserted (Dense demoEntry)" for cfg
    by (simp add: dense_insert_cases [OF tag l] demoDense_first demoEntry_def add16_def)
  have cov: "DenseNode_covers ?d [0, 0, 1, 1]" by (simp add: f inFences_def)
  have "DenseNode_tryInsert default_config [0, 0, 1, 1] ?v ?d = Inserted demoEntry"
    by (simp add: DenseNode_tryInsert_def ins)
  from dense_tryInsert_correct(1) [OF f(1) cov l this]
  show inv: "DenseNode_inv demoEntry" and ss: "sameSlots ?d demoEntry"
    and "denseEntries demoEntry = [([0, 0, 1, 1], ?v)]"
    by (auto simp: DenseNode_content_def f(2) intro!: sorted_entries_unique [OF denseEntries_sorted])
  show "d_prefixLength demoEntry = 0"
    using DenseNode_invD(2) [OF inv] ss f by (simp add: denseFences_def sameSlots_def)
  show "d_occupiedCount demoEntry = 1"
    using length_denseEntries [OF inv] \<open>denseEntries demoEntry = [([0, 0, 1, 1], ?v)]\<close> by simp
  show "DenseNode_key demoEntry 0 = [0, 0, 1, 1]" using sameSlots_facts(2) [OF ss] demoDense_first by simp
qed

text \<open>Keys of length 8 above \<open>00 00 00 00 ff ff ff 00\<close>, with payloads of 8 bytes.\<close>

definition demoWrap :: DenseNode where
  "demoWrap = DenseNode_changeLowerFence [0, 0, 0, 0, 255, 255, 255, 0] []
     (TmpDenseNode\<lparr>d_fullKeyLen := 8, d_valLen := 8, d_upperFenceLen := 0\<rparr>)"

lemma demoWrap_facts:
  "DenseNode_inv demoWrap" "DenseNode_getLowerFence demoWrap = [0, 0, 0, 0, 255, 255, 255, 0]"
  "DenseNode_getUpperFence demoWrap = []" "d_fullKeyLen demoWrap = 8" "d_slotCount demoWrap = 499"
  "d_arrayStart demoWrap = 4294967041" "\<not> slotInRange demoWrap 498" "DenseNode_covers demoWrap [0, 0, 0, 1, 0, 0, 0, 0]"
  "DenseNode_keyToIndex demoWrap [0, 0, 0, 1, 0, 0, 0, 0] = NotNumericRange"
proof -
  let ?t = "TmpDenseNode\<lparr>d_fullKeyLen := 8, d_valLen := 8, d_upperFenceLen := 0\<rparr>"
  have "0 < d_fullKeyLen ?t" "length [0, 0, 0, 0, 255, 255, 255, 0 :: byte] = d_fullKeyLen ?t" "length ([] :: bytes) = d_upperFenceLen ?t"
    "length [0, 0, 0, 0, 255, 255, 255, 0 :: byte] + max (length ([] :: bytes)) (d_fullKeyLen ?t) + 24 \<le> 4096" by simp_all
  note c = changeLowerFence_correct [OF this, folded demoWrap_def]
  show i: "DenseNode_inv demoWrap" and fe: "DenseNode_getLowerFence demoWrap = [0, 0, 0, 0, 255, 255, 255, 0]"
    "DenseNode_getUpperFence demoWrap = []" and l: "d_fullKeyLen demoWrap = 8" using c by simp_all
  show s: "d_slotCount demoWrap = 499" using c(7) by (simp add: demo_slotCount)
  have d: "denseFences demoWrap" by (rule DenseNode_invD(2) [OF i])
  show st: "d_arrayStart demoWrap = 4294967041" using d by (simp add: denseFences_def fe l demo_start)
  show "\<not> slotInRange demoWrap 498"
    by (simp add: slotInRange_def st l computeNumericPartLen_def sizeof_NumericPart_def)
  show "DenseNode_covers demoWrap [0, 0, 0, 1, 0, 0, 0, 0]" by (simp add: DenseNode_covers_def fe inFences_def)
  have pl: "d_prefixLength demoWrap = 0" using d by (simp add: denseFences_def fe)
  have "nprefLen demoWrap = 4" by (simp add: l computeNumeric_facts(3))
  with mid_bytes [OF d] have "load (d_heap demoWrap) (pageSizeLeaf - d_lowerFenceLen demoWrap) 4 = [0, 0, 0, 0]"
    by (simp add: pl fe)
  then show "DenseNode_keyToIndex demoWrap [0, 0, 0, 1, 0, 0, 0, 0] = NotNumericRange"
    by (simp add: DenseNode_keyToIndex_def l pl sizeof_NumericPart_def)
qed

subsection \<open>The leaf of the default configuration\<close>

text \<open>C8: in the default configuration, where a full leaf may turn dense and a dense leaf basic again,
  after any sequence of inserts and removes that a leaf takes without running out of room, payloads
  all of one length, a lookup returns what the same sequence of updates of a finite map gives.\<close>

theorem default_leaf_refines_map:
  assumes "defaultLeaf len node" "\<forall>op \<in> set ops. anyCovers node (op_key op) \<and> op_ok (defaultStorable len) op"
    and "run_ops (defaultInsert env) (defaultRemove env) ops node = Some node'" "anyCovers node key"
  shows "defaultLeaf len node' \<and> anyLookup key node' = fold content_op ops (anyContent node) key"
  using default_leaf.run_ops_content [OF assms(1-3)] default_leaf.lookup_content [of len node' key] assms(4) by simp

theorem default_leaf_refines_map_witness:
  "\<forall>env. \<exists>node'. run_ops (defaultInsert env) (defaultRemove env)
      [Put [0, 0, 1, 1] (replicate 63 1), Del [9]] (Dense (demoDense [])) = Some node' \<and>
    anyLookup [0, 0, 1, 1] node' = Some (replicate 63 1)"
proof
  fix env
  let ?ops = "[Put [0, 0, 1, 1] (replicate 63 1), Del [9]]" and ?d = "Dense (demoDense [])"
  note f = demoDense_facts [of "[]", simplified]
  have "defaultInsert env [0, 0, 1, 1] (replicate 63 1) ?d = Inserted (Dense demoEntry)"
    by (simp add: defaultInsert_def leafInsert_def demoEntry_facts(1))
  then obtain node' where n': "run_ops (defaultInsert env) (defaultRemove env) ?ops ?d = Some node'" by simp
  have inv: "defaultLeaf 63 ?d" using f by (simp add: defaultLeaf_def DenseNode_content_def)
  have "\<forall>op \<in> set ?ops. anyCovers ?d (op_key op) \<and> op_ok (defaultStorable 63) op"
    by (simp add: f inFences_def defaultStorable_def)
  from default_leaf_refines_map [OF inv this n', of "[0, 0, 1, 1]"] n'
  show "\<exists>node'. run_ops (defaultInsert env) (defaultRemove env) ?ops ?d = Some node' \<and>
      anyLookup [0, 0, 1, 1] node' = Some (replicate 63 1)"
    by (simp add: f inFences_def)
qed

subsection \<open>Conversions\<close>

text \<open>C31: a basic leaf that \<open>densify1\<close> accepts becomes a dense leaf with the same entries in the same
  order and the same fences.\<close>

theorem densify1_spec:
  assumes "leafInv b" "0 < b_count b" "densify1 b = Some d"
  shows "DenseNode_inv d \<and> denseEntries d = fullEntries b \<and>
    DenseNode_getLowerFence d = BTreeNode_getLowerFence b \<and> DenseNode_getUpperFence d = BTreeNode_getUpperFence b"
  using densify1_correct [OF assms] by simp

lemma demo_slotCount3: "3 < computeSlotCount 1 4095"
  by (simp add: computeSlotCount_def slotCountFrom_numeral u32_def offsetof_mask_def maskBitsPerWord_def
      maskBytesPerWord_def)

lemma densify1_demoLeaf: "\<exists>d. densify1 demoLeaf = Some d"
proof -
  note r = rootLeaf_facts [OF rootLeaf_demoLeaf]
  have e: "fullEntries demoLeaf ! i = (BTreeNode_getKey demoLeaf i, BTreeNode_getPayload demoLeaf i)" if "i < 3" for i
    using that nth_fullEntries [of i demoLeaf] by (simp add: r)
  have k: "BTreeNode_getKey demoLeaf i = [word_of_nat (Suc i)]" "length (BTreeNode_getPayload demoLeaf i) = 1" if "i < 3" for i
  proof -
    have "i = 0 \<or> i = 1 \<or> i = 2" using that by auto
    then show "BTreeNode_getKey demoLeaf i = [word_of_nat (Suc i)]" "length (BTreeNode_getPayload demoLeaf i) = 1"
      using e [of i] that by (auto simp: r(9) simp del: length_getPayload) (metis length_Cons list.size(3) One_nat_def)+
  qed
  have len: "s_keyLen (b_slot demoLeaf i) = 1" "s_payloadLen (b_slot demoLeaf i) = 1" if "i < 3" for i
    using k [OF that] by (metis length_getKey One_nat_def length_Cons list.size(3), metis length_getPayload)
  have pl: "b_prefixLength demoLeaf = lcp (BTreeNode_getLowerFence demoLeaf) (BTreeNode_getUpperFence demoLeaf)"
    by (simp add: r)
  have fl: "fk_length (b_lowerFence demoLeaf) = 0" "fk_length (b_upperFence demoLeaf) = 0"
    using r(11,12) by (metis length_getLowerFence list.size(3), metis length_getUpperFence list.size(3))
  let ?page = "densifyPage demoLeaf 1 1"
  have fo: "DenseNode_fencesOffset (TmpDenseNode\<lparr>d_lowerFenceLen := 0, d_upperFenceLen := 0, d_fullKeyLen := Suc 0,
      d_arrayStart := 0\<rparr>) = 4095"
    by (simp add: DenseNode_fencesOffset_def pageSizeLeaf_def sub32_def)
  have "computeSlotCount 1 4095 < 65536" by (rule computeSlotCount_less) simp
  then have page: "d_arrayStart ?page = 0" "3 < d_slotCount ?page"
    using demo_slotCount3 by (simp_all add: densifyPage_def Let_def fl r u16_def leastGreaterKey_def getNumericPart_def fo)
  have "densifyIndex demoLeaf 1 0 2 = 3"
    by (simp add: densifyIndex_def r k getNumericPart_def sizeof_NumericPart_def)
  then have "densifyIndex demoLeaf 1 (d_arrayStart ?page) 2 < d_slotCount ?page" using page by simp
  then show ?thesis
    using densify1_eq [OF pl] by (simp add: r len numeral_2_eq_2)
qed

theorem densify1_spec_witness:
  "\<exists>d. densify1 demoLeaf = Some d \<and> denseEntries d = [([1], [10]), ([2], [20]), ([3], [30])]"
proof -
  note r = rootLeaf_facts [OF rootLeaf_demoLeaf]
  obtain d where d: "densify1 demoLeaf = Some d" using densify1_demoLeaf by blast
  have "0 < b_count demoLeaf" by (simp add: r)
  from densify1_spec [OF r(1) this d] d show ?thesis by (simp add: r(9))
qed

text \<open>C32: a dense leaf whose entries fit into a basic page becomes a basic leaf with the same entries
  in the same order, the same fences and the same prefix.\<close>

theorem DenseNode_convertToBasic_spec:
  assumes "DenseNode_inv n"
    and "d_occupiedCount n * (d_fullKeyLen n - d_prefixLength n + d_valLen n + sizeof_Slot) +
      d_lowerFenceLen n + d_upperFenceLen n + sizeof_BTreeNodeHeader \<le> pageSizeLeaf"
  shows "leafInv (DenseNode_convertToBasic n) \<and> fullEntries (DenseNode_convertToBasic n) = denseEntries n \<and>
    BTreeNode_getLowerFence (DenseNode_convertToBasic n) = DenseNode_getLowerFence n \<and>
    BTreeNode_getUpperFence (DenseNode_convertToBasic n) = DenseNode_getUpperFence n \<and>
    b_prefixLength (DenseNode_convertToBasic n) = d_prefixLength n"
proof -
  have "denseAsBasic n (d_valLen n) \<le> 4096"
    using assms(2) by (simp add: denseAsBasic_def sizeof_Slot_def sizeof_BTreeNodeHeader_def pageSizeLeaf_def)
  from convertToBasic_correct [OF assms(1) this] show ?thesis by simp
qed

theorem DenseNode_convertToBasic_spec_witness:
  "fullEntries (DenseNode_convertToBasic demoEntry) = [([0, 0, 1, 1], replicate 63 1)]"
proof -
  note f = demoDense_facts [of "[]", simplified] and e = demoEntry_facts
  have "d_fullKeyLen demoEntry = 4" "d_valLen demoEntry = 63" "d_lowerFenceLen demoEntry = 4" "d_upperFenceLen demoEntry = 0"
    using e(4) f(3,4,5,6) length_dense_reads(1,2) [of demoEntry] by (simp_all add: sameSlots_def)
  then have "d_occupiedCount demoEntry * (d_fullKeyLen demoEntry - d_prefixLength demoEntry + d_valLen demoEntry + sizeof_Slot) +
      d_lowerFenceLen demoEntry + d_upperFenceLen demoEntry + sizeof_BTreeNodeHeader \<le> pageSizeLeaf"
    by (simp add: e(5,6) sizeof_Slot_def sizeof_BTreeNodeHeader_def pageSizeLeaf_def)
  from DenseNode_convertToBasic_spec [OF e(2) this] e(3) show ?thesis by simp
qed

subsection \<open>Keys and indices\<close>

text \<open>C33: for the keys between the fences of a dense leaf, taking the index of a key and restoring
  the key of an index are inverse: a key has index \<open>i\<close> exactly when \<open>i\<close> is a slot of the array, the
  numeric parts do not wrap around before it, and its restored key is that key.\<close>

theorem DenseNode_keyToIndex_restoreKey:
  assumes "DenseNode_inv n" "DenseNode_covers n key"
  shows "DenseNode_keyToIndex n key = Index i \<longleftrightarrow>
    i < d_slotCount n \<and> slotInRange n i \<and>
    key = restoreNumericKey (d_arrayStart n) (d_fullKeyLen n) (DenseNode_getLowerFence n) i"
  using keyToIndex_covered [OF DenseNode_invD(2) [OF assms(1)] assms(2)]
    keyToIndex_key [OF DenseNode_invD(2) [OF assms(1)]]
  by (auto simp: DenseNode_key_def)

theorem DenseNode_keyToIndex_restoreKey_witness: "DenseNode_keyToIndex (demoDense []) [0, 0, 1, 1] = Index 0"
proof -
  note f = demoDense_facts [of "[]", simplified]
  have "DenseNode_covers (demoDense []) [0, 0, 1, 1]" by (simp add: f inFences_def)
  moreover have "slotInRange (demoDense []) 0" unfolding slotInRange_def f(8,11) by simp
  ultimately show ?thesis
    using DenseNode_keyToIndex_restoreKey [OF f(1), of "[0, 0, 1, 1]" 0] demoDense_first(1)
    by (simp add: DenseNode_key_def f(7))
qed

subsection \<open>Range lookups\<close>

text \<open>C35: when the key buffer starts with the prefix of a dense leaf, a range lookup from a key that is
  not longer than the leaf's keys and whose first index lies inside the presence mask hands the
  callback exactly the entries not smaller than that key, in key order, until it says stop.\<close>

theorem DenseNode_range_lookup1_spec:
  assumes inv: "DenseNode_inv n" and cov: "DenseNode_covers n key" and len: "length key \<le> d_fullKeyLen n"
    and buf: "load keyOut 0 (d_prefixLength n) = DenseNode_getPrefix n"
    and inside: "DenseNode_firstIndex n (Some key) < maskBitsPerWord * DenseNode_maskWordCount n"
  shows "\<exists>c keyOut' s'. DenseNode_range_lookup1 (Some key) cb n keyOut s = Some (c, keyOut', s') \<and>
    (c, s') = scan cb (filter (\<lambda>(k, v). key \<le> k) (denseEntries n)) s"
proof -
  obtain c keyOut' s' where res: "DenseNode_range_lookup1 (Some key) cb n keyOut s = Some (c, keyOut', s')"
    by (cases "DenseNode_range_lookup1 (Some key) cb n keyOut s")
      (auto simp: DenseNode_range_lookup1_def Let_def split: if_splits)
  have "DenseNode_firstIndex n (Some key) < 64 * DenseNode_maskWordCount n" using inside by (simp add: maskBitsPerWord_def)
  from range_lookup1_scan [OF inv buf this cov len res] res show ?thesis by blast
qed

theorem DenseNode_range_lookup1_spec_witness:
  "\<exists>keyOut'. DenseNode_range_lookup1 (Some [0, 0, 1, 1]) (\<lambda>k v s. (True, s @ [k])) demoEntry (\<lambda>_. 0) [] =
     Some (True, keyOut', [[0, 0, 1, 1]])"
proof -
  note f = demoDense_facts [of "[]", simplified] and e = demoEntry_facts
  note ss = e(4) [unfolded sameSlots_def] and sf = sameSlots_facts [OF e(4)]
  have 1: "DenseNode_covers demoEntry [0, 0, 1, 1]" "length [0, 0, 1, 1 :: byte] \<le> d_fullKeyLen demoEntry"
    using sf(4) ss f by (simp_all add: inFences_def)
  have 2: "load (\<lambda>_. 0) 0 (d_prefixLength demoEntry) = DenseNode_getPrefix demoEntry"
    by (simp add: e(5) DenseNode_getPrefix_def)
  have "leastGreaterKey [0, 0, 1, 1] 4 = 258"
    by (simp add: leastGreaterKey_value computeNumericPartLen_def computeNumericPrefixLength_def sizeof_NumericPart_def)
  then have "DenseNode_firstIndex demoEntry (Some [0, 0, 1, 1]) = 0"
    using ss f by (simp add: DenseNode_firstIndex_def)
  then have 3: "DenseNode_firstIndex demoEntry (Some [0, 0, 1, 1]) < maskBitsPerWord * DenseNode_maskWordCount demoEntry"
    using sf(1) f by (simp add: maskBitsPerWord_def)
  from DenseNode_range_lookup1_spec [OF e(2) 1 2 3, of "\<lambda>k v s. (True, s @ [k])" "[]"] e(3)
  show ?thesis by auto
qed

text \<open>When the first index of a start key is the number of slots and the mask has no spare bits,
  the range lookup takes the first value of the leaf for a mask word: if its lowest bit is set, the
  callback gets the start key, which is not in the leaf.\<close>

theorem DenseNode_range_lookup1_beyond:
  assumes inv: "DenseNode_inv n" and cov: "DenseNode_covers n key" and len: "length key = d_fullKeyLen n"
    and buf: "load keyOut 0 (d_prefixLength n) = DenseNode_getPrefix n"
    and rng: "DenseNode_isNumericRangeAnyLen n key" and first: "DenseNode_firstIndex n (Some key) = d_slotCount n"
    and words: "d_slotCount n = maskBitsPerWord * DenseNode_maskWordCount n"
    and val: "bit (d_heap n (DenseNode_valOffset n 0)) 0"
  shows "DenseNode_content n key = None \<and>
    (\<exists>keyOut'. DenseNode_range_lookup1 (Some key) (\<lambda>k v s. (False, s @ [k])) n keyOut [] = Some (False, keyOut', [key]))"
proof -
  let ?w = "DenseNode_maskWordCount n" and ?cb = "\<lambda>k v s. (False, s @ [k]) :: bool \<times> bytes list"
  note f = DenseNode_invD(2) [OF inv]
  have same: "take (nprefLen n) key = take (nprefLen n) (DenseNode_getLowerFence n)"
    using rng numericRange_take [OF f cov] by simp
  have "leastGreaterKey key (d_fullKeyLen n) - of_bool (length key = d_fullKeyLen n) = getNumericPart key (d_fullKeyLen n)"
    using len by (simp add: leastGreaterKey_def)
  then have ix: "unat (getNumericPart key (d_fullKeyLen n) - d_arrayStart n) = d_slotCount n"
    using first by (simp add: DenseNode_firstIndex_def)
  have key: "key = DenseNode_key n (d_slotCount n)" using covered_key(1) [OF f cov len same] ix by simp
  have "DenseNode_keyToIndex n key \<noteq> Index i" for i
    using ix by (auto simp: DenseNode_keyToIndex_def Let_def)
  then have none: "DenseNode_content n key = None" by (rule dense_content_outside [OF inv])
  have "load h a 1 = [h a]" for h a by (simp add: load_def)
  then have "load (d_heap n) (24 + ?w * 8) (1 + 7) = d_heap n (24 + ?w * 8) # load (d_heap n) (24 + ?w * 8 + 1) 7"
    by (simp only: load_add append_Cons append_Nil)
  moreover have "24 + ?w * 8 = DenseNode_valOffset n 0" "24 + ?w * 8 + 1 = 25 + ?w * 8" by (simp_all add: valOffset_eq)
  ultimately have "load (d_heap n) (24 + ?w * 8) 8 =
      d_heap n (DenseNode_valOffset n 0) # load (d_heap n) (25 + ?w * 8) 7"
    by (simp only: one_plus_numeral add_One Num.add_num_simps Num.inc.simps)
  then have "DenseNode_mask n ?w = word_of_nat (unat (d_heap n (DenseNode_valOffset n 0)) +
      256 * le_decode (load (d_heap n) (25 + ?w * 8) 7))"
    by (simp add: DenseNode_mask_def offsetof_mask_def maskBytesPerWord_def)
  then have "bit (DenseNode_mask n ?w) 0 = bit (unat (d_heap n (DenseNode_valOffset n 0)) +
      256 * le_decode (load (d_heap n) (25 + ?w * 8) 7)) 0"
    by (simp only: bit_of_nat_iff possible_bit_word) simp
  also have "\<dots> = bit (unat (d_heap n (DenseNode_valOffset n 0))) 0" by (simp add: bit_0)
  also have "\<dots>" using val by (simp add: bit_unsigned_iff)
  finally have "maskTrailingZeros (DenseNode_mask n ?w) = 0"
    by (simp add: maskTrailingZeros_def for_until.simps)
  then have "DenseNode_range_loop1 n ?cb ?w 0 (DenseNode_mask n ?w) (DenseNode_enterKeyOut n keyOut) [] =
      (False, DenseNode_writeNumeric n (d_slotCount n) (DenseNode_enterKeyOut n keyOut), [key])"
    using words writeNumeric_key(1) [OF f enterKeyOut_prefix [OF f buf]] key
    by (subst DenseNode_range_loop1.simps) (simp add: maskBitsPerWord_def Let_def mult.commute)
  then have "DenseNode_range_lookup1 (Some key) ?cb n keyOut [] =
      Some (False, DenseNode_writeNumeric n (d_slotCount n) (DenseNode_enterKeyOut n keyOut), [key])"
    using rng words by (simp add: DenseNode_range_lookup1_def first Let_def maskBitsPerWord_def)
  with none show ?thesis by blast
qed

theorem DenseNode_range_lookup1_beyond_witness:
  "denseEntries demoEntry = [([0, 0, 1, 1], replicate 63 1)] \<and>
   (\<exists>keyOut'. DenseNode_range_lookup1 (Some [0, 0, 1, 65]) (\<lambda>k v s. (False, s @ [k])) demoEntry (\<lambda>_. 0) [] =
     Some (False, keyOut', [[0, 0, 1, 65]]))"
proof -
  note f = demoDense_facts [of "[]", simplified] and e = demoEntry_facts
  note ss = e(4) [unfolded sameSlots_def] and sf = sameSlots_facts [OF e(4)]
  have n: "d_fullKeyLen demoEntry = 4" "d_slotCount demoEntry = 64" "d_arrayStart demoEntry = 257" "d_valLen demoEntry = 63"
    "DenseNode_maskWordCount demoEntry = 1" "nprefLen demoEntry = 0"
    using ss sf f computeNumeric_facts(3) [of 4] by simp_all
  have 1: "DenseNode_covers demoEntry [0, 0, 1, 65]" "length [0, 0, 1, 65 :: byte] = d_fullKeyLen demoEntry"
    using sf(4) f n by (simp_all add: inFences_def)
  have 2: "load (\<lambda>_. 0) 0 (d_prefixLength demoEntry) = DenseNode_getPrefix demoEntry"
    by (simp add: e(5) DenseNode_getPrefix_def)
  have 3: "DenseNode_isNumericRangeAnyLen demoEntry [0, 0, 1, 65]"
    unfolding DenseNode_isNumericRangeAnyLen_def n(6) by simp
  have "leastGreaterKey [0, 0, 1, 65] 4 = 322"
    by (simp add: leastGreaterKey_value computeNumericPartLen_def computeNumericPrefixLength_def sizeof_NumericPart_def)
  then have 4: "DenseNode_firstIndex demoEntry (Some [0, 0, 1, 65]) = d_slotCount demoEntry"
    by (simp add: DenseNode_firstIndex_def n)
  have 5: "d_slotCount demoEntry = maskBitsPerWord * DenseNode_maskWordCount demoEntry" by (simp add: n maskBitsPerWord_def)
  have r: "slotInRange demoEntry 0" using sf(3) f(8,11) by (simp add: slotInRange_def)
  have "DenseNode_content demoEntry (DenseNode_key demoEntry 0) = Some (replicate 63 1)"
    by (simp add: DenseNode_content_def e(3,7))
  then have "DenseNode_getVal demoEntry 0 = replicate 63 1"
    using dense_content_key [OF e(2) _ r] n(2) by (simp split: if_splits)
  then have "load (d_heap demoEntry) (DenseNode_valOffset demoEntry 0) 63 ! 0 = replicate 63 1 ! 0"
    by (simp only: DenseNode_getVal_def n(4))
  then have 6: "bit (d_heap demoEntry (DenseNode_valOffset demoEntry 0)) 0" by (simp add: bit_1_iff)
  from DenseNode_range_lookup1_beyond [OF e(2) 1 2 3 4 5 6] e(3) show ?thesis by blast
qed

subsection \<open>Split\<close>

text \<open>C34: a split of a dense leaf for a key of the leaf's length without a slot succeeds when the
  numeric parts do not wrap around: the separator is the key of the last slot and lies below the new
  key, the left page has all entries and satisfies the invariant, and the right page, dense or basic,
  is empty, satisfies its invariant and has the new key between its fences.\<close>

theorem DenseNode_split_spec:
  assumes inv: "DenseNode_inv n" and cov: "DenseNode_covers n key" and len: "length key = d_fullKeyLen n"
    and out: "\<forall>i. DenseNode_keyToIndex n key \<noteq> Index i"
    and slots: "0 < d_slotCount n" and range: "slotInRange n (d_slotCount n - 1)"
    and room: "d_fullKeyLen n + max (d_upperFenceLen n) (d_fullKeyLen n) + 92 \<le> pageSizeLeaf"
  shows "\<exists>sep l r. DenseNode_splitPages1 n key = Some (sep, l, r) \<and> sep < key \<and>
    DenseNode_inv l \<and> denseEntries l = denseEntries n \<and>
    DenseNode_getLowerFence l = DenseNode_getLowerFence n \<and> DenseNode_getUpperFence l = sep \<and>
    case_sum leafInv DenseNode_inv r \<and> anyEntries (case_sum Basic Dense r) = [] \<and>
    anyLower (case_sum Basic Dense r) = sep \<and> anyUpper (case_sum Basic Dense r) = DenseNode_getUpperFence n \<and>
    anyCovers (case_sum Basic Dense r) key"
proof -
  define sep where "sep = DenseNode_key n (d_slotCount n - 1)"
  let ?up = "DenseNode_getUpperFence n"
  note f = DenseNode_invD(2) [OF inv]
  have sep: "length sep = d_fullKeyLen n" unfolding sep_def by (rule DenseNode_key_facts(1) [OF f])
  have lt: "sep < key" using outside_above [OF f cov len out _ range] slots by (simp add: sep_def)
  have "DenseNode_key n i \<le> sep" if "i < d_slotCount n" for i
    using DenseNode_key_less [OF f range, of i] that unfolding sep_def by (cases "i = d_slotCount n - 1") (auto simp: less_imp_le)
  note l = changeUpperFence_correct [OF inv sep this]
  have fit: "length sep + max (length ?up) (d_fullKeyLen n) + 24 \<le> 4096" "length sep + length ?up + 92 \<le> 4096"
    "0 < d_fullKeyLen n"
    using room f by (auto simp: sep pageSizeLeaf_def denseFences_def)
  note rd = changeLowerFence_correct [OF fit(3) sep _ fit(1), simplified]
  note rb = fresh_basic_leaf [OF fit(2), of RangeOpCounter_new]
  have cov': "inFences sep ?up key" using cov lt by (simp add: DenseNode_covers_def inFences_def)
  from out f obtain toSelf where sp: "DenseNode_splitPages1 n key = Some (sep, DenseNode_changeUpperFence sep n,
     if toSelf then Inr (DenseNode_changeLowerFence sep ?up n) else Inl (freshPage True RangeOpCounter_new sep ?up))"
    by (rule split_some) (simp only: sep_def)
  show ?thesis
    using lt l rd rb cov' unfolding sp by (cases toSelf) (simp_all add: anyCovers_def)
qed

theorem DenseNode_split_spec_witness:
  "\<exists>sep l r. DenseNode_splitPages1 demoEntry [0, 0, 2, 0] = Some (sep, l, r) \<and> sep < [0, 0, 2, 0] \<and>
     denseEntries l = [([0, 0, 1, 1], replicate 63 1)]"
proof -
  note f = demoDense_facts [of "[]", simplified] and e = demoEntry_facts
  note ss = e(4) [unfolded sameSlots_def] and sf = sameSlots_facts [OF e(4)]
  have n: "d_fullKeyLen demoEntry = 4" "d_slotCount demoEntry = 64" "d_arrayStart demoEntry = 257"
    "d_upperFenceLen demoEntry = 0"
    using ss f length_dense_reads(2) [of demoEntry] by simp_all
  have 1: "DenseNode_covers demoEntry [0, 0, 2, 0]" "length [0, 0, 2, 0 :: byte] = d_fullKeyLen demoEntry"
    using sf(4) f n by (simp_all add: inFences_def)
  have "getNumericPart [0, 0, 2, 0] 4 = 512"
    by (simp add: getNumericPart_value computeNumericPartLen_def computeNumericPrefixLength_def sizeof_NumericPart_def)
  then have 2: "\<forall>i. DenseNode_keyToIndex demoEntry [0, 0, 2, 0] \<noteq> Index i"
    by (simp add: DenseNode_keyToIndex_def n Let_def)
  have 3: "0 < d_slotCount demoEntry" "slotInRange demoEntry (d_slotCount demoEntry - 1)"
    using sf(3) f(8,11) by (simp_all add: n slotInRange_def)
  have 4: "d_fullKeyLen demoEntry + max (d_upperFenceLen demoEntry) (d_fullKeyLen demoEntry) + 92 \<le> pageSizeLeaf"
    by (simp add: n pageSizeLeaf_def)
  from DenseNode_split_spec [OF e(2) 1 2 3 4] e(3) show ?thesis by auto
qed

text \<open>When the numeric parts of the array wrap around, which the start of an array near the largest
  numeric part makes them do, a split for a key with another numeric prefix takes a separator that is
  not above the lower fence of the leaf, and every entry that goes to the left page is above it.\<close>

theorem DenseNode_split_wraps:
  assumes inv: "DenseNode_inv n" and full: "4 \<le> d_fullKeyLen n" and slots: "0 < d_slotCount n"
    and wrap: "\<not> slotInRange n (d_slotCount n - 1)"
    and key: "DenseNode_keyToIndex n key = NotNumericRange"
  shows "\<exists>sep l r. DenseNode_splitPages1 n key = Some (sep, l, r) \<and> sep \<le> DenseNode_getLowerFence n \<and>
    (\<forall>k \<in> fst ` set (denseEntries n). sep < k)"
proof -
  let ?sep = "DenseNode_key n (d_slotCount n - 1)"
  have "8 * DenseNode_maskWordCount n \<le> 4096"
    using DenseNode_invD(1) [OF inv] unfolding denseLayout_def denseFences_bounds(1) [OF DenseNode_invD(2) [OF inv]] by linarith
  then have "d_slotCount n - 1 < 65536" using slotCount_maskWords [of n] by linarith
  note w = wrapped_slot_below [OF inv full this wrap]
  have "?sep < k" if "k \<in> fst ` set (denseEntries n)" for k
  proof -
    from that obtain i where "i \<in> set (densePresent n)" "k = DenseNode_key n i" by (auto simp: denseEntries_def)
    with densePresent_range(4) [OF inv] have "DenseNode_covers n k" by simp
    with w(2) have "DenseNode_getLowerFence n < k" by (simp add: DenseNode_covers_def inFences_def)
    with w(1) show ?thesis by (rule order_le_less_trans)
  qed
  moreover have "\<forall>i. DenseNode_keyToIndex n key \<noteq> Index i" by (simp add: key)
  ultimately show ?thesis using w(1) split_some [OF _ DenseNode_invD(2) [OF inv]] by metis
qed

theorem DenseNode_split_wraps_witness:
  "\<exists>sep l r. DenseNode_splitPages1 demoWrap [0, 0, 0, 1, 0, 0, 0, 0] = Some (sep, l, r) \<and>
     sep \<le> [0, 0, 0, 0, 255, 255, 255, 0]"
proof -
  note w = demoWrap_facts
  have 1: "4 \<le> d_fullKeyLen demoWrap" "0 < d_slotCount demoWrap" "\<not> slotInRange demoWrap (d_slotCount demoWrap - 1)"
    using w(7) by (simp_all add: w(4,5))
  from DenseNode_split_wraps [OF w(1) 1 w(9)] w(2) show ?thesis by auto
qed

text \<open>A split for a key of another length takes the key of the last slot as separator even when
  that key is above the upper fence of the leaf: the right page then covers no key at all.\<close>

theorem DenseNode_split_otherLength:
  assumes inv: "DenseNode_inv n" and len: "length key \<noteq> d_fullKeyLen n"
    and above: "DenseNode_getUpperFence n \<noteq> []" "DenseNode_getUpperFence n < DenseNode_key n (d_slotCount n - 1)"
    and room: "d_fullKeyLen n + d_upperFenceLen n + 92 \<le> pageSizeLeaf"
  shows "\<exists>sep l r. DenseNode_splitPages1 n key = Some (sep, l, Inl r) \<and> DenseNode_getUpperFence n < sep \<and>
    (\<forall>k. \<not> BTreeNode_covers r k)"
proof -
  define sep where "sep = DenseNode_key n (d_slotCount n - 1)"
  note sep_above = above [folded sep_def]
  let ?up = "DenseNode_getUpperFence n"
  note f = DenseNode_invD(2) [OF inv]
  have "length sep + length ?up + 92 \<le> 4096"
    using room by (simp add: DenseNode_key_facts(1) [OF f] sep_def pageSizeLeaf_def)
  note rb = fresh_basic_leaf [OF this, of RangeOpCounter_new]
  have "DenseNode_keyToIndex n key = WrongLen" using len by (simp add: DenseNode_keyToIndex_def Let_def)
  then have sp: "DenseNode_splitPages1 n key = Some (sep, DenseNode_changeUpperFence sep n,
      Inl (freshPage True RangeOpCounter_new sep ?up))"
    by (simp add: DenseNode_splitPages1_def split_to_self_def Let_def split_boundary [OF f] freshPage_def sep_def)
  have "sep \<noteq> []" using sep_above(2) by auto
  then have "\<not> BTreeNode_covers (freshPage True RangeOpCounter_new sep ?up) k" for k
    using sep_above by (auto simp: BTreeNode_covers_def rb(3,4) inFences_def)
  with sp sep_above(2) show ?thesis by blast
qed

theorem DenseNode_split_otherLength_witness:
  "DenseNode_covers (demoDense [0, 0, 1, 5]) [0, 0, 1, 3, 9] \<and>
   (\<exists>sep l r. DenseNode_splitPages1 (demoDense [0, 0, 1, 5]) [0, 0, 1, 3, 9] = Some (sep, l, Inl r) \<and> [0, 0, 1, 5] < sep)"
proof -
  note f = demoDense_facts [of "[0, 0, 1, 5]", simplified]
  have "d_upperFenceLen (demoDense [0, 0, 1, 5]) = 4" using f(4) length_dense_reads(2) [of "demoDense [0, 0, 1, 5]"] by simp
  then have 1: "d_fullKeyLen (demoDense [0, 0, 1, 5]) + d_upperFenceLen (demoDense [0, 0, 1, 5]) + 92 \<le> pageSizeLeaf"
    by (simp add: f(5) pageSizeLeaf_def)
  have "DenseNode_key (demoDense [0, 0, 1, 5]) 63 = [0, 0, 1, 64]"
    using numericBytes_4 [of 0 0 1 64] unfolding DenseNode_key_eq f(3,8,11,12) by simp
  then have 2: "DenseNode_getUpperFence (demoDense [0, 0, 1, 5]) < DenseNode_key (demoDense [0, 0, 1, 5]) (d_slotCount (demoDense [0, 0, 1, 5]) - 1)"
    by (simp add: f(4,7))
  have 3: "length [0, 0, 1, 3, 9 :: byte] \<noteq> d_fullKeyLen (demoDense [0, 0, 1, 5])"
    "DenseNode_getUpperFence (demoDense [0, 0, 1, 5]) \<noteq> []" by (simp_all add: f(4,5))
  from DenseNode_split_otherLength [OF f(1) 3 2 1] show ?thesis by (auto simp: f(4,13) inFences_def)
qed

end
