(* ===== verification/InnerNodeSpec.thy ===== *)
theory InnerNodeSpec
  imports TreeSplit
begin

text \<open>
  The properties of inner pages, whatever their layout: search, room and insertion, splits, and the
  conversions between the layouts.
\<close>

subsection \<open>Pages for the witnesses\<close>

lemma inner_root: "innerOk True (newRoot True 4096)" "fenced [] [] (newRoot True 4096)"
  "nodeKids (newRoot True 4096) = [4096]" "nodeSeps (newRoot True 4096) = []"
  using newRoot_facts [of 4096 True] by simp_all

lemma inFences_all [simp]: "inFences [] [] key"
  by (simp add: inFences_def)

text \<open>A page of 25 children, which the requests for room never refuse.\<close>

lemma wide_page:
  "k \<le> 25 \<Longrightarrow> \<exists>n. innerOk True n \<and> fenced [] [] n \<and> nodeSeps n = map (\<lambda>i. [word_of_nat (Suc i)]) [0..<k]"
proof (induction k)
  case 0
  show ?case using inner_root by (intro exI [of _ "newRoot True 4096"]) simp
next
  case (Suc k)
  let ?s = "[word_of_nat (Suc k) :: byte]"
  from Suc obtain n where n: "innerOk True n" "fenced [] [] n" "nodeSeps n = map (\<lambda>i. [word_of_nat (Suc i)]) [0..<k]" by auto
  have less: "(word_of_nat (Suc i) :: byte) < word_of_nat (Suc k)" if "i < k" for i
    using that Suc.prems by (intro byte_less) simp_all
  then have lb: "is_lower_bound (nodeSeps n) ?s k" by (auto simp: is_lower_bound_def n(3) simp del: of_nat_Suc)
  have new: "?s \<notin> set (nodeSeps n)" using less by (fastforce simp: n(3) simp del: of_nat_Suc)
  have heads: "True = enableHeadNode inner_config" by (simp add: inner_config_def)
  have sep: "inFences [] [] ?s" "length ?s \<le> maxEntry" by (simp_all add: maxEntry_def)
  obtain ok n1 where r: "innerOk True n1" "fenced [] [] n1" "nodeSeps n1 = nodeSeps n" "ok \<Longrightarrow> nodeRoom n1 (length ?s)"
    "\<not> ok \<Longrightarrow> n1 = n \<and> 25 \<le> length (nodeSeps n)"
    by (rule innerRequestSpaceFor_ok [OF heads n(1,2) sep]) blast
  have ok: "ok" using r(5) Suc.prems by (cases ok) (simp_all add: n(3))
  obtain n2 where "innerOk True n2" "fenced [] [] n2" "nodeSeps n2 = take k (nodeSeps n1) @ ?s # drop k (nodeSeps n1)"
    by (rule insertChild_ok [OF r(1,2), unfolded r(3), OF sep(1) new _ sep(2) r(4) [OF ok] _ lb, of 4096]) (simp_all add: r(3))
  then show ?case by (intro exI [of _ n2]) (simp add: r(3) n(3))
qed

subsection \<open>Properties\<close>

text \<open>C11: in an inner page of any layout the search for a key between its fences, by head integers and hints
  in a head node, finds the first separator that is not smaller than the key, and the lookup follows the
  child before it.\<close>

theorem inner_lookup_spec:
  assumes "innerInv n" "inFences (leafLowerFence n) (leafUpperFence n) key"
  shows "\<exists>i. lookupInnerIndex key n = Some i \<and> i \<le> length (nodeSeps n) \<and> (\<forall>j < i. nodeSeps n ! j < key) \<and>
    (i < length (nodeSeps n) \<longrightarrow> key \<le> nodeSeps n ! i) \<and> AnyNode_getChild i n = Some (nodeKids n ! i) \<and>
    AnyNode_lookupInner key n = Some (nodeKids n ! i)"
proof -
  note lb = any_page.index [OF assms]
  show ?thesis using inner_lookups [OF assms lb] lb
    by (intro exI [of _ "the (lookupInnerIndex key n)"]) (auto simp: is_lower_bound_def)
qed

theorem inner_lookup_spec_witness:
  "\<exists>n. nodeSeps n = map (\<lambda>i. [word_of_nat (Suc i)]) [0..<25] \<and> lookupInnerIndex [7, 0] n = Some 7 \<and>
     AnyNode_lookupInner [7, 0] n = Some (nodeKids n ! 7)"
proof -
  obtain n where n: "innerOk True n" "fenced [] [] n" "nodeSeps n = map (\<lambda>i. [word_of_nat (Suc i)]) [0..<25]"
    using wide_page [of 25] by auto
  have f: "inFences (leafLowerFence n) (leafUpperFence n) [7, 0]" using n(2) by (simp add: fenced_def)
  obtain i where i: "lookupInnerIndex [7, 0] n = Some i" "i \<le> 25" "\<forall>j < i. nodeSeps n ! j < [7, 0]"
    "i < 25 \<longrightarrow> [7, 0] \<le> nodeSeps n ! i" "AnyNode_lookupInner [7, 0] n = Some (nodeKids n ! i)"
    using inner_lookup_spec [OF innerOk_inv [OF n(1)] f] n(3) by auto
  have "\<not> 7 < i" using i(2,3) n(3) by (auto dest: spec [of _ 7])
  moreover have "\<not> i < 7"
  proof
    assume "i < 7"
    then have "i = 0 \<or> i = 1 \<or> i = 2 \<or> i = 3 \<or> i = 4 \<or> i = 5 \<or> i = 6" by linarith
    then show False using i(4) n(3) by auto
  qed
  ultimately have "i = 7" by simp
  with i n(3) show ?thesis by auto
qed

text \<open>C12: for inner pages with separators and fences of at most 128 bytes (\<open>maxEntry\<close>, part of \<open>innerOk\<close> and
  \<open>fenced\<close>; the code allows 1326) and a new separator of at most 128 bytes, not empty and not in the page: a page that
  is asked for room keeps its range, separators and children, whatever layout it takes, and refuses only
  with at least 25 separators. With room, the insert of a new child left of the separator succeeds; from then on exactly
  the keys up to the separator that the split child held go to the new child, and every other key goes
  where it went before.\<close>

theorem inner_insert_spec:
  assumes "innerOk (enableHeadNode cfg) n" "fenced lo up n" "inFences lo up sep" "sep \<notin> set (nodeSeps n)" "sep \<noteq> []"
    and "length sep \<le> maxEntry" "p < 2 ^ 64"
  shows "\<exists>ok n1. innerRequestSpaceFor cfg (length sep) n = Some (ok, n1) \<and> sameChildren n n1 \<and>
    (if ok then \<exists>n2. AnyNode_insertChild cfg sep p n1 = Some n2 \<and> innerOk (enableHeadNode cfg) n2 \<and> fenced lo up n2 \<and>
        (\<forall>key. inFences lo up key \<longrightarrow> AnyNode_lookupInner key n2 =
          (if key \<le> sep \<and> lookupInnerIndex key n = lookupInnerIndex sep n then Some p else AnyNode_lookupInner key n))
     else n1 = n \<and> 25 \<le> length (nodeSeps n))"
proof -
  obtain ok n1 where r: "innerRequestSpaceFor cfg (length sep) n = Some (ok, n1)" "innerOk (enableHeadNode cfg) n1"
    "fenced lo up n1" "nodeSeps n1 = nodeSeps n" "nodeKids n1 = nodeKids n" "ok \<Longrightarrow> nodeRoom n1 (length sep)"
    "\<not> ok \<Longrightarrow> n1 = n \<and> 25 \<le> length (nodeSeps n)"
    by (rule innerRequestSpaceFor_ok [OF refl assms(1,2,3,6)]) blast
  have inv: "innerInv n" "innerInv n1" using assms(1) r(2) by (simp_all add: innerOk_def)
  have same: "sameChildren n n1" using inv r(3-5) assms(2) by (simp add: sameChildren_def fenced_def)
  have f: "inFences (leafLowerFence n) (leafUpperFence n) k \<longleftrightarrow> inFences lo up k"
    "inFences (leafLowerFence n1) (leafUpperFence n1) k \<longleftrightarrow> inFences lo up k" for k
    using assms(2) r(3) by (simp_all add: fenced_def)
  note lb = any_page.index [OF inv(1), unfolded f]
  note l = inner_lookups [OF inv(1), unfolded f, OF _ lb] inner_lookups [OF inv(2), unfolded f r(4), OF _ lb]
  have "\<exists>n2. AnyNode_insertChild cfg sep p n1 = Some n2 \<and> innerOk (enableHeadNode cfg) n2 \<and> fenced lo up n2 \<and>
      (\<forall>key. inFences lo up key \<longrightarrow> AnyNode_lookupInner key n2 =
        (if key \<le> sep \<and> lookupInnerIndex key n = lookupInnerIndex sep n then Some p else AnyNode_lookupInner key n))" if has: ok
  proof -
    have new: "sep \<notin> set (nodeSeps n1)" using assms(4) r(4) by simp
    have lbs: "is_lower_bound (nodeSeps n1) sep (the (lookupInnerIndex sep n))" using lb assms(3) r(4) by simp
    obtain n2 where n2: "AnyNode_insertChild cfg sep p n1 = Some n2" "innerOk (enableHeadNode cfg) n2" "fenced lo up n2"
      by (rule insertChild_ok [OF r(2,3) assms(3) new assms(5,6) r(6) [OF has] assms(7) lbs])
    have "AnyNode_lookupInner key n2 =
        (if key \<le> sep \<and> lookupInnerIndex key n = lookupInnerIndex sep n then Some p else AnyNode_lookupInner key n)"
      if key: "inFences lo up key" for key
    proof -
      have inv2: "innerInv n2" "inFences (leafLowerFence n2) (leafUpperFence n2) key"
        using n2(2,3) key by (simp_all add: innerOk_def fenced_def)
      have "the (AnyNode_getChild (the (lookupInnerIndex key n2)) n2) =
          (if key \<le> sep \<and> the (lookupInnerIndex key n1) = the (lookupInnerIndex sep n1) then p
           else the (AnyNode_getChild (the (lookupInnerIndex key n1)) n1))"
        using any_page.insert_routes [OF inv(2) _ new assms(5) r(6) [OF has] assms(7), of key cfg] f key assms(3) n2(1) by auto
      then show ?thesis
        using l [OF key key] l [OF assms(3) assms(3)] r(5) inner_lookups [OF inv2 any_page.index [OF inv2]] by (auto split: if_splits)
    qed
    with n2 show ?thesis by blast
  qed
  with r(1,7) same show ?thesis by (intro exI [of _ ok] exI [of _ n1]) simp
qed

theorem inner_insert_spec_witness:
  "\<exists>n1 n2. innerRequestSpaceFor inner_config 1 (newRoot True 4096) = Some (True, n1) \<and>
     AnyNode_insertChild inner_config [65] 8192 n1 = Some n2 \<and> AnyNode_lookupInner [9] n2 = Some 8192 \<and>
     AnyNode_lookupInner [66] n2 = Some 4096"
proof -
  have root: "innerOk (enableHeadNode inner_config) (newRoot True 4096)" using inner_root(1) by (simp add: inner_config_def)
  have f: "inFences [] [] [65]" "[65] \<notin> set (nodeSeps (newRoot True 4096))" "length [65 :: byte] \<le> maxEntry" "[65 :: byte] \<noteq> []"
    "(8192 :: nat) < 2 ^ 64"
    using inner_root(4) by (simp_all add: maxEntry_def)
  obtain ok n1 where r: "innerRequestSpaceFor inner_config (length [65 :: byte]) (newRoot True 4096) = Some (ok, n1)"
    "if ok then \<exists>n2. AnyNode_insertChild inner_config [65] 8192 n1 = Some n2 \<and>
        innerOk (enableHeadNode inner_config) n2 \<and> fenced [] [] n2 \<and>
        (\<forall>key. inFences [] [] key \<longrightarrow> AnyNode_lookupInner key n2 =
          (if key \<le> [65] \<and> lookupInnerIndex key (newRoot True 4096) = lookupInnerIndex [65] (newRoot True 4096) then Some 8192
           else AnyNode_lookupInner key (newRoot True 4096)))
     else n1 = newRoot True 4096 \<and> 25 \<le> length (nodeSeps (newRoot True 4096))"
    using inner_insert_spec [OF root inner_root(2) f(1,2,4,3,5)] by blast
  then have ok: ok using inner_root(4) by (cases ok) simp_all
  have inv: "innerInv (newRoot True 4096)" "inFences (leafLowerFence (newRoot True 4096)) (leafUpperFence (newRoot True 4096)) k" for k
    using inner_root(1,2) by (simp_all add: innerOk_def fenced_def)
  have lb: "is_lower_bound (nodeSeps (newRoot True 4096)) k 0" for k by (simp add: inner_root(4) is_lower_bound_def)
  note l = inner_lookups [OF inv lb]
  from r ok obtain n2 where "AnyNode_insertChild inner_config [65] 8192 n1 = Some n2"
    "\<And>key. AnyNode_lookupInner key n2 = (if key \<le> [65] then Some 8192 else Some 4096)"
    by (auto simp: l inner_root(3))
  with r(1) ok show ?thesis by simp
qed

text \<open>C13: the split of an inner page with at least 25 separators gives two pages of the same kind that meet at the
  separator which goes to the parent: the left one has the separators before it, the right one those after
  it, and the children in order are the old ones.\<close>

theorem inner_split_spec:
  assumes "innerOk heads n" "fenced lo up n" "25 \<le> length (nodeSeps n)"
  shows "\<exists>sep l r. splitPlan cfg env key n = Some (n, length sep, Some (sep, l, r)) \<and>
    innerOk heads l \<and> innerOk heads r \<and> fenced lo sep l \<and> fenced sep up r \<and>
    nodeSeps l @ sep # nodeSeps r = nodeSeps n \<and> nodeKids l @ nodeKids r = nodeKids n \<and>
    11 \<le> length (nodeSeps l) \<and> 11 \<le> length (nodeSeps r)"
proof -
  obtain s sep l r where s: "splitPlan cfg env key n = Some (n, length sep, Some (sep, l, r))"
    "innerOk heads l" "innerOk heads r" "fenced lo sep l" "fenced sep up r" "sep \<noteq> []" "s < length (nodeSeps n)"
    "nodeSeps l = take s (nodeSeps n)" "nodeSeps n ! s = sep" "nodeSeps r = drop (Suc s) (nodeSeps n)"
    "nodeKids l = take (Suc s) (nodeKids n)" "nodeKids r = drop (Suc s) (nodeKids n)"
    "weight (length (nodeSeps l)) + weight (length (nodeSeps r)) + 12 \<le> weight (length (nodeSeps n))" "11 \<le> s"
    "s + 12 \<le> length (nodeSeps n)"
    by (rule inner_split [OF assms])
  moreover have "nodeSeps l @ sep # nodeSeps r = nodeSeps n"
    using id_take_nth_drop [OF s(7)] by (simp add: s(8,9,10))
  ultimately show ?thesis by (intro exI [of _ sep] exI [of _ l] exI [of _ r]) simp
qed

theorem inner_split_spec_witness:
  "\<forall>env. \<exists>n sep l r. nodeSeps n = map (\<lambda>i. [word_of_nat (Suc i)]) [0..<25] \<and>
     splitPlan inner_config env [1] n = Some (n, length sep, Some (sep, l, r)) \<and>
     nodeSeps l @ sep # nodeSeps r = nodeSeps n \<and> 11 \<le> length (nodeSeps l)"
proof
  fix env
  obtain n where n: "innerOk True n" "fenced [] [] n" "nodeSeps n = map (\<lambda>i. [word_of_nat (Suc i)]) [0..<25]"
    using wide_page [of 25] by auto
  have "25 \<le> length (nodeSeps n)" using n(3) by simp
  from inner_split_spec [OF n(1,2) this, of inner_config env "[1]"] n(3)
  show "\<exists>n sep l r. nodeSeps n = map (\<lambda>i. [word_of_nat (Suc i)]) [0..<25] \<and>
     splitPlan inner_config env [1] n = Some (n, length sep, Some (sep, l, r)) \<and>
     nodeSeps l @ sep # nodeSeps r = nodeSeps n \<and> 11 \<le> length (nodeSeps l)"
    by blast
qed

text \<open>C14: a head node of four-byte integers that is turned into one of eight-byte integers and back has the same
  integers, separators and children, and the wide page has the same separators and children, too.\<close>

theorem head_conversion_roundtrip:
  assumes "headInv (n :: HeadNode4)" "fenceFit 8 (HeadNode_getLowerFence n) (HeadNode_getUpperFence n)"
    and "HeadNode_convertToHead8WithSpace n = Some n8"
  shows "HeadNode_seps n8 = HeadNode_seps n \<and> HeadNode_kids n8 = HeadNode_kids n \<and>
    (\<exists>n4. HeadNode_convertToHead4WithSpace n8 = Some n4 \<and> headInv n4 \<and> HeadNode_heads n4 = HeadNode_heads n \<and>
       HeadNode_seps n4 = HeadNode_seps n \<and> HeadNode_kids n4 = HeadNode_kids n)"
proof -
  note c8 = convertToHead8_correct [OF assms]
  note s4 = head4.headInv_seps [OF assms(1)] and s8 = head8.headInv_seps [OF c8(1), unfolded c8(2-4,6)]
  have same: "sepOf (hn_keys n8 i) = sepOf (hn_keys n i)" if "i < hn_count n" for i
    using s4(3) [OF that] s8(3) [OF that] by simp
  have "\<not> list_ex (\<lambda>i. HeadNode_getKeyLength n8 i \<ge> 4) [0..<hn_count n8]"
    using head4.isSepHeadE(1) [OF s4(4)] head8.isSepHeadE(3) [OF s8(4)] same
    by (auto simp: list_ex_iff c8(6) HeadNode_getKeyLength_def not_le)
  then obtain n4 where n4: "HeadNode_convertToHead4WithSpace n8 = Some n4"
    by (simp add: HeadNode_convertToHead4WithSpace_def Let_def)
  have "hn_count n8 \<le> capacityOf 4 (HeadNode_getLowerFence n8) (HeadNode_getUpperFence n8)"
    using assms(1) headPageOk_fit(2) [of n] by (simp add: c8(2,3,6) headInv_def)
  note c4 = convertToHead4_correct [OF c8(1) this n4, unfolded c8(2-6)]
  note s4' = head4.headInv_seps [OF c4(1), unfolded c4(2-4,6)]
  have "hn_keys n4 i = hn_keys n i" if i: "i < hn_count n" for i
  proof -
    have "sepOf (hn_keys n4 i) = sepOf (hn_keys n i)" using s4(3) [OF i] s4'(3) [OF i] by simp
    then show ?thesis using head4.isSepHeadE(2) [OF s4(4) [OF i]] head4.isSepHeadE(2) [OF s4'(4) [OF i]] by simp
  qed
  then have "HeadNode_heads n4 = HeadNode_heads n" by (simp add: HeadNode_heads_def c4(6))
  with n4 c4 c8(4,5) show ?thesis by simp
qed

theorem head_conversion_roundtrip_witness:
  "\<exists>(n :: HeadNode4) n8 n4. HeadNode_seps n = [[65, 66]] \<and> HeadNode_convertToHead8WithSpace n = Some n8 \<and>
     HeadNode_seps n8 = [[65, 66]] \<and> HeadNode_convertToHead4WithSpace n8 = Some n4 \<and> HeadNode_heads n4 = HeadNode_heads n"
proof -
  let ?r = "HeadNode_init [] [] TmpHeadNode :: HeadNode4"
  have fit: "fenceFit s [] []" if "s = 4 \<or> s = 8" for s using capacityOf_eq(1) [of s "[]" "[]"] that by auto
  note r = HeadNode_init_facts [of "[]" "[]", where 'w = 32, simplified, OF fit [OF disjI1 [OF refl]]]
  have cap: "1 \<le> capacityOf 4 [] []" "2 \<le> capacityOf 8 [] []" by (rule capacityOf_bounds(1); simp)+
  obtain n where n: "headInv n" "sameFrame ?r n" "HeadNode_seps n = [[65, 66]]"
    by (rule head4.HeadNode_insertChild_correct [OF headRoot_facts(1), of "[65, 66]" 0 8192])
      (use headRoot_facts r cap in \<open>auto simp: HeadNode_covers_def inFences_def is_lower_bound_def\<close>)
  have f: "HeadNode_getLowerFence n = []" "HeadNode_getUpperFence n = []" "hn_count n = 1"
    using sameFrame_facts(1,2) [OF n(2)] headRoot_facts(2,3) arg_cong [OF n(3), of length] by simp_all
  have ok: "headPageOk n" using n(1) by (simp add: headInv_def)
  have "headKeyCapacity 8 (HeadNode_fencesOffset n) = capacityOf 8 [] []"
    using HeadNode_fencesOffset_eq [OF ok] arg_cong [OF f(1), of length] arg_cong [OF f(2), of length]
    by (simp add: capacityOf_def HeadNode_getLowerFence_def HeadNode_getUpperFence_def)
  then obtain n8 where n8: "HeadNode_convertToHead8WithSpace n = Some n8"
    using cap(2) f(3) by (simp add: HeadNode_convertToHead8WithSpace_def Let_def)
  have "fenceFit 8 (HeadNode_getLowerFence n) (HeadNode_getUpperFence n)" using fit f by simp
  from head_conversion_roundtrip [OF n(1) this n8] n(3) n8 show ?thesis by auto
qed

end
