(* ===== verification/Client.thy ===== *)
theory Client
  imports Text "HOL-Library.Word"
begin

text \<open>
  The client of \<open>redis_client/src\<close>: a thin layer over \<open>hiredis\<close>, whose functions and type codes are
  parameters. Replies are checked for their type before a payload is taken out of them.
\<close>

subsection \<open>Types of replies\<close>

datatype RedisType = RT_STRING | RT_ARRAY | RT_INTEGER | RT_NIL | RT_STATUS | RT_ERROR | RT_DOUBLE | RT_BOOL
  | RT_MAP | RT_SET | RT_ATTR | RT_PUSH | RT_BIGNUM | RT_VERB

definition getTypeName :: "RedisType \<Rightarrow> string" where
  "getTypeName t =
     (case t of RT_STRING \<Rightarrow> ''STRING'' | RT_ARRAY \<Rightarrow> ''ARRAY'' | RT_INTEGER \<Rightarrow> ''INTEGER'' | RT_NIL \<Rightarrow> ''NIL''
      | RT_STATUS \<Rightarrow> ''STATUS'' | RT_ERROR \<Rightarrow> ''ERROR'' | RT_DOUBLE \<Rightarrow> ''DOUBLE'' | RT_BOOL \<Rightarrow> ''BOOL''
      | RT_MAP \<Rightarrow> ''MAP'' | RT_SET \<Rightarrow> ''SET'' | RT_ATTR \<Rightarrow> ''ATTR'' | RT_PUSH \<Rightarrow> ''PUSH''
      | RT_BIGNUM \<Rightarrow> ''BIGNUM'' | RT_VERB \<Rightarrow> ''VERB'')"

definition allTypes :: "RedisType list" where
  "allTypes = [RT_STRING, RT_ARRAY, RT_INTEGER, RT_NIL, RT_STATUS, RT_ERROR, RT_DOUBLE, RT_BOOL, RT_MAP, RT_SET,
     RT_ATTR, RT_PUSH, RT_BIGNUM, RT_VERB]"

text \<open>A reply object of \<open>hiredis\<close> as far as the client reads it; \<open>str\<close> is the memory behind the
  pointer up to its \<open>len\<close>, or the null pointer.\<close>

datatype redisReply = redisReply (r_type: int) (r_integer: "64 word") (r_str: "string option") (r_element: "redisReply list")

datatype client_error =
    Error_connecting "string option"
  | Error_sending_command int string
  | Error_sending_pipelined int
  | Expected_type RedisType string
  | Resp_error string
  | Null_string

text \<open>The library: its type codes and its calls on the connection context \<open>'c\<close>. The variable arguments of
  a formatted command are C strings and integers.\<close>

datatype format_arg = Fmt_string string | Fmt_int int

record 'c hiredis =
  REDIS_REPLY :: "RedisType \<Rightarrow> int"
  redisConnect :: "string \<Rightarrow> int \<Rightarrow> 'c option"
  ctx_err :: "'c \<Rightarrow> int"
  ctx_errstr :: "'c \<Rightarrow> string"
  redisCommand :: "string \<Rightarrow> format_arg list \<Rightarrow> 'c \<Rightarrow> redisReply option \<times> 'c"
  redisAppendCommand :: "string \<Rightarrow> format_arg list \<Rightarrow> 'c \<Rightarrow> int \<times> 'c"
  redisCommandArgv :: "string list \<Rightarrow> 'c \<Rightarrow> redisReply option \<times> 'c"
  redisAppendCommandArgv :: "string list \<Rightarrow> 'c \<Rightarrow> int \<times> 'c"
  redisGetReply :: "'c \<Rightarrow> int \<times> redisReply option \<times> 'c"

definition REDIS_OK :: int where
  "REDIS_OK = 0"

subsection \<open>RedisReply\<close>

text \<open>\<open>getType\<close> casts the integer to the enumeration; \<open>None\<close> is a value without a name.\<close>

definition getType :: "'c hiredis \<Rightarrow> redisReply \<Rightarrow> RedisType option" where
  "getType lib reply = find (\<lambda>t. REDIS_REPLY lib t = r_type reply) allTypes"

definition reply_is :: "'c hiredis \<Rightarrow> RedisType \<Rightarrow> redisReply \<Rightarrow> bool" where
  "reply_is lib t reply \<longleftrightarrow> r_type reply = REDIS_REPLY lib t"

definition assertType :: "'c hiredis \<Rightarrow> RedisType \<Rightarrow> redisReply \<Rightarrow> client_error + unit" where
  "assertType lib t reply =
     (if \<not> reply_is lib t reply
      then Inl (Expected_type t (case getType lib reply of None \<Rightarrow> ''UNKNOWN'' | Some u \<Rightarrow> getTypeName u))
      else Inr ())"

text \<open>A \<open>const char*\<close> is read up to the first zero byte, by \<open>std::string\<close> and by a \<open>%s\<close> alike.\<close>

definition c_str :: "string \<Rightarrow> string" where
  "c_str s = takeWhile (\<lambda>c. c \<noteq> CHR 0x00) s"

definition c_string :: "string option \<Rightarrow> client_error + string" where
  "c_string p = (case p of None \<Rightarrow> Inl Null_string | Some s \<Rightarrow> Inr (c_str s))"

definition orThrow :: "'c hiredis \<Rightarrow> redisReply \<Rightarrow> client_error + redisReply" where
  "orThrow lib reply =
     (if reply_is lib RT_ERROR reply
      then (case c_string (r_str reply) of Inl e \<Rightarrow> Inl e | Inr s \<Rightarrow> Inl (Resp_error s))
      else Inr reply)"

definition getStatus :: "'c hiredis \<Rightarrow> redisReply \<Rightarrow> client_error + string" where
  "getStatus lib reply =
     (case assertType lib RT_STATUS reply of Inl e \<Rightarrow> Inl e | Inr _ \<Rightarrow> c_string (r_str reply))"

definition getString :: "'c hiredis \<Rightarrow> redisReply \<Rightarrow> client_error + string" where
  "getString lib reply =
     (case assertType lib RT_STRING reply of Inl e \<Rightarrow> Inl e | Inr _ \<Rightarrow> c_string (r_str reply))"

definition getInt :: "'c hiredis \<Rightarrow> redisReply \<Rightarrow> client_error + 64 word" where
  "getInt lib reply =
     (case assertType lib RT_INTEGER reply of Inl e \<Rightarrow> Inl e | Inr _ \<Rightarrow> Inr (r_integer reply))"

definition getError :: "'c hiredis \<Rightarrow> redisReply \<Rightarrow> client_error + string" where
  "getError lib reply =
     (case assertType lib RT_ERROR reply of Inl e \<Rightarrow> Inl e | Inr _ \<Rightarrow> c_string (r_str reply))"

definition getArray :: "'c hiredis \<Rightarrow> redisReply \<Rightarrow> client_error + redisReply list" where
  "getArray lib reply =
     (case assertType lib RT_ARRAY reply of Inl e \<Rightarrow> Inl e | Inr _ \<Rightarrow> Inr (r_element reply))"

subsection \<open>RedisClient\<close>

definition client_connect :: "'c hiredis \<Rightarrow> string \<Rightarrow> int \<Rightarrow> client_error + 'c" where
  "client_connect lib host port =
     (case redisConnect lib host port of
        None \<Rightarrow> Inl (Error_connecting None)
      | Some context \<Rightarrow>
          if ctx_err lib context \<noteq> 0 then Inl (Error_connecting (Some (ctx_errstr lib context))) else Inr context)"

definition makeReply :: "'c hiredis \<Rightarrow> redisReply option \<Rightarrow> 'c \<Rightarrow> client_error + redisReply" where
  "makeReply lib reply context =
     (case reply of
        None \<Rightarrow> Inl (Error_sending_command (ctx_err lib context) (ctx_errstr lib context))
      | Some r \<Rightarrow> Inr r)"

text \<open>The argument vectors: pointers and lengths, here the strings themselves.\<close>

definition makeArgsArrays :: "string list \<Rightarrow> string list \<times> nat list" where
  "makeArgsArrays args = (args, map length args)"

definition argvStrings :: "string list \<times> nat list \<Rightarrow> string list" where
  "argvStrings av = map2 (\<lambda>s n. take n s) (fst av) (snd av)"

definition client_run :: "'c hiredis \<Rightarrow> string list \<Rightarrow> 'c \<Rightarrow> (client_error + redisReply) \<times> 'c" where
  "client_run lib args context =
     (let (reply, context') = redisCommandArgv lib (argvStrings (makeArgsArrays args)) context
      in (makeReply lib reply context', context'))"

text \<open>The template \<open>run\<close> that takes a format and its arguments.\<close>

definition client_runFormat :: "'c hiredis \<Rightarrow> string \<Rightarrow> format_arg list \<Rightarrow> 'c \<Rightarrow> (client_error + redisReply) \<times> 'c" where
  "client_runFormat lib fmt args context =
     (let (reply, context') = redisCommand lib fmt args context in (makeReply lib reply context', context'))"

definition handleRedisErrorCode :: "int \<Rightarrow> client_error + unit" where
  "handleRedisErrorCode code = (if code \<noteq> REDIS_OK then Inl (Error_sending_pipelined code) else Inr ())"

definition client_appendRun :: "'c hiredis \<Rightarrow> string list \<Rightarrow> 'c \<Rightarrow> (client_error + unit) \<times> 'c" where
  "client_appendRun lib args context =
     (let (code, context') = redisAppendCommandArgv lib (argvStrings (makeArgsArrays args)) context
      in (handleRedisErrorCode code, context'))"

definition client_appendRunFormat :: "'c hiredis \<Rightarrow> string \<Rightarrow> format_arg list \<Rightarrow> 'c \<Rightarrow> (client_error + unit) \<times> 'c" where
  "client_appendRunFormat lib fmt args context =
     (let (code, context') = redisAppendCommand lib fmt args context in (handleRedisErrorCode code, context'))"

definition client_getReply :: "'c hiredis \<Rightarrow> 'c \<Rightarrow> (client_error + redisReply) \<times> 'c" where
  "client_getReply lib context =
     (let (code, reply, context') = redisGetReply lib context
      in (case handleRedisErrorCode code of Inl e \<Rightarrow> Inl e | Inr _ \<Rightarrow> makeReply lib reply context', context'))"

end
