(* ===== verification/PerfTimer.thy ===== *)
theory PerfTimer
  imports Text
begin

text \<open>
  The timer of the benchmark (\<open>benchmarking/ycsb2/src/PerfTImer.cpp\<close>): parameters of a measurement, the
  time between start and stop, and the two lines of its report, names above values. The map of
  parameters is a sorted association list. The clock and the decimal form of a duration are parameters.
\<close>

fun param_assign :: "string \<Rightarrow> string \<Rightarrow> (string \<times> string) list \<Rightarrow> (string \<times> string) list" where
  "param_assign k v [] = [(k, v)]"
| "param_assign k v ((k', v') # m) =
     (if bytes_of k < bytes_of k' then (k, v) # (k', v') # m
      else if k = k' then (k, v) # m
      else (k', v') # param_assign k v m)"

record timer =
  t_params :: "(string \<times> string) list"
  printHeader :: bool
  startTime :: int
  stopTime :: int

definition timer_new :: timer where
  "timer_new = \<lparr>t_params = [], printHeader = True, startTime = - (2 ^ 63), stopTime = - (2 ^ 63)\<rparr>"

definition timer_start :: "int \<Rightarrow> timer \<Rightarrow> timer" where
  "timer_start now t = t\<lparr>startTime := now\<rparr>"

definition timer_stop :: "int \<Rightarrow> timer \<Rightarrow> timer" where
  "timer_stop now t = t\<lparr>stopTime := now\<rparr>"

definition getDuration :: "timer \<Rightarrow> int" where
  "getDuration t = stopTime t - startTime t"

definition setParam :: "string \<Rightarrow> string \<Rightarrow> timer \<Rightarrow> timer" where
  "setParam name value t = t\<lparr>t_params := param_assign name value (t_params t)\<rparr>"

text \<open>\<open>std::setw\<close> fills on the left.\<close>

definition setw :: "nat \<Rightarrow> string \<Rightarrow> string" where
  "setw width s = replicate (width - length s) (CHR '' '') @ s"

definition printCounter :: "string \<times> string \<Rightarrow> string \<Rightarrow> string \<Rightarrow> bool \<Rightarrow> string \<times> string" where
  "printCounter outs name counterValue addComma =
     (let width = max (length name) (length counterValue);
          comma = (if addComma then '','' else [])
      in (fst outs @ setw width name @ comma @ '' '', snd outs @ setw width counterValue @ comma @ '' ''))"

definition printParams :: "string \<times> string \<Rightarrow> timer \<Rightarrow> string \<times> string" where
  "printParams outs t = foldl (\<lambda>outs p. printCounter outs (fst p) (snd p) True) outs (t_params t)"

definition printReport :: "(int \<Rightarrow> string) \<Rightarrow> string \<times> string \<Rightarrow> timer \<Rightarrow> string \<times> string" where
  "printReport show_duration outs t =
     printCounter (printParams outs t) ''duration'' (show_duration (getDuration t)) True"

text \<open>The destructor of \<open>PerfTimerBlock\<close>: the header is printed with the first report only.\<close>

definition timer_block_end :: "(int \<Rightarrow> string) \<Rightarrow> int \<Rightarrow> timer \<Rightarrow> string list \<times> timer" where
  "timer_block_end show_duration now t0 =
     (let t = timer_stop now t0;
          (header, data) = printReport show_duration ([], []) t
      in ((if printHeader t then [header] else []) @ [data], t\<lparr>printHeader := False\<rparr>))"

subsection \<open>Lemmas\<close>

text \<open>The columns of the two lines stand below each other: after every counter both lines have the
  same length.\<close>

lemma printCounter_aligned:
  "length (fst outs) = length (snd outs) \<Longrightarrow>
   length (fst (printCounter outs name v c)) = length (snd (printCounter outs name v c))"
  by (auto simp: printCounter_def Let_def setw_def)

lemma printParams_aligned:
  "length (fst outs) = length (snd outs) \<Longrightarrow>
   length (fst (printParams outs t)) = length (snd (printParams outs t))"
proof -
  have "length (fst outs) = length (snd outs) \<Longrightarrow>
    length (fst (foldl (\<lambda>outs p. printCounter outs (fst p) (snd p) True) outs ps)) =
    length (snd (foldl (\<lambda>outs p. printCounter outs (fst p) (snd p) True) outs ps))" for ps outs
    by (induction ps arbitrary: outs) (simp_all add: printCounter_aligned)
  then show "length (fst outs) = length (snd outs) \<Longrightarrow>
    length (fst (printParams outs t)) = length (snd (printParams outs t))"
    by (simp add: printParams_def)
qed

lemma report_aligned:
  assumes "timer_block_end show_duration now t = ([header, data], t1)"
  shows "length header = length data"
proof -
  have "printReport show_duration ([], []) (timer_stop now t) = (header, data)"
    using assms by (auto simp: timer_block_end_def Let_def split: prod.splits if_splits)
  then show ?thesis
    using printCounter_aligned [OF printParams_aligned [of "([], [])"]]
    by (metis fst_conv list.size(3) printReport_def snd_conv)
qed

lemma map_of_param_assign: "map_of (param_assign k v m) = (map_of m)(k \<mapsto> v)"
  by (induction m) auto

lemma param_of_setParam: "map_of (t_params (setParam name value t)) name = Some value"
  by (simp add: setParam_def map_of_param_assign)

end
