(* ===== verification/Ycsb.thy ===== *)
theory Ycsb
  imports Client PerfTimer Config ArgParsing "HOL-Library.Monad_Syntax"
begin

text \<open>
  The benchmark driver \<open>benchmarking/ycsb2/src/ycsb2.cpp\<close>: key sets, workloads and the program that
  runs one of them against a server. Unsigned integers are naturals below their width, \<open>int64_t\<close> is a
  64-bit word. A step of the program is a function on its state; it returns a value, throws or aborts
  (\<open>Inl\<close>), or gives \<open>None\<close>: a failed \<open>assert\<close>, an access out of range, or a loop that does not end.
  The random generators, the clock, the environment and \<open>zipfc\<close>'s libraries are parameters; what they
  read from outside is the component \<open>b_world\<close> of the state.
\<close>

subsection \<open>Programs\<close>

datatype bench_error = Client_failure client_error | Terminate | Abort string | Runtime_error string | Length_error

type_synonym ('a, 's) prog = "'s \<Rightarrow> ((bench_error + 'a) \<times> 's) option"

definition pureP :: "'a \<Rightarrow> ('a, 's) prog" where
  "pureP x s = Some (Inr x, s)"

definition throwP :: "bench_error \<Rightarrow> ('a, 's) prog" where
  "throwP e s = Some (Inl e, s)"

definition undefinedP :: "('a, 's) prog" where
  "undefinedP s = None"

definition andThen :: "('a, 's) prog \<Rightarrow> ('a \<Rightarrow> ('b, 's) prog) \<Rightarrow> ('b, 's) prog" where
  "andThen m f s =
     (case m s of
        None \<Rightarrow> None
      | Some (Inl e, s1) \<Rightarrow> Some (Inl e, s1)
      | Some (Inr x, s1) \<Rightarrow> f x s1)"

text \<open>A loop over an index range is \<open>forEach\<close>; \<open>whileP\<close> is any other loop, with its variables as a value.\<close>

fun forEach :: "('x \<Rightarrow> (unit, 's) prog) \<Rightarrow> 'x list \<Rightarrow> (unit, 's) prog" where
  "forEach body [] = pureP ()"
| "forEach body (x # xs) = andThen (body x) (\<lambda>_. forEach body xs)"

partial_function (option) whileP :: "('x \<Rightarrow> bool) \<Rightarrow> ('x \<Rightarrow> ('x, 's) prog) \<Rightarrow> 'x \<Rightarrow> ('x, 's) prog" where
  "whileP c body x s =
     (if c x
      then do {
        (r, s1) \<leftarrow> body x s;
        (case r of Inl e \<Rightarrow> Some (Inl e, s1) | Inr y \<Rightarrow> whileP c body y s1)
      }
      else Some (Inr x, s))"

definition whenP :: "bool \<Rightarrow> (unit, 's) prog \<Rightarrow> (unit, 's) prog" where
  "whenP b m = (if b then m else pureP ())"

definition u64 :: "nat \<Rightarrow> nat" where
  "u64 x = x mod 2 ^ 64"

subsection \<open>Options, parameters and state\<close>

record 'd options =
  dryRun :: bool
  keyCount :: nat
  keyBatchCount :: nat
  payloadSize :: nat
  opCount :: nat
  opBatchCount :: nat
  zipfParameter :: 'd
  maxScanLength :: nat

text \<open>The libraries: \<open>zipf_sample n p\<close> is a sample of \<open>ZipfDistribution::new(n, p)\<close>, \<open>uniform_sample n\<close> one of
  \<open>Uniform::new(0, n)\<close>, \<open>bloom_check xs\<close> the answer of a Bloom filter that \<open>xs\<close> were put into, and
  \<open>random_permutation n\<close> where \<open>std::random_shuffle\<close> takes the elements of a sequence of length \<open>n\<close> from.
  \<open>'d\<close> stands for \<open>double\<close>.\<close>

record ('c, 'r, 'd) bench_env =
  redis :: "'c hiredis"
  zipf_sample :: "nat \<Rightarrow> 'd \<Rightarrow> 'r \<Rightarrow> nat \<times> 'r"
  uniform_sample :: "nat \<Rightarrow> 'r \<Rightarrow> nat \<times> 'r"
  positive :: "'d \<Rightarrow> bool"
  hash_usize :: "nat \<Rightarrow> nat"
  rng_gen :: "nat \<Rightarrow> 'r \<Rightarrow> nat \<times> 'r"
  bloom_check :: "nat list \<Rightarrow> nat \<Rightarrow> bool"
  random_permutation :: "nat \<Rightarrow> 'r \<Rightarrow> nat list \<times> 'r"
  uniform_between :: "nat \<Rightarrow> nat \<Rightarrow> 'r \<Rightarrow> nat \<times> 'r"
  clock :: "'r \<Rightarrow> int \<times> 'r"
  show_duration :: "int \<Rightarrow> string"
  show_double :: "'d \<Rightarrow> string"
  env_var :: "string \<Rightarrow> string option"
  strtod_u64 :: "string \<Rightarrow> nat"
  strtod :: "string \<Rightarrow> 'd"
  div_double :: "nat \<Rightarrow> 'd \<Rightarrow> nat"
  time_seed :: nat
  timestamp :: string
  program_name :: string
  file_lines :: "string \<Rightarrow> string list"

text \<open>The static arrays of \<open>zipf_next\<close> and \<open>op_next\<close> belong to the state.\<close>

record ('c, 'r) bench =
  b_client :: 'c
  b_world :: 'r
  z_array :: "nat list"
  z_index :: nat
  z_generated :: nat
  op_array :: "bool list"
  op_index :: nat
  b_timer :: timer
  b_cout :: "string list"
  b_cerr :: "string list"

definition ZIPF_GEN_SIZE :: nat where
  "ZIPF_GEN_SIZE = 2 ^ 18"

definition OP_GEN_SIZE :: nat where
  "OP_GEN_SIZE = 5 * 2 ^ 18"

definition bench_start :: "'c \<Rightarrow> 'r \<Rightarrow> timer \<Rightarrow> ('c, 'r) bench" where
  "bench_start c r t =
     \<lparr>b_client = c, b_world = r, z_array = replicate ZIPF_GEN_SIZE 0, z_index = ZIPF_GEN_SIZE - 1, z_generated = 0,
      op_array = replicate OP_GEN_SIZE False, op_index = OP_GEN_SIZE - 1, b_timer = t, b_cout = [], b_cerr = []\<rparr>"

definition cerr :: "string \<Rightarrow> (unit, ('c, 'r) bench) prog" where
  "cerr line s = Some (Inr (), s\<lparr>b_cerr := b_cerr s @ [line]\<rparr>)"

definition drawP :: "('r \<Rightarrow> 'x \<times> 'r) \<Rightarrow> ('x, ('c, 'r) bench) prog" where
  "drawP f s = (let (x, r) = f (b_world s) in Some (Inr x, s\<lparr>b_world := r\<rparr>))"

definition shuffleP :: "('c, 'r, 'd) bench_env \<Rightarrow> 'x list \<Rightarrow> ('x list, ('c, 'r) bench) prog" where
  "shuffleP env xs =
     andThen (drawP (random_permutation env (length xs))) (\<lambda>p. pureP (map (\<lambda>i. xs ! i) p))"

definition indexP :: "'x list \<Rightarrow> nat \<Rightarrow> ('x, 's) prog" where
  "indexP xs i = (if i < length xs then pureP (xs ! i) else undefinedP)"

subsection \<open>Random indices and operations\<close>

fun samples :: "('r \<Rightarrow> 'x \<times> 'r) \<Rightarrow> nat \<Rightarrow> 'r \<Rightarrow> 'x list \<times> 'r" where
  "samples f 0 r = ([], r)"
| "samples f (Suc n) r = (let (x, r1) = f r; (xs, r2) = samples f n r1 in (x # xs, r2))"

definition SHUFFLE_SCALE :: nat where
  "SHUFFLE_SCALE = 2 ^ 20"

definition zipf_generate :: "('c, 'r, 'd) bench_env \<Rightarrow> nat \<Rightarrow> 'd \<Rightarrow> nat \<Rightarrow> bool \<Rightarrow> 'r \<Rightarrow> nat list \<times> 'r" where
  "zipf_generate env num zipf_parameter n shuffle =
     (let num_elements = (if num = 0 then 1 else num)
      in samples
        (if positive env zipf_parameter
         then if shuffle
           then (\<lambda>r. let (x, r1) = zipf_sample env (num_elements * SHUFFLE_SCALE) zipf_parameter r
                     in (hash_usize env x mod num_elements, r1))
           else (\<lambda>r. let (x, r1) = zipf_sample env num_elements zipf_parameter r in (u32 x, r1))
         else uniform_sample env num_elements) n)"

text \<open>One round of the loop of \<open>zipf_next\<close>; the loop ends when it gives an index.\<close>

definition zipf_round :: "('c, 'r, 'd) bench_env \<Rightarrow> nat \<Rightarrow> 'd \<Rightarrow> bool \<Rightarrow> bool \<Rightarrow> (nat option, ('c, 'r) bench) prog" where
  "zipf_round env num_keys zp shuffle overGenerate s =
     (let i0 = (if z_generated s < num_keys then ZIPF_GEN_SIZE - 1 else z_index s);
          i1 = u32 (i0 + 1);
          i = (if i1 = ZIPF_GEN_SIZE then 0 else i1);
          s1 = (if i = 0
            then let generated = u32 (num_keys + (if overGenerate then ZIPF_GEN_SIZE div 10 else 0));
                     (xs, r) = zipf_generate env generated zp ZIPF_GEN_SIZE shuffle (b_world s)
                 in s\<lparr>z_generated := generated, z_array := xs, b_world := r\<rparr>
            else s)
      in Some (Inr (if z_array s1 ! i < num_keys then Some (z_array s1 ! i) else None), s1\<lparr>z_index := i\<rparr>))"

definition zipf_next :: "('c, 'r, 'd) bench_env \<Rightarrow> nat \<Rightarrow> 'd \<Rightarrow> bool \<Rightarrow> bool \<Rightarrow> (nat, ('c, 'r) bench) prog" where
  "zipf_next env num_keys zp shuffle overGenerate =
     andThen (whileP (\<lambda>x. x = None) (\<lambda>_. zipf_round env num_keys zp shuffle overGenerate) None)
       (\<lambda>x. pureP (the x))"

definition op_next :: "('c, 'r, 'd) bench_env \<Rightarrow> (bool, ('c, 'r) bench) prog" where
  "op_next env s =
     (let i1 = u32 (op_index s + 1);
          i = (if i1 = OP_GEN_SIZE then 0 else i1);
          s1 = (if i = 0
            then let trueCount = OP_GEN_SIZE div 20;
                     xs = map (\<lambda>i. i < trueCount) [0..<OP_GEN_SIZE];
                     (p, r) = random_permutation env OP_GEN_SIZE (b_world s)
                 in s\<lparr>op_array := map (\<lambda>i. xs ! i) p, b_world := r\<rparr>
            else s)
      in Some (Inr (op_array s1 ! i), s1\<lparr>op_index := i\<rparr>))"

end
