(* ===== verification/Workloads.thy ===== *)
theory Workloads
  imports Ycsb
begin

text \<open>The workloads of \<open>ycsb2.cpp\<close>, its key sets and its \<open>main\<close>.\<close>

definition PAYLOAD :: string where
  "PAYLOAD = ''PAYLOAD''"

definition BTreeNode_maxKVSize :: nat where
  "BTreeNode_maxKVSize = maxKVSize"

subsection \<open>Keys\<close>

definition int_to_key :: "nat \<Rightarrow> string" where
  "int_to_key x = string_of (le_encode 4 (unat (bswap32 (word_of_nat x))))"

definition long_to_key :: "nat \<Rightarrow> string" where
  "long_to_key x = string_of (le_encode 8 (unat (bswap64 (word_of_nat x))))"

definition resize :: "nat \<Rightarrow> string list \<Rightarrow> string list" where
  "resize n xs = take n xs @ replicate (n - length xs) []"

definition keySizeAcceptable :: "nat \<Rightarrow> string list \<Rightarrow> bool" where
  "keySizeAcceptable maxPayload data = list_all (\<lambda>k. \<not> BTreeNode_maxKVSize < length k + maxPayload) data"

text \<open>\<open>lits_escape_strings\<close>: the loop over the characters of one string, which skips what it inserts.\<close>

fun lits_escape :: "string \<Rightarrow> string" where
  "lits_escape [] = []"
| "lits_escape (ch # s) =
     (let c = (of_char ch :: nat)
      in if c < 2 then CHR 0x01 # char_of (c + 1) # lits_escape s
         else if 126 \<le> c
         then (if c - 126 < 64 then CHR 0x7E # char_of (c - 126 + 1) # lits_escape s
               else CHR 0x7F # char_of (c - 126 - 64 + 1) # lits_escape s)
         else ch # lits_escape s)"

definition lits_escape_strings :: "string list \<Rightarrow> (string list, ('c, 'r) bench) prog" where
  "lits_escape_strings data =
     (let escaped = map lits_escape data;
          discard_count = length (filter (\<lambda>s. 255 < length s) escaped)
      in andThen
        (whenP (0 < discard_count)
          (cerr (''truncated '' @ show_nat discard_count @ '' overlong keys for lits escaping'')))
        (\<lambda>_. pureP (map (take 255) escaped)))"

subsection \<open>Talking to the server\<close>

definition liftClient :: "client_error + 'a \<Rightarrow> ('a, 's) prog" where
  "liftClient r = (case r of Inl e \<Rightarrow> throwP (Client_failure e) | Inr x \<Rightarrow> pureP x)"

definition onClient :: "('c \<Rightarrow> (client_error + 'a) \<times> 'c) \<Rightarrow> ('a, ('c, 'r) bench) prog" where
  "onClient f s = (let (r, c) = f (b_client s) in liftClient r (s\<lparr>b_client := c\<rparr>))"

definition runArgs :: "('c, 'r, 'd) bench_env \<Rightarrow> string list \<Rightarrow> (redisReply, ('c, 'r) bench) prog" where
  "runArgs env args =
     andThen (onClient (client_run (redis env) args)) (\<lambda>reply. liftClient (orThrow (redis env) reply))"

definition runFormat :: "('c, 'r, 'd) bench_env \<Rightarrow> string \<Rightarrow> format_arg list \<Rightarrow> (redisReply, ('c, 'r) bench) prog" where
  "runFormat env fmt args =
     andThen (onClient (client_runFormat (redis env) fmt args)) (\<lambda>reply. liftClient (orThrow (redis env) reply))"

definition flushAll :: "('c, 'r, 'd) bench_env \<Rightarrow> (unit, ('c, 'r) bench) prog" where
  "flushAll env = andThen (runFormat env ''FLUSHALL'' []) (\<lambda>_. pureP ())"

definition setKey :: "('c, 'r, 'd) bench_env \<Rightarrow> string \<Rightarrow> (unit, ('c, 'r) bench) prog" where
  "setKey env key =
     andThen (runFormat env ''SET %s %s'' [Fmt_string (c_str key), Fmt_string (c_str PAYLOAD)]) (\<lambda>_. pureP ())"

text \<open>A \<open>throw\<close> without an exception to throw again ends the program.\<close>

definition getAndCheck :: "('c, 'r, 'd) bench_env \<Rightarrow> string \<Rightarrow> (unit, ('c, 'r) bench) prog" where
  "getAndCheck env key =
     andThen (runFormat env ''GET %s'' [Fmt_string (c_str key)]) (\<lambda>reply.
     andThen (liftClient (getString (redis env) reply)) (\<lambda>payload.
     whenP (payload \<noteq> PAYLOAD) (throwP Terminate)))"

definition setTimerParam :: "string \<Rightarrow> string \<Rightarrow> (unit, ('c, 'r) bench) prog" where
  "setTimerParam name v s = Some (Inr (), s\<lparr>b_timer := setParam name v (b_timer s)\<rparr>)"

definition startBlock :: "('c, 'r, 'd) bench_env \<Rightarrow> (unit, ('c, 'r) bench) prog" where
  "startBlock env =
     andThen (drawP (clock env)) (\<lambda>now s. Some (Inr (), s\<lparr>b_timer := timer_start now (b_timer s)\<rparr>))"

definition endBlock :: "('c, 'r, 'd) bench_env \<Rightarrow> (unit, ('c, 'r) bench) prog" where
  "endBlock env =
     andThen (drawP (clock env)) (\<lambda>now s.
       let (out, t) = timer_block_end (show_duration env) now (b_timer s)
       in Some (Inr (), s\<lparr>b_timer := t, b_cout := b_cout s @ out\<rparr>))"

text \<open>The scope of a \<open>PerfTimerBlock\<close>. An exception ends the program before the destructor runs.\<close>

definition timerBlock :: "('c, 'r, 'd) bench_env \<Rightarrow> (unit, ('c, 'r) bench) prog \<Rightarrow> (unit, ('c, 'r) bench) prog" where
  "timerBlock env body = andThen (startBlock env) (\<lambda>_. andThen body (\<lambda>_. endBlock env))"

subsection \<open>Steps the workloads share\<close>

definition prepareKeys :: "('c, 'r, 'd) bench_env \<Rightarrow> 'd options \<Rightarrow> string list \<Rightarrow>
    ('d options \<times> string list, ('c, 'r) bench) prog" where
  "prepareKeys env opts data =
     (if keyCount opts \<le> length data \<and> keySizeAcceptable (u32 (payloadSize opts)) data
      then andThen (if dryRun opts then pureP data else shuffleP env data)
        (\<lambda>data'. pureP (opts, resize (keyCount opts) data'))
      else andThen (cerr ''UNACCEPTABLE'') (\<lambda>_. pureP (opts\<lparr>keyCount := 0, opCount := 0\<rparr>, data)))"

definition insertKeys :: "('c, 'r, 'd) bench_env \<Rightarrow> string list \<Rightarrow> nat \<Rightarrow> nat \<Rightarrow> (unit, ('c, 'r) bench) prog" where
  "insertKeys env data start stop =
     forEach (\<lambda>i. andThen (indexP data i) (setKey env)) [start..<stop]"

text \<open>\<open>std::span::subspan\<close>, with \<open>dynamic_extent\<close> for the rest of the span.\<close>

definition subspan :: "string list \<Rightarrow> nat \<Rightarrow> nat \<Rightarrow> (string list, 's) prog" where
  "subspan data offset n =
     (if length data < offset then undefinedP
      else if n = 2 ^ 64 - 1 then pureP (drop offset data)
      else if length data - offset < n then undefinedP
      else pureP (take n (drop offset data)))"

definition batchStep :: "('c, 'r, 'd) bench_env \<Rightarrow> 'd options \<Rightarrow> string list \<Rightarrow> (string list \<Rightarrow> string list) \<Rightarrow>
    nat \<Rightarrow> (nat, ('c, 'r) bench) prog" where
  "batchStep env opts data command keyIndex =
     (let next = u64 (keyIndex + keyBatchCount opts)
      in andThen (subspan data keyIndex (u64 (min next (keyCount opts) + 2 ^ 64 - keyIndex))) (\<lambda>batch.
         andThen (runArgs env (command batch)) (\<lambda>_. pureP next)))"

definition batchLoop :: "('c, 'r, 'd) bench_env \<Rightarrow> 'd options \<Rightarrow> string list \<Rightarrow> (string list \<Rightarrow> string list) \<Rightarrow>
    (unit, ('c, 'r) bench) prog" where
  "batchLoop env opts data command =
     andThen (whileP (\<lambda>keyIndex. keyIndex < keyCount opts) (batchStep env opts data command) 0) (\<lambda>_. pureP ())"

definition mset_args :: "string list \<Rightarrow> string list" where
  "mset_args batch = ''MSET'' # concat (map (\<lambda>key. [key, PAYLOAD]) batch)"

definition mget_args :: "string list \<Rightarrow> string list" where
  "mget_args batch = ''MGET'' # batch"

definition zadd_args :: "string list \<Rightarrow> string list" where
  "zadd_args batch = ''ZADD'' # ''$ROOT$'' # concat (map (\<lambda>key. [''0'', key]) batch)"

definition pickKey :: "('c, 'r, 'd) bench_env \<Rightarrow> 'd options \<Rightarrow> string list \<Rightarrow> (string, ('c, 'r) bench) prog" where
  "pickKey env opts data =
     andThen (zipf_next env (u32 (keyCount opts)) (zipfParameter opts) False False) (indexP data)"

fun pickKeys :: "('c, 'r, 'd) bench_env \<Rightarrow> 'd options \<Rightarrow> string list \<Rightarrow> nat \<Rightarrow> (string list, ('c, 'r) bench) prog" where
  "pickKeys env opts data 0 = pureP []"
| "pickKeys env opts data (Suc n) =
     andThen (pickKey env opts data) (\<lambda>key. andThen (pickKeys env opts data n) (\<lambda>keys. pureP (key # keys)))"

text \<open>The loop over \<open>opCount\<close> in batches of \<open>opBatchCount\<close>: signed counters, unsigned subtraction.\<close>

definition opBatches :: "'d options \<Rightarrow> (int \<Rightarrow> (unit, ('c, 'r) bench) prog) \<Rightarrow> (unit, ('c, 'r) bench) prog" where
  "opBatches opts body =
     andThen
       (whileP (\<lambda>remainingOps :: int64. 0 < sint remainingOps)
         (\<lambda>remainingOps.
           andThen (body (min (sint remainingOps) (sint (word_of_nat (opBatchCount opts) :: int64))))
             (\<lambda>_. pureP (remainingOps - word_of_nat (opBatchCount opts))))
         (word_of_nat (opCount opts)))
       (\<lambda>_. pureP ())"

subsection \<open>Workloads\<close>

definition runMulti :: "('c, 'r, 'd) bench_env \<Rightarrow> string list \<Rightarrow> 'd options \<Rightarrow> (unit, ('c, 'r) bench) prog" where
  "runMulti env data0 opts0 =
     andThen (prepareKeys env opts0 data0) (\<lambda>(opts, data).
     andThen (flushAll env) (\<lambda>_.
     let preInsertCount = u32 (keyCount opts - keyCount opts div 10) in
     andThen (whenP (\<not> dryRun opts) (insertKeys env data 0 preInsertCount)) (\<lambda>_.
     andThen (setTimerParam ''op'' ''insert90'') (\<lambda>_.
     andThen (timerBlock env (insertKeys env data preInsertCount (keyCount opts))) (\<lambda>_.
     andThen (setTimerParam ''op'' ''ycsb_c'') (\<lambda>_.
       timerBlock env (whenP (\<not> dryRun opts)
         (forEach (\<lambda>_. andThen (pickKey env opts data) (getAndCheck env)) [0..<opCount opts]))))))))"

definition checkReply :: "('c, 'r, 'd) bench_env \<Rightarrow> redisReply \<Rightarrow> (unit, ('c, 'r) bench) prog" where
  "checkReply env reply =
     andThen (liftClient (getArray (redis env) reply)) (\<lambda>vals.
       forEach (\<lambda>val. andThen (liftClient (getString (redis env) val)) (\<lambda>v. whenP (v \<noteq> PAYLOAD) (throwP Terminate))) vals)"

text \<open>\<open>reserve\<close> of a negative count is a count above \<open>max_size\<close>.\<close>

definition mgetBatch :: "('c, 'r, 'd) bench_env \<Rightarrow> 'd options \<Rightarrow> string list \<Rightarrow> int \<Rightarrow> (unit, ('c, 'r) bench) prog" where
  "mgetBatch env opts data batchSize =
     (if batchSize + 1 < 0 then throwP Length_error
      else andThen (pickKeys env opts data (nat batchSize)) (\<lambda>keys.
        andThen (runArgs env (mget_args keys)) (checkReply env)))"

definition runYcsbC :: "('c, 'r, 'd) bench_env \<Rightarrow> string list \<Rightarrow> 'd options \<Rightarrow> (unit, ('c, 'r) bench) prog" where
  "runYcsbC env data0 opts0 =
     andThen (prepareKeys env opts0 data0) (\<lambda>(opts, data).
     andThen (flushAll env) (\<lambda>_.
     andThen (setTimerParam ''op'' ''ycsb_c_init'') (\<lambda>_.
     andThen (timerBlock env (whenP (\<not> dryRun opts) (batchLoop env opts data mset_args))) (\<lambda>_.
     andThen (setTimerParam ''op'' ''ycsb_c_rehash'') (\<lambda>_.
     andThen (timerBlock env (whenP (\<not> dryRun opts) (batchLoop env opts data mget_args))) (\<lambda>_.
     andThen (setTimerParam ''op'' ''ycsb_c'') (\<lambda>_.
       timerBlock env (whenP (\<not> dryRun opts) (opBatches opts (mgetBatch env opts data))))))))))"

definition runSortedInsert :: "('c, 'r, 'd) bench_env \<Rightarrow> string list \<Rightarrow> 'd options \<Rightarrow> bool \<Rightarrow> (unit, ('c, 'r) bench) prog" where
  "runSortedInsert env data0 opts0 doSort =
     andThen (if keyCount opts0 \<le> length data0 \<and> keySizeAcceptable (u32 (payloadSize opts0)) data0
       then (let data = resize (keyCount opts0) data0
             in pureP (opts0, if \<not> dryRun opts0 \<and> doSort then sort_key bytes_of data else data))
       else andThen (cerr ''UNACCEPTABLE'') (\<lambda>_. pureP (opts0\<lparr>keyCount := 0\<rparr>, data0))) (\<lambda>(opts, data).
     andThen (flushAll env) (\<lambda>_.
     andThen (setTimerParam ''op'' ''sorted_insert'') (\<lambda>_.
       timerBlock env (whenP (\<not> dryRun opts) (insertKeys env data 0 (keyCount opts))))))"

text \<open>Gives \<open>configValid\<close> and the two reference parameters.\<close>

definition computeInitialKeyCount :: "nat \<Rightarrow> nat \<Rightarrow> nat \<Rightarrow> nat \<Rightarrow> (bool \<times> nat \<times> nat, ('c, 'r) bench) prog" where
  "computeInitialKeyCount avgKeyCount availableKeyCount ops reasonableMaxKeys0 =
     (if ops div 40 < avgKeyCount
      then (let initialKeyCount = avgKeyCount - ops div 40;
                expectedInsertions = ops div 20;
                reasonableMaxKeys = u32 (initialKeyCount + u32 (expectedInsertions * 2))
            in if reasonableMaxKeys \<le> availableKeyCount
               then pureP (True, initialKeyCount, reasonableMaxKeys)
               else andThen (cerr ''not enough keys'') (\<lambda>_. pureP (False, initialKeyCount, reasonableMaxKeys)))
      else andThen (cerr ''too many ops for data size'') (\<lambda>_. pureP (False, 0, reasonableMaxKeys0)))"

text \<open>The start of the workloads with inserts: the number of keys to begin with, and the most keys.\<close>

definition prepareInserts :: "'d options \<Rightarrow> string list \<Rightarrow>
    ('d options \<times> string list \<times> nat \<times> nat, ('c, 'r) bench) prog" where
  "prepareInserts opts data =
     andThen (computeInitialKeyCount (u32 (keyCount opts)) (u32 (length data)) (u32 (opCount opts)) 0)
       (\<lambda>(valid, initialKeyCount, reasonableMaxKeys).
         if \<not> valid \<or> \<not> keySizeAcceptable (u32 (payloadSize opts)) data
         then pureP (opts\<lparr>opCount := 0\<rparr>, resize 0 data, 0, reasonableMaxKeys)
         else pureP (opts, data, initialKeyCount, reasonableMaxKeys))"

definition readLatest :: "('c, 'r, 'd) bench_env \<Rightarrow> 'd options \<Rightarrow> string list \<Rightarrow> nat \<Rightarrow> (unit, ('c, 'r) bench) prog" where
  "readLatest env opts data insertedCount =
     andThen (zipf_next env insertedCount (zipfParameter opts) False True) (\<lambda>zipfSample.
     andThen (indexP data (u32 (insertedCount + 2 ^ 32 - 1 + 2 ^ 32 - zipfSample))) (getAndCheck env))"

definition ycsbDStep :: "('c, 'r, 'd) bench_env \<Rightarrow> 'd options \<Rightarrow> string list \<Rightarrow> nat \<times> nat \<Rightarrow>
    (nat \<times> nat, ('c, 'r) bench) prog" where
  "ycsbDStep env opts data = (\<lambda>(completedOps, insertedCount).
     andThen (op_next env) (\<lambda>isInsert.
       if isInsert
       then (if insertedCount = length data then throwP (Abort ''exhausted keys for insertion'')
             else andThen (indexP data insertedCount) (\<lambda>key.
               andThen (setKey env key) (\<lambda>_. pureP (completedOps + 1, u32 (insertedCount + 1)))))
       else andThen (readLatest env opts data insertedCount) (\<lambda>_. pureP (completedOps + 1, insertedCount))))"

definition runYcsbD :: "('c, 'r, 'd) bench_env \<Rightarrow> string list \<Rightarrow> 'd options \<Rightarrow> (unit, ('c, 'r) bench) prog" where
  "runYcsbD env data0 opts0 =
     andThen (prepareInserts opts0 data0) (\<lambda>(opts, data1, initialKeyCount, reasonableMaxKeys).
     andThen (if dryRun opts then pureP data1 else shuffleP env data1) (\<lambda>data.
     andThen (flushAll env) (\<lambda>_.
     andThen (setTimerParam ''op'' ''ycsb_d_init'') (\<lambda>_.
     andThen (timerBlock env (whenP (\<not> dryRun opts) (insertKeys env data 0 initialKeyCount))) (\<lambda>_.
     andThen (setTimerParam ''op'' ''ycsb_d'') (\<lambda>_.
       timerBlock env (whenP (\<not> dryRun opts)
         (andThen (whileP (\<lambda>(completedOps, _). completedOps < opCount opts) (ycsbDStep env opts data) (0, initialKeyCount))
           (\<lambda>_. pureP ())))))))))"

text \<open>The range operation of workload E: its range lookup and the \<open>break\<close> after it are a comment in the
  source, so the loop has no exit. The value of the loop is \<open>sampleIndex\<close>.\<close>

definition rangeOperation :: "('c, 'r, 'd) bench_env \<Rightarrow> 'd options \<Rightarrow> nat \<Rightarrow> nat \<Rightarrow> nat \<Rightarrow> (nat, ('c, 'r) bench) prog" where
  "rangeOperation env opts reasonableMaxKeys insertedCount sampleIndex =
     andThen (drawP (uniform_between env 1 (u32 (maxScanLength opts)))) (\<lambda>scanLength.
       whileP (\<lambda>_. True)
         (\<lambda>sampleIndex. andThen (zipf_next env reasonableMaxKeys (zipfParameter opts) True True)
           (\<lambda>keyIndex. pureP (if keyIndex < insertedCount then sampleIndex else u32 (sampleIndex + 1))))
         sampleIndex)"

definition ycsbEStep :: "('c, 'r, 'd) bench_env \<Rightarrow> 'd options \<Rightarrow> string list \<Rightarrow> nat \<Rightarrow> nat \<times> nat \<times> nat \<Rightarrow>
    (nat \<times> nat \<times> nat, ('c, 'r) bench) prog" where
  "ycsbEStep env opts data reasonableMaxKeys = (\<lambda>(completedOps, insertedCount, sampleIndex).
     andThen (op_next env) (\<lambda>isInsert.
       if isInsert
       then (if insertedCount = reasonableMaxKeys then throwP (Abort ''exhausted keys for insertion'')
             else andThen (indexP data insertedCount) (\<lambda>key. andThen (setKey env key) (\<lambda>_.
               pureP (completedOps + 1, u32 (insertedCount + 1), u32 (sampleIndex + 1)))))
       else andThen (rangeOperation env opts reasonableMaxKeys insertedCount sampleIndex) (\<lambda>sampleIndex1.
         pureP (completedOps + 1, insertedCount, u32 (sampleIndex1 + 1)))))"

definition runYcsbE :: "('c, 'r, 'd) bench_env \<Rightarrow> string list \<Rightarrow> 'd options \<Rightarrow> (unit, ('c, 'r) bench) prog" where
  "runYcsbE env data0 opts0 =
     andThen (prepareInserts opts0 data0) (\<lambda>(opts, data1, initialKeyCount, reasonableMaxKeys).
     andThen (if dryRun opts then pureP data1 else shuffleP env data1) (\<lambda>data.
     andThen (whenP (0 < length data) (andThen (shuffleP env [0..<length data]) (\<lambda>_. pureP ()))) (\<lambda>_.
     andThen (flushAll env) (\<lambda>_.
     andThen (setTimerParam ''op'' ''ycsb_e_init'') (\<lambda>_.
     andThen (timerBlock env (whenP (\<not> dryRun opts) (insertKeys env data 0 initialKeyCount))) (\<lambda>_.
     andThen (setTimerParam ''op'' ''ycsb_e'') (\<lambda>_.
       timerBlock env (whenP (\<not> dryRun opts)
         (andThen (whileP (\<lambda>(completedOps, _). completedOps < opCount opts)
             (ycsbEStep env opts data reasonableMaxKeys) (0, initialKeyCount, 0))
           (\<lambda>_. pureP ()))))))))))"

definition appendScan :: "('c, 'r, 'd) bench_env \<Rightarrow> 'd options \<Rightarrow> string list \<Rightarrow> (unit, ('c, 'r) bench) prog" where
  "appendScan env opts data =
     andThen (zipf_next env (u32 (keyCount opts)) (zipfParameter opts) False False) (\<lambda>keyIndex.
     andThen (whenP (length data \<le> keyIndex) undefinedP) (\<lambda>_.
     andThen (drawP (uniform_between env 1 (u32 (maxScanLength opts)))) (\<lambda>scanLength.
     andThen (indexP data keyIndex) (\<lambda>key.
       onClient (client_appendRunFormat (redis env) ''ZRANGE $ROOT$ [%s + BYLEX LIMIT 0 %ld''
         [Fmt_string (c_str key), Fmt_int (int scanLength)])))))"

definition takeReply :: "('c, 'r, 'd) bench_env \<Rightarrow> (unit, ('c, 'r) bench) prog" where
  "takeReply env =
     andThen (onClient (client_getReply (redis env))) (\<lambda>reply.
     andThen (liftClient (orThrow (redis env) reply)) (\<lambda>_. pureP ()))"

definition scanBatch :: "('c, 'r, 'd) bench_env \<Rightarrow> 'd options \<Rightarrow> string list \<Rightarrow> int \<Rightarrow> (unit, ('c, 'r) bench) prog" where
  "scanBatch env opts data batchSize =
     andThen (forEach (\<lambda>_. appendScan env opts data) [0..<nat batchSize])
       (\<lambda>_. forEach (\<lambda>_. takeReply env) [0..<nat batchSize])"

definition runSortedScan :: "('c, 'r, 'd) bench_env \<Rightarrow> string list \<Rightarrow> 'd options \<Rightarrow> (unit, ('c, 'r) bench) prog" where
  "runSortedScan env data0 opts0 =
     andThen (if keyCount opts0 \<le> length data0
       then andThen (if dryRun opts0 then pureP data0 else shuffleP env data0)
         (\<lambda>data'. pureP (opts0, resize (keyCount opts0) data'))
       else andThen (cerr ''not enough keys'') (\<lambda>_. pureP (opts0\<lparr>keyCount := 0, opCount := 0\<rparr>, data0))) (\<lambda>(opts, data).
     andThen (flushAll env) (\<lambda>_.
     andThen (setTimerParam ''op'' ''sorted_scan_init'') (\<lambda>_.
     andThen (timerBlock env (whenP (\<not> dryRun opts) (batchLoop env opts data zadd_args))) (\<lambda>_.
     andThen (runFormat env ''ZRANGE $ROOT$ %s + BYLEX LIMIT 0 %ld'' [Fmt_string ''['', Fmt_int 99999999999999]) (\<lambda>_.
     andThen (setTimerParam ''op'' ''sorted_scan'') (\<lambda>_.
       timerBlock env (whenP (\<not> dryRun opts) (opBatches opts (scanBatch env opts data)))))))))"

text \<open>The search for \<open>^used_memory_dataset:(\d+)$\<close>: the first line of that form, where a line ends at a
  line feed or a carriage return.\<close>

fun text_lines :: "string \<Rightarrow> string list" where
  "text_lines [] = [[]]"
| "text_lines (ch # s) =
     (if ch = CHR 0x0A \<or> ch = CHR 0x0D then [] # text_lines s
      else (ch # hd (text_lines s)) # tl (text_lines s))"

definition memory_of_line :: "string \<Rightarrow> string option" where
  "memory_of_line line =
     (let name = ''used_memory_dataset:''; value = drop (length name) line
      in if take (length name) line = name \<and> value \<noteq> [] \<and> list_all is_digit value then Some value else None)"

definition usedMemory :: "string \<Rightarrow> string option" where
  "usedMemory str = (case List.map_filter memory_of_line (text_lines str) of [] \<Rightarrow> None | m # _ \<Rightarrow> Some m)"

definition measureMemory :: "('c, 'r, 'd) bench_env \<Rightarrow> (unit, ('c, 'r) bench) prog" where
  "measureMemory env =
     andThen (onClient (client_runFormat (redis env) ''INFO MEMORY'' [])) (\<lambda>res.
     andThen (liftClient (getString (redis env) res)) (\<lambda>str.
     (case usedMemory str of
        None \<Rightarrow> throwP (Runtime_error ''Could not find used_memory_dataset'')
      | Some m \<Rightarrow> setTimerParam ''mem'' m)))"

definition runMemory :: "('c, 'r, 'd) bench_env \<Rightarrow> string list \<Rightarrow> 'd options \<Rightarrow> (unit, ('c, 'r) bench) prog" where
  "runMemory env data0 opts0 =
     andThen (prepareKeys env opts0 data0) (\<lambda>(opts, data).
     andThen (flushAll env) (\<lambda>_.
     andThen (setTimerParam ''op'' ''ycsb_memory_init'') (\<lambda>_.
     andThen (setTimerParam ''mem'' ''0'') (\<lambda>_.
     andThen (timerBlock env (whenP (\<not> dryRun opts) (batchLoop env opts data mset_args))) (\<lambda>_.
     andThen (setTimerParam ''op'' ''ycsb_memory_measure'') (\<lambda>_.
       timerBlock env (whenP (\<not> dryRun opts) (measureMemory env))))))))"

end
