(* ===== verification/WorkloadLoops.thy ===== *)
theory WorkloadLoops
  imports Workloads "HOL-Library.Multiset"
begin

text \<open>
  Rules for the steps of the benchmark: \<open>returns m s Q\<close> says that \<open>m\<close> ends with a value and a state
  that satisfy \<open>Q\<close>. Loops have an invariant and a measure. The random indices and operations.
\<close>

subsection \<open>Programs that return\<close>

definition returns :: "('a, 's) prog \<Rightarrow> 's \<Rightarrow> ('a \<Rightarrow> 's \<Rightarrow> bool) \<Rightarrow> bool" where
  "returns m s Q \<longleftrightarrow> (\<exists>x s1. m s = Some (Inr x, s1) \<and> Q x s1)"

lemma returns_mono: "returns m s P \<Longrightarrow> (\<And>x s1. P x s1 \<Longrightarrow> Q x s1) \<Longrightarrow> returns m s Q"
  by (auto simp: returns_def)

lemma returns_Some: "returns (\<lambda>s. Some (Inr (f s), g s)) s Q \<longleftrightarrow> Q (f s) (g s)"
  by (simp add: returns_def)

lemma returns_pureP [simp]: "returns (pureP x) s Q \<longleftrightarrow> Q x s"
  by (simp add: returns_def pureP_def)

lemma andThen_Inr:
  "andThen m f s = Some (Inr y, s2) \<longleftrightarrow> (\<exists>x s1. m s = Some (Inr x, s1) \<and> f x s1 = Some (Inr y, s2))"
  by (auto simp: andThen_def split: option.splits sum.splits)

lemma andThen_assoc: "andThen (andThen m f) g = andThen m (\<lambda>x. andThen (f x) g)"
  by (rule ext) (simp add: andThen_def split: option.splits sum.splits prod.splits)

lemma andThen_pureP [simp]: "andThen (pureP x) f = f x"
  by (rule ext) (simp add: andThen_def pureP_def)

lemma returns_andThen [simp]: "returns (andThen m f) s Q \<longleftrightarrow> returns m s (\<lambda>x s1. returns (f x) s1 Q)"
  by (auto simp: returns_def andThen_Inr)

lemma returns_chain: "returns m s P \<Longrightarrow> (\<And>x s1. P x s1 \<Longrightarrow> returns (f x) s1 Q) \<Longrightarrow> returns (andThen m f) s Q"
  by (auto elim: returns_mono)

lemma returns_whenP [simp]: "returns (whenP b m) s Q \<longleftrightarrow> (if b then returns m s Q else Q () s)"
  by (simp add: whenP_def)

lemma returns_drawP [simp]:
  "returns (drawP f) s Q \<longleftrightarrow> Q (fst (f (b_world s))) (s\<lparr>b_world := snd (f (b_world s))\<rparr>)"
  by (simp add: returns_def drawP_def split: prod.splits)

lemma returns_indexP [simp]: "returns (indexP xs i) s Q \<longleftrightarrow> i < length xs \<and> Q (xs ! i) s"
  by (simp add: indexP_def returns_def undefinedP_def pureP_def)

lemma returns_setTimerParam [simp]:
  "returns (setTimerParam name v) s Q \<longleftrightarrow> Q () (s\<lparr>b_timer := setParam name v (b_timer s)\<rparr>)"
  by (simp add: returns_def setTimerParam_def)

lemma returns_liftClient_Inr [simp]: "returns (liftClient (Inr x)) s Q \<longleftrightarrow> Q x s"
  by (simp add: liftClient_def)

lemma returns_forEach:
  assumes "I [] s"
    and "\<And>ys x zs s. xs = ys @ x # zs \<Longrightarrow> I ys s \<Longrightarrow> returns (body x) s (\<lambda>_. I (ys @ [x]))"
  shows "returns (forEach body xs) s (\<lambda>_. I xs)"
proof -
  have "xs = ys @ zs \<Longrightarrow> I ys s \<Longrightarrow> returns (forEach body zs) s (\<lambda>_. I xs)" for ys zs s
  proof (induction zs arbitrary: ys s)
    case Nil
    then show ?case by simp
  next
    case (Cons x zs)
    have "returns (body x) s (\<lambda>_. I (ys @ [x]))" using assms(2) Cons.prems by blast
    then show ?case using Cons.IH [of "ys @ [x]"] Cons.prems(1) by (auto elim: returns_mono)
  qed
  from this [of "[]"] assms(1) show ?thesis by simp
qed

lemma returns_whileP:
  fixes measure :: "'x \<Rightarrow> 's \<Rightarrow> nat"
  assumes "I x s"
    and step: "\<And>x s. I x s \<Longrightarrow> c x \<Longrightarrow> returns (body x) s (\<lambda>y s1. I y s1 \<and> measure y s1 < measure x s)"
  shows "returns (whileP c body x) s (\<lambda>y s1. I y s1 \<and> \<not> c y)"
  using assms(1)
proof (induction "measure x s" arbitrary: x s rule: less_induct)
  case less
  show ?case
  proof (cases "c x")
    case False
    with less.prems show ?thesis by (simp add: returns_def whileP.simps)
  next
    case True
    with step [OF less.prems] obtain y s1 where y: "body x s = Some (Inr y, s1)" "I y s1" "measure y s1 < measure x s"
      by (auto simp: returns_def)
    then have "whileP c body x s = whileP c body y s1" using True by (simp add: whileP.simps [of c body x])
    with less.hyps [OF y(3) y(2)] show ?thesis by (simp add: returns_def)
  qed
qed

text \<open>What holds when a loop has come to its end, whether or not it does.\<close>

lemmas whileP_induct = whileP.raw_induct [where xa = "(((c, body), x), s)" for c body x s, unfolded prod.case]

lemma whileP_partial:
  fixes x :: 'x and s :: 's
  assumes loop: "whileP c body x s = Some (Inr y, s1)" and start: "I x s"
    and step: "\<And>x s x1 s1. I x s \<Longrightarrow> c x \<Longrightarrow> body x s = Some (Inr x1, s1) \<Longrightarrow> I x1 s1"
  shows "I y s1 \<and> \<not> c y"
proof -
  let ?keeps = "\<lambda>c body. \<forall>x s x1 s1. I x s \<longrightarrow> c x \<longrightarrow> body x s = Some (Inr x1, s1) \<longrightarrow> I x1 s1"
  let ?P = "\<lambda>c body x s (r :: (bench_error + 'x) \<times> 's). \<forall>y s1. r = (Inr y, s1) \<longrightarrow> I x s \<longrightarrow> ?keeps c body \<longrightarrow> I y s1 \<and> \<not> c y"
  have "?P c body x s (Inr y, s1)"
  proof (rule whileP_induct [where P = ?P, OF _ loop])
    fix w c body x s r
    assume IH: "\<And>c body x s r. w c body x s = Some r \<Longrightarrow> ?P c body x s r"
      and eq: "(if c x then do { (r, s1) \<leftarrow> body x s;
          (case r of Inl e \<Rightarrow> Some (Inl e, s1) | Inr y \<Rightarrow> w c body y s1) } else Some (Inr x, s)) = Some r"
    show "?P c body x s r"
    proof (intro allI impI)
      fix y s1
      assume h: "r = (Inr y, s1)" "I x s" "?keeps c body"
      show "I y s1 \<and> \<not> c y"
      proof (cases "c x")
        case False
        with eq h show ?thesis by simp
      next
        case True
        with eq h obtain x1 s2 where s2: "body x s = Some (Inr x1, s2)" "w c body x1 s2 = Some (Inr y, s1)"
          by (cases "fst (the (body x s))") (auto simp: bind_eq_Some_conv)
        from IH [OF s2(2)] h(3) True s2(1) h(2) show ?thesis by blast
      qed
    qed
  qed
  with start step show ?thesis by blast
qed

text \<open>A loop that stays inside an invariant on which its condition holds does not return.\<close>

lemma whileP_diverges:
  fixes x :: 'x and s :: 's
  assumes start: "I x s"
    and step: "\<And>x s. I x s \<Longrightarrow> c x \<and> (\<forall>r s1. body x s = Some (r, s1) \<longrightarrow> (\<exists>x1. r = Inr x1 \<and> I x1 s1))"
  shows "whileP c body x s = None"
proof -
  let ?stays = "\<lambda>c body. \<forall>x s. I x s \<longrightarrow> c x \<and> (\<forall>r s1. body x s = Some (r, s1) \<longrightarrow> (\<exists>x1. r = Inr x1 \<and> I x1 s1))"
  let ?P = "\<lambda>c body x s (r :: (bench_error + 'x) \<times> 's). I x s \<longrightarrow> \<not> ?stays c body"
  have "?P c body x s r" if loop: "whileP c body x s = Some r" for r
  proof (rule whileP_induct [where P = ?P, OF _ loop])
    fix w c body x s r
    assume IH: "\<And>c body x s r. w c body x s = Some r \<Longrightarrow> ?P c body x s r"
      and eq: "(if c x then do { (r, s1) \<leftarrow> body x s;
          (case r of Inl e \<Rightarrow> Some (Inl e, s1) | Inr y \<Rightarrow> w c body y s1) } else Some (Inr x, s)) = Some r"
    show "?P c body x s r"
    proof (intro impI notI)
      assume h: "I x s" "?stays c body"
      then have "c x" by blast
      with eq obtain y s1 where y: "body x s = Some (y, s1)" "(case y of Inl e \<Rightarrow> Some (Inl e, s1) | Inr y \<Rightarrow> w c body y s1) = Some r"
        by (auto simp: bind_eq_Some_conv)
      then obtain x1 where "y = Inr x1" "I x1 s1" using h by blast
      with y(2) IH [of c body x1 s1 r] h(2) show False by simp
    qed
  qed
  with start step show ?thesis by (metis not_Some_eq)
qed

subsection \<open>Random indices\<close>

text \<open>\<open>gives_key\<close>: every array the generator fills for \<open>num_keys\<close> keys has an index below \<open>num_keys\<close>.\<close>

definition gives_key :: "('c, 'r, 'd) bench_env \<Rightarrow> nat \<Rightarrow> 'd \<Rightarrow> bool \<Rightarrow> bool \<Rightarrow> bool" where
  "gives_key env num_keys zp shuffle overGenerate \<longleftrightarrow>
     (\<forall>r. \<exists>x \<in> set (fst (zipf_generate env (u32 (num_keys + (if overGenerate then ZIPF_GEN_SIZE div 10 else 0)))
       zp ZIPF_GEN_SIZE shuffle r)). x < num_keys)"

definition zipf_ok :: "('c, 'r) bench \<Rightarrow> bool" where
  "zipf_ok s \<longleftrightarrow> length (z_array s) = ZIPF_GEN_SIZE \<and> z_index s < ZIPF_GEN_SIZE"

lemma samples_Suc: "samples f (Suc n) r =
    (fst (f r) # fst (samples f n (snd (f r))), snd (samples f n (snd (f r))))"
  by (simp split: prod.splits)

declare samples.simps(2) [simp del]

lemma length_samples [simp]: "length (fst (samples f n r)) = n"
  by (induction n arbitrary: r) (simp_all add: samples_Suc)

lemma samples_all:
  assumes "\<And>r. P (fst (f r))"
  shows "x \<in> set (fst (samples f n r)) \<Longrightarrow> P x"
  by (induction n arbitrary: r) (auto simp: samples_Suc assms)

lemma ZIPF_GEN_SIZE_bounds [simp]: "0 < ZIPF_GEN_SIZE" "ZIPF_GEN_SIZE < 2 ^ 32" "ZIPF_GEN_SIZE < 4294967296"
  by (simp_all add: ZIPF_GEN_SIZE_def)

lemma length_zipf_generate [simp]: "length (fst (zipf_generate env num zp n shuffle r)) = n"
  by (simp add: zipf_generate_def Let_def)

text \<open>The samples of the libraries: \<open>Uniform::new(0, n)\<close> is below \<open>n\<close>, \<open>ZipfDistribution\<close> from 1 to \<open>n\<close>.\<close>

definition sampling_ok :: "('c, 'r, 'd) bench_env \<Rightarrow> bool" where
  "sampling_ok env \<longleftrightarrow> (\<forall>n r. 0 < n \<longrightarrow> fst (uniform_sample env n r) < n) \<and>
     (\<forall>n zp r. 0 < n \<longrightarrow> 1 \<le> fst (zipf_sample env n zp r) \<and> fst (zipf_sample env n zp r) \<le> n)"

lemma gives_key_uniform:
  assumes "sampling_ok env" "\<not> positive env zp" "0 < num_keys" "num_keys < 2 ^ 32"
  shows "gives_key env num_keys zp shuffle False"
  unfolding gives_key_def
proof
  fix r
  let ?xs = "fst (zipf_generate env (u32 (num_keys + (if False then ZIPF_GEN_SIZE div 10 else 0))) zp ZIPF_GEN_SIZE shuffle r)"
  have xs: "?xs = fst (samples (uniform_sample env num_keys) ZIPF_GEN_SIZE r)"
    using assms(2-4) by (simp add: zipf_generate_def u32_def)
  have "fst (uniform_sample env num_keys r) < num_keys" for r using assms(1,3) by (simp add: sampling_ok_def)
  then have all: "\<forall>x \<in> set ?xs. x < num_keys"
    unfolding xs by (rule ballI [OF samples_all [of "\<lambda>x. x < num_keys"]])
  have "0 < length ?xs" by (simp only: length_zipf_generate ZIPF_GEN_SIZE_bounds)
  then have "?xs \<noteq> []" by (rule length_greater_0_conv [THEN iffD1])
  then have "hd ?xs \<in> set ?xs" by (rule hd_in_set)
  with all show "\<exists>x \<in> set ?xs. x < num_keys" by blast
qed

definition zipf_pending :: "nat \<Rightarrow> ('c, 'r) bench \<Rightarrow> bool" where
  "zipf_pending num_keys s \<longleftrightarrow> num_keys \<le> z_generated s \<and>
     (\<exists>j. z_index s < j \<and> j < ZIPF_GEN_SIZE \<and> z_array s ! j < num_keys)"

text \<open>The rounds that are left: to a sample of this array, or through it to one of the next.\<close>

definition zipf_measure :: "nat \<Rightarrow> ('c, 'r) bench \<Rightarrow> nat" where
  "zipf_measure num_keys s = (if zipf_pending num_keys s then 0 else ZIPF_GEN_SIZE) + (ZIPF_GEN_SIZE - z_index s)"

definition same_client :: "('c, 'r) bench \<Rightarrow> ('c, 'r) bench \<Rightarrow> bool" where
  "same_client s s1 \<longleftrightarrow> b_client s1 = b_client s \<and> op_array s1 = op_array s \<and> op_index s1 = op_index s"

lemma zipf_round_step:
  assumes ok: "zipf_ok s" and law: "gives_key env num_keys zp shuffle overGenerate"
    and size: "num_keys + (if overGenerate then ZIPF_GEN_SIZE div 10 else 0) < 2 ^ 32"
  obtains x s1 where "zipf_round env num_keys zp shuffle overGenerate s = Some (Inr x, s1)"
    "zipf_ok s1" "same_client s s1" "\<forall>v. x = Some v \<longrightarrow> v < num_keys"
    "x = None \<Longrightarrow> zipf_measure num_keys s1 < zipf_measure num_keys s"
proof (cases "num_keys \<le> z_generated s \<and> z_index s + 1 < ZIPF_GEN_SIZE")
  case True
  then have i: "u32 (z_index s + 1) = z_index s + 1" by (simp add: u32_def ZIPF_GEN_SIZE_def)
  let ?s1 = "s\<lparr>z_index := z_index s + 1\<rparr>"
  have round: "zipf_round env num_keys zp shuffle overGenerate s =
      Some (Inr (if z_array s ! (z_index s + 1) < num_keys then Some (z_array s ! (z_index s + 1)) else None), ?s1)"
    using True i by (simp add: zipf_round_def)
  have "zipf_ok ?s1" "same_client s ?s1" using ok True by (simp_all add: zipf_ok_def same_client_def)
  moreover have "zipf_measure num_keys ?s1 < zipf_measure num_keys s" if "\<not> z_array s ! (z_index s + 1) < num_keys"
  proof -
    have "zipf_pending num_keys ?s1 \<longleftrightarrow> zipf_pending num_keys s"
      using that by (auto simp: zipf_pending_def) (metis Suc_lessD, metis Suc_lessI)
    moreover have "Suc (z_index s) < ZIPF_GEN_SIZE" using True by simp
    ultimately show ?thesis by (cases "zipf_pending num_keys s") (simp_all add: zipf_measure_def)
  qed
  ultimately show thesis by (intro that [OF round]) (auto split: if_splits)
next
  case False
  let ?g = "u32 (num_keys + (if overGenerate then ZIPF_GEN_SIZE div 10 else 0))"
  define xs where "xs = fst (zipf_generate env ?g zp ZIPF_GEN_SIZE shuffle (b_world s))"
  let ?s1 = "s\<lparr>z_generated := ?g, z_array := xs,
    b_world := snd (zipf_generate env ?g zp ZIPF_GEN_SIZE shuffle (b_world s)), z_index := 0\<rparr>"
  have "z_index s < ZIPF_GEN_SIZE" using ok by (simp add: zipf_ok_def)
  then have i: "u32 ((if z_generated s < num_keys then ZIPF_GEN_SIZE - 1 else z_index s) + 1) = ZIPF_GEN_SIZE"
    using False by (auto simp: u32_def ZIPF_GEN_SIZE_def)
  have round: "zipf_round env num_keys zp shuffle overGenerate s =
      Some (Inr (if xs ! 0 < num_keys then Some (xs ! 0) else None), ?s1)"
    unfolding zipf_round_def Let_def i by (simp add: xs_def split: prod.splits)
  have len: "length xs = ZIPF_GEN_SIZE" by (simp add: xs_def)
  have "zipf_measure num_keys ?s1 < zipf_measure num_keys s" if "\<not> xs ! 0 < num_keys"
  proof -
    have "\<exists>x \<in> set xs. x < num_keys" unfolding xs_def by (rule law [unfolded gives_key_def, rule_format])
    then obtain j where j: "j < length xs" "xs ! j < num_keys" by (metis in_set_conv_nth)
    with that have "0 < j" by (cases j) auto
    moreover have "num_keys \<le> ?g" using size by (simp add: u32_def)
    ultimately have "zipf_pending num_keys ?s1" using j len by (auto simp: zipf_pending_def)
    moreover have "\<not> zipf_pending num_keys s" using False by (auto simp: zipf_pending_def)
    ultimately show ?thesis using \<open>z_index s < ZIPF_GEN_SIZE\<close> by (simp add: zipf_measure_def)
  qed
  moreover have "zipf_ok ?s1" "same_client s ?s1" using len by (simp_all add: zipf_ok_def same_client_def)
  ultimately show thesis by (intro that [OF round]) (auto split: if_splits)
qed

lemma returns_zipf_next:
  assumes "zipf_ok s" "gives_key env num_keys zp shuffle overGenerate"
    and "num_keys + (if overGenerate then ZIPF_GEN_SIZE div 10 else 0) < 2 ^ 32"
  shows "returns (zipf_next env num_keys zp shuffle overGenerate) s
    (\<lambda>x s1. x < num_keys \<and> zipf_ok s1 \<and> same_client s s1)"
proof -
  let ?I = "\<lambda>x s1. zipf_ok s1 \<and> same_client s s1 \<and> (\<forall>v. x = Some v \<longrightarrow> v < num_keys)"
  let ?m = "\<lambda>x s1. case x of None \<Rightarrow> Suc (zipf_measure num_keys s1) | Some _ \<Rightarrow> 0"
  have "returns (whileP (\<lambda>x. x = None) (\<lambda>_. zipf_round env num_keys zp shuffle overGenerate) None) s
      (\<lambda>x s1. ?I x s1 \<and> x \<noteq> None)"
  proof (rule returns_whileP [where I = ?I and measure = ?m])
    show "?I None s" using assms(1) by (simp add: same_client_def)
    fix x s2
    assume I: "?I x s2" "x = None"
    obtain y s3 where "zipf_round env num_keys zp shuffle overGenerate s2 = Some (Inr y, s3)"
      "zipf_ok s3" "same_client s2 s3" "\<forall>v. y = Some v \<longrightarrow> v < num_keys"
      "y = None \<Longrightarrow> zipf_measure num_keys s3 < zipf_measure num_keys s2"
      using zipf_round_step [OF _ assms(2,3)] I(1) by metis
    then show "returns (zipf_round env num_keys zp shuffle overGenerate) s2 (\<lambda>y s1. ?I y s1 \<and> ?m y s1 < ?m x s2)"
      using I by (auto simp: returns_def same_client_def split: option.splits)
  qed
  then show ?thesis by (auto simp: zipf_next_def elim: returns_mono)
qed

subsection \<open>Batches\<close>

definition batches_ok :: "'d options \<Rightarrow> bool" where
  "batches_ok opts \<longleftrightarrow> 0 < keyBatchCount opts \<and> keyCount opts + keyBatchCount opts < 2 ^ 64 \<and>
     0 < opBatchCount opts \<and> opBatchCount opts < 2 ^ 63 \<and> opCount opts < 2 ^ 63"

lemma u64_add: "x < 2 ^ 64 \<Longrightarrow> u64 (x + 2 ^ 64) = x"
  by (simp add: u64_def)

lemma returns_batchStep:
  assumes "batches_ok opts" "length data = keyCount opts" "i < keyCount opts"
  shows "returns (batchStep env opts data command i) s Q \<longleftrightarrow>
    returns (runArgs env (command (take (keyBatchCount opts) (drop i data)))) s (\<lambda>_. Q (i + keyBatchCount opts))"
proof -
  let ?b = "keyBatchCount opts" and ?c = "keyCount opts"
  have b: "0 < ?b" "?c + ?b < 2 ^ 64" using assms(1) by (simp_all add: batches_ok_def)
  have nxt: "u64 (i + ?b) = i + ?b" using b assms(3) by (simp add: u64_def)
  have "u64 (min (i + ?b) ?c + 2 ^ 64 - i) = u64 ((min (i + ?b) ?c - i) + 2 ^ 64)"
    using assms(3) b(1) by (intro arg_cong [where f = u64]) simp
  also have "\<dots> = min (i + ?b) ?c - i" by (rule u64_add) (use b in linarith)
  finally have count: "u64 (min (i + ?b) ?c + 2 ^ 64 - i) = min (i + ?b) ?c - i" .
  have sub: "subspan data i (min (i + ?b) ?c - i) = pureP (take ?b (drop i data))"
    using assms(2,3) b by (auto simp: subspan_def min_def)
  show ?thesis unfolding batchStep_def Let_def nxt count sub by simp
qed

text \<open>A loop over batches that keeps an invariant of the keys that are done.\<close>

lemma returns_batchLoop:
  assumes "batches_ok opts" "length data = keyCount opts" "I [] s"
    and step: "\<And>done rest batch s. data = done @ batch @ rest \<Longrightarrow> I done s \<Longrightarrow>
      returns (runArgs env (command batch)) s (\<lambda>_. I (done @ batch))"
  shows "returns (batchLoop env opts data command) s (\<lambda>_. I data)"
proof -
  have b: "0 < keyBatchCount opts" using assms(1) by (simp add: batches_ok_def)
  have "returns (whileP (\<lambda>i. i < keyCount opts) (batchStep env opts data command) 0) s
      (\<lambda>i s1. I (take i data) s1 \<and> \<not> i < keyCount opts)"
  proof (rule returns_whileP [where I = "\<lambda>i. I (take i data)" and measure = "\<lambda>i _. keyCount opts - i"])
    show "I (take 0 data) s" using assms(3) by simp
    fix i s
    assume I: "I (take i data) s" and i: "i < keyCount opts"
    let ?batch = "take (keyBatchCount opts) (drop i data)"
    have "returns (runArgs env (command ?batch)) s (\<lambda>_. I (take i data @ ?batch))"
      by (rule step [OF _ I, of _ "drop (keyBatchCount opts) (drop i data)"]) (simp only: append_take_drop_id)
    moreover have "take i data @ ?batch = take (i + keyBatchCount opts) data" by (simp add: take_add)
    moreover have "keyCount opts - (i + keyBatchCount opts) < keyCount opts - i" using b i by linarith
    ultimately show "returns (batchStep env opts data command i) s
        (\<lambda>j s1. I (take j data) s1 \<and> keyCount opts - j < keyCount opts - i)"
      by (simp add: returns_batchStep [OF assms(1,2) i])
  qed
  then show ?thesis using assms(2) by (auto simp: batchLoop_def elim!: returns_mono)
qed

lemma returns_opBatches:
  assumes "batches_ok opts" "I s"
    and step: "\<And>n s. 0 < n \<Longrightarrow> I s \<Longrightarrow> returns (body n) s (\<lambda>_. I)"
  shows "returns (opBatches opts body) s (\<lambda>_. I)"
proof -
  let ?b = "word_of_nat (opBatchCount opts) :: int64"
  have b: "0 < opBatchCount opts" "opBatchCount opts < 2 ^ 63" using assms(1) by (simp_all add: batches_ok_def)
  then have sb: "sint ?b = int (opBatchCount opts)" by (intro sint_int64_of_nat) simp
  have "returns (whileP (\<lambda>remaining :: int64. 0 < sint remaining)
      (\<lambda>remaining. andThen (body (min (sint remaining) (sint ?b))) (\<lambda>_. pureP (remaining - ?b)))
      (word_of_nat (opCount opts))) s (\<lambda>x s1. I s1 \<and> \<not> 0 < sint x)"
  proof (rule returns_whileP [where I = "\<lambda>_. I" and measure = "\<lambda>x _. nat (sint x)"])
    fix x :: int64 and s
    assume I: "I s" and x: "0 < sint x"
    have "- (2 ^ 63) \<le> sint x - sint ?b" "sint x - sint ?b < 2 ^ 63"
      using x b sb sint_less [of x] by simp_all
    then have "sint (x - ?b) = sint x - sint ?b"
      by (simp add: sint_word_ariths(2) signed_take_bit_int_eq_self)
    then have "nat (sint (x - ?b)) < nat (sint x)" using x sb b(1) by simp
    moreover have "0 < min (sint x) (sint ?b)" using x sb b(1) by simp
    ultimately show "returns (andThen (body (min (sint x) (sint ?b))) (\<lambda>_. pureP (x - ?b))) s
        (\<lambda>y s1. I s1 \<and> nat (sint y) < nat (sint x))"
      using step [OF _ I] by (auto elim!: returns_mono)
  qed (rule assms(2))
  then show ?thesis by (auto simp: opBatches_def elim!: returns_mono)
qed

lemma returns_pickKeys:
  assumes "gives_key env (keyCount opts) (zipfParameter opts) False False" "keyCount opts < 2 ^ 32"
    and "length data = keyCount opts"
  shows "zipf_ok s \<Longrightarrow> returns (pickKeys env opts data n) s
    (\<lambda>keys s1. set keys \<subseteq> set data \<and> zipf_ok s1 \<and> same_client s s1)"
proof (induction n arbitrary: s)
  case 0
  then show ?case by (simp add: same_client_def)
next
  case (Suc n)
  have u: "u32 (keyCount opts) = keyCount opts" using assms(2) by (simp add: u32_def)
  have "returns (zipf_next env (keyCount opts) (zipfParameter opts) False False) s
      (\<lambda>x s1. x < keyCount opts \<and> zipf_ok s1 \<and> same_client s s1)"
    using returns_zipf_next [OF Suc.prems assms(1)] assms(2) by simp
  then show ?case
  proof (simp add: pickKey_def u, elim returns_mono, elim conjE)
    fix x s1
    assume x: "x < keyCount opts" "zipf_ok s1" "same_client s s1"
    show "x < length data \<and> returns (pickKeys env opts data n) s1
        (\<lambda>keys s1. data ! x \<in> set data \<and> set keys \<subseteq> set data \<and> zipf_ok s1 \<and> same_client s s1)"
      using x assms(3) Suc.IH [OF x(2)] by (auto simp: same_client_def elim!: returns_mono)
  qed
qed

subsection \<open>Key sets\<close>

text \<open>\<open>std::random_shuffle\<close> permutes.\<close>

definition shuffles :: "('c, 'r, 'd) bench_env \<Rightarrow> bool" where
  "shuffles env \<longleftrightarrow> (\<forall>n r. mset (fst (random_permutation env n r)) = mset [0..<n])"

lemma mset_permuted: "mset p = mset [0..<length xs] \<Longrightarrow> mset (map ((!) xs) p) = mset xs"
  by (metis map_nth mset_map)

lemma returns_shuffleP:
  assumes "shuffles env"
  shows "returns (shuffleP env xs) s (\<lambda>ys s1. mset ys = mset xs \<and> (\<exists>r. s1 = s\<lparr>b_world := r\<rparr>))"
proof -
  have "mset (map ((!) xs) (fst (random_permutation env (length xs) (b_world s)))) = mset xs"
    using assms unfolding shuffles_def by (intro mset_permuted) blast
  then show ?thesis by (auto simp: shuffleP_def simp del: mset_map)
qed

text \<open>A run that can start: enough keys, none too long for a page.\<close>

definition run_ok :: "'d options \<Rightarrow> string list \<Rightarrow> bool" where
  "run_ok opts data \<longleftrightarrow> \<not> dryRun opts \<and> keyCount opts \<le> length data \<and> keySizeAcceptable (u32 (payloadSize opts)) data"

lemma returns_prepareKeys:
  assumes "shuffles env" "run_ok opts data"
  shows "returns (prepareKeys env opts data) s (\<lambda>(opts1, keys) s1. opts1 = opts \<and> length keys = keyCount opts \<and>
    mset keys \<subseteq># mset data \<and> (\<exists>r. s1 = s\<lparr>b_world := r\<rparr>))"
proof -
  have run: "prepareKeys env opts data = andThen (shuffleP env data) (\<lambda>data'. pureP (opts, resize (keyCount opts) data'))"
    using assms(2) by (simp add: prepareKeys_def run_ok_def)
  show ?thesis
    unfolding run
  proof (rule returns_chain [OF returns_shuffleP [OF assms(1)]])
    fix keys s1
    assume k: "mset keys = mset data \<and> (\<exists>r. s1 = s\<lparr>b_world := r\<rparr>)"
    then have "length keys = length data" by (metis size_mset)
    moreover have "mset (take (keyCount opts) keys) \<subseteq># mset data"
      using k by (metis append_take_drop_id mset_append mset_subset_eq_add_left)
    ultimately show "returns (pureP (opts, resize (keyCount opts) keys)) s1 (\<lambda>(opts1, keys) s1. opts1 = opts \<and>
        length keys = keyCount opts \<and> mset keys \<subseteq># mset data \<and> (\<exists>r. s1 = s\<lparr>b_world := r\<rparr>))"
      using assms(2) k by (simp add: resize_def run_ok_def)
  qed
qed

subsection \<open>Steps that leave the operation array alone\<close>

definition keeps_ops :: "('a, ('c, 'r) bench) prog \<Rightarrow> bool" where
  "keeps_ops m \<longleftrightarrow> (\<forall>s x s1. m s = Some (x, s1) \<longrightarrow> op_array s1 = op_array s \<and> op_index s1 = op_index s)"

named_theorems keeps

lemma keeps_ops_andThen [keeps]: "keeps_ops m \<Longrightarrow> (\<And>x. keeps_ops (f x)) \<Longrightarrow> keeps_ops (andThen m f)"
  unfolding keeps_ops_def andThen_def by (auto split: option.splits sum.splits)

lemma keeps_ops_simple [keeps]:
  "keeps_ops (pureP x)" "keeps_ops (throwP e)" "keeps_ops undefinedP" "keeps_ops (cerr line)" "keeps_ops (drawP f)"
  "keeps_ops (setTimerParam name v)"
  by (auto simp: keeps_ops_def pureP_def throwP_def undefinedP_def cerr_def drawP_def setTimerParam_def
      split: prod.splits)

lemma keeps_ops_derived [keeps]:
  "keeps_ops (indexP xs i)" "keeps_ops (liftClient r)" "keeps_ops (shuffleP env xs)"
  by (auto simp: indexP_def liftClient_def shuffleP_def intro!: keeps split: sum.splits)

lemma keeps_ops_whenP [keeps]: "keeps_ops m \<Longrightarrow> keeps_ops (whenP b m)"
  by (simp add: whenP_def keeps)

lemma keeps_ops_onClient [keeps]: "keeps_ops (onClient f)"
  by (auto simp: keeps_ops_def onClient_def liftClient_def throwP_def pureP_def split: prod.splits sum.splits)

lemma keeps_ops_forEach [keeps]: "(\<And>x. keeps_ops (f x)) \<Longrightarrow> keeps_ops (forEach f xs)"
  by (induction xs) (auto intro!: keeps)

lemma keeps_ops_client [keeps]:
  "keeps_ops (runFormat env fmt args)" "keeps_ops (flushAll env)" "keeps_ops (setKey env key)"
  "keeps_ops (insertKeys env data i j)"
  by (auto simp: runFormat_def flushAll_def setKey_def insertKeys_def intro!: keeps)

lemma keeps_ops_startBlock [keeps]: "keeps_ops (startBlock env)"
  unfolding startBlock_def by (intro keeps) (simp add: keeps_ops_def)

lemma keeps_ops_endBlock [keeps]: "keeps_ops (endBlock env)"
  unfolding endBlock_def by (intro keeps) (simp add: keeps_ops_def split_def Let_def)

lemma keeps_ops_timerBlock [keeps]: "keeps_ops m \<Longrightarrow> keeps_ops (timerBlock env m)"
  by (auto simp: timerBlock_def intro!: keeps)

lemma keeps_bind:
  assumes "andThen m f s = Some (Inr y, s2)" "keeps_ops m"
  obtains x s1 where "m s = Some (Inr x, s1)" "f x s1 = Some (Inr y, s2)" "op_array s1 = op_array s" "op_index s1 = op_index s"
  using assms unfolding keeps_ops_def andThen_Inr by blast

end
