(* ===== verification/CacheLink.thy ===== *)
theory CacheLink
  imports WorkloadLoops
begin

text \<open>
  What the benchmark needs of the server it talks to: the locale \<open>cache\<close>, over the calls of \<open>hiredis\<close>.
  Its client lemmas are the runs of the workloads.
\<close>

subsection \<open>The contract of a cache\<close>

text \<open>\<open>good n c\<close>: the connection works and the server has the resources for \<open>n\<close> more updates.\<close>

locale cache =
  fixes lib :: "'c hiredis"
    and good :: "nat \<Rightarrow> 'c \<Rightarrow> bool"
    and stored :: "'c \<Rightarrow> string \<rightharpoonup> string"
    and storable :: "string \<Rightarrow> string \<Rightarrow> bool"
  assumes weaken: "good n c \<Longrightarrow> m \<le> n \<Longrightarrow> good m c"
    and types: "inj (REDIS_REPLY lib)"
    and flush: "good (Suc n) c \<Longrightarrow> \<exists>r c'. redisCommand lib ''FLUSHALL'' [] c = (Some r, c') \<and>
      r_type r = REDIS_REPLY lib RT_STATUS \<and> good n c' \<and> stored c' = Map.empty"
    and set: "good (n + 2) c \<Longrightarrow> storable k v \<Longrightarrow>
      \<exists>r c'. redisCommand lib ''SET %s %s'' [Fmt_string k, Fmt_string v] c = (Some r, c') \<and>
        r_type r = REDIS_REPLY lib RT_STATUS \<and> good n c' \<and> stored c' = (stored c)(k \<mapsto> v)"
    and get: "good n c \<Longrightarrow> stored c k = Some v \<Longrightarrow>
      \<exists>r c'. redisCommand lib ''GET %s'' [Fmt_string k] c = (Some r, c') \<and>
        r_type r = REDIS_REPLY lib RT_STRING \<and> r_str r = Some v \<and> good n c' \<and> stored c' = stored c"
    and mset: "good (n + 2 * length ks) c \<Longrightarrow> \<forall>k \<in> set ks. storable k v \<Longrightarrow>
      \<exists>r c'. redisCommandArgv lib (''MSET'' # concat (map (\<lambda>k. [k, v]) ks)) c = (Some r, c') \<and>
        r_type r = REDIS_REPLY lib RT_STATUS \<and> good n c' \<and>
        stored c' = (\<lambda>k. if k \<in> set ks then Some v else stored c k)"
    and mget: "good n c \<Longrightarrow> \<forall>k \<in> set ks. stored c k = Some v \<Longrightarrow>
      \<exists>r c'. redisCommandArgv lib (''MGET'' # ks) c = (Some r, c') \<and> r_type r = REDIS_REPLY lib RT_ARRAY \<and>
        (\<forall>e \<in> set (r_element r). r_type e = REDIS_REPLY lib RT_STRING \<and> r_str e = Some v) \<and>
        good n c' \<and> stored c' = stored c"
begin

definition ready :: "nat \<Rightarrow> (string \<rightharpoonup> string) \<Rightarrow> ('c, 'r) bench \<Rightarrow> bool" where
  "ready n m s \<longleftrightarrow> good n (b_client s) \<and> stored (b_client s) = m \<and> zipf_ok s"

lemma ready_weaken: "ready n m s \<Longrightarrow> k \<le> n \<Longrightarrow> ready k m s"
  using weaken by (auto simp: ready_def)

lemma ready_client:
  "ready n m s \<Longrightarrow> good k c \<Longrightarrow> stored c = m1 \<Longrightarrow> ready k m1 (s\<lparr>b_client := c\<rparr>)"
  by (simp add: ready_def zipf_ok_def)

lemma ready_other [simp]:
  "ready n m (s\<lparr>b_timer := t\<rparr>) = ready n m s" "ready n m (s\<lparr>b_world := r\<rparr>) = ready n m s"
  "ready n m (s\<lparr>b_cout := out\<rparr>) = ready n m s" "ready n m (s\<lparr>b_cerr := out\<rparr>) = ready n m s"
  by (simp_all add: ready_def zipf_ok_def)

lemma ready_same: "ready n m s \<Longrightarrow> same_client s s1 \<Longrightarrow> zipf_ok s1 \<Longrightarrow> ready n m s1"
  by (simp add: ready_def same_client_def)

lemma orThrow_other: "t \<noteq> RT_ERROR \<Longrightarrow> r_type r = REDIS_REPLY lib t \<Longrightarrow> orThrow lib r = Inr r"
  using types by (simp add: orThrow_def reply_is_def inj_eq)

lemma getString_ok: "r_type r = REDIS_REPLY lib RT_STRING \<Longrightarrow> r_str r = Some v \<Longrightarrow> getString lib r = Inr (c_str v)"
  by (simp add: getString_def assertType_def reply_is_def c_string_def)

lemma getArray_ok: "r_type r = REDIS_REPLY lib RT_ARRAY \<Longrightarrow> getArray lib r = Inr (r_element r)"
  by (simp add: getArray_def assertType_def reply_is_def)

lemma argv_args [simp]: "argvStrings (makeArgsArrays args) = args"
  by (induction args) (simp_all add: argvStrings_def makeArgsArrays_def)

lemma returns_runFormat:
  assumes "redis env = lib" "redisCommand lib fmt args (b_client s) = (Some r, c)" "orThrow lib r = Inr r"
  shows "returns (runFormat env fmt args) s Q \<longleftrightarrow> Q r (s\<lparr>b_client := c\<rparr>)"
  using assms by (simp add: runFormat_def onClient_def client_runFormat_def makeReply_def returns_def andThen_Inr
      liftClient_def pureP_def)

lemma returns_runArgs:
  assumes "redis env = lib" "redisCommandArgv lib args (b_client s) = (Some r, c)" "orThrow lib r = Inr r"
  shows "returns (runArgs env args) s Q \<longleftrightarrow> Q r (s\<lparr>b_client := c\<rparr>)"
  using assms by (simp add: runArgs_def onClient_def client_run_def makeReply_def returns_def andThen_Inr
      liftClient_def pureP_def)

lemma flushAll_ready:
  assumes "redis env = lib" "ready (Suc n) m s"
  shows "returns (flushAll env) s (\<lambda>_. ready n Map.empty)"
proof -
  obtain r c where r: "redisCommand lib ''FLUSHALL'' [] (b_client s) = (Some r, c)" "r_type r = REDIS_REPLY lib RT_STATUS"
    "good n c" "stored c = Map.empty"
    using flush assms(2) unfolding ready_def by blast
  have "orThrow lib r = Inr r" by (rule orThrow_other [OF _ r(2)]) simp
  with r show ?thesis
    by (simp add: flushAll_def returns_runFormat [OF assms(1) r(1)] ready_client [OF assms(2)])
qed

lemma c_str_PAYLOAD [simp]: "c_str PAYLOAD = PAYLOAD"
  by (simp add: c_str_def PAYLOAD_def)

lemma setKey_ready:
  assumes "redis env = lib" "ready (n + 2) m s" "storable (c_str key) PAYLOAD"
  shows "returns (setKey env key) s (\<lambda>_. ready n (m(c_str key \<mapsto> PAYLOAD)))"
proof -
  obtain r c where r: "redisCommand lib ''SET %s %s'' [Fmt_string (c_str key), Fmt_string PAYLOAD] (b_client s) = (Some r, c)"
    "r_type r = REDIS_REPLY lib RT_STATUS" "good n c" "stored c = m(c_str key \<mapsto> PAYLOAD)"
    using set assms(2,3) unfolding ready_def by blast
  have "orThrow lib r = Inr r" by (rule orThrow_other [OF _ r(2)]) simp
  with r show ?thesis
    by (simp add: setKey_def returns_runFormat [OF assms(1) r(1)] ready_client [OF assms(2)])
qed

lemma insertKeys_ready:
  fixes env :: "('c, 'r, 'd) bench_env" and s :: "('c, 'r) bench"
  assumes "redis env = lib" "ready (n + 2 * (stop - start)) m s" "stop \<le> length data"
    and "\<forall>key \<in> set data. storable (c_str key) PAYLOAD"
  shows "returns (insertKeys env data start stop) s (\<lambda>_. ready n (\<lambda>k.
    if k \<in> c_str ` (!) data ` {start..<stop} then Some PAYLOAD else m k))"
proof -
  let ?I = "\<lambda>is. ready (n + 2 * (stop - start - length is)) (\<lambda>k. if k \<in> c_str ` (!) data ` set is then Some PAYLOAD else m k)"
  have "returns (insertKeys env data start stop) s (\<lambda>_. ?I [start..<stop])"
    unfolding insertKeys_def
  proof (rule returns_forEach)
    show "?I [] s" using assms(2) by simp
    fix ys x zs and s :: "('c, 'r) bench"
    assume xs: "[start..<stop] = ys @ x # zs" and I: "?I ys s"
    have "x \<in> set [start..<stop]" by (simp only: xs) simp
    then have x: "x < length data" using assms(3) by simp
    have len: "stop - start = length ys + Suc (length zs)" using arg_cong [OF xs, of length] by simp
    have "ready (n + 2 * (stop - start - length (ys @ [x])) + 2)
        (\<lambda>k. if k \<in> c_str ` (!) data ` set ys then Some PAYLOAD else m k) s"
      using I by (simp add: len)
    from setKey_ready [OF assms(1) this, of "data ! x"] x assms(4)
    have "returns (setKey env (data ! x)) s (\<lambda>_. ready (n + 2 * (stop - start - length (ys @ [x])))
        ((\<lambda>k. if k \<in> c_str ` (!) data ` set ys then Some PAYLOAD else m k)(c_str (data ! x) \<mapsto> PAYLOAD)))" by simp
    moreover have "(\<lambda>k. if k \<in> c_str ` (!) data ` set ys then Some PAYLOAD else m k)(c_str (data ! x) \<mapsto> PAYLOAD) =
        (\<lambda>k. if k \<in> c_str ` (!) data ` set (ys @ [x]) then Some PAYLOAD else m k)" by auto
    ultimately show "returns (andThen (indexP data x) (setKey env)) s (\<lambda>_. ?I (ys @ [x]))" using x by simp
  qed
  then show ?thesis by (auto elim!: returns_mono)
qed

lemma mset_ready:
  assumes "redis env = lib" "ready (n + 2 * length ks) m s" "\<forall>k \<in> set ks. storable k PAYLOAD"
  shows "returns (runArgs env (mset_args ks)) s (\<lambda>_. ready n (\<lambda>k. if k \<in> set ks then Some PAYLOAD else m k))"
proof -
  obtain r c where r: "redisCommandArgv lib (mset_args ks) (b_client s) = (Some r, c)"
    "r_type r = REDIS_REPLY lib RT_STATUS" "good n c" "stored c = (\<lambda>k. if k \<in> set ks then Some PAYLOAD else m k)"
    using mset assms(2,3) unfolding ready_def mset_args_def by blast
  have "orThrow lib r = Inr r" by (rule orThrow_other [OF _ r(2)]) simp
  with r show ?thesis by (simp add: returns_runArgs [OF assms(1) r(1)] ready_client [OF assms(2)])
qed

lemma mget_ready:
  fixes env :: "('c, 'r, 'd) bench_env" and s :: "('c, 'r) bench"
  assumes "redis env = lib" "ready n m s" "\<forall>k \<in> set ks. m k = Some PAYLOAD"
  shows "returns (runArgs env (mget_args ks)) s (\<lambda>r s1. ready n m s1 \<and> returns (checkReply env r) s1 (\<lambda>_. ready n m))"
proof -
  have "good n (b_client s)" "\<forall>k \<in> set ks. stored (b_client s) k = Some PAYLOAD"
    using assms(2,3) by (simp_all add: ready_def)
  from mget [OF this] obtain r c where r: "redisCommandArgv lib (mget_args ks) (b_client s) = (Some r, c)"
    "r_type r = REDIS_REPLY lib RT_ARRAY"
    "\<forall>e \<in> set (r_element r). r_type e = REDIS_REPLY lib RT_STRING \<and> r_str e = Some PAYLOAD"
    "good n c" "stored c = m"
    using assms(2) unfolding mget_args_def ready_def by blast
  have "orThrow lib r = Inr r" by (rule orThrow_other [OF _ r(2)]) simp
  moreover have "returns (checkReply env r) s1 (\<lambda>_. ready n m)" if "ready n m s1" for s1 :: "('c, 'r) bench"
  proof -
    have "returns (forEach (\<lambda>val. andThen (liftClient (getString lib val)) (\<lambda>v. whenP (v \<noteq> PAYLOAD) (throwP Terminate)))
        (r_element r)) s1 (\<lambda>_. ready n m)"
    proof (rule returns_forEach [where I = "\<lambda>_. ready n m"])
      fix ys x zs and s :: "('c, 'r) bench"
      assume "r_element r = ys @ x # zs" "ready n m s"
      moreover from this have "getString lib x = Inr PAYLOAD" using r(3) getString_ok [of x PAYLOAD] by simp
      ultimately show "returns (andThen (liftClient (getString lib x)) (\<lambda>v. whenP (v \<noteq> PAYLOAD) (throwP Terminate))) s
          (\<lambda>_. ready n m)" by simp
    qed (rule that)
    then show ?thesis using getArray_ok [OF r(2)] by (simp add: checkReply_def assms(1))
  qed
  ultimately show ?thesis using r by (simp add: returns_runArgs [OF assms(1) r(1)] ready_client [OF assms(2)])
qed

lemma batchLoop_mset_ready:
  fixes env :: "('c, 'r, 'd) bench_env" and s :: "('c, 'r) bench"
  assumes "redis env = lib" "batches_ok opts" "length data = keyCount opts"
    and "ready (n + 2 * keyCount opts) m s" "\<forall>k \<in> set data. storable k PAYLOAD"
  shows "returns (batchLoop env opts data mset_args) s (\<lambda>_. ready n (\<lambda>k. if k \<in> set data then Some PAYLOAD else m k))"
proof -
  let ?I = "\<lambda>xs. ready (n + 2 * (keyCount opts - length xs)) (\<lambda>k. if k \<in> set xs then Some PAYLOAD else m k)"
  have "returns (batchLoop env opts data mset_args) s (\<lambda>_. ?I data)"
  proof (rule returns_batchLoop [OF assms(2,3)])
    show "?I [] s" using assms(4) by simp
    fix xs rest batch and s :: "('c, 'r) bench"
    assume data: "data = xs @ batch @ rest" and I: "?I xs s"
    have "keyCount opts - length xs = (keyCount opts - length (xs @ batch)) + length batch"
      using assms(3) by (simp add: data)
    then have "ready (n + 2 * (keyCount opts - length (xs @ batch)) + 2 * length batch)
        (\<lambda>k. if k \<in> set xs then Some PAYLOAD else m k) s" using I by (simp add: algebra_simps)
    from mset_ready [OF assms(1) this] assms(5)
    have "returns (runArgs env (mset_args batch)) s (\<lambda>_. ready (n + 2 * (keyCount opts - length (xs @ batch)))
        (\<lambda>k. if k \<in> set batch then Some PAYLOAD else if k \<in> set xs then Some PAYLOAD else m k))" by (simp add: data)
    moreover have "(\<lambda>k. if k \<in> set batch then Some PAYLOAD else if k \<in> set xs then Some PAYLOAD else m k) =
        (\<lambda>k. if k \<in> set (xs @ batch) then Some PAYLOAD else m k)" by auto
    ultimately show "returns (runArgs env (mset_args batch)) s (\<lambda>_. ?I (xs @ batch))" by simp
  qed
  then show ?thesis by (simp add: assms(3))
qed

lemma batchLoop_mget_ready:
  fixes env :: "('c, 'r, 'd) bench_env" and s :: "('c, 'r) bench"
  assumes "redis env = lib" "batches_ok opts" "length data = keyCount opts"
    and "ready n m s" "\<forall>k \<in> set data. m k = Some PAYLOAD"
  shows "returns (batchLoop env opts data mget_args) s (\<lambda>_. ready n m)"
proof (rule returns_batchLoop [where I = "\<lambda>_. ready n m", OF assms(2,3,4)])
  fix xs rest batch and s :: "('c, 'r) bench"
  assume "data = xs @ batch @ rest" "ready n m s"
  then show "returns (runArgs env (mget_args batch)) s (\<lambda>_. ready n m)"
    using mget_ready [OF assms(1), of n m s batch] assms(5) by (auto elim!: returns_mono)
qed

lemma mgetBatch_ready:
  fixes env :: "('c, 'r, 'd) bench_env" and s :: "('c, 'r) bench"
  assumes "redis env = lib" "gives_key env (keyCount opts) (zipfParameter opts) False False" "keyCount opts < 2 ^ 32"
    and "length data = keyCount opts" "\<forall>k \<in> set data. m k = Some PAYLOAD" "0 < batchSize" "ready n m s"
  shows "returns (mgetBatch env opts data batchSize) s (\<lambda>_. ready n m)"
proof -
  have "zipf_ok s" using assms(7) by (simp add: ready_def)
  from returns_pickKeys [OF assms(2-4) this]
  have "returns (pickKeys env opts data (nat batchSize)) s (\<lambda>keys s1. set keys \<subseteq> set data \<and> ready n m s1)"
    by (rule returns_mono) (simp add: ready_same [OF assms(7)])
  then show ?thesis using assms(6)
  proof (simp add: mgetBatch_def, elim returns_mono)
    fix keys and s1 :: "('c, 'r) bench"
    assume "set keys \<subseteq> set data \<and> ready n m s1"
    then have "ready n m s1" "\<forall>k \<in> set keys. m k = Some PAYLOAD" using assms(5) by auto
    from mget_ready [OF assms(1) this]
    show "returns (runArgs env (mget_args keys)) s1 (\<lambda>r s2. returns (checkReply env r) s2 (\<lambda>_. ready n m))"
      by (auto elim!: returns_mono)
  qed
qed

lemma timerBlock_ready:
  fixes env :: "('c, 'r, 'd) bench_env" and s :: "('c, 'r) bench"
  assumes "ready n m s" "\<And>s. ready n m s \<Longrightarrow> returns body s (\<lambda>_. ready n1 m1)"
  shows "returns (timerBlock env body) s (\<lambda>_. ready n1 m1)"
proof -
  have stop: "returns (endBlock env) s1 (\<lambda>_. ready n1 m1)" if "ready n1 m1 s1" for s1 :: "('c, 'r) bench"
    using that by (simp add: endBlock_def returns_Some split_def Let_def)
  have inner: "returns (andThen body (\<lambda>_. endBlock env)) s1 (\<lambda>_. ready n1 m1)" if "ready n m s1" for s1
    by (rule returns_chain [OF assms(2) [OF that] stop])
  have "returns (startBlock env) s (\<lambda>_. ready n m)"
    using assms(1) by (simp add: startBlock_def returns_Some)
  then show ?thesis unfolding timerBlock_def by (rule returns_chain [OF _ inner])
qed

lemma returns_timer: "(\<And>s. ready n m s \<Longrightarrow> returns (f ()) s Q) \<Longrightarrow> ready n m s \<Longrightarrow>
    returns (andThen (setTimerParam name v) f) s Q"
  by simp

text \<open>Workload C: every reply it reads is the payload.\<close>

lemma runYcsbC_ready:
  fixes env :: "('c, 'r, 'd) bench_env" and s :: "('c, 'r) bench"
  assumes lib: "redis env = lib" and laws: "shuffles env" "gives_key env (keyCount opts) (zipfParameter opts) False False"
    and opts: "run_ok opts data" "batches_ok opts" "keyCount opts < 2 ^ 32"
    and keys: "\<forall>k \<in> set data. storable k PAYLOAD" and s: "ready (n + 2 * keyCount opts + 1) m s"
  shows "returns (runYcsbC env data opts) s (\<lambda>_ s1. \<exists>keys. length keys = keyCount opts \<and> mset keys \<subseteq># mset data \<and>
    ready n (\<lambda>k. if k \<in> set keys then Some PAYLOAD else None) s1)"
  (is "returns _ _ ?Q")
  unfolding runYcsbC_def
proof (rule returns_chain [OF returns_prepareKeys [OF laws(1) opts(1)]], clarify)
  fix keys r
  assume len: "length keys = keyCount opts" and sub: "mset keys \<subseteq># mset data"
  let ?m = "\<lambda>k. if k \<in> set keys then Some PAYLOAD else None"
  have dry: "\<not> dryRun opts" using opts(1) by (simp add: run_ok_def)
  have st: "\<forall>k \<in> set keys. storable k PAYLOAD" using keys sub by (metis mset_subset_eqD set_mset_mset)
  have stored: "\<forall>k \<in> set keys. ?m k = Some PAYLOAD" by simp
  have flushed: "returns (flushAll env) (s\<lparr>b_world := r\<rparr>) (\<lambda>_. ready (n + 2 * keyCount opts) Map.empty)"
    by (rule flushAll_ready [OF lib, of _ m]) (use s in simp)
  have init: "returns (timerBlock env (whenP (\<not> dryRun opts) (batchLoop env opts keys mset_args))) s (\<lambda>_. ready n ?m)"
    if "ready (n + 2 * keyCount opts) Map.empty s" for s :: "('c, 'r) bench"
    by (rule timerBlock_ready [OF that]) (use batchLoop_mset_ready [OF lib opts(2) len _ st, of n Map.empty] dry in simp)
  have rehash: "returns (timerBlock env (whenP (\<not> dryRun opts) (batchLoop env opts keys mget_args))) s (\<lambda>_. ready n ?m)"
    if "ready n ?m s" for s :: "('c, 'r) bench"
    by (rule timerBlock_ready [OF that]) (use batchLoop_mget_ready [OF lib opts(2) len _ stored] dry in simp)
  have ops: "returns (timerBlock env (whenP (\<not> dryRun opts) (opBatches opts (mgetBatch env opts keys)))) s ?Q"
    if "ready n ?m s" for s :: "('c, 'r) bench"
  proof (rule returns_mono [OF timerBlock_ready [OF that]])
    fix s :: "('c, 'r) bench"
    assume "ready n ?m s"
    then have "returns (opBatches opts (mgetBatch env opts keys)) s (\<lambda>_. ready n ?m)"
      by (rule returns_opBatches [where I = "ready n ?m", OF opts(2)])
        (rule mgetBatch_ready [OF lib laws(2) opts(3) len stored])
    then show "returns (whenP (\<not> dryRun opts) (opBatches opts (mgetBatch env opts keys))) s (\<lambda>_. ready n ?m)"
      using dry by simp
  qed (use len sub in blast)
  show "returns (andThen (flushAll env) (\<lambda>_.
     andThen (setTimerParam ''op'' ''ycsb_c_init'') (\<lambda>_.
     andThen (timerBlock env (whenP (\<not> dryRun opts) (batchLoop env opts keys mset_args))) (\<lambda>_.
     andThen (setTimerParam ''op'' ''ycsb_c_rehash'') (\<lambda>_.
     andThen (timerBlock env (whenP (\<not> dryRun opts) (batchLoop env opts keys mget_args))) (\<lambda>_.
     andThen (setTimerParam ''op'' ''ycsb_c'') (\<lambda>_.
       timerBlock env (whenP (\<not> dryRun opts) (opBatches opts (mgetBatch env opts keys))))))))))
     (s\<lparr>b_world := r\<rparr>) ?Q"
    by (rule returns_chain [OF flushed], rule returns_timer, rule returns_chain [OF init], assumption,
      rule returns_timer, rule returns_chain [OF rehash], assumption, rule returns_timer, rule ops)
qed

text \<open>The sorted insert stores what is left of its keys as C strings.\<close>

lemma runSortedInsert_ready:
  fixes env :: "('c, 'r, 'd) bench_env" and s :: "('c, 'r) bench"
  assumes lib: "redis env = lib" and opts: "run_ok opts data"
    and keys: "\<forall>k \<in> set data. storable (c_str k) PAYLOAD" and s: "ready (n + 2 * keyCount opts + 1) m s"
  shows "returns (runSortedInsert env data opts doSort) s (\<lambda>_. ready n (\<lambda>k.
    if k \<in> c_str ` set (take (keyCount opts) data) then Some PAYLOAD else None))"
proof -
  let ?keys = "if doSort then sort_key bytes_of (take (keyCount opts) data) else take (keyCount opts) data"
  let ?m = "\<lambda>k. if k \<in> c_str ` set (take (keyCount opts) data) then Some PAYLOAD else None"
  have o: "\<not> dryRun opts" "keyCount opts \<le> length data" "keySizeAcceptable (u32 (payloadSize opts)) data"
    using opts by (simp_all add: run_ok_def)
  have len: "length ?keys = keyCount opts" and set: "set ?keys = set (take (keyCount opts) data)"
    using o(2) by simp_all
  have "set (take (keyCount opts) data) \<subseteq> set data" by (rule set_take_subset)
  then have st: "\<forall>k \<in> set ?keys. storable (c_str k) PAYLOAD" using keys unfolding set by blast
  have nth: "(!) ?keys ` {0..<keyCount opts} = set (take (keyCount opts) data)"
    using nth_image [of "keyCount opts" ?keys] len set by (simp add: atLeast0LessThan)
  have run: "runSortedInsert env data opts doSort = andThen (flushAll env) (\<lambda>_.
      andThen (setTimerParam ''op'' ''sorted_insert'') (\<lambda>_. timerBlock env (insertKeys env ?keys 0 (keyCount opts))))"
    using o by (simp add: runSortedInsert_def resize_def whenP_def)
  have flushed: "returns (flushAll env) s (\<lambda>_. ready (n + 2 * keyCount opts) Map.empty)"
    by (rule flushAll_ready [OF lib, of _ m]) (use s in simp)
  have "returns (timerBlock env (insertKeys env ?keys 0 (keyCount opts))) s (\<lambda>_. ready n ?m)"
    if "ready (n + 2 * keyCount opts) Map.empty s" for s :: "('c, 'r) bench"
  proof (rule timerBlock_ready [OF that])
    fix s :: "('c, 'r) bench"
    assume "ready (n + 2 * keyCount opts) Map.empty s"
    from insertKeys_ready [OF lib, of n "keyCount opts" 0, OF _ _ st] this len
    show "returns (insertKeys env ?keys 0 (keyCount opts)) s (\<lambda>_. ready n ?m)" unfolding nth by simp
  qed
  then show ?thesis unfolding run by (intro returns_chain [OF flushed]) simp
qed

end

end
