(* ===== verification/YcsbMain.thy ===== *)
theory YcsbMain
  imports Workloads
begin

text \<open>The key sets of \<open>ycsb2.cpp\<close>, the random keys of \<open>zipfc\<close>, and \<open>main\<close>.\<close>

subsection \<open>Environment variables\<close>

definition requireEnv :: "('c, 'r, 'd) bench_env \<Rightarrow> string \<Rightarrow> (string, 's) prog" where
  "requireEnv env name =
     (case env_var env name of None \<Rightarrow> throwP (Abort (''missing env '' @ name)) | Some v \<Rightarrow> pureP v)"

definition envu64 :: "('c, 'r, 'd) bench_env \<Rightarrow> string \<Rightarrow> (nat, 's) prog" where
  "envu64 env name = andThen (requireEnv env name) (\<lambda>v. pureP (strtod_u64 env v))"

definition envf64 :: "('c, 'r, 'd) bench_env \<Rightarrow> string \<Rightarrow> ('d, 's) prog" where
  "envf64 env name = andThen (requireEnv env name) (\<lambda>v. pureP (strtod env v))"

subsection \<open>Random keys\<close>

text \<open>The inner loop of \<open>generate_rng4\<close> and \<open>generate_rng8\<close>: a candidate the filter does not know.\<close>

definition fresh_candidate :: "('c, 'r, 'd) bench_env \<Rightarrow> nat \<Rightarrow> nat list \<Rightarrow> (nat option, 'r) prog" where
  "fresh_candidate env bits known =
     whileP (\<lambda>x. x = None)
       (\<lambda>_ r. let (candidate, r1) = rng_gen env bits r
              in Some (Inr (if bloom_check env known candidate then None else Some candidate), r1)) None"

fun generate_rng :: "('c, 'r, 'd) bench_env \<Rightarrow> nat \<Rightarrow> nat \<Rightarrow> nat list \<Rightarrow> (nat list, 'r) prog" where
  "generate_rng env bits 0 known = pureP known"
| "generate_rng env bits (Suc n) known =
     andThen (fresh_candidate env bits known) (\<lambda>x. generate_rng env bits n (known @ [the x]))"

definition onWorld :: "('a, 'r) prog \<Rightarrow> ('a, ('c, 'r) bench) prog" where
  "onWorld m s = (case m (b_world s) of None \<Rightarrow> None | Some (x, r) \<Rightarrow> Some (x, s\<lparr>b_world := r\<rparr>))"

subsection \<open>Key sets\<close>

definition workloadGenCount :: "('c, 'r, 'd) bench_env \<Rightarrow> nat \<Rightarrow> nat \<Rightarrow> nat \<Rightarrow> (nat, 's) prog" where
  "workloadGenCount env keys ops ycsbVariant =
     andThen (envu64 env ''YCSB_VARIANT'') (\<lambda>variant.
       if variant \<in> {3, 4, 401, 402, 501, 6, 1001} then pureP keys
       else if variant = 5 then pureP (u32 (keys + ops))
       else throwP (Abort ''bad ycsb variant''))"

definition genCount :: "('c, 'r, 'd) bench_env \<Rightarrow> 'd options \<Rightarrow> (nat, 's) prog" where
  "genCount env opts =
     andThen (envu64 env ''YCSB_VARIANT'') (\<lambda>variant.
       workloadGenCount env (u32 (keyCount opts)) (u32 (opCount opts)) (u32 variant))"

definition intKeys :: "('c, 'r, 'd) bench_env \<Rightarrow> 'd options \<Rightarrow> 'd \<Rightarrow> (string list, ('c, 'r) bench) prog" where
  "intKeys env opts intDensity =
     andThen (genCount env opts) (\<lambda>g.
       let n = u32 (div_double env g intDensity)
       in pureP (if dryRun opts then replicate n [] else map int_to_key [0..<n]))"

definition rngKeys :: "('c, 'r, 'd) bench_env \<Rightarrow> 'd options \<Rightarrow> nat \<Rightarrow> (nat \<Rightarrow> string) \<Rightarrow>
    (string list, ('c, 'r) bench) prog" where
  "rngKeys env opts bits to_key =
     andThen (genCount env opts) (\<lambda>n.
       if dryRun opts then pureP (replicate n [])
       else andThen (onWorld (generate_rng env bits n [])) (\<lambda>v. pureP (map to_key v)))"

text \<open>Key \<open>i\<close> of the long key sets has \<open>i\<close> characters.\<close>

definition long1Keys :: "'d options \<Rightarrow> string list" where
  "long1Keys opts = map (\<lambda>i. replicate i (CHR ''A'')) [0..<keyCount opts]"

fun long2From :: "('c, 'r, 'd) bench_env \<Rightarrow> nat \<Rightarrow> nat \<Rightarrow> 'r \<Rightarrow> string list \<times> 'r" where
  "long2From env i 0 r = ([], r)"
| "long2From env i (Suc n) r =
     (let (s, r1) = samples (rng_gen env 31) i r;
          (keys, r2) = long2From env (Suc i) n r1
      in (map (\<lambda>x. char_of (65 + x mod 60 :: nat)) s # keys, r2))"

definition partitioned_key :: "nat \<Rightarrow> nat \<Rightarrow> string" where
  "partitioned_key part i =
     string_of (le_encode 8 (unat (bswap64 (or (push_bit 32 (word_of_nat part)) (word_of_nat i)))))"

fun partitionedFrom :: "('c, 'r, 'd) bench_env \<Rightarrow> nat \<Rightarrow> nat list \<Rightarrow> nat \<Rightarrow> 'r \<Rightarrow> string list \<times> 'r" where
  "partitionedFrom env partitionCount next_id 0 r = ([], r)"
| "partitionedFrom env partitionCount next_id (Suc n) r =
     (let (part, r1) = uniform_between env 0 (partitionCount - 1) r;
          i = next_id ! part;
          (keys, r2) = partitionedFrom env partitionCount (next_id[part := u32 (i + 1)]) n r1
      in (partitioned_key part i # keys, r2))"

definition dry_file_sizes :: "(string \<times> nat) list" where
  "dry_file_sizes =
     [(''file:data/access'', 6625815), (''file:data/genome'', 262084), (''file:data/urls'', 6393703),
      (''file:data/urls-short'', 6391379), (''file:data/wiki'', 15772029)]"

definition fileKeys :: "('c, 'r, 'd) bench_env \<Rightarrow> 'd options \<Rightarrow> string \<Rightarrow> (string list, ('c, 'r) bench) prog" where
  "fileKeys env opts name =
     (let keySet = ''file:'' @ name
      in if dryRun opts
         then (case map_of dry_file_sizes keySet of
             Some n \<Rightarrow> pureP (resize n [])
           | None \<Rightarrow> throwP (Abort (''key count unknown for ['' @ keySet @ '']'')))
         else pureP (file_lines env name))"

definition makeKeys :: "('c, 'r, 'd) bench_env \<Rightarrow> 'd options \<Rightarrow> string \<Rightarrow> 'd \<Rightarrow> (string list, ('c, 'r) bench) prog" where
  "makeKeys env opts keySet intDensity =
     (if keySet = ''int'' then intKeys env opts intDensity
      else if keySet = ''rng4'' then rngKeys env opts 32 int_to_key
      else if keySet = ''rng8'' then rngKeys env opts 64 long_to_key
      else if keySet = ''long1'' then pureP (long1Keys opts)
      else if keySet = ''long2'' then drawP (long2From env 0 (keyCount opts))
      else if keySet = ''partitioned_id''
      then drawP (partitionedFrom env (u32 (maxScanLength opts)) (replicate (u32 (maxScanLength opts)) 0) (keyCount opts))
      else fileKeys env opts keySet)"

subsection \<open>The program\<close>

definition makePerfTimer :: "string \<Rightarrow> bool \<Rightarrow> nat \<Rightarrow> (string \<times> nat) list \<Rightarrow> timer" where
  "makePerfTimer dataName dataSorted dataSize settings =
     fold (\<lambda>(name, v). setParam name (show_nat v)) settings
       (setParam ''data_size'' (show_nat dataSize)
         (setParam ''data_sorted'' (show_nat (of_bool dataSorted))
           (setParam ''data_name'' dataName
             (setParam ''config_name'' ''none'' (setParam ''op'' ''none'' timer_new)))))"

definition readOptions :: "('c, 'r, 'd) bench_env \<Rightarrow> ('d options, 's) prog" where
  "readOptions env =
     andThen (envu64 env ''KEY_COUNT'') (\<lambda>keys.
     andThen (envu64 env ''KEY_BATCH_COUNT'') (\<lambda>keyBatch.
     andThen (envu64 env ''PAYLOAD_SIZE'') (\<lambda>payload.
     andThen (envu64 env ''OP_COUNT'') (\<lambda>ops.
     andThen (envu64 env ''OP_BATCH_COUNT'') (\<lambda>opBatch.
     andThen (envf64 env ''ZIPF'') (\<lambda>zipf.
     andThen (envu64 env ''SCAN_LENGTH'') (\<lambda>scan.
       pureP \<lparr>dryRun = (env_var env ''DRYRUN'' \<noteq> None), keyCount = keys, keyBatchCount = keyBatch,
         payloadSize = payload, opCount = ops, opBatchCount = opBatch, zipfParameter = zipf,
         maxScanLength = scan\<rparr>)))))))"

definition setTimerParams :: "(string \<times> string) list \<Rightarrow> (unit, ('c, 'r) bench) prog" where
  "setTimerParams ps = forEach (\<lambda>(name, v). setTimerParam name v) ps"

text \<open>A key that is too long for a page makes the key count check of every workload fail.\<close>

definition checkKeyLengths :: "'d options \<Rightarrow> string list \<Rightarrow> ('d options \<times> string list, ('c, 'r) bench) prog" where
  "checkKeyLengths opts data =
     (if list_ex (\<lambda>k. BTreeNode_maxKVSize < u64 (length k + payloadSize opts)) data
      then andThen (cerr ''key too long for page size'') (\<lambda>_. pureP (opts\<lparr>keyCount := 1\<rparr>, []))
      else pureP (opts, data))"

definition runWorkload :: "('c, 'r, 'd) bench_env \<Rightarrow> nat \<Rightarrow> string list \<Rightarrow> 'd options \<Rightarrow> (unit, ('c, 'r) bench) prog" where
  "runWorkload env variant data opts =
     (if variant = 3 then runYcsbC env data opts
      else if variant = 1001 then runMemory env data opts
      else if variant = 4 then runYcsbD env data opts
      else if variant = 401 then runSortedInsert env data opts True
      else if variant = 402 then runSortedInsert env data opts False
      else if variant = 5 then runYcsbE env data opts
      else if variant = 501 then runSortedScan env data opts
      else if variant = 6 then runMulti env data opts
      else throwP (Abort (''bad ycsb variant: '' @ show_nat variant)))"

text \<open>\<open>main\<close>, from the connected client on: \<open>client_connect\<close> gives \<open>b_client\<close> of its first state.\<close>

definition ycsb_main :: "('c, 'r, 'd) bench_env \<Rightarrow> (string \<times> nat) list \<Rightarrow> (unit, ('c, 'r) bench) prog" where
  "ycsb_main env settings =
     andThen (flushAll env) (\<lambda>_.
     andThen (readOptions env) (\<lambda>opts0.
     andThen (if env_var env ''SEED'' \<noteq> None then envu64 env ''SEED'' else pureP (time_seed env)) (\<lambda>rand_seed.
     andThen (case env_var env ''DATA'' of None \<Rightarrow> throwP (Abort ''no keyset'') | Some d \<Rightarrow> pureP d) (\<lambda>keySet.
     andThen (case env_var env ''RUN_ID'' of
         None \<Rightarrow> andThen (cerr ''WARN: no run_id'') (\<lambda>_. pureP (timestamp env)) | Some i \<Rightarrow> pureP i) (\<lambda>run_id.
     andThen (envf64 env ''DENSITY'') (\<lambda>intDensity.
     andThen (\<lambda>s. Some (Inr (), s\<lparr>b_timer := makePerfTimer keySet False (u32 (keyCount opts0)) settings\<rparr>)) (\<lambda>_.
     andThen (setTimerParams [(''payload_size'', show_nat (payloadSize opts0)), (''run_id'', run_id),
       (''ycsb_zipf'', show_double env (zipfParameter opts0)), (''bin_name'', program_name env),
       (''density'', show_double env intDensity), (''rand_seed'', show_nat (u32 rand_seed))]) (\<lambda>_.
     andThen (whenP (maxScanLength opts0 = 0) (throwP Terminate)) (\<lambda>_.
     andThen (setTimerParam ''ycsb_range_len'' (show_nat (maxScanLength opts0))) (\<lambda>_.
     andThen (makeKeys env opts0 keySet intDensity) (\<lambda>keys.
     andThen (checkKeyLengths opts0 keys) (\<lambda>(opts, data).
     andThen (envu64 env ''YCSB_VARIANT'') (\<lambda>variant.
       runWorkload env variant data opts)))))))))))))"

end
