(* ===== verification/WorkloadKeys.thy ===== *)
theory WorkloadKeys
  imports YcsbMain RespApi
begin

text \<open>The keys of the benchmark as byte strings, and the memory figure in the server's answer.\<close>

subsection \<open>Order of characters and strings\<close>

lemma byte_of_char_less: "byte_of_char c < byte_of_char d \<longleftrightarrow> (of_char c :: nat) < of_char d"
proof -
  have "unat (byte_of_char e) = of_char e" for e
    by (simp add: byte_of_char_def unat_of_nat)
  then show ?thesis by (simp add: word_less_nat_alt)
qed

lemma bytes_of_Nil [simp]: "bytes_of [] = []"
  by (simp add: bytes_of_def)

lemma bytes_of_Cons: "bytes_of (c # s) = byte_of_char c # bytes_of s"
  by (simp add: bytes_of_def)

lemma bytes_of_append: "bytes_of (s @ t) = bytes_of s @ bytes_of t"
  by (simp add: bytes_of_def)

lemmas bytes_of_simps = bytes_of_Cons bytes_of_append

lemma byte_of_char_inj [simp]: "byte_of_char c = byte_of_char d \<longleftrightarrow> c = d"
  by (metis char_of_byte_of_char)

subsection \<open>Escaped strings\<close>

text \<open>The codes one character becomes.\<close>

definition lits_code :: "nat \<Rightarrow> nat list" where
  "lits_code c =
     (if c < 2 then [1, c + 1]
      else if 126 \<le> c then (if c - 126 < 64 then [126, c - 126 + 1] else [127, c - 126 - 64 + 1])
      else [c])"

lemma lits_escape_Cons: "lits_escape (ch # s) = map char_of (lits_code (of_char ch)) @ lits_escape s"
proof -
  have "CHR 0x01 = char_of (1 :: nat)" "CHR 0x7E = char_of (126 :: nat)" "CHR 0x7F = char_of (127 :: nat)"
    by (simp_all add: char_of_def bit_0)
  then show ?thesis by (simp add: lits_code_def Let_def)
qed

lemma bytes_of_codes: "bytes_of (map char_of xs) = map word_of_nat xs"
proof -
  have "byte_of_char (char_of x) = word_of_nat x" for x :: nat
    by (simp add: byte_of_char_def word_unat_eq_iff unat_of_nat)
  then show ?thesis by (simp add: bytes_of_def)
qed

lemma lits_code_range: "c < 256 \<Longrightarrow> x \<in> set (lits_code c) \<Longrightarrow> 1 \<le> x \<and> x \<le> 127"
  by (auto simp: lits_code_def split: if_splits)

lemma word_of_nat_byte_less: "x < 256 \<Longrightarrow> y < 256 \<Longrightarrow> (word_of_nat x :: byte) < word_of_nat y \<longleftrightarrow> x < y"
  by (simp add: word_less_nat_alt unat_of_nat)

lemma lits_code_less:
  assumes "c < d" "d < 256"
  shows "(map word_of_nat (lits_code c) :: bytes) @ s < map word_of_nat (lits_code d) @ t"
proof -
  have "c < 256" using assms by simp
  then show ?thesis
    using assms
    by (auto simp: lits_code_def word_of_nat_byte_less simp del: of_nat_add of_nat_diff of_nat_Suc of_nat_numeral)
qed

text \<open>C39: the escaping of keys for a trie that reserves the byte 0 and the bytes above 127 keeps the order of the
  keys, and so never makes two keys equal, and gives characters from 1 to 127 only.\<close>

theorem lits_escape_order:
  "(bytes_of (lits_escape s) < bytes_of (lits_escape t) \<longleftrightarrow> bytes_of s < bytes_of t) \<and>
   (lits_escape s = lits_escape t \<longleftrightarrow> s = t) \<and>
   list_all (\<lambda>c. of_char c \<in> {1..127 :: nat}) (lits_escape s)"
proof -
  have mono: "bytes_of s < bytes_of t \<Longrightarrow> bytes_of (lits_escape s) < bytes_of (lits_escape t)" for s t
  proof (induction s arbitrary: t)
    case Nil
    then obtain d t' where "t = d # t'" by (cases t) simp_all
    moreover have "lits_code (of_char d) \<noteq> []" by (simp add: lits_code_def)
    ultimately show ?case
      by (simp add: bytes_of_simps lits_escape_Cons bytes_of_codes neq_Nil_conv del: lits_escape.simps(2)) auto
  next
    case (Cons c s)
    then obtain d t' where t: "t = d # t'" by (cases t) simp_all
    show ?case
    proof (cases "c = d")
      case True
      with Cons t show ?thesis by (simp add: bytes_of_simps lits_escape_Cons del: lits_escape.simps(2))
    next
      case False
      with Cons.prems t have "(of_char c :: nat) < of_char d" by (simp add: bytes_of_simps byte_of_char_less)
      with t show ?thesis
        by (simp add: bytes_of_simps lits_escape_Cons bytes_of_codes lits_code_less del: lits_escape.simps(2))
    qed
  qed
  have "bytes_of s < bytes_of t \<or> bytes_of t < bytes_of s \<or> s = t" by (metis bytes_of_inj linorder_neqE)
  moreover have "list_all (\<lambda>c. of_char c \<in> {1..127 :: nat}) (lits_escape s)"
  proof (induction s)
    case (Cons c s)
    have "x \<in> set (lits_code (of_char c)) \<Longrightarrow> 1 \<le> x \<and> x \<le> 127" for x
      by (rule lits_code_range [of "of_char c"]) simp_all
    with Cons show ?case
      by (fastforce simp: lits_escape_Cons list_all_iff simp del: lits_escape.simps(2))
  qed simp
  ultimately show ?thesis using mono by (metis less_asym order.irrefl)
qed

subsection \<open>Keys as C strings\<close>

lemma int_to_key_eq:
  assumes "x < 2 ^ 32"
  shows "int_to_key x = string_of (rev (le_encode 4 x))"
proof -
  let ?bs = "rev (le_encode 4 x)"
  have "unat (word_of_nat x :: 32 word) = x" using assms by (simp add: unat_of_nat)
  moreover have "unat (word_of_nat (le_decode ?bs) :: 32 word) = le_decode ?bs"
    using le_decode_less [of ?bs] by (simp add: unat_of_nat)
  ultimately show ?thesis by (simp add: int_to_key_def bswap32_def le_encode_decode)
qed

text \<open>A number below 2 to the 24 begins with a zero byte: as a C string it is empty.\<close>

lemma le_encode_snoc: "le_encode (Suc n) x = le_encode n x @ [word_of_nat (x div 256 ^ n mod 256)]"
  by (induction n arbitrary: x) (simp_all add: div_mult2_eq)

lemma c_str_int_to_key:
  assumes "x < 2 ^ 24"
  shows "c_str (int_to_key x) = []"
proof -
  have "rev (le_encode 4 x) = 0 # rev (le_encode 3 x)"
    using le_encode_snoc [of 3 x] assms by simp
  then show ?thesis using assms by (simp add: int_to_key_eq string_of_def c_str_def char_of_byte_def char_of_def bit_0)
qed

subsection \<open>The memory figure\<close>

lemma text_lines_not_Nil [simp]: "text_lines s \<noteq> []"
  by (induction s) auto

lemma text_lines_plain: "\<forall>c \<in> set s. c \<noteq> LF \<and> c \<noteq> CR \<Longrightarrow> text_lines s = [s]"
  by (induction s) (auto simp: LF_def CR_def)

lemma text_lines_append: "c = LF \<or> c = CR \<Longrightarrow> text_lines (s @ c # t) = text_lines s @ text_lines t"
  by (induction s) (auto simp: LF_def CR_def neq_Nil_conv)

lemma text_lines_crlf:
  "text_lines (s @ [CR, LF] @ t) = text_lines s @ [] # text_lines t"
  "text_lines ([CR, LF] @ t) = [] # [] # text_lines t"
  using text_lines_append [of CR s "LF # t"] by (simp_all add: LF_def CR_def)

declare text_lines.simps(2) [simp del]

lemma memory_of_line_figure: "memory_of_line (''used_memory_dataset:'' @ show_nat m) = Some (show_nat m)"
  using show_nat_digits [of _ m] by (simp add: memory_of_line_def list_all_iff)

definition info_text :: "nat \<Rightarrow> string" where
  "info_text m = ''# Server'' @ [CR, LF] @ ''redis_version:8.6.2'' @ [CR, LF] @ ''redis_mode:standalone'' @ [CR, LF] @
     [CR, LF] @ ''# Memory'' @ [CR, LF] @ ''used_memory_dataset:'' @ show_nat m @ [CR, LF]"

lemma text_lines_last: "text_lines s = [s] \<Longrightarrow> text_lines (s @ [CR, LF]) = [s, [], []]"
  using text_lines_crlf(1) [of s "[]"] by simp

lemma text_lines_info: "text_lines (info_text m) =
    [''# Server'', [], ''redis_version:8.6.2'', [], ''redis_mode:standalone'', [], [], [], ''# Memory'', [],
     ''used_memory_dataset:'' @ show_nat m, [], []]"
proof -
  have plain: "text_lines ''# Server'' = [''# Server'']" "text_lines ''redis_version:8.6.2'' = [''redis_version:8.6.2'']"
    "text_lines ''redis_mode:standalone'' = [''redis_mode:standalone'']" "text_lines ''# Memory'' = [''# Memory'']"
    by (rule text_lines_plain, simp add: LF_def CR_def)+
  have figure: "text_lines (''used_memory_dataset:'' @ show_nat m) = [''used_memory_dataset:'' @ show_nat m]"
    by (rule text_lines_plain) (auto simp: LF_def CR_def dest: show_nat_digits)
  have last: "text_lines (''used_memory_dataset:'' @ show_nat m @ [CR, LF]) = [''used_memory_dataset:'' @ show_nat m, [], []]"
    using text_lines_last [OF figure] by (simp only: append_assoc)
  show ?thesis
    unfolding info_text_def text_lines_crlf(1) [of "''# Server''"] text_lines_crlf(1) [of "''redis_version:8.6.2''"]
      text_lines_crlf(1) [of "''redis_mode:standalone''"] text_lines_crlf(2) text_lines_crlf(1) [of "''# Memory''"] last plain
    by simp
qed

lemma memory_of_other_lines [simp]:
  "memory_of_line ''# Server'' = None" "memory_of_line [] = None" "memory_of_line ''redis_version:8.6.2'' = None"
  "memory_of_line ''redis_mode:standalone'' = None" "memory_of_line ''# Memory'' = None"
  by (simp_all add: memory_of_line_def)

lemma usedMemory_info: "usedMemory (info_text m) = Some (show_nat m)"
  unfolding usedMemory_def text_lines_info
  by (simp only: map_filter_simps memory_of_other_lines memory_of_line_figure option.case list.case)

lemma c_str_info: "c_str (info_text m) = info_text m"
proof -
  have "CHR 0x00 \<notin> set (show_nat m)" using show_nat_digits [of "CHR 0x00" m] by (auto simp: is_digit_def)
  then show ?thesis
    unfolding c_str_def by (intro takeWhile_eq_all_conv [THEN iffD2]) (auto simp: info_text_def LF_def CR_def)
qed

lemma onInfo_text: "api_getMemory kv t = Some m \<Longrightarrow> onInfo kv command t = Some (bulk_string (Some (info_text m)), t)"
  by (simp add: onInfo_def info_text_def)

end
