(* ===== verification/ServerLink.thy ===== *)
theory ServerLink
  imports CacheLink WorkloadKeys RespApiSpec
begin

text \<open>
  The benchmark and the server of this repository. \<open>hiredis_link\<close> states what a connection of \<open>hiredis\<close>
  does: a command reaches the server as its arguments, the answer comes back as a reply object of the
  type the protocol gives it. With a tree that keeps its contract behind the server it is a \<open>cache\<close>.
\<close>

definition lower_commands :: "'n environment \<Rightarrow> bool" where
  "lower_commands env \<longleftrightarrow> to_lower_copy env ''FLUSHALL'' = ''flushall'' \<and> to_lower_copy env ''SET'' = ''set'' \<and>
     to_lower_copy env ''GET'' = ''get'' \<and> to_lower_copy env ''MSET'' = ''mset'' \<and> to_lower_copy env ''MGET'' = ''mget'' \<and>
     to_lower_copy env ''INFO'' = ''info''"

locale hiredis_link =
  fixes lib :: "'c hiredis"
    and env :: "'n environment"
    and kv :: "('t, bytes list \<times> nat) kv_ops"
    and server :: "'c \<Rightarrow> 't"
    and reply :: "resp_value \<Rightarrow> redisReply"
  assumes lower: "lower_commands env"
    and reply_types: "inj (REDIS_REPLY lib)"
    and argv: "commandReply env kv (map bulk args) (server c) = Some (v, t) \<Longrightarrow>
      \<exists>c'. redisCommandArgv lib args c = (Some (reply v), c') \<and> server c' = t"
    and flushall: "redisCommand lib ''FLUSHALL'' [] c = redisCommandArgv lib [''FLUSHALL''] c"
    and format_set: "redisCommand lib ''SET %s %s'' [Fmt_string k, Fmt_string p] c = redisCommandArgv lib [''SET'', k, p] c"
    and format_get: "redisCommand lib ''GET %s'' [Fmt_string k] c = redisCommandArgv lib [''GET'', k] c"
    and format_info: "redisCommand lib ''INFO MEMORY'' [] c = redisCommandArgv lib [''INFO'', ''MEMORY''] c"
    and status: "r_type (reply (simple_string s)) = REDIS_REPLY lib RT_STATUS"
    and bulk_reply: "r_type (reply (bulk s)) = REDIS_REPLY lib RT_STRING" "r_str (reply (bulk s)) = Some s"
    and array_reply: "r_type (reply (array_value vs)) = REDIS_REPLY lib RT_ARRAY"
      "r_element (reply (array_value vs)) = map reply vs"

context hiredis_link
begin

lemma getString_bulk: "getString lib (reply (bulk s)) = Inr (c_str s)"
  by (simp add: getString_def assertType_def reply_is_def c_string_def bulk_reply)

lemma measureMemory_link:
  assumes "redis benv = lib" "api_getMemory kv (server (b_client s)) = Some m"
  shows "\<exists>s1. measureMemory benv s = Some (Inr (), s1) \<and> map_of (t_params (b_timer s1)) ''mem'' = Some (show_nat m) \<and>
    server (b_client s1) = server (b_client s)"
proof -
  have "commandReply env kv (map bulk [''INFO'', ''MEMORY'']) (server (b_client s)) = Some (bulk (info_text m), server (b_client s))"
    using lower onInfo_text [OF assms(2)] by (simp add: commandReply_def lower_commands_def commandMap_def bulk_def)
  from argv [OF this] obtain c where c: "redisCommandArgv lib [''INFO'', ''MEMORY''] (b_client s) = (Some (reply (bulk (info_text m))), c)"
    "server c = server (b_client s)"
    by blast
  have "onClient (client_runFormat (redis benv) ''INFO MEMORY'' []) s = Some (Inr (reply (bulk (info_text m))), s\<lparr>b_client := c\<rparr>)"
    using c(1) assms(1)
    by (simp add: onClient_def client_runFormat_def makeReply_def format_info liftClient_def pureP_def)
  then have "measureMemory benv s = Some (Inr (), s\<lparr>b_client := c, b_timer := setParam ''mem'' (show_nat m) (b_timer s)\<rparr>)"
    using assms(1) getString_bulk [of "info_text m"]
    by (simp add: measureMemory_def andThen_def liftClient_def pureP_def c_str_info usedMemory_info setTimerParam_def)
  with c(2) show ?thesis by (simp add: param_of_setParam)
qed

end

locale server_link = hiredis_link lib env kv server reply + kv_store kv inv content storable
  for lib :: "'c hiredis" and env :: "'n environment" and kv :: "('t, bytes list \<times> nat) kv_ops"
    and server :: "'c \<Rightarrow> 't" and reply :: "resp_value \<Rightarrow> redisReply"
    and inv content storable
begin

definition link_good :: "nat \<Rightarrow> 'c \<Rightarrow> bool" where
  "link_good n c \<longleftrightarrow> inv n (server c)"

definition link_stored :: "'c \<Rightarrow> string \<rightharpoonup> string" where
  "link_stored c k = map_option string_of (content (server c) (bytes_of k))"

definition link_storable :: "string \<Rightarrow> string \<Rightarrow> bool" where
  "link_storable k v \<longleftrightarrow> storable (bytes_of k) (bytes_of v)"

lemma link_stored_eq: "content (server c') = (content (server c))(bytes_of k \<mapsto> bytes_of v) \<Longrightarrow>
    link_stored c' = (link_stored c)(k \<mapsto> v)"
  by (auto simp: link_stored_def)

lemma mset_pairs_bulk: "mset_pairs (map (\<lambda>k. (k, v)) ks) = map bulk (concat (map (\<lambda>k. [k, v]) ks))"
  by (induction ks) (simp_all add: bulk_def)

lemma fold_mset: "fold (\<lambda>(k, v) m. m(bytes_of k \<mapsto> bytes_of v)) (map (\<lambda>k. (k, v)) ks) m (bytes_of k') =
    (if k' \<in> set ks then Some (bytes_of v) else m (bytes_of k'))"
  by (induction ks arbitrary: m) auto

lemma link_flush:
  assumes "link_good (Suc n) c"
  shows "\<exists>r c'. redisCommand lib ''FLUSHALL'' [] c = (Some r, c') \<and> r_type r = REDIS_REPLY lib RT_STATUS \<and>
    link_good n c' \<and> link_stored c' = Map.empty"
proof -
  obtain t where t: "kv_clear kv (server c) = Some t" "inv n t" "content t = Map.empty"
    using clear [of n "server c"] assms by (auto simp: link_good_def)
  then have "commandReply env kv (map bulk [''FLUSHALL'']) (server c) = Some (respondOk, t)"
    using lower by (simp add: commandReply_def lower_commands_def commandMap_def onFlushAll_def api_flushAll_def)
  from argv [OF this] t show ?thesis
    by (auto simp: flushall respondOk_def status link_good_def link_stored_def fun_eq_iff)
qed

lemma link_set:
  assumes "link_good (n + 2) c" "link_storable k v"
  shows "\<exists>r c'. redisCommand lib ''SET %s %s'' [Fmt_string k, Fmt_string v] c = (Some r, c') \<and>
    r_type r = REDIS_REPLY lib RT_STATUS \<and> link_good n c' \<and> link_stored c' = (link_stored c)(k \<mapsto> v)"
proof -
  obtain t where t: "api_set kv k v (server c) = Some t" "inv n t"
    "content t = (content (server c))(bytes_of k \<mapsto> bytes_of v)"
    by (rule set_content [OF assms [unfolded link_good_def link_storable_def]])
  then have "commandReply env kv (map bulk [''SET'', k, v]) (server c) = Some (respondOk, t)"
    using lower by (simp add: commandReply_def lower_commands_def commandMap_def onSet_def)
  from argv [OF this] obtain c' where "redisCommandArgv lib [''SET'', k, v] c = (Some (reply respondOk), c')" "server c' = t"
    by blast
  moreover from this t(3) have "link_stored c' = (link_stored c)(k \<mapsto> v)" by (intro link_stored_eq) simp
  ultimately show ?thesis using t(2) by (simp add: format_set respondOk_def status link_good_def)
qed

lemma link_get:
  assumes "link_good n c" "link_stored c k = Some v"
  shows "\<exists>r c'. redisCommand lib ''GET %s'' [Fmt_string k] c = (Some r, c') \<and>
    r_type r = REDIS_REPLY lib RT_STRING \<and> r_str r = Some v \<and> link_good n c' \<and> link_stored c' = link_stored c"
proof -
  obtain t where t: "api_get kv k (server c) = Some (Some v, t)" "inv n t" "content t = content (server c)"
    by (rule get_content [OF assms(1) [unfolded link_good_def], of k, unfolded assms(2) [unfolded link_stored_def]])
  then have "commandReply env kv (map bulk [''GET'', k]) (server c) = Some (bulk v, t)"
    using lower by (simp add: commandReply_def lower_commands_def commandMap_def onGet_def bulk_def)
  from argv [OF this] obtain c' where "redisCommandArgv lib [''GET'', k] c = (Some (reply (bulk v)), c')" "server c' = t"
    by blast
  with t show ?thesis by (simp add: format_get bulk_reply link_good_def link_stored_def fun_eq_iff)
qed

lemma link_mset:
  assumes "link_good (n + 2 * length ks) c" "\<forall>k \<in> set ks. link_storable k v"
  shows "\<exists>r c'. redisCommandArgv lib (''MSET'' # concat (map (\<lambda>k. [k, v]) ks)) c = (Some r, c') \<and>
    r_type r = REDIS_REPLY lib RT_STATUS \<and> link_good n c' \<and>
    link_stored c' = (\<lambda>k. if k \<in> set ks then Some v else link_stored c k)"
proof -
  let ?ps = "map (\<lambda>k. (k, v)) ks"
  obtain t where t: "api_mset kv (mset_pairs ?ps) (server c) = Some t" "inv n t"
    "content t = fold (\<lambda>(k, v) m. m(bytes_of k \<mapsto> bytes_of v)) ?ps (content (server c))"
    using mset_content [of n ?ps "server c"] assms by (auto simp: link_good_def link_storable_def)
  let ?args = "''MSET'' # concat (map (\<lambda>k. [k, v]) ks)"
  have "commandReply env kv (map bulk ?args) (server c) = Some (respondOk, t)"
    using lower t(1) by (simp add: commandReply_def lower_commands_def commandMap_def onMSet_def getArgs_def mset_pairs_bulk)
  from argv [OF this] obtain c' where c': "redisCommandArgv lib ?args c = (Some (reply respondOk), c')" "server c' = t"
    by blast
  have "link_stored c' = (\<lambda>k. if k \<in> set ks then Some v else link_stored c k)"
    by (auto simp: link_stored_def c'(2) t(3) fold_mset)
  with c' t(2) show ?thesis by (simp add: respondOk_def status link_good_def)
qed

lemma link_mget:
  assumes "link_good n c" "\<forall>k \<in> set ks. link_stored c k = Some v"
  shows "\<exists>r c'. redisCommandArgv lib (''MGET'' # ks) c = (Some r, c') \<and> r_type r = REDIS_REPLY lib RT_ARRAY \<and>
    (\<forall>e \<in> set (r_element r). r_type e = REDIS_REPLY lib RT_STRING \<and> r_str e = Some v) \<and>
    link_good n c' \<and> link_stored c' = link_stored c"
proof -
  have vals: "map (\<lambda>k. map_option string_of (content (server c) (bytes_of k))) ks = map (\<lambda>_. Some v) ks"
    using assms(2) by (simp add: link_stored_def)
  obtain t where t: "api_mget kv (map bulk ks) (server c) = Some (map (\<lambda>_. Some v) ks, t)"
    "inv n t" "content t = content (server c)"
    using mget_content [OF assms(1) [unfolded link_good_def], of ks] unfolding vals by (auto simp: bulk_def [abs_def])
  let ?answer = "array_value (map (\<lambda>_. bulk v) ks)"
  have "commandReply env kv (map bulk (''MGET'' # ks)) (server c) = Some (?answer, t)"
    using lower t(1)
    by (simp add: commandReply_def lower_commands_def commandMap_def onMGet_def getArgs_def bulk_def comp_def)
  from argv [OF this] obtain c' where c': "redisCommandArgv lib (''MGET'' # ks) c = (Some (reply ?answer), c')" "server c' = t"
    by blast
  with t show ?thesis by (auto simp: array_reply bulk_reply link_good_def link_stored_def fun_eq_iff)
qed

end

sublocale server_link \<subseteq> cache lib link_good link_stored link_storable
proof
  show "link_good n c \<Longrightarrow> m \<le> n \<Longrightarrow> link_good m c" for n c m by (simp add: link_good_def weaken)
qed (rule reply_types link_flush link_set link_get link_mset link_mget; assumption)+

context server_link
begin

lemma stored_content:
  assumes "link_stored c = (\<lambda>k. if k \<in> K then Some p else None)"
  shows "content (server c) = (\<lambda>b. if b \<in> bytes_of ` K then Some (bytes_of p) else None)"
proof
  fix b
  have "map_option string_of (content (server c) b) = (if string_of b \<in> K then Some p else None)"
    using fun_cong [OF assms, of "string_of b"] by (simp add: link_stored_def)
  moreover have "string_of b \<in> K \<longleftrightarrow> b \<in> bytes_of ` K" by (metis bytes_of_string_of image_iff string_of_bytes_of)
  ultimately show "content (server c) b = (if b \<in> bytes_of ` K then Some (bytes_of p) else None)"
    by (auto split: if_splits)
qed

lemma ready_start: "inv n (server (b_client s)) \<Longrightarrow> zipf_ok s \<Longrightarrow> ready n (link_stored (b_client s)) s"
  by (simp add: ready_def link_good_def)

lemma ready_content:
  "ready n (\<lambda>k. if k \<in> K then Some p else None) s \<Longrightarrow> inv n (server (b_client s)) \<and>
    content (server (b_client s)) = (\<lambda>b. if b \<in> bytes_of ` K then Some (bytes_of p) else None)"
  using stored_content by (simp add: ready_def link_good_def)

text \<open>Workload C over the server.\<close>

lemma runYcsbC_content:
  assumes "redis benv = lib" "shuffles benv" "gives_key benv (keyCount opts) (zipfParameter opts) False False"
    and "run_ok opts data" "batches_ok opts" "keyCount opts < 2 ^ 32"
    and "\<forall>k \<in> set data. storable (bytes_of k) (bytes_of PAYLOAD)"
    and "inv (n + 2 * keyCount opts + 1) (server (b_client s))" "zipf_ok s"
  shows "\<exists>s1 keys. runYcsbC benv data opts s = Some (Inr (), s1) \<and> length keys = keyCount opts \<and>
    mset keys \<subseteq># mset data \<and> inv n (server (b_client s1)) \<and>
    content (server (b_client s1)) = (\<lambda>b. if b \<in> bytes_of ` set keys then Some (bytes_of PAYLOAD) else None)"
proof -
  have "\<forall>k \<in> set data. link_storable k PAYLOAD" using assms(7) by (simp add: link_storable_def)
  from runYcsbC_ready [OF assms(1-6) this ready_start [OF assms(8,9)]] show ?thesis
    unfolding returns_def using ready_content by fastforce
qed

lemma runSortedInsert_content:
  assumes "redis benv = lib" "run_ok opts data" "\<forall>k \<in> set data. storable (bytes_of (c_str k)) (bytes_of PAYLOAD)"
    and "inv (n + 2 * keyCount opts + 1) (server (b_client s))" "zipf_ok s"
  shows "\<exists>s1. runSortedInsert benv data opts doSort s = Some (Inr (), s1) \<and> inv n (server (b_client s1)) \<and>
    content (server (b_client s1)) =
      (\<lambda>b. if b \<in> bytes_of ` c_str ` set (take (keyCount opts) data) then Some (bytes_of PAYLOAD) else None)"
proof -
  have "\<forall>k \<in> set data. link_storable (c_str k) PAYLOAD" using assms(3) by (simp add: link_storable_def)
  from runSortedInsert_ready [OF assms(1,2) this ready_start [OF assms(4,5)]] show ?thesis
    unfolding returns_def using ready_content by fastforce
qed

end

subsection \<open>A connection without a network\<close>

text \<open>The connection is the state of the server, or of a server that has come to undefined behaviour. The
  commands with a format are the ones of the benchmark.\<close>

fun loop_reply :: "resp_value \<Rightarrow> redisReply" where
  "loop_reply (resp_integer_value v) = redisReply 3 v None []"
| "loop_reply (resp_simple_string_value p) = redisReply 5 0 p []"
| "loop_reply (resp_error_value p) = redisReply 6 0 p []"
| "loop_reply (resp_bulk_string_value p) = redisReply 1 0 p []"
| "loop_reply resp_null_bulk_string_value = redisReply 4 0 None []"
| "loop_reply (resp_array_value vs) = redisReply 2 0 None (map loop_reply vs)"

definition reply_code :: "RedisType \<Rightarrow> int" where
  "reply_code t = 1 + int (length (takeWhile (\<lambda>u. u \<noteq> t) allTypes))"

definition loop_command :: "'n environment \<Rightarrow> ('t, bytes list \<times> nat) kv_ops \<Rightarrow> string list \<Rightarrow> 't \<Rightarrow> redisReply option \<times> 't" where
  "loop_command env kv args t =
     (case commandReply env kv (map bulk args) t of None \<Rightarrow> (None, t) | Some (v, t1) \<Rightarrow> (Some (loop_reply v), t1))"

fun loop_format :: "string \<Rightarrow> format_arg list \<Rightarrow> string list" where
  "loop_format fmt [Fmt_string k, Fmt_string v] = (if fmt = ''SET %s %s'' then [''SET'', k, v] else [fmt])"
| "loop_format fmt [Fmt_string k] = (if fmt = ''GET %s'' then [''GET'', k] else [fmt])"
| "loop_format fmt _ = (if fmt = ''INFO MEMORY'' then [''INFO'', ''MEMORY''] else [fmt])"

definition loop_lib :: "'n environment \<Rightarrow> ('t, bytes list \<times> nat) kv_ops \<Rightarrow> 't hiredis" where
  "loop_lib env kv =
     \<lparr>REDIS_REPLY = reply_code, redisConnect = (\<lambda>_ _. None), ctx_err = (\<lambda>_. 0), ctx_errstr = (\<lambda>_. []),
      redisCommand = (\<lambda>fmt args. loop_command env kv (loop_format fmt args)),
      redisAppendCommand = (\<lambda>_ _ t. (0, t)), redisCommandArgv = loop_command env kv,
      redisAppendCommandArgv = (\<lambda>_ t. (0, t)), redisGetReply = (\<lambda>t. (0, None, t))\<rparr>"

lemma reply_code_inj: "inj reply_code"
proof (rule injI)
  fix t u :: RedisType
  assume "reply_code t = reply_code u"
  then show "t = u" by (cases t; cases u) (simp_all add: reply_code_def allTypes_def)
qed

lemma loop_link:
  assumes "lower_commands env"
  shows "hiredis_link (loop_lib env kv) env kv (\<lambda>t. t) loop_reply"
  by (unfold_locales, insert assms reply_code_inj)
    (simp_all add: loop_lib_def loop_command_def simple_string_def bulk_def bulk_string_def array_value_def
      reply_code_def allTypes_def)

lemma chunk_lower_commands: "lower_commands chunk_env"
  by (simp add: lower_commands_def chunk_env_def ascii_lower_def char_of_def bit_0)

interpretation shadow_link: server_link "loop_lib chunk_env shadow_kv" chunk_env shadow_kv "\<lambda>t. t" loop_reply
    "\<lambda>_ m. sorted_wrt (<) (map fst m)" map_of "\<lambda>_ _. True"
  by (rule server_link.intro [OF loop_link [OF chunk_lower_commands] shadow_store.kv_store_axioms])

end
