(* ===== verification/WorkloadSpec.thy ===== *)
theory WorkloadSpec
  imports ServerLink WorkloadKeys
begin

text \<open>
  What the benchmark does: the random indices of its operations, a workload that never comes to its
  end, key sets that formatted commands cut short, the order of escaped keys and the memory figure it
  reads from the server.
\<close>

subsection \<open>Random indices\<close>

text \<open>C36: when every array the generator fills has an index below the number of keys, the search for the
  next index ends, and with an index below the number of keys.\<close>

theorem zipf_next_spec:
  assumes "zipf_ok s" "gives_key env num_keys zp shuffle overGenerate"
    and "num_keys + (if overGenerate then ZIPF_GEN_SIZE div 10 else 0) < 2 ^ 32"
  shows "\<exists>x s1. zipf_next env num_keys zp shuffle overGenerate s = Some (Inr x, s1) \<and> x < num_keys \<and> zipf_ok s1 \<and>
    b_client s1 = b_client s"
  using returns_zipf_next [OF assms] by (auto simp: returns_def same_client_def)

definition plain_env :: "'c hiredis \<Rightarrow> ('c, unit, nat) bench_env" where
  "plain_env client =
     \<lparr>redis = client, zipf_sample = (\<lambda>n p r. (n, r)), uniform_sample = (\<lambda>n r. (n - 1, r)), positive = (\<lambda>p. 0 < p),
      hash_usize = (\<lambda>x. x), rng_gen = (\<lambda>bits r. (0, r)), bloom_check = (\<lambda>xs x. x \<in> set xs),
      random_permutation = (\<lambda>n r. ([0..<n], r)), uniform_between = (\<lambda>lo hi r. (lo, r)), clock = (\<lambda>r. (0, r)),
      show_duration = show_int, show_double = show_nat, env_var = (\<lambda>_. None), strtod_u64 = (\<lambda>_. 0),
      strtod = (\<lambda>_. 0), div_double = (\<lambda>n d. n), time_seed = 0, timestamp = [], program_name = ''ycsb2'',
      file_lines = (\<lambda>_. [])\<rparr>"

lemma plain_sampling: "sampling_ok (plain_env client)"
  by (simp add: sampling_ok_def plain_env_def)

lemma plain_shuffles: "shuffles (plain_env client)"
  by (simp add: shuffles_def plain_env_def)

lemma plain_gives_key: "0 < n \<Longrightarrow> n < 2 ^ 32 \<Longrightarrow> gives_key (plain_env client) n 0 shuffle False"
  by (rule gives_key_uniform [OF plain_sampling]) (simp_all add: plain_env_def)

lemma start_zipf_ok [simp]: "zipf_ok (bench_start c r t)"
  by (simp add: zipf_ok_def bench_start_def ZIPF_GEN_SIZE_def)

definition plain_start :: "(std_map, unit) bench" where
  "plain_start = bench_start [] () timer_new"

definition plain_bench :: "(std_map, unit, nat) bench_env" where
  "plain_bench = plain_env (loop_lib chunk_env shadow_kv)"

lemma plain_start_fields [simp]:
  "b_client plain_start = []" "zipf_ok plain_start" "op_index plain_start = OP_GEN_SIZE - 1"
  by (simp_all add: plain_start_def) (simp_all add: bench_start_def)

theorem zipf_next_spec_witness:
  "\<exists>x s1. zipf_next plain_bench 5 0 False False plain_start = Some (Inr x, s1) \<and> x < 5"
proof -
  have "gives_key plain_bench 5 0 False False" unfolding plain_bench_def by (rule plain_gives_key) simp_all
  from zipf_next_spec [OF _ this, of plain_start] show ?thesis by auto
qed

text \<open>With a Zipf parameter above 0 the samples begin at 1: over a single key the search does not end.\<close>

lemma zipf_single_round:
  assumes laws: "sampling_ok env" "positive env zp" and ok: "zipf_ok s"
    and ones: "z_generated s = 0 \<or> (\<forall>i < ZIPF_GEN_SIZE. z_array s ! i = 1)"
  obtains s1 where "zipf_round env 1 zp False False s = Some (Inr None, s1)" "zipf_ok s1"
    "\<forall>i < ZIPF_GEN_SIZE. z_array s1 ! i = 1"
proof (cases "1 \<le> z_generated s \<and> z_index s + 1 < ZIPF_GEN_SIZE")
  case True
  then have "u32 (z_index s + 1) = z_index s + 1" by (simp add: u32_def ZIPF_GEN_SIZE_def)
  moreover have "z_array s ! (z_index s + 1) = 1" using ones True by auto
  ultimately have round: "zipf_round env 1 zp False False s = Some (Inr None, s\<lparr>z_index := z_index s + 1\<rparr>)"
    using True by (simp add: zipf_round_def)
  show thesis by (rule that [OF round]) (use ok ones True in \<open>auto simp: zipf_ok_def\<close>)
next
  case False
  define xs where "xs = fst (zipf_generate env (u32 1) zp ZIPF_GEN_SIZE False (b_world s))"
  let ?s1 = "s\<lparr>z_generated := u32 1, z_array := xs,
    b_world := snd (zipf_generate env (u32 1) zp ZIPF_GEN_SIZE False (b_world s)), z_index := 0\<rparr>"
  have "z_index s < ZIPF_GEN_SIZE" using ok by (simp add: zipf_ok_def)
  then have i: "u32 ((if z_generated s < 1 then ZIPF_GEN_SIZE - 1 else z_index s) + 1) = ZIPF_GEN_SIZE"
    using False by (auto simp: u32_def ZIPF_GEN_SIZE_def)
  have len: "length xs = ZIPF_GEN_SIZE" by (simp add: xs_def)
  let ?f = "\<lambda>r. let (x, r1) = zipf_sample env 1 zp r in (u32 x, r1)"
  have "fst (?f r) = 1" for r
  proof -
    have "fst (zipf_sample env 1 zp r) = 1"
      using laws(1) unfolding sampling_ok_def by (metis dual_order.antisym zero_less_one)
    then show ?thesis by (simp add: split_def u32_def)
  qed
  then have all: "x = 1" if "x \<in> set (fst (samples ?f ZIPF_GEN_SIZE (b_world s)))" for x
    using samples_all [of "\<lambda>x. x = 1" ?f] that by blast
  have "u32 1 = 1" by (simp add: u32_def)
  then have "xs = fst (samples ?f ZIPF_GEN_SIZE (b_world s))" using laws(2) by (simp add: xs_def zipf_generate_def)
  with all len have ones: "\<forall>i < ZIPF_GEN_SIZE. xs ! i = 1" by (metis nth_mem)
  then have x0: "xs ! 0 = 1" by simp
  have round: "zipf_round env 1 zp False False s = Some (Inr None, ?s1)"
    using x0 unfolding zipf_round_def Let_def i xs_def by (simp add: split_def)
  show thesis by (rule that [OF round]) (use len ones in \<open>simp_all add: zipf_ok_def\<close>)
qed

theorem zipf_single_key_diverges:
  fixes env :: "('c, 'r, 'd) bench_env" and s :: "('c, 'r) bench"
  assumes "sampling_ok env" "positive env zp" "zipf_ok s" "z_generated s = 0"
  shows "zipf_next env 1 zp False False s = None"
proof -
  let ?I = "\<lambda>x s. x = None \<and> zipf_ok s \<and> (z_generated s = 0 \<or> (\<forall>i < ZIPF_GEN_SIZE. z_array s ! i = 1))"
  have "whileP (\<lambda>x. x = None) (\<lambda>_. zipf_round env 1 zp False False) None s = None"
  proof (rule whileP_diverges [where I = ?I])
    show "?I None s" using assms(3,4) by simp
    fix x :: "nat option" and s :: "('c, 'r) bench"
    assume I: "?I x s"
    then obtain s1 where "zipf_round env 1 zp False False s = Some (Inr None, s1)" "zipf_ok s1"
      "\<forall>i < ZIPF_GEN_SIZE. z_array s1 ! i = 1" using zipf_single_round [OF assms(1,2)] by metis
    with I show "x = None \<and> (\<forall>r s1. zipf_round env 1 zp False False s = Some (r, s1) \<longrightarrow> (\<exists>x1. r = Inr x1 \<and> ?I x1 s1))"
      by simp
  qed
  then show ?thesis by (simp add: zipf_next_def andThen_def)
qed

subsection \<open>Workload E\<close>

lemma rangeOperation_diverges: "rangeOperation env opts m n i s \<noteq> Some (Inr x, s1)"
proof
  assume "rangeOperation env opts m n i s = Some (Inr x, s1)"
  then obtain s2 where "whileP (\<lambda>_. True)
      (\<lambda>i. andThen (zipf_next env m (zipfParameter opts) True True) (\<lambda>k. pureP (if k < n then i else u32 (i + 1))))
      i s2 = Some (Inr x, s1)"
    by (auto simp: rangeOperation_def andThen_Inr)
  from whileP_partial [OF this, where I = "\<lambda>_ _. True"] show False by simp
qed

text \<open>The operations that are drawn after the array was filled: 65536 of them are inserts.\<close>

definition drawn_inserts :: "nat \<Rightarrow> ('c, 'r) bench \<Rightarrow> bool" where
  "drawn_inserts c s \<longleftrightarrow> (if c = 0 then op_index s = OP_GEN_SIZE - 1
     else op_index s = c - 1 \<and> c \<le> OP_GEN_SIZE \<and> (\<forall>i < c. op_array s ! i) \<and>
       mset (op_array s) = mset (map (\<lambda>i. i < OP_GEN_SIZE div 20) [0..<OP_GEN_SIZE]))"

lemma OP_GEN_SIZE_eq: "OP_GEN_SIZE = 1310720"
  by (simp add: OP_GEN_SIZE_def)

lemma drawn_inserts_le: "drawn_inserts c s \<Longrightarrow> c \<le> 65536"
proof -
  assume d: "drawn_inserts c s"
  show ?thesis
  proof (cases "c = 0")
    case False
    let ?xs = "map (\<lambda>i. i < OP_GEN_SIZE div 20) [0..<OP_GEN_SIZE]"
    have m: "mset (op_array s) = mset ?xs" and c: "c \<le> OP_GEN_SIZE" "\<forall>i < c. op_array s ! i"
      using d False by (simp_all add: drawn_inserts_def)
    then have len: "length (op_array s) = OP_GEN_SIZE" using mset_eq_length [OF m] by simp
    have "c = length (filter id (take c (op_array s)))"
      using c len by (subst filter_True) (auto simp: in_set_conv_nth)
    also have "\<dots> \<le> length (filter id (take c (op_array s) @ drop c (op_array s)))"
      by (simp only: filter_append length_append le_add1)
    also have "\<dots> = length (filter id (op_array s))" by (simp only: append_take_drop_id)
    also have "\<dots> = length (filter id ?xs)" using m by (metis mset_filter size_mset)
    also have "\<dots> = length (filter (\<lambda>i. i < OP_GEN_SIZE div 20) [0..<OP_GEN_SIZE])" by (simp add: filter_map comp_def)
    also have "\<dots> = length [0..<OP_GEN_SIZE div 20]"
    proof -
      have "[0..<OP_GEN_SIZE] = [0..<OP_GEN_SIZE div 20] @ [OP_GEN_SIZE div 20..<OP_GEN_SIZE]"
        using upt_add_eq_append [of 0 "OP_GEN_SIZE div 20" "OP_GEN_SIZE - OP_GEN_SIZE div 20"] by simp
      then show ?thesis by simp
    qed
    finally show ?thesis by (simp add: OP_GEN_SIZE_eq)
  qed simp
qed

lemma op_next_insert:
  assumes "shuffles env" "drawn_inserts c s" "op_next env s = Some (Inr True, s1)"
  shows "drawn_inserts (c + 1) s1"
proof (cases "c = 0")
  case True
  let ?xs = "map (\<lambda>i. i < OP_GEN_SIZE div 20) [0..<OP_GEN_SIZE]"
  let ?p = "fst (random_permutation env OP_GEN_SIZE (b_world s))"
  have "mset ?p = mset [0..<length ?xs]" using assms(1) by (simp add: shuffles_def)
  from mset_permuted [OF this] have m: "mset (map ((!) ?xs) ?p) = mset ?xs" .
  have "u32 (op_index s + 1) = OP_GEN_SIZE" using assms(2) True by (simp add: drawn_inserts_def u32_def OP_GEN_SIZE_eq)
  then have s1: "op_array s1 = map ((!) ?xs) ?p" "op_index s1 = 0" "op_array s1 ! 0"
    using assms(3) unfolding op_next_def Let_def by (auto simp: split_def)
  show ?thesis using m s1 True by (simp add: drawn_inserts_def OP_GEN_SIZE_eq del: mset_map)
next
  case False
  have c: "c \<le> 65536" by (rule drawn_inserts_le [OF assms(2)])
  have i: "u32 (op_index s + 1) = c" using assms(2) False c by (simp add: drawn_inserts_def u32_def)
  have "c \<noteq> OP_GEN_SIZE" using c by (simp add: OP_GEN_SIZE_eq)
  then have s1: "op_array s1 = op_array s" "op_index s1 = c" "op_array s ! c"
    using assms(3) False unfolding op_next_def Let_def i by auto
  show ?thesis using assms(2) s1 False c by (auto simp: drawn_inserts_def OP_GEN_SIZE_eq less_Suc_eq)
qed

lemma ycsbEStep_insert:
  assumes "shuffles env" "drawn_inserts c s" "ycsbEStep env opts data m (c, n, i) s = Some (Inr x, s1)"
  shows "fst x = c + 1 \<and> drawn_inserts (c + 1) s1"
proof -
  obtain isInsert s2 where s2: "op_next env s = Some (Inr isInsert, s2)"
    and rest: "(if isInsert
       then (if n = m then throwP (Abort ''exhausted keys for insertion'')
             else andThen (indexP data n) (\<lambda>key. andThen (setKey env key) (\<lambda>_.
               pureP (c + 1, u32 (n + 1), u32 (i + 1)))))
       else andThen (rangeOperation env opts m n i) (\<lambda>j. pureP (c + 1, n, u32 (j + 1)))) s2 = Some (Inr x, s1)"
    using assms(3) unfolding ycsbEStep_def prod.case andThen_Inr by blast
  have ins: "isInsert"
  proof (rule ccontr)
    assume "\<not> isInsert"
    with rest show False by (auto simp: andThen_Inr rangeOperation_diverges)
  qed
  with rest have "n \<noteq> m" by (auto simp: throwP_def)
  with rest ins have "andThen (indexP data n) (\<lambda>key. andThen (setKey env key) (\<lambda>_.
      pureP (c + 1, u32 (n + 1), u32 (i + 1)))) s2 = Some (Inr x, s1)" by simp
  then obtain key s3 where s3: "andThen (setKey env key) (\<lambda>_. pureP (c + 1, u32 (n + 1), u32 (i + 1))) s3 = Some (Inr x, s1)"
    "op_array s3 = op_array s2" "op_index s3 = op_index s2"
    by (rule keeps_bind) (simp add: keeps)
  then obtain s4 where s4: "pureP (c + 1, u32 (n + 1), u32 (i + 1)) s4 = Some (Inr x, s1)"
    "op_array s4 = op_array s3" "op_index s4 = op_index s3"
    using keeps_bind [OF s3(1) keeps_ops_client(3)] by metis
  have "op_array s1 = op_array s2" "op_index s1 = op_index s2" "fst x = c + 1"
    using s3 s4 by (auto simp: pureP_def)
  moreover have "drawn_inserts (c + 1) s2" using op_next_insert [OF assms(1,2)] s2 ins by simp
  ultimately show ?thesis by (simp add: drawn_inserts_def)
qed

text \<open>Workload E up to its measured loop leaves the array of operations alone.\<close>

definition ycsbE_init :: "('c, 'r, 'd) bench_env \<Rightarrow> 'd options \<Rightarrow> string list \<Rightarrow> nat \<Rightarrow> (string list, ('c, 'r) bench) prog" where
  "ycsbE_init env opts data1 initialKeyCount =
     andThen (if dryRun opts then pureP data1 else shuffleP env data1) (\<lambda>data.
     andThen (whenP (0 < length data) (andThen (shuffleP env [0..<length data]) (\<lambda>_. pureP ()))) (\<lambda>_.
     andThen (flushAll env) (\<lambda>_.
     andThen (setTimerParam ''op'' ''ycsb_e_init'') (\<lambda>_.
     andThen (timerBlock env (whenP (\<not> dryRun opts) (insertKeys env data 0 initialKeyCount))) (\<lambda>_.
     andThen (setTimerParam ''op'' ''ycsb_e'') (\<lambda>_. andThen (startBlock env) (\<lambda>_. pureP data)))))))"

lemma keeps_ops_ycsbE_init: "keeps_ops (ycsbE_init env opts data n)"
  by (auto simp: ycsbE_init_def intro!: keeps)

lemma runYcsbE_init:
  "runYcsbE env data0 opts0 =
     andThen (prepareInserts opts0 data0) (\<lambda>(opts, data1, n, m).
     andThen (ycsbE_init env opts data1 n) (\<lambda>data.
     andThen (whenP (\<not> dryRun opts) (andThen (whileP (\<lambda>(completedOps, _). completedOps < opCount opts)
         (ycsbEStep env opts data m) (0, n, 0)) (\<lambda>_. pureP ()))) (\<lambda>_. endBlock env)))"
  by (simp add: runYcsbE_def ycsbE_init_def andThen_assoc timerBlock_def split_def)

text \<open>C37: workload E does not come to its end. Its range operations are loops without an exit, and at most
  65536 of the operations it draws are inserts: a run with more operations, on options and keys that
  pass its checks, never returns, whatever the server does.\<close>

theorem ycsbE_never_completes:
  fixes env :: "('c, 'r, 'd) bench_env" and s :: "('c, 'r) bench"
  assumes "shuffles env" "op_index s = OP_GEN_SIZE - 1"
    and "\<not> dryRun opts" "65536 < opCount opts" "keySizeAcceptable (u32 (payloadSize opts)) data"
    and "keyCount opts < 2 ^ 31" "opCount opts < 2 ^ 31" "length data < 2 ^ 32"
    and "opCount opts div 40 < keyCount opts"
    and "keyCount opts - opCount opts div 40 + opCount opts div 20 * 2 \<le> length data"
  shows "runYcsbE env data opts s \<noteq> Some (Inr (), s1)"
proof
  let ?n = "keyCount opts - opCount opts div 40" and ?m = "keyCount opts - opCount opts div 40 + opCount opts div 20 * 2"
  let ?loop = "\<lambda>d. andThen (whileP (\<lambda>(completedOps, _). completedOps < opCount opts) (ycsbEStep env opts d ?m) (0, ?n, 0)) (\<lambda>_. pureP ())"
  assume run: "runYcsbE env data opts s = Some (Inr (), s1)"
  have prep: "prepareInserts opts data s = Some (Inr (opts, data, ?n, ?m), s)"
    using assms(5-10)
    by (simp add: prepareInserts_def computeInitialKeyCount_def u32_def Let_def andThen_def pureP_def)
  have "andThen (ycsbE_init env opts data ?n) (\<lambda>d. andThen (whenP (\<not> dryRun opts) (?loop d)) (\<lambda>_. endBlock env)) s = Some (Inr (), s1)"
    using run unfolding runYcsbE_init andThen_Inr [of "prepareInserts opts data"] prep by auto
  then obtain d s8 where "andThen (whenP (\<not> dryRun opts) (?loop d)) (\<lambda>_. endBlock env) s8 = Some (Inr (), s1)"
    and "op_index s8 = op_index s"
    using keeps_ops_ycsbE_init by (rule keeps_bind)
  then obtain s9 where loop: "?loop d s8 = Some (Inr (), s9)" and "drawn_inserts 0 s8"
    using assms(2,3) by (auto simp: andThen_Inr whenP_def drawn_inserts_def)
  moreover obtain x where "whileP (\<lambda>(completedOps, _). completedOps < opCount opts) (ycsbEStep env opts d ?m) (0, ?n, 0) s8 =
      Some (Inr x, s9)"
    using loop by (auto simp: andThen_Inr pureP_def)
  ultimately have "drawn_inserts (fst x) s9 \<and> \<not> (case x of (completedOps, _) \<Rightarrow> completedOps < opCount opts)"
    using ycsbEStep_insert [OF assms(1)]
    by (intro whileP_partial [where I = "\<lambda>x. drawn_inserts (fst x)"]) (auto, metis fst_conv)
  with drawn_inserts_le [of "fst x" s9] assms(4) show False by (cases x) simp
qed

lemma maxKVSize_eq: "BTreeNode_maxKVSize = 1326"
  by (simp add: BTreeNode_maxKVSize_def maxKVSize_def config_defs)

definition plain_opts :: "nat options" where
  "plain_opts = \<lparr>dryRun = False, keyCount = 1639, keyBatchCount = 1, payloadSize = 7, opCount = 65537,
     opBatchCount = 1, zipfParameter = 0, maxScanLength = 1\<rparr>"

theorem ycsbE_never_completes_witness:
  "\<forall>s1. runYcsbE plain_bench (replicate 6553 ''k'') plain_opts plain_start \<noteq> Some (Inr (), s1)"
proof
  fix s1
  have "keySizeAcceptable (u32 (payloadSize plain_opts)) (replicate 6553 ''k'')"
    by (simp add: keySizeAcceptable_def list_all_iff plain_opts_def u32_def maxKVSize_eq)
  then show "runYcsbE plain_bench (replicate 6553 ''k'') plain_opts plain_start \<noteq> Some (Inr (), s1)"
    by (rule ycsbE_never_completes [OF plain_shuffles [of "loop_lib chunk_env shadow_kv", folded plain_bench_def], rotated 3])
      (simp_all add: plain_opts_def)
qed

subsection \<open>Random keys\<close>

text \<open>A Bloom filter has no false negatives: the random keys are as many as asked for, and distinct.\<close>

lemma fresh_candidate_unknown:
  assumes "fresh_candidate env bits known r = Some (Inr x, r1)"
  shows "\<exists>v. x = Some v \<and> \<not> bloom_check env known v"
proof -
  have "(\<forall>v. x = Some v \<longrightarrow> \<not> bloom_check env known v) \<and> \<not> x = None"
    by (rule whileP_partial [OF assms [unfolded fresh_candidate_def], where I = "\<lambda>x _. \<forall>v. x = Some v \<longrightarrow> \<not> bloom_check env known v"])
      (auto split: prod.splits if_splits)
  then show ?thesis by blast
qed

lemma generate_rng_distinct:
  assumes filter: "\<And>xs x. x \<in> set xs \<Longrightarrow> bloom_check env xs x"
  shows "generate_rng env bits n known r = Some (Inr keys, r1) \<Longrightarrow> distinct known \<Longrightarrow>
    distinct keys \<and> length keys = length known + n"
proof (induction n arbitrary: known r)
  case 0
  then show ?case by (simp add: pureP_def)
next
  case (Suc n)
  then obtain x r2 where x: "fresh_candidate env bits known r = Some (Inr x, r2)"
    "generate_rng env bits n (known @ [the x]) r2 = Some (Inr keys, r1)"
    by (auto simp: andThen_Inr)
  obtain v where "x = Some v" "\<not> bloom_check env known v" using fresh_candidate_unknown [OF x(1)] by blast
  with Suc.IH [OF x(2)] Suc.prems(2) filter show ?case by auto
qed

subsection \<open>Formatted commands\<close>

text \<open>C38: the sorted insert sends its keys with a \<open>%s\<close>. The integer keys below 2 to the 24 begin with a zero
  byte, so every one of them reaches the server as the empty key: whatever their number, the server
  ends with a single entry.\<close>

theorem sorted_insert_int_keys:
  assumes "server_link (redis env) senv kv server reply good content storable"
    and "\<not> dryRun opts" "0 < keyCount opts" "keyCount opts \<le> n" "n \<le> 2 ^ 24" "payloadSize opts \<le> 1000"
    and "storable [] (bytes_of PAYLOAD)" "good (m + 2 * keyCount opts + 1) (server (b_client s))" "zipf_ok s"
  shows "\<exists>s1. runSortedInsert env (map int_to_key [0..<n]) opts doSort s = Some (Inr (), s1) \<and>
    content (server (b_client s1)) = [[] \<mapsto> bytes_of PAYLOAD]"
proof -
  let ?data = "map int_to_key [0..<n]"
  have empty: "c_str k = []" if "k \<in> set ?data" for k using that assms(5) c_str_int_to_key by auto
  have "length k = 4" if "k \<in> set ?data" for k using that by (auto simp: int_to_key_def)
  then have "run_ok opts ?data"
    using assms(2,4,6) by (simp add: run_ok_def keySizeAcceptable_def list_all_iff maxKVSize_eq u32_def)
  moreover have "\<forall>k \<in> set ?data. storable (bytes_of (c_str k)) (bytes_of PAYLOAD)" using empty assms(7) by simp
  ultimately obtain s1 where s1: "runSortedInsert env ?data opts doSort s = Some (Inr (), s1)"
    "content (server (b_client s1)) = (\<lambda>b. if b \<in> bytes_of ` c_str ` set (take (keyCount opts) ?data)
      then Some (bytes_of PAYLOAD) else None)"
    using server_link.runSortedInsert_content [OF assms(1) refl _ _ assms(8,9)] by metis
  let ?keys = "set (take (keyCount opts) ?data)"
  have "?keys \<subseteq> set ?data" by (rule set_take_subset)
  then have "c_str ` ?keys = (\<lambda>_. []) ` ?keys" using empty by (intro image_cong) auto
  moreover have "?keys \<noteq> {}" using assms(3,4) by simp
  ultimately have "c_str ` ?keys = {[]}" by (simp only: image_constant_conv if_False)
  with s1 show ?thesis by (auto simp: fun_eq_iff)
qed

theorem sorted_insert_int_keys_witness:
  "\<exists>s1. runSortedInsert plain_bench (map int_to_key [0..<5000]) plain_opts True plain_start = Some (Inr (), s1) \<and>
     map_of (b_client s1) = [[] \<mapsto> bytes_of PAYLOAD]"
proof -
  have "server_link (redis plain_bench) chunk_env shadow_kv (\<lambda>t. t) loop_reply (\<lambda>_ m. sorted_wrt (<) (map fst m)) map_of (\<lambda>_ _. True)"
    using shadow_link.server_link_axioms by (simp add: plain_bench_def plain_env_def)
  then show ?thesis
    by (rule sorted_insert_int_keys) (simp_all add: plain_opts_def)
qed

subsection \<open>The memory figure\<close>

text \<open>C40: the memory benchmark finds in the server's answer to \<open>INFO MEMORY\<close> the decimal form of the memory
  the tree reports, and records it as the parameter \<open>mem\<close> of its timer.\<close>

theorem measureMemory_spec:
  assumes "hiredis_link (redis env) senv kv server reply" "api_getMemory kv (server (b_client s)) = Some m"
  shows "\<exists>s1. measureMemory env s = Some (Inr (), s1) \<and> map_of (t_params (b_timer s1)) ''mem'' = Some (show_nat m) \<and>
    server (b_client s1) = server (b_client s)"
  by (rule hiredis_link.measureMemory_link [OF assms(1) refl assms(2)])

theorem measureMemory_spec_witness:
  "\<exists>s1. measureMemory plain_bench plain_start = Some (Inr (), s1) \<and> map_of (t_params (b_timer s1)) ''mem'' = Some ''0''"
proof -
  have l: "hiredis_link (redis plain_bench) chunk_env shadow_kv (\<lambda>t. t) loop_reply"
    using loop_link [OF chunk_lower_commands] by (simp add: plain_bench_def plain_env_def)
  have "api_getMemory shadow_kv (b_client plain_start) = Some 0" by (simp add: api_getMemory_def shadow_kv_def)
  moreover have "show_nat 0 = ''0''" by (simp add: show_nat.simps digit_char_def char_of_def bit_0 bit_Suc)
  ultimately show ?thesis using measureMemory_spec [OF l, of plain_start 0] by auto
qed

end
