(* ===== verification/Spec2Isabelle.thy ===== *)
theory Spec2Isabelle
  imports TreeApi ArgParsing HashNodeSpec DenseNodeSpec InnerNodeSpec WorkloadSpec
begin

text \<open>
  \<^bold>\<open>The program.\<close> A key-value server that speaks the Redis protocol over an in-memory B+ tree.
  \<open>src/libbtree\<close> is the tree: pages of 4096 bytes that are one of several node types behind the union
  \<open>AnyNode\<close>, an object \<open>BTree\<close> with point operations, ascending and descending range lookups, splits
  and merges, and \<open>DataStructureWrapper\<close>, which can run a \<open>std::map\<close> beside the tree and compare.
  \<open>src/redis_server\<close> reads commands from a TCP connection, runs them on one tree and writes the replies;
  \<open>src/redis_client\<close> wraps \<open>hiredis\<close>; the benchmark \<open>src/benchmarking/ycsb2\<close> drives the server through it. The
  server calls the operations of \<open>BTree\<close> directly, without the checks of the wrapper.

  \<^bold>\<open>Conventions.\<close> A key or payload is a list of 8-bit words in lexicographic order. A page is a record
  with the header fields of its type, the slot array as a function of the index and the bytes of the page
  as a function of the offset (\<open>load\<close> and \<open>store\<close> are \<open>memcpy\<close>); 16 and 32-bit header arithmetic wraps
  (\<open>add16\<close>, \<open>sub16\<close>, \<open>u32\<close>). Slot array and bytes are separate components: the lemmas show that the
  code never lets them meet, they do not describe what would happen if it did. The tree's memory is a map
  from addresses to pages. \<open>None\<close> in an operation of the tree is a call of \<open>abort()\<close>, a failed
  assertion the following code relies on, or an access through a dangling pointer. A range lookup counts how far it
  writes into the key buffer of its caller (\<open>watch\<close>, \<open>range_lookupBuffer\<close>): \<open>range_lookupImpl\<close> is the scan with a
  buffer that is long enough, \<open>range_lookupInto\<close>, which the server calls, has the size of the buffer and no result
  when a write passes its end. Signed 64-bit arithmetic
  in the commands (\<open>int64_add\<close>, \<open>int64_mul\<close>, \<open>int64_neg\<close>: increments and the parser of integer arguments) has no result
  when it overflows. The one exception is the reader of RESP integers (\<open>readIntegerLoop\<close>), which gives numbers
  out of range, and the intermediate value of the least 64-bit number, the value the machine wraps to; the code
  does not promise it, there too overflow is undefined (see the findings). An \<open>ASSUME\<close>
  that the invariants imply wherever the operation is used (room in \<open>HeadNode::insertAt\<close>, two separators in
  \<open>HeadNode::findSeparator\<close>, capacity in \<open>HashNode::estimateCapacity\<close>) is not a branch of the definition. Loops whose end is not
  structural are \<open>function\<close>s with a measure; descents of the tree are \<open>partial_function (option)\<close>, so
  that not returning is \<open>None\<close> too and every theorem that says \<open>Some\<close> is a termination theorem.

  \<^bold>\<open>The theories.\<close>
  \<^item> \<open>Prelude\<close>: bytes, page memory, \<open>memcmp\<close>, C arithmetic, lower bounds, and the locale
    \<open>halving_search\<close> of the binary search every node type has. \<open>Text\<close>: strings and decimal numbers.
  \<^item> \<open>Config\<close>: \<open>config.hpp\<close> and the shared parts of \<open>btree2020.hpp\<close>: switches, \<open>head\<close>, node tags, the
    operation counter of the adaptive configuration. \<open>default_config\<close> is the configuration of
    \<open>config.hpp\<close>; \<open>hints_config\<close> is the named one without dense, hash and head nodes, \<open>inner_config\<close> the
    named one that adds head nodes to it.
  \<^item> \<open>LeafMap\<close>: the locale \<open>leaf_map\<close>, what a leaf owes the tree, and \<open>scan\<close>, the reference of all range
    lookups. The basic leaf, the hash leaf, the dense leaf and the leaf of the default configuration, which
    changes between basic and dense, are its interpretations.
  \<^item> \<open>BasicNode\<close>: the slotted page \<open>BTreeNode\<close> of \<open>btree2020.cpp\<close>. \<open>BasicNodeProps\<close>, \<open>BasicNodeOps\<close>,
    \<open>BasicNodePages\<close>, \<open>BasicNodeSep\<close>, \<open>BasicNodeMap\<close>, \<open>BasicNodeSpec\<close>: layout invariant, list of entries,
    search by head and hints, insert, remove, compaction, split, merge, separators, range lookups.
  \<^item> \<open>HashNode\<close>: the hash leaf of \<open>hash.cpp\<close>. \<open>HashNodeProps\<close> (the vectorised search), \<open>HashNodeMap\<close> and
    \<open>HashNodeMapOps\<close> (invariant, the leaf as a map), \<open>HashNodeSort\<close> (sort, conversion to a basic leaf),
    \<open>HashNodeSpec\<close> (its properties).
  \<^item> \<open>DenseNode\<close>: the dense leaves of \<open>dense.cpp\<close>, of types 1 and 2. For type 1, which the default
    configuration uses: \<open>DenseNodeKeys\<close> (numeric parts of keys), \<open>DenseNodeMap\<close> and \<open>DenseNodeMapOps\<close>
    (invariant, the leaf as a map), \<open>DenseNodeScan\<close> (range lookup), \<open>DenseNodeConvert\<close> and
    \<open>DenseNodeSplit\<close> (conversion from and to a basic leaf, split), \<open>DenseNodeLeaf\<close> (the leaf of the default
    configuration), \<open>DenseNodeSpec\<close> (its properties).
  \<^item> \<open>HeadNode\<close>: the inner nodes of short separators (\<open>head.hpp\<close>). \<open>HeadNodeKeys\<close> (a separator packed with
    its length into 4 or 8 bytes keeps the order of the keys), \<open>HeadNodeProps\<close> (invariant, search with
    hints), \<open>HeadNodeOps\<close> (insert, remove, separator, split), \<open>HeadNodeConvert\<close> (conversions between the two
    widths and to and from a basic page). \<open>AnyNode\<close>: the union and its dispatch (\<open>anynode.cpp\<close>), the page
    store.
  \<^item> \<open>InnerNode\<close>: the locale \<open>inner_page\<close>, what an inner page owes the tree: separators and children as
    lists, a lookup that routes by the separators, insert and remove of a separator with its child. The
    locale \<open>head_type\<close> of the head nodes is a \<open>sublocale\<close> of it, the basic inner page an interpretation.
    \<open>InnerPages\<close>: the same contract for the node union, over all three page types, and the request for
    space that converts a page when a separator does not fit its type. \<open>InnerNodeSpec\<close>: the properties of
    inner pages that stand on their own.
  \<^item> \<open>BTree\<close>: the tree object and its operations, for every configuration.
  \<^item> \<open>KvApi\<close>: the server's operations (\<open>api_impl.cpp\<close>) over the locale \<open>kv_store\<close>, the contract of the
    tree. \<open>Wrapper\<close>: the shadow map. \<open>TreeShape\<close>, \<open>TreeHeap\<close>, \<open>TreeLookup\<close>, \<open>TreeSplit\<close>, \<open>TreeInsert\<close>,
    \<open>TreeRemove\<close>, \<open>TreeSpec\<close>: the tree keeps that contract. \<open>TreeApi\<close>: increment, \<open>ZRANGE\<close> and the checks of the
    wrapper over the tree.
  \<^item> \<open>RespTypes\<close>, \<open>RespConnection\<close>, \<open>RespRoundtrip\<close>, \<open>ArgParsing\<close>: values, serializer, deserializer and
    connection of the server, integer arguments. \<open>RespApi\<close> and \<open>RespApiSpec\<close>: the command handlers, the
    command loop and what they promise. \<open>Client\<close>: the client.
  \<^item> \<open>PerfTimer\<close>, \<open>Ycsb\<close>, \<open>Workloads\<close>, \<open>YcsbMain\<close>: the benchmark, its timer, random indices, workloads, key sets
    and \<open>main\<close>, with the generators of \<open>src/zipfc\<close>. \<open>WorkloadLoops\<close>: rules for its loops, what returns and what
    does not. \<open>CacheLink\<close>: the locale \<open>cache\<close>, what the workloads need of a server, and the workloads over it.
    \<open>ServerLink\<close>: the locale \<open>hiredis_link\<close>, what a connection of \<open>hiredis\<close> does, and \<open>server_link\<close>, such a
    connection to this server over a tree with the contract \<open>kv_store\<close>: a \<open>sublocale\<close> of \<open>cache\<close>.
    \<open>WorkloadKeys\<close> and \<open>WorkloadSpec\<close>: keys as byte strings, the memory figure, the properties.

  \<^bold>\<open>What is proved.\<close> Pages: a layout invariant every operation keeps, and each operation as an operation
  on the list of entries, errors and full pages included. Inner pages: whatever their type, and across
  conversions, they hold the same separators and children. Tree: \<open>represents\<close> ties object and memory to a
  tree value with ordered separators, disjoint pages and equal leaf depth; every operation of the tree
  returns, keeps the value well formed and has the effect of the map operation on its content. Server:
  reader and writer are inverse for every fragmentation of the input; the command loop over any store
  with the contract computes the fold of the commands; with the tree put in, lookups after any sequence of
  \<open>SET\<close> and \<open>DEL\<close> give what the sequence says (\<open>server_on_btree\<close>). Benchmark: workload C over client, server
  and tree comes to its end and reads what it wrote (\<open>ycsb_c_on_btree\<close>). Other theorems state where the code
  does not do what it means to: \<open>EXISTS\<close> deletes, a missing key in \<open>MGET\<close> is undefined behaviour, the
  checked descending scan fails beyond the last key, the space counter of the hash leaf drifts, a dense
  leaf splits at a separator outside its fences when its array wraps around or the new key has another
  length, and its range lookup reads past the presence mask; a range operation of workload E never
  ends, and keys with zero bytes are cut short by the commands with a format.

  \<^bold>\<open>Bounds.\<close> The tree theorems are for entries of at most \<open>maxEntry = 128\<close> bytes, key and payload
  together. The library allows \<open>maxKVSize = 1326\<close>, but a full leaf may then hold three entries and a split
  leaves both halves of a two-entry leaf as they were or overflows one; 128 bytes guarantee 27 entries in a
  full page and a separator in the middle window. The address space is 64 bits; \<open>credit\<close> counts what
  allocations can still be paid for, every update costs at most 26 units, and a new tree takes at least
  2 to the 49 updates. An insert into a leaf can convert it from dense to basic and back to dense, so fuel 3
  covers the longest exchange in \<open>BTreeNode_insert\<close> and \<open>DenseNode_insert\<close>. \<open>heightBound\<close> bounds the depth of the recursions on the
  whole tree by the number of pages. The fuel of the reader is one unit for each nested value and array
  element, the fuel of the command loop one for each command.

  \<^bold>\<open>Configurations.\<close> The tree theorems assume \<open>basicLeaves\<close>: leaves are \<open>BTreeNode\<close>s, and inner pages are
  \<open>BTreeNode\<close>s or, where the configuration enables them, head nodes of either width, as in \<open>hints.hpp\<close> and
  \<open>inner.hpp\<close>. They are false for the default configuration: the dense leaves it adds have faults that
  reach the operations of the tree (a split point computed from an uninitialised variable, a size check
  with the wrong length on conversion; see the findings of the manifest). The hash leaf has its contract
  proved as a leaf for payloads of one length, which is the condition its space accounting needs.

  \<^bold>\<open>Not modelled.\<close> Output for debugging, scripts and the older copy of the library with third-party structures
  under \<open>src/original_paper_benchmark\<close>; the socket library, \<open>hiredis\<close>, the hash function, the CRC
  instructions, random number generators and clocks are parameters with their documented laws where a
  theorem needs them. The workloads other than C, E and the sorted insert have a model and no theorem of
  their own.
  Concurrency does not occur: the server handles one connection after the other in one thread.
\<close>

subsection \<open>The server over the tree\<close>

text \<open>C2: a server whose tree has \<open>basicLeaves\<close> (as in \<open>hints.hpp\<close> and \<open>inner.hpp\<close>; not the default
  configuration, whose dense leaves have faults), over a new tree. It receives any sequence of at most 2 to the 49
  \<open>SET\<close> and \<open>DEL\<close> commands with entries of at most 128 bytes, key and value together (a key of \<open>DEL\<close>: at most 2
  to the 32), in whatever pieces the network delivers the bytes, and then the end of the connection. No
  write to the socket fails, memory for strings of up to 2 to the 32 bytes can be reserved, and \<open>to_lower_copy\<close> keeps the
  names \<open>set\<close> and \<open>del\<close>. Then the command loop serves them all, ends without error, and a lookup in the tree
  finds exactly what the sequence gives.\<close>

theorem server_on_btree:
  assumes "basicLeaves cfg" "byte_network env pending"
    and "lower_ok env" "\<forall>i \<le> 2 ^ 32. reserve_ok env i" "\<forall>s n. fst (asio_write env s n) = None"
    and ops: "length ops \<le> 2 ^ 49" "\<forall>op \<in> set ops. op_ok smallEntry op \<and> length (op_key op) \<le> 2 ^ 32"
    and input: "pending n = concat (map (\<lambda>op. the (writeValue (resp_array_value (op_command op)))) ops)"
  shows "\<exists>t0 t1. BTree_new cfg emptyHeap = Some t0 \<and>
    run (Suc (length ops)) 5 env (processCommand env (btree_kv cfg henv)) t0
      \<lparr>readBuf = [], writeBuf = [], socket = n\<rparr> = (None, t1) \<and>
    (\<forall>key. lookupImpl cfg henv key t1 = Some (fold content_op ops Map.empty key, t1))"
proof -
  have c: "\<not> enableHash cfg" "\<not> enableAdaptOp cfg" using assms(1) by (simp_all add: basicLeaves_def)
  have "26 * (0 + 2 * length ops) \<le> 2 ^ 55" using ops(1) by simp
  then obtain t0 where t0: "BTree_new cfg emptyHeap = Some t0" "treeGood (enableHeadNode cfg) (0 + 2 * length ops) t0"
    "btreeContent t0 = Map.empty" by (rule btree_new [OF c(1)])
  have sizes: "\<forall>op \<in> set ops. op_ok smallEntry op \<and> length (op_key op) \<le> 2 ^ 32 \<and>
      (\<forall>k v. op = Put k v \<longrightarrow> length v \<le> 2 ^ 32)"
    using ops(2) by (auto simp: smallEntry_def maxEntry_def)
  from server_map [OF assms(2) btree_store [OF assms(1) refl, of henv] t0(2) assms(3-5) sizes input] t0(3)
  obtain t1 where t1: "run (Suc (length ops)) 5 env (processCommand env (btree_kv cfg henv)) t0
      \<lparr>readBuf = [], writeBuf = [], socket = n\<rparr> = (None, t1)" "treeGood (enableHeadNode cfg) 0 t1"
    "btreeContent t1 = fold content_op ops Map.empty" by auto
  with t0(1) btree_lookup [OF c(2) t1(2)] show ?thesis by auto
qed

theorem server_on_btree_witness:
  "\<forall>henv. \<exists>t0 t1. BTree_new inner_config emptyHeap = Some t0 \<and>
     run 3 5 chunk_env (processCommand chunk_env (btree_kv inner_config henv)) t0
     \<lparr>readBuf = [], writeBuf = [],
       socket = [the (writeValue (resp_array_value (set_command ''a'' ''1''))),
         the (writeValue (resp_array_value (del_command ''a'')))]\<rparr> = (None, t1) \<and>
     lookupImpl inner_config henv (bytes_of ''a'') t1 = Some (None, t1)"
proof
  fix henv
  let ?ops = "[Put (bytes_of ''a'') (bytes_of ''1''), Del (bytes_of ''a'')]"
  let ?n = "[the (writeValue (resp_array_value (set_command ''a'' ''1''))),
         the (writeValue (resp_array_value (del_command ''a'')))]"
  have "lower_ok chunk_env" "\<forall>i \<le> 2 ^ 32. reserve_ok chunk_env i"
    "\<forall>s n. fst (asio_write chunk_env s n) = None"
    "length ?ops \<le> 2 ^ 49" "\<forall>op \<in> set ?ops. op_ok smallEntry op \<and> length (op_key op) \<le> 2 ^ 32"
    by (simp_all add: lower_ok_def chunk_env_def ascii_lower_def smallEntry_def maxEntry_def)
  moreover have "op_command (Put (bytes_of ''a'') (bytes_of ''1'')) = set_command ''a'' ''1''"
    "op_command (Del (bytes_of ''a'')) = del_command ''a''"
    by (simp_all add: op_command_def)
  then have "concat ?n = concat (map (\<lambda>op. the (writeValue (resp_array_value (op_command op)))) ?ops)"
    by (simp only: list.map)
  ultimately have "\<exists>t0 t1. BTree_new inner_config emptyHeap = Some t0 \<and>
    run (Suc (length ?ops)) 5 chunk_env (processCommand chunk_env (btree_kv inner_config henv)) t0
      \<lparr>readBuf = [], writeBuf = [], socket = ?n\<rparr> = (None, t1) \<and>
    (\<forall>key. lookupImpl inner_config henv key t1 = Some (fold content_op ?ops Map.empty key, t1))"
    by (intro server_on_btree [OF inner_basicLeaves chunk_net.byte_network_axioms])
  then show "\<exists>t0 t1. BTree_new inner_config emptyHeap = Some t0 \<and>
     run 3 5 chunk_env (processCommand chunk_env (btree_kv inner_config henv)) t0
     \<lparr>readBuf = [], writeBuf = [], socket = ?n\<rparr> = (None, t1) \<and>
     lookupImpl inner_config henv (bytes_of ''a'') t1 = Some (None, t1)"
    by (auto simp: numeral_3_eq_3 simp del: run.simps)
qed

subsection \<open>The benchmark, the server and the tree\<close>

interpretation btree_link: server_link "loop_lib chunk_env (btree_kv inner_config henv)" chunk_env
    "btree_kv inner_config henv" "\<lambda>t. t" loop_reply "treeGood True" btreeContent smallEntry for henv
  by (rule server_link.intro [OF loop_link [OF chunk_lower_commands] inner_store.kv_store_axioms])

text \<open>C10: workload C of the benchmark over client, server and a new tree with \<open>basicLeaves\<close> (not the default
  configuration) comes to its end without error, so every key it reads back has the payload it stored, and
  the tree then holds exactly the keys that were chosen, each with the payload. Assumed: keys of at most 121 bytes,
  enough keys for the key count and no dry run (\<open>run_ok\<close>), a key count below 2 to the 32, batch sizes above 0
  and counts without overflow (\<open>batches_ok\<close>); the permutation is one (\<open>shuffles\<close>) and each array of Zipf samples
  has an index below the key count (\<open>gives_key\<close>); \<open>hiredis\<close> delivers commands and replies (\<open>hiredis_link\<close>:
  every command gets the server's reply, with the reply types and formats the client uses), and the static
  array of samples is in a consistent state (\<open>zipf_ok\<close>).\<close>

theorem ycsb_c_on_btree:
  fixes env :: "('c, 'r, 'd) bench_env" and s :: "('c, 'r) bench"
  assumes "basicLeaves cfg" "hiredis_link (redis env) senv (btree_kv cfg henv) server reply"
    and "shuffles env" "gives_key env (keyCount opts) (zipfParameter opts) False False"
    and "run_ok opts data" "batches_ok opts" "keyCount opts < 2 ^ 32" "\<forall>k \<in> set data. length k \<le> 121"
    and "BTree_new cfg emptyHeap = Some (server (b_client s))" "zipf_ok s"
  shows "\<exists>s1 keys. runYcsbC env data opts s = Some (Inr (), s1) \<and> length keys = keyCount opts \<and>
    mset keys \<subseteq># mset data \<and> (\<forall>k. lookupImpl cfg henv k (server (b_client s1)) =
      Some (if k \<in> bytes_of ` set keys then Some (bytes_of PAYLOAD) else None, server (b_client s1)))"
proof -
  have c: "\<not> enableHash cfg" "\<not> enableAdaptOp cfg" using assms(1) by (simp_all add: basicLeaves_def)
  have "26 * (0 + 2 * keyCount opts + 1) \<le> 2 ^ 55" using assms(7) by simp
  then obtain t where "BTree_new cfg emptyHeap = Some t" "treeGood (enableHeadNode cfg) (0 + 2 * keyCount opts + 1) t"
    by (rule btree_new [OF c(1)])
  with assms(9) have start: "treeGood (enableHeadNode cfg) (0 + 2 * keyCount opts + 1) (server (b_client s))" by simp
  have "\<forall>k \<in> set data. smallEntry (bytes_of k) (bytes_of PAYLOAD)"
    using assms(8) by (auto simp: smallEntry_def maxEntry_def PAYLOAD_def)
  from server_link.runYcsbC_content [OF server_link.intro [OF assms(2) btree_store [OF assms(1) refl]] refl assms(3-7) this start assms(10)]
  show ?thesis using btree_lookup [OF c(2)] by fastforce
qed

definition small_opts :: "nat options" where
  "small_opts = \<lparr>dryRun = False, keyCount = 2, keyBatchCount = 1, payloadSize = 7, opCount = 3, opBatchCount = 2,
     zipfParameter = 0, maxScanLength = 1\<rparr>"

theorem ycsb_c_on_btree_witness:
  "\<forall>henv. \<exists>t0 s1. BTree_new inner_config emptyHeap = Some t0 \<and>
     runYcsbC (plain_env (loop_lib chunk_env (btree_kv inner_config henv))) [''a'', ''b''] small_opts (bench_start t0 () timer_new) =
       Some (Inr (), s1)"
proof
  fix henv
  let ?env = "plain_env (loop_lib chunk_env (btree_kv inner_config henv))"
  obtain t0 where t0: "BTree_new inner_config emptyHeap = Some t0"
    by (rule btree_new [of inner_config 0]) (simp_all add: inner_config_def)
  have link: "hiredis_link (redis ?env) chunk_env (btree_kv inner_config henv) (\<lambda>t. t) loop_reply"
    using loop_link [OF chunk_lower_commands] by (simp add: plain_env_def)
  have "gives_key ?env (keyCount small_opts) (zipfParameter small_opts) False False"
    unfolding small_opts_def by (simp add: plain_gives_key)
  moreover have "run_ok small_opts [''a'', ''b'']" "batches_ok small_opts" "keyCount small_opts < 2 ^ 32"
    by (simp_all add: small_opts_def run_ok_def batches_ok_def keySizeAcceptable_def maxKVSize_eq u32_def)
  moreover have "BTree_new inner_config emptyHeap = Some (b_client (bench_start t0 () timer_new))"
    using t0 by (simp add: bench_start_def)
  ultimately show "\<exists>t0 s1. BTree_new inner_config emptyHeap = Some t0 \<and>
     runYcsbC ?env [''a'', ''b''] small_opts (bench_start t0 () timer_new) = Some (Inr (), s1)"
    using ycsb_c_on_btree [OF inner_basicLeaves link plain_shuffles, where data = "[''a'', ''b'']" and s = "bench_start t0 () timer_new"]
      t0 start_zipf_ok by fastforce
qed

end
